(* ===== verification/GoPrelude.thy ===== *)
theory GoPrelude
  imports Main "HOL-Library.Word" "HOL-Library.Multiset"
begin

text \<open>
  Shared vocabulary of the development: the theorem collections the component theories
  extend, the ring-buffer view that the channel buffer and the scheduler's run queues share,
  and the queue interface that these queues implement.

  Conventions used by every theory. Go's \<open>uint8\<close>, \<open>uint32\<close>, \<open>uint64\<close> are
  \<open>8 word\<close>, \<open>32 word\<close>, \<open>64 word\<close> where wrap-around or bit layout matters; lengths and
  indices that the code keeps within a slice are \<open>nat\<close>; Go's \<open>int\<close> is \<open>int\<close> where its
  sign matters. A panic, a \<open>throw\<close> or an \<open>error\<close> result is the \<open>Inl\<close> side of a sum.
\<close>

unbundle bit_operations_syntax

named_theorems ring_simps \<open>rewriting of the ring-buffer view\<close>
named_theorems chan_inv \<open>preservation of the channel invariant\<close>
named_theorems chan_defs \<open>unfolding of the channel operations\<close>

type_synonym u8 = "8 word"
type_synonym u16 = "16 word"
type_synonym u32 = "32 word"
type_synonym u64 = "64 word"

section \<open>Ring buffers\<close>

text \<open>
  The \<open>n\<close> elements of the array \<open>xs\<close> that start at index \<open>h\<close>, wrapping around at its end.
\<close>

definition ring :: "'a list \<Rightarrow> nat \<Rightarrow> nat \<Rightarrow> 'a list" where
  "ring xs h n = map (\<lambda>i. xs ! ((h + i) mod length xs)) [0..<n]"

lemma ring_0 [simp, ring_simps]: "ring xs h 0 = []"
  by (simp add: ring_def)

lemma length_ring [simp, ring_simps]: "length (ring xs h n) = n"
  by (simp add: ring_def)

lemma ring_Suc [ring_simps]: "ring xs h (Suc n) = ring xs h n @ [xs ! ((h + n) mod length xs)]"
  by (simp add: ring_def)

lemma ring_Cons: "ring xs h (Suc n) = xs ! (h mod length xs) # ring xs (Suc h) n"
proof -
  have "[0..<Suc n] = 0 # map Suc [0..<n]"
    by (simp add: map_Suc_upt upt_conv_Cons del: upt_Suc)
  then show ?thesis by (simp add: ring_def comp_def del: upt_Suc)
qed

lemma ring_mod [simp]: "ring xs (h mod length xs) n = ring xs h n"
  by (simp add: ring_def mod_add_left_eq)

lemma nth_ring: "i < n \<Longrightarrow> ring xs h n ! i = xs ! ((h + i) mod length xs)"
  by (simp add: ring_def)

text \<open>Two different offsets below the length never meet.\<close>

lemma add_mod_neq:
  assumes "i < n" and "j < n" and "i \<noteq> j"
  shows "(h + i) mod n \<noteq> (h + j) mod (n::nat)"
proof
  assume eq: "(h + i) mod n = (h + j) mod n"
  have "i mod n = j mod n" using eq by (simp only: nat_mod_eq_iff) auto
  with assms show False by simp
qed

text \<open>A write outside the window leaves the view alone; a write just after it extends it.\<close>

lemma ring_update_outside:
  assumes "n \<le> k" and "k < length xs"
  shows "ring (xs[(h + k) mod length xs := v]) h n = ring xs h n"
proof (rule nth_equalityI)
  fix i
  assume "i < length (ring (xs[(h + k) mod length xs := v]) h n)"
  then have "i < n" by simp
  then have "(h + k) mod length xs \<noteq> (h + i) mod length xs"
    using assms by (intro add_mod_neq) auto
  then show "ring (xs[(h + k) mod length xs := v]) h n ! i = ring xs h n ! i"
    using \<open>i < n\<close> by (simp add: nth_ring)
qed simp

lemma ring_push:
  assumes "n < length xs"
  shows "ring (xs[(h + n) mod length xs := v]) h (Suc n) = ring xs h n @ [v]"
proof -
  have "(h + n) mod length xs < length xs" using assms by (intro mod_less_divisor) linarith
  then show ?thesis using assms by (simp add: ring_Suc ring_update_outside)
qed

text \<open>A write to the head slot leaves the tail of the view alone.\<close>

lemma ring_tail_update_head:
  assumes "n \<le> length xs" and "0 < n"
  shows "ring (xs[h mod length xs := v]) (Suc h) (n - 1) = ring xs (Suc h) (n - 1)"
proof (rule nth_equalityI)
  fix i
  assume "i < length (ring (xs[h mod length xs := v]) (Suc h) (n - 1))"
  then have i: "Suc i < n" by simp
  then have "(h + 0) mod length xs \<noteq> (h + Suc i) mod length xs"
    using assms by (intro add_mod_neq) auto
  then have "h mod length xs \<noteq> (h + Suc i) mod length xs" by simp
  then show "ring (xs[h mod length xs := v]) (Suc h) (n - 1) ! i = ring xs (Suc h) (n - 1) ! i"
    using i by (simp add: nth_ring)
qed simp

text \<open>The increment-and-wrap idiom \<open>x++; if x == n { x = 0 }\<close>.\<close>

definition wrap_inc :: "nat \<Rightarrow> nat \<Rightarrow> nat" where
  "wrap_inc n x = (if x + 1 = n then 0 else x + 1)"

lemma wrap_inc_mod: "x < n \<Longrightarrow> wrap_inc n x = (x + 1) mod n"
  by (auto simp: wrap_inc_def)

lemma wrap_inc_less [simp]: "x < n \<Longrightarrow> wrap_inc n x < n"
  by (auto simp: wrap_inc_def)

text \<open>A non-negative Go \<open>int\<close> reads the same as an unsigned value.\<close>

lemma sint_nonneg:
  fixes w :: "'w::len word"
  assumes "0 \<le> sint w"
  shows "sint w = int (unat w)"
proof -
  have "sint w < 2 ^ LENGTH('w)"
    using sint_lt [of w] by (rule less_le_trans) (simp add: power_increasing)
  then have "take_bit LENGTH('w) (sint w) = sint w"
    using assms by (simp add: take_bit_int_eq_self)
  then show ?thesis using uint_sint [of w] by simp
qed

section \<open>Tallies\<close>

text \<open>
  The weight of a list of goroutines, each weighing by its program point, and how it changes when
  one of them moves. The bits of a number put together from fields.
\<close>

definition tally :: "('a \<Rightarrow> nat) \<Rightarrow> 'a list \<Rightarrow> nat" where
  "tally f xs = sum_list (map f xs)"

lemma tally_ge: "i < length xs \<Longrightarrow> f (xs ! i) \<le> tally f xs"
  using elem_le_sum_list [of i "map f xs"] by (simp add: tally_def)

lemma tally_upd: "i < length xs \<Longrightarrow> tally f (xs[i := x]) + f (xs ! i) = tally f xs + f x"
  using tally_ge [of i xs f] by (simp add: tally_def map_update sum_list_update)

lemma tally_zero: "tally f xs = 0 \<longleftrightarrow> (\<forall>x \<in> set xs. f x = 0)"
  by (simp add: tally_def)

lemma tally_replicate: "tally f (replicate k x) = k * f x"
  by (simp add: tally_def sum_list_replicate)

lemma tally_le_length: "(\<And>x. f x \<le> 1) \<Longrightarrow> tally f xs \<le> length xs"
proof (induction xs)
  case (Cons a xs)
  then have "tally f xs \<le> length xs" "f a \<le> 1" by blast+
  then show ?case by (simp add: tally_def)
qed (simp add: tally_def)

lemma tally_add: "tally (\<lambda>x. f x + g x) xs = tally f xs + tally g xs"
  by (simp add: tally_def sum_list_addf)

text \<open>If all others weigh nothing, the tally is the weight of one.\<close>

lemma tally_single:
  assumes "i < length xs" "\<And>j. j < length xs \<Longrightarrow> j \<noteq> i \<Longrightarrow> f (xs ! j) = 0"
  shows "tally f xs = f (xs ! i)"
proof -
  have "tally f xs = (\<Sum>j = 0..<length xs. f (xs ! j))"
    by (simp add: tally_def sum_list_sum_nth)
  also have "\<dots> = (\<Sum>j = 0..<length xs. if j = i then f (xs ! i) else 0)"
    using assms(2) by (intro sum.cong) auto
  also have "\<dots> = f (xs ! i)" using assms(1) by simp
  finally show ?thesis .
qed

lemma bit_of_bool_double:
  "bit (of_bool b + 2 * y :: nat) 0 = b" "bit (of_bool b + 2 * y :: nat) (Suc k) = bit y k"
  by (simp add: bit_0) (cases b; simp add: bit_Suc)

lemma bit_concat:
  assumes "a < 2 ^ n"
  shows "bit (a + 2 ^ n * b :: nat) k = (if k < n then bit a k else bit b (k - n))"
proof (cases "k < n")
  case True
  then obtain d where n: "n = k + Suc d" using less_iff_Suc_add by fastforce
  have "a + 2 ^ n * b = a + (2 * (2 ^ d * b)) * 2 ^ k"
    by (simp add: n power_add algebra_simps)
  then have "(a + 2 ^ n * b) div 2 ^ k = 2 * (2 ^ d * b) + a div 2 ^ k"
    by (simp only: div_mult_self1) simp
  then show ?thesis using True by (simp add: bit_iff_odd)
next
  case False
  then obtain d where k: "k = n + d" using le_Suc_ex not_less by blast
  have "(a + 2 ^ n * b) div 2 ^ k = (a + 2 ^ n * b) div 2 ^ n div 2 ^ d"
    by (simp add: k power_add div_mult2_eq)
  also have "\<dots> = b div 2 ^ d" using assms by simp
  finally show ?thesis by (simp add: bit_iff_odd k)
qed

lemma bit_imp_ge: "bit (n :: nat) k \<Longrightarrow> 2 ^ k \<le> n"
  by (rule ccontr) (simp add: bit_iff_odd not_le)

section \<open>The queue interface\<close>

text \<open>
  A first-in first-out queue: \<open>enq\<close> and \<open>deq\<close> implement the list operations \<open>q @ [x]\<close> and
  taking the head, through the abstraction \<open>abs\<close>, on states that satisfy \<open>inv\<close>; \<open>ok x q\<close>
  says when the client may enqueue \<open>x\<close> (there is room, or \<open>x\<close> is not linked elsewhere).
\<close>

locale fifo_queue =
  fixes inv :: "'q \<Rightarrow> bool"
    and abs :: "'q \<Rightarrow> 'a list"
    and ok :: "'a \<Rightarrow> 'q \<Rightarrow> bool"
    and enq :: "'a \<Rightarrow> 'q \<Rightarrow> 'q"
    and deq :: "'q \<Rightarrow> 'a option \<times> 'q"
  assumes enq_inv: "inv q \<Longrightarrow> ok x q \<Longrightarrow> inv (enq x q)"
    and enq_abs: "inv q \<Longrightarrow> ok x q \<Longrightarrow> abs (enq x q) = abs q @ [x]"
    and deq_inv: "inv q \<Longrightarrow> inv (snd (deq q))"
    and deq_empty: "inv q \<Longrightarrow> abs q = [] \<Longrightarrow> fst (deq q) = None \<and> abs (snd (deq q)) = []"
    and deq_Cons: "inv q \<Longrightarrow> abs q = x # xs \<Longrightarrow> fst (deq q) = Some x \<and> abs (snd (deq q)) = xs"
begin

fun enq_all :: "'a list \<Rightarrow> 'q \<Rightarrow> 'q" where
  "enq_all [] q = q"
| "enq_all (x # xs) q = enq_all xs (enq x q)"

fun ok_all :: "'a list \<Rightarrow> 'q \<Rightarrow> bool" where
  "ok_all [] q = True"
| "ok_all (x # xs) q = (ok x q \<and> ok_all xs (enq x q))"

fun deq_n :: "nat \<Rightarrow> 'q \<Rightarrow> 'a list \<times> 'q" where
  "deq_n 0 q = ([], q)"
| "deq_n (Suc n) q =
     (case deq q of (None, q') \<Rightarrow> ([], q')
      | (Some x, q') \<Rightarrow> (let (xs, q'') = deq_n n q' in (x # xs, q'')))"

lemma enq_all_inv: "inv q \<Longrightarrow> ok_all xs q \<Longrightarrow> inv (enq_all xs q)"
  by (induction xs arbitrary: q) (auto simp: enq_inv)

lemma enq_all_abs: "inv q \<Longrightarrow> ok_all xs q \<Longrightarrow> abs (enq_all xs q) = abs q @ xs"
  by (induction xs arbitrary: q) (auto simp: enq_inv enq_abs)

lemma deq_n_abs:
  "inv q \<Longrightarrow> n \<le> length (abs q) \<Longrightarrow>
     fst (deq_n n q) = take n (abs q) \<and> abs (snd (deq_n n q)) = drop n (abs q) \<and> inv (snd (deq_n n q))"
proof (induction n arbitrary: q)
  case 0
  then show ?case by simp
next
  case (Suc n)
  then obtain x xs where q: "abs q = x # xs" by (cases "abs q") auto
  obtain r q' where d: "deq q = (r, q')" by (cases "deq q")
  from deq_Cons [OF Suc.prems(1) q] deq_inv [OF Suc.prems(1)] d
  have "r = Some x" and "abs q' = xs" and "inv q'" by auto
  with Suc.IH [of q'] Suc.prems q d show ?case
    by (auto simp: split_beta)
qed

text \<open>What goes in comes out, in order, with nothing lost.\<close>

lemma fifo_roundtrip:
  "inv q \<Longrightarrow> abs q = [] \<Longrightarrow> ok_all xs q \<Longrightarrow> fst (deq_n (length xs) (enq_all xs q)) = xs"
  using deq_n_abs [of "enq_all xs q" "length xs"] by (simp add: enq_all_inv enq_all_abs)

end

end
