(* ===== verification/Chan.thy ===== *)
theory Chan
  imports GoPrelude
begin

text \<open>
  Channels: \<open>runtime/chan.go\<close>. One value of \<open>hchan\<close> is the state a channel's lock protects;
  each operation is the critical section between \<open>lock(&c.lock)\<close> and its \<open>unlock\<close>, with the
  unlocked fast paths evaluated on the same state (the comments of the source argue that they
  are equivalent to one observation). Goroutines are numbers. Waking a goroutine is an entry of
  the list of wake-ups the operation returns, in the order of the \<open>goready\<close> calls. The race
  detector, the block profiler and the stack-shrinking flags are off, as in a normal build.
\<close>

section \<open>Data\<close>

text \<open>
  A blocked goroutine. \<open>sg_elem\<close> is what the \<open>elem\<close> pointer means to the other side: for a
  sender the value it points to, for a receiver whether the pointer is non-nil. \<open>sg_case\<close> tells the sudogs of
  one \<open>select\<close> apart, by the index of their case; it stands for their addresses. The sudog that \<open>gp.param\<close>
  names when a goroutine is woken is \<open>wk_case\<close>.
\<close>

record 'e sudog =
  sg_g :: nat
  sg_elem :: 'e
  sg_isSelect :: bool
  sg_case :: nat

record 'a hchan =
  qcount :: nat
  dataqsiz :: nat
  buf :: "'a list"
  elemsize :: u16
  closed :: bool
  sendx :: nat
  recvx :: nat
  recvq :: "bool sudog list"
  sendq :: "'a sudog list"

record 'a wakeup =
  wk_g :: nat
  wk_success :: bool
  wk_case :: nat
  wk_value :: "'a option"

datatype chan_error =
    SendOnClosed | CloseOfNil | CloseOfClosed | SizeOutOfRange
  | InvalidElemType | BadAlignment | SpuriousWakeup

datatype send_result = SendDone bool | SendParked | SendNilForever | SendPanic chan_error
datatype 'a recv_result = RecvDone bool bool "'a option" | RecvParked | RecvNilForever

section \<open>Wait queues\<close>

definition waitq_enqueue :: "'e sudog \<Rightarrow> 'e sudog list \<Rightarrow> 'e sudog list" where
  "waitq_enqueue sgp q = q @ [sgp]"

text \<open>
  \<open>dequeue\<close> drops the entries of goroutines whose select has been won by another case: the
  compare-and-swap on \<open>selectDone\<close>, a set of goroutines here, fails for them.
\<close>

fun waitq_dequeue :: "nat set \<Rightarrow> 'e sudog list \<Rightarrow> 'e sudog option \<times> 'e sudog list \<times> nat set" where
  "waitq_dequeue dn [] = (None, [], dn)"
| "waitq_dequeue dn (sgp # q) =
     (if sg_isSelect sgp \<and> sg_g sgp \<in> dn then waitq_dequeue dn q
      else (Some sgp, q, if sg_isSelect sgp then insert (sg_g sgp) dn else dn))"

lemma waitq_dequeue_shorter:
  "waitq_dequeue dn q = (Some sg, q', dn') \<Longrightarrow> length q' < length q"
  by (induction dn q rule: waitq_dequeue.induct) (auto split: if_splits)

text \<open>The loops of \<open>closechan\<close> that empty a queue.\<close>

function waitq_drain :: "nat set \<Rightarrow> 'e sudog list \<Rightarrow> 'e sudog list \<times> nat set" where
  "waitq_drain dn q =
     (case waitq_dequeue dn q of
        (None, q', dn') \<Rightarrow> ([], dn')
      | (Some sg, q', dn') \<Rightarrow> (let (sgs, dn'') = waitq_drain dn' q' in (sg # sgs, dn'')))"
  by pat_completeness auto
termination
  by (relation "measure (\<lambda>(dn, q). length q)")
    (auto dest: waitq_dequeue_shorter[OF sym] waitq_dequeue_shorter)

declare waitq_drain.simps [simp del]

section \<open>Making a channel\<close>

definition MulUintptr :: "u64 \<Rightarrow> u64 \<Rightarrow> u64 \<times> bool" where
  "MulUintptr a b =
     (if (a OR b) < push_bit 32 1 \<or> a = 0 then (a * b, False)
      else (a * b, b > (- 1) div a))"

text \<open>The constants of a 64-bit build.\<close>

definition hchanSize :: u64 where "hchanSize = 96"
definition maxAlign :: nat where "maxAlign = 8"
definition maxAlloc :: u64 where "maxAlloc = push_bit 48 1"

text \<open>\<open>mallocgc\<close> returns zeroed memory: the slots hold the element type's zero value \<open>z\<close>.\<close>

definition makechan :: "u64 \<Rightarrow> nat \<Rightarrow> 'a \<Rightarrow> 64 word \<Rightarrow> chan_error + 'a hchan" where
  "makechan elem_size elem_align z sz =
     (if elem_size \<ge> push_bit 16 1 then Inl InvalidElemType
      else if unat hchanSize mod maxAlign \<noteq> 0 \<or> elem_align > maxAlign then Inl BadAlignment
      else let (mem, overflow) = MulUintptr elem_size sz in
        if overflow \<or> mem > maxAlloc - hchanSize \<or> sint sz < 0 then Inl SizeOutOfRange
        else Inr \<lparr> qcount = 0, dataqsiz = unat sz, buf = replicate (unat sz) z,
                   elemsize = ucast elem_size, closed = False, sendx = 0, recvx = 0,
                   recvq = [], sendq = [] \<rparr>)"

section \<open>Sending\<close>

definition full :: "'a hchan \<Rightarrow> bool" where
  "full c = (if dataqsiz c = 0 then recvq c = [] else qcount c = dataqsiz c)"

text \<open>\<open>send\<close>: hand the value to the dequeued receiver \<open>sg\<close> and make it runnable.\<close>

definition send :: "bool sudog \<Rightarrow> 'a \<Rightarrow> 'a wakeup" where
  "send sg v = \<lparr> wk_g = sg_g sg, wk_success = True, wk_case = sg_case sg,
                 wk_value = (if sg_elem sg then Some v else None) \<rparr>"

definition chansend ::
  "nat \<Rightarrow> 'a \<Rightarrow> bool \<Rightarrow> 'a hchan option \<Rightarrow> nat set \<Rightarrow>
     send_result \<times> 'a hchan option \<times> nat set \<times> 'a wakeup list" where
  "chansend gp v block ch dn =
     (case ch of None \<Rightarrow> (if \<not> block then SendDone False else SendNilForever, ch, dn, [])
      | Some c \<Rightarrow>
        if \<not> block \<and> \<not> closed c \<and> full c then (SendDone False, ch, dn, [])
        else if closed c then (SendPanic SendOnClosed, ch, dn, [])
        else (case waitq_dequeue dn (recvq c) of
            (Some sg, q, dn') \<Rightarrow> (SendDone True, Some (c\<lparr>recvq := q\<rparr>), dn', [send sg v])
          | (None, q, dn') \<Rightarrow>
              let c = c\<lparr>recvq := q\<rparr> in
              if qcount c < dataqsiz c then
                (SendDone True,
                 Some (c\<lparr>buf := (buf c)[sendx c := v],
                         sendx := wrap_inc (dataqsiz c) (sendx c),
                         qcount := qcount c + 1\<rparr>), dn', [])
              else if \<not> block then (SendDone False, Some c, dn', [])
              else (SendParked,
                    Some (c\<lparr>sendq := waitq_enqueue
                             \<lparr>sg_g = gp, sg_elem = v, sg_isSelect = False, sg_case = 0\<rparr> (sendq c)\<rparr>), dn', [])))"

text \<open>The part of \<open>chansend\<close> after \<open>gopark\<close>, run by the goroutine that was woken.\<close>

definition chansend_resume :: "'a wakeup \<Rightarrow> 'a hchan \<Rightarrow> send_result" where
  "chansend_resume w c =
     (if \<not> wk_success w then
        (if \<not> closed c then SendPanic SpuriousWakeup else SendPanic SendOnClosed)
      else SendDone True)"

definition selectnbsend ::
  "nat \<Rightarrow> 'a \<Rightarrow> 'a hchan option \<Rightarrow> nat set \<Rightarrow>
     send_result \<times> 'a hchan option \<times> nat set \<times> 'a wakeup list" where
  "selectnbsend gp v ch dn = chansend gp v False ch dn"

section \<open>Receiving\<close>

definition empty :: "'a hchan \<Rightarrow> bool" where
  "empty c = (if dataqsiz c = 0 then sendq c = [] else qcount c = 0)"

text \<open>
  \<open>recv\<close>: the dequeued sender \<open>sg\<close> either hands its value over (no buffer) or takes the slot of
  the oldest buffered value. Returns the channel, the value received and the sender's wake-up.
\<close>

definition recv :: "'a hchan \<Rightarrow> 'a sudog \<Rightarrow> 'a hchan \<times> 'a \<times> 'a wakeup" where
  "recv c sg =
     (let w = \<lparr>wk_g = sg_g sg, wk_success = True, wk_case = sg_case sg, wk_value = None\<rparr> in
      if dataqsiz c = 0 then (c, sg_elem sg, w)
      else (let rx = wrap_inc (dataqsiz c) (recvx c) in
            (c\<lparr>buf := (buf c)[recvx c := sg_elem sg], recvx := rx, sendx := rx\<rparr>,
             buf c ! recvx c, w)))"

text \<open>
  \<open>ep\<close> says whether the destination is non-nil; the value written there is the last component
  of \<open>RecvDone\<close> (\<open>typedmemclr\<close> writes the zero value \<open>z\<close>).
\<close>

definition chanrecv ::
  "'a \<Rightarrow> nat \<Rightarrow> bool \<Rightarrow> bool \<Rightarrow> 'a hchan option \<Rightarrow> nat set \<Rightarrow>
     'a recv_result \<times> 'a hchan option \<times> nat set \<times> 'a wakeup list" where
  "chanrecv z gp ep block ch dn =
     (let out = (\<lambda>v. if ep then Some v else None) in
      case ch of None \<Rightarrow> (if \<not> block then RecvDone False False None else RecvNilForever, ch, dn, [])
      | Some c \<Rightarrow>
        if \<not> block \<and> empty c \<and> \<not> closed c then (RecvDone False False None, ch, dn, [])
        else if \<not> block \<and> empty c then (RecvDone True False (out z), ch, dn, [])
        else if closed c \<and> qcount c = 0 then (RecvDone True False (out z), ch, dn, [])
        else (case waitq_dequeue dn (sendq c) of
            (Some sg, q, dn') \<Rightarrow>
              (let (c', v, w) = recv (c\<lparr>sendq := q\<rparr>) sg
               in (RecvDone True True (out v), Some c', dn', [w]))
          | (None, q, dn') \<Rightarrow>
              let c = c\<lparr>sendq := q\<rparr> in
              if qcount c > 0 then
                (RecvDone True True (out (buf c ! recvx c)),
                 Some (c\<lparr>buf := (buf c)[recvx c := z],
                         recvx := wrap_inc (dataqsiz c) (recvx c),
                         qcount := qcount c - 1\<rparr>), dn', [])
              else if \<not> block then (RecvDone False False None, Some c, dn', [])
              else (RecvParked,
                    Some (c\<lparr>recvq := waitq_enqueue
                             \<lparr>sg_g = gp, sg_elem = ep, sg_isSelect = False, sg_case = 0\<rparr> (recvq c)\<rparr>), dn', [])))"

definition chanrecv_resume :: "'a wakeup \<Rightarrow> 'a recv_result" where
  "chanrecv_resume w = RecvDone True (wk_success w) (wk_value w)"

definition selectnbrecv ::
  "'a \<Rightarrow> nat \<Rightarrow> bool \<Rightarrow> 'a hchan option \<Rightarrow> nat set \<Rightarrow>
     'a recv_result \<times> 'a hchan option \<times> nat set \<times> 'a wakeup list" where
  "selectnbrecv z gp ep ch dn = chanrecv z gp ep False ch dn"

section \<open>Closing, length and capacity\<close>

text \<open>
  \<open>glist\<close> is a stack: the goroutines are made ready in the reverse of the order they left the
  queues. Receivers get the zero value and senders panic when they resume.
\<close>

definition closechan ::
  "'a \<Rightarrow> 'a hchan option \<Rightarrow> nat set \<Rightarrow>
     chan_error + ('a hchan \<times> nat set \<times> 'a wakeup list)" where
  "closechan z ch dn =
     (case ch of None \<Rightarrow> Inl CloseOfNil
      | Some c \<Rightarrow>
        if closed c then Inl CloseOfClosed
        else let c = c\<lparr>closed := True\<rparr>;
                 (rs, dn') = waitq_drain dn (recvq c);
                 (ss, dn'') = waitq_drain dn' (sendq c);
                 glist = map (\<lambda>sg. \<lparr>wk_g = sg_g sg, wk_success = False, wk_case = sg_case sg,
                                    wk_value = (if sg_elem sg then Some z else None)\<rparr>) rs
                       @ map (\<lambda>sg. \<lparr>wk_g = sg_g sg, wk_success = False, wk_case = sg_case sg, wk_value = None\<rparr>) ss
             in Inr (c\<lparr>recvq := [], sendq := []\<rparr>, dn'', rev glist))"

definition reflect_chanlen :: "'a hchan option \<Rightarrow> nat" where
  "reflect_chanlen ch = (case ch of None \<Rightarrow> 0 | Some c \<Rightarrow> qcount c)"

definition reflect_chancap :: "'a hchan option \<Rightarrow> nat" where
  "reflect_chancap ch = (case ch of None \<Rightarrow> 0 | Some c \<Rightarrow> dataqsiz c)"

section \<open>Wait queues are FIFO queues\<close>

text \<open>
  Away from \<open>select\<close> every entry is live, and a wait queue is a queue of goroutines with
  their elements, whatever the set of won selects is.
\<close>

definition plain_q :: "'e sudog list \<Rightarrow> bool" where
  "plain_q q \<longleftrightarrow> (\<forall>sg \<in> set q. \<not> sg_isSelect sg)"

lemma plain_q_simps [simp]:
  "plain_q []"
  "plain_q (sg # q) \<longleftrightarrow> \<not> sg_isSelect sg \<and> plain_q q"
  "plain_q (q @ q') \<longleftrightarrow> plain_q q \<and> plain_q q'"
  by (auto simp: plain_q_def)

lemma dequeue_plain_Nil [simp]: "waitq_dequeue dn [] = (None, [], dn)"
  by simp

lemma dequeue_plain_Cons [simp]:
  "\<not> sg_isSelect sg \<Longrightarrow> waitq_dequeue dn (sg # q) = (Some sg, q, dn)"
  by simp

lemma drain_plain: "plain_q q \<Longrightarrow> waitq_drain dn q = (q, dn)"
  by (induction q) (simp_all add: waitq_drain.simps)

interpretation waitq: fifo_queue plain_q "map (\<lambda>sg. (sg_g sg, sg_elem sg))"
  "\<lambda>_ _. True" "\<lambda>(g, e). waitq_enqueue \<lparr>sg_g = g, sg_elem = e, sg_isSelect = False, sg_case = 0\<rparr>"
  "\<lambda>q. (map_option (\<lambda>sg. (sg_g sg, sg_elem sg)) (fst (waitq_dequeue dn q)),
        fst (snd (waitq_dequeue dn q)))"
  for dn
proof
  fix q :: "'e sudog list"
  assume "plain_q q"
  then show "plain_q (snd (map_option (\<lambda>sg. (sg_g sg, sg_elem sg)) (fst (waitq_dequeue dn q)),
        fst (snd (waitq_dequeue dn q))))"
    by (cases q) auto
qed (auto simp: waitq_enqueue_def Cons_eq_map_conv)

section \<open>The channel invariant\<close>

text \<open>
  What the comment at the head of the file promises, with what relates the two indices. The
  values in flight, oldest first, are those of the circular buffer and then those of the blocked
  senders.
\<close>

definition chan_wf :: "'a hchan \<Rightarrow> bool" where
  "chan_wf c \<longleftrightarrow>
     length (buf c) = dataqsiz c \<and> qcount c \<le> dataqsiz c
   \<and> (dataqsiz c = 0 \<longrightarrow> sendx c = 0 \<and> recvx c = 0)
   \<and> (0 < dataqsiz c \<longrightarrow> recvx c < dataqsiz c \<and> sendx c = (recvx c + qcount c) mod dataqsiz c)
   \<and> plain_q (recvq c) \<and> plain_q (sendq c)
   \<and> (recvq c \<noteq> [] \<longrightarrow> qcount c = 0 \<and> sendq c = [])
   \<and> (sendq c \<noteq> [] \<longrightarrow> qcount c = dataqsiz c)
   \<and> (closed c \<longrightarrow> recvq c = [] \<and> sendq c = [])"

definition queued :: "'a hchan \<Rightarrow> 'a list" where
  "queued c = ring (buf c) (recvx c) (qcount c)"

definition pending :: "'a hchan \<Rightarrow> 'a list" where
  "pending c = queued c @ map sg_elem (sendq c)"

lemma makechan_wf: "makechan es al z sz = Inr c \<Longrightarrow> chan_wf c \<and> pending c = [] \<and> \<not> closed c"
  by (auto simp: makechan_def chan_wf_def pending_def queued_def Let_def
      split: if_splits prod.splits)

lemma makechan_size:
  "makechan es al z sz = Inr c \<Longrightarrow> int (dataqsiz c) = sint sz \<and> qcount c = 0"
  by (auto simp: makechan_def Let_def sint_nonneg split: if_splits prod.splits)

text \<open>The three successful outcomes of a send on an open channel.\<close>

lemma send_to_receiver:
  assumes "chan_wf c" and "recvq c = sg # q" and "\<not> closed c"
  shows "chansend g v b (Some c) dn = (SendDone True, Some (c\<lparr>recvq := q\<rparr>), dn, [send sg v])"
    and "chan_wf (c\<lparr>recvq := q\<rparr>)" and "pending (c\<lparr>recvq := q\<rparr>) = []" and "pending c = []"
  using assms by (auto simp: chansend_def chan_wf_def full_def pending_def queued_def)

lemma send_to_buffer:
  assumes "chan_wf c" and "recvq c = []" and "\<not> closed c" and "qcount c < dataqsiz c"
  shows "\<exists>c'. chansend g v b (Some c) dn = (SendDone True, Some c', dn, [])
           \<and> chan_wf c' \<and> pending c' = pending c @ [v] \<and> recvq c' = []"
proof -
  let ?c' = "c\<lparr>recvq := [], buf := (buf c)[sendx c := v],
               sendx := wrap_inc (dataqsiz c) (sendx c), qcount := qcount c + 1\<rparr>"
  have idx: "sendx c = (recvx c + qcount c) mod length (buf c)" "length (buf c) = dataqsiz c"
    "sendx c < dataqsiz c" "sendq c = []"
    using assms by (auto simp: chan_wf_def)
  have "ring ((buf c)[sendx c := v]) (recvx c) (Suc (qcount c)) = queued c @ [v]"
    using ring_push [of "qcount c" "buf c" "recvx c" v] assms(4) idx by (simp add: queued_def)
  then have "pending ?c' = pending c @ [v]"
    using idx by (simp add: pending_def queued_def)
  moreover have "chan_wf ?c'"
    using assms idx by (auto simp: chan_wf_def wrap_inc_mod mod_Suc_eq)
  ultimately show ?thesis
    using assms by (auto simp: chansend_def full_def)
qed

lemma send_parks:
  assumes "chan_wf c" and "recvq c = []" and "\<not> closed c" and "qcount c = dataqsiz c"
  shows "\<exists>c'. chansend g v True (Some c) dn = (SendParked, Some c', dn, [])
           \<and> chan_wf c' \<and> pending c' = pending c @ [v] \<and> recvq c' = []"
    and "chansend g v False (Some c) dn = (SendDone False, Some c, dn, [])"
  using assms
  by (auto simp: chansend_def full_def chan_wf_def pending_def queued_def waitq_enqueue_def)

lemma send_closed:
  "closed c \<Longrightarrow> chansend g v b (Some c) dn = (SendPanic SendOnClosed, Some c, dn, [])"
  by (simp add: chansend_def)

text \<open>The outcomes of a receive.\<close>

lemma recv_from_sender:
  assumes "chan_wf c" and "sendq c = sg # q"
  shows "\<exists>c' v. chanrecv z g ep b (Some c) dn =
             (RecvDone True True (if ep then Some v else None), Some c', dn,
              [\<lparr>wk_g = sg_g sg, wk_success = True, wk_case = sg_case sg, wk_value = None\<rparr>])
           \<and> chan_wf c' \<and> pending c = v # pending c' \<and> closed c' = closed c \<and> recvq c' = []"
proof (cases "dataqsiz c = 0")
  case True
  with assms show ?thesis
    by (auto simp: chanrecv_def chan_wf_def empty_def recv_def pending_def queued_def Let_def)
next
  case False
  define n where "n = dataqsiz c"
  have c: "length (buf c) = n" "qcount c = n" "recvx c < n" "sendx c = recvx c" "0 < n"
    "recvq c = []" "\<not> closed c" "plain_q (sg # q)"
    using assms False by (auto simp: chan_wf_def n_def)
  let ?rx = "wrap_inc n (recvx c)"
  let ?c' = "c\<lparr>sendq := q, buf := (buf c)[recvx c := sg_elem sg], recvx := ?rx, sendx := ?rx\<rparr>"
  have rx: "?rx = Suc (recvx c) mod n" using c by (simp add: wrap_inc_mod)
  have tail: "ring (buf c) (Suc (recvx c)) (n - 1)
      = ring ((buf c)[recvx c := sg_elem sg]) (Suc (recvx c)) (n - 1)"
    using ring_tail_update_head [of n "buf c" "recvx c" "sg_elem sg"] c by simp
  have "queued c = buf c ! recvx c # ring (buf c) (Suc (recvx c)) (n - 1)"
    using ring_Cons [of "buf c" "recvx c" "n - 1"] c by (simp add: queued_def)
  moreover have "queued ?c' = ring (buf c) (Suc (recvx c)) (n - 1) @ [sg_elem sg]"
  proof -
    have "queued ?c' = ring ((buf c)[recvx c := sg_elem sg]) (Suc (recvx c)) (Suc (n - 1))"
      using c rx ring_mod [of "(buf c)[recvx c := sg_elem sg]" "Suc (recvx c)" n]
      by (simp add: queued_def)
    moreover have "(Suc (recvx c) + (n - 1)) mod n = recvx c" using c by simp
    ultimately show ?thesis
      using c tail ring_Suc [of "(buf c)[recvx c := sg_elem sg]" "Suc (recvx c)" "n - 1"]
      by (simp del: add_Suc)
  qed
  ultimately have "pending c = buf c ! recvx c # pending ?c'"
    using assms by (simp add: pending_def)
  moreover have "chan_wf ?c'"
    using c by (auto simp: chan_wf_def n_def[symmetric])
  moreover have "chanrecv z g ep b (Some c) dn =
             (RecvDone True True (if ep then Some (buf c ! recvx c) else None), Some ?c', dn,
              [\<lparr>wk_g = sg_g sg, wk_success = True, wk_case = sg_case sg, wk_value = None\<rparr>])"
    using c assms by (simp add: chanrecv_def empty_def recv_def Let_def n_def[symmetric])
  ultimately show ?thesis using c by auto
qed

lemma recv_from_buffer:
  assumes "chan_wf c" and "sendq c = []" and "0 < qcount c"
  shows "\<exists>c' v. chanrecv z g ep b (Some c) dn =
             (RecvDone True True (if ep then Some v else None), Some c', dn, [])
           \<and> chan_wf c' \<and> pending c = v # pending c' \<and> closed c' = closed c \<and> recvq c' = []"
proof -
  let ?rx = "wrap_inc (dataqsiz c) (recvx c)"
  let ?c' = "c\<lparr>sendq := [], buf := (buf c)[recvx c := z], recvx := ?rx, qcount := qcount c - 1\<rparr>"
  have c: "length (buf c) = dataqsiz c" "qcount c \<le> dataqsiz c" "0 < dataqsiz c"
    "recvx c < dataqsiz c" "sendx c = (recvx c + qcount c) mod dataqsiz c" "recvq c = []"
    using assms by (auto simp: chan_wf_def)
  have rx: "?rx = Suc (recvx c) mod dataqsiz c" using c by (simp add: wrap_inc_mod)
  have "queued c = buf c ! recvx c # ring (buf c) (Suc (recvx c)) (qcount c - 1)"
    using ring_Cons [of "buf c" "recvx c" "qcount c - 1"] c assms by (simp add: queued_def)
  moreover have "queued ?c' = ring (buf c) (Suc (recvx c)) (qcount c - 1)"
    using c rx assms ring_tail_update_head [of "qcount c" "buf c" "recvx c" z]
      ring_mod [of "(buf c)[recvx c := z]" "Suc (recvx c)" "qcount c - 1"]
    by (simp add: queued_def)
  ultimately have "pending c = buf c ! recvx c # pending ?c'"
    using assms by (simp add: pending_def)
  moreover have "(recvx c + qcount c) mod dataqsiz c
      = (Suc (recvx c) mod dataqsiz c + (qcount c - 1)) mod dataqsiz c"
    using assms by (simp only: mod_add_left_eq) simp
  then have "chan_wf ?c'"
    using c rx assms by (auto simp: chan_wf_def)
  moreover have "chanrecv z g ep b (Some c) dn =
             (RecvDone True True (if ep then Some (buf c ! recvx c) else None), Some ?c', dn, [])"
    using c assms by (auto simp: chanrecv_def empty_def)
  ultimately show ?thesis using assms c by auto
qed

lemma recv_closed_empty:
  assumes "chan_wf c" and "closed c" and "pending c = []"
  shows "chanrecv z g ep b (Some c) dn =
           (RecvDone True False (if ep then Some z else None), Some c, dn, [])"
proof -
  have "qcount c = 0" "sendq c = []"
    using assms by (auto simp: chan_wf_def pending_def queued_def ring_def)
  then show ?thesis using assms by (simp add: chanrecv_def empty_def)
qed

lemma recv_parks:
  assumes "chan_wf c" and "\<not> closed c" and "pending c = []"
  shows "\<exists>c'. chanrecv z g ep True (Some c) dn = (RecvParked, Some c', dn, [])
           \<and> chan_wf c' \<and> pending c' = []
           \<and> recvq c' = recvq c @ [\<lparr>sg_g = g, sg_elem = ep, sg_isSelect = False, sg_case = 0\<rparr>]"
    and "chanrecv z g ep False (Some c) dn = (RecvDone False False None, Some c, dn, [])"
proof -
  have "qcount c = 0" "sendq c = []"
    using assms by (auto simp: chan_wf_def pending_def queued_def ring_def)
  then show "\<exists>c'. chanrecv z g ep True (Some c) dn = (RecvParked, Some c', dn, [])
           \<and> chan_wf c' \<and> pending c' = []
           \<and> recvq c' = recvq c @ [\<lparr>sg_g = g, sg_elem = ep, sg_isSelect = False, sg_case = 0\<rparr>]"
    and "chanrecv z g ep False (Some c) dn = (RecvDone False False None, Some c, dn, [])"
    using assms
    by (auto simp: chanrecv_def empty_def chan_wf_def pending_def queued_def waitq_enqueue_def Let_def)
qed

lemma recv_cases:
  assumes "chan_wf c"
  obtains (sender) sg q where "sendq c = sg # q"
    | (buffer) "sendq c = []" "0 < qcount c"
    | (drained) "pending c = []" "closed c"
    | (nothing) "pending c = []" "\<not> closed c"
  using assms
  by (cases "sendq c"; cases "qcount c"; cases "closed c") (auto simp: pending_def queued_def)

lemma send_cases:
  assumes "chan_wf c"
  obtains (receiver) sg q where "recvq c = sg # q" "\<not> closed c"
    | (room) "recvq c = []" "\<not> closed c" "qcount c < dataqsiz c"
    | (full) "recvq c = []" "\<not> closed c" "qcount c = dataqsiz c"
    | (closed) "closed c"
  using assms by (cases "recvq c"; cases "closed c"; cases "qcount c < dataqsiz c")
    (auto simp: chan_wf_def)

text \<open>Closing wakes everybody who waits and leaves the buffered values in place.\<close>

lemma close_open:
  assumes "chan_wf c" and "\<not> closed c"
  shows "\<exists>c' ws. closechan z (Some c) dn = Inr (c', dn, ws) \<and> chan_wf c' \<and> closed c'
           \<and> pending c' = queued c \<and> recvq c' = []
           \<and> map wk_g ws = rev (map sg_g (recvq c) @ map sg_g (sendq c))
           \<and> (\<forall>w \<in> set ws. \<not> wk_success w)"
  using assms
  by (auto simp: closechan_def chan_wf_def drain_plain pending_def queued_def Let_def rev_map)

section \<open>Histories of a channel\<close>

text \<open>
  A history of goroutines sending, receiving (with a non-nil destination) and closing, each
  blocking or not. \<open>ts_sent\<close> is the values whose send entered the channel: it was accepted, or
  its goroutine waits in \<open>sendq\<close>; closing takes back those of the senders that then panic.
  \<open>ts_got\<close> is the values received, by the receiver itself or handed to a parked receiver.
\<close>

datatype 'a chan_op = OpSend nat 'a bool | OpRecv nat bool | OpClose

record 'a trace_st =
  ts_chan :: "'a hchan"
  ts_sent :: "'a list"
  ts_got :: "'a list"

fun delivered_by :: "'a wakeup list \<Rightarrow> 'a list" where
  "delivered_by [] = []"
| "delivered_by (w # ws) =
     (case wk_value w of Some v \<Rightarrow> if wk_success w then [v] else [] | None \<Rightarrow> [])
       @ delivered_by ws"

fun chan_exec :: "'a \<Rightarrow> 'a trace_st \<Rightarrow> 'a chan_op \<Rightarrow> 'a trace_st" where
  "chan_exec z st (OpSend g v b) =
     (case chansend g v b (Some (ts_chan st)) {} of (r, ch, _, ws) \<Rightarrow>
        st\<lparr>ts_chan := the ch,
           ts_sent := ts_sent st @ (if r = SendDone True \<or> r = SendParked then [v] else []),
           ts_got := ts_got st @ delivered_by ws\<rparr>)"
| "chan_exec z st (OpRecv g b) =
     (case chanrecv z g True b (Some (ts_chan st)) {} of (r, ch, _, ws) \<Rightarrow>
        st\<lparr>ts_chan := the ch,
           ts_got := ts_got st @ (case r of RecvDone True True (Some v) \<Rightarrow> [v] | _ \<Rightarrow> [])
                               @ delivered_by ws\<rparr>)"
| "chan_exec z st OpClose =
     (case closechan z (Some (ts_chan st)) {} of
        Inl _ \<Rightarrow> st
      | Inr (c', _, ws) \<Rightarrow>
        st\<lparr>ts_chan := c',
           ts_sent := take (length (ts_sent st) - length (sendq (ts_chan st))) (ts_sent st),
           ts_got := ts_got st @ delivered_by ws\<rparr>)"

definition chan_run :: "'a \<Rightarrow> 'a hchan \<Rightarrow> 'a chan_op list \<Rightarrow> 'a trace_st" where
  "chan_run z c ops = foldl (chan_exec z) \<lparr>ts_chan = c, ts_sent = [], ts_got = []\<rparr> ops"

definition recvs_nonnil :: "'a hchan \<Rightarrow> bool" where
  "recvs_nonnil c \<longleftrightarrow> (\<forall>sg \<in> set (recvq c). sg_elem sg)"

definition trace_ok :: "'a trace_st \<Rightarrow> bool" where
  "trace_ok st \<longleftrightarrow> chan_wf (ts_chan st) \<and> recvs_nonnil (ts_chan st)
     \<and> ts_sent st = ts_got st @ pending (ts_chan st)"

text \<open>Each operation keeps the account: what was sent is what was received and what is pending.\<close>

lemma trace_okI:
  "chan_wf c \<Longrightarrow> recvs_nonnil c \<Longrightarrow> sent = got @ pending c \<Longrightarrow>
     trace_ok \<lparr>ts_chan = c, ts_sent = sent, ts_got = got\<rparr>"
  by (simp add: trace_ok_def)

lemma recvs_nonnil_Nil [simp]: "recvq c = [] \<Longrightarrow> recvs_nonnil c"
  by (simp add: recvs_nonnil_def)

lemma exec_send_ok:
  assumes "trace_ok st"
  shows "trace_ok (chan_exec z st (OpSend g v b))"
proof -
  obtain c sent got where st: "st = \<lparr>ts_chan = c, ts_sent = sent, ts_got = got\<rparr>"
    by (cases st)
  have wf: "chan_wf c" and nn: "recvs_nonnil c" and sent: "sent = got @ pending c"
    using assms by (auto simp: trace_ok_def st)
  show ?thesis
  proof (cases rule: send_cases [OF wf])
    case (1 sg q)
    from nn 1 have "sg_elem sg" and "recvs_nonnil (c\<lparr>recvq := q\<rparr>)"
      by (auto simp: recvs_nonnil_def)
    with send_to_receiver [OF wf 1] sent show ?thesis
      by (simp add: st send_def trace_okI)
  next
    case 2
    obtain c' where "chansend g v b (Some c) {} = (SendDone True, Some c', {}, [])"
      "chan_wf c'" "pending c' = pending c @ [v]" "recvq c' = []"
      using send_to_buffer [OF wf 2] by blast
    with sent show ?thesis by (simp add: st trace_okI)
  next
    case 3
    obtain c' where "chansend g v True (Some c) {} = (SendParked, Some c', {}, [])"
      "chan_wf c'" "pending c' = pending c @ [v]" "recvq c' = []"
      using send_parks(1) [OF wf 3] by blast
    with send_parks(2) [OF wf 3] sent wf nn show ?thesis
      by (cases b) (simp_all add: st trace_okI)
  next
    case 4
    with wf nn sent show ?thesis by (simp add: st trace_okI send_closed)
  qed
qed

lemma exec_recv_ok:
  assumes "trace_ok st"
  shows "trace_ok (chan_exec z st (OpRecv g b))"
proof -
  obtain c sent got where st: "st = \<lparr>ts_chan = c, ts_sent = sent, ts_got = got\<rparr>"
    by (cases st)
  have wf: "chan_wf c" and nn: "recvs_nonnil c" and sent: "sent = got @ pending c"
    using assms by (auto simp: trace_ok_def st)
  show ?thesis
  proof (cases rule: recv_cases [OF wf])
    case (1 sg q)
    obtain c' v where "chanrecv z g True b (Some c) {} = (RecvDone True True (Some v), Some c', {},
        [\<lparr>wk_g = sg_g sg, wk_success = True, wk_case = sg_case sg, wk_value = None\<rparr>])"
      "chan_wf c'" "pending c = v # pending c'" "recvq c' = []"
      using recv_from_sender [OF wf 1, of z g True b "{}"] by auto
    with sent show ?thesis by (simp add: st trace_okI)
  next
    case 2
    obtain c' v where "chanrecv z g True b (Some c) {} = (RecvDone True True (Some v), Some c', {}, [])"
      "chan_wf c'" "pending c = v # pending c'" "recvq c' = []"
      using recv_from_buffer [OF wf 2, of z g True b "{}"] by auto
    with sent show ?thesis by (simp add: st trace_okI)
  next
    case 3
    with recv_closed_empty [OF wf 3(2,1)] wf nn sent show ?thesis by (simp add: st trace_okI)
  next
    case 4
    obtain c' where "chanrecv z g True True (Some c) {} = (RecvParked, Some c', {}, [])"
      "chan_wf c'" "pending c' = []"
      "recvq c' = recvq c @ [\<lparr>sg_g = g, sg_elem = True, sg_isSelect = False, sg_case = 0\<rparr>]"
      using recv_parks(1) [OF wf 4(2,1), of z g True "{}"] by blast
    moreover from this nn have "recvs_nonnil c'" by (auto simp: recvs_nonnil_def)
    ultimately show ?thesis using recv_parks(2) [OF wf 4(2,1)] sent wf nn 4
      by (cases b) (simp_all add: st trace_okI)
  qed
qed

lemma delivered_by_failed: "\<forall>w \<in> set ws. \<not> wk_success w \<Longrightarrow> delivered_by ws = []"
  by (induction ws) (auto split: option.splits)

lemma exec_close_ok:
  assumes "trace_ok st"
  shows "trace_ok (chan_exec z st OpClose)"
proof -
  obtain c sent got where st: "st = \<lparr>ts_chan = c, ts_sent = sent, ts_got = got\<rparr>"
    by (cases st)
  have wf: "chan_wf c" and nn: "recvs_nonnil c" and sent: "sent = got @ pending c"
    using assms by (auto simp: trace_ok_def st)
  show ?thesis
  proof (cases "closed c")
    case True
    with assms show ?thesis by (simp add: closechan_def st)
  next
    case False
    obtain c' ws where "closechan z (Some c) {} = Inr (c', {}, ws)" "chan_wf c'"
      "pending c' = queued c" "recvq c' = []" "\<forall>w \<in> set ws. \<not> wk_success w"
      using close_open [OF wf False] by blast
    with sent show ?thesis
      by (simp add: st trace_okI delivered_by_failed pending_def)
  qed
qed

lemma chan_run_ok:
  assumes "makechan es al z sz = Inr c"
  shows "trace_ok (chan_run z c ops)"
proof -
  have "trace_ok st \<Longrightarrow> trace_ok (foldl (chan_exec z) st ops)" for st
  proof (induction ops arbitrary: st)
    case (Cons op ops)
    then show ?case
      by (cases op) (simp_all only: foldl_Cons exec_send_ok exec_recv_ok exec_close_ok)
  qed simp
  moreover have "recvs_nonnil c"
    using assms by (auto simp: makechan_def recvs_nonnil_def split: if_splits prod.splits)
  ultimately show ?thesis
    using makechan_wf [OF assms] by (simp add: chan_run_def trace_ok_def)
qed

section \<open>Properties\<close>

text \<open>
  C1: the channel is a FIFO queue. After any history on a channel made by \<open>makechan\<close>, the
  values received so far, followed by those in the buffer and then those of the blocked
  senders, are exactly the values sent, in the order of the sends: nothing is lost, duplicated
  or reordered, whether it went through the buffer, from a parked sender or to a parked receiver.
\<close>

theorem chan_fifo:
  assumes "makechan es al z sz = Inr c"
  shows "ts_got (chan_run z c ops) @ queued (ts_chan (chan_run z c ops))
           @ map sg_elem (sendq (ts_chan (chan_run z c ops)))
         = ts_sent (chan_run z c ops)"
  using chan_run_ok [OF assms, of ops] by (simp add: trace_ok_def pending_def)

definition chan_ex :: "nat \<Rightarrow> int list \<Rightarrow> int hchan" where
  "chan_ex n b = \<lparr>qcount = 0, dataqsiz = n, buf = b, elemsize = 8, closed = False, sendx = 0,
             recvx = 0, recvq = [], sendq = []\<rparr>"

lemma makechan_ex:
  "makechan 8 8 0 0 = Inr (chan_ex 0 [])" "makechan 8 8 0 1 = Inr (chan_ex 1 [0])"
  by (simp_all add: makechan_def MulUintptr_def hchanSize_def maxAlign_def maxAlloc_def chan_ex_def)

lemmas chan_eval = chan_run_def chansend_def chanrecv_def full_def empty_def recv_def Let_def
  wrap_inc_def waitq_enqueue_def chan_ex_def

theorem chan_fifo_witness:
  "let st = chan_run 0 (chan_ex 1 [0]) [OpSend 1 11 True, OpSend 2 22 True, OpRecv 3 True] in
     ts_got st = [11] \<and> ts_sent st = [11, 22] \<and>
     ts_got st @ queued (ts_chan st) @ map sg_elem (sendq (ts_chan st)) = ts_sent st"
  unfolding Let_def
  by (intro conjI chan_fifo [OF makechan_ex(2)]) (simp_all add: chan_eval)

text \<open>
  C2: nobody sleeps on a channel for nothing. After any history the invariants of the file's
  comment hold: goroutines wait to receive only while nothing is pending and the channel is
  open, goroutines wait to send only while the buffer is full, and never both at once.
\<close>

theorem chan_no_lost_wakeup:
  fixes ops :: "'a chan_op list"
  assumes "makechan es al z sz = Inr c0"
  defines "c \<equiv> ts_chan (chan_run z c0 ops)"
  shows "(recvq c = [] \<or> pending c = [] \<and> \<not> closed c)
       \<and> (sendq c = [] \<or> qcount c = dataqsiz c \<and> recvq c = [] \<and> \<not> closed c)"
  using chan_run_ok [OF assms(1), of ops]
  by (auto simp: c_def trace_ok_def chan_wf_def pending_def queued_def)

theorem chan_no_lost_wakeup_witness:
  "let c = ts_chan (chan_run 0 (chan_ex 0 []) [OpRecv 1 True]) in
     recvq c \<noteq> [] \<and> pending c = [] \<and> \<not> closed c"
proof -
  have "recvq (ts_chan (chan_run 0 (chan_ex 0 []) [OpRecv 1 True])) \<noteq> []"
    by (simp add: chan_eval)
  with chan_no_lost_wakeup [OF makechan_ex(1), of "[OpRecv 1 True]"] show ?thesis
    by (auto simp: Let_def)
qed

text \<open>Receiving \<open>n\<close> times from a channel that no goroutine interferes with.\<close>

fun recv_times :: "'a \<Rightarrow> nat \<Rightarrow> nat \<Rightarrow> 'a hchan \<Rightarrow> 'a recv_result list" where
  "recv_times z g 0 c = []"
| "recv_times z g (Suc n) c =
     (case chanrecv z g True True (Some c) {} of (r, ch, _, _) \<Rightarrow> r # recv_times z g n (the ch))"

lemma recv_times_closed:
  assumes "chan_wf c" and "closed c"
  shows "recv_times z g (length (queued c) + k) c
           = map (\<lambda>v. RecvDone True True (Some v)) (queued c)
             @ replicate k (RecvDone True False (Some z))"
  using assms
proof (induction "length (queued c) + k" arbitrary: c k)
  case 0
  then show ?case by simp
next
  case (Suc m)
  have sq: "sendq c = []" using Suc.prems by (simp add: chan_wf_def)
  show ?case
  proof (cases "qcount c")
    case 0
    then have q: "queued c = []" "pending c = []" by (simp_all add: queued_def pending_def sq)
    then obtain j where "k = Suc j" using Suc.hyps(2) by (cases k) auto
    with q Suc.hyps(1) [of c j] Suc.hyps(2) Suc.prems show ?thesis
      by (simp add: recv_closed_empty)
  next
    case (Suc n)
    then obtain c' v where r: "chanrecv z g True True (Some c) {} = (RecvDone True True (Some v), Some c', {}, [])"
      "chan_wf c'" "pending c = v # pending c'" "closed c' = closed c"
      using recv_from_buffer [OF Suc.prems(1) sq, of z g True True "{}"] by auto
    have "queued c = v # queued c'"
      using r Suc.prems sq by (auto simp: pending_def chan_wf_def)
    with r Suc.hyps(1) [of c' k] Suc.hyps(2) Suc.prems show ?thesis by simp
  qed
qed

text \<open>
  C10: closing is graceful. Closing an open channel wakes exactly the goroutines parked on it,
  each with failure; afterwards a send panics, a second close panics, and receives return the
  values left in the buffer, in order, and then the zero value with \<open>received = false\<close> for
  ever, without blocking.
\<close>

theorem chan_close_drains:
  fixes ops :: "'a chan_op list"
  assumes "makechan es al z sz = Inr c0"
  defines "c \<equiv> ts_chan (chan_run z c0 ops)"
  assumes "\<not> closed c"
  shows "\<exists>c' ws. closechan z (Some c) {} = Inr (c', {}, ws)
     \<and> map wk_g ws = rev (map sg_g (recvq c) @ map sg_g (sendq c))
     \<and> (\<forall>w \<in> set ws. \<not> wk_success w)
     \<and> closechan z (Some c') {} = Inl CloseOfClosed
     \<and> (\<forall>g v b. chansend g v b (Some c') {} = (SendPanic SendOnClosed, Some c', {}, []))
     \<and> (\<forall>g k. recv_times z g (length (queued c) + k) c'
              = map (\<lambda>v. RecvDone True True (Some v)) (queued c)
                @ replicate k (RecvDone True False (Some z)))"
proof -
  have wf: "chan_wf c" using chan_run_ok [OF assms(1), of ops] by (simp add: c_def trace_ok_def)
  obtain c' ws where c': "closechan z (Some c) {} = Inr (c', {}, ws)" "chan_wf c'" "closed c'"
    "pending c' = queued c" "map wk_g ws = rev (map sg_g (recvq c) @ map sg_g (sendq c))"
    "\<forall>w \<in> set ws. \<not> wk_success w"
    using close_open [OF wf assms(3)] by blast
  then have "queued c' = queued c" by (simp add: pending_def chan_wf_def)
  then show ?thesis
    using c' recv_times_closed [OF c'(2,3)]
    by (intro exI[of _ c'] exI[of _ ws]) (simp add: send_closed closechan_def)
qed

theorem chan_close_drains_witness:
  "let c = ts_chan (chan_run 0 (chan_ex 1 [0]) [OpSend 1 7 True]) in
     \<exists>c' ws. closechan 0 (Some c) {} = Inr (c', {}, ws) \<and>
       recv_times 0 5 2 c' = [RecvDone True True (Some 7), RecvDone True False (Some 0)]"
proof -
  let ?c = "ts_chan (chan_run 0 (chan_ex 1 [0]) [OpSend 1 7 True])"
  have s: "\<not> closed ?c" "queued ?c = [7]"
    by (simp_all add: chan_eval queued_def ring_def)
  obtain c' ws where "closechan 0 (Some ?c) {} = Inr (c', {}, ws)"
    "recv_times 0 5 (length [7::int] + 1) c'
       = map (\<lambda>v. RecvDone True True (Some v)) [7] @ replicate 1 (RecvDone True False (Some 0))"
    using chan_close_drains [OF makechan_ex(2) s(1)] s(2) by metis
  then show ?thesis by (auto simp: Let_def numeral_2_eq_2)
qed

section \<open>The size check of \<open>makechan\<close>\<close>

lemma MulUintptr_spec: "MulUintptr a b = (a * b, 2 ^ 64 \<le> unat a * unat b)"
proof (cases "(a OR b) < push_bit 32 1 \<or> a = 0")
  case True
  have "unat a * unat b < 2 ^ 64"
  proof (cases "a = 0")
    case False
    with True have "(a OR b) < 4294967296" by simp
    then have "a < 4294967296" and "b < 4294967296"
      using le_word_or2 [of a b] le_word_or1 [of b a] by (auto intro: le_less_trans)
    then have "unat a < 4294967296" and "unat b < 4294967296"
      by (simp_all add: word_less_nat_alt)
    then have "unat a * unat b < 4294967296 * 4294967296"
      by (intro mult_strict_mono) auto
    then show ?thesis by simp
  qed simp
  with True show ?thesis by (simp add: MulUintptr_def)
next
  case False
  then have "0 < unat a" by (auto simp: unat_gt_0)
  have "b > (- 1) div a \<longleftrightarrow> unat ((- 1) div a) < unat b" by (simp add: word_less_nat_alt)
  also have "\<dots> \<longleftrightarrow> (2 ^ 64 - 1) div unat a < unat b"
    by (simp add: unat_div_distrib unsigned_minus_1_eq_mask mask_eq_exp_minus_1)
  also have "\<dots> \<longleftrightarrow> 2 ^ 64 \<le> unat a * unat b"
    using \<open>0 < unat a\<close> by (simp add: div_less_iff_less_mult mult.commute) linarith
  finally show ?thesis using False by (simp add: MulUintptr_def)
qed

text \<open>
  \<open>make(chan T, n)\<close> succeeds exactly when the element type is valid, \<open>n\<close> is not
  negative and the header plus \<open>n\<close> elements, computed without overflow, fit in the largest
  allocation; the channel is then empty, open and has capacity \<open>n\<close>.
\<close>

theorem makechan_bounds:
  "(\<exists>c. makechan es al z sz = Inr c \<and> chan_wf c \<and> pending c = [] \<and> \<not> closed c
        \<and> int (reflect_chancap (Some c)) = sint sz \<and> reflect_chanlen (Some c) = 0)
   \<longleftrightarrow> uint es < 2 ^ 16 \<and> al \<le> 8 \<and> 0 \<le> sint sz \<and> uint es * sint sz + 96 \<le> 2 ^ 48"
    (is "?made \<longleftrightarrow> ?fits")
proof -
  have nn: "0 \<le> sint sz \<Longrightarrow> sint sz = int (unat sz)"
    by (rule sint_nonneg)
  have es: "65536 \<le> es \<longleftrightarrow> 65536 \<le> uint es" "es < 65536 \<longleftrightarrow> uint es < 65536"
    by (simp_all add: word_le_def word_less_def)
  have fits: "x + 96 \<le> 2 ^ 48 \<longleftrightarrow> p \<le> 281474976710560" if "x = int p" for x p
    using that by simp
  have mem: "es * sz > maxAlloc - hchanSize \<longleftrightarrow> 281474976710560 < unat es * unat sz"
    if "unat es * unat sz < 2 ^ 64"
    using that by (simp add: maxAlloc_def hchanSize_def word_less_nat_alt unat_word_ariths)
  have "?made \<longleftrightarrow> (\<exists>c. makechan es al z sz = Inr c)"
    using makechan_wf makechan_size by (fastforce simp: reflect_chancap_def reflect_chanlen_def)
  also have "\<dots> \<longleftrightarrow> uint es < 2 ^ 16 \<and> al \<le> 8 \<and> 0 \<le> sint sz \<and> unat es * unat sz < 2 ^ 64
      \<and> \<not> es * sz > maxAlloc - hchanSize"
    by (auto simp: makechan_def MulUintptr_spec es maxAlign_def hchanSize_def not_less not_le)
  also have "\<dots> \<longleftrightarrow> ?fits"
  proof (cases "0 \<le> sint sz \<and> unat es * unat sz < 2 ^ 64")
    case True
    then have "uint es * sint sz = int (unat es * unat sz)" by (simp add: nn)
    then have "uint es * sint sz + 96 \<le> 2 ^ 48 \<longleftrightarrow> unat es * unat sz \<le> 281474976710560"
      by (rule fits)
    with True mem show ?thesis by (simp only: not_less simp_thms)
  next
    case False
    have "\<not> uint es * sint sz + 96 \<le> 2 ^ 48" if "0 \<le> sint sz"
    proof -
      have "uint es * sint sz = int (unat es * unat sz)" using that by (simp add: nn)
      from fits [OF this] False that show ?thesis by simp
    qed
    with False show ?thesis by auto
  qed
  finally show ?thesis .
qed

end
