(* ===== verification/GoWords.thy ===== *)
theory GoWords
  imports GoPrelude
begin

text \<open>
  Arithmetic readings of the bit operations that encoders use on machine words: a mask is a
  remainder, a shift is a quotient, and setting tag bits above a field is an addition.
\<close>

named_theorems word_arith \<open>bit operations read as arithmetic\<close>

lemma nat_or_add:
  assumes "(b :: nat) < 2 ^ k"
  shows "2 ^ k * m OR b = 2 ^ k * m + b"
proof -
  have "bit (b + 2 ^ k * m) n = bit (2 ^ k * m OR b) n" for n
  proof (cases "n < k")
    case True
    then show ?thesis using bit_concat [OF assms, of m n] bit_concat [of 0 k m n] by (simp add: bit_or_iff)
  next
    case False
    then have "\<not> bit b n"
      using assms bit_imp_ge [of b n] power_increasing [of k n "2 :: nat"]
      by (metis leD le_trans not_less one_le_numeral)
    then show ?thesis using False bit_concat [OF assms, of m n] bit_concat [of 0 k m n]
      by (simp add: bit_or_iff)
  qed
  then have "b + 2 ^ k * m = (2 ^ k * m OR b)" by (simp add: bit_eq_iff)
  then show ?thesis by simp
qed

lemma unat_or_add:
  assumes "unat b < 2 ^ k" "unat c = 2 ^ k * m"
  shows "unat (c OR b) = unat c + unat b"
  using assms by (simp add: unsigned_or_eq nat_or_add)

lemma unat_less: "unat w < 2 ^ LENGTH('w)" for w :: "'w::len word"
  by (rule unsigned_less)

lemma unat_take_bit [word_arith]: "unat (take_bit k w) = unat w mod 2 ^ k"
  by (rule trans [OF unsigned_take_bit_eq take_bit_eq_mod])

lemma unat_drop_bit [word_arith]: "unat (drop_bit k w) = unat w div 2 ^ k"
  by (rule trans [OF unat_drop_bit_eq drop_bit_eq_div])

lemma unat_and_mask [word_arith]: "unat (w AND mask k) = unat w mod 2 ^ k"
  by (simp add: unat_take_bit flip: take_bit_eq_mask)

lemma signed_drop_bit_nonneg:
  fixes w :: "'w::len word"
  assumes "unat w < 2 ^ (LENGTH('w) - 1)"
  shows "signed_drop_bit k w = drop_bit k w"
proof -
  have b: "\<not> bit w i" if "LENGTH('w) - 1 \<le> i" for i
  proof
    assume "bit w i"
    then have "bit (unat w) i" by (simp add: bit_unsigned_iff)
    then have "2 ^ i \<le> unat w" by (rule bit_imp_ge)
    moreover have "(2 :: nat) ^ (LENGTH('w) - 1) \<le> 2 ^ i" using that by (simp add: power_increasing)
    ultimately show False using assms by linarith
  qed
  show ?thesis
  proof (rule bit_word_eqI)
    fix n assume "n < LENGTH('w)"
    then show "bit (signed_drop_bit k w) n = bit (drop_bit k w) n"
      using b [of "LENGTH('w) - 1"] b [of "k + n"]
      by (auto simp: bit_signed_drop_bit_iff bit_drop_bit_eq)
  qed
qed

lemma unat_push_bit:
  fixes w :: "'w::len word"
  assumes "2 ^ k * unat w < 2 ^ LENGTH('w)"
  shows "unat (push_bit k w) = 2 ^ k * unat w"
proof -
  have "unat (push_bit k w) = take_bit LENGTH('w) (push_bit k (unat w))"
    by (rule unsigned_push_bit_eq)
  also have "\<dots> = 2 ^ k * unat w"
    using assms by (simp add: push_bit_eq_mult take_bit_nat_eq_self mult.commute)
  finally show ?thesis .
qed

lemma unat_ucast: "unat (ucast w :: 'b::len word) = unat w mod 2 ^ LENGTH('b)"
  for w :: "'a::len word"
  by (rule trans [OF unsigned_ucast_eq take_bit_eq_mod])

text \<open>The signed reading of a word.\<close>

lemma sint_unat:
  fixes w :: "'w::len word"
  shows "sint w = (if unat w < 2 ^ (LENGTH('w) - 1) then int (unat w) else int (unat w) - 2 ^ LENGTH('w))"
proof (cases "0 \<le> sint w")
  case True
  then have "sint w = int (unat w)" by (rule sint_nonneg)
  moreover have "sint w < 2 ^ (LENGTH('w) - 1)" by (rule sint_lt)
  ultimately have "int (unat w) < int (2 ^ (LENGTH('w) - 1))" by (simp del: of_nat_unat)
  then have "unat w < 2 ^ (LENGTH('w) - 1)" by (simp only: of_nat_less_iff)
  then show ?thesis using \<open>sint w = int (unat w)\<close> by simp
next
  case False
  have ge: "- (2 ^ (LENGTH('w) - 1)) \<le> sint w" by (rule sint_ge)
  have two: "(2 :: int) ^ LENGTH('w) = 2 * 2 ^ (LENGTH('w) - 1)"
    by (simp flip: power_Suc)
  have "int (unat w) = take_bit LENGTH('w) (sint w)" using uint_sint [of w] by simp
  also have "\<dots> = take_bit LENGTH('w) (sint w + 2 ^ LENGTH('w))" by (simp add: take_bit_eq_mod)
  also have "\<dots> = sint w + 2 ^ LENGTH('w)"
    using False ge two by (intro take_bit_int_eq_self) linarith+
  finally have u: "int (unat w) = sint w + 2 ^ LENGTH('w)" .
  then have "int (2 ^ (LENGTH('w) - 1)) \<le> int (unat w)" using ge two by simp
  then have "\<not> unat w < 2 ^ (LENGTH('w) - 1)" by (simp only: of_nat_le_iff not_less)
  then show ?thesis using u by simp
qed

lemma word_of_unatI: "unat w = n \<Longrightarrow> w = word_of_nat n"
  by auto

text \<open>Addition that does not leave the signed range, Go's \<open>atomic.AddInt32\<close> on small counters.\<close>

lemma sint_add_small:
  fixes a b :: "'w::len word"
  assumes "- (2 ^ (LENGTH('w) - 1)) \<le> sint a + sint b" "sint a + sint b < 2 ^ (LENGTH('w) - 1)"
  shows "sint (a + b) = sint a + sint b"
proof -
  have "sint (a + b) = signed_take_bit (LENGTH('w) - 1) (sint a + sint b)"
    by (simp add: signed_take_bit_add sint_word_ariths)
  also have "\<dots> = sint a + sint b"
    using assms by (intro signed_take_bit_int_eq_self) auto
  finally show ?thesis .
qed

end
