(* ===== verification/SelectOrder.thy ===== *)
theory SelectOrder
  imports Chan GoWords "HOL-Library.Multiset"
begin

text \<open>
  The orders of \<open>select\<close>, \<open>runtime/select.go\<close>: the random order in which \<open>selectgo\<close> polls its cases and the
  order of addresses in which it locks the channels. A case is its channel's address, 0 when it is nil, and what
  its \<open>elem\<close> pointer means: the value to send, or whether there is a place for the value received. Indices of
  cases fit the \<open>uint16\<close> of the arrays, as there are at most \<open>2 ^ 16\<close> cases.
\<close>

section \<open>The order of polling\<close>

record 'a scase =
  sc_c :: nat
  sc_val :: 'a
  sc_ep :: bool

definition fastrandn :: "u32 \<Rightarrow> u32 \<Rightarrow> u32" where
  "fastrandn r n = ucast (drop_bit 32 (ucast r * ucast n :: u64))"

text \<open>
  The loop over the cases from \<open>i\<close> on; \<open>rnd k\<close> is what the \<open>k\<close>-th call of \<open>fastrand\<close> returns. The array is not
  initialised.
\<close>

fun poll_loop :: "(nat \<Rightarrow> u32) \<Rightarrow> 'a scase list \<Rightarrow> nat \<Rightarrow> nat list \<Rightarrow> nat \<Rightarrow> nat list \<times> nat" where
  "poll_loop rnd [] i pollorder norder = (pollorder, norder)"
| "poll_loop rnd (cas # scases) i pollorder norder =
     (if sc_c cas = 0 then poll_loop rnd scases (i + 1) pollorder norder
      else let j = unat (fastrandn (rnd norder) (of_nat (norder + 1)));
               pollorder = pollorder[norder := pollorder ! j];
               pollorder = pollorder[j := i]
           in poll_loop rnd scases (i + 1) pollorder (norder + 1))"

definition poll_order :: "(nat \<Rightarrow> u32) \<Rightarrow> nat list \<Rightarrow> 'a scase list \<Rightarrow> nat list" where
  "poll_order rnd arr scases = (let (pollorder, norder) = poll_loop rnd scases 0 arr 0 in take norder pollorder)"

section \<open>The order of locking\<close>

definition sortkey :: "'a scase list \<Rightarrow> nat \<Rightarrow> nat" where
  "sortkey scases i = sc_c (scases ! i)"

function sift_up :: "(nat \<Rightarrow> nat) \<Rightarrow> nat \<Rightarrow> nat list \<Rightarrow> nat \<Rightarrow> nat list \<times> nat" where
  "sift_up key c lockorder j =
     (let k = (j - 1) div 2 in
      if j > 0 \<and> key (lockorder ! k) < c then sift_up key c (lockorder[j := lockorder ! k]) k
      else (lockorder, j))"
  by pat_completeness auto
termination by (relation "measure (\<lambda>(key, c, lockorder, j). j)") auto

fun lock_build :: "(nat \<Rightarrow> nat) \<Rightarrow> nat list \<Rightarrow> nat \<Rightarrow> nat list \<Rightarrow> nat list" where
  "lock_build key [] i lockorder = lockorder"
| "lock_build key (p # pollorder) i lockorder =
     (let (lockorder, j) = sift_up key (key p) lockorder i
      in lock_build key pollorder (i + 1) (lockorder[j := p]))"

function sift_down :: "(nat \<Rightarrow> nat) \<Rightarrow> nat \<Rightarrow> nat \<Rightarrow> nat list \<Rightarrow> nat \<Rightarrow> nat list \<times> nat" where
  "sift_down key c i lockorder j =
     (let k = j * 2 + 1 in
      if k \<ge> i then (lockorder, j)
      else let k = (if k + 1 < i \<and> key (lockorder ! k) < key (lockorder ! (k + 1)) then k + 1 else k) in
        if c < key (lockorder ! k) then sift_down key c i (lockorder[j := lockorder ! k]) k
        else (lockorder, j))"
  by pat_completeness auto
termination by (relation "measure (\<lambda>(key, c, i, lockorder, j). i - j)") (auto simp: Let_def split: if_splits)

declare sift_up.simps [simp del] sift_down.simps [simp del]

text \<open>The second loop, for \<open>i\<close> from \<open>m - 1\<close> down to 0.\<close>

fun lock_extract :: "(nat \<Rightarrow> nat) \<Rightarrow> nat \<Rightarrow> nat list \<Rightarrow> nat list" where
  "lock_extract key 0 lockorder = lockorder"
| "lock_extract key (Suc i) lockorder =
     (let co = lockorder ! i;
          lockorder = lockorder[i := lockorder ! 0];
          (lockorder, j) = sift_down key (key co) i lockorder 0
      in lock_extract key i (lockorder[j := co]))"

definition lock_order :: "nat list \<Rightarrow> 'a scase list \<Rightarrow> nat list \<Rightarrow> nat list" where
  "lock_order arr scases pollorder =
     (let lockorder = lock_build (sortkey scases) pollorder 0 (take (length pollorder) arr)
      in lock_extract (sortkey scases) (length lockorder) lockorder)"

text \<open>
  The channels that \<open>sellock\<close> locks, \<open>selunlock\<close> unlocks (from index \<open>i\<close> down) and \<open>selparkcommit\<close> unlocks, in
  their order.
\<close>

fun sellock :: "'a scase list \<Rightarrow> nat \<Rightarrow> nat list \<Rightarrow> nat list" where
  "sellock scases c [] = []"
| "sellock scases c (o1 # lockorder) =
     (let c0 = sc_c (scases ! o1) in
      if c0 \<noteq> c then c0 # sellock scases c0 lockorder else sellock scases c lockorder)"

fun selunlock :: "'a scase list \<Rightarrow> nat list \<Rightarrow> nat \<Rightarrow> nat list" where
  "selunlock scases lockorder 0 = []"
| "selunlock scases lockorder (Suc i) =
     (let c = sc_c (scases ! (lockorder ! i)) in
      if i > 0 \<and> c = sc_c (scases ! (lockorder ! (i - 1))) then selunlock scases lockorder i
      else c # selunlock scases lockorder i)"

fun selparkcommit :: "nat \<Rightarrow> nat list \<Rightarrow> nat list" where
  "selparkcommit lastc [] = (if lastc \<noteq> 0 then [lastc] else [])"
| "selparkcommit lastc (sg_c # waiting) =
     (if sg_c \<noteq> lastc \<and> lastc \<noteq> 0 then lastc # selparkcommit sg_c waiting else selparkcommit sg_c waiting)"

section \<open>The heap sort\<close>

definition parent :: "nat \<Rightarrow> nat" where
  "parent k = (k - 1) div 2"

text \<open>Parents in the binary heap: every element but the first of the first \<open>n\<close> is at most its parent.\<close>

definition max_heap :: "(nat \<Rightarrow> nat) \<Rightarrow> nat list \<Rightarrow> nat \<Rightarrow> bool" where
  "max_heap key l n \<longleftrightarrow> (\<forall>k. 0 < k \<and> k < n \<longrightarrow> key (l ! k) \<le> key (l ! (parent k)))"

text \<open>As \<open>max_heap\<close>, but for the element \<open>j\<close> below its parent, or its children below it.\<close>

definition over_children :: "(nat \<Rightarrow> nat) \<Rightarrow> nat list \<Rightarrow> nat \<Rightarrow> nat \<Rightarrow> bool" where
  "over_children key l j n \<longleftrightarrow>
     (\<forall>k. 0 < k \<and> k < n \<and> parent k = j \<and> 0 < j \<longrightarrow> key (l ! k) \<le> key (l ! (parent j)))"

definition up_heap :: "(nat \<Rightarrow> nat) \<Rightarrow> nat list \<Rightarrow> nat \<Rightarrow> nat \<Rightarrow> bool" where
  "up_heap key l j n \<longleftrightarrow> over_children key l j n
     \<and> (\<forall>k. 0 < k \<and> k < n \<and> k \<noteq> j \<longrightarrow> key (l ! k) \<le> key (l ! (parent k)))"

definition down_heap :: "(nat \<Rightarrow> nat) \<Rightarrow> nat list \<Rightarrow> nat \<Rightarrow> nat \<Rightarrow> bool" where
  "down_heap key l j n \<longleftrightarrow> over_children key l j n
     \<and> (\<forall>k. 0 < k \<and> k < n \<and> parent k \<noteq> j \<longrightarrow> key (l ! k) \<le> key (l ! (parent k)))"

lemma over_childrenD:
  "over_children key l j n \<Longrightarrow> 0 < k \<Longrightarrow> k < n \<Longrightarrow> parent k = j \<Longrightarrow> 0 < j \<Longrightarrow> key (l ! k) \<le> key (l ! parent j)"
  unfolding over_children_def by (drule spec [of _ k]) simp

lemma parent_less: "0 < m \<Longrightarrow> parent m < m"
  unfolding parent_def by (cases m) auto

lemma parent_child: "0 < m \<Longrightarrow> parent m = j \<longleftrightarrow> m = j * 2 + 1 \<or> m = j * 2 + 2"
  unfolding parent_def by arith

lemma mset_move:
  assumes "j < length l" "k < length l" "j \<noteq> k"
  shows "mset (l[j := l ! k, k := x]) = mset (l[j := x])"
proof -
  have "(l[j := x])[k := l[j := x] ! j, j := l[j := x] ! k] = l[j := l ! k, k := x]"
    using assms by (intro nth_equalityI) (auto simp: nth_list_update)
  then show ?thesis using mset_swap [of j "l[j := x]" k] assms by simp
qed

lemma sift_up_eq: "sift_up key c l j =
    (if j > 0 \<and> key (l ! parent j) < c then sift_up key c (l[j := l ! parent j]) (parent j) else (l, j))"
  by (subst sift_up.simps) (simp add: Let_def parent_def)

lemma sift_up_spec:
  assumes "j < length l" "j < n"
  shows "case sift_up key (key x) l j of (l', j') \<Rightarrow> j' \<le> j \<and> length l' = length l
      \<and> mset (l'[j' := x]) = mset (l[j := x]) \<and> (\<forall>k > j. l' ! k = l ! k)
      \<and> (up_heap key (l[j := x]) j n \<longrightarrow> max_heap key (l'[j' := x]) n)"
  using assms
proof (induction j arbitrary: l rule: less_induct)
  case (less j)
  let ?k = "parent j"
  show ?case
  proof (cases "j > 0 \<and> key (l ! ?k) < key x")
    case True
    let ?l = "l[j := l ! ?k]"
    have k: "?k < j" using True parent_less by blast
    have "up_heap key (?l[?k := x]) ?k n" if up: "up_heap key (l[j := x]) j n"
    proof -
      have nth: "?l[?k := x] ! m = (if m = ?k then x else if m = j then l ! ?k else l ! m)" for m
        using less.prems k by (simp add: nth_list_update)
      have nth': "l[j := x] ! m = (if m = j then x else l ! m)" for m
        using less.prems by (simp add: nth_list_update)
      have a: "key (l ! m) \<le> key (l ! (parent m))" if "0 < m" "m < n" "m \<noteq> j" "parent m \<noteq> j" for m
        using up that unfolding up_heap_def nth' by auto
      have b: "key (l ! m) \<le> key (l ! ?k)" if "0 < m" "m < n" "parent m = j" for m
      proof -
        have "m \<noteq> j" using that parent_less [of m] by auto
        moreover have "key (l[j := x] ! m) \<le> key (l[j := x] ! ?k)"
          using over_childrenD [of key "l[j := x]" j n m] up that True by (simp add: up_heap_def)
        ultimately show ?thesis using k by (simp add: nth')
      qed
      show ?thesis
        unfolding up_heap_def over_children_def nth
      proof (intro conjI allI impI)
        fix m assume m: "0 < m \<and> m < n \<and> parent m = ?k \<and> 0 < ?k"
        have "parent ?k < ?k" using m parent_less [of ?k] by blast
        then have up1: "key (l ! ?k) \<le> key (l ! (parent ?k))" using a [of ?k] m k less.prems by auto
        have "?k \<noteq> j" "m \<noteq> ?k" using k m \<open>parent ?k < ?k\<close> by auto
        then show "key (if m = ?k then x else if m = j then l ! ?k else l ! m)
            \<le> key (if parent ?k = ?k then x else if parent ?k = j then l ! ?k else l ! (parent ?k))"
          using up1 a [of m] m k \<open>parent ?k < ?k\<close> by (cases "m = j") auto
      next
        fix m assume m: "0 < m \<and> m < n \<and> m \<noteq> ?k"
        show "key (if m = ?k then x else if m = j then l ! ?k else l ! m)
            \<le> key (if parent m = ?k then x else if parent m = j then l ! ?k else l ! (parent m))"
        proof (cases "m = j")
          case True
          then show ?thesis using m \<open>j > 0 \<and> key (l ! ?k) < key x\<close> by simp
        next
          case False
          then show ?thesis
            using m True a [of m] b [of m] k by (cases "parent m = j"; cases "parent m = ?k") auto
        qed
      qed
    qed
    moreover have "mset (?l[?k := x]) = mset (l[j := x])"
      using mset_move [of j l ?k x] less.prems k by simp
    moreover have "?k < length ?l" "?k < n" using k less.prems by auto
    ultimately show ?thesis
      using less.IH [OF k, of ?l] True k
      by (subst sift_up_eq) (auto simp: nth_list_update)
  next
    case False
    have "max_heap key (l[j := x]) n" if up: "up_heap key (l[j := x]) j n"
      unfolding max_heap_def
    proof (intro allI impI)
      fix m assume m: "0 < m \<and> m < n"
      have "?k \<noteq> j" if "m = j" using m that parent_less [of j] by auto
      then show "key (l[j := x] ! m) \<le> key (l[j := x] ! (parent m))"
        using up m False less.prems unfolding up_heap_def by (cases "m = j") auto
    qed
    then show ?thesis using False by (subst sift_up_eq) auto
  qed
qed


lemma sift_down_spec:
  assumes "j < i" "i \<le> length l"
  shows "case sift_down key (key x) i l j of (l', j') \<Rightarrow> j' < i \<and> length l' = length l
      \<and> mset (l'[j' := x]) = mset (l[j := x]) \<and> (\<forall>k \<ge> i. l' ! k = l ! k)
      \<and> (down_heap key (l[j := x]) j i \<longrightarrow> max_heap key (l'[j' := x]) i)"
  using assms
proof (induction "i - j" arbitrary: j l rule: less_induct)
  case less
  define k where "k = (if j * 2 + 2 < i \<and> key (l ! (j * 2 + 1)) < key (l ! (j * 2 + 2)) then j * 2 + 2 else j * 2 + 1)"
  have kids: "m = j * 2 + 1 \<or> m = j * 2 + 2" if "parent m = j" "0 < m" for m using that parent_child by blast
  have unfold: "sift_down key (key x) i l j =
      (if j * 2 + 1 \<ge> i then (l, j)
       else if key x < key (l ! k) then sift_down key (key x) i (l[j := l ! k]) k else (l, j))"
    by (subst sift_down.simps) (simp add: Let_def k_def)
  have nth': "l[j := x] ! m = (if m = j then x else l ! m)" for m
    using less.prems by (simp add: nth_list_update)
  consider "j * 2 + 1 \<ge> i" | "j * 2 + 1 < i" "key x < key (l ! k)" | "j * 2 + 1 < i" "key (l ! k) \<le> key x"
    by linarith
  then show ?case
  proof cases
    case 1
    have "max_heap key (l[j := x]) i" if "down_heap key (l[j := x]) j i"
      using that kids 1 unfolding max_heap_def down_heap_def by fastforce
    then show ?thesis using less.prems 1 by (simp add: unfold)
  next
    case 2
    let ?l = "l[j := l ! k]"
    have "k = j * 2 + 1 \<or> k = j * 2 + 2" by (simp add: k_def)
    then have k: "j < k" "k < i" "parent k = j" "k \<noteq> j" using 2 parent_child [of k j] by (auto simp: k_def)
    have big: "key (l ! m) \<le> key (l ! k)" if "parent m = j" "0 < m" "m < i" for m
      using kids [OF that(1,2)] that(3) 2 by (auto simp: k_def)
    have nth: "?l[k := x] ! m = (if m = k then x else if m = j then l ! k else l ! m)" for m
      using less.prems k by (simp add: nth_list_update)
    have "down_heap key (?l[k := x]) k i" if down: "down_heap key (l[j := x]) j i"
    proof -
      have a: "key (l ! m) \<le> key (l ! (parent m))"
        if "0 < m" "m < i" "parent m \<noteq> j" "m \<noteq> j" for m
        using down that unfolding down_heap_def nth' by auto
      have b: "key (l ! k) \<le> key (l ! (parent j))" if "0 < j"
      proof -
        have "key (l[j := x] ! k) \<le> key (l[j := x] ! parent j)"
          using over_childrenD [of key "l[j := x]" j i k] down that k by (simp add: down_heap_def)
        then show ?thesis using k parent_less [OF that] by (simp add: nth')
      qed
      show ?thesis
        unfolding down_heap_def over_children_def nth
      proof (intro conjI allI impI)
        fix m assume m: "0 < m \<and> m < i \<and> parent m = k \<and> 0 < k"
        then have "k < m" using parent_less [of m] by blast
        then show "key (if m = k then x else if m = j then l ! k else l ! m)
            \<le> key (if parent k = k then x else if parent k = j then l ! k else l ! (parent k))"
          using a [of m] m k by auto
      next
        fix m assume m: "0 < m \<and> m < i \<and> parent m \<noteq> k"
        consider "m = k" | "m = j" | "m \<noteq> k" "m \<noteq> j" "parent m = j" | "m \<noteq> k" "m \<noteq> j" "parent m \<noteq> j" by blast
        then show "key (if m = k then x else if m = j then l ! k else l ! m)
            \<le> key (if parent m = k then x else if parent m = j then l ! k else l ! (parent m))"
        proof cases
          case 1
          then show ?thesis using k 2 by simp
        next
          case 2
          then show ?thesis using m b k parent_less [of j] by auto
        next
          case 3
          then show ?thesis using m big k by auto
        next
          case 4
          then show ?thesis using m a by auto
        qed
      qed
    qed
    moreover have "mset (?l[k := x]) = mset (l[j := x])"
      using mset_move [of j l k x] less.prems k by simp
    moreover have "k < i" "i \<le> length ?l" "i - k < i - j" using k less.prems by auto
    ultimately show ?thesis
      using less.hyps [of k ?l] 2 k by (auto simp: unfold nth_list_update)
  next
    case 3
    have big: "key (l ! m) \<le> key x" if "parent m = j" "0 < m" "m < i" for m
      using kids [OF that(1,2)] that(3) 3 by (auto simp: k_def split: if_splits)
    have "max_heap key (l[j := x]) i" if down: "down_heap key (l[j := x]) j i"
      unfolding max_heap_def
    proof (intro allI impI)
      fix m assume m: "0 < m \<and> m < i"
      show "key (l[j := x] ! m) \<le> key (l[j := x] ! (parent m))"
      proof (cases "parent m = j")
        case True
        then have "m \<noteq> j" using m parent_less [of m] by auto
        then show ?thesis using big m True by (simp add: nth')
      next
        case False
        then show ?thesis using down m unfolding down_heap_def by blast
      qed
    qed
    then show ?thesis using 3 less.prems by (simp add: unfold)
  qed
qed

text \<open>Building the heap, element by element.\<close>

lemma lock_build_spec:
  assumes "length po + i = length l" "max_heap key l i"
  shows "length (lock_build key po i l) = length l \<and> max_heap key (lock_build key po i l) (length l)
    \<and> mset (lock_build key po i l) = mset (take i l) + mset po"
  using assms
proof (induction po arbitrary: i l)
  case Nil
  then show ?case by simp
next
  case (Cons p po)
  obtain l' j' where s: "sift_up key (key p) l i = (l', j')" by fastforce
  have i: "i < length l" using Cons.prems by simp
  have "up_heap key (l[i := p]) i (Suc i)"
    unfolding up_heap_def over_children_def
  proof (intro conjI allI impI)
    fix k assume "0 < k \<and> k < Suc i \<and> parent k = i \<and> 0 < i"
    then show "key (l[i := p] ! k) \<le> key (l[i := p] ! parent i)" using parent_less [of k] by simp
  next
    fix k assume "0 < k \<and> k < Suc i \<and> k \<noteq> i"
    then show "key (l[i := p] ! k) \<le> key (l[i := p] ! parent k)"
      using Cons.prems(2) parent_less [of k] by (simp add: max_heap_def)
  qed
  then have up: "j' \<le> i" "length l' = length l" "mset (l'[j' := p]) = mset (l[i := p])" "\<forall>k > i. l' ! k = l ! k"
      "max_heap key (l'[j' := p]) (Suc i)"
    using sift_up_spec [OF i, where n = "Suc i" and key = key and x = p] s by simp_all
  have d: "drop (Suc i) (l'[j' := p]) = drop (Suc i) l"
    using up by (intro nth_equalityI) auto
  have "mset (l'[j' := p]) = mset (take (Suc i) (l'[j' := p])) + mset (drop (Suc i) l)"
    by (metis append_take_drop_id d mset_append)
  moreover have "mset (l[i := p]) = mset (take i l) + {#p#} + mset (drop (Suc i) l)"
    using i by (simp add: upd_conv_take_nth_drop)
  ultimately have "mset (take (Suc i) (l'[j' := p])) = mset (take i l) + {#p#}"
    using up(3) by simp
  then show ?case
    using Cons.IH [of "Suc i" "l'[j' := p]"] Cons.prems(1) up s by simp
qed


lemma max_heap_root: "max_heap key l n \<Longrightarrow> k < n \<Longrightarrow> key (l ! k) \<le> key (l ! 0)"
proof (induction k rule: less_induct)
  case (less k)
  then show ?case
  proof (cases "k = 0")
    case False
    then have "key (l ! k) \<le> key (l ! parent k)" "parent k < k"
      using less.prems parent_less [of k] by (simp_all add: max_heap_def)
    then show ?thesis using less by (meson le_trans less_trans)
  qed simp
qed

text \<open>Taking the maximum out, element by element.\<close>

lemma lock_extract_spec:
  assumes "i \<le> length l" "max_heap key l i" "sorted (map key (drop i l))"
    and "\<forall>a \<in> set (take i l). \<forall>b \<in> set (drop i l). key a \<le> key b"
  shows "mset (lock_extract key i l) = mset l \<and> sorted (map key (lock_extract key i l))"
  using assms
proof (induction i arbitrary: l)
  case (Suc i)
  let ?x = "l ! i" let ?l = "l[i := l ! 0]"
  show ?case
  proof (cases "i = 0")
    case True
    have "?l = l" "sift_down key (key ?x) 0 l 0 = (l, 0)" "l[0 := l ! 0] = l"
      using True by (auto simp: sift_down.simps)
    moreover have "sorted (map key l)"
    proof -
      have "map key l = key (l ! 0) # map key (drop 1 l)"
        using Suc.prems(1) by (cases l) auto
      then show ?thesis using Suc.prems True by (cases l) auto
    qed
    ultimately show ?thesis using True by simp
  next
    case False
    obtain l' j' where s: "sift_down key (key ?x) i ?l 0 = (l', j')" by fastforce
    have "down_heap key (?l[0 := ?x]) 0 i"
      unfolding down_heap_def over_children_def
    proof (intro conjI allI impI)
      fix k assume k: "0 < k \<and> k < i \<and> parent k \<noteq> 0"
      then have "key (l ! k) \<le> key (l ! parent k)" using Suc.prems(2) by (simp add: max_heap_def)
      then show "key (?l[0 := ?x] ! k) \<le> key (?l[0 := ?x] ! parent k)" using k parent_less [of k] by simp
    qed simp
    then have d: "j' < i" "length l' = length l" "mset (l'[j' := ?x]) = mset (?l[0 := ?x])"
        "\<forall>k \<ge> i. l' ! k = ?l ! k" "max_heap key (l'[j' := ?x]) i"
      using sift_down_spec [where j = 0 and i = i and l = ?l and x = ?x and key = key] s False Suc.prems(1) by simp_all
    let ?m = "l'[j' := ?x]"
    have mset: "mset ?m = mset l"
    proof -
      have "?l[0 := ?x] = l[i := l ! 0, 0 := l ! i]" by simp
      then show ?thesis using d(3) mset_swap [of 0 l i] Suc.prems(1) False
        by (metis Suc_le_lessD gr_zeroI length_0_conv length_greater_0_conv list.size(3) not_less_zero)
    qed
    have top: "?m ! i = l ! 0" "drop (Suc i) ?m = drop (Suc i) l"
      using d Suc.prems(1) by (auto intro!: nth_equalityI)
    have dropi: "drop i ?m = l ! 0 # drop (Suc i) l"
      using top d(2) Suc.prems(1) by (metis Cons_nth_drop_Suc Suc_le_lessD length_list_update)
    have "mset (take i ?m) + mset (drop i ?m) = mset l" using mset by (metis append_take_drop_id mset_append)
    moreover have "mset (take (Suc i) l) + mset (drop (Suc i) l) = mset l" by (metis append_take_drop_id mset_append)
    ultimately have "mset (take i ?m) + {#l ! 0#} + mset (drop (Suc i) l) = mset (take (Suc i) l) + mset (drop (Suc i) l)"
      by (simp add: dropi)
    then have "mset (take i ?m) + {#l ! 0#} = mset (take (Suc i) l)" by (rule add_right_imp_eq)
    then have sub: "set (take i ?m) \<subseteq> set (take (Suc i) l)" "l ! 0 \<in> set (take (Suc i) l)"
      by (metis set_mset_mset set_mset_union Un_upper1) (use Suc.prems(1) in \<open>auto simp: in_set_conv_nth intro!: exI [of _ 0]\<close>)
    have max: "\<forall>a \<in> set (take (Suc i) l). key a \<le> key (l ! 0)"
      using max_heap_root [OF Suc.prems(2)] by (auto simp: in_set_conv_nth)
    have "sorted (map key (drop i ?m))" "\<forall>a \<in> set (take i ?m). \<forall>b \<in> set (drop i ?m). key a \<le> key b"
      using Suc.prems(3,4) sub max unfolding dropi by auto
    then show ?thesis using Suc.IH [of ?m] d mset s Suc.prems(1) by simp
  qed
qed simp

lemma lock_order_spec:
  assumes "length po \<le> length arr"
  shows "mset (lock_order arr scases po) = mset po \<and> sorted (map (sortkey scases) (lock_order arr scases po))"
proof -
  let ?key = "sortkey scases" let ?l = "lock_build ?key po 0 (take (length po) arr)"
  have l: "length ?l = length po" "max_heap ?key ?l (length ?l)" "mset ?l = mset po"
    using lock_build_spec [of po 0 "take (length po) arr" ?key] assms by (auto simp: max_heap_def)
  then show ?thesis using lock_extract_spec [of "length ?l" ?l ?key] by (simp add: lock_order_def)
qed


section \<open>The poll order\<close>

lemma unat_fastrandn: "unat (fastrandn r n) = unat r * unat n div 2 ^ 32"
proof (cases "n = 0")
  case False
  have r: "unat r < 2 ^ 32" and n: "unat n < 2 ^ 32" using unsigned_less [of r] unsigned_less [of n] by simp_all
  have pos: "0 < unat n" using False by (simp add: unat_gt_0)
  have small: "unat r * unat n < 2 ^ 32 * unat n" using r pos by (rule mult_strict_right_mono)
  also have "\<dots> < 2 ^ 32 * 2 ^ 32" using n by simp
  finally have "unat (ucast r * ucast n :: u64) = unat r * unat n"
    using r n by (simp add: unat_word_ariths unat_ucast)
  moreover have "unat r * unat n div 2 ^ 32 < unat n"
    using small by (simp add: less_mult_imp_div_less mult.commute)
  ultimately show ?thesis using n by (simp add: fastrandn_def unat_ucast unat_drop_bit)
qed (simp add: fastrandn_def)

lemma fastrandn_less:
  assumes "n \<noteq> 0"
  shows "fastrandn r n < n"
proof -
  have "unat r < 2 ^ 32" "0 < unat n" using unsigned_less [of r] assms by (simp_all add: unat_gt_0)
  then have "unat r * unat n < 2 ^ 32 * unat n" by (rule mult_strict_right_mono)
  then show ?thesis by (simp add: word_less_nat_alt unat_fastrandn less_mult_imp_div_less mult.commute)
qed

text \<open>The cases that have a channel, and the draws made for them.\<close>

definition active :: "'a scase list \<Rightarrow> nat list" where
  "active scases = filter (\<lambda>i. sc_c (scases ! i) \<noteq> 0) [0..<length scases]"

definition draw :: "(nat \<Rightarrow> u32) \<Rightarrow> nat \<Rightarrow> nat" where
  "draw rnd k = unat (fastrandn (rnd k) (of_nat (k + 1)))"

definition put_in :: "nat \<Rightarrow> nat \<Rightarrow> nat list \<Rightarrow> nat list" where
  "put_in j x xs = (if j < length xs then xs[j := x] @ [xs ! j] else xs @ [x])"

fun shuffle :: "(nat \<Rightarrow> nat) \<Rightarrow> nat list \<Rightarrow> nat list \<Rightarrow> nat list" where
  "shuffle js [] xs = xs"
| "shuffle js (i # is) xs = shuffle js is (put_in (js (length xs)) i xs)"

lemma length_put_in [simp]: "length (put_in j x xs) = Suc (length xs)"
  by (simp add: put_in_def)

lemma mset_put_in [simp]: "mset (put_in j x xs) = add_mset x (mset xs)"
proof (cases "j < length xs")
  case True
  then have "mset (xs[j := x]) + {#xs ! j#} = add_mset x (mset xs)" by (simp add: mset_update)
  then show ?thesis using True by (simp add: put_in_def)
qed (simp add: put_in_def)

lemma mset_shuffle: "mset (shuffle js is xs) = mset xs + mset is"
  by (induction js "is" xs rule: shuffle.induct) auto

lemma poll_loop_shuffle:
  assumes "norder + length scases \<le> length arr" "norder + length scases < 2 ^ 32"
  shows "(let (po, n) = poll_loop rnd scases i arr norder in take n po)
    = shuffle (draw rnd) (filter (\<lambda>k. sc_c (scases ! (k - i)) \<noteq> 0) [i..<i + length scases]) (take norder arr)"
  using assms
proof (induction scases arbitrary: i arr norder)
  case Nil
  then show ?case by simp
next
  case (Cons cas scases)
  let ?j = "draw rnd norder"
  let ?arr = "arr[norder := arr ! ?j, ?j := i]"
  have rest: "filter (\<lambda>k. sc_c ((cas # scases) ! (k - i)) \<noteq> 0) [i..<i + length (cas # scases)]
      = (if sc_c cas \<noteq> 0 then [i] else [])
        @ filter (\<lambda>k. sc_c (scases ! (k - Suc i)) \<noteq> 0) [Suc i..<Suc i + length scases]"
  proof -
    have "[i..<i + length (cas # scases)] = i # [Suc i..<Suc i + length scases]"
      using upt_conv_Cons [of i "i + length (cas # scases)"] by simp
    moreover have "filter (\<lambda>k. sc_c ((cas # scases) ! (k - i)) \<noteq> 0) [Suc i..<Suc i + length scases]
        = filter (\<lambda>k. sc_c (scases ! (k - Suc i)) \<noteq> 0) [Suc i..<Suc i + length scases]"
      by (rule filter_cong) (auto simp: nth_Cons' Suc_diff_Suc)
    ultimately show ?thesis by simp
  qed
  show ?case
  proof (cases "sc_c cas = 0")
    case True
    then show ?thesis unfolding rest using Cons.IH [of norder arr "Suc i"] Cons.prems by (simp del: upt_Suc)
  next
    case False
    have len: "norder < length arr" using Cons.prems(1) by simp
    have u: "unat (of_nat m :: u32) = m" if "m < 2 ^ 32" for m using that by (simp add: unat_of_nat)
    have u1: "unat (of_nat (norder + 1) :: u32) = norder + 1" by (rule u) (use Cons.prems(2) in simp)
    then have nz: "(of_nat (norder + 1) :: u32) \<noteq> 0" by (metis add_eq_0_iff_both_eq_0 unat_0 zero_neq_one)
    have "unat (fastrandn (rnd norder) (of_nat (norder + 1))) < norder + 1"
      using fastrandn_less [OF nz, of "rnd norder"] unfolding word_less_nat_alt u1 .
    then have j: "?j \<le> norder"
      by (simp only: draw_def less_Suc_eq_le Suc_eq_plus1 [symmetric])
    have "take (Suc norder) ?arr = put_in ?j i (take norder arr)"
      using j len by (auto simp: put_in_def take_Suc_conv_app_nth nth_append nth_list_update intro!: nth_equalityI)
    then show ?thesis
      unfolding rest using Cons.IH [of "Suc norder" ?arr "Suc i"] Cons.prems False len
      by (simp add: Let_def draw_def del: upt_Suc)
  qed
qed


lemma poll_order_shuffle:
  assumes "length scases \<le> length arr" "length scases < 2 ^ 32"
  shows "poll_order rnd arr scases = shuffle (draw rnd) (active scases) []"
  using poll_loop_shuffle [of 0 scases arr rnd 0] assms by (simp add: poll_order_def active_def)

lemma mset_poll_order:
  assumes "length scases \<le> length arr" "length scases < 2 ^ 32"
  shows "mset (poll_order rnd arr scases) = mset (active scases)"
  by (simp add: poll_order_shuffle [OF assms] mset_shuffle)

text \<open>A draw is the position that the new case takes, and the rest of the order can be told from the result.\<close>

lemma put_in_inject:
  assumes "put_in j x xs = put_in j' x xs'" "x \<notin> set xs" "x \<notin> set xs'" "j \<le> length xs" "j' \<le> length xs'"
  shows "j = j' \<and> xs = xs'"
proof -
  have len: "length xs = length xs'" using arg_cong [OF assms(1), of length] by simp
  have at: "put_in j x xs ! k = x \<longleftrightarrow> k = j" if "x \<notin> set xs" "j \<le> length xs" "k \<le> length xs" for j k and xs :: "nat list"
    using that nth_mem [of k xs] nth_mem [of j xs] by (auto simp: put_in_def nth_append nth_list_update le_less)
  have j: "j = j'" using at [OF assms(2,4,4)] at [OF assms(3,5), of j] assms(1,4) len by simp
  have "put_in j x xs ! k = (if k = j then x else if k = length xs then xs ! j else xs ! k)"
    if "k \<le> length xs" "j \<le> length xs" for k and xs :: "nat list"
    using that by (auto simp: put_in_def nth_append nth_list_update)
  then have "xs ! k = xs' ! k" if "k < length xs" for k
    using that assms(1,4) len j by (cases "k = j") (metis le_less less_irrefl_nat)+
  then show ?thesis using j len by (auto intro: nth_equalityI)
qed

lemma put_in_surj:
  assumes "j < length ys" "ys ! j = x"
  shows "\<exists>xs. put_in j x xs = ys \<and> length xs = length ys - 1"
proof -
  let ?xs = "butlast (ys[j := last ys])"
  have "ys \<noteq> []" using assms(1) by auto
  then have "put_in j x ?xs = ys"
    using assms by (intro nth_equalityI) (auto simp: put_in_def nth_append nth_list_update nth_butlast last_conv_nth less_Suc_eq,
        (metis Suc_pred length_greater_0_conv less_antisym)+)
  then show ?thesis by (intro exI [of _ ?xs]) simp
qed


lemma shuffle_snoc: "shuffle js (is @ [i]) xs = put_in (js (length xs + length is)) i (shuffle js is xs)"
proof (induction "is" arbitrary: xs)
  case (Cons k "is")
  show ?case using Cons.IH [of "put_in (js (length xs)) k xs"] by simp
qed simp

lemma length_shuffle [simp]: "length (shuffle js is xs) = length xs + length is"
  by (induction js "is" xs rule: shuffle.induct) auto

lemma set_shuffle [simp]: "set (shuffle js is xs) = set xs \<union> set is"
  by (metis mset_shuffle set_mset_mset set_mset_union)

lemma shuffle_cong: "(\<And>k. k < length is \<Longrightarrow> js k = js' k) \<Longrightarrow> shuffle js is [] = shuffle js' is []"
  by (induction "is" rule: rev_induct) (auto simp: shuffle_snoc)

lemma shuffle_inject:
  assumes "distinct is" "\<forall>k < length is. js k \<le> k" "\<forall>k < length is. js' k \<le> k"
  shows "shuffle js is [] = shuffle js' is [] \<longleftrightarrow> (\<forall>k < length is. js k = js' k)"
  using assms
proof (induction "is" rule: rev_induct)
  case (snoc i "is")
  have "shuffle js (is @ [i]) [] = shuffle js' (is @ [i]) []
      \<longleftrightarrow> js (length is) = js' (length is) \<and> shuffle js is [] = shuffle js' is []"
    using put_in_inject [of "js (length is)" i "shuffle js is []" "js' (length is)" "shuffle js' is []"] snoc.prems
    by (auto simp: shuffle_snoc)
  then show ?case using snoc by (auto simp: less_Suc_eq)
qed simp

lemma shuffle_surj:
  assumes "mset ys = mset is" "distinct is"
  shows "\<exists>js. (\<forall>k < length is. js k \<le> k) \<and> shuffle js is [] = ys"
  using assms
proof (induction "is" arbitrary: ys rule: rev_induct)
  case (snoc i "is")
  have "i \<in> set ys" using snoc.prems(1) by (metis in_set_conv_decomp mset_eq_setD)
  then obtain j where j: "j < length ys" "ys ! j = i" by (auto simp: in_set_conv_nth)
  obtain xs where xs: "put_in j i xs = ys" "length xs = length ys - 1" using put_in_surj [OF j] by blast
  then have "mset xs = mset is" using snoc.prems(1) mset_put_in [of j i xs] by simp
  then obtain js where js: "\<forall>k < length is. js k \<le> k" "shuffle js is [] = xs" using snoc by auto
  let ?js = "js(length is := j)"
  have "shuffle ?js is [] = xs" using js(2) shuffle_cong [of "is" ?js js] by auto
  moreover have "length ys = Suc (length is)" using snoc.prems(1) by (metis length_append_singleton size_mset)
  ultimately have "shuffle ?js (is @ [i]) [] = ys" "\<forall>k < length (is @ [i]). ?js k \<le> k"
    using xs j js(1) by (auto simp: shuffle_snoc)
  then show ?case by blast
qed simp

text \<open>Every draw below \<open>k + 1\<close> can come out of \<open>fastrandn\<close>.\<close>

lemma draw_le: "k + 1 < 2 ^ 32 \<Longrightarrow> draw rnd k \<le> k"
proof -
  assume k: "k + 1 < 2 ^ 32"
  have u1: "unat (of_nat (k + 1) :: u32) = k + 1" using k by (simp only: unat_of_nat) simp
  then have nz: "(of_nat (k + 1) :: u32) \<noteq> 0" by (metis add_eq_0_iff_both_eq_0 unat_0 zero_neq_one)
  show ?thesis using fastrandn_less [OF nz, of "rnd k"] unfolding word_less_nat_alt u1 draw_def by simp
qed

lemma draw_any:
  assumes "j \<le> k" "k + 1 < 2 ^ 32"
  shows "\<exists>r. \<forall>rnd. rnd k = r \<longrightarrow> draw rnd k = j"
proof -
  define q where "q = (j * 2 ^ 32 + k) div (k + 1)"
  have "q * (k + 1) + (j * 2 ^ 32 + k) mod (k + 1) = j * 2 ^ 32 + k" unfolding q_def by (rule div_mult_mod_eq)
  moreover have "(j * 2 ^ 32 + k) mod (k + 1) \<le> k" using mod_less_divisor [of "k + 1" "j * 2 ^ 32 + k"] by linarith
  ultimately have q: "j * 2 ^ 32 \<le> q * (k + 1)" "q * (k + 1) \<le> j * 2 ^ 32 + k" by linarith+
  have "q * (k + 1) < 2 ^ 32 * (k + 1)" using q(2) assms by simp
  then have "q < 2 ^ 32" by (rule mult_right_less_imp_less) simp
  then have "unat (of_nat q :: u32) = q" by (simp add: unat_of_nat)
  moreover have "unat (of_nat (k + 1) :: u32) = k + 1" using assms(2) by (simp only: unat_of_nat) simp
  moreover have "q * (k + 1) div 2 ^ 32 = j"
    using q assms(2) by (intro div_nat_eqI) simp_all
  ultimately show ?thesis by (intro exI [of _ "of_nat q"]) (simp only: draw_def unat_fastrandn, simp)
qed

lemma draws_any:
  assumes "\<forall>k < n. js k \<le> k" "n < 2 ^ 32"
  shows "\<exists>rnd. \<forall>k < n. draw rnd k = js k"
proof -
  have "\<forall>k. \<exists>r. k < n \<longrightarrow> (\<forall>rnd. rnd k = r \<longrightarrow> draw rnd k = js k)"
  proof
    fix k
    show "\<exists>r. k < n \<longrightarrow> (\<forall>rnd. rnd k = r \<longrightarrow> draw rnd k = js k)"
      using draw_any [of "js k" k] assms by (cases "k < n") auto
  qed
  then obtain rnd where "\<forall>k. k < n \<longrightarrow> (\<forall>rnd'. rnd' k = rnd k \<longrightarrow> draw rnd' k = js k)" by metis
  then show ?thesis by blast
qed

lemma distinct_active: "distinct (active scases)"
  by (simp add: active_def)

lemma length_active: "length (active scases) \<le> length scases"
  unfolding active_def by (metis length_filter_le length_upt diff_zero)


section \<open>Locks\<close>

lemma sellock_strict:
  assumes "sorted (map (sortkey scases) lo)" "\<forall>i \<in> set lo. c \<le> sortkey scases i"
  shows "sorted_wrt (<) (c # sellock scases c lo)
    \<and> set (c # sellock scases c lo) = insert c (sortkey scases ` set lo)"
  using assms
proof (induction scases c lo rule: sellock.induct)
  case (2 scases c i lo)
  show ?case
  proof (cases "sortkey scases i = c")
    case True
    then show ?thesis using 2 by (simp add: sortkey_def)
  next
    case False
    then have "c < sortkey scases i" using 2(4) by simp
    then show ?thesis using 2(1) [of "sortkey scases i"] 2(3) False by (auto simp: sortkey_def Let_def)
  qed
qed simp

lemma sellock_snoc: "sellock scases c (lo @ [i]) = sellock scases c lo
    @ (if sortkey scases i = (if lo = [] then c else sortkey scases (last lo)) then [] else [sortkey scases i])"
  by (induction scases c lo rule: sellock.induct) (auto simp: sortkey_def Let_def)

lemma selunlock_sellock: "i \<le> length lo \<Longrightarrow> (\<forall>k \<in> set lo. sortkey scases k \<noteq> 0)
    \<Longrightarrow> selunlock scases lo i = rev (sellock scases 0 (take i lo))"
proof (induction i)
  case (Suc i)
  have "take (Suc i) lo = take i lo @ [lo ! i]" using Suc.prems by (simp add: take_Suc_conv_app_nth)
  moreover have "sc_c (scases ! (lo ! i)) \<noteq> 0" using Suc.prems by (simp add: sortkey_def)
  moreover have "0 < i \<Longrightarrow> last (take i lo) = lo ! (i - 1)"
    by (subst last_conv_nth) (use Suc.prems in auto)
  moreover have "take i lo = [] \<longleftrightarrow> i = 0" using Suc.prems by auto
  ultimately show ?case using Suc by (cases "i = 0") (auto simp: sellock_snoc sortkey_def Let_def)
qed simp

lemma selparkcommit_sellock: "(\<forall>i \<in> set lo. sortkey scases i \<noteq> 0)
    \<Longrightarrow> selparkcommit c (map (sortkey scases) lo) = (if c = 0 then [] else [c]) @ sellock scases c lo"
  by (induction scases c lo rule: sellock.induct) (auto simp: sortkey_def Let_def)

text \<open>The orders of one \<open>selectgo\<close>; \<open>arr\<close> and \<open>arr'\<close> are the uninitialised arrays.\<close>

definition sel_orders :: "(nat \<Rightarrow> u32) \<Rightarrow> nat list \<Rightarrow> nat list \<Rightarrow> 'a scase list \<Rightarrow> nat list \<times> nat list" where
  "sel_orders rnd arr arr' scases = (let po = poll_order rnd arr scases in (po, lock_order arr' scases po))"

lemma sel_orders_spec:
  assumes "sel_orders rnd arr arr' scases = (po, lo)"
    and "length scases \<le> 65536" "length scases \<le> length arr" "length scases \<le> length arr'"
  shows "mset po = mset (active scases)" "mset lo = mset (active scases)" "sorted (map (sortkey scases) lo)"
    "set po = set (active scases)" "set lo = set (active scases)" "distinct lo"
proof -
  show po: "mset po = mset (active scases)"
    using mset_poll_order [of scases arr rnd] assms by (auto simp: sel_orders_def Let_def)
  then have "length po \<le> length arr'" using length_active [of scases] assms(4) by (metis mset_eq_length le_trans)
  then have "mset lo = mset po \<and> sorted (map (sortkey scases) lo)"
    using lock_order_spec [of po arr' scases] assms by (auto simp: sel_orders_def Let_def)
  then show lo: "mset lo = mset (active scases)" "sorted (map (sortkey scases) lo)" using po by auto
  show "set po = set (active scases)" "set lo = set (active scases)" using po lo by (metis mset_eq_setD)+
  show "distinct lo" using lo distinct_active by (metis mset_eq_imp_distinct_iff)
qed

lemma sellock_channels:
  assumes "sel_orders rnd arr arr' scases = (po, lo)"
    and "length scases \<le> 65536" "length scases \<le> length arr" "length scases \<le> length arr'"
  shows "sellock scases 0 lo = sorted_list_of_set (sc_c ` set scases - {0})" "\<forall>i \<in> set lo. sortkey scases i \<noteq> 0"
proof -
  note o = sel_orders_spec [OF assms]
  show nz: "\<forall>i \<in> set lo. sortkey scases i \<noteq> 0" using o(5) by (auto simp: active_def sortkey_def)
  have s: "sorted_wrt (<) (0 # sellock scases 0 lo)"
      "set (0 # sellock scases 0 lo) = insert 0 (sortkey scases ` set lo)"
    using sellock_strict [OF o(3), of 0] by auto
  have img: "sortkey scases ` set lo = sc_c ` set scases - {0}"
    unfolding o(5)
  proof (intro equalityI subsetI)
    fix a assume "a \<in> sortkey scases ` set (active scases)"
    then obtain i where "i < length scases" "sc_c (scases ! i) \<noteq> 0" "a = sc_c (scases ! i)"
      by (auto simp: active_def sortkey_def)
    then show "a \<in> sc_c ` set scases - {0}" using imageI [OF nth_mem, of i scases sc_c] by simp
  next
    fix a assume "a \<in> sc_c ` set scases - {0}"
    then obtain i where "i < length scases" "a = sc_c (scases ! i)" "a \<noteq> 0" by (auto simp: in_set_conv_nth)
    then show "a \<in> sortkey scases ` set (active scases)"
      by (intro image_eqI [of _ _ i]) (auto simp: active_def sortkey_def)
  qed
  have "0 \<notin> set (sellock scases 0 lo)" using s(1) by auto
  then have "set (sellock scases 0 lo) = set (0 # sellock scases 0 lo) - {0}" by simp
  also have "\<dots> = sc_c ` set scases - {0}" unfolding s(2) img by simp
  finally have "set (sellock scases 0 lo) = sc_c ` set scases - {0}" .
  moreover have "sorted (sellock scases 0 lo)" "distinct (sellock scases 0 lo)"
    using s(1) by (auto intro: sorted_wrt_mono_rel [of _ "(<)"] simp: strict_sorted_iff)
  ultimately show "sellock scases 0 lo = sorted_list_of_set (sc_c ` set scases - {0})"
    by (metis sorted_list_of_set.idem_if_sorted_distinct)
qed

text \<open>
  C6: The locks of a \<open>select\<close>. Whatever the random numbers are, the order of polling and the order of locking list
  the cases with a channel, each once. \<open>sellock\<close> locks every channel of the statement once, in the order of the
  addresses, however many cases a channel has; \<open>selunlock\<close> unlocks them all in the reverse order, and
  \<open>selparkcommit\<close> all in the same order.
\<close>

theorem select_locks:
  assumes "sel_orders rnd arr arr' scases = (po, lo)"
    and "length scases \<le> 65536" "length scases \<le> length arr" "length scases \<le> length arr'"
  shows "mset po = mset (active scases) \<and> mset lo = mset (active scases)
    \<and> sellock scases 0 lo = sorted_list_of_set (sc_c ` set scases - {0})
    \<and> selunlock scases lo (length lo) = rev (sellock scases 0 lo)
    \<and> selparkcommit 0 (map (sortkey scases) lo) = sellock scases 0 lo"
  using sel_orders_spec [OF assms] sellock_channels [OF assms]
    selunlock_sellock [of "length lo" lo scases] selparkcommit_sellock [of lo scases 0] by simp

definition ex_scases :: "nat scase list" where
  "ex_scases = map (\<lambda>c. \<lparr>sc_c = c, sc_val = 0, sc_ep = True\<rparr>) [7, 0, 5, 7]"

theorem select_locks_witness:
  "\<exists>po lo. sel_orders (\<lambda>_. 0) (replicate 4 0) (replicate 4 0) ex_scases = (po, lo)
     \<and> sellock ex_scases 0 lo = [5, 7] \<and> selunlock ex_scases lo (length lo) = [7, 5]"
proof -
  obtain po lo where o: "sel_orders (\<lambda>_. 0) (replicate 4 0) (replicate 4 0) ex_scases = (po, lo)" by fastforce
  have l: "sellock ex_scases 0 lo = [5, 7]"
    using select_locks [OF o] by (simp add: ex_scases_def insert_commute)
  have "length ex_scases = 4" by (simp add: ex_scases_def)
  then show ?thesis using select_locks [OF o] o l by simp
qed

text \<open>
  C7: Selects cannot deadlock on the locks. Let every goroutine of \<open>G\<close> be in \<open>sellock\<close>, holding the first \<open>pos\<close>
  locks of its list and waiting for the next. Then some goroutine waits for a lock that none of them holds.
\<close>

theorem select_no_lock_cycle:
  assumes "finite G" and "G \<noteq> {}"
    and "\<And>g. g \<in> G \<Longrightarrow> \<exists>rnd arr arr' po lo. sel_orders rnd arr arr' (scases g) = (po, lo) \<and> length (scases g) \<le> 65536
           \<and> length (scases g) \<le> length arr \<and> length (scases g) \<le> length arr' \<and> locks g = sellock (scases g) 0 lo"
    and "\<And>g. g \<in> G \<Longrightarrow> pos g < length (locks g)"
  shows "\<exists>g \<in> G. \<forall>g' \<in> G. locks g ! pos g \<notin> set (take (pos g') (locks g'))"
proof -
  have strict: "sorted_wrt (<) (locks g)" if "g \<in> G" for g
    using assms(3) [OF that] sellock_channels(1) strict_sorted_list_of_set by metis
  let ?w = "\<lambda>g. locks g ! pos g"
  have "Max (?w ` G) \<in> ?w ` G" by (rule Max_in) (use assms(1,2) in auto)
  then obtain g where g: "g \<in> G" "?w g = Max (?w ` G)" by (elim imageE) auto
  have "?w g \<notin> set (take (pos g') (locks g'))" if "g' \<in> G" for g'
  proof
    assume "?w g \<in> set (take (pos g') (locks g'))"
    then obtain k where "k < pos g'" "?w g = locks g' ! k" by (auto simp: in_set_conv_nth)
    then have "?w g < ?w g'" using strict [OF that] assms(4) [OF that] by (simp add: sorted_wrt_iff_nth_less)
    moreover have "?w g' \<le> ?w g" using g(2) assms(1) that by simp
    ultimately show False by simp
  qed
  then show ?thesis using g(1) by blast
qed

text \<open>
  C8: Every order of polling is as likely as any other, up to the rounding of \<open>fastrandn\<close>: the order is determined
  by the draws, one below \<open>k + 1\<close> for the \<open>k\<close>-th case that has a channel, different draws give different orders,
  and each arrangement of the cases is the order for some draws.
\<close>

theorem select_poll_fair:
  assumes "length scases \<le> 65536" "length scases \<le> length arr"
  shows "(\<forall>rnd k. k < length (active scases) \<longrightarrow> draw rnd k \<le> k)
    \<and> (\<forall>rnd rnd'. poll_order rnd arr scases = poll_order rnd' arr scases
          \<longleftrightarrow> (\<forall>k < length (active scases). draw rnd k = draw rnd' k))
    \<and> (\<forall>po. mset po = mset (active scases) \<longrightarrow> (\<exists>rnd. poll_order rnd arr scases = po))"
proof -
  let ?n = "length (active scases)"
  have n: "?n < 2 ^ 32" using length_active [of scases] assms(1) by simp
  have le: "draw rnd k \<le> k" if "k < ?n" for rnd k using draw_le [of k rnd] n that by simp
  have order: "poll_order rnd arr scases = shuffle (draw rnd) (active scases) []" for rnd
    by (rule poll_order_shuffle) (use assms in simp_all)
  have "\<exists>rnd. poll_order rnd arr scases = po" if po: "mset po = mset (active scases)" for po
  proof -
    obtain js where js: "\<forall>k < ?n. js k \<le> k" "shuffle js (active scases) [] = po"
      using shuffle_surj [OF po distinct_active] by blast
    obtain rnd where "\<forall>k < ?n. draw rnd k = js k" using draws_any [OF js(1) n] by blast
    then show ?thesis using js(2) order shuffle_cong [of "active scases" "draw rnd" js] by auto
  qed
  moreover have "poll_order rnd arr scases = poll_order rnd' arr scases \<longleftrightarrow> (\<forall>k < ?n. draw rnd k = draw rnd' k)"
    for rnd rnd' unfolding order by (rule shuffle_inject [OF distinct_active]) (use le in blast)+
  ultimately show ?thesis using le by blast
qed


theorem select_poll_fair_witness:
  "\<exists>rnd. poll_order rnd (replicate 4 0) ex_scases = [3, 0, 2]"
proof -
  have "length ex_scases = 4" "active ex_scases = [0, 2, 3]" by (simp_all add: ex_scases_def active_def upt_rec)
  then have "\<forall>po. mset po = mset [0, 2, 3] \<longrightarrow> (\<exists>rnd. poll_order rnd (replicate 4 0) ex_scases = po)"
    using select_poll_fair [of ex_scases "replicate 4 0"] by simp
  then show ?thesis by simp
qed

theorem select_no_lock_cycle_witness:
  "\<exists>g \<in> {0, 1 :: nat}. [5, 7] ! (if g = 0 then 1 else 0) \<notin> set (take 1 [5, 7 :: nat]) \<union> set (take 0 [5, 7])"
proof -
  let ?pos = "\<lambda>g :: nat. if g = 0 then 1 else 0 :: nat"
  obtain po lo where o: "sel_orders (\<lambda>_. 0) (replicate 4 0) (replicate 4 0) ex_scases = (po, lo)" by fastforce
  have l: "sellock ex_scases 0 lo = [5, 7]"
    using sellock_channels(1) [OF o] by (simp add: ex_scases_def insert_commute)
  have "length ex_scases = 4" by (simp add: ex_scases_def)
  then have h: "\<exists>rnd arr arr' po lo. sel_orders rnd arr arr' ex_scases = (po, lo) \<and> length ex_scases \<le> 65536
      \<and> length ex_scases \<le> length arr \<and> length ex_scases \<le> length arr' \<and> [5, 7] = sellock ex_scases 0 lo"
    using o l by (intro exI [of _ "\<lambda>_. 0"] exI [of _ "replicate 4 0"] exI [of _ po] exI [of _ lo]) simp
  have "\<exists>g \<in> {0, 1}. \<forall>g' \<in> {0, 1}. [5, 7 :: nat] ! ?pos g \<notin> set (take (?pos g') [5, 7])"
    by (rule select_no_lock_cycle [where G = "{0, 1}" and scases = "\<lambda>_. ex_scases" and locks = "\<lambda>_. [5, 7]"]) (use h in auto)
  then show ?thesis by simp
qed

end
