(* ===== verification/Select.thy ===== *)
theory Select
  imports SelectOrder
begin

text \<open>
  \<open>selectgo\<close> of \<open>runtime/select.go\<close>: its three passes over the cases. The code between \<open>sellock\<close> and \<open>selunlock\<close> holds the locks of all channels of
  the statement and is one step on the channels \<open>h\<close>, a function of the address; \<open>dn\<close> is the set of the goroutines
  whose \<open>selectDone\<close> is set. Cases below \<open>nsends\<close> send. The list \<open>gp.waiting\<close> is the lock order, which a parked
  goroutine carries; one that runs has none, so the throw \<open>gp.waiting != nil\<close> before pass 2 is left out, as are
  profiling and the race detector.
\<close>

section \<open>The code\<close>

text \<open>
  The index of the chosen case, -1 when there was none; what is reported for a receive, and the value that was
  stored at \<open>elem\<close>. \<open>SelParked\<close> holds the case indices of the goroutine's waiting list.
\<close>

datatype 'a select_result =
    SelDone int bool "'a option" | SelParked "nat list" | SelPanic chan_error | SelThrow

text \<open>Pass 1 looks for something already waiting.\<close>

fun sel_pass1 :: "'a \<Rightarrow> nat \<Rightarrow> 'a scase list \<Rightarrow> nat list \<Rightarrow> (nat \<Rightarrow> 'a hchan) \<Rightarrow> nat set \<Rightarrow>
    'a select_result option \<times> (nat \<Rightarrow> 'a hchan) \<times> nat set \<times> 'a wakeup list" where
  "sel_pass1 z nsends scases [] h dn = (None, h, dn, [])"
| "sel_pass1 z nsends scases (casi # pollorder) h dn =
     (let cas = scases ! casi; a = sc_c cas; c = h a; out = (\<lambda>v. if sc_ep cas then Some v else None) in
      if casi \<ge> nsends then
        (case waitq_dequeue dn (sendq c) of
           (Some sg, q, dn) \<Rightarrow>
             let (c, v, w) = recv (c\<lparr>sendq := q\<rparr>) sg
             in (Some (SelDone (int casi) True (out v)), h(a := c), dn, [w])
         | (None, q, dn) \<Rightarrow>
             let c = c\<lparr>sendq := q\<rparr> in
             if qcount c > 0 then
               (Some (SelDone (int casi) True (out (buf c ! recvx c))),
                h(a := c\<lparr>buf := (buf c)[recvx c := z], recvx := wrap_inc (dataqsiz c) (recvx c),
                         qcount := qcount c - 1\<rparr>), dn, [])
             else if closed c then (Some (SelDone (int casi) False (out z)), h(a := c), dn, [])
             else sel_pass1 z nsends scases pollorder (h(a := c)) dn)
      else if closed c then (Some (SelPanic SendOnClosed), h, dn, [])
      else
        (case waitq_dequeue dn (recvq c) of
           (Some sg, q, dn) \<Rightarrow>
             (Some (SelDone (int casi) False None), h(a := c\<lparr>recvq := q\<rparr>), dn, [send sg (sc_val cas)])
         | (None, q, dn) \<Rightarrow>
             let c = c\<lparr>recvq := q\<rparr> in
             if qcount c < dataqsiz c then
               (Some (SelDone (int casi) False None),
                h(a := c\<lparr>buf := (buf c)[sendx c := sc_val cas], sendx := wrap_inc (dataqsiz c) (sendx c),
                         qcount := qcount c + 1\<rparr>), dn, [])
             else sel_pass1 z nsends scases pollorder (h(a := c)) dn))"

text \<open>Pass 2 enqueues the goroutine on all channels, in lock order.\<close>

fun sel_pass2 :: "nat \<Rightarrow> nat \<Rightarrow> 'a scase list \<Rightarrow> nat list \<Rightarrow> (nat \<Rightarrow> 'a hchan) \<Rightarrow> nat \<Rightarrow> 'a hchan" where
  "sel_pass2 gp nsends scases [] h = h"
| "sel_pass2 gp nsends scases (casi # lockorder) h =
     (let cas = scases ! casi; a = sc_c cas; c = h a in
      sel_pass2 gp nsends scases lockorder
        (h(a := if casi < nsends
                then c\<lparr>sendq := waitq_enqueue
                         \<lparr>sg_g = gp, sg_elem = sc_val cas, sg_isSelect = True, sg_case = casi\<rparr> (sendq c)\<rparr>
                else c\<lparr>recvq := waitq_enqueue
                         \<lparr>sg_g = gp, sg_elem = sc_ep cas, sg_isSelect = True, sg_case = casi\<rparr> (recvq c)\<rparr>)))"

definition selectgo :: "'a \<Rightarrow> nat \<Rightarrow> nat \<Rightarrow> 'a scase list \<Rightarrow> bool \<Rightarrow> (nat \<Rightarrow> u32) \<Rightarrow> nat list \<Rightarrow> nat list \<Rightarrow>
    (nat \<Rightarrow> 'a hchan) \<Rightarrow> nat set \<Rightarrow> 'a select_result \<times> (nat \<Rightarrow> 'a hchan) \<times> nat set \<times> 'a wakeup list" where
  "selectgo z gp nsends scases block rnd arr arr' h dn =
     (let (pollorder, lockorder) = sel_orders rnd arr arr' scases in
      case sel_pass1 z nsends scases pollorder h dn of
        (Some r, h, dn, ws) \<Rightarrow> (r, h, dn, ws)
      | (None, h, dn, ws) \<Rightarrow>
          if \<not> block then (SelDone (-1) False None, h, dn, [])
          else (SelParked lockorder, sel_pass2 gp nsends scases lockorder h, dn, []))"

text \<open>
  \<open>dequeueSudoG\<close> unlinks one sudog if it is still on the queue; the sudogs of a goroutine's select are told apart
  by their case.
\<close>

fun dequeueSudoG :: "nat \<Rightarrow> nat \<Rightarrow> 'e sudog list \<Rightarrow> 'e sudog list" where
  "dequeueSudoG gp casi [] = []"
| "dequeueSudoG gp casi (sg # q) =
     (if sg_isSelect sg \<and> sg_g sg = gp \<and> sg_case sg = casi then q else sg # dequeueSudoG gp casi q)"

text \<open>Pass 3 dequeues from the unsuccessful channels; \<open>won\<close> is the case whose sudog \<open>gp.param\<close> is.\<close>

fun sel_pass3 :: "nat \<Rightarrow> nat \<Rightarrow> 'a scase list \<Rightarrow> nat \<Rightarrow> nat list \<Rightarrow> (nat \<Rightarrow> 'a hchan) \<Rightarrow> nat \<Rightarrow> 'a hchan" where
  "sel_pass3 gp nsends scases won [] h = h"
| "sel_pass3 gp nsends scases won (casi # lockorder) h =
     (let a = sc_c (scases ! casi); c = h a in
      sel_pass3 gp nsends scases won lockorder
        (if casi = won then h
         else if casi < nsends then h(a := c\<lparr>sendq := dequeueSudoG gp casi (sendq c)\<rparr>)
         else h(a := c\<lparr>recvq := dequeueSudoG gp casi (recvq c)\<rparr>)))"

definition selectgo_resume :: "nat \<Rightarrow> nat \<Rightarrow> 'a scase list \<Rightarrow> nat list \<Rightarrow> 'a wakeup \<Rightarrow>
    (nat \<Rightarrow> 'a hchan) \<Rightarrow> nat set \<Rightarrow> 'a select_result \<times> (nat \<Rightarrow> 'a hchan) \<times> nat set" where
  "selectgo_resume gp nsends scases lockorder w h dn =
     (let dn = dn - {gp}; casi = wk_case w; h = sel_pass3 gp nsends scases casi lockorder h in
      (if casi \<notin> set lockorder then SelThrow
       else if casi < nsends then
         (if \<not> wk_success w then SelPanic SendOnClosed else SelDone (int casi) False None)
       else SelDone (int casi) (wk_success w) (wk_value w), h, dn))"

section \<open>Live entries of a wait queue\<close>

definition live :: "nat set \<Rightarrow> 'e sudog \<Rightarrow> bool" where
  "live dn sg \<longleftrightarrow> \<not> (sg_isSelect sg \<and> sg_g sg \<in> dn)"

lemma dequeue_none: "\<forall>sg \<in> set q. \<not> live dn sg \<Longrightarrow> waitq_dequeue dn q = (None, [], dn)"
  by (induction dn q rule: waitq_dequeue.induct) (auto simp: live_def)

lemma dequeue_some:
  assumes "\<exists>sg \<in> set q. live dn sg"
  shows "\<exists>stale sg q'. q = stale @ sg # q' \<and> (\<forall>s \<in> set stale. \<not> live dn s) \<and> live dn sg
    \<and> waitq_dequeue dn q = (Some sg, q', if sg_isSelect sg then insert (sg_g sg) dn else dn)"
  using assms
proof (induction dn q rule: waitq_dequeue.induct)
  case (2 dn s q)
  show ?case
  proof (cases "live dn s")
    case True
    then show ?thesis by (intro exI [of _ "[]"]) (auto simp: live_def)
  next
    case False
    then have s: "sg_isSelect s \<and> sg_g s \<in> dn" by (simp add: live_def)
    then obtain stale sg q' where r: "q = stale @ sg # q'" "\<forall>x \<in> set stale. \<not> live dn x" "live dn sg"
        "waitq_dequeue dn q = (Some sg, q', if sg_isSelect sg then insert (sg_g sg) dn else dn)"
      using 2 False by auto
    then show ?thesis using s False by (intro exI [of _ "s # stale"] exI [of _ sg] exI [of _ q']) simp
  qed
qed simp


section \<open>One case at a time\<close>

text \<open>What the channels satisfy between operations, for the entries that are still live.\<close>

definition chans_ok :: "nat set \<Rightarrow> (nat \<Rightarrow> 'a hchan) \<Rightarrow> bool" where
  "chans_ok dn h \<longleftrightarrow> (\<forall>a. qcount (h a) \<le> dataqsiz (h a)
     \<and> (closed (h a) \<longrightarrow> recvq (h a) = [] \<and> sendq (h a) = [])
     \<and> (\<forall>sg \<in> set (recvq (h a)). live dn sg \<longrightarrow> qcount (h a) = 0)
     \<and> (\<forall>sg \<in> set (sendq (h a)). live dn sg \<longrightarrow> qcount (h a) = dataqsiz (h a)))"

definition sel_ready :: "nat set \<Rightarrow> nat \<Rightarrow> 'a scase list \<Rightarrow> (nat \<Rightarrow> 'a hchan) \<Rightarrow> nat \<Rightarrow> bool" where
  "sel_ready dn nsends scases h casi =
     (let c = h (sc_c (scases ! casi)) in
      if casi \<ge> nsends then (\<exists>sg \<in> set (sendq c). live dn sg) \<or> qcount c > 0 \<or> closed c
      else closed c \<or> (\<exists>sg \<in> set (recvq c). live dn sg) \<or> qcount c < dataqsiz c)"

text \<open>Polling a case that is not ready only drops the stale entries of the queue it looks at.\<close>

definition sel_clear :: "nat \<Rightarrow> 'a scase list \<Rightarrow> nat \<Rightarrow> (nat \<Rightarrow> 'a hchan) \<Rightarrow> nat \<Rightarrow> 'a hchan" where
  "sel_clear nsends scases casi h =
     (let a = sc_c (scases ! casi); c = h a in
      h(a := if casi \<ge> nsends then c\<lparr>sendq := []\<rparr> else c\<lparr>recvq := []\<rparr>))"

text \<open>The non-blocking operation on the channel of one case, as \<open>chansend\<close> and \<open>chanrecv\<close> do it.\<close>

definition case_op :: "'a \<Rightarrow> nat \<Rightarrow> nat \<Rightarrow> 'a scase list \<Rightarrow> nat \<Rightarrow> (nat \<Rightarrow> 'a hchan) \<Rightarrow> nat set \<Rightarrow>
    'a select_result \<times> (nat \<Rightarrow> 'a hchan) \<times> nat set \<times> 'a wakeup list" where
  "case_op z gp nsends scases casi h dn =
     (let cas = scases ! casi; a = sc_c cas in
      if casi \<ge> nsends then
        (case chanrecv z gp (sc_ep cas) False (Some (h a)) dn of (r, ch, dn, ws) \<Rightarrow>
           (case r of RecvDone True ok v \<Rightarrow> SelDone (int casi) ok v | _ \<Rightarrow> SelThrow, h(a := the ch), dn, ws))
      else
        (case chansend gp (sc_val cas) False (Some (h a)) dn of (r, ch, dn, ws) \<Rightarrow>
           (case r of SendDone True \<Rightarrow> SelDone (int casi) False None | SendPanic e \<Rightarrow> SelPanic e | _ \<Rightarrow> SelThrow,
            h(a := the ch), dn, ws)))"

lemma no_sendq [simp]: "sendq c = [] \<Longrightarrow> c\<lparr>sendq := []\<rparr> = c"
  by (cases c) simp

lemma no_recvq [simp]: "recvq c = [] \<Longrightarrow> c\<lparr>recvq := []\<rparr> = c"
  by (cases c) simp

lemma pass1_step:
  assumes "chans_ok dn h"
  shows "sel_pass1 z nsends scases (casi # po) h dn =
     (if sel_ready dn nsends scases h casi
      then (case case_op z gp nsends scases casi h dn of (r, h, dn, ws) \<Rightarrow> (Some r, h, dn, ws))
      else sel_pass1 z nsends scases po (sel_clear nsends scases casi h) dn)"
proof -
  define c where "c = h (sc_c (scases ! casi))"
  have ok: "qcount c \<le> dataqsiz c" "closed c \<Longrightarrow> recvq c = [] \<and> sendq c = []"
      "\<exists>sg \<in> set (recvq c). live dn sg \<Longrightarrow> qcount c = 0" "\<exists>sg \<in> set (sendq c). live dn sg \<Longrightarrow> qcount c = dataqsiz c"
    using assms by (auto simp: chans_ok_def c_def)
  show ?thesis
  proof (cases "casi \<ge> nsends")
    case True
    show ?thesis
    proof (cases "\<exists>sg \<in> set (sendq c). live dn sg")
      case live: True
      then obtain stale sg q' where q: "sendq c = stale @ sg # q'"
          "waitq_dequeue dn (sendq c) = (Some sg, q', if sg_isSelect sg then insert (sg_g sg) dn else dn)"
        using dequeue_some by blast
      have "\<not> empty c" "\<not> closed c" using ok live q(1) by (auto simp: empty_def)
      then show ?thesis
        using True live q(2) ok(4) by (auto simp: sel_ready_def case_op_def chanrecv_def c_def [symmetric] Let_def split: prod.splits)
    next
      case False
      then have q: "waitq_dequeue dn (sendq c) = (None, [], dn)" using dequeue_none by blast
      show ?thesis
        using True False q ok(1,2)
        by (auto simp: sel_ready_def case_op_def chanrecv_def empty_def sel_clear_def c_def [symmetric] Let_def)
    qed
  next
    case False
    show ?thesis
    proof (cases "\<exists>sg \<in> set (recvq c). live dn sg")
      case live: True
      then obtain stale sg q' where q: "recvq c = stale @ sg # q'"
          "waitq_dequeue dn (recvq c) = (Some sg, q', if sg_isSelect sg then insert (sg_g sg) dn else dn)"
        using dequeue_some by blast
      have "\<not> full c" "\<not> closed c" using ok live q(1) by (auto simp: full_def)
      then show ?thesis
        using False live q(2) by (auto simp: sel_ready_def case_op_def chansend_def c_def [symmetric] Let_def)
    next
      case none: False
      then have q: "waitq_dequeue dn (recvq c) = (None, [], dn)" using dequeue_none by blast
      show ?thesis
        using False none q ok(1,2)
        by (auto simp: sel_ready_def case_op_def chansend_def full_def sel_clear_def c_def [symmetric] Let_def)
    qed
  qed
qed

lemma clear_ok: "chans_ok dn h \<Longrightarrow> chans_ok dn (sel_clear nsends scases casi h)"
  by (auto simp: chans_ok_def sel_clear_def Let_def)

lemma clear_ready: "\<not> sel_ready dn nsends scases h casi
    \<Longrightarrow> sel_ready dn nsends scases (sel_clear nsends scases casi h) j = sel_ready dn nsends scases h j"
  by (auto simp: sel_ready_def sel_clear_def Let_def split: if_splits)

lemma pass1_first:
  assumes "chans_ok dn h"
  shows "sel_pass1 z nsends scases po h dn =
     (let h' = fold (sel_clear nsends scases) (takeWhile (\<lambda>i. \<not> sel_ready dn nsends scases h i) po) h in
      case find (sel_ready dn nsends scases h) po of
        None \<Rightarrow> (None, h', dn, [])
      | Some i \<Rightarrow> (case case_op z gp nsends scases i h' dn of (r, h, dn, ws) \<Rightarrow> (Some r, h, dn, ws)))"
  using assms
proof (induction po arbitrary: h)
  case (Cons i po)
  show ?case
  proof (cases "sel_ready dn nsends scases h i")
    case True
    then show ?thesis using pass1_step [OF Cons.prems, where gp = gp] by simp
  next
    case False
    then have "sel_ready dn nsends scases (sel_clear nsends scases i h) = sel_ready dn nsends scases h"
      using clear_ready by blast
    then show ?thesis
      using False pass1_step [OF Cons.prems, where gp = gp] Cons.IH [OF clear_ok [OF Cons.prems], of nsends scases i]
      by (simp add: Let_def)
  qed
qed simp


lemma select_polls:
  assumes "chans_ok dn h" and "sel_orders rnd arr arr' scases = (po, lo)"
  shows "selectgo z gp nsends scases block rnd arr arr' h dn =
     (let h' = fold (sel_clear nsends scases) (takeWhile (\<lambda>i. \<not> sel_ready dn nsends scases h i) po) h in
      case find (sel_ready dn nsends scases h) po of
        Some i \<Rightarrow> case_op z gp nsends scases i h' dn
      | None \<Rightarrow> if \<not> block then (SelDone (-1) False None, h', dn, [])
                else (SelParked lo, sel_pass2 gp nsends scases lo h', dn, []))"
  using pass1_first [OF assms(1), of z nsends scases po gp] assms(2)
  by (auto simp: selectgo_def Let_def split: option.splits prod.splits)

section \<open>Parking\<close>

text \<open>A channel after the goroutine has parked: behind its queues the entries of the cases on that channel.\<close>

definition send_entry :: "nat \<Rightarrow> 'a scase list \<Rightarrow> nat \<Rightarrow> 'a sudog" where
  "send_entry gp scases i = \<lparr>sg_g = gp, sg_elem = sc_val (scases ! i), sg_isSelect = True, sg_case = i\<rparr>"

definition recv_entry :: "nat \<Rightarrow> 'a scase list \<Rightarrow> nat \<Rightarrow> bool sudog" where
  "recv_entry gp scases i = \<lparr>sg_g = gp, sg_elem = sc_ep (scases ! i), sg_isSelect = True, sg_case = i\<rparr>"

definition parked_chan :: "nat \<Rightarrow> nat \<Rightarrow> 'a scase list \<Rightarrow> nat list \<Rightarrow> nat \<Rightarrow> 'a hchan \<Rightarrow> 'a hchan" where
  "parked_chan gp nsends scases lo a c =
     (let here = filter (\<lambda>i. sc_c (scases ! i) = a) lo in
      c\<lparr>recvq := recvq c @ map (recv_entry gp scases) (filter (\<lambda>i. nsends \<le> i) here),
        sendq := sendq c @ map (send_entry gp scases) (filter (\<lambda>i. i < nsends) here)\<rparr>)"

lemma pass2_parks: "sel_pass2 gp nsends scases lo h a = parked_chan gp nsends scases lo a (h a)"
  by (induction lo arbitrary: h) (auto simp: parked_chan_def send_entry_def recv_entry_def waitq_enqueue_def Let_def)

text \<open>
  C5: A \<open>select\<close> takes the first case that can proceed in its order of polling, and does on that channel what a
  single non-blocking send or receive would do. When no case can proceed it returns -1 if there is a default
  case, and else parks: to the queues of every channel it appends one entry for each case of the statement on that
  channel, sends in the one and receives in the other, and changes nothing else. Looking at the cases before the
  chosen one only drops stale entries.
\<close>

theorem select_first_ready:
  assumes "chans_ok dn h" and "sel_orders rnd arr arr' scases = (po, lo)"
  shows "selectgo z gp nsends scases block rnd arr arr' h dn =
     (let h' = fold (sel_clear nsends scases) (takeWhile (\<lambda>i. \<not> sel_ready dn nsends scases h i) po) h in
      case find (sel_ready dn nsends scases h) po of
        Some i \<Rightarrow> case_op z gp nsends scases i h' dn
      | None \<Rightarrow> if \<not> block then (SelDone (-1) False None, h', dn, [])
                else (SelParked lo, \<lambda>a. parked_chan gp nsends scases lo a (h' a), dn, []))
   \<and> (length scases \<le> 65536 \<and> length scases \<le> length arr \<and> length scases \<le> length arr' \<longrightarrow>
        distinct po \<and> distinct lo \<and> set po = {i. i < length scases \<and> sc_c (scases ! i) \<noteq> 0} \<and> set lo = set po)"
proof
  show "selectgo z gp nsends scases block rnd arr arr' h dn =
     (let h' = fold (sel_clear nsends scases) (takeWhile (\<lambda>i. \<not> sel_ready dn nsends scases h i) po) h in
      case find (sel_ready dn nsends scases h) po of
        Some i \<Rightarrow> case_op z gp nsends scases i h' dn
      | None \<Rightarrow> if \<not> block then (SelDone (-1) False None, h', dn, [])
                else (SelParked lo, \<lambda>a. parked_chan gp nsends scases lo a (h' a), dn, []))"
    unfolding select_polls [OF assms] pass2_parks [symmetric] ..
  show "length scases \<le> 65536 \<and> length scases \<le> length arr \<and> length scases \<le> length arr' \<longrightarrow>
        distinct po \<and> distinct lo \<and> set po = {i. i < length scases \<and> sc_c (scases ! i) \<noteq> 0} \<and> set lo = set po"
  proof
    assume "length scases \<le> 65536 \<and> length scases \<le> length arr \<and> length scases \<le> length arr'"
    then have spec: "mset po = mset (active scases)" "set po = set (active scases)" "set lo = set (active scases)" "distinct lo"
      using sel_orders_spec [OF assms(2)] by blast+
    have "distinct po" using spec(1) distinct_active by (metis mset_eq_imp_distinct_iff)
    then show "distinct po \<and> distinct lo \<and> set po = {i. i < length scases \<and> sc_c (scases ! i) \<noteq> 0} \<and> set lo = set po"
      using spec by (auto simp: active_def)
  qed
qed

text \<open>A receive from an empty channel 5 and a send to channel 7, which has room.\<close>

definition ex_chan :: "nat \<Rightarrow> nat hchan" where
  "ex_chan a = \<lparr>qcount = 0, dataqsiz = 1, buf = [0], elemsize = 8, closed = False, sendx = 0, recvx = 0, recvq = [], sendq = []\<rparr>"

definition ex_cases :: "nat scase list" where
  "ex_cases = [\<lparr>sc_c = 7, sc_val = 42, sc_ep = False\<rparr>, \<lparr>sc_c = 5, sc_val = 0, sc_ep = True\<rparr>]"

lemma ex_clear: "fold (sel_clear n ex_cases) is ex_chan = ex_chan"
proof -
  have "sel_clear n ex_cases i ex_chan = ex_chan" for i
    by (auto simp: sel_clear_def ex_chan_def Let_def fun_eq_iff)
  then show ?thesis by (induction "is") simp_all
qed

lemma ex_ok: "chans_ok {} ex_chan"
  by (simp add: chans_ok_def ex_chan_def)

text \<open>The send proceeds; and when both cases are receives, the goroutine waits on both channels.\<close>

theorem select_first_ready_witness:
  "fst (selectgo 0 3 1 ex_cases True (\<lambda>k. of_nat k) [0, 0] [0, 0] ex_chan {}) = SelDone 0 False None
   \<and> (case selectgo 0 3 0 ex_cases True (\<lambda>k. of_nat k) [0, 0] [0, 0] ex_chan {} of (r, h, _) \<Rightarrow>
        map sg_case (recvq (h 7)) = [0] \<and> map sg_case (recvq (h 5)) = [1] \<and> recvq (h 9) = [])"
proof
  obtain po lo where o: "sel_orders (\<lambda>k. of_nat k) [0, 0] [0, 0] ex_cases = (po, lo)" by fastforce
  note first = select_first_ready [OF ex_ok o]
  have len: "length ex_cases \<le> 65536 \<and> length ex_cases \<le> length [0, 0 :: nat] \<and> length ex_cases \<le> length [0, 0 :: nat]"
    by (simp add: ex_cases_def)
  have lo: "distinct lo" "set lo = {0, 1}" "set po = {0, 1}"
  proof -
    have "{i. i < length ex_cases \<and> sc_c (ex_cases ! i) \<noteq> 0} = {0, 1}"
      by (auto simp: ex_cases_def less_Suc_eq)
    then show "distinct lo" "set lo = {0, 1}" "set po = {0, 1}" using first [THEN conjunct2, THEN mp, OF len] by simp_all
  qed
  have "sel_ready {} 1 ex_cases ex_chan i \<longleftrightarrow> i = 0" if "i \<in> {0, 1}" for i
    using that by (auto simp: sel_ready_def ex_cases_def ex_chan_def)
  then have "find (sel_ready {} 1 ex_cases ex_chan) po = Some 0"
    using lo(3) by (metis find_None_iff2 find_Some_iff insertI1 nth_mem not_None_eq)
  then show "fst (selectgo 0 3 1 ex_cases True (\<lambda>k. of_nat k) [0, 0] [0, 0] ex_chan {}) = SelDone 0 False None"
    unfolding first [of 0 3 1 True, THEN conjunct1] Let_def ex_clear
    by (simp add: ex_clear case_op_def ex_cases_def ex_chan_def chansend_def full_def)
  have "\<not> sel_ready {} 0 ex_cases ex_chan i" if "i \<in> {0, 1}" for i
    using that by (auto simp: sel_ready_def ex_cases_def ex_chan_def)
  then have none: "find (sel_ready {} 0 ex_cases ex_chan) po = None" unfolding find_None_iff lo(3) by blast
  have "lo = [0, 1] \<or> lo = [1, 0]"
  proof -
    have "length lo = 2" using lo(1,2) distinct_card [of lo] by simp
    then obtain x y where xy: "lo = [x, y]" by (auto simp: numeral_2_eq_2 length_Suc_conv)
    then have "x \<noteq> y" "{x, y} = {0, 1}" using lo(1,2) by simp_all
    then show ?thesis unfolding xy by (simp add: doubleton_eq_iff)
  qed
  then show "case selectgo 0 3 0 ex_cases True (\<lambda>k. of_nat k) [0, 0] [0, 0] ex_chan {} of (r, h, _) \<Rightarrow>
        map sg_case (recvq (h 7)) = [0] \<and> map sg_case (recvq (h 5)) = [1] \<and> recvq (h 9) = []"
    unfolding first [of 0 3 0 True, THEN conjunct1] Let_def ex_clear none
    by (auto simp: ex_clear parked_chan_def recv_entry_def ex_cases_def ex_chan_def)
qed

end
