(* ===== verification/Rselect.thy ===== *)
theory Rselect
  imports Select
begin

text \<open>
  \<open>reflect_rselect\<close> of \<open>runtime/select.go\<close>, the \<open>select\<close> of package \<open>reflect\<close>: it sorts the cases of the caller into
  sends and receives for \<open>selectgo\<close> and translates the index that was chosen back. \<open>reflect.Select\<close>, its only caller,
  panics for other directions than the three below and for a second default case.
\<close>

section \<open>The code\<close>

datatype selectDir = SelectSend | SelectRecv | SelectDefault

text \<open>\<open>rs_val\<close> and \<open>rs_ep\<close> stand for what \<open>val\<close> points to, as in a \<open>scase\<close>.\<close>

record 'a runtimeSelect =
  rs_dir :: selectDir
  rs_ch :: nat
  rs_val :: 'a
  rs_ep :: bool

definition scase_of :: "'a runtimeSelect \<Rightarrow> 'a scase" where
  "scase_of rc = \<lparr>sc_c = rs_ch rc, sc_val = rs_val rc, sc_ep = rs_ep rc\<rparr>"

text \<open>The loop over the cases from index \<open>i\<close> on: sends fill \<open>sel\<close> from the front and receives from the back.\<close>

fun rselect_loop :: "nat \<Rightarrow> 'a runtimeSelect list \<Rightarrow> nat \<Rightarrow> 'a scase list \<Rightarrow> nat list \<Rightarrow> nat \<Rightarrow> nat \<Rightarrow> int \<Rightarrow>
    'a scase list \<times> nat list \<times> nat \<times> nat \<times> int" where
  "rselect_loop n [] i sel orig nsends nrecvs dflt = (sel, orig, nsends, nrecvs, dflt)"
| "rselect_loop n (rc # cases) i sel orig nsends nrecvs dflt =
     (case rs_dir rc of
        SelectDefault \<Rightarrow> rselect_loop n cases (i + 1) sel orig nsends nrecvs (int i)
      | SelectSend \<Rightarrow>
          let j = nsends; nsends = nsends + 1
          in rselect_loop n cases (i + 1) (sel[j := scase_of rc]) (orig[j := i]) nsends nrecvs dflt
      | SelectRecv \<Rightarrow>
          let nrecvs = nrecvs + 1; j = n - nrecvs
          in rselect_loop n cases (i + 1) (sel[j := scase_of rc]) (orig[j := i]) nsends nrecvs dflt)"

text \<open>\<open>copy(x[nsends:], x[len(x)-nrecvs:])\<close>, of which only the first \<open>nsends + nrecvs\<close> elements are used.\<close>

definition compact :: "nat \<Rightarrow> nat \<Rightarrow> 'e list \<Rightarrow> 'e list" where
  "compact nsends nrecvs xs = take nsends xs @ drop (length xs - nrecvs) xs"

definition rselect_setup :: "'a \<Rightarrow> 'a runtimeSelect list \<Rightarrow> 'a scase list \<times> nat list \<times> nat \<times> nat \<times> int" where
  "rselect_setup z cases =
     (let sel = replicate (length cases) \<lparr>sc_c = 0, sc_val = z, sc_ep = False\<rparr>;
          orig = replicate (length cases) 0;
          (sel, orig, nsends, nrecvs, dflt) = rselect_loop (length cases) cases 0 sel orig 0 0 (-1)
      in if nsends + nrecvs < length cases
         then (compact nsends nrecvs sel, compact nsends nrecvs orig, nsends, nrecvs, dflt)
         else (sel, orig, nsends, nrecvs, dflt))"

definition rselect_result :: "nat list \<Rightarrow> int \<Rightarrow> 'a select_result \<Rightarrow> 'a select_result" where
  "rselect_result orig dflt r =
     (case r of SelDone chosen recvOK v \<Rightarrow> SelDone (if chosen < 0 then dflt else int (orig ! nat chosen)) recvOK v
      | _ \<Rightarrow> r)"

definition reflect_rselect :: "'a \<Rightarrow> nat \<Rightarrow> 'a runtimeSelect list \<Rightarrow> (nat \<Rightarrow> u32) \<Rightarrow> (nat \<Rightarrow> 'a hchan) \<Rightarrow> nat set \<Rightarrow>
    'a select_result \<times> (nat \<Rightarrow> 'a hchan) \<times> nat set \<times> 'a wakeup list" where
  "reflect_rselect z gp cases rnd h dn =
     (if cases = [] then (SelParked [], h, dn, [])
      else let (sel, orig, nsends, nrecvs, dflt) = rselect_setup z cases in
        if nsends + nrecvs = 0 then (SelDone dflt False None, h, dn, [])
        else let order = replicate (nsends + nrecvs) 0;
                 (r, h, dn, ws) = selectgo z gp nsends sel (dflt = -1) rnd order order h dn
             in (rselect_result orig dflt r, h, dn, ws))"

text \<open>What is left to do for a goroutine that parked in \<open>selectgo\<close> and was woken.\<close>

definition reflect_rselect_resume :: "'a \<Rightarrow> nat \<Rightarrow> 'a runtimeSelect list \<Rightarrow> nat list \<Rightarrow> 'a wakeup \<Rightarrow>
    (nat \<Rightarrow> 'a hchan) \<Rightarrow> nat set \<Rightarrow> 'a select_result \<times> (nat \<Rightarrow> 'a hchan) \<times> nat set" where
  "reflect_rselect_resume z gp cases lockorder w h dn =
     (let (sel, orig, nsends, nrecvs, dflt) = rselect_setup z cases;
          (r, h, dn) = selectgo_resume gp nsends sel lockorder w h dn
      in (rselect_result orig dflt r, h, dn))"

section \<open>Sorting the cases\<close>

definition dir_cases :: "selectDir \<Rightarrow> 'a runtimeSelect list \<Rightarrow> nat \<Rightarrow> nat list" where
  "dir_cases d cases k = filter (\<lambda>i. rs_dir (cases ! i) = d) [0..<k]"

definition dflt_case :: "'a runtimeSelect list \<Rightarrow> nat \<Rightarrow> int" where
  "dflt_case cases k = (if dir_cases SelectDefault cases k = [] then -1 else int (last (dir_cases SelectDefault cases k)))"

text \<open>What the caller's cases are in the order in which \<open>selectgo\<close> gets them.\<close>

definition rselect_orig :: "'a runtimeSelect list \<Rightarrow> nat list" where
  "rselect_orig cases = dir_cases SelectSend cases (length cases) @ rev (dir_cases SelectRecv cases (length cases))"

lemma dir_cases_Suc: "dir_cases d cases (Suc k) = dir_cases d cases k @ (if rs_dir (cases ! k) = d then [k] else [])"
  by (simp add: dir_cases_def)

lemma dir_cases_length: "length (dir_cases SelectSend cases k) + length (dir_cases SelectRecv cases k) \<le> k"
  by (induction k) (auto simp: dir_cases_Suc simp: dir_cases_def [of _ _ 0])

lemma dflt_case_Suc: "dflt_case cases (Suc k) = (if rs_dir (cases ! k) = SelectDefault then int k else dflt_case cases k)"
  by (simp add: dflt_case_def dir_cases_Suc)

lemma drop_update_at: "j < length xs \<Longrightarrow> drop j (xs[j := x]) = x # drop (Suc j) xs"
  by (simp add: Cons_nth_drop_Suc [symmetric])

lemma compact_same: "length xs - nrecvs = nsends \<Longrightarrow> compact nsends nrecvs xs = xs"
  by (simp add: compact_def)

text \<open>The state of the loop before case \<open>i\<close>.\<close>

definition sorted_cases :: "'a runtimeSelect list \<Rightarrow> nat \<Rightarrow> 'a scase list \<Rightarrow> nat list \<Rightarrow> nat \<Rightarrow> nat \<Rightarrow> int \<Rightarrow> bool" where
  "sorted_cases cases i sel orig ns nr dflt \<longleftrightarrow>
     length sel = length cases \<and> length orig = length cases
   \<and> ns = length (dir_cases SelectSend cases i) \<and> nr = length (dir_cases SelectRecv cases i) \<and> dflt = dflt_case cases i
   \<and> take ns orig = dir_cases SelectSend cases i \<and> drop (length cases - nr) orig = rev (dir_cases SelectRecv cases i)
   \<and> take ns sel = map (\<lambda>i. scase_of (cases ! i)) (take ns orig)
   \<and> drop (length cases - nr) sel = map (\<lambda>i. scase_of (cases ! i)) (drop (length cases - nr) orig)"

lemma sorted_cases_step:
  assumes "sorted_cases cases i sel orig ns nr dflt" "i < length cases"
  shows "rs_dir (cases ! i) = SelectDefault \<Longrightarrow> sorted_cases cases (Suc i) sel orig ns nr (int i)"
    and "rs_dir (cases ! i) = SelectSend
      \<Longrightarrow> sorted_cases cases (Suc i) (sel[ns := scase_of (cases ! i)]) (orig[ns := i]) (Suc ns) nr dflt"
    and "rs_dir (cases ! i) = SelectRecv
      \<Longrightarrow> sorted_cases cases (Suc i) (sel[length cases - Suc nr := scase_of (cases ! i)]) (orig[length cases - Suc nr := i])
            ns (Suc nr) dflt"
proof -
  have room: "ns + nr \<le> i" using dir_cases_length [of cases i] assms by (simp add: sorted_cases_def)
  have j: "Suc (length cases - Suc nr) = length cases - nr" "length cases - Suc nr < length cases" "ns \<le> length cases - Suc nr"
      "ns < length cases" "ns < length cases - nr"
    using assms(2) room by auto
  note simps = sorted_cases_def dir_cases_Suc dflt_case_Suc drop_update_at take_Suc_conv_app_nth
  show "rs_dir (cases ! i) = SelectDefault \<Longrightarrow> sorted_cases cases (Suc i) sel orig ns nr (int i)"
    using assms(1) by (auto simp: simps)
  show "rs_dir (cases ! i) = SelectSend
      \<Longrightarrow> sorted_cases cases (Suc i) (sel[ns := scase_of (cases ! i)]) (orig[ns := i]) (Suc ns) nr dflt"
    using assms(1) j by (auto simp: simps)
  show "rs_dir (cases ! i) = SelectRecv
      \<Longrightarrow> sorted_cases cases (Suc i) (sel[length cases - Suc nr := scase_of (cases ! i)]) (orig[length cases - Suc nr := i])
            ns (Suc nr) dflt"
    using assms(1) j by (auto simp: simps)
qed

lemma rselect_loop_spec:
  assumes "sorted_cases cases i sel orig ns nr dflt" "i + length rest = length cases" "\<forall>k < length rest. rest ! k = cases ! (i + k)"
    and "rselect_loop (length cases) rest i sel orig ns nr dflt = (sel', orig', ns', nr', dflt')"
  shows "sorted_cases cases (length cases) sel' orig' ns' nr' dflt'"
  using assms
proof (induction rest arbitrary: i sel orig ns nr dflt)
  case (Cons rc rest)
  have i: "i < length cases" "cases ! i = rc" "Suc i + length rest = length cases"
      "\<forall>k < length rest. rest ! k = cases ! (Suc i + k)"
    using Cons.prems(2,3) by (auto dest: spec [of _ 0] spec [of _ "Suc _"])
  show ?case
    using Cons.IH [OF _ i(3,4)] sorted_cases_step [OF Cons.prems(1) i(1)] Cons.prems(4) i(2)
    by (cases "rs_dir rc") (auto simp: Let_def)
qed simp

lemma rselect_setup_spec:
  "rselect_setup z cases = (map (\<lambda>i. scase_of (cases ! i)) (rselect_orig cases), rselect_orig cases,
     length (dir_cases SelectSend cases (length cases)), length (dir_cases SelectRecv cases (length cases)),
     dflt_case cases (length cases))"
proof -
  let ?n = "length cases" and ?s = "dir_cases SelectSend cases" and ?r = "dir_cases SelectRecv cases"
  obtain sel orig ns nr dflt where l: "rselect_loop ?n cases 0 (replicate ?n \<lparr>sc_c = 0, sc_val = z, sc_ep = False\<rparr>)
      (replicate ?n 0) 0 0 (-1) = (sel, orig, ns, nr, dflt)" by (metis prod_cases5)
  have "sorted_cases cases ?n sel orig ns nr dflt"
    by (rule rselect_loop_spec [OF _ _ _ l]) (simp_all add: sorted_cases_def dir_cases_def dflt_case_def)
  note spec = this [unfolded sorted_cases_def]
  have "compact ns nr orig = rselect_orig cases" using spec unfolding compact_def rselect_orig_def by metis
  moreover have "compact ns nr sel = map (\<lambda>i. scase_of (cases ! i)) (compact ns nr orig)"
    using spec unfolding compact_def map_append by metis
  moreover have "compact ns nr orig = orig" "compact ns nr sel = sel" if "\<not> ns + nr < ?n"
    using that spec dir_cases_length [of cases ?n] by (auto intro!: compact_same)
  ultimately show ?thesis using spec by (simp add: rselect_setup_def l Let_def)
qed

section \<open>What the caller gets\<close>

definition rs_ready :: "nat set \<Rightarrow> 'a runtimeSelect list \<Rightarrow> (nat \<Rightarrow> 'a hchan) \<Rightarrow> nat \<Rightarrow> bool" where
  "rs_ready dn cases h i =
     (let c = h (rs_ch (cases ! i)) in
      if rs_dir (cases ! i) = SelectRecv then (\<exists>sg \<in> set (sendq c). live dn sg) \<or> qcount c > 0 \<or> closed c
      else closed c \<or> (\<exists>sg \<in> set (recvq c). live dn sg) \<or> qcount c < dataqsiz c)"

definition rs_clear :: "'a runtimeSelect list \<Rightarrow> nat \<Rightarrow> (nat \<Rightarrow> 'a hchan) \<Rightarrow> nat \<Rightarrow> 'a hchan" where
  "rs_clear cases i h =
     (let a = rs_ch (cases ! i); c = h a in
      h(a := if rs_dir (cases ! i) = SelectRecv then c\<lparr>sendq := []\<rparr> else c\<lparr>recvq := []\<rparr>))"

text \<open>The non-blocking send or receive that case \<open>i\<close> of the caller asks for.\<close>

definition rs_op :: "'a \<Rightarrow> nat \<Rightarrow> 'a runtimeSelect list \<Rightarrow> nat \<Rightarrow> (nat \<Rightarrow> 'a hchan) \<Rightarrow> nat set \<Rightarrow>
    'a select_result \<times> (nat \<Rightarrow> 'a hchan) \<times> nat set \<times> 'a wakeup list" where
  "rs_op z gp cases i h dn =
     (let rc = cases ! i; a = rs_ch rc in
      if rs_dir rc = SelectRecv then
        (case chanrecv z gp (rs_ep rc) False (Some (h a)) dn of (r, ch, dn, ws) \<Rightarrow>
           (case r of RecvDone True ok v \<Rightarrow> SelDone (int i) ok v | _ \<Rightarrow> SelThrow, h(a := the ch), dn, ws))
      else
        (case chansend gp (rs_val rc) False (Some (h a)) dn of (r, ch, dn, ws) \<Rightarrow>
           (case r of SendDone True \<Rightarrow> SelDone (int i) False None | SendPanic e \<Rightarrow> SelPanic e | _ \<Rightarrow> SelThrow,
            h(a := the ch), dn, ws)))"

lemma rselect_orig_nth:
  assumes "j < length (rselect_orig cases)"
  shows "rs_dir (cases ! (rselect_orig cases ! j))
      = (if j < length (dir_cases SelectSend cases (length cases)) then SelectSend else SelectRecv)"
    and "rselect_orig cases ! j < length cases"
proof -
  let ?d = "\<lambda>d. dir_cases d cases (length cases)"
  have d: "i \<in> set (?d d) \<Longrightarrow> rs_dir (cases ! i) = d \<and> i < length cases" for i d by (auto simp: dir_cases_def)
  have "rselect_orig cases ! j
      \<in> set (?d (if j < length (?d SelectSend) then SelectSend else SelectRecv))"
    using assms nth_mem [of "j - length (?d SelectSend)" "rev (?d SelectRecv)"]
    by (auto simp: rselect_orig_def nth_append)
  then show "rs_dir (cases ! (rselect_orig cases ! j))
      = (if j < length (?d SelectSend) then SelectSend else SelectRecv)" "rselect_orig cases ! j < length cases"
    using d by blast+
qed

lemma rselect_orig_set:
  "distinct (rselect_orig cases)" "set (rselect_orig cases) = {i. i < length cases \<and> rs_dir (cases ! i) \<noteq> SelectDefault}"
proof -
  show "distinct (rselect_orig cases)" by (auto simp: rselect_orig_def dir_cases_def)
  have "rs_dir rc \<noteq> SelectDefault \<longleftrightarrow> rs_dir rc = SelectSend \<or> rs_dir rc = SelectRecv" for rc :: "'b runtimeSelect"
    by (cases "rs_dir rc") auto
  then show "set (rselect_orig cases) = {i. i < length cases \<and> rs_dir (cases ! i) \<noteq> SelectDefault}"
    by (auto simp: rselect_orig_def dir_cases_def)
qed

text \<open>A case as \<open>selectgo\<close> sees it and as the caller sees it.\<close>

lemma rselect_case:
  assumes "j < length (rselect_orig cases)" and "sel = map (\<lambda>i. scase_of (cases ! i)) (rselect_orig cases)"
    and "nsends = length (dir_cases SelectSend cases (length cases))"
  shows "sel_ready dn nsends sel h j = rs_ready dn cases h (rselect_orig cases ! j)"
    and "sel_clear nsends sel j h = rs_clear cases (rselect_orig cases ! j) h"
    and "(case case_op z gp nsends sel j h dn of (r, h, dn, ws) \<Rightarrow> (rselect_result (rselect_orig cases) dflt r, h, dn, ws))
      = rs_op z gp cases (rselect_orig cases ! j) h dn"
  using assms rselect_orig_nth [OF assms(1)]
  by (auto simp: sel_ready_def rs_ready_def sel_clear_def rs_clear_def case_op_def rs_op_def scase_of_def Let_def
      rselect_result_def split: prod.splits recv_result.splits send_result.splits bool.splits)

lemma rselect_active:
  assumes "set po = set (active (map (\<lambda>i. scase_of (cases ! i)) (rselect_orig cases)))" "distinct po"
  shows "distinct (map ((!) (rselect_orig cases)) po)"
    and "set (map ((!) (rselect_orig cases)) po)
      = {i. i < length cases \<and> rs_dir (cases ! i) \<noteq> SelectDefault \<and> rs_ch (cases ! i) \<noteq> 0}"
proof -
  let ?o = "rselect_orig cases"
  have po: "set po = {j. j < length ?o \<and> rs_ch (cases ! (?o ! j)) \<noteq> 0}"
    unfolding assms(1) active_def by (auto simp: scase_of_def)
  show "distinct (map ((!) ?o) po)"
    unfolding distinct_map using assms(2) by (intro conjI inj_on_nth rselect_orig_set(1)) (auto simp only: po)
  have "i \<in> set (map ((!) ?o) po) \<longleftrightarrow> i \<in> set ?o \<and> rs_ch (cases ! i) \<noteq> 0" for i
    by (auto simp: po in_set_conv_nth)
  then show "set (map ((!) ?o) po)
      = {i. i < length cases \<and> rs_dir (cases ! i) \<noteq> SelectDefault \<and> rs_ch (cases ! i) \<noteq> 0}"
    using rselect_orig_set(2) [of cases] by auto
qed

lemma dflt_case_none: "dflt_case cases k = -1 \<longleftrightarrow> (\<forall>i < k. rs_dir (cases ! i) \<noteq> SelectDefault)"
  by (auto simp: dflt_case_def dir_cases_def filter_empty_conv)

lemma find_map: "find P (map f xs) = map_option f (find (P \<circ> f) xs)"
  by (induction xs) auto

lemma find_cong': "(\<And>x. x \<in> set xs \<Longrightarrow> P x = Q x) \<Longrightarrow> find P xs = find Q xs"
  by (induction xs) auto

lemma fold_map_cong: "(\<And>x h. x \<in> set xs \<Longrightarrow> F x h = G (f x) h) \<Longrightarrow> fold G (map f xs) h = fold F xs h"
  by (induction xs arbitrary: h) auto

text \<open>
  C9: \<open>reflect.Select\<close> decides as the \<open>select\<close> statement does, in terms of the caller's cases: they are polled in some
  order that lists each send and receive with a channel once; the first one that can proceed is done, as a
  single non-blocking operation, and its index returned; if there is none, the index of the default case is, and
  without a default case the goroutine parks on all of them.
\<close>

theorem rselect_first_ready:
  assumes "chans_ok dn h" and "cases \<noteq> []" and "length cases \<le> 65536"
  shows "\<exists>order. distinct order
    \<and> set order = {i. i < length cases \<and> rs_dir (cases ! i) \<noteq> SelectDefault \<and> rs_ch (cases ! i) \<noteq> 0}
    \<and> (let h' = fold (rs_clear cases) (takeWhile (\<lambda>i. \<not> rs_ready dn cases h i) order) h;
           dflt = dflt_case cases (length cases); out = reflect_rselect z gp cases rnd h dn
       in case find (rs_ready dn cases h) order of
            Some i \<Rightarrow> out = rs_op z gp cases i h' dn
          | None \<Rightarrow> if dflt \<noteq> -1 then out = (SelDone dflt False None, h', dn, [])
              else \<exists>lo. fst out = SelParked lo \<and> snd (snd out) = (dn, [])
                 \<and> mset (map ((!) (rselect_orig cases)) lo) = mset order)"
proof -
  let ?o = "rselect_orig cases"
  define sel where "sel = map (\<lambda>i. scase_of (cases ! i)) ?o"
  define nsends where "nsends = length (dir_cases SelectSend cases (length cases))"
  define dflt where "dflt = dflt_case cases (length cases)"
  define arr where "arr = replicate (length ?o) (0 :: nat)"
  obtain po lo where ord: "sel_orders rnd arr arr sel = (po, lo)" by fastforce
  have "length ?o \<le> length cases" using dir_cases_length [of cases "length cases"] by (simp add: rselect_orig_def)
  then have o: "mset po = mset (active sel)" "mset lo = mset (active sel)" "set po = set (active sel)" "distinct po"
    using sel_orders_spec [OF ord] assms(3) mset_eq_imp_distinct_iff [of po "active sel"] distinct_active
    by (auto simp: sel_def arr_def)
  let ?order = "map ((!) ?o) po"
  note order = rselect_active [OF o(3) [unfolded sel_def] o(4)]
  have c: "sel_ready dn nsends sel h j = rs_ready dn cases h (?o ! j)"
      "sel_clear nsends sel j h' = rs_clear cases (?o ! j) h'"
      "(case case_op z gp nsends sel j h' dn of (r, h, dn, ws) \<Rightarrow> (rselect_result ?o dflt r, h, dn, ws))
        = rs_op z gp cases (?o ! j) h' dn" if "j \<in> set po" for j h'
    using that rselect_case [OF _ sel_def nsends_def, of j] by (auto simp: o(3) active_def sel_def)
  let ?h = "fold (sel_clear nsends sel) (takeWhile (\<lambda>j. \<not> sel_ready dn nsends sel h j) po) h"
  have find: "find (rs_ready dn cases h) ?order = map_option ((!) ?o) (find (sel_ready dn nsends sel h) po)"
    unfolding find_map by (intro arg_cong [where f = "map_option _"] find_cong') (simp add: c(1))
  have "takeWhile (\<lambda>i. \<not> rs_ready dn cases h i) ?order = map ((!) ?o) (takeWhile (\<lambda>j. \<not> sel_ready dn nsends sel h j) po)"
    unfolding takeWhile_map by (intro arg_cong [where f = "map _"] takeWhile_cong) (simp_all add: c(1))
  then have fold: "fold (rs_clear cases) (takeWhile (\<lambda>i. \<not> rs_ready dn cases h i) ?order) h = ?h"
    using fold_map_cong [of "takeWhile (\<lambda>j. \<not> sel_ready dn nsends sel h j) po"] c(2)
    by (metis (no_types, lifting) set_takeWhileD)
  have empty: "?o = [] \<Longrightarrow> dflt \<noteq> -1 \<and> po = []"
    using assms(2) rselect_orig_set(2) [of cases] o(3) dflt_case_none [of cases "length cases"]
    by (auto simp: dflt_def sel_def active_def)
  have run: "reflect_rselect z gp cases rnd h dn = (if ?o = [] then (SelDone dflt False None, h, dn, [])
      else case selectgo z gp nsends sel (dflt = -1) rnd arr arr h dn of (r, h, dn, ws) \<Rightarrow> (rselect_result ?o dflt r, h, dn, ws))"
    using assms(2) by (simp add: reflect_rselect_def rselect_setup_spec sel_def nsends_def dflt_def arr_def rselect_orig_def
        split: prod.splits)
  have out: "reflect_rselect z gp cases rnd h dn = (case find (sel_ready dn nsends sel h) po of
      Some j \<Rightarrow> rs_op z gp cases (?o ! j) ?h dn
    | None \<Rightarrow> if dflt \<noteq> -1 then (SelDone dflt False None, ?h, dn, [])
              else (SelParked lo, sel_pass2 gp nsends sel lo ?h, dn, []))"
  proof (cases "find (sel_ready dn nsends sel h) po")
    case None
    then show ?thesis
      using select_polls [OF assms(1) ord, of z gp nsends "dflt = -1"] empty run by (auto simp: Let_def rselect_result_def)
  next
    case (Some j)
    then have "j \<in> set po" by (auto simp: find_Some_iff)
    then show ?thesis
      using Some c(3) [of j ?h] select_polls [OF assms(1) ord, of z gp nsends "dflt = -1"] empty run
      by (auto simp: Let_def)
  qed
  show ?thesis
    by (intro exI [of _ ?order] conjI order)
      (simp add: out find fold dflt_def [symmetric] o split: option.split)
qed

text \<open>A default case, a receive from the empty channel 5 and a send to channel 7, which has room.\<close>

definition ex_rcases :: "nat runtimeSelect list" where
  "ex_rcases = [\<lparr>rs_dir = SelectDefault, rs_ch = 0, rs_val = 0, rs_ep = False\<rparr>,
     \<lparr>rs_dir = SelectRecv, rs_ch = 5, rs_val = 0, rs_ep = True\<rparr>,
     \<lparr>rs_dir = SelectSend, rs_ch = 7, rs_val = 42, rs_ep = False\<rparr>]"

theorem rselect_first_ready_witness:
  "fst (reflect_rselect 0 3 ex_rcases (\<lambda>k. of_nat k) ex_chan {}) = SelDone 2 False None"
proof -
  have ok: "chans_ok {} ex_chan" by (simp add: chans_ok_def ex_chan_def)
  obtain order where order: "set order = {i. i < length ex_rcases \<and> rs_dir (ex_rcases ! i) \<noteq> SelectDefault \<and> rs_ch (ex_rcases ! i) \<noteq> 0}"
    and out: "let h' = fold (rs_clear ex_rcases) (takeWhile (\<lambda>i. \<not> rs_ready {} ex_rcases ex_chan i) order) ex_chan;
           dflt = dflt_case ex_rcases (length ex_rcases); out = reflect_rselect 0 3 ex_rcases (\<lambda>k. of_nat k) ex_chan {}
       in case find (rs_ready {} ex_rcases ex_chan) order of
            Some i \<Rightarrow> out = rs_op 0 3 ex_rcases i h' {}
          | None \<Rightarrow> if dflt \<noteq> -1 then out = (SelDone dflt False None, h', {}, [])
              else \<exists>lo. fst out = SelParked lo \<and> snd (snd out) = ({}, [])
                 \<and> mset (map ((!) (rselect_orig ex_rcases)) lo) = mset order"
    using rselect_first_ready [OF ok, of ex_rcases 0 3 "\<lambda>k. of_nat k"] by (auto simp: ex_rcases_def)
  have "set order = {1, 2}"
    unfolding order by (auto simp: ex_rcases_def less_Suc_eq nth_Cons' split: if_splits)
  moreover have ready: "rs_ready {} ex_rcases ex_chan i \<longleftrightarrow> i = 2" if "i \<in> {1, 2}" for i
    using that by (auto simp: rs_ready_def ex_rcases_def ex_chan_def)
  ultimately have "find (rs_ready {} ex_rcases ex_chan) order = Some 2"
    by (metis find_None_iff2 find_Some_iff insertI1 insertI2 nth_mem not_None_eq)
  moreover have clear: "rs_clear ex_rcases i ex_chan = ex_chan" for i
    by (auto simp: rs_clear_def ex_chan_def Let_def fun_eq_iff)
  have "fold (rs_clear ex_rcases) is ex_chan = ex_chan" for "is" by (induction "is") (simp_all add: clear)
  ultimately show ?thesis
    using out by (simp add: rs_op_def ex_rcases_def ex_chan_def chansend_def full_def Let_def)
qed

end
