(* ===== verification/SelectSys.thy ===== *)
theory SelectSys
  imports Select
begin

text \<open>
  Goroutines that send, receive, close and select on any number of channels, interleaved: the operations of
  \<open>Chan\<close> and \<open>Select\<close> on shared channels. A goroutine that is not blocked runs one operation, which is one step,
  as it holds the locks of its channels; a goroutine that was made ready runs on from where it parked. Operations
  on a nil channel touch no state.
\<close>

section \<open>The system\<close>

datatype 'a gstat = GIdle | GSend nat | GRecv nat | GSelect nat "'a scase list" "nat list"

record 'a chan_sys =
  chs :: "nat \<Rightarrow> 'a hchan"
  dones :: "nat set"
  gst :: "nat \<Rightarrow> 'a gstat"
  wakes :: "nat \<Rightarrow> 'a wakeup option"
  thrown :: bool

text \<open>\<open>goready\<close> throws when the goroutine is not waiting.\<close>

fun goready :: "'a wakeup list \<Rightarrow> 'a chan_sys \<Rightarrow> 'a chan_sys" where
  "goready [] s = s"
| "goready (w # ws) s = goready ws
     (if gst s (wk_g w) = GIdle \<or> wakes s (wk_g w) \<noteq> None then s\<lparr>thrown := True\<rparr>
      else s\<lparr>wakes := (wakes s)(wk_g w := Some w)\<rparr>)"

datatype 'a sys_op =
    DoSend nat nat 'a bool | DoRecv nat nat bool bool | DoClose nat nat
  | DoSelect nat nat "'a scase list" bool "nat \<Rightarrow> u32" "nat list" "nat list" | Resume nat

definition sys_step :: "'a \<Rightarrow> 'a sys_op \<Rightarrow> 'a chan_sys \<Rightarrow> 'a chan_sys option" where
  "sys_step z op s = (case op of
      DoSend g a v block \<Rightarrow>
        if gst s g \<noteq> GIdle \<or> a = 0 then None
        else (case chansend g v block (Some (chs s a)) (dones s) of (r, ch, dn, ws) \<Rightarrow>
          Some (goready ws (s\<lparr>chs := (chs s)(a := the ch), dones := dn,
            gst := (gst s)(g := if r = SendParked then GSend a else GIdle)\<rparr>)))
    | DoRecv g a ep block \<Rightarrow>
        if gst s g \<noteq> GIdle \<or> a = 0 then None
        else (case chanrecv z g ep block (Some (chs s a)) (dones s) of (r, ch, dn, ws) \<Rightarrow>
          Some (goready ws (s\<lparr>chs := (chs s)(a := the ch), dones := dn,
            gst := (gst s)(g := if r = RecvParked then GRecv a else GIdle)\<rparr>)))
    | DoClose g a \<Rightarrow>
        if gst s g \<noteq> GIdle \<or> a = 0 then None
        else (case closechan z (Some (chs s a)) (dones s) of
            Inl e \<Rightarrow> Some s
          | Inr (c, dn, ws) \<Rightarrow> Some (goready ws (s\<lparr>chs := (chs s)(a := c), dones := dn\<rparr>)))
    | DoSelect g nsends scases block rnd arr arr' \<Rightarrow>
        if gst s g \<noteq> GIdle \<or> length scases > 65536 \<or> length arr \<noteq> length scases \<or> length arr' \<noteq> length scases
        then None
        else (case selectgo z g nsends scases block rnd arr arr' (chs s) (dones s) of (r, h, dn, ws) \<Rightarrow>
          Some (goready ws (s\<lparr>chs := h, dones := dn,
            gst := (gst s)(g := (case r of SelParked lo \<Rightarrow> GSelect nsends scases lo | _ \<Rightarrow> GIdle))\<rparr>)))
    | Resume g \<Rightarrow>
        (case wakes s g of None \<Rightarrow> None
         | Some w \<Rightarrow>
            let s' = s\<lparr>wakes := (wakes s)(g := None), gst := (gst s)(g := GIdle)\<rparr> in
            case gst s g of
              GIdle \<Rightarrow> None
            | GSend a \<Rightarrow> Some (s'\<lparr>thrown := thrown s \<or> chansend_resume w (chs s a) = SendPanic SpuriousWakeup\<rparr>)
            | GRecv a \<Rightarrow> Some s'
            | GSelect nsends scases lo \<Rightarrow>
                (case selectgo_resume g nsends scases lo w (chs s) (dones s) of (r, h, dn) \<Rightarrow>
                   Some (s'\<lparr>chs := h, dones := dn, thrown := thrown s \<or> r = SelThrow\<rparr>))))"

text \<open>Channels start without waiters.\<close>

definition fresh_chans :: "(nat \<Rightarrow> 'a hchan) \<Rightarrow> bool" where
  "fresh_chans h \<longleftrightarrow> (\<forall>a. recvq (h a) = [] \<and> sendq (h a) = [] \<and> qcount (h a) \<le> dataqsiz (h a))"

definition sys_init :: "(nat \<Rightarrow> 'a hchan) \<Rightarrow> 'a chan_sys" where
  "sys_init h = \<lparr>chs = h, dones = {}, gst = \<lambda>_. GIdle, wakes = \<lambda>_. None, thrown = False\<rparr>"

inductive sys_reach :: "'a \<Rightarrow> 'a chan_sys \<Rightarrow> bool" for z where
  init: "fresh_chans h \<Longrightarrow> sys_reach z (sys_init h)"
| step: "sys_reach z s \<Longrightarrow> sys_step z op s = Some s' \<Longrightarrow> sys_reach z s'"

section \<open>The invariant\<close>

text \<open>
  A slot is a place in a queue: the channel, whether it is the senders' queue, whether it belongs to a \<open>select\<close>,
  and the case.
\<close>

type_synonym slot = "nat \<times> bool \<times> bool \<times> nat"

fun slots :: "'a gstat \<Rightarrow> slot set" where
  "slots GIdle = {}"
| "slots (GSend a) = {(a, True, False, 0)}"
| "slots (GRecv a) = {(a, False, False, 0)}"
| "slots (GSelect nsends scases lo) = (\<lambda>i. (sc_c (scases ! i), i < nsends, True, i)) ` set lo"

definition sg_key :: "'e sudog \<Rightarrow> nat \<times> bool \<times> nat" where
  "sg_key sg = (sg_g sg, sg_isSelect sg, sg_case sg)"

definition entries :: "(nat \<Rightarrow> 'a hchan) \<Rightarrow> nat \<Rightarrow> bool \<Rightarrow> (nat \<times> bool \<times> nat) list" where
  "entries h a d = (if d then map sg_key (sendq (h a)) else map sg_key (recvq (h a)))"

text \<open>
  Every entry of a queue belongs to a goroutine that is parked there; once the goroutine is woken, only other
  cases of its select have entries left. A goroutine that is parked and not woken has an entry in every slot.
\<close>

definition parked_inv :: "'a chan_sys \<Rightarrow> bool" where
  "parked_inv s \<longleftrightarrow>
     (\<forall>a d. distinct (entries (chs s) a d))
   \<and> (\<forall>a d g sel i. (g, sel, i) \<in> set (entries (chs s) a d) \<longrightarrow>
        (a, d, sel, i) \<in> slots (gst s g) \<and> (\<forall>w. wakes s g = Some w \<longrightarrow> sel \<and> i \<noteq> wk_case w))
   \<and> (\<forall>g. g \<in> dones s \<longleftrightarrow> wakes s g \<noteq> None \<and> (\<exists>nsends scases lo. gst s g = GSelect nsends scases lo))
   \<and> (\<forall>g a d sel i. wakes s g = None \<longrightarrow> (a, d, sel, i) \<in> slots (gst s g) \<longrightarrow> (g, sel, i) \<in> set (entries (chs s) a d))
   \<and> (\<forall>g w. wakes s g = Some w \<longrightarrow> (\<exists>a d sel. (a, d, sel, wk_case w) \<in> slots (gst s g)))
   \<and> (\<forall>g w a. wakes s g = Some w \<longrightarrow> gst s g = GSend a \<longrightarrow> wk_success w \<or> closed (chs s a))
   \<and> (\<forall>g nsends scases lo. gst s g = GSelect nsends scases lo \<longrightarrow> distinct lo)
   \<and> \<not> thrown s"

text \<open>No two goroutines wait for each other on a channel, and nobody waits without need.\<close>

definition waits_ok :: "nat set \<Rightarrow> 'a hchan \<Rightarrow> bool" where
  "waits_ok dn c \<longleftrightarrow> qcount c \<le> dataqsiz c \<and> (closed c \<longrightarrow> recvq c = [] \<and> sendq c = [])
     \<and> (\<forall>r \<in> set (recvq c). live dn r \<longrightarrow> qcount c = 0)
     \<and> (\<forall>t \<in> set (sendq c). live dn t \<longrightarrow> qcount c = dataqsiz c)
     \<and> (\<forall>r \<in> set (recvq c). \<forall>t \<in> set (sendq c). live dn r \<longrightarrow> live dn t \<longrightarrow> sg_g r = sg_g t)"

definition waits_inv :: "'a chan_sys \<Rightarrow> bool" where
  "waits_inv s \<longleftrightarrow> (\<forall>a. waits_ok (dones s) (chs s a))"

lemma waits_chans_ok: "waits_inv s \<Longrightarrow> chans_ok (dones s) (chs s)"
  by (simp add: waits_inv_def waits_ok_def chans_ok_def)

lemma live_mono: "live dn' sg \<Longrightarrow> dn \<subseteq> dn' \<Longrightarrow> live dn sg"
  by (auto simp: live_def)

lemma waits_ok_mono:
  assumes "waits_ok dn c" "dn \<subseteq> dn'"
  shows "waits_ok dn' c"
proof -
  have "live dn' r \<Longrightarrow> live dn r" "live dn' t \<Longrightarrow> live dn t" for r :: "bool sudog" and t :: "'a sudog"
    using live_mono assms(2) by blast+
  then show ?thesis using assms(1) unfolding waits_ok_def by blast
qed

lemma waits_upd:
  "waits_inv s \<Longrightarrow> dones s \<subseteq> dn \<Longrightarrow> waits_ok dn c \<Longrightarrow> waits_inv (s\<lparr>chs := (chs s)(a := c), dones := dn\<rparr>)"
  unfolding waits_inv_def by (simp add: waits_ok_mono [where dn = "dones s"])

lemma parked_inv_facts:
  assumes "parked_inv s"
  shows entries_distinct: "distinct (entries (chs s) a d)"
    and entry_slot: "(g, sel, i) \<in> set (entries (chs s) a d) \<Longrightarrow> (a, d, sel, i) \<in> slots (gst s g)"
    and entry_woken: "(g, sel, i) \<in> set (entries (chs s) a d) \<Longrightarrow> wakes s g = Some w \<Longrightarrow> sel \<and> i \<noteq> wk_case w"
    and done_iff: "g \<in> dones s \<longleftrightarrow> wakes s g \<noteq> None \<and> (\<exists>nsends scases lo. gst s g = GSelect nsends scases lo)"
    and slot_entry: "wakes s g = None \<Longrightarrow> (a, d, sel, i) \<in> slots (gst s g) \<Longrightarrow> (g, sel, i) \<in> set (entries (chs s) a d)"
    and woken_slot: "wakes s g = Some w \<Longrightarrow> \<exists>a d sel. (a, d, sel, wk_case w) \<in> slots (gst s g)"
    and woken_closed: "wakes s g = Some w \<Longrightarrow> gst s g = GSend a \<Longrightarrow> wk_success w \<or> closed (chs s a)"
    and lo_distinct: "gst s g = GSelect nsends scases lo \<Longrightarrow> distinct lo"
    and not_thrown: "\<not> thrown s"
  using assms unfolding parked_inv_def by (elim conjE; (assumption | erule allE | metis))+

lemma keys_distinct:
  assumes "parked_inv s"
  shows "distinct (map sg_key (sendq (chs s a)))" "distinct (map sg_key (recvq (chs s a)))"
  using entries_distinct [OF assms, of a True] entries_distinct [OF assms, of a False] by (simp_all add: entries_def)

lemma slot_sel: "(a, d, sel, i) \<in> slots p \<Longrightarrow> sel \<longleftrightarrow> (\<exists>nsends scases lo. p = GSelect nsends scases lo)"
  by (cases p) auto

lemma slot_place: "(a, d, sel, i) \<in> slots p \<Longrightarrow> (a', d', sel', i) \<in> slots p \<Longrightarrow> a' = a \<and> d' = d \<and> sel' = sel"
  by (cases p) auto

text \<open>An entry is live exactly when its goroutine was not woken.\<close>

definition live_key :: "nat set \<Rightarrow> nat \<times> bool \<times> nat \<Rightarrow> bool" where
  "live_key dn k \<longleftrightarrow> \<not> (fst (snd k) \<and> fst k \<in> dn)"

lemma live_key: "live_key dn (sg_key sg) = live dn sg"
  by (simp add: live_key_def live_def sg_key_def)

lemma live_iff:
  assumes "parked_inv s" "(g, sel, i) \<in> set (entries (chs s) a d)"
  shows "live_key (dones s) (g, sel, i) \<longleftrightarrow> wakes s g = None"
  using done_iff [OF assms(1), of g] entry_woken [OF assms] slot_sel [OF entry_slot [OF assms]]
  by (cases "wakes s g") (auto simp: live_key_def)

lemma idle_free:
  assumes "parked_inv s" "gst s g = GIdle"
  shows "wakes s g = None" "(g, sel, i) \<notin> set (entries (chs s) a d)" "g \<notin> dones s"
proof -
  show "wakes s g = None" using woken_slot [OF assms(1), of g] assms(2) by (cases "wakes s g") auto
  then show "g \<notin> dones s" using done_iff [OF assms(1)] by blast
  show "(g, sel, i) \<notin> set (entries (chs s) a d)" using entry_slot [OF assms(1)] assms(2) by fastforce
qed


section \<open>What an operation does to the queues\<close>

text \<open>Dropping stale entries.\<close>

lemma parked_drop:
  assumes inv: "parked_inv s"
    and d: "\<And>a d. distinct (entries h a d)" "\<And>a d. set (entries h a d) \<subseteq> set (entries (chs s) a d)"
    and stale: "\<And>a d k. k \<in> set (entries (chs s) a d) \<Longrightarrow> k \<notin> set (entries h a d) \<Longrightarrow> \<not> live_key (dones s) k"
    and cl: "\<And>a. closed (chs s a) \<Longrightarrow> closed (h a)"
  shows "parked_inv (s\<lparr>chs := h\<rparr>)"
proof -
  have "(g, sel, i) \<in> set (entries h a d)" if "wakes s g = None" "(a, d, sel, i) \<in> slots (gst s g)" for g a d sel i
    using slot_entry [OF inv that] live_iff [OF inv] stale that(1) by blast
  moreover have "sel \<and> i \<noteq> wk_case w" if "(g, sel, i) \<in> set (entries h a d)" "wakes s g = Some w" for g sel i a d w
    using entry_woken [OF inv] d(2) that by blast
  ultimately show ?thesis
    using d cl entry_slot [OF inv] done_iff [OF inv] woken_slot [OF inv] woken_closed [OF inv]
      lo_distinct [OF inv] not_thrown [OF inv]
    unfolding parked_inv_def by (simp add: subset_iff) meson
qed

text \<open>Taking the first live entry and waking its goroutine.\<close>

lemma parked_take:
  assumes inv: "parked_inv s"
    and q: "entries (chs s) a d = st @ (g, sel, i) # q" and lk: "live_key (dones s) (g, sel, i)"
    and st: "\<forall>k \<in> set st. \<not> live_key (dones s) k"
    and h: "entries h a d = q" "\<And>a' d'. (a', d') \<noteq> (a, d) \<Longrightarrow> entries h a' d' = entries (chs s) a' d'"
    and cl: "\<And>a. closed (chs s a) \<Longrightarrow> closed (h a)"
    and w: "wk_case w = i" "wk_success w \<or> closed (h a)"
  shows "parked_inv (s\<lparr>chs := h, dones := if sel then insert g (dones s) else dones s, wakes := (wakes s)(g := Some w)\<rparr>)"
    (is "parked_inv ?s")
proof -
  have k: "(g, sel, i) \<in> set (entries (chs s) a d)" by (simp add: q)
  have none: "wakes s g = None" using live_iff [OF inv k] lk by blast
  have slot: "(a, d, sel, i) \<in> slots (gst s g)" using entry_slot [OF inv k] .
  have dist: "(g, sel, i) \<notin> set q" "distinct q" using entries_distinct [OF inv, of a d] q by simp_all
  have sub: "set (entries h a' d') \<subseteq> set (entries (chs s) a' d')" for a' d'
    using h q by (cases "(a', d') = (a, d)") auto
  have dd: "distinct (entries h a' d')" for a' d'
    using h dist entries_distinct [OF inv] by (cases "(a', d') = (a, d)") auto
  have other: "sel \<and> j \<noteq> i" if e: "(g, sel', j) \<in> set (entries h a' d')" for sel' j a' d'
  proof -
    have s': "(a', d', sel', j) \<in> slots (gst s g)" using entry_slot [OF inv] e sub by blast
    have "j \<noteq> i"
    proof
      assume "j = i"
      then have "a' = a \<and> d' = d \<and> sel' = sel" using slot_place [OF slot] s' by simp
      then show False using e h(1) dist(1) \<open>j = i\<close> by simp
    qed
    moreover have "sel \<or> j = i" using slot s' by (cases "gst s g") auto
    ultimately show ?thesis by blast
  qed
  have sel': "sel' = sel" if "(g, sel', j) \<in> set (entries h a' d')" for sel' j a' d'
    using slot_sel [OF slot] slot_sel [OF entry_slot [OF inv]] sub that by blast
  have keep: "(g', sel', j) \<in> set (entries h a' d')"
    if e: "(g', sel', j) \<in> set (entries (chs s) a' d')" "g' \<noteq> g" "wakes s g' = None" for g' sel' j a' d'
  proof (cases "(a', d') = (a, d)")
    case True
    moreover have "(g', sel', j) \<notin> set st" using st live_iff [OF inv e(1)] e(3) by blast
    ultimately show ?thesis using e h q by auto
  qed (use e h in auto)
  show ?thesis
    unfolding parked_inv_def
  proof (intro conjI allI impI)
    show "distinct (entries (chs ?s) a' d')" for a' d' using dd by simp
  next
    fix a' d' g' sel' j assume e: "(g', sel', j) \<in> set (entries (chs ?s) a' d')"
    then have e': "(g', sel', j) \<in> set (entries (chs s) a' d')" using sub by auto
    show "(a', d', sel', j) \<in> slots (gst ?s g')" using entry_slot [OF inv e'] by simp
    fix w' assume "wakes ?s g' = Some w'"
    then show "sel'" "j \<noteq> wk_case w'"
      using entry_woken [OF inv e'] other [of sel' j a' d'] sel' [of sel' j a' d'] e w(1)
      by (auto split: if_splits)
  next
    fix g' show "g' \<in> dones ?s \<longleftrightarrow> wakes ?s g' \<noteq> None \<and> (\<exists>nsends scases lo. gst ?s g' = GSelect nsends scases lo)"
      using done_iff [OF inv, of g'] slot_sel [OF slot] none by auto
  next
    fix g' a' d' sel' j assume "wakes ?s g' = None" "(a', d', sel', j) \<in> slots (gst ?s g')"
    then show "(g', sel', j) \<in> set (entries (chs ?s) a' d')"
      using slot_entry [OF inv] keep by (auto split: if_splits)
  next
    fix g' w' assume "wakes ?s g' = Some w'"
    then show "\<exists>a d sel. (a, d, sel, wk_case w') \<in> slots (gst ?s g')"
      using woken_slot [OF inv] slot w(1) by (auto split: if_splits)
  next
    fix g' w' a' assume g': "wakes ?s g' = Some w'" "gst ?s g' = GSend a'"
    show "wk_success w' \<or> closed (chs ?s a')"
    proof (cases "g' = g")
      case True
      then have "a' = a" using slot g'(2) by simp
      then show ?thesis using True g'(1) w(2) by auto
    next
      case False
      then show ?thesis using woken_closed [OF inv] g' cl by auto
    qed
  qed (use lo_distinct [OF inv] not_thrown [OF inv] in auto)
qed

text \<open>Parking.\<close>

lemma parked_park:
  assumes inv: "parked_inv s" and idle: "gst s g = GIdle"
    and h: "\<And>a d. entries h a d = entries (chs s) a d @ new a d"
    and new: "\<And>a d. distinct (new a d)" "\<And>a d k. k \<in> set (new a d) \<longleftrightarrow> (\<exists>sel i. k = (g, sel, i) \<and> (a, d, sel, i) \<in> slots p)"
    and lo: "\<And>nsends scases lo. p = GSelect nsends scases lo \<Longrightarrow> distinct lo"
    and cl: "\<And>a. closed (chs s a) \<Longrightarrow> closed (h a)"
  shows "parked_inv (s\<lparr>chs := h, gst := (gst s)(g := p)\<rparr>)" (is "parked_inv ?s")
proof -
  note idle_free [OF inv idle]
  show ?thesis
    unfolding parked_inv_def
  proof (intro conjI allI impI)
    fix a d
    have "set (entries (chs s) a d) \<inter> set (new a d) = {}" using idle_free(2) [OF inv idle] new(2) by auto
    then show "distinct (entries (chs ?s) a d)" using entries_distinct [OF inv] new(1) h by simp
  next
    fix a d g' sel i assume "(g', sel, i) \<in> set (entries (chs ?s) a d)"
    then have e: "(g', sel, i) \<in> set (entries (chs s) a d) \<and> g' \<noteq> g \<or> g' = g \<and> (a, d, sel, i) \<in> slots p"
      using h new(2) idle_free(2) [OF inv idle] by auto
    then show "(a, d, sel, i) \<in> slots (gst ?s g')" using entry_slot [OF inv] by auto
    fix w assume "wakes ?s g' = Some w"
    then show sel "i \<noteq> wk_case w"
      using e entry_woken [OF inv, of g' sel i a d w] idle_free(1) [OF inv idle] by auto
  next
    fix g' show "g' \<in> dones ?s \<longleftrightarrow> wakes ?s g' \<noteq> None \<and> (\<exists>nsends scases lo. gst ?s g' = GSelect nsends scases lo)"
      using done_iff [OF inv, of g'] idle_free [OF inv idle] by auto
  next
    fix g' a d sel i assume "wakes ?s g' = None" "(a, d, sel, i) \<in> slots (gst ?s g')"
    then show "(g', sel, i) \<in> set (entries (chs ?s) a d)"
      using slot_entry [OF inv] h new(2) by (cases "g' = g") auto
  next
    fix g' w assume "wakes ?s g' = Some w"
    then show "\<exists>a d sel. (a, d, sel, wk_case w) \<in> slots (gst ?s g')"
      using woken_slot [OF inv] idle_free(1) [OF inv idle] by (cases "g' = g") auto
  next
    fix g' w a assume "wakes ?s g' = Some w" "gst ?s g' = GSend a"
    then show "wk_success w \<or> closed (chs ?s a)"
      using woken_closed [OF inv] idle_free(1) [OF inv idle] cl by (cases "g' = g") auto
  next
    fix g' nsends scases l assume "gst ?s g' = GSelect nsends scases l"
    then show "distinct l" using lo_distinct [OF inv] lo by (cases "g' = g") auto
  qed (use not_thrown [OF inv] in simp)
qed

text \<open>Going on after a wake-up.\<close>

lemma parked_resume:
  assumes inv: "parked_inv s" and w: "wakes s g = Some w"
    and h: "\<And>a d. entries h a d = filter (\<lambda>k. fst k \<noteq> g) (entries (chs s) a d)"
    and cl: "\<And>a. closed (h a) = closed (chs s a)"
  shows "parked_inv (s\<lparr>chs := h, dones := dones s - {g}, wakes := (wakes s)(g := None), gst := (gst s)(g := GIdle)\<rparr>)"
  using entries_distinct [OF inv] entry_slot [OF inv] done_iff [OF inv] slot_entry [OF inv]
    woken_slot [OF inv] woken_closed [OF inv] lo_distinct [OF inv] not_thrown [OF inv]
  unfolding parked_inv_def by (auto simp: h cl split: if_splits dest: entry_woken [OF inv])


section \<open>Every step keeps the invariant\<close>

lemma dequeue_cases:
  assumes "waitq_dequeue dn q = (r, q', dn')"
  obtains (none) "r = None" "q' = []" "dn' = dn" "\<forall>sg \<in> set q. \<not> live dn sg"
  | (some) stale sg where "r = Some sg" "q = stale @ sg # q'" "\<forall>x \<in> set stale. \<not> live dn x" "live dn sg"
      "dn' = (if sg_isSelect sg then insert (sg_g sg) dn else dn)"
proof (cases "\<exists>sg \<in> set q. live dn sg")
  case True
  then show ?thesis using dequeue_some [OF True] assms some by auto
next
  case False
  then show ?thesis using dequeue_none [of q dn] assms none by auto
qed

lemma entries_upd [simp]:
  "entries (h(a := c)) a' d = (if a' = a then (if d then map sg_key (sendq c) else map sg_key (recvq c)) else entries h a' d)"
  by (simp add: entries_def)

lemma upd_twice: "s\<lparr>chs := h, dones := dn, chs := h', dones := dn'\<rparr> = s\<lparr>chs := h', dones := dn'\<rparr>"
  by (cases s) simp

text \<open>\<open>goready\<close> on goroutines that are parked.\<close>

lemma goready_frame [simp]:
  "chs (goready ws s) = chs s" "dones (goready ws s) = dones s" "gst (goready ws s) = gst s"
  by (induction ws s rule: goready.induct) auto

lemma goready_append: "goready (ws @ ws') s = goready ws' (goready ws s)"
  by (induction ws s rule: goready.induct) auto

lemma goready_upd: "goready ws (s\<lparr>chs := h, dones := dn\<rparr>) = (goready ws s)\<lparr>chs := h, dones := dn\<rparr>"
proof (induction ws s rule: goready.induct)
  case (2 w ws s)
  then show ?case by (cases s; cases "gst s (wk_g w) = GIdle \<or> wakes s (wk_g w) \<noteq> None") auto
qed simp

lemma goready_thrown: "thrown s \<Longrightarrow> thrown (goready ws s)"
  by (induction ws s rule: goready.induct) auto

lemma goready_wakes:
  assumes "\<not> thrown (goready ws s)"
  shows "distinct (map wk_g ws)" "\<forall>w \<in> set ws. gst s (wk_g w) \<noteq> GIdle \<and> wakes s (wk_g w) = None"
    "goready ws s = s\<lparr>wakes := wakes s ++ map_of (map (\<lambda>w. (wk_g w, w)) ws)\<rparr>"
proof -
  have "distinct (map wk_g ws) \<and> (\<forall>w \<in> set ws. gst s (wk_g w) \<noteq> GIdle \<and> wakes s (wk_g w) = None)
      \<and> goready ws s = s\<lparr>wakes := wakes s ++ map_of (map (\<lambda>w. (wk_g w, w)) ws)\<rparr>"
    using assms
  proof (induction ws s rule: goready.induct)
    case (1 s)
    then show ?case by simp
  next
    case (2 w ws s)
    have ok: "gst s (wk_g w) \<noteq> GIdle" "wakes s (wk_g w) = None"
      using 2(2) goready_thrown [of "s\<lparr>thrown := True\<rparr>" ws] by (auto split: if_splits)
    let ?s = "s\<lparr>wakes := (wakes s)(wk_g w := Some w)\<rparr>"
    have go: "\<not> (gst s (wk_g w) = GIdle \<or> wakes s (wk_g w) \<noteq> None)" using ok by simp
    have r: "goready (w # ws) s = goready ws ?s" using ok by simp
    then have "\<not> thrown (goready ws ?s)" using 2(2) by simp
    note IHs = 2(1) [unfolded if_not_P [OF go], OF this]
    have IH: "distinct (map wk_g ws)" "\<forall>w \<in> set ws. gst ?s (wk_g w) \<noteq> GIdle \<and> wakes ?s (wk_g w) = None"
        "goready ws ?s = ?s\<lparr>wakes := wakes ?s ++ map_of (map (\<lambda>w. (wk_g w, w)) ws)\<rparr>"
      using IHs by blast+
    have "wk_g w \<notin> wk_g ` set ws" using IH(2) by (auto split: if_splits)
    then have upd: "wakes ?s ++ map_of (map (\<lambda>w. (wk_g w, w)) ws)
        = wakes s ++ map_of (map (\<lambda>w. (wk_g w, w)) (w # ws))"
    proof -
      have "map_of (map (\<lambda>w. (wk_g w, w)) ws) (wk_g w) = None"
        using \<open>wk_g w \<notin> wk_g ` set ws\<close> by (simp add: map_of_eq_None_iff image_image)
      then show ?thesis by (auto simp: fun_eq_iff map_add_def split: option.splits)
    qed
    then have "goready (w # ws) s = s\<lparr>wakes := wakes s ++ map_of (map (\<lambda>w. (wk_g w, w)) (w # ws))\<rparr>"
      unfolding r IH(3) upd by simp
    moreover have "distinct (map wk_g (w # ws))" using IH(1) \<open>wk_g w \<notin> wk_g ` set ws\<close> by simp
    moreover have "\<forall>w \<in> set (w # ws). gst s (wk_g w) \<noteq> GIdle \<and> wakes s (wk_g w) = None"
      using IH(2) ok by (auto split: if_splits)
    ultimately show ?case by blast
  qed
  then show "distinct (map wk_g ws)" "\<forall>w \<in> set ws. gst s (wk_g w) \<noteq> GIdle \<and> wakes s (wk_g w) = None"
    "goready ws s = s\<lparr>wakes := wakes s ++ map_of (map (\<lambda>w. (wk_g w, w)) ws)\<rparr>" by blast+
qed

lemma map_of_same_set:
  assumes "distinct (map fst xs)" "distinct (map fst ys)" "set xs = set ys"
  shows "map_of xs = map_of ys"
proof
  fix k
  show "map_of xs k = map_of ys k"
    using map_of_eq_Some_iff [OF assms(1), of k] map_of_eq_Some_iff [OF assms(2), of k] assms(3)
    by (cases "map_of xs k"; cases "map_of ys k") auto
qed

lemma goready_rev:
  assumes "\<not> thrown (goready ws s)"
  shows "goready (rev ws) s = goready ws s"
proof -
  note g = goready_wakes [OF assms]
  have ok: "distinct (map wk_g us) \<Longrightarrow> \<forall>w \<in> set us. gst s (wk_g w) \<noteq> GIdle \<and> wakes s (wk_g w) = None
      \<Longrightarrow> \<not> thrown s \<Longrightarrow> \<not> thrown (goready us s)" for us s
  proof (induction us s rule: goready.induct)
    case (2 w ws s)
    have "\<forall>v \<in> set ws. wk_g v \<noteq> wk_g w" using 2(2) by (auto simp: image_iff)
    then show ?case using 2 by simp
  qed simp
  have "\<not> thrown s" using assms goready_thrown by blast
  then have "\<not> thrown (goready (rev ws) s)" using ok [of "rev ws" s] g(1,2) by (simp add: rev_map [symmetric])
  then have "goready (rev ws) s = s\<lparr>wakes := wakes s ++ map_of (map (\<lambda>w. (wk_g w, w)) (rev ws))\<rparr>"
    by (rule goready_wakes)
  moreover have "map_of (rev (map (\<lambda>w. (wk_g w, w)) ws)) = map_of (map (\<lambda>w. (wk_g w, w)) ws)"
    by (rule map_of_same_set) (use g(1) in \<open>simp_all add: comp_def rev_map [symmetric]\<close>)
  ultimately show ?thesis using g(3) by (simp add: rev_map)
qed

text \<open>Waking one goroutine, which a receive takes off the senders' queue or a send off the receivers'.\<close>

lemma wake_sender:
  assumes inv: "parked_inv s" and q: "sendq (chs s a) = stale @ sg # q'"
    and l: "\<forall>x \<in> set stale. \<not> live (dones s) x" "live (dones s) sg"
    and c: "sendq c = q'" "recvq c = recvq (chs s a)" "closed (chs s a) \<Longrightarrow> closed c"
    and w: "wk_g w = sg_g sg" "wk_case w = sg_case sg" "wk_success w \<or> closed c"
  shows "parked_inv (goready [w] (s\<lparr>chs := (chs s)(a := c),
      dones := if sg_isSelect sg then insert (sg_g sg) (dones s) else dones s\<rparr>))"
    and "gst s (sg_g sg) \<noteq> GIdle" "wakes s (sg_g sg) = None"
proof -
  have e: "entries (chs s) a True = map sg_key stale @ (sg_g sg, sg_isSelect sg, sg_case sg) # map sg_key q'"
    using q by (simp add: entries_def sg_key_def)
  then have k: "(sg_g sg, sg_isSelect sg, sg_case sg) \<in> set (entries (chs s) a True)" by simp
  have lk: "live_key (dones s) (sg_g sg, sg_isSelect sg, sg_case sg)" using l(2) live_key [of _ sg] by (simp add: sg_key_def)
  show ni: "gst s (sg_g sg) \<noteq> GIdle" using idle_free(2) [OF inv] k by blast
  show wn: "wakes s (sg_g sg) = None" using live_iff [OF inv k] lk by blast
  have "parked_inv (s\<lparr>chs := (chs s)(a := c), dones := if sg_isSelect sg then insert (sg_g sg) (dones s) else dones s,
      wakes := (wakes s)(sg_g sg := Some w)\<rparr>)"
    by (rule parked_take [OF inv e lk]) (use l(1) c w in \<open>auto simp: live_key entries_def\<close>)
  then show "parked_inv (goready [w] (s\<lparr>chs := (chs s)(a := c),
      dones := if sg_isSelect sg then insert (sg_g sg) (dones s) else dones s\<rparr>))"
    using ni wn w(1) by simp
qed

lemma wake_receiver:
  assumes inv: "parked_inv s" and q: "recvq (chs s a) = stale @ sg # q'"
    and l: "\<forall>x \<in> set stale. \<not> live (dones s) x" "live (dones s) sg"
    and c: "recvq c = q'" "sendq c = sendq (chs s a)" "closed (chs s a) \<Longrightarrow> closed c"
    and w: "wk_g w = sg_g sg" "wk_case w = sg_case sg" "wk_success w \<or> closed c"
  shows "parked_inv (goready [w] (s\<lparr>chs := (chs s)(a := c),
      dones := if sg_isSelect sg then insert (sg_g sg) (dones s) else dones s\<rparr>))"
    and "gst s (sg_g sg) \<noteq> GIdle" "wakes s (sg_g sg) = None"
proof -
  have e: "entries (chs s) a False = map sg_key stale @ (sg_g sg, sg_isSelect sg, sg_case sg) # map sg_key q'"
    using q by (simp add: entries_def sg_key_def)
  then have k: "(sg_g sg, sg_isSelect sg, sg_case sg) \<in> set (entries (chs s) a False)" by simp
  have lk: "live_key (dones s) (sg_g sg, sg_isSelect sg, sg_case sg)" using l(2) live_key [of _ sg] by (simp add: sg_key_def)
  show ni: "gst s (sg_g sg) \<noteq> GIdle" using idle_free(2) [OF inv] k by blast
  show wn: "wakes s (sg_g sg) = None" using live_iff [OF inv k] lk by blast
  have "parked_inv (s\<lparr>chs := (chs s)(a := c), dones := if sg_isSelect sg then insert (sg_g sg) (dones s) else dones s,
      wakes := (wakes s)(sg_g sg := Some w)\<rparr>)"
    by (rule parked_take [OF inv e lk]) (use l(1) c w in \<open>auto simp: live_key entries_def\<close>)
  then show "parked_inv (goready [w] (s\<lparr>chs := (chs s)(a := c),
      dones := if sg_isSelect sg then insert (sg_g sg) (dones s) else dones s\<rparr>))"
    using ni wn w(1) by simp
qed


abbreviation sys_inv :: "'a chan_sys \<Rightarrow> bool" where
  "sys_inv s \<equiv> parked_inv s \<and> waits_inv s"

text \<open>A channel may change in its buffer, and lose stale entries.\<close>

lemma drop_inv:
  assumes inv: "sys_inv s" and c: "waits_ok (dones s) c" "closed (chs s a) \<Longrightarrow> closed c"
    and r: "recvq c = recvq (chs s a) \<or> recvq c = [] \<and> (\<forall>sg \<in> set (recvq (chs s a)). \<not> live (dones s) sg)"
    and t: "sendq c = sendq (chs s a) \<or> sendq c = [] \<and> (\<forall>sg \<in> set (sendq (chs s a)). \<not> live (dones s) sg)"
  shows "sys_inv (s\<lparr>chs := (chs s)(a := c)\<rparr>)"
proof
  have p: "parked_inv s" and w: "waits_inv s" using inv by auto
  show "parked_inv (s\<lparr>chs := (chs s)(a := c)\<rparr>)"
  proof (rule parked_drop [OF p])
    show "distinct (entries ((chs s)(a := c)) a' d)" for a' d
      using entries_distinct [OF p, of a' d] r t by (auto simp: entries_def split: if_splits)
    show "set (entries ((chs s)(a := c)) a' d) \<subseteq> set (entries (chs s) a' d)" for a' d
      using r t by (auto simp: entries_def split: if_splits)
    show "\<not> live_key (dones s) k"
      if "k \<in> set (entries (chs s) a' d)" "k \<notin> set (entries ((chs s)(a := c)) a' d)" for a' d k
      using that r t by (auto simp: entries_def live_key split: if_splits)
    show "closed (chs s a') \<Longrightarrow> closed (((chs s)(a := c)) a')" for a' using c(2) by (cases "a' = a") auto
  qed
  show "waits_inv (s\<lparr>chs := (chs s)(a := c)\<rparr>)"
    using waits_upd [OF w order.refl c(1), of a] by simp
qed

lemma park_sender:
  assumes inv: "sys_inv s" and idle: "gst s g = GIdle"
    and c: "\<not> closed (chs s a)" "recvq (chs s a) = []" "qcount (chs s a) = dataqsiz (chs s a)"
  shows "sys_inv (s\<lparr>chs := (chs s)(a := (chs s a)\<lparr>sendq := sendq (chs s a) @ [\<lparr>sg_g = g, sg_elem = v, sg_isSelect = False, sg_case = 0\<rparr>]\<rparr>),
    gst := (gst s)(g := GSend a)\<rparr>)"
proof
  show "parked_inv (s\<lparr>chs := (chs s)(a := (chs s a)\<lparr>sendq := sendq (chs s a) @ [\<lparr>sg_g = g, sg_elem = v, sg_isSelect = False, sg_case = 0\<rparr>]\<rparr>),
    gst := (gst s)(g := GSend a)\<rparr>)"
    by (rule parked_park [where new = "\<lambda>a' d. if a' = a \<and> d then [(g, False, 0)] else []"])
      (use inv idle in \<open>auto simp: entries_def sg_key_def\<close>)
  show "waits_inv (s\<lparr>chs := (chs s)(a := (chs s a)\<lparr>sendq := sendq (chs s a) @ [\<lparr>sg_g = g, sg_elem = v, sg_isSelect = False, sg_case = 0\<rparr>]\<rparr>),
    gst := (gst s)(g := GSend a)\<rparr>)"
    using inv c by (auto simp: waits_inv_def waits_ok_def)
qed

lemma park_receiver:
  assumes inv: "sys_inv s" and idle: "gst s g = GIdle"
    and c: "\<not> closed (chs s a)" "sendq (chs s a) = []" "qcount (chs s a) = 0"
  shows "sys_inv (s\<lparr>chs := (chs s)(a := (chs s a)\<lparr>recvq := recvq (chs s a) @ [\<lparr>sg_g = g, sg_elem = v, sg_isSelect = False, sg_case = 0\<rparr>]\<rparr>),
    gst := (gst s)(g := GRecv a)\<rparr>)"
proof
  show "parked_inv (s\<lparr>chs := (chs s)(a := (chs s a)\<lparr>recvq := recvq (chs s a) @ [\<lparr>sg_g = g, sg_elem = v, sg_isSelect = False, sg_case = 0\<rparr>]\<rparr>),
    gst := (gst s)(g := GRecv a)\<rparr>)"
    by (rule parked_park [where new = "\<lambda>a' d. if a' = a \<and> \<not> d then [(g, False, 0)] else []"])
      (use inv idle in \<open>auto simp: entries_def sg_key_def\<close>)
  show "waits_inv (s\<lparr>chs := (chs s)(a := (chs s a)\<lparr>recvq := recvq (chs s a) @ [\<lparr>sg_g = g, sg_elem = v, sg_isSelect = False, sg_case = 0\<rparr>]\<rparr>),
    gst := (gst s)(g := GRecv a)\<rparr>)"
    using inv c by (auto simp: waits_inv_def waits_ok_def)
qed

lemma waits_goready [simp]: "waits_inv (goready ws s) = waits_inv s"
  by (simp add: waits_inv_def)

lemma gst_same [simp]:
  "s\<lparr>chs := h, dones := dn, gst := gst s\<rparr> = s\<lparr>chs := h, dones := dn\<rparr>"
  "s\<lparr>chs := h, gst := gst s\<rparr> = s\<lparr>chs := h\<rparr>" "s\<lparr>gst := gst s\<rparr> = s" "s\<lparr>chs := h, dones := dones s\<rparr> = s\<lparr>chs := h\<rparr>"
  by (cases s, simp)+

lemma idle_upd: "gst s g = GIdle \<Longrightarrow> (gst s)(g := GIdle) = gst s"
  by (rule fun_upd_idem)

lemma same_chs [simp]: "s\<lparr>chs := (chs s)(a := chs s a), dones := dones s\<rparr> = s"
  by (cases s) simp

lemma waits_ok_sub:
  assumes "waits_ok dn c" "dn \<subseteq> dn'" "\<not> closed c'" "qcount c' = qcount c" "dataqsiz c' = dataqsiz c"
    "set (recvq c') \<subseteq> set (recvq c)" "set (sendq c') \<subseteq> set (sendq c)"
  shows "waits_ok dn' c'"
proof -
  have "waits_ok dn' c" using waits_ok_mono assms(1,2) by blast
  then show ?thesis using assms(3-) unfolding waits_ok_def by auto
qed

lemma send_inv:
  assumes inv: "sys_inv s" and idle: "gst s g = GIdle"
    and op: "chansend g v block (Some (chs s a)) (dones s) = (r, ch, dn, ws)"
  shows "sys_inv (goready ws (s\<lparr>chs := (chs s)(a := the ch), dones := dn,
           gst := (gst s)(g := if r = SendParked then GSend a else GIdle)\<rparr>))"
proof -
  define c where "c = chs s a"
  have p: "parked_inv s" and w: "waits_inv s" and wc: "waits_ok (dones s) c" using inv by (auto simp: waits_inv_def c_def)
  consider (stay) "(\<not> block \<and> \<not> closed c \<and> full c) \<or> closed c" | (queue) "\<not> (\<not> block \<and> \<not> closed c \<and> full c)" "\<not> closed c" by blast
  then show ?thesis
  proof cases
    case stay
    then have "r \<noteq> SendParked" "ch = Some c" "dn = dones s" "ws = []"
      using op by (auto simp: chansend_def c_def [symmetric] split: if_splits)
    then show ?thesis using inv idle_upd [OF idle] by (simp add: c_def)
  next
    case queue
    obtain x q dn' where dq: "waitq_dequeue (dones s) (recvq c) = (x, q, dn')" by (metis prod_cases3)
    then show ?thesis
    proof (cases rule: dequeue_cases)
      case (some stale sg)
      let ?c = "c\<lparr>recvq := q\<rparr>"
      have o': "r = SendDone True" "ch = Some ?c" "dn = dn'" "ws = [send sg v]"
        using op queue dq some(1) by (auto simp: chansend_def c_def [symmetric])
      have "parked_inv (goready [send sg v] (s\<lparr>chs := (chs s)(a := ?c),
          dones := if sg_isSelect sg then insert (sg_g sg) (dones s) else dones s\<rparr>))"
        by (rule wake_receiver(1) [OF p, of a stale sg q]) (use some queue in \<open>auto simp: c_def send_def\<close>)
      moreover have "waits_inv (s\<lparr>chs := (chs s)(a := ?c), dones := dn'\<rparr>)"
      proof (rule waits_upd [OF w])
        show sub: "dones s \<subseteq> dn'" using some(5) by auto
        show "waits_ok dn' ?c" by (rule waits_ok_sub [OF wc sub]) (use some(2) queue in auto)
      qed
      ultimately show ?thesis using o' some(5) idle_upd [OF idle] by (simp del: goready.simps)
    next
      case none
      let ?c = "c\<lparr>recvq := []\<rparr>"
      have wc': "waits_ok (dones s) ?c" using wc by (auto simp: waits_ok_def)
      have drop: "sys_inv (s\<lparr>chs := (chs s)(a := ?c)\<rparr>)"
        by (rule drop_inv [OF inv wc']) (use none queue in \<open>auto simp: c_def\<close>)
      consider (room) "qcount c < dataqsiz c" | (nonblock) "qcount c = dataqsiz c" "\<not> block" | (park) "qcount c = dataqsiz c" block
      proof -
        have "qcount c \<le> dataqsiz c" using wc by (simp add: waits_ok_def)
        then show ?thesis using room nonblock park by linarith
      qed
      then show ?thesis
      proof cases
        case room
        let ?b = "c\<lparr>recvq := [], buf := (buf c)[sendx c := v], sendx := wrap_inc (dataqsiz c) (sendx c), qcount := qcount c + 1\<rparr>"
        have o': "r = SendDone True" "ch = Some ?b" "dn = dones s" "ws = []"
          using op queue dq none room by (auto simp: chansend_def c_def [symmetric])
        have "sys_inv (s\<lparr>chs := (chs s)(a := ?b)\<rparr>)"
          by (rule drop_inv [OF inv]) (use none queue room wc in \<open>auto simp: c_def waits_ok_def\<close>)
        then show ?thesis using o' idle_upd [OF idle] by simp
      next
        case nonblock
        then have "r = SendDone False" "ch = Some ?c" "dn = dones s" "ws = []"
          using op queue dq none by (auto simp: chansend_def c_def [symmetric])
        then show ?thesis using drop idle_upd [OF idle] by simp
      next
        case park
        have o': "r = SendParked" "dn = dones s" "ws = []"
            "ch = Some (?c\<lparr>sendq := sendq c @ [\<lparr>sg_g = g, sg_elem = v, sg_isSelect = False, sg_case = 0\<rparr>]\<rparr>)"
          using op queue dq none park by (auto simp: chansend_def waitq_enqueue_def c_def [symmetric])
        show ?thesis
          using park_sender [OF drop, of g a v] idle park queue by (simp add: o')
      qed
    qed
  qed
qed

lemma recv_chan [simp]:
  "recvq (fst (recv c sg)) = recvq c" "sendq (fst (recv c sg)) = sendq c" "closed (fst (recv c sg)) = closed c"
  "qcount (fst (recv c sg)) = qcount c" "dataqsiz (fst (recv c sg)) = dataqsiz c"
  "wk_g (snd (snd (recv c sg))) = sg_g sg" "wk_case (snd (snd (recv c sg))) = sg_case sg" "wk_success (snd (snd (recv c sg)))"
  by (auto simp: recv_def Let_def)

lemma recv_inv:
  assumes inv: "sys_inv s" and idle: "gst s g = GIdle"
    and op: "chanrecv z g ep block (Some (chs s a)) (dones s) = (r, ch, dn, ws)"
  shows "sys_inv (goready ws (s\<lparr>chs := (chs s)(a := the ch), dones := dn,
           gst := (gst s)(g := if r = RecvParked then GRecv a else GIdle)\<rparr>))"
proof -
  define c where "c = chs s a"
  have p: "parked_inv s" and w: "waits_inv s" and wc: "waits_ok (dones s) c" using inv by (auto simp: waits_inv_def c_def)
  consider (stay) "(\<not> block \<and> empty c) \<or> (closed c \<and> qcount c = 0)"
    | (queue) "\<not> (\<not> block \<and> empty c)" "\<not> (closed c \<and> qcount c = 0)" by blast
  then show ?thesis
  proof cases
    case stay
    then have "r \<noteq> RecvParked" "ch = Some c" "dn = dones s" "ws = []"
      using op by (auto simp: chanrecv_def Let_def c_def [symmetric] split: if_splits)
    then show ?thesis using inv idle_upd [OF idle] by (simp add: c_def)
  next
    case queue
    obtain x q dn' where dq: "waitq_dequeue (dones s) (sendq c) = (x, q, dn')" by (metis prod_cases3)
    then show ?thesis
    proof (cases rule: dequeue_cases)
      case (some stale sg)
      have opn: "\<not> closed c" using wc some(2) by (auto simp: waits_ok_def)
      obtain c' v' w' where rc: "recv (c\<lparr>sendq := q\<rparr>) sg = (c', v', w')" by (metis prod_cases3)
      have c': "recvq c' = recvq c" "sendq c' = q" "closed c' = closed c" "qcount c' = qcount c" "dataqsiz c' = dataqsiz c"
          "wk_g w' = sg_g sg" "wk_case w' = sg_case sg" "wk_success w'"
        using recv_chan [of "c\<lparr>sendq := q\<rparr>" sg] by (simp_all add: rc)
      have o': "r \<noteq> RecvParked" "ch = Some c'" "dn = dn'" "ws = [w']"
        using op queue dq some(1) rc by (auto simp: chanrecv_def Let_def c_def [symmetric] split: if_splits)
      have "parked_inv (goready [w'] (s\<lparr>chs := (chs s)(a := c'),
          dones := if sg_isSelect sg then insert (sg_g sg) (dones s) else dones s\<rparr>))"
        by (rule wake_sender(1) [OF p, of a stale sg q]) (use some c' in \<open>auto simp: c_def\<close>)
      moreover have "waits_inv (s\<lparr>chs := (chs s)(a := c'), dones := dn'\<rparr>)"
      proof (rule waits_upd [OF w])
        show sub: "dones s \<subseteq> dn'" using some(5) by auto
        show "waits_ok dn' c'" by (rule waits_ok_sub [OF wc sub]) (use some(2) opn c' in auto)
      qed
      ultimately show ?thesis using o' some(5) idle_upd [OF idle] by (simp del: goready.simps)
    next
      case none
      let ?c = "c\<lparr>sendq := []\<rparr>"
      have wc': "waits_ok (dones s) ?c" using wc by (auto simp: waits_ok_def)
      have drop: "sys_inv (s\<lparr>chs := (chs s)(a := ?c)\<rparr>)"
        by (rule drop_inv [OF inv wc']) (use none queue in \<open>auto simp: c_def\<close>)
      consider (buffer) "0 < qcount c" | (nonblock) "qcount c = 0" "\<not> block" | (park) "qcount c = 0" block by auto
      then show ?thesis
      proof cases
        case buffer
        let ?b = "c\<lparr>sendq := [], buf := (buf c)[recvx c := z], recvx := wrap_inc (dataqsiz c) (recvx c), qcount := qcount c - 1\<rparr>"
        have o': "r \<noteq> RecvParked" "ch = Some ?b" "dn = dones s" "ws = []"
          using op queue dq none buffer by (auto simp: chanrecv_def Let_def c_def [symmetric] split: if_splits)
        have "sys_inv (s\<lparr>chs := (chs s)(a := ?b)\<rparr>)"
          by (rule drop_inv [OF inv]) (use none queue buffer wc in \<open>auto simp: c_def waits_ok_def\<close>)
        then show ?thesis using o' idle_upd [OF idle] by simp
      next
        case nonblock
        then have "r \<noteq> RecvParked" "ch = Some ?c" "dn = dones s" "ws = []"
          using op queue dq none by (auto simp: chanrecv_def Let_def c_def [symmetric] split: if_splits)
        then show ?thesis using drop idle_upd [OF idle] by simp
      next
        case park
        have o': "r = RecvParked" "dn = dones s" "ws = []"
            "ch = Some (?c\<lparr>recvq := recvq c @ [\<lparr>sg_g = g, sg_elem = ep, sg_isSelect = False, sg_case = 0\<rparr>]\<rparr>)"
          using op queue dq none park by (auto simp: chanrecv_def Let_def waitq_enqueue_def c_def [symmetric] split: if_splits)
        show ?thesis
          using park_receiver [OF drop, of g a ep] idle park queue by (simp add: o')
      qed
    qed
  qed
qed


text \<open>Closing drains both queues.\<close>

lemma drain_unfold:
  assumes "waitq_drain dn q = (sgs, dn'')"
  obtains (fin) "sgs = []" "dn'' = dn" "\<forall>sg \<in> set q. \<not> live dn sg"
  | (more) sg q' dn' sgs' where "waitq_dequeue dn q = (Some sg, q', dn')" "waitq_drain dn' q' = (sgs', dn'')" "sgs = sg # sgs'"
proof -
  obtain x q' dn' where dq: "waitq_dequeue dn q = (x, q', dn')" by (metis prod_cases3)
  then show ?thesis
  proof (cases rule: dequeue_cases)
    case none
    then show ?thesis using assms dq fin by (subst (asm) waitq_drain.simps) simp
  next
    case (some stale sg)
    then show ?thesis using assms dq more by (subst (asm) waitq_drain.simps) (auto split: prod.splits)
  qed
qed

lemma drain_mono: "waitq_drain dn q = (sgs, dn'') \<Longrightarrow> dn \<subseteq> dn''"
proof (induction "length q" arbitrary: dn q sgs rule: less_induct)
  case less
  from less.prems show ?case
  proof (cases rule: drain_unfold)
    case (more sg q' dn' sgs')
    from more(1) have "dn \<subseteq> dn'" by (cases rule: dequeue_cases) auto
    moreover have "dn' \<subseteq> dn''" by (rule less.hyps [OF waitq_dequeue_shorter [OF more(1)] more(2)])
    ultimately show ?thesis by blast
  qed simp
qed

lemma goready_Cons: "goready (w # ws) s = goready ws (goready [w] s)"
  by simp

lemma drain_receivers:
  assumes mk: "\<And>sg. wk_g (mk sg) = sg_g sg \<and> wk_case (mk sg) = sg_case sg"
  shows "waitq_drain dn q = (sgs, dn'') \<Longrightarrow> parked_inv s \<Longrightarrow> dones s = dn \<Longrightarrow> recvq (chs s a) = q \<Longrightarrow> closed (chs s a)
    \<Longrightarrow> parked_inv (goready (map mk sgs) (s\<lparr>chs := (chs s)(a := (chs s a)\<lparr>recvq := []\<rparr>), dones := dn''\<rparr>))"
proof (induction "length q" arbitrary: dn q sgs s rule: less_induct)
  case less
  note p = less.prems
  from p(1) show ?case
  proof (cases rule: drain_unfold)
    case fin
    have "parked_inv (s\<lparr>chs := (chs s)(a := (chs s a)\<lparr>recvq := []\<rparr>)\<rparr>)"
      by (rule parked_drop [OF p(2)])
        (use keys_distinct [OF p(2)] p(3,4) fin in \<open>auto simp: entries_def live_key split: if_splits\<close>)
    then show ?thesis using fin by (simp add: p(3) [symmetric])
  next
    case (more sg q' dn' sgs')
    let ?c = "(chs s a)\<lparr>recvq := q'\<rparr>"
    let ?s = "s\<lparr>chs := (chs s)(a := ?c), dones := dn'\<rparr>"
    from more(1) obtain stale where st: "q = stale @ sg # q'" "\<forall>x \<in> set stale. \<not> live dn x" "live dn sg"
        "dn' = (if sg_isSelect sg then insert (sg_g sg) dn else dn)"
      by (cases rule: dequeue_cases) auto
    have inv: "parked_inv (goready [mk sg] ?s)"
      unfolding st(4) p(3) [symmetric]
      by (rule wake_receiver(1) [OF p(2), of a stale sg q']) (use st p(3-5) mk in \<open>auto simp: p(3)\<close>)
    let ?t = "goready [mk sg] ?s"
    let ?h = "(chs s)(a := (chs s a)\<lparr>recvq := []\<rparr>)"
    have "parked_inv (goready (map mk sgs') (?t\<lparr>chs := (chs ?t)(a := (chs ?t a)\<lparr>recvq := []\<rparr>), dones := dn''\<rparr>))"
      by (rule less.hyps [OF waitq_dequeue_shorter [OF more(1)] more(2) inv])
        (simp_all only: goready_frame, use p(5) in simp_all)
    moreover have "(chs ?t)(a := (chs ?t a)\<lparr>recvq := []\<rparr>) = ?h"
      by (simp only: goready_frame) simp
    moreover have "?t\<lparr>chs := ?h, dones := dn''\<rparr> = goready [mk sg] (s\<lparr>chs := ?h, dones := dn''\<rparr>)"
      unfolding goready_upd [symmetric] by (simp only: upd_twice)
    ultimately show ?thesis unfolding more(3) list.map by (subst goready_Cons) (simp only:)
  qed
qed

lemma drain_senders:
  assumes mk: "\<And>sg. wk_g (mk sg) = sg_g sg \<and> wk_case (mk sg) = sg_case sg"
  shows "waitq_drain dn q = (sgs, dn'') \<Longrightarrow> parked_inv s \<Longrightarrow> dones s = dn \<Longrightarrow> sendq (chs s a) = q \<Longrightarrow> closed (chs s a)
    \<Longrightarrow> parked_inv (goready (map mk sgs) (s\<lparr>chs := (chs s)(a := (chs s a)\<lparr>sendq := []\<rparr>), dones := dn''\<rparr>))"
proof (induction "length q" arbitrary: dn q sgs s rule: less_induct)
  case less
  note p = less.prems
  from p(1) show ?case
  proof (cases rule: drain_unfold)
    case fin
    have "parked_inv (s\<lparr>chs := (chs s)(a := (chs s a)\<lparr>sendq := []\<rparr>)\<rparr>)"
      by (rule parked_drop [OF p(2)])
        (use keys_distinct [OF p(2)] p(3,4) fin in \<open>auto simp: entries_def live_key split: if_splits\<close>)
    then show ?thesis using fin by (simp add: p(3) [symmetric])
  next
    case (more sg q' dn' sgs')
    let ?c = "(chs s a)\<lparr>sendq := q'\<rparr>"
    let ?s = "s\<lparr>chs := (chs s)(a := ?c), dones := dn'\<rparr>"
    from more(1) obtain stale where st: "q = stale @ sg # q'" "\<forall>x \<in> set stale. \<not> live dn x" "live dn sg"
        "dn' = (if sg_isSelect sg then insert (sg_g sg) dn else dn)"
      by (cases rule: dequeue_cases) auto
    have inv: "parked_inv (goready [mk sg] ?s)"
      unfolding st(4) p(3) [symmetric]
      by (rule wake_sender(1) [OF p(2), of a stale sg q']) (use st p(3-5) mk in \<open>auto simp: p(3)\<close>)
    let ?t = "goready [mk sg] ?s"
    let ?h = "(chs s)(a := (chs s a)\<lparr>sendq := []\<rparr>)"
    have "parked_inv (goready (map mk sgs') (?t\<lparr>chs := (chs ?t)(a := (chs ?t a)\<lparr>sendq := []\<rparr>), dones := dn''\<rparr>))"
      by (rule less.hyps [OF waitq_dequeue_shorter [OF more(1)] more(2) inv])
        (simp_all only: goready_frame, use p(5) in simp_all)
    moreover have "(chs ?t)(a := (chs ?t a)\<lparr>sendq := []\<rparr>) = ?h"
      by (simp only: goready_frame) simp
    moreover have "?t\<lparr>chs := ?h, dones := dn''\<rparr> = goready [mk sg] (s\<lparr>chs := ?h, dones := dn''\<rparr>)"
      unfolding goready_upd [symmetric] by (simp only: upd_twice)
    ultimately show ?thesis unfolding more(3) list.map by (subst goready_Cons) (simp only:)
  qed
qed

lemma close_inv:
  assumes inv: "sys_inv s" and op: "closechan z (Some (chs s a)) (dones s) = Inr (c, dn, ws)"
  shows "sys_inv (goready ws (s\<lparr>chs := (chs s)(a := c), dones := dn\<rparr>))"
proof -
  define c0 where "c0 = (chs s a)\<lparr>closed := True\<rparr>"
  define mk1 :: "bool sudog \<Rightarrow> 'a wakeup" where
    "mk1 = (\<lambda>sg. \<lparr>wk_g = sg_g sg, wk_success = False, wk_case = sg_case sg, wk_value = (if sg_elem sg then Some z else None)\<rparr>)"
  define mk2 :: "'a sudog \<Rightarrow> 'a wakeup" where
    "mk2 = (\<lambda>sg. \<lparr>wk_g = sg_g sg, wk_success = False, wk_case = sg_case sg, wk_value = None\<rparr>)"
  obtain rs dn1 where rs: "waitq_drain (dones s) (recvq (chs s a)) = (rs, dn1)" by fastforce
  obtain ss dn2 where ss: "waitq_drain dn1 (sendq (chs s a)) = (ss, dn2)" by fastforce
  have o': "c = c0\<lparr>recvq := [], sendq := []\<rparr>" "dn = dn2" "ws = rev (map mk1 rs @ map mk2 ss)"
    using op rs ss by (auto simp: closechan_def Let_def c0_def mk1_def mk2_def split: if_splits)
  let ?s = "s\<lparr>chs := (chs s)(a := c0)\<rparr>"
  have p0: "parked_inv ?s"
    by (rule parked_drop)
      (use inv keys_distinct [of s] in \<open>auto simp: c0_def entries_def split: if_splits\<close>)
  have "parked_inv (goready (map mk1 rs) (?s\<lparr>chs := (chs ?s)(a := (chs ?s a)\<lparr>recvq := []\<rparr>), dones := dn1\<rparr>))"
    by (rule drain_receivers [OF _ rs p0]) (simp_all add: mk1_def c0_def)
  then have p1: "parked_inv (goready (map mk1 rs) (s\<lparr>chs := (chs s)(a := c0\<lparr>recvq := []\<rparr>), dones := dn1\<rparr>))"
    (is "parked_inv ?s1") by simp
  have "parked_inv (goready (map mk2 ss) (?s1\<lparr>chs := (chs ?s1)(a := (chs ?s1 a)\<lparr>sendq := []\<rparr>), dones := dn2\<rparr>))"
    by (rule drain_senders [OF _ ss p1]) (simp_all add: mk2_def c0_def)
  then have p2: "parked_inv (goready (map mk1 rs @ map mk2 ss) (s\<lparr>chs := (chs s)(a := c), dones := dn\<rparr>))"
    unfolding goready_append goready_upd [symmetric] o' by simp
  then have "goready ws (s\<lparr>chs := (chs s)(a := c), dones := dn\<rparr>)
      = goready (map mk1 rs @ map mk2 ss) (s\<lparr>chs := (chs s)(a := c), dones := dn\<rparr>)"
    unfolding o'(3) by (intro goready_rev not_thrown)
  moreover have "waits_inv (s\<lparr>chs := (chs s)(a := c), dones := dn\<rparr>)"
  proof (rule waits_upd)
    show "dones s \<subseteq> dn" using drain_mono [OF rs] drain_mono [OF ss] o'(2) by blast
    have "qcount (chs s a) \<le> dataqsiz (chs s a)" using inv by (simp add: waits_inv_def waits_ok_def)
    then show "waits_ok dn c" by (simp add: waits_ok_def o'(1) c0_def)
  qed (use inv in simp)
  ultimately show ?thesis using p2 by simp
qed


section \<open>Selecting\<close>

lemma clear_inv:
  assumes "sys_inv s" "\<not> sel_ready (dones s) nsends scases (chs s) i"
  shows "sys_inv (s\<lparr>chs := sel_clear nsends scases i (chs s)\<rparr>)"
proof -
  have "waits_ok (dones s) (chs s (sc_c (scases ! i)))" using assms(1) by (simp add: waits_inv_def)
  then show ?thesis
    unfolding sel_clear_def Let_def
    by (intro drop_inv [OF assms(1)]) (use assms(2) in \<open>auto simp: sel_ready_def Let_def waits_ok_def split: if_splits\<close>)
qed

lemma clears_inv:
  "sys_inv s \<Longrightarrow> \<forall>i \<in> set is. \<not> sel_ready (dones s) nsends scases (chs s) i
    \<Longrightarrow> sys_inv (s\<lparr>chs := fold (sel_clear nsends scases) is (chs s)\<rparr>)"
proof (induction "is" arbitrary: s)
  case (Cons i "is")
  let ?s = "s\<lparr>chs := sel_clear nsends scases i (chs s)\<rparr>"
  have "sys_inv ?s" using clear_inv Cons.prems by auto
  moreover have "\<forall>j \<in> set is. \<not> sel_ready (dones ?s) nsends scases (chs ?s) j"
    using Cons.prems clear_ready [of "dones s" nsends scases "chs s" i] by simp
  ultimately show ?case using Cons.IH [of ?s] by simp
qed simp

lemma clears_fields:
  "closed (fold (sel_clear nsends scases) is h a) = closed (h a)"
  "qcount (fold (sel_clear nsends scases) is h a) = qcount (h a)"
  "dataqsiz (fold (sel_clear nsends scases) is h a) = dataqsiz (h a)"
  by (induction "is" arbitrary: h) (auto simp: sel_clear_def Let_def)

lemma clear_keep:
  "sendq (h a) = [] \<Longrightarrow> sendq (sel_clear nsends scases i h a) = []"
  "recvq (h a) = [] \<Longrightarrow> recvq (sel_clear nsends scases i h a) = []"
  by (auto simp: sel_clear_def Let_def)

lemma clears_keep:
  "sendq (h a) = [] \<Longrightarrow> sendq (fold (sel_clear nsends scases) is h a) = []"
  "recvq (h a) = [] \<Longrightarrow> recvq (fold (sel_clear nsends scases) is h a) = []"
  by (induction "is" arbitrary: h) (simp_all add: clear_keep)

lemma clears_empty:
  assumes "i \<in> set is"
  shows "i \<ge> nsends \<Longrightarrow> sendq (fold (sel_clear nsends scases) is h (sc_c (scases ! i))) = []"
    and "i < nsends \<Longrightarrow> recvq (fold (sel_clear nsends scases) is h (sc_c (scases ! i))) = []"
  using assms by (induction "is" arbitrary: h) (auto simp: sel_clear_def Let_def intro: clears_keep)

lemma pass2_queues:
  "sendq (sel_pass2 gp nsends scases lo h a) = sendq (h a)
     @ map (\<lambda>i. \<lparr>sg_g = gp, sg_elem = sc_val (scases ! i), sg_isSelect = True, sg_case = i\<rparr>)
         (filter (\<lambda>i. sc_c (scases ! i) = a \<and> i < nsends) lo)"
  "recvq (sel_pass2 gp nsends scases lo h a) = recvq (h a)
     @ map (\<lambda>i. \<lparr>sg_g = gp, sg_elem = sc_ep (scases ! i), sg_isSelect = True, sg_case = i\<rparr>)
         (filter (\<lambda>i. sc_c (scases ! i) = a \<and> \<not> i < nsends) lo)"
  "closed (sel_pass2 gp nsends scases lo h a) = closed (h a)"
  "qcount (sel_pass2 gp nsends scases lo h a) = qcount (h a)"
  "dataqsiz (sel_pass2 gp nsends scases lo h a) = dataqsiz (h a)"
  by (simp_all add: pass2_parks parked_chan_def send_entry_def recv_entry_def Let_def not_less conj_commute)

lemma park_select:
  assumes inv: "sys_inv s" and idle: "gst s g = GIdle" and lo: "distinct lo"
    and blocked: "\<forall>i \<in> set lo. \<not> closed (chs s (sc_c (scases ! i)))
      \<and> (if i < nsends then recvq (chs s (sc_c (scases ! i))) = []
           \<and> qcount (chs s (sc_c (scases ! i))) = dataqsiz (chs s (sc_c (scases ! i)))
         else sendq (chs s (sc_c (scases ! i))) = [] \<and> qcount (chs s (sc_c (scases ! i))) = 0)"
  shows "sys_inv (s\<lparr>chs := sel_pass2 g nsends scases lo (chs s), gst := (gst s)(g := GSelect nsends scases lo)\<rparr>)"
proof
  let ?new = "\<lambda>a d. map (\<lambda>i. (g, True, i)) (filter (\<lambda>i. sc_c (scases ! i) = a \<and> (i < nsends) = d) lo)"
  show "parked_inv (s\<lparr>chs := sel_pass2 g nsends scases lo (chs s), gst := (gst s)(g := GSelect nsends scases lo)\<rparr>)"
  proof (rule parked_park [where new = ?new])
    show "parked_inv s" "gst s g = GIdle" using inv idle by auto
    show "entries (sel_pass2 g nsends scases lo (chs s)) a d = entries (chs s) a d @ ?new a d" for a d
      by (simp add: entries_def pass2_queues sg_key_def comp_def)
    show "distinct (?new a d)" for a d using lo by (simp add: distinct_map inj_on_def)
    show "k \<in> set (?new a d) \<longleftrightarrow> (\<exists>sel i. k = (g, sel, i) \<and> (a, d, sel, i) \<in> slots (GSelect nsends scases lo))" for a d k
      by auto
    show "distinct l" if "GSelect nsends scases lo = GSelect n' sc' l" for n' sc' l using that lo by simp
    show "closed (chs s a) \<Longrightarrow> closed (sel_pass2 g nsends scases lo (chs s) a)" for a by (simp add: pass2_queues)
  qed
  have "waits_ok (dones s) (sel_pass2 g nsends scases lo (chs s) a)" for a
  proof -
    have w: "waits_ok (dones s) (chs s a)" using inv by (simp add: waits_inv_def)
    have send: "\<not> closed (chs s a) \<and> recvq (chs s a) = [] \<and> qcount (chs s a) = dataqsiz (chs s a)"
      if "i \<in> set lo" "i < nsends" "sc_c (scases ! i) = a" for i
      using bspec [OF blocked that(1)] that by simp
    have recv: "\<not> closed (chs s a) \<and> sendq (chs s a) = [] \<and> qcount (chs s a) = 0"
      if "i \<in> set lo" "\<not> i < nsends" "sc_c (scases ! i) = a" for i
      using bspec [OF blocked that(1)] that by simp
    show ?thesis
      using w unfolding waits_ok_def pass2_queues by (auto simp: filter_empty_conv dest: send recv)
  qed
  then show "waits_inv (s\<lparr>chs := sel_pass2 g nsends scases lo (chs s), gst := (gst s)(g := GSelect nsends scases lo)\<rparr>)"
    by (simp add: waits_inv_def)
qed

lemma nonblock_result:
  "chansend g v False ch dn = (r, ch', dn', ws) \<Longrightarrow> r \<noteq> SendParked"
  "chanrecv z g ep False ch dn = (q, ch', dn', ws) \<Longrightarrow> q \<noteq> RecvParked"
  by (auto simp: chansend_def chanrecv_def Let_def split: if_splits option.splits prod.splits)

lemma case_op_inv:
  assumes inv: "sys_inv s" and idle: "gst s g = GIdle"
    and op: "case_op z g nsends scases i (chs s) (dones s) = (r, h, dn, ws)"
  shows "sys_inv (goready ws (s\<lparr>chs := h, dones := dn\<rparr>)) \<and> (\<forall>lo. r \<noteq> SelParked lo)"
proof (cases "i \<ge> nsends")
  case True
  obtain q ch where rc: "chanrecv z g (sc_ep (scases ! i)) False (Some (chs s (sc_c (scases ! i)))) (dones s) = (q, ch, dn, ws)"
      "h = (chs s)(sc_c (scases ! i) := the ch)"
    using op True by (auto simp: case_op_def Let_def split: prod.splits)
  show ?thesis
    using recv_inv [OF inv idle rc(1)] nonblock_result(2) [OF rc(1)] rc(2) idle_upd [OF idle] op True
    by (auto simp: case_op_def Let_def split: prod.splits recv_result.splits bool.splits)
next
  case False
  obtain q ch where rc: "chansend g (sc_val (scases ! i)) False (Some (chs s (sc_c (scases ! i)))) (dones s) = (q, ch, dn, ws)"
      "h = (chs s)(sc_c (scases ! i) := the ch)"
    using op False by (auto simp: case_op_def Let_def split: prod.splits)
  show ?thesis
    using send_inv [OF inv idle rc(1)] nonblock_result(1) [OF rc(1)] rc(2) idle_upd [OF idle] op False
    by (auto simp: case_op_def Let_def split: prod.splits send_result.splits bool.splits)
qed


lemma case_op_case: "case_op z g nsends scases i h dn = (r, h', dn', ws) \<Longrightarrow> \<forall>lo. r \<noteq> SelParked lo"
  by (auto simp: case_op_def Let_def split: if_splits prod.splits recv_result.splits send_result.splits bool.splits)

lemma select_inv:
  assumes inv: "sys_inv s" and idle: "gst s g = GIdle"
    and len: "length scases \<le> 65536" "length arr = length scases" "length arr' = length scases"
    and op: "selectgo z g nsends scases block rnd arr arr' (chs s) (dones s) = (r, h, dn, ws)"
  shows "sys_inv (goready ws (s\<lparr>chs := h, dones := dn,
    gst := (gst s)(g := (case r of SelParked lo \<Rightarrow> GSelect nsends scases lo | _ \<Rightarrow> GIdle))\<rparr>))"
proof -
  obtain po lo where ord: "sel_orders rnd arr arr' scases = (po, lo)" by fastforce
  have los: "set po = set lo" "distinct lo" using sel_orders_spec [OF ord] len by auto
  let ?ready = "sel_ready (dones s) nsends scases (chs s)"
  define pre where "pre = takeWhile (\<lambda>i. \<not> ?ready i) po"
  define h' where "h' = fold (sel_clear nsends scases) pre (chs s)"
  have ok: "chans_ok (dones s) (chs s)" using inv waits_chans_ok by blast
  have sel: "(r, h, dn, ws) = (case find ?ready po of
        Some i \<Rightarrow> case_op z g nsends scases i h' (dones s)
      | None \<Rightarrow> if \<not> block then (SelDone (-1) False None, h', dones s, [])
                else (SelParked lo, sel_pass2 g nsends scases lo h', dones s, []))"
    unfolding op [symmetric] h'_def pre_def by (simp only: select_polls [OF ok ord] Let_def)
  have "\<forall>i \<in> set pre. \<not> ?ready i" unfolding pre_def using set_takeWhileD by fastforce
  then have inv': "sys_inv (s\<lparr>chs := h'\<rparr>)" unfolding h'_def by (rule clears_inv [OF inv])
  have idle': "gst (s\<lparr>chs := h'\<rparr>) g = GIdle" using idle by simp
  show ?thesis
  proof (cases "find ?ready po")
    case (Some i)
    then have c: "case_op z g nsends scases i (chs (s\<lparr>chs := h'\<rparr>)) (dones (s\<lparr>chs := h'\<rparr>)) = (r, h, dn, ws)" using sel by simp
    have "(case r of SelParked lo \<Rightarrow> GSelect nsends scases lo | _ \<Rightarrow> GIdle) = GIdle"
      using case_op_case [OF c] by (cases r) auto
    then show ?thesis using case_op_inv [OF inv' idle' c] idle_upd [OF idle] by simp
  next
    case None
    then have none: "\<forall>i \<in> set po. \<not> ?ready i" by (metis find_None_iff)
    show ?thesis
    proof (cases block)
      case False
      then show ?thesis using sel None inv' idle_upd [OF idle] by simp
    next
      case True
      have pre: "pre = po" unfolding pre_def using none by (simp add: takeWhile_eq_all_conv)
      have "sys_inv ((s\<lparr>chs := h'\<rparr>)\<lparr>chs := sel_pass2 g nsends scases lo (chs (s\<lparr>chs := h'\<rparr>)),
          gst := (gst (s\<lparr>chs := h'\<rparr>))(g := GSelect nsends scases lo)\<rparr>)"
      proof (rule park_select [OF inv' idle' los(2)], intro ballI)
        fix i assume "i \<in> set lo"
        then have i: "i \<in> set pre" "\<not> ?ready i" using los(1) pre none by auto
        let ?a = "sc_c (scases ! i)"
        have "qcount (chs s ?a) \<le> dataqsiz (chs s ?a)" using ok by (simp add: chans_ok_def)
        then show "\<not> closed (chs (s\<lparr>chs := h'\<rparr>) ?a) \<and> (if i < nsends
            then recvq (chs (s\<lparr>chs := h'\<rparr>) ?a) = [] \<and> qcount (chs (s\<lparr>chs := h'\<rparr>) ?a) = dataqsiz (chs (s\<lparr>chs := h'\<rparr>) ?a)
            else sendq (chs (s\<lparr>chs := h'\<rparr>) ?a) = [] \<and> qcount (chs (s\<lparr>chs := h'\<rparr>) ?a) = 0)"
          using clears_empty [OF i(1), where nsends = nsends and h = "chs s" and scases = scases] clears_fields [of nsends scases pre "chs s" ?a] i(2)
          by (auto simp: h'_def sel_ready_def Let_def split: if_splits)
      qed
      then show ?thesis using sel None True by simp
    qed
  qed
qed


section \<open>Going on\<close>

lemma dequeueSudoG_filter:
  "distinct (map sg_key q) \<Longrightarrow> dequeueSudoG gp i q = filter (\<lambda>sg. sg_key sg \<noteq> (gp, True, i)) q"
proof (induction q)
  case (Cons sg q)
  show ?case
  proof (cases "sg_key sg = (gp, True, i)")
    case True
    then have "sg_key x \<noteq> (gp, True, i)" if "x \<in> set q" for x using Cons.prems that by (auto simp: rev_image_eqI)
    then have "filter (\<lambda>sg. sg_key sg \<noteq> (gp, True, i)) q = q" by (simp add: filter_id_conv)
    then show ?thesis using True by (simp add: sg_key_def)
  next
    case False
    then show ?thesis using Cons by (auto simp: sg_key_def)
  qed
qed simp

lemma distinct_map_filter: "distinct (map f xs) \<Longrightarrow> distinct (map f (filter P xs))"
  by (induction xs) auto

lemma pass3_queues:
  "(\<And>a. distinct (map sg_key (sendq (h a)))) \<Longrightarrow> (\<And>a. distinct (map sg_key (recvq (h a)))) \<Longrightarrow>
     sendq (sel_pass3 gp nsends scases won lo h a)
      = filter (\<lambda>sg. \<not> (\<exists>i \<in> set lo. i \<noteq> won \<and> i < nsends \<and> sc_c (scases ! i) = a \<and> sg_key sg = (gp, True, i))) (sendq (h a))
   \<and> recvq (sel_pass3 gp nsends scases won lo h a)
      = filter (\<lambda>sg. \<not> (\<exists>i \<in> set lo. i \<noteq> won \<and> \<not> i < nsends \<and> sc_c (scases ! i) = a \<and> sg_key sg = (gp, True, i))) (recvq (h a))
   \<and> closed (sel_pass3 gp nsends scases won lo h a) = closed (h a)
   \<and> qcount (sel_pass3 gp nsends scases won lo h a) = qcount (h a)
   \<and> dataqsiz (sel_pass3 gp nsends scases won lo h a) = dataqsiz (h a)"
proof (induction lo arbitrary: h)
  case (Cons i lo)
  let ?h = "if i = won then h
    else if i < nsends then h(sc_c (scases ! i) := (h (sc_c (scases ! i)))\<lparr>sendq := dequeueSudoG gp i (sendq (h (sc_c (scases ! i))))\<rparr>)
    else h(sc_c (scases ! i) := (h (sc_c (scases ! i)))\<lparr>recvq := dequeueSudoG gp i (recvq (h (sc_c (scases ! i))))\<rparr>)"
  have d: "distinct (map sg_key (sendq (?h a)))" "distinct (map sg_key (recvq (?h a)))" for a
    using Cons.prems by (auto simp: dequeueSudoG_filter distinct_map_filter)
  have r: "sel_pass3 gp nsends scases won (i # lo) h = sel_pass3 gp nsends scases won lo ?h" by (simp add: Let_def)
  show ?case
    unfolding r using Cons.IH [OF d] Cons.prems
    by (auto simp: dequeueSudoG_filter intro!: filter_cong)
qed simp


text \<open>Pass 3 removes exactly the entries that the goroutine still has.\<close>

lemma pass3_entries:
  assumes inv: "parked_inv s" and w: "wakes s g = Some w" and st: "gst s g = GSelect nsends scases lo"
  shows "sendq (sel_pass3 g nsends scases (wk_case w) lo (chs s) a) = filter (\<lambda>sg. sg_g sg \<noteq> g) (sendq (chs s a))"
    and "recvq (sel_pass3 g nsends scases (wk_case w) lo (chs s) a) = filter (\<lambda>sg. sg_g sg \<noteq> g) (recvq (chs s a))"
    and "closed (sel_pass3 g nsends scases (wk_case w) lo (chs s) a) = closed (chs s a)"
    and "qcount (sel_pass3 g nsends scases (wk_case w) lo (chs s) a) = qcount (chs s a)"
    and "dataqsiz (sel_pass3 g nsends scases (wk_case w) lo (chs s) a) = dataqsiz (chs s a)"
proof -
  note d = keys_distinct [OF inv]
  note p3 = pass3_queues [of "chs s" g nsends scases "wk_case w" lo a, OF d]
  have t: "(\<exists>i \<in> set lo. i \<noteq> wk_case w \<and> i < nsends \<and> sc_c (scases ! i) = a \<and> sg_key sg = (g, True, i)) \<longleftrightarrow> sg_g sg = g"
    if "sg \<in> set (sendq (chs s a))" for sg
  proof
    assume "sg_g sg = g"
    moreover have e: "(sg_g sg, sg_isSelect sg, sg_case sg) \<in> set (entries (chs s) a True)"
      using that by (force simp: entries_def sg_key_def)
    ultimately show "\<exists>i \<in> set lo. i \<noteq> wk_case w \<and> i < nsends \<and> sc_c (scases ! i) = a \<and> sg_key sg = (g, True, i)"
      using entry_slot [OF inv e] entry_woken [OF inv e, of w] w st by (auto simp: sg_key_def)
  qed (auto simp: sg_key_def)
  have r: "(\<exists>i \<in> set lo. i \<noteq> wk_case w \<and> \<not> i < nsends \<and> sc_c (scases ! i) = a \<and> sg_key sg = (g, True, i)) \<longleftrightarrow> sg_g sg = g"
    if "sg \<in> set (recvq (chs s a))" for sg
  proof
    assume "sg_g sg = g"
    moreover have e: "(sg_g sg, sg_isSelect sg, sg_case sg) \<in> set (entries (chs s) a False)"
      using that by (force simp: entries_def sg_key_def)
    ultimately show "\<exists>i \<in> set lo. i \<noteq> wk_case w \<and> \<not> i < nsends \<and> sc_c (scases ! i) = a \<and> sg_key sg = (g, True, i)"
      using entry_slot [OF inv e] entry_woken [OF inv e, of w] w st by (auto simp: sg_key_def)
  qed (auto simp: sg_key_def)
  show "sendq (sel_pass3 g nsends scases (wk_case w) lo (chs s) a) = filter (\<lambda>sg. sg_g sg \<noteq> g) (sendq (chs s a))"
    using p3 t by (simp cong: filter_cong)
  show "recvq (sel_pass3 g nsends scases (wk_case w) lo (chs s) a) = filter (\<lambda>sg. sg_g sg \<noteq> g) (recvq (chs s a))"
    using p3 r by (simp cong: filter_cong)
qed (use pass3_queues [of "chs s" g nsends scases "wk_case w" lo a, OF keys_distinct [OF inv]] in blast)+

lemma waits_filter:
  assumes "waits_ok dn c" "sendq c' = filter (\<lambda>sg. sg_g sg \<noteq> g) (sendq c)" "recvq c' = filter (\<lambda>sg. sg_g sg \<noteq> g) (recvq c)"
    "closed c' = closed c" "qcount c' = qcount c" "dataqsiz c' = dataqsiz c"
  shows "waits_ok (dn - {g}) c'"
  using assms by (auto simp: waits_ok_def live_def)

lemma resume_inv:
  assumes inv: "sys_inv s" and step: "sys_step z (Resume g) s = Some s'"
  shows "sys_inv s'"
proof -
  have p: "parked_inv s" and wi: "waits_inv s" using inv by auto
  obtain w where w: "wakes s g = Some w" using step by (auto simp: sys_step_def split: option.splits)
  have nt: "thrown s = False" using not_thrown [OF p] by simp
  show ?thesis
  proof (cases "gst s g")
    case GIdle
    then show ?thesis using step w by (simp add: sys_step_def Let_def)
  next
    case (GSend a)
    have free: "k \<in> set (entries (chs s) a' d) \<Longrightarrow> fst k \<noteq> g" for k a' d
      using entry_woken [OF p, of g] entry_slot [OF p, of g] w GSend by (cases k) fastforce
    have nd: "dones s - {g} = dones s" using done_iff [OF p, of g] GSend by simp
    have "parked_inv (s\<lparr>chs := chs s, dones := dones s - {g}, wakes := (wakes s)(g := None), gst := (gst s)(g := GIdle)\<rparr>)"
      by (rule parked_resume [OF p w]) (use free in \<open>auto simp: filter_id_conv\<close>)
    moreover have "chansend_resume w (chs s a) \<noteq> SendPanic SpuriousWakeup"
      using woken_closed [OF p w GSend] by (auto simp: chansend_resume_def)
    then have "s' = s\<lparr>chs := chs s, dones := dones s - {g}, wakes := (wakes s)(g := None), gst := (gst s)(g := GIdle)\<rparr>"
      using step w GSend nt nd by (cases s) (simp add: sys_step_def Let_def)
    ultimately show ?thesis using wi nd by (simp add: waits_inv_def)
  next
    case (GRecv a)
    have free: "k \<in> set (entries (chs s) a' d) \<Longrightarrow> fst k \<noteq> g" for k a' d
      using entry_woken [OF p, of g] entry_slot [OF p, of g] w GRecv by (cases k) fastforce
    have nd: "dones s - {g} = dones s" using done_iff [OF p, of g] GRecv by simp
    have "parked_inv (s\<lparr>chs := chs s, dones := dones s - {g}, wakes := (wakes s)(g := None), gst := (gst s)(g := GIdle)\<rparr>)"
      by (rule parked_resume [OF p w]) (use free in \<open>auto simp: filter_id_conv\<close>)
    moreover have "s' = s\<lparr>chs := chs s, dones := dones s - {g}, wakes := (wakes s)(g := None), gst := (gst s)(g := GIdle)\<rparr>"
      using step w GRecv nd by (cases s) (simp add: sys_step_def Let_def)
    ultimately show ?thesis using wi nd by (simp add: waits_inv_def)
  next
    case (GSelect nsends scases lo)
    let ?h = "sel_pass3 g nsends scases (wk_case w) lo (chs s)"
    note p3 = pass3_entries [OF p w GSelect]
    have "parked_inv (s\<lparr>chs := ?h, dones := dones s - {g}, wakes := (wakes s)(g := None), gst := (gst s)(g := GIdle)\<rparr>)"
      by (rule parked_resume [OF p w]) (simp_all add: entries_def p3 filter_map comp_def sg_key_def)
    moreover have "waits_inv (s\<lparr>chs := ?h, dones := dones s - {g}, wakes := (wakes s)(g := None), gst := (gst s)(g := GIdle)\<rparr>)"
      using wi waits_filter [OF _ p3] by (simp add: waits_inv_def)
    moreover have "wk_case w \<in> set lo" using woken_slot [OF p w] GSelect by auto
    then have "s' = s\<lparr>chs := ?h, dones := dones s - {g}, wakes := (wakes s)(g := None), gst := (gst s)(g := GIdle)\<rparr>"
      using step w GSelect nt by (cases s) (auto simp: sys_step_def selectgo_resume_def Let_def split: if_splits)
    ultimately show ?thesis by simp
  qed
qed

lemma sys_step_inv: "sys_inv s \<Longrightarrow> sys_step z op s = Some s' \<Longrightarrow> sys_inv s'"
proof (cases op)
  case (DoSend g a v block)
  assume "sys_inv s" "sys_step z op s = Some s'"
  then show ?thesis using send_inv [of s g v block a] DoSend
    by (auto simp: sys_step_def split: if_splits prod.splits)
next
  case (DoRecv g a ep block)
  assume "sys_inv s" "sys_step z op s = Some s'"
  then show ?thesis using recv_inv [of s g z ep block a] DoRecv
    by (auto simp: sys_step_def split: if_splits prod.splits)
next
  case (DoClose g a)
  assume "sys_inv s" "sys_step z op s = Some s'"
  then show ?thesis using close_inv [of s z a] DoClose
    by (auto simp: sys_step_def split: if_splits prod.splits sum.splits)
next
  case (DoSelect g nsends scases block rnd arr arr')
  assume "sys_inv s" "sys_step z op s = Some s'"
  then show ?thesis using select_inv [of s g scases arr arr' z nsends block rnd] DoSelect
    by (auto simp: sys_step_def split: if_splits prod.splits)
next
  case (Resume g)
  assume "sys_inv s" "sys_step z op s = Some s'"
  then show ?thesis using resume_inv [of s z g s'] Resume by simp
qed

lemma sys_reach_inv: "sys_reach z s \<Longrightarrow> sys_inv s"
proof (induction rule: sys_reach.induct)
  case (init h)
  then show ?case
    by (simp add: sys_init_def parked_inv_def waits_inv_def waits_ok_def entries_def fresh_chans_def)
qed (rule sys_step_inv)


section \<open>What select promises\<close>

text \<open>
  C3: A \<open>select\<close> fires once. Whatever goroutines do on any number of channels: a goroutine parked in \<open>select\<close> has one
  entry in the queue of each of its cases until it is woken; it is woken for one of its cases, whose entry is
  gone, and from then on its \<open>selectDone\<close> is set, so that nobody wakes it for another; when it has returned, none
  of its entries is left in any queue. The run time never throws.
\<close>

theorem select_fires_once:
  assumes "sys_reach z s"
  shows "\<not> thrown s \<and> (\<forall>a d. distinct (entries (chs s) a d))
    \<and> (\<forall>g nsends scases lo. gst s g = GSelect nsends scases lo \<longrightarrow>
         (g \<in> dones s \<longleftrightarrow> wakes s g \<noteq> None)
       \<and> (wakes s g = None \<longrightarrow> (\<forall>i \<in> set lo. (g, True, i) \<in> set (entries (chs s) (sc_c (scases ! i)) (i < nsends))))
       \<and> (\<forall>w. wakes s g = Some w \<longrightarrow> wk_case w \<in> set lo \<and> (\<forall>a d. (g, True, wk_case w) \<notin> set (entries (chs s) a d))))
    \<and> (\<forall>g a d sel i. gst s g = GIdle \<longrightarrow> (g, sel, i) \<notin> set (entries (chs s) a d))"
proof (intro conjI allI impI)
  have p: "parked_inv s" using sys_reach_inv [OF assms] by simp
  show "\<not> thrown s" by (rule not_thrown [OF p])
  show "distinct (entries (chs s) a d)" for a d by (rule entries_distinct [OF p])
  show "(g, sel, i) \<notin> set (entries (chs s) a d)" if "gst s g = GIdle" for g a d sel i by (rule idle_free(2) [OF p that])
  fix g nsends scases lo assume g: "gst s g = GSelect nsends scases lo"
  show "g \<in> dones s \<longleftrightarrow> wakes s g \<noteq> None" using done_iff [OF p, of g] g by simp
  show "\<forall>i \<in> set lo. (g, True, i) \<in> set (entries (chs s) (sc_c (scases ! i)) (i < nsends))" if "wakes s g = None"
    using slot_entry [OF p that] g by auto
  fix w assume w: "wakes s g = Some w"
  show "wk_case w \<in> set lo" using woken_slot [OF p w] g by auto
  show "(g, True, wk_case w) \<notin> set (entries (chs s) a d)" for a d using entry_woken [OF p _ w] by blast
qed

text \<open>
  C4: Nobody waits without need, with \<open>select\<close> in play. While a goroutine is parked and not woken, at every slot it
  waits in the channel is open, and the operation cannot proceed: for a send the buffer is full, for a receive it
  is empty, and any live entry in the opposite queue is the goroutine's own.
\<close>

theorem select_no_lost_wakeup:
  assumes "sys_reach z s" and "wakes s g = None" and "(a, d, sel, i) \<in> slots (gst s g)"
  shows "\<not> closed (chs s a)
    \<and> (if d then qcount (chs s a) = dataqsiz (chs s a) \<and> (\<forall>r \<in> set (recvq (chs s a)). live (dones s) r \<longrightarrow> sg_g r = g)
       else qcount (chs s a) = 0 \<and> (\<forall>t \<in> set (sendq (chs s a)). live (dones s) t \<longrightarrow> sg_g t = g))"
proof -
  have p: "parked_inv s" and w: "waits_ok (dones s) (chs s a)"
    using sys_reach_inv [OF assms(1)] by (auto simp: waits_inv_def)
  have e: "(g, sel, i) \<in> set (entries (chs s) a d)" by (rule slot_entry [OF p assms(2,3)])
  have l: "live_key (dones s) (g, sel, i)" using live_iff [OF p e] assms(2) by simp
  show ?thesis
  proof (cases d)
    case True
    then obtain t where "t \<in> set (sendq (chs s a))" "sg_key t = (g, sel, i)" using e by (auto simp: entries_def)
    then have "t \<in> set (sendq (chs s a))" "live (dones s) t" "sg_g t = g"
      using l live_key [of "dones s" t] by (auto simp: sg_key_def)
    then show ?thesis using w True by (auto simp: waits_ok_def)
  next
    case False
    then obtain t where "t \<in> set (recvq (chs s a))" "sg_key t = (g, sel, i)" using e by (auto simp: entries_def)
    then have "t \<in> set (recvq (chs s a))" "live (dones s) t" "sg_g t = g"
      using l live_key [of "dones s" t] by (auto simp: sg_key_def)
    then show ?thesis using w False by (auto simp: waits_ok_def)
  qed
qed

text \<open>Goroutine 1 selects over receives from the empty channels 5 and 7, and parks.\<close>

definition wait_cases :: "nat scase list" where
  "wait_cases = [\<lparr>sc_c = 7, sc_val = 0, sc_ep = True\<rparr>, \<lparr>sc_c = 5, sc_val = 0, sc_ep = True\<rparr>]"

lemma parked_example:
  "\<exists>s lo. sys_reach 0 s \<and> gst s 1 = GSelect 0 wait_cases lo \<and> set lo = {0, 1} \<and> wakes s 1 = None"
proof -
  obtain po lo where ord: "sel_orders (\<lambda>_. 0) [0, 0] [0, 0] wait_cases = (po, lo)" by fastforce
  have fresh: "fresh_chans ex_chan" by (simp add: fresh_chans_def ex_chan_def)
  have "chans_ok {} ex_chan" by (simp add: chans_ok_def ex_chan_def)
  moreover have s: "set po = {0, 1}" "set lo = {0, 1}"
    using sel_orders_spec(4,5) [OF ord] by (auto simp: wait_cases_def active_def upt_rec)
  moreover have "find (sel_ready {} 0 wait_cases ex_chan) po = None"
    using s(1) by (auto simp: find_None_iff sel_ready_def wait_cases_def ex_chan_def Let_def)
  ultimately have "\<exists>h dn. selectgo 0 1 0 wait_cases True (\<lambda>_. 0) [0, 0] [0, 0] ex_chan {} = (SelParked lo, h, dn, [])"
    using select_polls [OF _ ord, of "{}" ex_chan 0 1 0 True] by (simp add: Let_def)
  then obtain h dn where "selectgo 0 1 0 wait_cases True (\<lambda>_. 0) [0, 0] [0, 0] ex_chan {} = (SelParked lo, h, dn, [])" by blast
  note sel = this
  define s where "s = (sys_init ex_chan)\<lparr>chs := h, dones := dn, gst := (gst (sys_init ex_chan))(1 := GSelect 0 wait_cases lo)\<rparr>"
  have "sys_step 0 (DoSelect 1 0 wait_cases True (\<lambda>_. 0) [0, 0] [0, 0]) (sys_init ex_chan) = Some s"
    using sel by (simp add: sys_step_def sys_init_def s_def) (simp add: wait_cases_def)
  then have "sys_reach 0 s" by (rule sys_reach.step [OF sys_reach.init [OF fresh]])
  moreover have "gst s 1 = GSelect 0 wait_cases lo" "wakes s 1 = None" by (simp_all add: s_def sys_init_def)
  ultimately show ?thesis using s(2) by blast
qed

theorem select_fires_once_witness:
  "\<exists>s lo. sys_reach 0 s \<and> gst s 1 = GSelect 0 wait_cases lo \<and> wakes s 1 = None \<and> \<not> thrown s
     \<and> (1, True, 0) \<in> set (entries (chs s) 7 False) \<and> (1, True, 1) \<in> set (entries (chs (s :: nat chan_sys)) 5 False)"
proof -
  obtain s :: "nat chan_sys" and lo where s: "sys_reach 0 s" "gst s 1 = GSelect 0 wait_cases lo" "set lo = {0, 1}" "wakes s 1 = None"
    using parked_example by blast
  then have "\<forall>i \<in> set lo. (1, True, i) \<in> set (entries (chs s) (sc_c (wait_cases ! i)) False)"
    using select_fires_once [OF s(1), THEN conjunct2, THEN conjunct2, THEN conjunct1, rule_format, OF s(2)] by simp
  then have "(1, True, 0) \<in> set (entries (chs s) 7 False) \<and> (1, True, 1) \<in> set (entries (chs s) 5 False)"
    using s(3) by (auto simp: wait_cases_def)
  moreover have "\<not> thrown s" using select_fires_once [OF s(1)] by blast
  ultimately show ?thesis using s(1,2,4) by blast
qed

theorem select_no_lost_wakeup_witness:
  "\<exists>s. sys_reach 0 s \<and> wakes s 1 = None \<and> (5, False, True, 1) \<in> slots (gst s 1)
     \<and> \<not> closed (chs s 5) \<and> qcount (chs (s :: nat chan_sys) 5) = 0"
proof -
  obtain s :: "nat chan_sys" and lo where s: "sys_reach 0 s" "gst s 1 = GSelect 0 wait_cases lo" "set lo = {0, 1}" "wakes s 1 = None"
    using parked_example by blast
  then have slot: "(5, False, True, 1) \<in> slots (gst s 1)" by (simp add: wait_cases_def)
  then have "\<not> closed (chs s 5) \<and> qcount (chs s 5) = 0" using select_no_lost_wakeup [OF s(1,4)] by fastforce
  then show ?thesis using s(1,4) slot by blast
qed

end
