(* ===== verification/SemaRoot.thy ===== *)
theory SemaRoot
  imports GoPrelude "HOL-Library.Tree"
begin

text \<open>
  The tree of waiters of \<open>runtime/sema.go\<close>: a \<open>semaRoot\<close> finds the goroutines that are blocked on an address in a
  treap of sudogs with distinct addresses, ordered by address and heap-ordered by random tickets; each heads a list
  of the other sudogs that wait on its address. The sudogs are a store of records linked by pointers, 0 being nil.
  The representation of a tree with a hole is that of a path of frames, so that a rotation anywhere in the treap is
  one lemma.
\<close>

section \<open>The code\<close>

record sem_sudog =
  s_g :: nat
  s_elem :: nat
  s_prev :: nat
  s_next :: nat
  s_parent :: nat
  s_ticket :: u32
  s_waitlink :: nat
  s_waittail :: nat

text \<open>
  A root with the store that its pointers go to. Its lock is held during the operations below, and its count of
  waiters \<open>nwait\<close> is kept by their callers, \<open>semacquire1\<close> and \<open>semrelease1\<close>.
\<close>

record semaRoot =
  treap :: nat
  mem :: "nat \<Rightarrow> sem_sudog"

datatype sema_panic = NilDereference | RotateThrow | QueuePanic

definition modify :: "nat \<Rightarrow> (sem_sudog \<Rightarrow> sem_sudog) \<Rightarrow> semaRoot \<Rightarrow> semaRoot" where
  "modify s f root = root\<lparr>mem := (mem root)(s := f (mem root s))\<rparr>"

text \<open>\<open>rotateLeft\<close> turns \<open>(x a (y b c))\<close> into \<open>(y (x a b) c)\<close>, and \<open>rotateRight\<close> is its inverse.\<close>

definition rotateLeft :: "nat \<Rightarrow> semaRoot \<Rightarrow> sema_panic + semaRoot" where
  "rotateLeft x root =
     (let p = s_parent (mem root x); y = s_next (mem root x) in
      if x = 0 \<or> y = 0 then Inl NilDereference
      else
        let b = s_prev (mem root y);
            root = modify y (s_prev_update (\<lambda>_. x)) root;
            root = modify x (s_parent_update (\<lambda>_. y)) root;
            root = modify x (s_next_update (\<lambda>_. b)) root;
            root = (if b \<noteq> 0 then modify b (s_parent_update (\<lambda>_. x)) root else root);
            root = modify y (s_parent_update (\<lambda>_. p)) root
        in if p = 0 then Inr (root\<lparr>treap := y\<rparr>)
           else if s_prev (mem root p) = x then Inr (modify p (s_prev_update (\<lambda>_. y)) root)
           else if s_next (mem root p) \<noteq> x then Inl RotateThrow
           else Inr (modify p (s_next_update (\<lambda>_. y)) root))"

definition rotateRight :: "nat \<Rightarrow> semaRoot \<Rightarrow> sema_panic + semaRoot" where
  "rotateRight y root =
     (let p = s_parent (mem root y); x = s_prev (mem root y) in
      if y = 0 \<or> x = 0 then Inl NilDereference
      else
        let b = s_next (mem root x);
            root = modify x (s_next_update (\<lambda>_. y)) root;
            root = modify y (s_parent_update (\<lambda>_. x)) root;
            root = modify y (s_prev_update (\<lambda>_. b)) root;
            root = (if b \<noteq> 0 then modify b (s_parent_update (\<lambda>_. y)) root else root);
            root = modify x (s_parent_update (\<lambda>_. p)) root
        in if p = 0 then Inr (root\<lparr>treap := x\<rparr>)
           else if s_prev (mem root p) = y then Inr (modify p (s_prev_update (\<lambda>_. x)) root)
           else if s_next (mem root p) \<noteq> y then Inl RotateThrow
           else Inr (modify p (s_next_update (\<lambda>_. x)) root))"

text \<open>A \<open>**sudog\<close> points to the root of the treap or to a link of a sudog.\<close>

datatype link = AtRoot | AtPrev nat | AtNext nat

fun load_link :: "link \<Rightarrow> semaRoot \<Rightarrow> nat" where
  "load_link AtRoot root = treap root"
| "load_link (AtPrev s) root = s_prev (mem root s)"
| "load_link (AtNext s) root = s_next (mem root s)"

fun store_link :: "link \<Rightarrow> nat \<Rightarrow> semaRoot \<Rightarrow> semaRoot" where
  "store_link AtRoot v root = root\<lparr>treap := v\<rparr>"
| "store_link (AtPrev s) v root = modify s (s_prev_update (\<lambda>_. v)) root"
| "store_link (AtNext s) v root = modify s (s_next_update (\<lambda>_. v)) root"

text \<open>
  The search for \<open>addr\<close>: the link where it ended, the sudog there (0 when \<open>addr\<close> is not in the tree), and the last
  one before. \<open>None\<close>, here and in the loops below, means that the loop does not end.
\<close>

partial_function (option) find_addr :: "nat \<Rightarrow> link \<Rightarrow> nat \<Rightarrow> semaRoot \<Rightarrow> (link \<times> nat \<times> nat) option" where
  "find_addr addr pt lst root =
     (let t = load_link pt root in
      if t = 0 then Some (pt, 0, lst)
      else if s_elem (mem root t) = addr then Some (pt, t, lst)
      else find_addr addr (if addr < s_elem (mem root t) then AtPrev t else AtNext t) t root)"

text \<open>The loop of \<open>queue\<close> that rotates \<open>s\<close> up into the tree, and that of \<open>dequeue\<close> that rotates it down.\<close>

partial_function (option) rotate_up :: "nat \<Rightarrow> semaRoot \<Rightarrow> (sema_panic + semaRoot) option" where
  "rotate_up s root =
     (let p = s_parent (mem root s) in
      if p \<noteq> 0 \<and> s_ticket (mem root p) > s_ticket (mem root s) then
        (case (if s_prev (mem root p) = s then rotateRight p root
               else if s_next (mem root p) \<noteq> s then Inl QueuePanic
               else rotateLeft p root) of
           Inl e \<Rightarrow> Some (Inl e)
         | Inr root \<Rightarrow> rotate_up s root)
      else Some (Inr root))"

partial_function (option) rotate_down :: "nat \<Rightarrow> semaRoot \<Rightarrow> (sema_panic + semaRoot) option" where
  "rotate_down s root =
     (let prev = s_prev (mem root s); nxt = s_next (mem root s) in
      if nxt \<noteq> 0 \<or> prev \<noteq> 0 then
        (case (if nxt = 0 \<or> prev \<noteq> 0 \<and> s_ticket (mem root prev) < s_ticket (mem root nxt)
               then rotateRight s root else rotateLeft s root) of
           Inl e \<Rightarrow> Some (Inl e)
         | Inr root \<Rightarrow> rotate_down s root)
      else Some (Inr root))"

text \<open>\<open>tick\<close> is what \<open>fastrand\<close> returns. The profiling times \<open>acquiretime\<close> and \<open>now\<close> are 0 when profiling is off.\<close>

definition queue_front :: "link \<Rightarrow> nat \<Rightarrow> nat \<Rightarrow> semaRoot \<Rightarrow> semaRoot" where
  "queue_front pt t s root =
     (let root = store_link pt s root;
          old = mem root t;
          root = modify s (s_ticket_update (\<lambda>_. s_ticket old) \<circ> s_parent_update (\<lambda>_. s_parent old)
                   \<circ> s_prev_update (\<lambda>_. s_prev old) \<circ> s_next_update (\<lambda>_. s_next old)) root;
          root = (if s_prev old \<noteq> 0 then modify (s_prev old) (s_parent_update (\<lambda>_. s)) root else root);
          root = (if s_next old \<noteq> 0 then modify (s_next old) (s_parent_update (\<lambda>_. s)) root else root);
          root = modify s (s_waitlink_update (\<lambda>_. t)
                   \<circ> s_waittail_update (\<lambda>_. if s_waittail old = 0 then t else s_waittail old)) root
      in modify t (s_parent_update (\<lambda>_. 0) \<circ> s_prev_update (\<lambda>_. 0) \<circ> s_next_update (\<lambda>_. 0)
           \<circ> s_waittail_update (\<lambda>_. 0)) root)"

definition queue_back :: "nat \<Rightarrow> nat \<Rightarrow> semaRoot \<Rightarrow> semaRoot" where
  "queue_back t s root =
     (let tail = s_waittail (mem root t);
          root = modify (if tail = 0 then t else tail) (s_waitlink_update (\<lambda>_. s)) root;
          root = modify t (s_waittail_update (\<lambda>_. s)) root
      in modify s (s_waitlink_update (\<lambda>_. 0)) root)"

definition sema_queue :: "nat \<Rightarrow> nat \<Rightarrow> nat \<Rightarrow> bool \<Rightarrow> u32 \<Rightarrow> semaRoot \<Rightarrow> (sema_panic + semaRoot) option" where
  "sema_queue gp addr s lifo tick root =
     (let root = modify s (s_next_update (\<lambda>_. 0) \<circ> s_prev_update (\<lambda>_. 0) \<circ> s_elem_update (\<lambda>_. addr) \<circ> s_g_update (\<lambda>_. gp)) root in
      case find_addr addr AtRoot 0 root of
        None \<Rightarrow> None
      | Some (pt, t, lst) \<Rightarrow>
          if t \<noteq> 0 then Some (Inr (if lifo then queue_front pt t s root else queue_back t s root))
          else
            let root = modify s (s_ticket_update (\<lambda>_. tick OR 1) \<circ> s_parent_update (\<lambda>_. lst)) root
            in rotate_up s (store_link pt s root))"

definition clear_sudog :: "sem_sudog \<Rightarrow> sem_sudog" where
  "clear_sudog = s_parent_update (\<lambda>_. 0) \<circ> s_elem_update (\<lambda>_. 0) \<circ> s_next_update (\<lambda>_. 0) \<circ> s_prev_update (\<lambda>_. 0)
     \<circ> s_ticket_update (\<lambda>_. 0)"

definition dequeue_front :: "link \<Rightarrow> nat \<Rightarrow> nat \<Rightarrow> semaRoot \<Rightarrow> semaRoot" where
  "dequeue_front ps s t root =
     (let root = store_link ps t root;
          old = mem root s;
          root = modify t (s_ticket_update (\<lambda>_. s_ticket old) \<circ> s_parent_update (\<lambda>_. s_parent old)
                   \<circ> s_prev_update (\<lambda>_. s_prev old)) root;
          root = (if s_prev old \<noteq> 0 then modify (s_prev old) (s_parent_update (\<lambda>_. t)) root else root);
          root = modify t (s_next_update (\<lambda>_. s_next old)) root;
          root = (if s_next old \<noteq> 0 then modify (s_next old) (s_parent_update (\<lambda>_. t)) root else root);
          root = modify t (s_waittail_update (\<lambda>_. if s_waitlink (mem root t) \<noteq> 0 then s_waittail old else 0)) root
      in modify s (s_waitlink_update (\<lambda>_. 0) \<circ> s_waittail_update (\<lambda>_. 0)) root)"

definition cut_leaf :: "nat \<Rightarrow> semaRoot \<Rightarrow> semaRoot" where
  "cut_leaf s root =
     (let p = s_parent (mem root s) in
      if p \<noteq> 0 then
        if s_prev (mem root p) = s then modify p (s_prev_update (\<lambda>_. 0)) root
        else modify p (s_next_update (\<lambda>_. 0)) root
      else root\<lparr>treap := 0\<rparr>)"

definition sema_dequeue :: "nat \<Rightarrow> semaRoot \<Rightarrow> (sema_panic + nat \<times> semaRoot) option" where
  "sema_dequeue addr root =
     (case find_addr addr AtRoot 0 root of
        None \<Rightarrow> None
      | Some (ps, s, _) \<Rightarrow>
          if s = 0 then Some (Inr (0, root))
          else
            let t = s_waitlink (mem root s) in
            if t \<noteq> 0 then Some (Inr (s, modify s clear_sudog (dequeue_front ps s t root)))
            else
              (case rotate_down s root of
                 None \<Rightarrow> None
               | Some (Inl e) \<Rightarrow> Some (Inl e)
               | Some (Inr root) \<Rightarrow> Some (Inr (s, modify s clear_sudog (cut_leaf s root)))))"

section \<open>Trees in the store\<close>

fun rt :: "nat tree \<Rightarrow> nat" where
  "rt Leaf = 0"
| "rt (Node l s r) = s"

fun tree_at :: "(nat \<Rightarrow> sem_sudog) \<Rightarrow> nat \<Rightarrow> nat tree \<Rightarrow> bool" where
  "tree_at m p Leaf = True"
| "tree_at m p (Node l s r) \<longleftrightarrow>
     s_prev (m s) = rt l \<and> s_next (m s) = rt r \<and> s_parent (m s) = p \<and> tree_at m s l \<and> tree_at m s r"

text \<open>A frame: whether the hole is the left child, the sudog, and its other child.\<close>

type_synonym frames = "(bool \<times> nat \<times> nat tree) list"

fun plug :: "frames \<Rightarrow> nat tree \<Rightarrow> nat tree" where
  "plug [] t = t"
| "plug ((d, s, other) # cs) t = plug cs (if d then Node t s other else Node other s t)"

fun holder :: "frames \<Rightarrow> nat" where
  "holder [] = 0"
| "holder ((d, s, other) # cs) = s"

fun frames_at :: "(nat \<Rightarrow> sem_sudog) \<Rightarrow> nat \<Rightarrow> frames \<Rightarrow> bool" where
  "frames_at m x [] = True"
| "frames_at m x ((d, s, other) # cs) \<longleftrightarrow>
     (if d then s_prev (m s) = x \<and> s_next (m s) = rt other else s_next (m s) = x \<and> s_prev (m s) = rt other)
     \<and> s_parent (m s) = holder cs \<and> tree_at m s other \<and> frames_at m s cs"

fun rt_frames :: "nat \<Rightarrow> frames \<Rightarrow> nat" where
  "rt_frames x [] = x"
| "rt_frames x ((d, s, other) # cs) = rt_frames s cs"

fun sudogs :: "frames \<Rightarrow> nat set" where
  "sudogs [] = {}"
| "sudogs ((d, s, other) # cs) = insert s (set_tree other \<union> sudogs cs)"

text \<open>The treap of a root is \<open>t\<close>.\<close>

definition treap_is :: "semaRoot \<Rightarrow> nat tree \<Rightarrow> bool" where
  "treap_is root t \<longleftrightarrow> treap root = rt t \<and> tree_at (mem root) 0 t \<and> distinct (inorder t) \<and> 0 \<notin> set_tree t"

lemma rt_plug: "rt (plug cs t) = rt_frames (rt t) cs"
  by (induction cs t rule: plug.induct) auto

lemma rt_frames_top: "cs \<noteq> [] \<Longrightarrow> rt_frames x cs = rt_frames y cs"
  by (cases cs) auto

lemma tree_at_plug: "tree_at m 0 (plug cs t) \<longleftrightarrow> tree_at m (holder cs) t \<and> frames_at m (rt t) cs"
  by (induction cs t rule: plug.induct) auto

lemma set_plug: "set_tree (plug cs t) = set_tree t \<union> sudogs cs"
  by (induction cs t rule: plug.induct) auto

text \<open>What comes before and after the hole.\<close>

fun before :: "frames \<Rightarrow> nat list" where
  "before [] = []"
| "before ((d, s, other) # cs) = before cs @ (if d then [] else inorder other @ [s])"

fun after :: "frames \<Rightarrow> nat list" where
  "after [] = []"
| "after ((d, s, other) # cs) = (if d then s # inorder other else []) @ after cs"

lemma inorder_plug: "inorder (plug cs t) = before cs @ inorder t @ after cs"
  by (induction cs t rule: plug.induct) auto

lemma sudogs_around: "set (before cs) \<union> set (after cs) = sudogs cs"
  by (induction cs rule: sudogs.induct) auto

lemma distinct_plug: "distinct (inorder (plug cs t)) \<longleftrightarrow>
    distinct (before cs @ after cs) \<and> distinct (inorder t) \<and> set_tree t \<inter> sudogs cs = {}"
  unfolding inorder_plug by (auto simp: sudogs_around [symmetric])

lemma rt_in: "rt t \<noteq> 0 \<Longrightarrow> rt t \<in> set_tree t"
  by (cases t) auto

lemma rt_0: "0 \<notin> set_tree t \<Longrightarrow> rt t = 0 \<longleftrightarrow> t = Leaf"
  by (cases t) auto

lemma holder_in: "cs \<noteq> [] \<Longrightarrow> holder cs \<in> sudogs cs"
  by (cases cs rule: holder.cases) auto

text \<open>A tree depends only on its own sudogs, and only on their links.\<close>

definition same_links :: "nat set \<Rightarrow> (nat \<Rightarrow> sem_sudog) \<Rightarrow> (nat \<Rightarrow> sem_sudog) \<Rightarrow> bool" where
  "same_links A m m' \<longleftrightarrow> (\<forall>s \<in> A. s_prev (m' s) = s_prev (m s) \<and> s_next (m' s) = s_next (m s) \<and> s_parent (m' s) = s_parent (m s))"

lemma tree_at_cong: "same_links (set_tree t) m m' \<Longrightarrow> tree_at m' p t = tree_at m p t"
  by (induction t arbitrary: p) (auto simp: same_links_def)

lemma frames_at_cong: "same_links (sudogs cs) m m' \<Longrightarrow> frames_at m' x cs = frames_at m x cs"
proof (induction cs arbitrary: x rule: sudogs.induct)
  case (2 d s other cs)
  then have "frames_at m' s cs = frames_at m s cs" "tree_at m' s other = tree_at m s other"
    by (auto intro!: tree_at_cong simp: same_links_def)
  then show ?case using 2 by (simp add: same_links_def)
qed simp

lemma tree_at_other [simp]: "s \<notin> set_tree t \<Longrightarrow> tree_at (m(s := v)) p t = tree_at m p t"
  by (rule tree_at_cong) (auto simp: same_links_def)

lemma frames_at_other [simp]: "s \<notin> sudogs cs \<Longrightarrow> frames_at (m(s := v)) x cs = frames_at m x cs"
  by (rule frames_at_cong) (auto simp: same_links_def)

lemma tree_at_reparent:
  assumes "tree_at m p t" "distinct (inorder t)"
  shows "tree_at (m(rt t := s_parent_update (\<lambda>_. q) (m (rt t)))) q t"
proof (cases t)
  case (Node l s r)
  then show ?thesis using assms by auto
qed simp

text \<open>What a rotation, or any other change of links, keeps.\<close>

definition same_data :: "semaRoot \<Rightarrow> semaRoot \<Rightarrow> bool" where
  "same_data root root' \<longleftrightarrow> (\<forall>s. s_g (mem root' s) = s_g (mem root s) \<and> s_elem (mem root' s) = s_elem (mem root s)
     \<and> s_ticket (mem root' s) = s_ticket (mem root s) \<and> s_waitlink (mem root' s) = s_waitlink (mem root s)
     \<and> s_waittail (mem root' s) = s_waittail (mem root s))"

lemma same_data_refl [simp]: "same_data root root"
  by (simp add: same_data_def)

lemma same_data_trans: "same_data r1 r2 \<Longrightarrow> same_data r2 r3 \<Longrightarrow> same_data r1 r3"
  by (simp add: same_data_def)

text \<open>The frame that holds the hole gets a new child.\<close>

lemma frames_at_child:
  assumes "frames_at m x cs" "cs \<noteq> []" "distinct (before cs @ after cs)" "x \<noteq> y"
    "x \<noteq> 0" "x \<notin> sudogs cs"
  shows "frames_at (m(holder cs := (if s_prev (m (holder cs)) = x then s_prev_update (\<lambda>_. y) (m (holder cs))
      else s_next_update (\<lambda>_. y) (m (holder cs))))) y cs"
    and "s_prev (m (holder cs)) \<noteq> x \<Longrightarrow> s_next (m (holder cs)) = x"
proof -
  obtain d s other cs' where cs: "cs = (d, s, other) # cs'" using assms(2) by (metis list.exhaust prod_cases3)
  have "s \<notin> set_tree other" "s \<notin> sudogs cs'" using assms(3) by (auto simp: cs sudogs_around [symmetric] split: if_splits)
  moreover have "rt other \<noteq> x" using assms(5,6) rt_in [of other] by (auto simp: cs)
  ultimately show "frames_at (m(holder cs := (if s_prev (m (holder cs)) = x then s_prev_update (\<lambda>_. y) (m (holder cs))
      else s_next_update (\<lambda>_. y) (m (holder cs))))) y cs"
    "s_prev (m (holder cs)) \<noteq> x \<Longrightarrow> s_next (m (holder cs)) = x"
    using assms(1) by (auto simp: cs split: if_splits)
qed

definition reparent :: "nat tree \<Rightarrow> nat \<Rightarrow> (nat \<Rightarrow> sem_sudog) \<Rightarrow> nat \<Rightarrow> sem_sudog" where
  "reparent t q m = (if rt t \<noteq> 0 then m(rt t := s_parent_update (\<lambda>_. q) (m (rt t))) else m)"

text \<open>The last step of a rotation hangs the new top \<open>y\<close> of the subtree where \<open>x\<close> was.\<close>

definition hang :: "nat \<Rightarrow> nat \<Rightarrow> nat \<Rightarrow> semaRoot \<Rightarrow> sema_panic + semaRoot" where
  "hang p x y root =
     (if p = 0 then Inr (root\<lparr>treap := y\<rparr>)
      else if s_prev (mem root p) = x then Inr (modify p (s_prev_update (\<lambda>_. y)) root)
      else if s_next (mem root p) \<noteq> x then Inl RotateThrow
      else Inr (modify p (s_next_update (\<lambda>_. y)) root))"

lemma modify_modify: "modify s f (modify s g root) = modify s (f \<circ> g) root"
  by (simp add: modify_def)

lemma rotateLeft_hang:
  "rotateLeft x root =
     (let p = s_parent (mem root x); y = s_next (mem root x) in
      if x = 0 \<or> y = 0 then Inl NilDereference
      else
        let b = s_prev (mem root y);
            root = modify x (s_next_update (\<lambda>_. b) \<circ> s_parent_update (\<lambda>_. y)) (modify y (s_prev_update (\<lambda>_. x)) root);
            root = (if b \<noteq> 0 then modify b (s_parent_update (\<lambda>_. x)) root else root)
        in hang p x y (modify y (s_parent_update (\<lambda>_. p)) root))"
  unfolding rotateLeft_def hang_def Let_def modify_modify by (rule refl)

lemma rotateRight_hang:
  "rotateRight y root =
     (let p = s_parent (mem root y); x = s_prev (mem root y) in
      if y = 0 \<or> x = 0 then Inl NilDereference
      else
        let b = s_next (mem root x);
            root = modify y (s_prev_update (\<lambda>_. b) \<circ> s_parent_update (\<lambda>_. x)) (modify x (s_next_update (\<lambda>_. y)) root);
            root = (if b \<noteq> 0 then modify b (s_parent_update (\<lambda>_. y)) root else root)
        in hang p y x (modify x (s_parent_update (\<lambda>_. p)) root))"
  unfolding rotateRight_def hang_def Let_def modify_modify by (rule refl)

lemma hang_spec:
  assumes "frames_at (mem root) x cs" "tree_at (mem root) (holder cs) t" "cs \<noteq> [] \<Longrightarrow> treap root = rt_frames x cs"
    and "distinct (inorder (plug cs t))" "0 \<notin> set_tree (plug cs t)" "x \<in> set_tree t" "t \<noteq> Leaf" "x \<noteq> rt t"
  shows "\<exists>root'. hang (holder cs) x (rt t) root = Inr root' \<and> treap_is root' (plug cs t) \<and> same_data root root'"
proof (cases "cs = []")
  case True
  then show ?thesis
    using assms by (auto simp: hang_def treap_is_def same_data_def)
next
  case False
  have d: "distinct (before cs @ after cs)" "set_tree t \<inter> sudogs cs = {}"
    using assms(4) unfolding distinct_plug by auto
  have x: "x \<noteq> 0" "x \<notin> sudogs cs" using assms(5,6) d by (auto simp: set_plug)
  have p: "holder cs \<noteq> 0" "holder cs \<in> sudogs cs"
    using holder_in [OF False] assms(5) by (auto simp: set_plug intro!: gr0I)
  note child = frames_at_child [OF assms(1) False d(1) assms(8) x]
  have "holder cs \<notin> set_tree t" using d p by blast
  then have "tree_at ((mem root)(holder cs := v)) (holder cs) t" for v using assms(2) by simp
  then show ?thesis
    using child p assms(3) [OF False] rt_frames_top [OF False, of x "rt t"] assms(4,5)
    by (auto simp: hang_def treap_is_def modify_def same_data_def tree_at_plug rt_plug)
qed

lemma tree_at_rotated:
  assumes "tree_at m p (Node a x (Node b y c))" "distinct (inorder (Node a x (Node b y c)))" "0 \<notin> set_tree (Node a x (Node b y c))"
  defines "m' \<equiv> (m(y := s_prev_update (\<lambda>_. x) (m y)))(x := s_next_update (\<lambda>_. rt b) (s_parent_update (\<lambda>_. y) (m x)))"
  shows "tree_at ((reparent b x m')(y := s_parent_update (\<lambda>_. q) (reparent b x m' y))) q (Node (Node a x b) y c)"
proof (cases b)
  case Leaf
  then show ?thesis using assms(1,2) by (auto simp: m'_def reparent_def)
next
  case (Node b1 w b2)
  then have "w \<noteq> 0" using assms(3) by simp
  then show ?thesis using assms(1,2) by (auto simp: Node m'_def reparent_def)
qed

lemma rotateLeft_spec:
  assumes "treap_is root (plug cs (Node a x (Node b y c)))"
  shows "\<exists>root'. rotateLeft x root = Inr root' \<and> treap_is root' (plug cs (Node (Node a x b) y c)) \<and> same_data root root'"
proof -
  let ?t = "Node a x (Node b y c)" and ?t' = "Node (Node a x b) y c" and ?m = "mem root"
  have t: "tree_at ?m (holder cs) ?t" "frames_at ?m x cs" "distinct (inorder ?t)" "set_tree ?t \<inter> sudogs cs = {}"
      "0 \<notin> set_tree ?t" "0 \<notin> sudogs cs" "distinct (inorder (plug cs ?t'))"
    using assms unfolding treap_is_def tree_at_plug distinct_plug set_plug by (auto simp: inorder_plug)
  define m' where "m' = (?m(y := s_prev_update (\<lambda>_. x) (?m y)))(x := s_next_update (\<lambda>_. rt b) (s_parent_update (\<lambda>_. y) (?m x)))"
  define m2 where "m2 = (reparent b x m')(y := s_parent_update (\<lambda>_. holder cs) (reparent b x m' y))"
  have tree: "tree_at m2 (holder cs) ?t'"
    unfolding m2_def m'_def by (rule tree_at_rotated [OF t(1,3,5)])
  have frames: "frames_at m2 x cs"
  proof -
    have "rt b \<noteq> 0 \<Longrightarrow> rt b \<notin> sudogs cs" using t(4) rt_in [of b] by auto
    then show ?thesis using t(2,4) by (simp add: m2_def m'_def reparent_def)
  qed
  have run: "rotateLeft x root = hang (holder cs) x y (root\<lparr>mem := m2\<rparr>)"
    using t(1,3,5) by (simp add: rotateLeft_hang m2_def m'_def reparent_def modify_def Let_def)
  have data: "same_data root (root\<lparr>mem := m2\<rparr>)" by (simp add: same_data_def m2_def m'_def reparent_def)
  have "\<exists>root'. hang (holder cs) x (rt ?t') (root\<lparr>mem := m2\<rparr>) = Inr root' \<and> treap_is root' (plug cs ?t')
      \<and> same_data (root\<lparr>mem := m2\<rparr>) root'"
  proof (rule hang_spec [OF _ _ _ t(7)])
    show "frames_at (mem (root\<lparr>mem := m2\<rparr>)) x cs" "tree_at (mem (root\<lparr>mem := m2\<rparr>)) (holder cs) ?t'"
      using frames tree by simp_all
    show "treap (root\<lparr>mem := m2\<rparr>) = rt_frames x cs" using assms by (simp add: treap_is_def rt_plug)
    show "0 \<notin> set_tree (plug cs ?t')" using t(5,6) by (simp add: set_plug)
  qed (use t(3) in auto)
  then show ?thesis using data same_data_trans by (auto simp: run)
qed

lemma tree_at_rotated_right:
  assumes "tree_at m p (Node (Node a x b) y c)" "distinct (inorder (Node (Node a x b) y c))" "0 \<notin> set_tree (Node (Node a x b) y c)"
  defines "m' \<equiv> (m(x := s_next_update (\<lambda>_. y) (m x)))(y := s_prev_update (\<lambda>_. rt b) (s_parent_update (\<lambda>_. x) (m y)))"
  shows "tree_at ((reparent b y m')(x := s_parent_update (\<lambda>_. q) (reparent b y m' x))) q (Node a x (Node b y c))"
proof (cases b)
  case Leaf
  then show ?thesis using assms(1,2) by (auto simp: m'_def reparent_def)
next
  case (Node b1 w b2)
  then have "w \<noteq> 0" using assms(3) by simp
  then show ?thesis using assms(1,2) by (auto simp: Node m'_def reparent_def)
qed

lemma rotateRight_spec:
  assumes "treap_is root (plug cs (Node (Node a x b) y c))"
  shows "\<exists>root'. rotateRight y root = Inr root' \<and> treap_is root' (plug cs (Node a x (Node b y c))) \<and> same_data root root'"
proof -
  let ?t = "Node (Node a x b) y c" and ?t' = "Node a x (Node b y c)" and ?m = "mem root"
  have t: "tree_at ?m (holder cs) ?t" "frames_at ?m y cs" "distinct (inorder ?t)" "set_tree ?t \<inter> sudogs cs = {}"
      "0 \<notin> set_tree ?t" "0 \<notin> sudogs cs" "distinct (inorder (plug cs ?t'))"
    using assms unfolding treap_is_def tree_at_plug distinct_plug set_plug by (auto simp: inorder_plug)
  define m' where "m' = (?m(x := s_next_update (\<lambda>_. y) (?m x)))(y := s_prev_update (\<lambda>_. rt b) (s_parent_update (\<lambda>_. x) (?m y)))"
  define m2 where "m2 = (reparent b y m')(x := s_parent_update (\<lambda>_. holder cs) (reparent b y m' x))"
  have tree: "tree_at m2 (holder cs) ?t'"
    unfolding m2_def m'_def by (rule tree_at_rotated_right [OF t(1,3,5)])
  have frames: "frames_at m2 y cs"
  proof -
    have "rt b \<noteq> 0 \<Longrightarrow> rt b \<notin> sudogs cs" using t(4) rt_in [of b] by auto
    then show ?thesis using t(2,4) by (simp add: m2_def m'_def reparent_def)
  qed
  have run: "rotateRight y root = hang (holder cs) y x (root\<lparr>mem := m2\<rparr>)"
    using t(1,3,5) by (simp add: rotateRight_hang m2_def m'_def reparent_def modify_def Let_def)
  have data: "same_data root (root\<lparr>mem := m2\<rparr>)" by (simp add: same_data_def m2_def m'_def reparent_def)
  have "\<exists>root'. hang (holder cs) y (rt ?t') (root\<lparr>mem := m2\<rparr>) = Inr root' \<and> treap_is root' (plug cs ?t')
      \<and> same_data (root\<lparr>mem := m2\<rparr>) root'"
  proof (rule hang_spec [OF _ _ _ t(7)])
    show "frames_at (mem (root\<lparr>mem := m2\<rparr>)) y cs" "tree_at (mem (root\<lparr>mem := m2\<rparr>)) (holder cs) ?t'"
      using frames tree by simp_all
    show "treap (root\<lparr>mem := m2\<rparr>) = rt_frames y cs" using assms by (simp add: treap_is_def rt_plug)
    show "0 \<notin> set_tree (plug cs ?t')" using t(5,6) by (simp add: set_plug)
  qed (use t(3) in auto)
  then show ?thesis using data same_data_trans by (auto simp: run)
qed

section \<open>Heap order\<close>

text \<open>\<open>k\<close> gives the tickets: \<open>v\<close> is at most the ticket of the root of \<open>t\<close>.\<close>

definition tk_ge :: "(nat \<Rightarrow> u32) \<Rightarrow> u32 \<Rightarrow> nat tree \<Rightarrow> bool" where
  "tk_ge k v t \<longleftrightarrow> (case t of Leaf \<Rightarrow> True | Node l s r \<Rightarrow> v \<le> k s)"

lemma tk_ge_simps [simp]: "tk_ge k v Leaf" "tk_ge k v (Node l s r) \<longleftrightarrow> v \<le> k s"
  by (simp_all add: tk_ge_def)

lemma tk_ge_mono: "tk_ge k w t \<Longrightarrow> v \<le> w \<Longrightarrow> tk_ge k v t"
  by (cases t) auto

fun tk_heap :: "(nat \<Rightarrow> u32) \<Rightarrow> nat tree \<Rightarrow> bool" where
  "tk_heap k Leaf = True"
| "tk_heap k (Node l s r) \<longleftrightarrow> tk_ge k (k s) l \<and> tk_ge k (k s) r \<and> tk_heap k l \<and> tk_heap k r"

text \<open>The frames are in order, and \<open>v\<close> may be the ticket in the hole.\<close>

definition fr_le :: "(nat \<Rightarrow> u32) \<Rightarrow> frames \<Rightarrow> u32 \<Rightarrow> bool" where
  "fr_le k cs v \<longleftrightarrow> cs \<noteq> [] \<longrightarrow> k (holder cs) \<le> v"

definition fr_ge :: "(nat \<Rightarrow> u32) \<Rightarrow> frames \<Rightarrow> nat tree \<Rightarrow> bool" where
  "fr_ge k cs t \<longleftrightarrow> cs \<noteq> [] \<longrightarrow> tk_ge k (k (holder cs)) t"

fun fr_heap :: "(nat \<Rightarrow> u32) \<Rightarrow> frames \<Rightarrow> bool" where
  "fr_heap k [] = True"
| "fr_heap k ((d, s, other) # cs) \<longleftrightarrow> tk_ge k (k s) other \<and> tk_heap k other \<and> fr_le k cs (k s) \<and> fr_heap k cs"

lemma fr_simps [simp]: "fr_le k [] v" "fr_le k ((d, s, other) # cs) v \<longleftrightarrow> k s \<le> v"
    "fr_ge k [] t" "fr_ge k ((d, s, other) # cs) t \<longleftrightarrow> tk_ge k (k s) t"
    "fr_ge k cs Leaf" "fr_ge k cs (Node l s r) \<longleftrightarrow> fr_le k cs (k s)"
  by (auto simp: fr_le_def fr_ge_def)

lemma fr_ge_mono: "fr_le k cs v \<Longrightarrow> tk_ge k v t \<Longrightarrow> fr_ge k cs t"
  by (auto simp: fr_le_def fr_ge_def intro: tk_ge_mono)

lemma tk_heap_plug: "tk_heap k (plug cs t) \<longleftrightarrow> tk_heap k t \<and> fr_heap k cs \<and> fr_ge k cs t"
  by (induction cs t rule: plug.induct) auto

lemma fr_le_mono: "fr_le k cs v \<Longrightarrow> v \<le> w \<Longrightarrow> fr_le k cs w"
  by (auto simp: fr_le_def)

section \<open>The loops of rotations\<close>

lemma treap_is_plugD:
  assumes "treap_is root (plug cs t)"
  shows "tree_at (mem root) (holder cs) t" "frames_at (mem root) (rt t) cs" "distinct (inorder t)"
    "set_tree t \<inter> sudogs cs = {}" "0 \<notin> set_tree t" "0 \<notin> sudogs cs" "treap root = rt_frames (rt t) cs"
  using assms unfolding treap_is_def tree_at_plug distinct_plug set_plug by (auto simp: rt_plug)

lemma rotate_up_spec:
  assumes "treap_is root (plug cs (Node a s b))" "k = s_ticket \<circ> mem root"
    and "tk_heap k a" "tk_heap k b" "tk_ge k (k s) a" "tk_ge k (k s) b" "fr_ge k cs a" "fr_ge k cs b" "fr_heap k cs"
  shows "\<exists>root' t. rotate_up s root = Some (Inr root') \<and> treap_is root' t \<and> same_data root root'
    \<and> inorder t = inorder (plug cs (Node a s b)) \<and> tk_heap k t"
  using assms
proof (induction cs arbitrary: a b root)
  case Nil
  then have "s_parent (mem root s) = 0" by (simp add: treap_is_def)
  then have "rotate_up s root = Some (Inr root)" by (subst rotate_up.simps) (simp add: Let_def)
  then show ?case using Nil by (intro exI [of _ root] exI [of _ "Node a s b"]) simp
next
  case (Cons f cs)
  obtain d p other where f: "f = (d, p, other)" by (cases f)
  note at = treap_is_plugD [OF Cons.prems(1)]
  have p: "s_parent (mem root s) = p" "p \<noteq> 0" using at(1,6) by (auto simp: f)
  show ?case
  proof (cases "k p > k s")
    case False
    then have "rotate_up s root = Some (Inr root)"
      using p Cons.prems(2) by (subst rotate_up.simps) (simp add: Let_def)
    moreover have "tk_heap k (plug (f # cs) (Node a s b))"
      unfolding tk_heap_plug using Cons.prems False by (simp add: f)
    ultimately show ?thesis using Cons.prems(1) same_data_refl by blast
  next
    case True
    have same: "k = s_ticket \<circ> mem root'" if "same_data root root'" for root'
      using that Cons.prems(2) by (auto simp: same_data_def)
    have k: "tk_heap k other" "tk_ge k (k p) other" "fr_le k cs (k p)" "fr_heap k cs" "tk_ge k (k p) a" "tk_ge k (k p) b"
      using Cons.prems(7-9) by (simp_all add: f)
    show ?thesis
    proof (cases d)
      case d: True
      obtain r where r: "rotateRight p root = Inr r" "treap_is r (plug cs (Node a s (Node b p other)))" "same_data root r"
        using rotateRight_spec [of root cs a s b p other] Cons.prems(1) d by (auto simp: f)
      have "s_prev (mem root p) = s" using at(2) d by (simp add: f)
      then have "rotate_up s root = rotate_up s r"
        using p True r(1) Cons.prems(2) by (subst rotate_up.simps) (simp add: Let_def)
      moreover have "\<exists>root' t. rotate_up s r = Some (Inr root') \<and> treap_is root' t \<and> same_data r root'
          \<and> inorder t = inorder (plug cs (Node a s (Node b p other))) \<and> tk_heap k t"
        using Cons.IH [OF r(2) same [OF r(3)]] k True Cons.prems(3-5) fr_ge_mono [OF k(3)] by simp
      ultimately show ?thesis using same_data_trans [OF r(3)] d by (auto simp: f inorder_plug)
    next
      case d: False
      obtain r where r: "rotateLeft p root = Inr r" "treap_is r (plug cs (Node (Node other p a) s b))" "same_data root r"
        using rotateLeft_spec [of root cs other p a s b] Cons.prems(1) d by (auto simp: f)
      have "s_next (mem root p) = s" "s_prev (mem root p) = rt other" "rt other \<noteq> s"
        using at(2,4) d rt_in [of other] p at(5) by (auto simp: f)
      then have "rotate_up s root = rotate_up s r"
        using p True r(1) Cons.prems(2) by (subst rotate_up.simps) (simp add: Let_def)
      moreover have "\<exists>root' t. rotate_up s r = Some (Inr root') \<and> treap_is root' t \<and> same_data r root'
          \<and> inorder t = inorder (plug cs (Node (Node other p a) s b)) \<and> tk_heap k t"
        using Cons.IH [OF r(2) same [OF r(3)]] k True Cons.prems(3-6) fr_ge_mono [OF k(3)] by simp
      ultimately show ?thesis using same_data_trans [OF r(3)] d by (auto simp: f inorder_plug)
    qed
  qed
qed

lemma rotate_down_spec:
  assumes "treap_is root (plug cs (Node a s b))" "k = s_ticket \<circ> mem root"
    and "tk_heap k a" "tk_heap k b" "fr_ge k cs a" "fr_ge k cs b" "fr_heap k cs"
  shows "\<exists>root' cs'. rotate_down s root = Some (Inr root') \<and> treap_is root' (plug cs' (Node Leaf s Leaf)) \<and> same_data root root'
    \<and> inorder (plug cs' (Node Leaf s Leaf)) = inorder (plug cs (Node a s b)) \<and> fr_heap k cs'"
  using assms
proof (induction "size a + size b" arbitrary: a b cs root rule: less_induct)
  case less
  note at = treap_is_plugD [OF less.prems(1)]
  have links: "s_prev (mem root s) = rt a" "s_next (mem root s) = rt b" "rt a = 0 \<longleftrightarrow> a = Leaf" "rt b = 0 \<longleftrightarrow> b = Leaf"
    using at(1,5) rt_0 by auto
  have same: "k = s_ticket \<circ> mem root'" if "same_data root root'" for root'
    using that less.prems(2) by (auto simp: same_data_def)
  let ?right = "b = Leaf \<or> a \<noteq> Leaf \<and> k (rt a) < k (rt b)"
  have run: "rotate_down s root = (if a = Leaf \<and> b = Leaf then Some (Inr root)
      else case (if ?right then rotateRight s root else rotateLeft s root) of
        Inl e \<Rightarrow> Some (Inl e) | Inr root \<Rightarrow> rotate_down s root)"
    using links less.prems(2) by (subst rotate_down.simps) (simp add: Let_def)
  consider "a = Leaf" "b = Leaf" | "\<not> (a = Leaf \<and> b = Leaf)" "?right" | "\<not> (a = Leaf \<and> b = Leaf)" "\<not> ?right" by blast
  then show ?case
  proof cases
    case 1
    then show ?thesis using less.prems run by (intro exI [of _ root] exI [of _ cs]) simp
  next
    case 2
    then obtain a1 x a2 where a: "a = Node a1 x a2" by (cases a) auto
    obtain r where r: "rotateRight s root = Inr r" "treap_is r (plug ((False, x, a1) # cs) (Node a2 s b))" "same_data root r"
      using rotateRight_spec [of root cs a1 x a2 s b] less.prems(1) a by auto
    have "tk_ge k (k x) b" using 2 a by (cases b) auto
    then have "\<exists>root' cs'. rotate_down s r = Some (Inr root') \<and> treap_is root' (plug cs' (Node Leaf s Leaf)) \<and> same_data r root'
        \<and> inorder (plug cs' (Node Leaf s Leaf)) = inorder (plug ((False, x, a1) # cs) (Node a2 s b)) \<and> fr_heap k cs'"
      using less.hyps [OF _ r(2) same [OF r(3)]] less.prems(3-7) by (simp add: a)
    moreover have "rotate_down s root = rotate_down s r"
      unfolding run using 2 r(1) by auto
    ultimately show ?thesis using same_data_trans [OF r(3)] by (auto simp: inorder_plug a)
  next
    case 3
    then obtain b1 y b2 where b: "b = Node b1 y b2" by (cases b) auto
    obtain r where r: "rotateLeft s root = Inr r" "treap_is r (plug ((True, y, b2) # cs) (Node a s b1))" "same_data root r"
      using rotateLeft_spec [of root cs a s b1 y b2] less.prems(1) b by auto
    have "tk_ge k (k y) a" using 3 b by (cases a) auto
    then have "\<exists>root' cs'. rotate_down s r = Some (Inr root') \<and> treap_is root' (plug cs' (Node Leaf s Leaf)) \<and> same_data r root'
        \<and> inorder (plug cs' (Node Leaf s Leaf)) = inorder (plug ((True, y, b2) # cs) (Node a s b1)) \<and> fr_heap k cs'"
      using less.hyps [OF _ r(2) same [OF r(3)]] less.prems(3-7) by (simp add: b)
    moreover have "rotate_down s root = rotate_down s r"
      unfolding run using 3 r(1) by auto
    ultimately show ?thesis using same_data_trans [OF r(3)] by (auto simp: inorder_plug b)
  qed
qed

section \<open>The search\<close>

fun at_link :: "frames \<Rightarrow> link" where
  "at_link [] = AtRoot"
| "at_link ((d, s, other) # cs) = (if d then AtPrev s else AtNext s)"

lemma load_at_link: "frames_at (mem root) x cs \<Longrightarrow> treap root = rt_frames x cs \<Longrightarrow> load_link (at_link cs) root = x"
  by (cases cs rule: at_link.cases) auto

lemma find_addr_spec:
  assumes "treap_is root (plug cs t)" "e = s_elem \<circ> mem root" "sorted_wrt (<) (map e (inorder (plug cs t)))"
    and "\<forall>s \<in> set (before cs). e s < addr" "\<forall>s \<in> set (after cs). addr < e s"
  shows "\<exists>cs' t'. find_addr addr (at_link cs) (holder cs) root = Some (at_link cs', rt t', holder cs') \<and> plug cs' t' = plug cs t
    \<and> (t' \<noteq> Leaf \<longrightarrow> e (rt t') = addr)
    \<and> (\<forall>s \<in> set (before cs'). e s < addr) \<and> (\<forall>s \<in> set (after cs'). addr < e s)"
  using assms
proof (induction t arbitrary: cs)
  case Leaf
  then have "load_link (at_link cs) root = 0" using treap_is_plugD [OF Leaf(1)] load_at_link by fastforce
  then have "find_addr addr (at_link cs) (holder cs) root = Some (at_link cs, 0, holder cs)"
    by (subst find_addr.simps) simp
  then show ?case using Leaf by (intro exI [of _ cs] exI [of _ Leaf]) simp
next
  case (Node l s r)
  note at = treap_is_plugD [OF Node.prems(1)]
  have s: "load_link (at_link cs) root = s" "s \<noteq> 0" using at load_at_link by fastforce+
  have sorted: "\<forall>x \<in> set_tree l. e x < e s" "\<forall>x \<in> set_tree r. e s < e x"
    using Node.prems(3) unfolding inorder_plug by (auto simp: sorted_wrt_append)
  have run: "find_addr addr (at_link cs) (holder cs) root =
      (if e s = addr then Some (at_link cs, s, holder cs)
       else find_addr addr (if addr < e s then AtPrev s else AtNext s) s root)"
    using s Node.prems(2) by (subst find_addr.simps) (simp add: Let_def)
  consider "e s = addr" | "addr < e s" | "e s < addr" by linarith
  then show ?case
  proof cases
    case 1
    then show ?thesis using run Node.prems(4,5) by (intro exI [of _ cs] exI [of _ "Node l s r"]) simp
  next
    case 2
    then show ?thesis using Node.IH(1) [of "(True, s, r) # cs"] run Node.prems sorted by force
  next
    case 3
    then show ?thesis using Node.IH(2) [of "(False, s, l) # cs"] run Node.prems sorted by force
  qed
qed

section \<open>The queues of a root\<close>

text \<open>The sudogs behind \<open>s\<close> in its wait list; they all wait on address \<open>e\<close>.\<close>

fun chain :: "(nat \<Rightarrow> sem_sudog) \<Rightarrow> nat \<Rightarrow> nat \<Rightarrow> nat list \<Rightarrow> bool" where
  "chain m e s [] \<longleftrightarrow> s_waitlink (m s) = 0"
| "chain m e s (w # ws) \<longleftrightarrow> s_waitlink (m s) = w \<and> s_elem (m w) = e \<and> chain m e w ws"

definition waits_at :: "(nat \<Rightarrow> sem_sudog) \<Rightarrow> nat \<Rightarrow> nat list \<Rightarrow> bool" where
  "waits_at m s ws \<longleftrightarrow> s_waittail (m s) = (if ws = [] then 0 else last ws) \<and> chain m (s_elem (m s)) s ws"

definition all_of :: "(nat \<Rightarrow> nat list) \<Rightarrow> nat list \<Rightarrow> nat list" where
  "all_of ws xs = concat (map (\<lambda>s. s # ws s) xs)"

text \<open>The treap \<open>t\<close> with the wait lists \<open>ws\<close>.\<close>

definition sema_rep :: "semaRoot \<Rightarrow> nat tree \<Rightarrow> (nat \<Rightarrow> nat list) \<Rightarrow> bool" where
  "sema_rep root t ws \<longleftrightarrow> treap_is root t
     \<and> sorted_wrt (<) (map (s_elem \<circ> mem root) (inorder t)) \<and> tk_heap (s_ticket \<circ> mem root) t
     \<and> (\<forall>s \<in> set_tree t. waits_at (mem root) s (ws s))
     \<and> distinct (all_of ws (inorder t)) \<and> 0 \<notin> set (all_of ws (inorder t))"

text \<open>The goroutines' sudogs that wait on an address, in order.\<close>

definition queue_of :: "semaRoot \<Rightarrow> nat tree \<Rightarrow> (nat \<Rightarrow> nat list) \<Rightarrow> nat \<Rightarrow> nat list" where
  "queue_of root t ws addr =
     (case find (\<lambda>s. s_elem (mem root s) = addr) (inorder t) of None \<Rightarrow> [] | Some s \<Rightarrow> s # ws s)"

lemma all_of_simps [simp]: "all_of ws [] = []" "all_of ws (s # xs) = s # ws s @ all_of ws xs"
    "all_of ws (xs @ ys) = all_of ws xs @ all_of ws ys"
  by (simp_all add: all_of_def)

lemma all_of_in: "s \<in> set xs \<Longrightarrow> s \<in> set (all_of ws xs) \<and> set (ws s) \<subseteq> set (all_of ws xs)"
  by (auto simp: all_of_def)

lemma all_of_cong: "(\<And>s. s \<in> set xs \<Longrightarrow> ws' s = ws s) \<Longrightarrow> all_of ws' xs = all_of ws xs"
  by (induction xs) auto

lemma distinct_all_of: "distinct (all_of ws xs) \<Longrightarrow> distinct xs"
  by (induction xs) (auto dest: all_of_in)

lemma chain_cong:
  "\<forall>x \<in> set (s # ws). s_waitlink (m' x) = s_waitlink (m x) \<and> s_elem (m' x) = s_elem (m x) \<Longrightarrow> chain m' e s ws = chain m e s ws"
  by (induction ws arbitrary: s) auto

lemma waits_at_cong:
  "\<forall>x \<in> set (s # ws). s_waitlink (m' x) = s_waitlink (m x) \<and> s_elem (m' x) = s_elem (m x) \<Longrightarrow>
   s_waittail (m' s) = s_waittail (m s) \<Longrightarrow> waits_at m' s ws = waits_at m s ws"
  unfolding waits_at_def using chain_cong [of s ws m' m] by simp

lemma find_append: "find P (xs @ ys) = (case find P xs of None \<Rightarrow> find P ys | Some x \<Rightarrow> Some x)"
  by (induction xs) auto

lemma find_none: "(\<And>x. x \<in> set xs \<Longrightarrow> \<not> P x) \<Longrightarrow> find P xs = None"
  by (induction xs) auto

lemma find_cong_on: "(\<And>x. x \<in> set xs \<Longrightarrow> P x = Q x) \<Longrightarrow> find P xs = find Q xs"
  by (induction xs) auto

lemma tk_ge_cong: "(\<And>s. s \<in> set_tree t \<Longrightarrow> k' s = k s) \<Longrightarrow> tk_ge k' v t = tk_ge k v t"
  by (cases t) auto

lemma tk_heap_cong: "(\<And>s. s \<in> set_tree t \<Longrightarrow> k' s = k s) \<Longrightarrow> tk_heap k' t = tk_heap k t"
proof (induction t)
  case (Node l s r)
  have "tk_ge k' (k' s) l = tk_ge k (k s) l" "tk_ge k' (k' s) r = tk_ge k (k s) r"
    using Node.prems by (cases l; simp) (use Node.prems in \<open>cases r; simp\<close>)
  then show ?case using Node by simp
qed simp

text \<open>
  A change of the queue of one address: the sudog at \<open>addr\<close>, if there is one, is \<open>mid\<close> before and \<open>mid'\<close> after.
\<close>

lemma sema_change:
  assumes "sema_rep root t ws" "inorder t = xs @ mid @ ys" "inorder t' = xs @ mid' @ ys"
    and "treap_is root' t'" "tk_heap (s_ticket \<circ> mem root') t'" "length mid' \<le> 1"
    and "\<forall>x \<in> set xs. s_elem (mem root x) < addr" "\<forall>x \<in> set ys. addr < s_elem (mem root x)"
    and "\<forall>x \<in> set mid. s_elem (mem root x) = addr" "\<forall>x \<in> set mid'. s_elem (mem root' x) = addr \<and> waits_at (mem root') x (ws' x)"
    and "\<forall>x \<in> set (all_of ws (xs @ ys)). s_elem (mem root' x) = s_elem (mem root x)
          \<and> s_waitlink (mem root' x) = s_waitlink (mem root x) \<and> s_waittail (mem root' x) = s_waittail (mem root x)"
    and "\<forall>x \<in> set (xs @ ys). ws' x = ws x"
    and "distinct (all_of ws' mid')" "set (all_of ws' mid') \<inter> set (all_of ws (xs @ ys)) = {}" "0 \<notin> set (all_of ws' mid')"
  shows "sema_rep root' t' ws' \<and> queue_of root' t' ws' = (queue_of root t ws)(addr := all_of ws' mid')"
proof
  have rep: "treap_is root t" "sorted_wrt (<) (map (s_elem \<circ> mem root) (xs @ mid @ ys))"
      "\<forall>s \<in> set (xs @ mid @ ys). waits_at (mem root) s (ws s)" "distinct (all_of ws (xs @ mid @ ys))"
      "0 \<notin> set (all_of ws (xs @ mid @ ys))"
    using assms(1,2) unfolding sema_rep_def by (metis set_inorder)+
  have e: "\<forall>x \<in> set xs. s_elem (mem root' x) = s_elem (mem root x)" "\<forall>x \<in> set ys. s_elem (mem root' x) = s_elem (mem root x)"
    using assms(11) all_of_in [of _ "xs @ ys" ws] by auto
  have old: "sorted_wrt (<) (map (s_elem \<circ> mem root) xs)" "sorted_wrt (<) (map (s_elem \<circ> mem root) ys)"
    using rep(2) by (simp_all add: sorted_wrt_append)
  have "map (s_elem \<circ> mem root') xs = map (s_elem \<circ> mem root) xs" "map (s_elem \<circ> mem root') ys = map (s_elem \<circ> mem root) ys"
    using e by simp_all
  then have "sorted_wrt (<) (map (s_elem \<circ> mem root') xs)" "sorted_wrt (<) (map (s_elem \<circ> mem root') ys)"
    using old by metis+
  moreover have "sorted_wrt (<) (map (s_elem \<circ> mem root') mid')" using assms(6) by (cases mid') auto
  moreover have bounds: "\<forall>x \<in> set xs. s_elem (mem root' x) < addr" "\<forall>x \<in> set ys. addr < s_elem (mem root' x)"
      "\<forall>x \<in> set mid'. s_elem (mem root' x) = addr"
    using assms(7,8,10) e by auto
  moreover have "\<forall>x \<in> set xs. \<forall>y \<in> set ys. s_elem (mem root' x) < s_elem (mem root' y)"
    using bounds less_trans by blast
  ultimately have sorted: "sorted_wrt (<) (map (s_elem \<circ> mem root') (inorder t'))"
    by (auto simp: assms(3) sorted_wrt_append)
  have waits: "waits_at (mem root') x (ws' x)" if "x \<in> set (xs @ ys)" for x
  proof -
    have "waits_at (mem root') x (ws x) = waits_at (mem root) x (ws x)"
      using assms(11) all_of_in [OF that, of ws] by (intro waits_at_cong) auto
    then show ?thesis using rep(3) assms(12) that by auto
  qed
  have "all_of ws' (xs @ ys) = all_of ws (xs @ ys)" using assms(12) by (intro all_of_cong) auto
  then have split: "all_of ws' xs = all_of ws xs" "all_of ws' ys = all_of ws ys"
    using assms(12) all_of_cong [of xs ws' ws] all_of_cong [of ys ws' ws] by auto
  show "sema_rep root' t' ws'"
    unfolding sema_rep_def
  proof (intro conjI ballI)
    show "waits_at (mem root') s (ws' s)" if "s \<in> set_tree t'" for s
      using that waits assms(10) unfolding set_inorder [symmetric] assms(3) by auto
    show "distinct (all_of ws' (inorder t'))" "0 \<notin> set (all_of ws' (inorder t'))"
      using rep(4,5) assms(13-15) by (auto simp: assms(3) split)
  qed (use assms(4,5) sorted in auto)
  show "queue_of root' t' ws' = (queue_of root t ws)(addr := all_of ws' mid')"
  proof
    fix a
    let ?f = "find (\<lambda>s. s_elem (mem root s) = a)" and ?f' = "find (\<lambda>s. s_elem (mem root' s) = a)"
    have f: "?f' xs = ?f xs" "?f' ys = ?f ys" using e by (auto intro!: find_cong_on)
    have ws': "\<And>s. find P xs = Some s \<Longrightarrow> ws' s = ws s" "\<And>s. find P ys = Some s \<Longrightarrow> ws' s = ws s" for P
      using assms(12) by (auto simp: find_Some_iff)
    show "queue_of root' t' ws' a = ((queue_of root t ws)(addr := all_of ws' mid')) a"
    proof (cases "a = addr")
      case True
      have "?f xs = None" "?f ys = None" using assms(7,8) True by (auto intro!: find_none)
      then show ?thesis using True assms(6,10) f by (cases mid') (auto simp: queue_of_def assms(3) find_append)
    next
      case False
      then have "?f mid = None" "?f' mid' = None" using assms(9,10) by (auto intro!: find_none)
      then show ?thesis using False f ws' by (auto simp: queue_of_def assms(2,3) find_append split: option.splits)
    qed
  qed
qed

section \<open>Queueing and dequeueing\<close>

lemma store_link_frames:
  assumes "frames_at (mem root) x cs" "treap root = rt_frames x cs" "distinct (before cs @ after cs)"
  shows "frames_at (mem (store_link (at_link cs) y root)) y cs" "treap (store_link (at_link cs) y root) = rt_frames y cs"
    "\<And>s. s \<notin> sudogs cs \<Longrightarrow> mem (store_link (at_link cs) y root) s = mem root s" "same_data root (store_link (at_link cs) y root)"
proof -
  show "frames_at (mem (store_link (at_link cs) y root)) y cs"
  proof (cases cs rule: at_link.cases)
    case (2 d s other cs')
    then have "s \<notin> set_tree other" "s \<notin> sudogs cs'" using assms(3) by (auto simp: sudogs_around [symmetric] split: if_splits)
    then show ?thesis using assms(1) 2 by (auto simp: modify_def)
  qed simp
  show "treap (store_link (at_link cs) y root) = rt_frames y cs"
    using assms(2) by (cases cs rule: at_link.cases) (auto simp: modify_def)
  show "same_data root (store_link (at_link cs) y root)"
    by (cases cs rule: at_link.cases) (auto simp: modify_def same_data_def)
  show "mem (store_link (at_link cs) y root) s = mem root s" if "s \<notin> sudogs cs" for s
    using that by (cases cs rule: at_link.cases) (auto simp: modify_def)
qed

lemma tree_at_moved:
  assumes "tree_at m q t" "distinct (inorder t)"
    and "\<forall>x \<in> set_tree t. s_prev (m' x) = s_prev (m x) \<and> s_next (m' x) = s_next (m x)
           \<and> s_parent (m' x) = (if x = rt t then p else s_parent (m x))"
  shows "tree_at m' p t"
proof (cases t)
  case (Node l s r)
  have "s \<notin> set_tree l" "s \<notin> set_tree r" using assms(2) Node by auto
  then have "same_links (set_tree l) m m'" "same_links (set_tree r) m m'"
    using assms(3) by (auto simp: same_links_def Node)
  then have "tree_at m' s l = tree_at m s l" "tree_at m' s r = tree_at m s r" by (simp_all only: tree_at_cong)
  moreover have "s_prev (m' s) = s_prev (m s)" "s_next (m' s) = s_next (m s)" "s_parent (m' s) = p"
    using bspec [OF assms(3), of s] by (simp_all add: Node)
  ultimately show ?thesis using assms(1) Node by simp
qed simp

text \<open>\<open>s\<close> takes the place of the top of a subtree.\<close>

lemma tree_at_substitute:
  assumes "tree_at m q (Node l x r)" "distinct (inorder (Node l x r))" "0 \<notin> set_tree (Node l x r)"
    and "s_prev (m' s) = rt l" "s_next (m' s) = rt r" "s_parent (m' s) = p"
    and "\<forall>y \<in> set_tree l \<union> set_tree r. s_prev (m' y) = s_prev (m y) \<and> s_next (m' y) = s_next (m y)
           \<and> s_parent (m' y) = (if y = rt l \<or> y = rt r then s else s_parent (m y))"
  shows "tree_at m' p (Node l s r)"
proof -
  have "set_tree l \<inter> set_tree r = {}" "0 \<notin> set_tree l" "0 \<notin> set_tree r" using assms(2,3) by auto
  then have "rt r \<notin> set_tree l" "rt l \<notin> set_tree r" using rt_in [of r] rt_in [of l] by (metis disjoint_iff)+
  then have "tree_at m' s l" "tree_at m' s r"
    using assms(1,2,7) by (auto intro!: tree_at_moved [of m x l] tree_at_moved [of m x r])
  then show ?thesis using assms by simp
qed

text \<open>The search from the root, in terms of queues.\<close>

lemma sema_search:
  assumes "sema_rep root t ws"
  shows "\<exists>cs t'. t = plug cs t' \<and> find_addr addr AtRoot 0 root = Some (at_link cs, rt t', holder cs)
    \<and> (t' \<noteq> Leaf \<longrightarrow> s_elem (mem root (rt t')) = addr \<and> queue_of root t ws addr = rt t' # ws (rt t'))
    \<and> (t' = Leaf \<longrightarrow> queue_of root t ws addr = [])
    \<and> (\<forall>l s r. t' = Node l s r \<longrightarrow> (\<forall>x \<in> set (before cs @ inorder l). s_elem (mem root x) < addr)
         \<and> (\<forall>x \<in> set (inorder r @ after cs). addr < s_elem (mem root x)))
    \<and> (\<forall>x \<in> set (before cs). s_elem (mem root x) < addr) \<and> (\<forall>x \<in> set (after cs). addr < s_elem (mem root x))"
proof -
  have rep: "treap_is root (plug [] t)" "sorted_wrt (<) (map (s_elem \<circ> mem root) (inorder (plug [] t)))"
    using assms by (auto simp: sema_rep_def)
  obtain cs t' where cs: "find_addr addr AtRoot 0 root = Some (at_link cs, rt t', holder cs)" "plug cs t' = t"
      "t' \<noteq> Leaf \<longrightarrow> s_elem (mem root (rt t')) = addr"
      "\<forall>x \<in> set (before cs). s_elem (mem root x) < addr" "\<forall>x \<in> set (after cs). addr < s_elem (mem root x)"
    using find_addr_spec [OF rep(1) refl rep(2), of addr] by auto
  have inner: "(\<forall>x \<in> set (inorder l). s_elem (mem root x) < addr) \<and> (\<forall>x \<in> set (inorder r). addr < s_elem (mem root x))"
    if "t' = Node l s r" for l s r
    using rep(2) cs(2,3) that by (auto simp: inorder_plug sorted_wrt_append)
  have find: "find (\<lambda>s. s_elem (mem root s) = addr) (before cs) = None" "find (\<lambda>s. s_elem (mem root s) = addr) (after cs) = None"
    using cs(4,5) by (auto intro!: find_none)
  have "queue_of root t ws addr = rt t' # ws (rt t')" if "t' \<noteq> Leaf"
  proof -
    obtain l s r where t': "t' = Node l s r" using \<open>t' \<noteq> Leaf\<close> by (cases t') auto
    have "find (\<lambda>s. s_elem (mem root s) = addr) (inorder l) = None" using inner [OF t'] by (auto intro!: find_none)
    then show ?thesis using find cs(3) by (simp add: queue_of_def cs(2) [symmetric] inorder_plug find_append t')
  qed
  moreover have "queue_of root t ws addr = []" if "t' = Leaf"
    using find that by (simp add: queue_of_def cs(2) [symmetric] inorder_plug find_append)
  ultimately show ?thesis
    using cs(1,3-5) inner by (intro exI [of _ cs] exI [of _ t']) (auto simp: cs(2))
qed

text \<open>Sudogs that are in no queue do not matter.\<close>

lemma sema_rep_frame:
  assumes "sema_rep root t ws" "\<forall>x \<in> set (all_of ws (inorder t)). mem root' x = mem root x" "treap root' = treap root"
  shows "sema_rep root' t ws \<and> queue_of root' t ws = queue_of root t ws"
proof -
  have node: "mem root' x = mem root x" if "x \<in> set_tree t" for x
    using assms(2) that all_of_in [of x "inorder t" ws] by simp
  have wait: "mem root' w = mem root w" if "x \<in> set_tree t" "w \<in> set (ws x)" for w x
    using assms(2) that all_of_in [of x "inorder t" ws] by auto
  have "tree_at (mem root') 0 t = tree_at (mem root) 0 t"
    by (rule tree_at_cong) (simp add: same_links_def node)
  moreover have "tk_heap (s_ticket \<circ> mem root') t = tk_heap (s_ticket \<circ> mem root) t"
    by (rule tk_heap_cong) (simp add: node)
  moreover have "map (s_elem \<circ> mem root') (inorder t) = map (s_elem \<circ> mem root) (inorder t)" by (simp add: node)
  then have "sorted_wrt (<) (map (s_elem \<circ> mem root') (inorder t)) = sorted_wrt (<) (map (s_elem \<circ> mem root) (inorder t))"
    by (rule arg_cong)
  moreover have "waits_at (mem root') x (ws x) = waits_at (mem root) x (ws x)" if "x \<in> set_tree t" for x
    using that node wait by (intro waits_at_cong) auto
  moreover have "queue_of root' t ws a = queue_of root t ws a" for a
    unfolding queue_of_def by (subst find_cong_on [of _ _ "\<lambda>s. s_elem (mem root s) = a"]) (simp_all add: node)
  ultimately show ?thesis using assms(1,3) by (auto simp: sema_rep_def treap_is_def)
qed

lemma waits_at_single: "s_waitlink (m s) = 0 \<Longrightarrow> s_waittail (m s) = 0 \<Longrightarrow> waits_at m s []"
  by (simp add: waits_at_def)

text \<open>A new leaf: the address has no waiter yet.\<close>

lemma queue_leaf:
  assumes rep: "sema_rep root (plug cs Leaf) ws" and "\<forall>x \<in> set (before cs). s_elem (mem root x) < addr"
    and "\<forall>x \<in> set (after cs). addr < s_elem (mem root x)" and "s \<noteq> 0" "s \<notin> set (all_of ws (inorder (plug cs Leaf)))"
    and "s_waitlink (mem root s) = 0" "s_waittail (mem root s) = 0" "s_prev (mem root s) = 0" "s_next (mem root s) = 0"
    and "s_elem (mem root s) = addr"
  shows "\<exists>root' t. rotate_up s (store_link (at_link cs) s (modify s (s_ticket_update (\<lambda>_. v) \<circ> s_parent_update (\<lambda>_. holder cs)) root))
      = Some (Inr root') \<and> sema_rep root' t (ws(s := [])) \<and> queue_of root' t (ws(s := [])) = (queue_of root (plug cs Leaf) ws)(addr := [s])
      \<and> set (all_of (ws(s := [])) (inorder t)) = insert s (set (all_of ws (inorder (plug cs Leaf))))"
proof -
  let ?t = "plug cs Leaf" and ?k = "s_ticket \<circ> mem root"
  define r1 where "r1 = modify s (s_ticket_update (\<lambda>_. v) \<circ> s_parent_update (\<lambda>_. holder cs)) root"
  define r2 where "r2 = store_link (at_link cs) s r1"
  have treap: "treap_is root ?t" and heap: "tk_heap ?k ?t" using rep by (simp_all add: sema_rep_def)
  note at = treap_is_plugD [OF treap]
  have s: "s \<notin> set (before cs)" "s \<notin> set (after cs)" "s \<notin> sudogs cs"
    using assms(5) all_of_in [of s] by (auto simp: inorder_plug sudogs_around [symmetric])
  have dist: "distinct (before cs @ after cs)" using treap by (simp add: treap_is_def inorder_plug)
  have r1: "frames_at (mem r1) 0 cs" "treap r1 = rt_frames 0 cs"
    using at(2,7) s(3) by (simp_all add: r1_def modify_def)
  note st = store_link_frames [OF r1 dist, where y = s, folded r2_def]
  have mem_s: "mem r2 s = mem r1 s" by (rule st(3) [OF s(3)])
  have other: "s_elem (mem r2 x) = s_elem (mem root x)" "s_waitlink (mem r2 x) = s_waitlink (mem root x)"
      "s_waittail (mem r2 x) = s_waittail (mem root x)" "x \<noteq> s \<Longrightarrow> s_ticket (mem r2 x) = s_ticket (mem root x)" for x
    using st(4) by (auto simp: same_data_def r1_def modify_def)
  have "treap_is r2 (plug cs (Node Leaf s Leaf))"
    using st(1,2) at dist s assms(4,8,9)
    by (simp add: treap_is_def tree_at_plug rt_plug mem_s set_plug inorder_plug r1_def modify_def)
  moreover have "fr_heap (s_ticket \<circ> mem r2) cs"
  proof -
    have "s_ticket (mem r2 x) = s_ticket (mem root x)" if "x \<in> sudogs cs" for x using other(4) [of x] s(3) that by blast
    then have "tk_heap (s_ticket \<circ> mem r2) ?t = tk_heap ?k ?t" by (intro tk_heap_cong) (simp add: set_plug)
    then show ?thesis using heap by (simp add: tk_heap_plug)
  qed
  ultimately obtain root' t where up: "rotate_up s r2 = Some (Inr root')" "treap_is root' t" "same_data r2 root'"
      "inorder t = inorder (plug cs (Node Leaf s Leaf))" "tk_heap (s_ticket \<circ> mem r2) t"
    using rotate_up_spec [of r2 cs Leaf s Leaf "s_ticket \<circ> mem r2"] by auto
  have data: "s_elem (mem root' x) = s_elem (mem root x)" "s_waitlink (mem root' x) = s_waitlink (mem root x)"
      "s_waittail (mem root' x) = s_waittail (mem root x)" "s_ticket (mem root' x) = s_ticket (mem r2 x)" for x
    using up(3) other by (simp_all add: same_data_def)
  have ws: "all_of (ws(s := [])) xs = all_of ws xs" if "s \<notin> set xs" for xs using that by (intro all_of_cong) auto
  have "sema_rep root' t (ws(s := [])) \<and> queue_of root' t (ws(s := [])) = (queue_of root ?t ws)(addr := all_of (ws(s := [])) [s])"
  proof (rule sema_change [OF rep, where mid = "[]" and xs = "before cs" and ys = "after cs"])
    have "s_ticket \<circ> mem root' = s_ticket \<circ> mem r2" using data(4) by auto
    then show "tk_heap (s_ticket \<circ> mem root') t" using up(5) by simp
    show "\<forall>x \<in> set [s]. s_elem (mem root' x) = addr \<and> waits_at (mem root') x ((ws(s := [])) x)"
      using assms(6,7,10) by (simp add: waits_at_single data)
    show "set (all_of (ws(s := [])) [s]) \<inter> set (all_of ws (before cs @ after cs)) = {}"
      using assms(5) by (simp add: inorder_plug)
  qed (use up(2,4) assms(2-4) s data in \<open>auto simp: inorder_plug\<close>)
  moreover have "set (all_of (ws(s := [])) (inorder t)) = insert s (set (all_of ws (inorder ?t)))"
    using s by (simp add: up(4) inorder_plug ws)
  ultimately show ?thesis using up(1) by (auto simp: r2_def r1_def)
qed

text \<open>The sudog \<open>s\<close> takes the place of \<open>x\<close> in the treap, as \<open>queue\<close> and \<open>dequeue\<close> do it.\<close>

lemma treap_substitute:
  assumes "treap_is root (plug cs (Node l x r))" "tk_heap (s_ticket \<circ> mem root) (plug cs (Node l x r))"
    and "s \<noteq> 0" "s \<notin> set_tree (plug cs (Node l x r))"
    and "root1 = store_link (at_link cs) s root" "treap root' = treap root1"
    and "s_prev (mem root' s) = rt l" "s_next (mem root' s) = rt r" "s_parent (mem root' s) = holder cs"
    and "s_ticket (mem root' s) = s_ticket (mem root x)"
    and "\<And>y. y \<noteq> s \<Longrightarrow> y \<noteq> x \<Longrightarrow> s_prev (mem root' y) = s_prev (mem root1 y) \<and> s_next (mem root' y) = s_next (mem root1 y)
           \<and> s_parent (mem root' y) = (if y \<noteq> 0 \<and> (y = rt l \<or> y = rt r) then s else s_parent (mem root1 y))
           \<and> s_ticket (mem root' y) = s_ticket (mem root1 y)"
  shows "treap_is root' (plug cs (Node l s r)) \<and> tk_heap (s_ticket \<circ> mem root') (plug cs (Node l s r))"
proof
  note at = treap_is_plugD [OF assms(1)]
  have d: "distinct (before cs @ after cs)" "distinct (inorder (plug cs (Node l s r)))"
    using assms(1,4) by (auto simp: treap_is_def inorder_plug set_plug sudogs_around [symmetric])
  have s: "s \<notin> sudogs cs" "s \<notin> set_tree l" "s \<notin> set_tree r" "s \<noteq> x" using assms(4) by (auto simp: set_plug)
  note st = store_link_frames [OF at(2) [unfolded rt.simps] at(7) [unfolded rt.simps] d(1), where y = s, folded assms(5)]
  have sub: "mem root1 y = mem root y" if "y \<in> set_tree (Node l x r)" for y using at(4) that by (intro st(3)) blast
  have "tree_at (mem root') (holder cs) (Node l s r)"
  proof (rule tree_at_substitute [where m' = "mem root'" and s = s, OF at(1,3,5) assms(7-9)])
    have y: "y \<noteq> s \<and> y \<noteq> x \<and> y \<noteq> 0 \<and> mem root1 y = mem root y" if "y \<in> set_tree l \<union> set_tree r" for y
      using that sub [of y] at(3,5) s by auto
    then show "\<forall>y \<in> set_tree l \<union> set_tree r. s_prev (mem root' y) = s_prev (mem root y) \<and> s_next (mem root' y) = s_next (mem root y)
           \<and> s_parent (mem root' y) = (if y = rt l \<or> y = rt r then s else s_parent (mem root y))"
      using assms(11) by (metis (no_types, lifting))
  qed
  moreover have out: "y \<noteq> s \<and> y \<noteq> x \<and> \<not> (y \<noteq> 0 \<and> (y = rt l \<or> y = rt r))" if "y \<in> sudogs cs" for y
    using that at(4,6) s(1) rt_in [of l] rt_in [of r] by (auto simp: disjoint_iff)
  have "same_links (sudogs cs) (mem root1) (mem root')"
    unfolding same_links_def using out assms(11) by (metis (no_types, lifting))
  then have "frames_at (mem root') s cs" using st(1) frames_at_cong by blast
  ultimately show "treap_is root' (plug cs (Node l s r))"
    using st(2) assms(3,6) at(5,6) d(2) by (auto simp: treap_is_def tree_at_plug rt_plug set_plug)
  have k: "s_ticket (mem root' y) = s_ticket (mem root y)" if "y \<in> set_tree l \<union> set_tree r \<union> sudogs cs" for y
  proof -
    have "y \<noteq> s" "y \<noteq> x" using that out at(3) s by auto
    then show ?thesis using assms(11) [of y] st(4) by (simp add: same_data_def)
  qed
  have "fr_heap (s_ticket \<circ> mem root') cs = fr_heap (s_ticket \<circ> mem root) cs"
    using tk_heap_cong [of "plug cs Leaf" "s_ticket \<circ> mem root'" "s_ticket \<circ> mem root"] k by (simp add: set_plug tk_heap_plug)
  moreover have "tk_heap (s_ticket \<circ> mem root') u = tk_heap (s_ticket \<circ> mem root) u"
      "tk_ge (s_ticket \<circ> mem root') v u = tk_ge (s_ticket \<circ> mem root) v u" if "u = l \<or> u = r" for u v
    by (rule tk_heap_cong; use that k in auto) (rule tk_ge_cong; use that k in auto)
  moreover have "fr_le (s_ticket \<circ> mem root') cs v = fr_le (s_ticket \<circ> mem root) cs v" for v
    using holder_in [of cs] k [of "holder cs"] by (auto simp: fr_le_def)
  ultimately show "tk_heap (s_ticket \<circ> mem root') (plug cs (Node l s r))"
    using assms(2,10) by (simp add: tk_heap_plug)
qed

text \<open>The sudogs of the other addresses.\<close>

definition others :: "frames \<Rightarrow> nat tree \<Rightarrow> nat tree \<Rightarrow> (nat \<Rightarrow> nat list) \<Rightarrow> nat set" where
  "others cs l r ws = set (all_of ws ((before cs @ inorder l) @ (inorder r @ after cs)))"

lemma sema_rep_node:
  assumes "sema_rep root (plug cs (Node l x r)) ws"
  shows "waits_at (mem root) x (ws x)" "distinct (x # ws x)" "insert x (set (ws x)) \<inter> others cs l r ws = {}"
    "0 \<notin> set (x # ws x)" "set (all_of ws (inorder (plug cs (Node l x r)))) = insert x (set (ws x)) \<union> others cs l r ws"
    "0 \<notin> others cs l r ws" "set_tree l \<union> set_tree r \<union> sudogs cs \<subseteq> others cs l r ws" "x \<noteq> 0"
    "x \<notin> set (before cs @ inorder l @ inorder r @ after cs)"
proof -
  have rep: "\<forall>s \<in> set_tree (plug cs (Node l x r)). waits_at (mem root) s (ws s)" "distinct (all_of ws (inorder (plug cs (Node l x r))))"
      "0 \<notin> set (all_of ws (inorder (plug cs (Node l x r))))"
    using assms by (auto simp: sema_rep_def)
  show "waits_at (mem root) x (ws x)" using rep(1) by (simp add: set_plug)
  show "distinct (x # ws x)" "insert x (set (ws x)) \<inter> others cs l r ws = {}" "0 \<notin> set (x # ws x)" "0 \<notin> others cs l r ws" "x \<noteq> 0"
      "set (all_of ws (inorder (plug cs (Node l x r)))) = insert x (set (ws x)) \<union> others cs l r ws"
    using rep(2,3) by (auto simp: inorder_plug others_def)
  show sub: "set_tree l \<union> set_tree r \<union> sudogs cs \<subseteq> others cs l r ws"
    using all_of_in [of _ "(before cs @ inorder l) @ (inorder r @ after cs)" ws]
    unfolding others_def sudogs_around [symmetric] by auto
  show "x \<notin> set (before cs @ inorder l @ inorder r @ after cs)"
    using distinct_all_of [OF rep(2)] by (simp add: inorder_plug)
qed

text \<open>The sudog at the head of the queue of \<open>addr\<close> is exchanged for \<open>s\<close>, or its list changed when they are the same.\<close>

lemma sema_new_head:
  assumes rep: "sema_rep root (plug cs (Node l x r)) ws"
    and "s_elem (mem root x) = addr" "\<forall>y \<in> set (before cs @ inorder l). s_elem (mem root y) < addr"
    and "\<forall>y \<in> set (inorder r @ after cs). addr < s_elem (mem root y)"
    and "treap_is root' (plug cs (Node l s r))" "tk_heap (s_ticket \<circ> mem root') (plug cs (Node l s r))"
    and "\<And>y. y \<in> others cs l r ws \<Longrightarrow> s_elem (mem root' y) = s_elem (mem root y)
      \<and> s_waitlink (mem root' y) = s_waitlink (mem root y) \<and> s_waittail (mem root' y) = s_waittail (mem root y)"
    and "s_elem (mem root' s) = addr" "waits_at (mem root') s v"
    and "distinct (s # v)" "0 \<notin> set (s # v)" "insert s (set v) \<inter> others cs l r ws = {}"
  shows "sema_rep root' (plug cs (Node l s r)) (ws(s := v))
    \<and> queue_of root' (plug cs (Node l s r)) (ws(s := v)) = (queue_of root (plug cs (Node l x r)) ws)(addr := s # v)
    \<and> set (all_of (ws(s := v)) (inorder (plug cs (Node l s r)))) = insert s (set v) \<union> others cs l r ws"
proof -
  have s: "s \<notin> set (before cs @ inorder l)" "s \<notin> set (inorder r @ after cs)"
    using assms(12) sema_rep_node(7) [OF rep] by (auto simp: sudogs_around [symmetric])
  have "sema_rep root' (plug cs (Node l s r)) (ws(s := v))
    \<and> queue_of root' (plug cs (Node l s r)) (ws(s := v)) = (queue_of root (plug cs (Node l x r)) ws)(addr := all_of (ws(s := v)) [s])"
  proof (rule sema_change [OF rep, where mid = "[x]" and xs = "before cs @ inorder l" and ys = "inorder r @ after cs"])
    show "\<forall>y \<in> set (all_of ws ((before cs @ inorder l) @ inorder r @ after cs)). s_elem (mem root' y) = s_elem (mem root y)
      \<and> s_waitlink (mem root' y) = s_waitlink (mem root y) \<and> s_waittail (mem root' y) = s_waittail (mem root y)"
      using assms(7) unfolding others_def by blast
    show "set (all_of (ws(s := v)) [s]) \<inter> set (all_of ws ((before cs @ inorder l) @ inorder r @ after cs)) = {}"
      using assms(12) by (simp add: others_def)
    show "\<forall>y \<in> set ((before cs @ inorder l) @ inorder r @ after cs). (ws(s := v)) y = ws y" using s by auto
  qed (use assms in \<open>auto simp: inorder_plug\<close>)
  moreover have "all_of (ws(s := v)) (before cs) = all_of ws (before cs)" "all_of (ws(s := v)) (inorder l) = all_of ws (inorder l)"
      "all_of (ws(s := v)) (inorder r) = all_of ws (inorder r)" "all_of (ws(s := v)) (after cs) = all_of ws (after cs)"
    using s by (intro all_of_cong; auto)+
  then have "set (all_of (ws(s := v)) (inorder (plug cs (Node l s r)))) = insert s (set v) \<union> others cs l r ws"
    by (auto simp: inorder_plug others_def)
  ultimately show ?thesis by simp
qed

lemma waits_at_push:
  assumes "waits_at m x v" "s_waitlink (m' s) = x" "s_waittail (m' s) = (if v = [] then x else last v)"
    and "s_elem (m' s) = s_elem (m x)" "\<forall>y \<in> set (x # v). s_waitlink (m' y) = s_waitlink (m y) \<and> s_elem (m' y) = s_elem (m y)"
  shows "waits_at m' s (x # v)"
proof -
  have "chain m' (s_elem (m x)) x v" using assms(1,5) chain_cong [OF assms(5)] by (simp add: waits_at_def)
  then show ?thesis using assms by (simp add: waits_at_def)
qed

lemma waits_tail:
  assumes "waits_at m x v" "0 \<notin> set (x # v)"
  shows "(if s_waittail (m x) = 0 then x else s_waittail (m x)) = last (x # v)"
proof (cases "v = []")
  case False
  then have "last v \<noteq> 0" using assms(2) last_in_set [of v] by (metis list.set_intros(2))
  then show ?thesis using False assms(1) by (simp add: waits_at_def)
qed (use assms(1) in \<open>simp add: waits_at_def\<close>)

lemma queue_lifo:
  assumes rep: "sema_rep root (plug cs (Node l t r)) ws" and "s_elem (mem root t) = addr"
    and "\<forall>y \<in> set (before cs @ inorder l). s_elem (mem root y) < addr"
    and "\<forall>y \<in> set (inorder r @ after cs). addr < s_elem (mem root y)"
    and "s \<noteq> 0" "s \<notin> set (all_of ws (inorder (plug cs (Node l t r))))" "s_elem (mem root s) = addr"
    and "root6 = queue_front (at_link cs) t s root"
  defines "q \<equiv> t # ws t"
  shows "sema_rep root6 (plug cs (Node l s r)) (ws(s := q))
    \<and> queue_of root6 (plug cs (Node l s r)) (ws(s := q)) = (queue_of root (plug cs (Node l t r)) ws)(addr := s # q)
    \<and> set (all_of (ws(s := q)) (inorder (plug cs (Node l s r)))) = insert s (set (all_of ws (inorder (plug cs (Node l t r)))))"
proof -
  define root1 where "root1 = store_link (at_link cs) s root"
  define old where "old = mem root1 t"
  define root2 where "root2 = modify s (s_ticket_update (\<lambda>_. s_ticket old) \<circ> s_parent_update (\<lambda>_. s_parent old)
                           \<circ> s_prev_update (\<lambda>_. s_prev old) \<circ> s_next_update (\<lambda>_. s_next old)) root1"
  define root3 where "root3 = (if s_prev old \<noteq> 0 then modify (s_prev old) (s_parent_update (\<lambda>_. s)) root2 else root2)"
  define root4 where "root4 = (if s_next old \<noteq> 0 then modify (s_next old) (s_parent_update (\<lambda>_. s)) root3 else root3)"
  define root5 where "root5 = modify s (s_waitlink_update (\<lambda>_. t)
                           \<circ> s_waittail_update (\<lambda>_. if s_waittail old = 0 then t else s_waittail old)) root4"
  have root6: "root6 = modify t (s_parent_update (\<lambda>_. 0) \<circ> s_prev_update (\<lambda>_. 0) \<circ> s_next_update (\<lambda>_. 0)
                                \<circ> s_waittail_update (\<lambda>_. 0)) root5"
    unfolding assms(8) queue_front_def Let_def root5_def root4_def root3_def root2_def old_def root1_def by (rule refl)
  note node = sema_rep_node [OF rep]
  have treap: "treap_is root (plug cs (Node l t r))" and heap: "tk_heap (s_ticket \<circ> mem root) (plug cs (Node l t r))"
    using rep by (auto simp: sema_rep_def)
  note at = treap_is_plugD [OF treap]
  have dist: "distinct (before cs @ after cs)" using treap unfolding treap_is_def distinct_plug by simp
  have s: "s \<notin> others cs l r ws" "s \<noteq> t" "s \<notin> set (ws t)" using assms(6) unfolding node(5) by auto
  have t: "t \<notin> others cs l r ws" using node(3) by auto
  note st = store_link_frames [OF at(2) [unfolded rt.simps] at(7) [unfolded rt.simps] dist, where y = s, folded root1_def]
  have off: "s \<notin> sudogs cs" "t \<notin> sudogs cs" "rt l \<noteq> s" "rt l \<noteq> t" "rt r \<noteq> s" "rt r \<noteq> t"
    using node(7,8) s t assms(5) rt_in [of l] rt_in [of r] by auto
  have old: "old = mem root t" "mem root1 s = mem root s" using st(3) off(1,2) old_def by simp_all
  have links: "s_prev old = rt l" "s_next old = rt r" "s_parent old = holder cs" using at(1) old by auto
  have mem: "mem root6 y =
      (if y = s then (mem root s)\<lparr>s_next := rt r, s_prev := rt l, s_parent := holder cs, s_ticket := s_ticket old,
          s_waittail := if s_waittail old = 0 then t else s_waittail old, s_waitlink := t\<rparr>
       else if y = t then old\<lparr>s_waittail := 0, s_next := 0, s_prev := 0, s_parent := 0\<rparr>
       else if y \<noteq> 0 \<and> (y = rt l \<or> y = rt r) then (mem root1 y)\<lparr>s_parent := s\<rparr> else mem root1 y)" for y
  proof -
    have "mem root1 t = old" by (simp add: old_def)
    have m2: "mem root2 = (mem root1)(s := (mem root s)\<lparr>s_next := rt r, s_prev := rt l, s_parent := holder cs, s_ticket := s_ticket old\<rparr>)"
      by (simp add: root2_def modify_def links old(2))
    have m3: "mem root3 y = (if y \<noteq> 0 \<and> y = rt l then (mem root2 y)\<lparr>s_parent := s\<rparr> else mem root2 y)" for y
      by (simp add: root3_def modify_def links)
    have m4: "mem root4 y = (if y \<noteq> 0 \<and> y = rt r then (mem root3 y)\<lparr>s_parent := s\<rparr> else mem root3 y)" for y
      by (simp add: root4_def modify_def links)
    have m5: "mem root5 y = (if y = s then (mem root4 s)\<lparr>s_waittail := if s_waittail old = 0 then t else s_waittail old, s_waitlink := t\<rparr>
        else mem root4 y)" for y
      by (simp add: root5_def modify_def)
    have m6: "mem root6 y = (if y = t then (mem root5 t)\<lparr>s_waittail := 0, s_next := 0, s_prev := 0, s_parent := 0\<rparr> else mem root5 y)" for y
      by (simp add: root6 modify_def)
    show ?thesis
      using off s(2) \<open>mem root1 t = old\<close> by (simp add: m6 m5 m4 m3 m2)
  qed
  have top: "treap root6 = treap root1" by (simp add: root6 root5_def root4_def root3_def root2_def modify_def)
  have sub: "treap_is root6 (plug cs (Node l s r)) \<and> tk_heap (s_ticket \<circ> mem root6) (plug cs (Node l s r))"
    by (rule treap_substitute [OF treap heap assms(5) _ root1_def top])
      (use s off node(7) old in \<open>auto simp: mem set_plug\<close>)
  have data: "s_elem (mem root6 y) = s_elem (mem root y) \<and> s_waitlink (mem root6 y) = s_waitlink (mem root y)
      \<and> (y \<noteq> t \<longrightarrow> s_waittail (mem root6 y) = s_waittail (mem root y))" if "y \<noteq> s" for y
    using st(4) that old by (auto simp: mem same_data_def)
  have "waits_at (mem root6) s q"
    unfolding q_def
  proof (rule waits_at_push [OF node(1)])
    show "s_waittail (mem root6 s) = (if ws t = [] then t else last (ws t))"
      using waits_tail [OF node(1,4)] by (auto simp: mem old split: if_splits)
    show "\<forall>y \<in> set (t # ws t). s_waitlink (mem root6 y) = s_waitlink (mem root y) \<and> s_elem (mem root6 y) = s_elem (mem root y)"
    proof
      fix y assume "y \<in> set (t # ws t)"
      then have "y \<noteq> s" using s by auto
      then show "s_waitlink (mem root6 y) = s_waitlink (mem root y) \<and> s_elem (mem root6 y) = s_elem (mem root y)"
        using data by simp
    qed
  qed (use assms(2,7) in \<open>simp_all add: mem\<close>)
  moreover have "y \<noteq> s \<and> y \<noteq> t" if "y \<in> others cs l r ws" for y using s t that by auto
  then have oth: "s_elem (mem root6 y) = s_elem (mem root y) \<and> s_waitlink (mem root6 y) = s_waitlink (mem root y)
      \<and> s_waittail (mem root6 y) = s_waittail (mem root y)" if "y \<in> others cs l r ws" for y using data that by blast
  moreover have elem: "s_elem (mem root6 s) = addr" using assms(7) by (simp add: mem)
  ultimately have "sema_rep root6 (plug cs (Node l s r)) (ws(s := q))
    \<and> queue_of root6 (plug cs (Node l s r)) (ws(s := q)) = (queue_of root (plug cs (Node l t r)) ws)(addr := s # q)
    \<and> set (all_of (ws(s := q)) (inorder (plug cs (Node l s r)))) = insert s (set q) \<union> others cs l r ws"
    using node(2-4) s assms(5)
    by (intro sema_new_head [OF rep assms(2-4) sub [THEN conjunct1] sub [THEN conjunct2] oth elem]) (auto simp: q_def)
  then show ?thesis unfolding node(5) by (simp add: q_def)
qed

lemma chain_append:
  "chain m e x v \<Longrightarrow> distinct (x # v) \<Longrightarrow> s \<notin> set (x # v) \<Longrightarrow> s_elem (m' s) = e \<Longrightarrow> s_waitlink (m' s) = 0
   \<Longrightarrow> s_waitlink (m' (last (x # v))) = s \<Longrightarrow> (\<forall>y \<in> set (x # v). y \<noteq> last (x # v) \<longrightarrow> s_waitlink (m' y) = s_waitlink (m y))
   \<Longrightarrow> (\<forall>y \<in> set v. s_elem (m' y) = s_elem (m y)) \<Longrightarrow> chain m' e x (v @ [s])"
proof (induction v arbitrary: x)
  case (Cons w v)
  have "x \<noteq> last (w # v)" using Cons.prems(2) last_in_set [of "w # v"] by (metis distinct.simps(2) list.simps(3))
  then have "s_waitlink (m' x) = w" using Cons.prems(1,7) by auto
  moreover have "s_elem (m' w) = e" using Cons.prems(1,8) by auto
  moreover have "chain m' e w (v @ [s])" using Cons.prems by (intro Cons.IH) auto
  ultimately show ?case by simp
qed simp

lemma queue_append:
  assumes rep: "sema_rep root (plug cs (Node l t r)) ws" and "s_elem (mem root t) = addr"
    and "\<forall>y \<in> set (before cs @ inorder l). s_elem (mem root y) < addr"
    and "\<forall>y \<in> set (inorder r @ after cs). addr < s_elem (mem root y)"
    and "s \<noteq> 0" "s \<notin> set (all_of ws (inorder (plug cs (Node l t r))))" "s_elem (mem root s) = addr"
    and "root2 = queue_back t s root"
  defines "v \<equiv> ws t @ [s]"
  shows "sema_rep root2 (plug cs (Node l t r)) (ws(t := v))
    \<and> queue_of root2 (plug cs (Node l t r)) (ws(t := v)) = (queue_of root (plug cs (Node l t r)) ws)(addr := t # v)
    \<and> set (all_of (ws(t := v)) (inorder (plug cs (Node l t r)))) = insert s (set (all_of ws (inorder (plug cs (Node l t r)))))"
proof -
  define last_w where "last_w = s_waittail (mem root t)"
  define root1 where "root1 = modify (if last_w = 0 then t else last_w) (s_waitlink_update (\<lambda>_. s)) root"
  have root2: "root2 = modify s (s_waitlink_update (\<lambda>_. 0)) (modify t (s_waittail_update (\<lambda>_. s)) root1)"
    unfolding assms(8) queue_back_def Let_def root1_def last_w_def by (rule refl)
  let ?T = "plug cs (Node l t r)"
  note node = sema_rep_node [OF rep]
  have treap: "treap_is root ?T" and heap: "tk_heap (s_ticket \<circ> mem root) ?T" using rep by (auto simp: sema_rep_def)
  have s: "s \<notin> others cs l r ws" "s \<noteq> t" "s \<notin> set (ws t)" using assms(6) unfolding node(5) by auto
  have tail: "(if last_w = 0 then t else last_w) = last (t # ws t)"
    unfolding last_w_def by (rule waits_tail [OF node(1,4)])
  have in_q: "last (t # ws t) \<in> insert t (set (ws t))" using last_in_set [of "t # ws t"] by simp
  then have out: "last (t # ws t) \<notin> others cs l r ws" "last (t # ws t) \<noteq> s" using node(3) s by auto
  have mem: "s_prev (mem root2 y) = s_prev (mem root y)" "s_next (mem root2 y) = s_next (mem root y)"
      "s_parent (mem root2 y) = s_parent (mem root y)" "s_ticket (mem root2 y) = s_ticket (mem root y)"
      "s_elem (mem root2 y) = s_elem (mem root y)"
      "s_waitlink (mem root2 y) = (if y = s then 0 else if y = last (t # ws t) then s else s_waitlink (mem root y))"
      "s_waittail (mem root2 y) = (if y = t then s else s_waittail (mem root y))" for y
    using out(2) s(2) unfolding root1_def root2 tail modify_def by (simp_all del: last.simps)
  have "treap_is root2 ?T"
    using treap tree_at_cong [of ?T "mem root" "mem root2" 0] by (simp add: treap_is_def same_links_def mem) (simp add: root1_def root2 modify_def)
  moreover have "s_ticket \<circ> mem root2 = s_ticket \<circ> mem root" by (simp add: fun_eq_iff mem)
  moreover have "waits_at (mem root2) t v"
    unfolding waits_at_def v_def
  proof
    show "chain (mem root2) (s_elem (mem root2 t)) t (ws t @ [s])"
    proof (rule chain_append)
      show "chain (mem root) (s_elem (mem root2 t)) t (ws t)" using node(1) by (simp add: waits_at_def mem)
    qed (use node(2) s out(2) assms(2,7) in \<open>auto simp: mem simp del: last.simps\<close>)
  qed (simp add: mem)
  moreover have "y \<noteq> t \<and> y \<noteq> s \<and> y \<noteq> last (t # ws t)" if "y \<in> others cs l r ws" for y using that s out node(3) by auto
  ultimately have "sema_rep root2 ?T (ws(t := v)) \<and> queue_of root2 ?T (ws(t := v)) = (queue_of root ?T ws)(addr := t # v)
    \<and> set (all_of (ws(t := v)) (inorder ?T)) = insert t (set v) \<union> others cs l r ws"
    using node s assms(2,5) heap
    by (intro sema_new_head [OF rep assms(2-4)]) (auto simp: mem v_def simp del: last.simps)
  then show ?thesis unfolding node(5) by (auto simp: v_def)
qed

lemma dequeue_next:
  assumes rep: "sema_rep root (plug cs (Node l s r)) ws" and "s_elem (mem root s) = addr" "ws s = t # v"
    and "\<forall>y \<in> set (before cs @ inorder l). s_elem (mem root y) < addr"
    and "\<forall>y \<in> set (inorder r @ after cs). addr < s_elem (mem root y)"
    and "root8 = modify s clear_sudog (dequeue_front (at_link cs) s t root)"
  shows "sema_rep root8 (plug cs (Node l t r)) (ws(t := v))
    \<and> queue_of root8 (plug cs (Node l t r)) (ws(t := v)) = (queue_of root (plug cs (Node l s r)) ws)(addr := t # v)
    \<and> set (all_of (ws(t := v)) (inorder (plug cs (Node l t r)))) = set (all_of ws (inorder (plug cs (Node l s r)))) - {s}
    \<and> s_waitlink (mem root8 s) = 0 \<and> s_waittail (mem root8 s) = 0"
proof -
  define root1 where "root1 = store_link (at_link cs) t root"
  define old where "old = mem root1 s"
  define root2 where "root2 = modify t (s_ticket_update (\<lambda>_. s_ticket old) \<circ> s_parent_update (\<lambda>_. s_parent old)
                           \<circ> s_prev_update (\<lambda>_. s_prev old)) root1"
  define root3 where "root3 = (if s_prev old \<noteq> 0 then modify (s_prev old) (s_parent_update (\<lambda>_. t)) root2 else root2)"
  define root4 where "root4 = modify t (s_next_update (\<lambda>_. s_next old)) root3"
  define root5 where "root5 = (if s_next old \<noteq> 0 then modify (s_next old) (s_parent_update (\<lambda>_. t)) root4 else root4)"
  define root6 where "root6 = modify t (s_waittail_update (\<lambda>_. if s_waitlink (mem root5 t) \<noteq> 0 then s_waittail old else 0)) root5"
  define root7 where "root7 = modify s (s_waitlink_update (\<lambda>_. 0) \<circ> s_waittail_update (\<lambda>_. 0)) root6"
  have root8: "root8 = modify s clear_sudog root7"
    unfolding assms(6) dequeue_front_def Let_def root7_def root6_def root5_def root4_def root3_def root2_def old_def root1_def by (rule refl)
  note node = sema_rep_node [OF rep]
  have treap: "treap_is root (plug cs (Node l s r))" and heap: "tk_heap (s_ticket \<circ> mem root) (plug cs (Node l s r))"
    using rep by (auto simp: sema_rep_def)
  note at = treap_is_plugD [OF treap]
  have dist: "distinct (before cs @ after cs)" using treap unfolding treap_is_def distinct_plug by simp
  have t: "t \<notin> others cs l r ws" "t \<noteq> s" "t \<noteq> 0" "t \<notin> set v" "s \<notin> set v" "s \<notin> others cs l r ws" "0 \<notin> set v"
    using node(2-4) by (auto simp: assms(3))
  note st = store_link_frames [OF at(2) [unfolded rt.simps] at(7) [unfolded rt.simps] dist, where y = t, folded root1_def]
  have off: "s \<notin> sudogs cs" "t \<notin> sudogs cs" "rt l \<noteq> s" "rt l \<noteq> t" "rt r \<noteq> s" "rt r \<noteq> t"
    using node(7,8) t rt_in [of l] rt_in [of r] by auto
  have old: "old = mem root s" "mem root1 t = mem root t" using st(3) off(1,2) old_def by simp_all
  have links: "s_prev old = rt l" "s_next old = rt r" "s_parent old = holder cs" using at(1) old by auto
  have waits: "s_waitlink (mem root s) = t" "s_elem (mem root t) = addr" "chain (mem root) addr t v"
      "s_waittail (mem root s) = last (t # v)"
    using node(1) by (simp_all add: waits_at_def assms(2,3))
  have link0: "s_waitlink (mem root t) = 0 \<longleftrightarrow> v = []" using waits(3) t(7) by (cases v) auto
  define wt where "wt = (if v = [] then 0 else last v)"
  have mem: "mem root8 y =
      (if y = t then (mem root t)\<lparr>s_prev := rt l, s_parent := holder cs, s_ticket := s_ticket old, s_next := rt r, s_waittail := wt\<rparr>
       else if y = s then clear_sudog ((mem root s)\<lparr>s_waittail := 0, s_waitlink := 0\<rparr>)
       else if y \<noteq> 0 \<and> (y = rt l \<or> y = rt r) then (mem root1 y)\<lparr>s_parent := t\<rparr> else mem root1 y)" for y
  proof -
    have "mem root1 s = old" by (simp add: old_def)
    have m2: "mem root2 = (mem root1)(t := (mem root t)\<lparr>s_prev := rt l, s_parent := holder cs, s_ticket := s_ticket old\<rparr>)"
      by (simp add: root2_def modify_def links old(2))
    have m3: "mem root3 y = (if y \<noteq> 0 \<and> y = rt l then (mem root2 y)\<lparr>s_parent := t\<rparr> else mem root2 y)" for y
      by (simp add: root3_def modify_def links)
    have m4: "mem root4 y = (if y = t then (mem root3 t)\<lparr>s_next := rt r\<rparr> else mem root3 y)" for y
      by (simp add: root4_def modify_def links)
    have m5: "mem root5 y = (if y \<noteq> 0 \<and> y = rt r then (mem root4 y)\<lparr>s_parent := t\<rparr> else mem root4 y)" for y
      by (simp add: root5_def modify_def links)
    have "s_waitlink (mem root5 t) = s_waitlink (mem root t)" using off by (simp add: m5 m4 m3 m2)
    then have m6: "mem root6 y = (if y = t then (mem root5 t)\<lparr>s_waittail := wt\<rparr> else mem root5 y)" for y
      using link0 waits(4) by (simp add: root6_def modify_def old(1) wt_def)
    have m8: "mem root8 y = (if y = s then clear_sudog ((mem root6 s)\<lparr>s_waittail := 0, s_waitlink := 0\<rparr>) else mem root6 y)" for y
      by (simp add: root7_def root8 modify_def)
    show ?thesis
      using off t(2) \<open>mem root1 s = old\<close> old(1) by (simp add: m8 m6 m5 m4 m3 m2)
  qed
  have top: "treap root8 = treap root1" by (simp add: root8 root7_def root6_def root5_def root4_def root3_def root2_def modify_def)
  have sub: "treap_is root8 (plug cs (Node l t r)) \<and> tk_heap (s_ticket \<circ> mem root8) (plug cs (Node l t r))"
    by (rule treap_substitute [OF treap heap t(3) _ root1_def top])
      (use t off node(7) old in \<open>auto simp: mem set_plug\<close>)
  have data: "s_elem (mem root8 y) = s_elem (mem root y) \<and> s_waitlink (mem root8 y) = s_waitlink (mem root y)
      \<and> (y \<noteq> t \<longrightarrow> s_waittail (mem root8 y) = s_waittail (mem root y))" if "y \<noteq> s" for y
    using st(4) that old by (auto simp: mem same_data_def)
  have "y \<noteq> s" if "y \<in> set (t # v)" for y using that t(2,5) by auto
  then have "chain (mem root8) addr t v = chain (mem root) addr t v" using data by (intro chain_cong) simp
  then have "chain (mem root8) addr t v" using waits(3) by simp
  then have "waits_at (mem root8) t v" using waits(2) by (simp add: waits_at_def mem wt_def)
  moreover have "y \<noteq> s \<and> y \<noteq> t" if "y \<in> others cs l r ws" for y using t that by auto
  then have oth: "s_elem (mem root8 y) = s_elem (mem root y) \<and> s_waitlink (mem root8 y) = s_waitlink (mem root y)
      \<and> s_waittail (mem root8 y) = s_waittail (mem root y)" if "y \<in> others cs l r ws" for y using data that by blast
  moreover have elem: "s_elem (mem root8 t) = addr" using waits(2) by (simp add: mem)
  ultimately have "sema_rep root8 (plug cs (Node l t r)) (ws(t := v))
    \<and> queue_of root8 (plug cs (Node l t r)) (ws(t := v)) = (queue_of root (plug cs (Node l s r)) ws)(addr := t # v)
    \<and> set (all_of (ws(t := v)) (inorder (plug cs (Node l t r)))) = insert t (set v) \<union> others cs l r ws"
    using node(2-4) t
    by (intro sema_new_head [OF rep assms(2,4,5) sub [THEN conjunct1] sub [THEN conjunct2] oth elem]) (auto simp: assms(3))
  moreover have "insert t (set v) \<union> others cs l r ws = set (all_of ws (inorder (plug cs (Node l s r)))) - {s}"
    unfolding node(5) using t by (auto simp: assms(3))
  moreover have "s_waitlink (mem root8 s) = 0" "s_waittail (mem root8 s) = 0" using t(2) by (simp_all add: mem clear_sudog_def)
  ultimately show ?thesis by simp
qed

text \<open>The last waiter of an address leaves the treap.\<close>

lemma cut_leaf_spec:
  assumes "treap_is root (plug cs (Node Leaf s Leaf))" "fr_heap (s_ticket \<circ> mem root) cs"
  shows "treap_is (cut_leaf s root) (plug cs Leaf)" "tk_heap (s_ticket \<circ> mem (cut_leaf s root)) (plug cs Leaf)"
    "same_data root (cut_leaf s root)"
proof -
  note at = treap_is_plugD [OF assms(1)]
  have dist: "distinct (before cs @ after cs)" using assms(1) unfolding treap_is_def distinct_plug by simp
  show data: "same_data root (cut_leaf s root)" by (simp add: cut_leaf_def Let_def modify_def same_data_def)
  show "treap_is (cut_leaf s root) (plug cs Leaf)"
  proof (cases "cs = []")
    case True
    then show ?thesis using at(1) by (simp add: cut_leaf_def treap_is_def)
  next
    case False
    have "holder cs \<noteq> 0" using holder_in [OF False] at(6) by (auto intro!: gr0I)
    moreover have "s \<noteq> 0" "s \<notin> sudogs cs" using at(4,5) by auto
    moreover note frames_at_child [OF at(2) [unfolded rt.simps] False dist, of 0]
    ultimately have "frames_at (mem (cut_leaf s root)) 0 cs" "treap (cut_leaf s root) = treap root"
      using at(1) by (cases "s_prev (mem root (holder cs)) = s"; simp add: cut_leaf_def Let_def modify_def)+
    then show ?thesis
      using at(6,7) dist rt_frames_top [OF False, of 0 s] by (simp add: treap_is_def tree_at_plug rt_plug set_plug inorder_plug)
  qed
  have "s_ticket \<circ> mem (cut_leaf s root) = s_ticket \<circ> mem root" using data by (auto simp: same_data_def)
  then show "tk_heap (s_ticket \<circ> mem (cut_leaf s root)) (plug cs Leaf)" using assms(2) by (simp add: tk_heap_plug)
qed

lemma dequeue_last:
  assumes rep: "sema_rep root (plug cs (Node l s r)) ws" and "s_elem (mem root s) = addr" "ws s = []"
    and "\<forall>y \<in> set (before cs @ inorder l). s_elem (mem root y) < addr"
    and "\<forall>y \<in> set (inorder r @ after cs). addr < s_elem (mem root y)"
  shows "\<exists>root1 t. rotate_down s root = Some (Inr root1) \<and> sema_rep (modify s clear_sudog (cut_leaf s root1)) t ws
    \<and> queue_of (modify s clear_sudog (cut_leaf s root1)) t ws = (queue_of root (plug cs (Node l s r)) ws)(addr := [])
    \<and> set (all_of ws (inorder t)) = set (all_of ws (inorder (plug cs (Node l s r)))) - {s}
    \<and> s_waitlink (mem (modify s clear_sudog (cut_leaf s root1)) s) = 0
    \<and> s_waittail (mem (modify s clear_sudog (cut_leaf s root1)) s) = 0"
proof -
  let ?k = "s_ticket \<circ> mem root" and ?xs = "before cs @ inorder l" and ?ys = "inorder r @ after cs"
  note node = sema_rep_node [OF rep]
  have treap: "treap_is root (plug cs (Node l s r))" and heap: "tk_heap ?k (plug cs (Node l s r))"
    using rep by (auto simp: sema_rep_def)
  have "tk_heap ?k l" "tk_heap ?k r" "fr_ge ?k cs l" "fr_ge ?k cs r" "fr_heap ?k cs"
    using heap by (auto simp: tk_heap_plug intro: fr_ge_mono)
  then obtain root1 cs' where down: "rotate_down s root = Some (Inr root1)" "treap_is root1 (plug cs' (Node Leaf s Leaf))"
      "same_data root root1" "inorder (plug cs' (Node Leaf s Leaf)) = inorder (plug cs (Node l s r))" "fr_heap ?k cs'"
    using rotate_down_spec [OF treap refl] by blast
  have "?k = s_ticket \<circ> mem root1" using down(3) by (auto simp: same_data_def)
  note cut = cut_leaf_spec [OF down(2) down(5) [unfolded this]]
  have "?xs @ s # ?ys = before cs' @ s # after cs'" using down(4) by (simp add: inorder_plug)
  moreover have "s \<notin> set ?xs" "s \<notin> set ?ys" using node(9) by auto
  ultimately have split: "before cs' = ?xs" "after cs' = ?ys"
    using append_Cons_eq_iff [of s ?xs ?ys "before cs'" "after cs'"] by auto
  let ?root = "cut_leaf s root1" and ?t = "plug cs' Leaf"
  have data: "s_elem (mem ?root y) = s_elem (mem root y)" "s_waitlink (mem ?root y) = s_waitlink (mem root y)"
      "s_waittail (mem ?root y) = s_waittail (mem root y)" for y
    using same_data_trans [OF down(3) cut(3)] by (simp_all add: same_data_def)
  have change: "sema_rep ?root ?t ws \<and> queue_of ?root ?t ws = (queue_of root (plug cs (Node l s r)) ws)(addr := all_of ws [])"
    by (rule sema_change [OF rep, where mid = "[s]" and xs = ?xs and ys = ?ys])
      (use assms(2,4,5) cut split data in \<open>simp_all add: inorder_plug\<close>)
  have all: "set (all_of ws (inorder ?t)) = others cs l r ws" by (simp add: inorder_plug split others_def)
  have s: "s \<notin> others cs l r ws" using node(3) by simp
  then have "sema_rep (modify s clear_sudog ?root) ?t ws \<and> queue_of (modify s clear_sudog ?root) ?t ws = queue_of ?root ?t ws"
    using change all by (intro sema_rep_frame) (auto simp: modify_def)
  moreover have "s_waitlink (mem root s) = 0" "s_waittail (mem root s) = 0" using node(1) by (simp_all add: waits_at_def assms(3))
  ultimately show ?thesis
    using down(1) change all node(5) s
    by (intro exI [of _ root1] exI [of _ ?t]) (simp add: assms(3) data modify_def clear_sudog_def)
qed

section \<open>What a root promises\<close>

text \<open>The queues of a root, as a function of the address.\<close>

definition sema_queues :: "semaRoot \<Rightarrow> (nat \<Rightarrow> nat list) \<Rightarrow> bool" where
  "sema_queues root Q \<longleftrightarrow> (\<exists>t ws. sema_rep root t ws \<and> Q = queue_of root t ws)"

text \<open>A sudog that is in no list.\<close>

definition unlinked :: "semaRoot \<Rightarrow> nat \<Rightarrow> bool" where
  "unlinked root s \<longleftrightarrow> s \<noteq> 0 \<and> s_waitlink (mem root s) = 0 \<and> s_waittail (mem root s) = 0"

lemma queue_of_head:
  assumes "sema_rep root t ws" "s \<in> set_tree t"
  shows "queue_of root t ws (s_elem (mem root s)) = s # ws s"
proof -
  obtain xs ys where split: "inorder t = xs @ s # ys" using assms(2) by (metis set_inorder split_list)
  then have "\<forall>x \<in> set xs. s_elem (mem root x) < s_elem (mem root s)"
    using assms(1) by (auto simp: sema_rep_def sorted_wrt_append)
  then have "find (\<lambda>x. s_elem (mem root x) = s_elem (mem root s)) xs = None" by (intro find_none) auto
  then show ?thesis by (simp add: queue_of_def split find_append)
qed

lemma queue_of_nonempty:
  "queue_of root t ws addr \<noteq> [] \<Longrightarrow> \<exists>s \<in> set_tree t. s_elem (mem root s) = addr \<and> queue_of root t ws addr = s # ws s"
proof -
  assume "queue_of root t ws addr \<noteq> []"
  then obtain s where "find (\<lambda>s. s_elem (mem root s) = addr) (inorder t) = Some s"
    by (auto simp: queue_of_def split: option.splits)
  moreover then have "s \<in> set (inorder t) \<and> s_elem (mem root s) = addr" unfolding find_Some_iff by (metis nth_mem)
  ultimately show ?thesis by (intro bexI [of _ s]) (simp_all add: queue_of_def)
qed

lemma queue_of_all: 
  assumes "sema_rep root t ws"
  shows "s \<in> set (all_of ws (inorder t)) \<longleftrightarrow> (\<exists>a. s \<in> set (queue_of root t ws a))"
proof
  assume "s \<in> set (all_of ws (inorder t))"
  then obtain x where "x \<in> set_tree t" "s \<in> set (x # ws x)" by (auto simp: all_of_def)
  then show "\<exists>a. s \<in> set (queue_of root t ws a)" using queue_of_head [OF assms] by metis
next
  assume "\<exists>a. s \<in> set (queue_of root t ws a)"
  then obtain a where a: "s \<in> set (queue_of root t ws a)" by blast
  then have "queue_of root t ws a \<noteq> []" by auto
  then obtain x where "x \<in> set_tree t" "queue_of root t ws a = x # ws x" using queue_of_nonempty by blast
  then show "s \<in> set (all_of ws (inorder t))" using a all_of_in [of x "inorder t" ws] by auto
qed

lemma sema_queue_spec:
  assumes "sema_queues root Q" "unlinked root s" "\<forall>a. s \<notin> set (Q a)"
  shows "\<exists>root'. sema_queue gp addr s lifo tick root = Some (Inr root')
    \<and> sema_queues root' (Q(addr := if lifo then s # Q addr else Q addr @ [s]))"
proof -
  define root0 where "root0 = modify s (s_next_update (\<lambda>_. 0) \<circ> s_prev_update (\<lambda>_. 0) \<circ> s_elem_update (\<lambda>_. addr) \<circ> s_g_update (\<lambda>_. gp)) root"
  obtain t ws where rep0: "sema_rep root t ws" "Q = queue_of root t ws" using assms(1) by (auto simp: sema_queues_def)
  then have new: "s \<notin> set (all_of ws (inorder t))" using assms(3) queue_of_all by blast
  then have rep: "sema_rep root0 t ws" "queue_of root0 t ws = Q"
    using sema_rep_frame [OF rep0(1), of root0] rep0(2) by (auto simp: root0_def modify_def)
  have s: "s \<noteq> 0" "s_waitlink (mem root0 s) = 0" "s_waittail (mem root0 s) = 0" "s_prev (mem root0 s) = 0"
      "s_next (mem root0 s) = 0" "s_elem (mem root0 s) = addr"
    using assms(2) by (simp_all add: unlinked_def root0_def modify_def)
  obtain cs t' where find: "t = plug cs t'" "find_addr addr AtRoot 0 root0 = Some (at_link cs, rt t', holder cs)"
    and node: "t' \<noteq> Leaf \<longrightarrow> s_elem (mem root0 (rt t')) = addr \<and> Q addr = rt t' # ws (rt t')"
    and leaf: "t' = Leaf \<longrightarrow> Q addr = []"
    and order: "\<forall>l s r. t' = Node l s r \<longrightarrow> (\<forall>x \<in> set (before cs @ inorder l). s_elem (mem root0 x) < addr)
       \<and> (\<forall>x \<in> set (inorder r @ after cs). addr < s_elem (mem root0 x))"
    and bounds: "\<forall>x \<in> set (before cs). s_elem (mem root0 x) < addr" "\<forall>x \<in> set (after cs). addr < s_elem (mem root0 x)"
    using sema_search [OF rep(1), of addr] unfolding rep(2) by blast
  note run = sema_queue_def [of gp addr s lifo tick root, folded root0_def, unfolded Let_def, folded root0_def, unfolded find(2), simplified]
  show ?thesis
  proof (cases t')
    case Leaf
    then obtain root' t'' where "rotate_up s (store_link (at_link cs) s
        (modify s (s_ticket_update (\<lambda>_. tick OR 1) \<circ> s_parent_update (\<lambda>_. holder cs)) root0)) = Some (Inr root')"
      "sema_rep root' t'' (ws(s := []))" "queue_of root' t'' (ws(s := [])) = Q(addr := [s])"
      using queue_leaf [of root0 cs ws addr s "tick OR 1"] rep find(1) bounds s new by auto
    then show ?thesis using Leaf leaf by (auto simp: run sema_queues_def intro!: exI)
  next
    case (Node l x r)
    then have x: "x \<noteq> 0" "s_elem (mem root0 x) = addr" "Q addr = x # ws x"
      using node rep(1) sema_rep_node(8) find(1) by auto
    note T = rep(1) [unfolded find(1) Node] x(2) order [rule_format, OF Node, THEN conjunct1]
      order [rule_format, OF Node, THEN conjunct2] s(1)
      new [unfolded find(1) Node] s(6)
    have Q: "queue_of root0 (plug cs (Node l x r)) ws = Q" using rep(2) by (simp add: find(1) Node)
    have "sema_queue gp addr s lifo tick root = Some (Inr (if lifo then queue_front (at_link cs) x s root0 else queue_back x s root0))"
      using x(1) by (simp add: run Node)
    moreover have "sema_queues (queue_front (at_link cs) x s root0) (Q(addr := s # Q addr))"
      using queue_lifo [OF T refl] unfolding sema_queues_def Q x(3) by metis
    moreover have "sema_queues (queue_back x s root0) (Q(addr := Q addr @ [s]))"
      using queue_append [OF T refl] unfolding sema_queues_def Q x(3) append_Cons by metis
    ultimately show ?thesis by simp
  qed
qed

lemma sema_dequeue_spec:
  assumes "sema_queues root Q"
  shows "\<exists>root'. sema_dequeue addr root = Some (Inr (if Q addr = [] then 0 else hd (Q addr), root'))
    \<and> sema_queues root' (Q(addr := tl (Q addr))) \<and> (Q addr \<noteq> [] \<longrightarrow> unlinked root' (hd (Q addr)))"
proof -
  obtain t ws where rep: "sema_rep root t ws" "queue_of root t ws = Q" using assms by (auto simp: sema_queues_def)
  obtain cs t' where find: "t = plug cs t'" "find_addr addr AtRoot 0 root = Some (at_link cs, rt t', holder cs)"
    and node: "t' \<noteq> Leaf \<longrightarrow> s_elem (mem root (rt t')) = addr \<and> Q addr = rt t' # ws (rt t')"
    and leaf: "t' = Leaf \<longrightarrow> Q addr = []"
    and order: "\<forall>l s r. t' = Node l s r \<longrightarrow> (\<forall>x \<in> set (before cs @ inorder l). s_elem (mem root x) < addr)
       \<and> (\<forall>x \<in> set (inorder r @ after cs). addr < s_elem (mem root x))"
    using sema_search [OF rep(1), of addr] unfolding rep(2) by blast
  show ?thesis
  proof (cases t')
    case Leaf
    then have "Q(addr := tl (Q addr)) = Q" using leaf by (simp add: fun_upd_idem)
    then show ?thesis using Leaf leaf assms find(2) by (simp add: sema_dequeue_def)
  next
    case (Node l s r)
    then have s: "s \<noteq> 0" "s_elem (mem root s) = addr" "Q addr = s # ws s"
      using node rep(1) sema_rep_node(8) find(1) by auto
    have Q: "queue_of root (plug cs (Node l s r)) ws = Q" using rep(2) by (simp add: find(1) Node)
    note rep' = rep(1) [unfolded find(1) Node]
    note bounds = order [rule_format, OF Node, THEN conjunct1] order [rule_format, OF Node, THEN conjunct2]
    have run: "sema_dequeue addr root = (if s_waitlink (mem root s) \<noteq> 0
        then Some (Inr (s, modify s clear_sudog (dequeue_front (at_link cs) s (s_waitlink (mem root s)) root)))
        else case rotate_down s root of
          None \<Rightarrow> None
        | Some (Inl e) \<Rightarrow> Some (Inl e)
        | Some (Inr root) \<Rightarrow> Some (Inr (s, modify s clear_sudog (cut_leaf s root))))"
      using s(1) by (simp add: sema_dequeue_def find(2) Node Let_def)
    have link: "s_waitlink (mem root s) = (if ws s = [] then 0 else hd (ws s))"
      using sema_rep_node(1) [OF rep'] by (cases "ws s") (auto simp: waits_at_def)
    show ?thesis
    proof (cases "ws s")
      case Nil
      obtain root1 t where last: "rotate_down s root = Some (Inr root1)" "sema_rep (modify s clear_sudog (cut_leaf s root1)) t ws"
          "queue_of (modify s clear_sudog (cut_leaf s root1)) t ws = Q(addr := [])"
          "s_waitlink (mem (modify s clear_sudog (cut_leaf s root1)) s) = 0"
          "s_waittail (mem (modify s clear_sudog (cut_leaf s root1)) s) = 0"
        using dequeue_last [OF rep' s(2) Nil bounds] unfolding Q by blast
      have "sema_queues (modify s clear_sudog (cut_leaf s root1)) (Q(addr := []))"
        using last(2,3) unfolding sema_queues_def by metis
      then show ?thesis using run last(1,4,5) link s Nil by (simp add: unlinked_def)
    next
      case (Cons x v)
      note front = dequeue_next [OF rep' s(2) Cons bounds refl, unfolded Q]
      have "sema_queues (modify s clear_sudog (dequeue_front (at_link cs) s x root)) (Q(addr := x # v))"
        using front unfolding sema_queues_def by metis
      moreover have "x \<noteq> 0" using sema_rep_node(4) [OF rep'] Cons by simp
      ultimately show ?thesis using run front link s Cons by (simp add: unlinked_def)
    qed
  qed
qed

lemma sema_rep_empty: "treap root = 0 \<Longrightarrow> sema_rep root Leaf ws" "queue_of root Leaf ws = (\<lambda>_. [])"
  by (auto simp: sema_rep_def treap_is_def queue_of_def)

text \<open>
  A root and its history: the queue of each address as the operations so far have left it. \<open>queue\<close> is given a
  sudog that is in no list, as \<open>acquireSudog\<close> returns them.
\<close>

inductive sema_reach :: "semaRoot \<Rightarrow> (nat \<Rightarrow> nat list) \<Rightarrow> bool" where
  init: "treap root = 0 \<Longrightarrow> sema_reach root (\<lambda>_. [])"
| queue: "sema_reach root Q \<Longrightarrow> unlinked root s \<Longrightarrow> \<forall>a. s \<notin> set (Q a) \<Longrightarrow> sema_queue gp addr s lifo tick root = Some (Inr root')
    \<Longrightarrow> sema_reach root' (Q(addr := if lifo then s # Q addr else Q addr @ [s]))"
| dequeue: "sema_reach root Q \<Longrightarrow> sema_dequeue addr root = Some (Inr (s, root')) \<Longrightarrow> sema_reach root' (Q(addr := tl (Q addr)))"

lemma sema_reach_queues: "sema_reach root Q \<Longrightarrow> sema_queues root Q"
proof (induction rule: sema_reach.induct)
  case (init root)
  then show ?case using sema_rep_empty unfolding sema_queues_def by metis
next
  case (queue root Q s gp addr lifo tick root')
  then show ?case using sema_queue_spec [OF queue.IH queue.hyps(2,3), of gp addr lifo tick] queue.hyps(4)
    by (metis option.inject sum.inject(2))
next
  case (dequeue root Q addr s root')
  then show ?case using sema_dequeue_spec [OF dequeue.IH, of addr] dequeue.hyps(2)
    by (metis option.inject sum.inject(2) prod.inject)
qed

text \<open>
  C16: A \<open>semaRoot\<close> keeps a first-in first-out queue for every address, whatever the tickets are: \<open>dequeue\<close> returns
  the sudog at the head of the queue of its address, unlinked and ready to be queued again, or nil when there is
  none; \<open>queue\<close> puts its sudog at the end, or at the head when \<open>lifo\<close> is set. Their loops end, no rotation throws and
  nothing dereferences nil.
\<close>

theorem sema_root_fifo:
  assumes "sema_reach root Q"
  shows "(\<forall>addr. \<exists>root'. sema_dequeue addr root = Some (Inr (if Q addr = [] then 0 else hd (Q addr), root'))
         \<and> sema_reach root' (Q(addr := tl (Q addr))) \<and> (Q addr \<noteq> [] \<longrightarrow> unlinked root' (hd (Q addr))))
    \<and> (\<forall>gp addr s lifo tick. unlinked root s \<longrightarrow> (\<forall>a. s \<notin> set (Q a)) \<longrightarrow>
         (\<exists>root'. sema_queue gp addr s lifo tick root = Some (Inr root')
            \<and> sema_reach root' (Q(addr := if lifo then s # Q addr else Q addr @ [s]))))"
  using sema_dequeue_spec [OF sema_reach_queues [OF assms]] sema_queue_spec [OF sema_reach_queues [OF assms]]
    sema_reach.queue [OF assms] sema_reach.dequeue [OF assms] by meson

text \<open>
  C17: The treap of a \<open>semaRoot\<close> is well-formed after any operations: its links form a tree whose parent pointers are
  right, which holds exactly the head of each non-empty queue, in the order of the addresses and with no ticket
  below the ticket of its parent.
\<close>

theorem sema_treap_shape:
  assumes "sema_reach root Q"
  shows "\<exists>t. treap_is root t \<and> set_tree t = {s. \<exists>a v. Q a = s # v}
    \<and> sorted_wrt (<) (map (s_elem \<circ> mem root) (inorder t)) \<and> tk_heap (s_ticket \<circ> mem root) t
    \<and> (\<forall>a. Q a \<noteq> [] \<longrightarrow> s_elem (mem root (hd (Q a))) = a)"
proof -
  obtain t ws where rep: "sema_rep root t ws" "Q = queue_of root t ws"
    using sema_reach_queues [OF assms] by (auto simp: sema_queues_def)
  have head: "Q a \<noteq> [] \<Longrightarrow> \<exists>s \<in> set_tree t. s_elem (mem root s) = a \<and> Q a = s # ws s" for a
    using queue_of_nonempty unfolding rep(2) by blast
  have "s \<in> set_tree t \<longleftrightarrow> (\<exists>a v. Q a = s # v)" for s
  proof
    assume "s \<in> set_tree t"
    then show "\<exists>a v. Q a = s # v" using queue_of_head [OF rep(1)] unfolding rep(2) by blast
  next
    assume "\<exists>a v. Q a = s # v"
    then show "s \<in> set_tree t" using head by (metis list.distinct(1) list.inject)
  qed
  moreover have "\<forall>a. Q a \<noteq> [] \<longrightarrow> s_elem (mem root (hd (Q a))) = a" using head by fastforce
  ultimately show ?thesis using rep(1) unfolding sema_rep_def by (intro exI [of _ t]) auto
qed

text \<open>Sudog 1 waits on address 8.\<close>

definition ex_root :: semaRoot where
  "ex_root = \<lparr>treap = 0, mem = \<lambda>_. \<lparr>s_g = 0, s_elem = 0, s_prev = 0, s_next = 0, s_parent = 0, s_ticket = 0, s_waitlink = 0,
     s_waittail = 0\<rparr>\<rparr>"

lemma ex_root_queue: "\<exists>root. sema_queue 5 8 1 False tick ex_root = Some (Inr root) \<and> sema_reach root ((\<lambda>_. [])(8 := [1]))"
proof -
  have init: "sema_reach ex_root (\<lambda>_. [])" by (rule sema_reach.init) (simp add: ex_root_def)
  have "unlinked ex_root 1" by (simp add: unlinked_def ex_root_def)
  moreover obtain root where "sema_queue 5 8 1 False tick ex_root = Some (Inr root)"
    using sema_queue_spec [OF sema_reach_queues [OF init] calculation, of 5 8 False tick] by auto
  ultimately show ?thesis using sema_reach.queue [OF init, of 1 5 8 False tick root] by simp
qed

theorem sema_root_fifo_witness:
  "\<exists>root root'. sema_queue 5 8 1 False 7 ex_root = Some (Inr root) \<and> sema_dequeue 8 root = Some (Inr (1, root')) \<and> unlinked root' 1"
proof -
  obtain root where root: "sema_queue 5 8 1 False 7 ex_root = Some (Inr root)" "sema_reach root ((\<lambda>_. [])(8 := [1]))"
    using ex_root_queue by blast
  show ?thesis
    using sema_root_fifo [OF root(2), THEN conjunct1, rule_format, of 8] root(1) by auto
qed

theorem sema_treap_shape_witness:
  "\<exists>root. sema_queue 5 8 1 False 7 ex_root = Some (Inr root) \<and> treap root = 1 \<and> s_elem (mem root 1) = 8"
proof -
  obtain root where root: "sema_queue 5 8 1 False 7 ex_root = Some (Inr root)" "sema_reach root ((\<lambda>_ :: nat. [])(8 := [1 :: nat]))"
    using ex_root_queue by blast
  obtain t where t: "treap_is root t" "set_tree t = {s. \<exists>a v. ((\<lambda>_ :: nat. [])(8 := [1 :: nat])) a = s # v}"
      "\<forall>a. ((\<lambda>_ :: nat. [])(8 := [1 :: nat])) a \<noteq> [] \<longrightarrow> s_elem (mem root (hd (((\<lambda>_ :: nat. [])(8 := [1 :: nat])) a))) = a"
    using sema_treap_shape [OF root(2)] by blast
  have "set_tree t = {1}" unfolding t(2) by (auto split: if_splits)
  then have "rt t = 1" using rt_in [of t] by (cases t) auto
  then show ?thesis using root(1) t(1) t(3) [rule_format, of 8] by (intro exI [of _ root]) (simp add: treap_is_def)
qed

end
