(* ===== verification/GQueue.thy ===== *)
theory GQueue
  imports GoPrelude
begin

text \<open>
  The intrusive queues and stacks of goroutines of \<open>runtime/proc.go\<close>: \<open>gQueue\<close> and \<open>gList\<close>.
  A goroutine is a number, 0 is the nil pointer, and the links live in the goroutines: the store
  \<open>schedlink\<close> maps a goroutine to the next one. Every operation takes the store and returns it.
\<close>

type_synonym gp = nat
type_synonym links = "gp \<Rightarrow> gp"

record gQueue =
  qhead :: gp
  qtail :: gp

record gList =
  lhead :: gp

section \<open>Operations\<close>

definition empty_gQueue :: gQueue where
  "empty_gQueue = \<lparr>qhead = 0, qtail = 0\<rparr>"

definition gq_empty :: "gQueue \<Rightarrow> bool" where
  "gq_empty q \<longleftrightarrow> qhead q = 0"

definition gq_push :: "gp \<Rightarrow> links \<times> gQueue \<Rightarrow> links \<times> gQueue" where
  "gq_push g = (\<lambda>(lk, q).
     (lk(g := qhead q),
      q\<lparr>qhead := g, qtail := (if qtail q = 0 then g else qtail q)\<rparr>))"

definition gq_pushBack :: "gp \<Rightarrow> links \<times> gQueue \<Rightarrow> links \<times> gQueue" where
  "gq_pushBack g = (\<lambda>(lk, q).
     let lk = lk(g := 0) in
     if qtail q \<noteq> 0 then (lk(qtail q := g), q\<lparr>qtail := g\<rparr>)
     else (lk, q\<lparr>qhead := g, qtail := g\<rparr>))"

definition gq_pushBackAll :: "gQueue \<Rightarrow> links \<times> gQueue \<Rightarrow> links \<times> gQueue" where
  "gq_pushBackAll q2 = (\<lambda>(lk, q).
     if qtail q2 = 0 then (lk, q)
     else let lk = lk(qtail q2 := 0) in
       if qtail q \<noteq> 0 then (lk(qtail q := qhead q2), q\<lparr>qtail := qtail q2\<rparr>)
       else (lk, q\<lparr>qhead := qhead q2, qtail := qtail q2\<rparr>))"

definition gq_pop :: "links \<times> gQueue \<Rightarrow> gp \<times> links \<times> gQueue" where
  "gq_pop = (\<lambda>(lk, q).
     let g = qhead q in
     if g \<noteq> 0 then
       (let q = q\<lparr>qhead := lk g\<rparr> in
        (g, lk, if qhead q = 0 then q\<lparr>qtail := 0\<rparr> else q))
     else (g, lk, q))"

definition gq_popList :: "gQueue \<Rightarrow> gList \<times> gQueue" where
  "gq_popList q = (\<lparr>lhead = qhead q\<rparr>, empty_gQueue)"

definition gl_empty :: "gList \<Rightarrow> bool" where
  "gl_empty l \<longleftrightarrow> lhead l = 0"

definition gl_push :: "gp \<Rightarrow> links \<times> gList \<Rightarrow> links \<times> gList" where
  "gl_push g = (\<lambda>(lk, l). (lk(g := lhead l), l\<lparr>lhead := g\<rparr>))"

definition gl_pushAll :: "gQueue \<Rightarrow> links \<times> gList \<Rightarrow> links \<times> gList" where
  "gl_pushAll q = (\<lambda>(lk, l).
     if \<not> gq_empty q then (lk(qtail q := lhead l), l\<lparr>lhead := qhead q\<rparr>) else (lk, l))"

definition gl_pop :: "links \<times> gList \<Rightarrow> gp \<times> links \<times> gList" where
  "gl_pop = (\<lambda>(lk, l).
     let g = lhead l in if g \<noteq> 0 then (g, lk, l\<lparr>lhead := lk g\<rparr>) else (g, lk, l))"

section \<open>What the links represent\<close>

text \<open>\<open>linked lk xs z\<close>: the links lead through the non-nil goroutines \<open>xs\<close> and then to \<open>z\<close>.\<close>

fun linked :: "links \<Rightarrow> gp list \<Rightarrow> gp \<Rightarrow> bool" where
  "linked lk [] z = True"
| "linked lk [x] z = (x \<noteq> 0 \<and> lk x = z)"
| "linked lk (x # y # xs) z = (x \<noteq> 0 \<and> lk x = y \<and> linked lk (y # xs) z)"

definition hd0 :: "gp list \<Rightarrow> gp" where "hd0 xs = (if xs = [] then 0 else hd xs)"
definition last0 :: "gp list \<Rightarrow> gp" where "last0 xs = (if xs = [] then 0 else last xs)"

lemma hd0_simps [simp]: "hd0 [] = 0" "hd0 (x # xs) = x"
  "hd0 (xs @ ys) = (if xs = [] then hd0 ys else hd0 xs)"
  by (simp_all add: hd0_def)

lemma last0_simps [simp]: "last0 [] = 0" "last0 (xs @ [x]) = x"
  "last0 (x # xs) = (if xs = [] then x else last0 xs)"
  "ys \<noteq> [] \<Longrightarrow> last0 (xs @ ys) = last0 ys"
  by (simp_all add: last0_def)

definition gq_rep :: "links \<Rightarrow> gQueue \<Rightarrow> gp list \<Rightarrow> bool" where
  "gq_rep lk q xs \<longleftrightarrow> distinct xs \<and> linked lk xs 0 \<and> qhead q = hd0 xs \<and> qtail q = last0 xs"

definition gl_rep :: "links \<Rightarrow> gList \<Rightarrow> gp list \<Rightarrow> bool" where
  "gl_rep lk l xs \<longleftrightarrow> distinct xs \<and> linked lk xs 0 \<and> lhead l = hd0 xs"

lemma linked_Cons: "linked lk (x # xs) z \<longleftrightarrow> x \<noteq> 0 \<and> lk x = (if xs = [] then z else hd xs) \<and> linked lk xs z"
  by (cases xs) auto

lemma linked_nonzero: "linked lk xs z \<Longrightarrow> 0 \<notin> set xs"
  by (induction xs) (auto simp: linked_Cons)

lemma linked_upd [simp]: "g \<notin> set xs \<Longrightarrow> linked (lk(g := v)) xs z = linked lk xs z"
  by (induction xs) (auto simp: linked_Cons)

lemma linked_append:
  "linked lk (xs @ ys) z \<longleftrightarrow> linked lk xs (if ys = [] then z else hd ys) \<and> linked lk ys z"
  by (induction xs) (auto simp: linked_Cons)

lemma linked_upd_last:
  "xs \<noteq> [] \<Longrightarrow> distinct xs \<Longrightarrow> linked lk xs z \<Longrightarrow> linked (lk(last xs := z')) xs z'"
  by (induction xs) (auto simp: linked_Cons)

lemma last_nonzero: "0 \<notin> set xs \<Longrightarrow> xs \<noteq> [] \<Longrightarrow> 0 < (last xs :: gp)"
  by (metis gr0I last_in_set)

lemma gq_rep_empty [simp]: "gq_rep lk empty_gQueue []"
  by (simp add: gq_rep_def empty_gQueue_def)

lemma gq_rep_empty_iff: "gq_rep lk q xs \<Longrightarrow> gq_empty q \<longleftrightarrow> xs = []"
  by (cases xs) (auto simp: gq_rep_def gq_empty_def linked_Cons)

lemma gq_rep_unlinked_upd: "g \<notin> set xs \<Longrightarrow> gq_rep (lk(g := v)) q xs = gq_rep lk q xs"
  by (simp add: gq_rep_def)

text \<open>The operations on what the queue represents.\<close>

lemma gq_push_rep:
  assumes "gq_rep lk q xs" and "g \<noteq> 0" and "g \<notin> set xs"
  shows "case gq_push g (lk, q) of (lk', q') \<Rightarrow> gq_rep lk' q' (g # xs)"
proof -
  have "0 \<notin> set xs" using assms(1) linked_nonzero by (auto simp: gq_rep_def)
  then have "last0 xs = 0 \<longleftrightarrow> xs = []" by (auto simp: last0_def last_nonzero)
  then show ?thesis
    using assms by (auto simp: gq_push_def gq_rep_def linked_Cons hd0_def)
qed

lemma gq_pushBack_rep:
  assumes "gq_rep lk q xs" and "g \<noteq> 0" and "g \<notin> set xs"
  shows "case gq_pushBack g (lk, q) of (lk', q') \<Rightarrow> gq_rep lk' q' (xs @ [g])"
proof (cases "xs = []")
  case True
  with assms show ?thesis by (simp add: gq_pushBack_def gq_rep_def Let_def)
next
  case False
  have "0 \<notin> set xs" using assms(1) linked_nonzero by (auto simp: gq_rep_def)
  with False have l: "last0 xs \<noteq> 0" "last0 xs = last xs" "last xs \<noteq> g"
    using assms(3) by (auto simp: last0_def last_nonzero)
  have "linked (lk(g := 0, last xs := g)) xs g"
    using assms False by (intro linked_upd_last [of _ _ 0]) (auto simp: gq_rep_def)
  then show ?thesis
    using assms False l
    by (simp add: gq_pushBack_def gq_rep_def Let_def linked_append)
qed

lemma gq_pushBackAll_rep:
  assumes "gq_rep lk q xs" and "distinct ys" and "linked lk ys z"
    and "set xs \<inter> set ys = {}" and "qhead q2 = hd0 ys" and "qtail q2 = last0 ys"
  shows "case gq_pushBackAll q2 (lk, q) of (lk', q') \<Rightarrow> gq_rep lk' q' (xs @ ys)"
proof (cases "ys = []")
  case True
  with assms show ?thesis by (simp add: gq_pushBackAll_def)
next
  case False
  have y: "last0 ys \<noteq> 0" "last0 ys = last ys" "hd0 ys = hd ys" "last ys \<in> set ys"
    using assms(3) False linked_nonzero [of lk ys z] by (auto simp: last0_def hd0_def last_nonzero)
  have ly: "linked (lk(last ys := 0)) ys 0"
    using assms False by (intro linked_upd_last [of _ _ z])
  show ?thesis
  proof (cases "xs = []")
    case True
    with assms y ly show ?thesis by (simp add: gq_pushBackAll_def gq_rep_def Let_def)
  next
    case ne: False
    have x: "last0 xs \<noteq> 0" "last0 xs = last xs" "last xs \<in> set xs"
      using assms(1) ne linked_nonzero [of lk xs 0]
      by (auto simp: gq_rep_def last0_def last_nonzero)
    have notin: "last ys \<notin> set xs" "last xs \<notin> set ys" using x y assms(4) by auto
    have "linked (lk(last ys := 0)) xs 0" using assms(1) notin by (simp add: gq_rep_def)
    then have "linked (lk(last ys := 0, last xs := hd ys)) xs (hd ys)"
      using assms ne by (intro linked_upd_last [of _ _ 0]) (auto simp: gq_rep_def)
    with assms x y ly notin ne False show ?thesis
      by (simp add: gq_pushBackAll_def gq_rep_def Let_def linked_append)
  qed
qed

lemma gq_pop_rep:
  assumes "gq_rep lk q (x # xs)"
  shows "\<exists>q'. gq_pop (lk, q) = (x, lk, q') \<and> gq_rep lk q' xs"
proof -
  have "0 \<notin> set (x # xs)"
    using assms linked_nonzero [of lk "x # xs" 0] by (auto simp: gq_rep_def simp del: linked.simps)
  then show ?thesis
    using assms by (cases xs) (auto simp: gq_pop_def gq_rep_def linked_Cons hd0_def Let_def)
qed

lemma gq_pop_empty: "gq_rep lk q [] \<Longrightarrow> gq_pop (lk, q) = (0, lk, q)"
  by (simp add: gq_pop_def gq_rep_def)

lemma gl_push_rep:
  "gl_rep lk l xs \<Longrightarrow> g \<noteq> 0 \<Longrightarrow> g \<notin> set xs \<Longrightarrow>
     case gl_push g (lk, l) of (lk', l') \<Rightarrow> gl_rep lk' l' (g # xs)"
  by (simp add: gl_push_def gl_rep_def linked_Cons hd0_def)

lemma gl_pop_rep:
  "gl_rep lk l (x # xs) \<Longrightarrow> \<exists>l'. gl_pop (lk, l) = (x, lk, l') \<and> gl_rep lk l' xs"
  by (auto simp: gl_pop_def gl_rep_def linked_Cons hd0_def Let_def)

lemma gl_pushAll_rep:
  assumes "gl_rep lk l xs" and "gq_rep lk q ys" and "set xs \<inter> set ys = {}"
  shows "case gl_pushAll q (lk, l) of (lk', l') \<Rightarrow> gl_rep lk' l' (ys @ xs)"
proof (cases "ys = []")
  case True
  with assms show ?thesis by (simp add: gl_pushAll_def gq_rep_empty_iff [OF assms(2)])
next
  case False
  then have "last ys \<notin> set xs" using assms(3) by (metis disjoint_iff last_in_set)
  moreover have "linked (lk(last ys := hd0 xs)) ys (hd0 xs)"
    using assms False by (intro linked_upd_last [of _ _ 0]) (auto simp: gq_rep_def)
  ultimately show ?thesis
    using assms False gq_rep_empty_iff [OF assms(2)]
    by (cases xs) (auto simp: gl_pushAll_def gl_rep_def gq_rep_def linked_append last0_def hd0_def)
qed

lemma gq_popList_rep:
  "gq_rep lk q xs \<Longrightarrow> case gq_popList q of (l, q') \<Rightarrow> gl_rep lk l xs \<and> gq_rep lk q' []"
  by (auto simp: gq_popList_def gl_rep_def gq_rep_def empty_gQueue_def)

section \<open>A \<open>gQueue\<close> is a FIFO queue\<close>

text \<open>Reading a queue off its links, with as much fuel as there may be goroutines.\<close>

definition gq_the :: "links \<times> gQueue \<Rightarrow> gp list" where
  "gq_the s = (THE xs. gq_rep (fst s) (snd s) xs)"

lemma linked_unique: "linked lk xs 0 \<Longrightarrow> linked lk ys 0 \<Longrightarrow> hd0 xs = hd0 ys \<Longrightarrow> xs = ys"
proof (induction xs arbitrary: ys)
  case Nil
  then show ?case by (cases ys) (auto simp: linked_Cons)
next
  case (Cons x xs)
  then obtain ys' where ys: "ys = x # ys'" by (cases ys) (auto simp: linked_Cons)
  have "hd0 xs = hd0 ys'"
    using Cons.prems by (auto simp: ys linked_Cons hd0_def split: if_splits)
  with Cons show ?case by (auto simp: ys linked_Cons)
qed

lemma gq_the_eq: "gq_rep lk q xs \<Longrightarrow> gq_the (lk, q) = xs"
  unfolding gq_the_def
  by (rule the_equality) (auto simp: gq_rep_def intro: linked_unique)

interpretation gq: fifo_queue "\<lambda>s. \<exists>xs. gq_rep (fst s) (snd s) xs" gq_the
  "\<lambda>g s. g \<noteq> 0 \<and> g \<notin> set (gq_the s)" gq_pushBack
  "\<lambda>s. case gq_pop s of (g, s') \<Rightarrow> (if g = 0 then None else Some g, s')"
proof
  fix s :: "links \<times> gQueue" and g
  assume inv: "\<exists>xs. gq_rep (fst s) (snd s) xs"
  obtain lk q xs where s: "s = (lk, q)" and rep: "gq_rep lk q xs"
    using inv by (cases s) auto
  { assume ok: "g \<noteq> 0 \<and> g \<notin> set (gq_the s)"
    obtain lk' q' where p: "gq_pushBack g s = (lk', q')" by (cases "gq_pushBack g s")
    have "gq_rep lk' q' (xs @ [g])"
      using gq_pushBack_rep [OF rep, of g] ok p by (simp add: s gq_the_eq [OF rep])
    then show "\<exists>xs. gq_rep (fst (gq_pushBack g s)) (snd (gq_pushBack g s)) xs"
      and "gq_the (gq_pushBack g s) = gq_the s @ [g]"
      using p by (auto simp: s gq_the_eq [OF rep] gq_the_eq) }
  { show "\<exists>xs. gq_rep (fst (snd (case gq_pop s of (g, s') \<Rightarrow> (if g = 0 then None else Some g, s'))))
        (snd (snd (case gq_pop s of (g, s') \<Rightarrow> (if g = 0 then None else Some g, s')))) xs"
    proof (cases xs)
      case Nil
      with gq_pop_empty [of lk q] rep show ?thesis by (auto simp: s intro!: exI[of _ "[]"])
    next
      case (Cons x xs')
      with gq_pop_rep [of lk q x xs'] rep show ?thesis by (auto simp: s)
    qed }
  { assume "gq_the s = []"
    then have "xs = []" using gq_the_eq [OF rep] s by simp
    then show "fst (case gq_pop s of (g, s') \<Rightarrow> (if g = 0 then None else Some g, s')) = None
        \<and> gq_the (snd (case gq_pop s of (g, s') \<Rightarrow> (if g = 0 then None else Some g, s'))) = []"
      using rep gq_pop_empty [of lk q] gq_the_eq [OF rep] by (simp add: s) }
  { fix xs'
    assume "gq_the s = g # xs'"
    then have xs: "xs = g # xs'" using gq_the_eq [OF rep] s by simp
    then obtain q' where "gq_pop (lk, q) = (g, lk, q')" "gq_rep lk q' xs'"
      using gq_pop_rep rep by blast
    moreover have "g \<noteq> 0" using rep xs by (simp add: gq_rep_def linked_Cons)
    ultimately show "fst (case gq_pop s of (g, s') \<Rightarrow> (if g = 0 then None else Some g, s')) = Some g
        \<and> gq_the (snd (case gq_pop s of (g, s') \<Rightarrow> (if g = 0 then None else Some g, s'))) = xs'"
      by (simp add: s gq_the_eq) }
qed

end
