(* ===== verification/RunQueue.thy ===== *)
theory RunQueue
  imports GQueue
begin

text \<open>
  The scheduler's run queues (\<open>runtime/proc.go\<close>, \<open>runtime/runtime2.go\<close>): the 256-slot ring and
  the \<open>runnext\<close> slot of each P, the global queue of the scheduler, and the bit masks and the
  list of idle Ps. Each function is modelled as it runs when no other P interferes: its
  compare-and-swap operations succeed. The head and tail counters are 32-bit and wrap around.
  A \<open>retry\<close> or \<open>continue\<close> that would repeat with the same values forever is the error \<open>Spin\<close>.
\<close>

datatype sched_error = NotFull | Overflow | NonEmptyRunQueue | Spin

record p =
  runqhead :: u32
  runqtail :: u32
  runq :: "gp list"
  runnext :: gp

record sched =
  slinks :: links
  grunq :: gQueue
  runqsize :: int

definition runq_len :: u32 where "runq_len = 256"

definition slot :: "u32 \<Rightarrow> nat" where
  "slot i = unat (i mod runq_len)"

section \<open>The global queue\<close>

definition globrunqput :: "gp \<Rightarrow> sched \<Rightarrow> sched" where
  "globrunqput g s =
     (let (lk, q) = gq_pushBack g (slinks s, grunq s)
      in s\<lparr>slinks := lk, grunq := q, runqsize := runqsize s + 1\<rparr>)"

definition globrunqputhead :: "gp \<Rightarrow> sched \<Rightarrow> sched" where
  "globrunqputhead g s =
     (let (lk, q) = gq_push g (slinks s, grunq s)
      in s\<lparr>slinks := lk, grunq := q, runqsize := runqsize s + 1\<rparr>)"

text \<open>The second component is the cleared \<open>*batch\<close>.\<close>

definition globrunqputbatch :: "gQueue \<Rightarrow> int \<Rightarrow> sched \<Rightarrow> sched \<times> gQueue" where
  "globrunqputbatch batch n s =
     (let (lk, q) = gq_pushBackAll batch (slinks s, grunq s)
      in (s\<lparr>slinks := lk, grunq := q, runqsize := runqsize s + n\<rparr>, empty_gQueue))"

section \<open>Putting goroutines on a P\<close>

definition runqempty :: "p \<Rightarrow> bool" where
  "runqempty p \<longleftrightarrow> runqhead p = runqtail p \<and> runnext p = 0"

fun link_batch :: "gp list \<Rightarrow> links \<Rightarrow> links" where
  "link_batch (a # b # gs) lk = link_batch (b # gs) (lk(a := b))"
| "link_batch _ lk = lk"

definition runqputslow ::
  "gp \<Rightarrow> u32 \<Rightarrow> u32 \<Rightarrow> p \<times> sched \<Rightarrow> sched_error + (p \<times> sched)" where
  "runqputslow g h t = (\<lambda>(p, s).
     let n = (t - h) div 2 in
     if n \<noteq> runq_len div 2 then Inl NotFull
     else let batch = map (\<lambda>i. runq p ! slot (h + of_nat i)) [0..<unat n] @ [g];
              p = p\<lparr>runqhead := h + n\<rparr>;
              s = s\<lparr>slinks := link_batch batch (slinks s)\<rparr>;
              q = \<lparr>qhead = batch ! 0, qtail = batch ! unat n\<rparr>
          in Inr (p, fst (globrunqputbatch q (int (unat (n + 1))) s)))"

text \<open>The part of \<open>runqput\<close> from the label \<open>retry\<close> on.\<close>

definition runqput_tail :: "gp \<Rightarrow> p \<times> sched \<Rightarrow> sched_error + (p \<times> sched)" where
  "runqput_tail g = (\<lambda>(p, s).
     let h = runqhead p; t = runqtail p in
     if t - h < runq_len then
       Inr (p\<lparr>runq := (runq p)[slot t := g], runqtail := t + 1\<rparr>, s)
     else runqputslow g h t (p, s))"

definition runqput :: "gp \<Rightarrow> bool \<Rightarrow> p \<times> sched \<Rightarrow> sched_error + (p \<times> sched)" where
  "runqput g next = (\<lambda>(p, s).
     if next then
       (let oldnext = runnext p; p = p\<lparr>runnext := g\<rparr> in
        if oldnext = 0 then Inr (p, s) else runqput_tail oldnext (p, s))
     else runqput_tail g (p, s))"

text \<open>The loop of \<open>runqputbatch\<close>: the ring and the tail \<open>t\<close>, the count \<open>n\<close> and the queue.\<close>

function putbatch_loop ::
  "u32 \<Rightarrow> gp list \<times> u32 \<times> nat \<times> links \<times> gQueue \<Rightarrow> gp list \<times> u32 \<times> nat \<times> links \<times> gQueue" where
  "putbatch_loop h (rq, t, n, lk, q) =
     (if \<not> gq_empty q \<and> t - h < runq_len then
        (let (g, lk', q') = gq_pop (lk, q)
         in putbatch_loop h (rq[slot t := g], t + 1, Suc n, lk', q'))
      else (rq, t, n, lk, q))"
  by pat_completeness auto

lemma sub_add_1_less:
  fixes t h :: u32
  assumes "t - h < runq_len"
  shows "unat (t + 1 - h) = Suc (unat (t - h))"
proof -
  have "unat (t - h) < 256" using assms by (simp add: runq_len_def word_less_nat_alt)
  then have "unat (t - h + 1) = Suc (unat (t - h))" by (subst unat_add_lem [THEN iffD1]) auto
  then show ?thesis by (simp add: algebra_simps)
qed

termination putbatch_loop
  by (relation "measure (\<lambda>(h, rq, t, n, lk, q). 256 - unat (t - h))")
    (auto simp: sub_add_1_less runq_len_def word_less_nat_alt)

declare putbatch_loop.simps [simp del]

definition runqputbatch ::
  "gQueue \<Rightarrow> int \<Rightarrow> p \<times> sched \<Rightarrow> p \<times> sched \<times> gQueue" where
  "runqputbatch q qsize = (\<lambda>(p, s).
     let (rq, t, n, lk, q) = putbatch_loop (runqhead p) (runq p, runqtail p, 0, slinks s, q);
         qsize = qsize - int n;
         p = p\<lparr>runq := rq, runqtail := t\<rparr>;
         s = s\<lparr>slinks := lk\<rparr>
     in if \<not> gq_empty q then
          (let (s, q) = globrunqputbatch q qsize s in (p, s, q))
        else (p, s, q))"

section \<open>Taking goroutines from a P\<close>

definition runqget :: "p \<Rightarrow> (gp \<times> bool) \<times> p" where
  "runqget p =
     (let next = runnext p in
      if next \<noteq> 0 then ((next, True), p\<lparr>runnext := 0\<rparr>)
      else let h = runqhead p; t = runqtail p in
        if t = h then ((0, False), p)
        else ((runq p ! slot h, False), p\<lparr>runqhead := h + 1\<rparr>))"

text \<open>Pushing the drained goroutines, in order, on \<open>drainQ\<close>.\<close>

fun push_all :: "gp list \<Rightarrow> links \<times> gQueue \<Rightarrow> links \<times> gQueue" where
  "push_all [] s = s"
| "push_all (g # gs) s = push_all gs (gq_pushBack g s)"

definition runqdrain :: "p \<Rightarrow> links \<Rightarrow> sched_error + (gQueue \<times> nat \<times> p \<times> links)" where
  "runqdrain p lk =
     (let oldNext = runnext p;
          (lk, q, n, p) = (if oldNext \<noteq> 0 then
              (let (lk, q) = gq_pushBack oldNext (lk, empty_gQueue)
               in (lk, q, 1, p\<lparr>runnext := 0\<rparr>))
            else (lk, empty_gQueue, 0, p));
          h = runqhead p; t = runqtail p; qn = t - h
      in if qn = 0 then Inr (q, n, p, lk)
         else if qn > runq_len then Inl Spin
         else let p = p\<lparr>runqhead := h + qn\<rparr>;
                  (lk, q) = push_all (map (\<lambda>i. runq p ! slot (h + of_nat i)) [0..<unat qn]) (lk, q)
              in Inr (q, n + unat qn, p, lk))"

text \<open>
  Copying \<open>n\<close> slots from index \<open>h\<close> of one ring to index \<open>bh\<close> of another, slot by slot.
\<close>

fun copy_slots :: "nat \<Rightarrow> nat \<Rightarrow> gp list \<Rightarrow> u32 \<Rightarrow> gp list \<Rightarrow> u32 \<Rightarrow> gp list" where
  "copy_slots i 0 src h batch bh = batch"
| "copy_slots i (Suc n) src h batch bh =
     copy_slots (Suc i) n src h (batch[slot (bh + of_nat i) := src ! slot (h + of_nat i)]) bh"

definition runqgrab ::
  "p \<Rightarrow> gp list \<Rightarrow> u32 \<Rightarrow> bool \<Rightarrow> sched_error + (u32 \<times> gp list \<times> p)" where
  "runqgrab p batch batchHead stealRunNextG =
     (let h = runqhead p; t = runqtail p; n = t - h; n = n - n div 2 in
      if n = 0 then
        (if stealRunNextG \<and> runnext p \<noteq> 0
         then Inr (1, batch[slot batchHead := runnext p], p\<lparr>runnext := 0\<rparr>)
         else Inr (0, batch, p))
      else if n > runq_len div 2 then Inl Spin
      else Inr (n, copy_slots 0 (unat n) (runq p) h batch batchHead, p\<lparr>runqhead := h + n\<rparr>))"

text \<open>\<open>runqsteal\<close>: \<open>p\<close> steals from \<open>p2\<close>.\<close>

definition runqsteal :: "p \<Rightarrow> p \<Rightarrow> bool \<Rightarrow> sched_error + (gp \<times> p \<times> p)" where
  "runqsteal p p2 stealRunNextG =
     (let t = runqtail p in
      case runqgrab p2 (runq p) t stealRunNextG of
        Inl e \<Rightarrow> Inl e
      | Inr (n, batch, p2) \<Rightarrow>
          let p = p\<lparr>runq := batch\<rparr> in
          if n = 0 then Inr (0, p, p2)
          else let n = n - 1; g = runq p ! slot (t + n) in
            if n = 0 then Inr (g, p, p2)
            else let h = runqhead p in
              if t - h + n \<ge> runq_len then Inl Overflow
              else Inr (g, p\<lparr>runqtail := t + n\<rparr>, p2))"

text \<open>\<open>globrunqget\<close>: the loop puts \<open>n\<close> goroutines of the global queue on the P.\<close>

fun globget_loop :: "nat \<Rightarrow> p \<times> sched \<Rightarrow> sched_error + (p \<times> sched)" where
  "globget_loop 0 (p, s) = Inr (p, s)"
| "globget_loop (Suc n) (p, s) =
     (let (g, lk, q) = gq_pop (slinks s, grunq s) in
      case runqput g False (p, s\<lparr>slinks := lk, grunq := q\<rparr>) of
        Inl e \<Rightarrow> Inl e
      | Inr (p, s) \<Rightarrow> globget_loop n (p, s))"

definition globrunqget_n :: "int \<Rightarrow> int \<Rightarrow> int \<Rightarrow> int" where
  "globrunqget_n gomaxprocs mx sz =
     (let n = sz div gomaxprocs + 1;
          n = (if n > sz then sz else n);
          n = (if mx > 0 \<and> n > mx then mx else n)
      in if n > uint runq_len div 2 then uint runq_len div 2 else n)"

definition globrunqget :: "int \<Rightarrow> int \<Rightarrow> p \<times> sched \<Rightarrow> sched_error + (gp \<times> p \<times> sched)" where
  "globrunqget gomaxprocs mx = (\<lambda>(p, s).
     if runqsize s = 0 then Inr (0, p, s)
     else let n = globrunqget_n gomaxprocs mx (runqsize s);
              s = s\<lparr>runqsize := runqsize s - n\<rparr>;
              (g, lk, q) = gq_pop (slinks s, grunq s)
          in (case globget_loop (nat (n - 1)) (p, s\<lparr>slinks := lk, grunq := q\<rparr>) of
                Inl e \<Rightarrow> Inl e
              | Inr (p, s) \<Rightarrow> Inr (g, p, s)))"

section \<open>The ring of a P as a list\<close>

text \<open>The goroutines in the ring, oldest first, and all the goroutines of the P.\<close>

definition local_gs :: "p \<Rightarrow> gp list" where
  "local_gs p = ring (runq p) (unat (runqhead p)) (unat (runqtail p - runqhead p))"

definition next_gs :: "p \<Rightarrow> gp list" where
  "next_gs p = (if runnext p = 0 then [] else [runnext p])"

definition p_wf :: "p \<Rightarrow> bool" where
  "p_wf p \<longleftrightarrow> length (runq p) = 256 \<and> unat (runqtail p - runqhead p) \<le> 256 \<and> 0 \<notin> set (local_gs p)"

definition sched_rep :: "sched \<Rightarrow> gp list \<Rightarrow> bool" where
  "sched_rep s xs \<longleftrightarrow> gq_rep (slinks s) (grunq s) xs \<and> runqsize s = int (length xs)"

text \<open>Every goroutine is in one place only.\<close>

definition rq_wf :: "p \<Rightarrow> sched \<Rightarrow> gp list \<Rightarrow> bool" where
  "rq_wf p s xs \<longleftrightarrow> p_wf p \<and> sched_rep s xs \<and> distinct (next_gs p @ local_gs p @ xs)"

lemma slot_unat: "slot w = unat w mod 256"
  by (simp add: slot_def runq_len_def unat_mod_distrib)

lemma slot_add: "slot (a + b) = (unat a + unat b) mod 256"
  by (simp add: slot_unat unat_word_ariths mod_mod_cancel)

lemma slot_add_nat: "n \<le> 256 \<Longrightarrow> slot (a + of_nat n) = (unat a + n) mod 256"
  by (simp add: slot_add unat_of_nat)

lemma tail_slot: "slot t = (unat h + unat (t - h)) mod 256"
  using slot_add [of h "t - h"] by simp

lemma ring_add_mod:
  fixes a b :: u32
  shows "length xs = 256 \<Longrightarrow> ring xs (unat (a + b)) n = ring xs (unat a + unat b) n"
  using ring_mod [of xs "unat (a + b)" n] ring_mod [of xs "unat a + unat b" n]
  by (simp add: unat_word_ariths mod_mod_cancel)

lemma length_local_gs: "length (local_gs p) = unat (runqtail p - runqhead p)"
  by (simp add: local_gs_def)

lemma map_slots:
  "length rq = 256 \<Longrightarrow> n \<le> 256 \<Longrightarrow>
     map (\<lambda>i. rq ! slot (h + of_nat i)) [0..<n] = ring rq (unat h) n"
  by (simp add: ring_def slot_add_nat)

lemma ring_drop: "ring xs (h + m) n = drop m (ring xs h (m + n))"
  by (rule nth_equalityI) (simp_all add: nth_ring add.assoc)

lemma ring_take: "n \<le> m \<Longrightarrow> ring xs h n = take n (ring xs h m)"
  by (rule nth_equalityI) (simp_all add: nth_ring)

text \<open>Advancing the head by \<open>n\<close> drops the \<open>n\<close> oldest.\<close>

lemma unat_sub_advance:
  fixes t h n :: u32
  assumes "n \<le> t - h"
  shows "unat (t - (h + n)) = unat (t - h) - unat n"
proof -
  have "t - (h + n) = (t - h) - n" by (simp only: diff_diff_eq)
  then show ?thesis by (simp only: unat_sub [OF assms])
qed

lemma local_gs_advance:
  assumes "p_wf p" and "n \<le> runqtail p - runqhead p"
  shows "local_gs (p\<lparr>runqhead := runqhead p + n\<rparr>) = drop (unat n) (local_gs p)"
    and "p_wf (p\<lparr>runqhead := runqhead p + n\<rparr>)"
proof -
  let ?k = "unat (runqtail p - runqhead p)"
  have n: "unat n \<le> ?k" using assms(2) by (simp add: word_le_nat_alt)
  have "local_gs (p\<lparr>runqhead := runqhead p + n\<rparr>)
      = ring (runq p) (unat (runqhead p) + unat n) (?k - unat n)"
    using assms unat_sub_advance [OF assms(2)]
    by (simp add: local_gs_def ring_add_mod p_wf_def)
  also have "\<dots> = drop (unat n) (local_gs p)"
    using n by (simp add: ring_drop local_gs_def)
  finally show eq: "local_gs (p\<lparr>runqhead := runqhead p + n\<rparr>) = drop (unat n) (local_gs p)" .
  show "p_wf (p\<lparr>runqhead := runqhead p + n\<rparr>)"
    using assms unat_sub_advance [OF assms(2)] eq
    by (auto simp: p_wf_def dest: in_set_dropD)
qed

lemma local_gs_runnext [simp]: "local_gs (p\<lparr>runnext := g\<rparr>) = local_gs p"
  by (simp add: local_gs_def)

lemma p_wf_runnext [simp]: "p_wf (p\<lparr>runnext := g\<rparr>) = p_wf p"
  by (simp add: p_wf_def)

text \<open>A store at the tail and its publication append one goroutine.\<close>

lemma local_gs_put:
  assumes "p_wf p" and "runqtail p - runqhead p < runq_len" and "g \<noteq> 0"
  defines "p' \<equiv> p\<lparr>runq := (runq p)[slot (runqtail p) := g], runqtail := runqtail p + 1\<rparr>"
  shows "local_gs p' = local_gs p @ [g]" and "p_wf p'" and "next_gs p' = next_gs p"
proof -
  let ?k = "unat (runqtail p - runqhead p)"
  have k: "?k < 256" using assms(2) by (simp add: runq_len_def word_less_nat_alt)
  have "local_gs p' = ring ((runq p)[slot (runqtail p) := g]) (unat (runqhead p)) (Suc ?k)"
    using sub_add_1_less [OF assms(2)] by (simp add: local_gs_def p'_def)
  also have "\<dots> = local_gs p @ [g]"
    using ring_push [of ?k "runq p" "unat (runqhead p)" g] k assms(1)
      tail_slot [of "runqtail p" "runqhead p"]
    by (simp add: local_gs_def p_wf_def)
  finally show eq: "local_gs p' = local_gs p @ [g]" .
  show "p_wf p'"
    using assms(1,3) k eq sub_add_1_less [OF assms(2)] by (simp add: p_wf_def p'_def)
  show "next_gs p' = next_gs p" by (simp add: next_gs_def p'_def)
qed

section \<open>The operations move goroutines and lose none\<close>

text \<open>Linking the batch chains it from its head to its last goroutine.\<close>

lemma link_batch_frame: "g \<notin> set gs \<Longrightarrow> link_batch gs lk g = lk g"
  by (induction gs lk rule: link_batch.induct) auto

lemma link_batch_last: "distinct gs \<Longrightarrow> gs \<noteq> [] \<Longrightarrow> link_batch gs lk (last gs) = lk (last gs)"
  by (induction gs lk rule: link_batch.induct) (auto split: if_splits)

lemma link_batch_linked:
  "distinct gs \<Longrightarrow> 0 \<notin> set gs \<Longrightarrow> gs \<noteq> [] \<Longrightarrow> linked (link_batch gs lk) gs (lk (last gs))"
proof (induction gs lk rule: link_batch.induct)
  case (1 a b gs lk)
  have "last (b # gs) \<in> set (b # gs)" by (rule last_in_set) simp
  with 1 have ne: "last (b # gs) \<noteq> a" by (metis distinct.simps(2))
  have "linked (link_batch (b # gs) (lk(a := b))) (b # gs) ((lk(a := b)) (last (b # gs)))"
    using 1 by (intro "1.IH") simp_all
  moreover have "link_batch (b # gs) (lk(a := b)) a = b"
    using 1 by (subst link_batch_frame) simp_all
  ultimately show ?case using 1 ne by simp
qed auto

lemma linked_cong: "(\<And>g. g \<in> set xs \<Longrightarrow> lk g = lk' g) \<Longrightarrow> linked lk xs z = linked lk' xs z"
  by (induction xs) (auto simp: linked_Cons)

lemma gq_rep_cong: "(\<And>g. g \<in> set xs \<Longrightarrow> lk g = lk' g) \<Longrightarrow> gq_rep lk q xs = gq_rep lk' q xs"
  using linked_cong [of xs lk lk'] by (simp add: gq_rep_def)

lemma globrunqputbatch_rep:
  assumes "sched_rep s xs" and "linked (slinks s) ys z" and "distinct (xs @ ys)" and "ys \<noteq> []"
  shows "sched_rep (fst (globrunqputbatch \<lparr>qhead = hd ys, qtail = last ys\<rparr> (int (length ys)) s))
           (xs @ ys)"
proof -
  obtain lk q where p: "gq_pushBackAll \<lparr>qhead = hd ys, qtail = last ys\<rparr> (slinks s, grunq s) = (lk, q)"
    by (cases "gq_pushBackAll \<lparr>qhead = hd ys, qtail = last ys\<rparr> (slinks s, grunq s)")
  have "gq_rep lk q (xs @ ys)"
    using gq_pushBackAll_rep [of "slinks s" "grunq s" xs ys z "\<lparr>qhead = hd ys, qtail = last ys\<rparr>"]
      assms p by (simp add: sched_rep_def hd0_def last0_def)
  then show ?thesis using assms p by (simp add: globrunqputbatch_def sched_rep_def)
qed

text \<open>A full ring: the older half and the new goroutine go to the global queue.\<close>

lemma runqputslow_full:
  assumes "rq_wf p s xs" and "runqtail p - runqhead p = runq_len"
    and "g \<noteq> 0" and "g \<notin> set (next_gs p @ local_gs p @ xs)"
  shows "\<exists>p' s'. runqputslow g (runqhead p) (runqtail p) (p, s) = Inr (p', s')
      \<and> rq_wf p' s' (xs @ take 128 (local_gs p) @ [g])
      \<and> local_gs p' = drop 128 (local_gs p) \<and> next_gs p' = next_gs p
      \<and> runqtail p' - runqhead p' = 128"
proof -
  let ?h = "runqhead p" and ?t = "runqtail p"
  let ?b = "take 128 (local_gs p) @ [g]"
  have wf: "p_wf p" "sched_rep s xs" "distinct (next_gs p @ local_gs p @ xs)"
    using assms(1) by (auto simp: rq_wf_def)
  have len: "length (local_gs p) = 256" using assms(2) by (simp add: length_local_gs runq_len_def)
  have "map (\<lambda>i. runq p ! slot (?h + of_nat i)) [0..<128] = ring (runq p) (unat ?h) 128"
    using wf(1) by (intro map_slots) (auto simp: p_wf_def)
  then have b: "map (\<lambda>i. runq p ! slot (?h + of_nat i)) [0..<128] @ [g] = ?b"
    using assms(2) ring_take [of 128 256 "runq p" "unat ?h"]
    by (simp add: local_gs_def runq_len_def)
  have distb: "distinct ?b" and zb: "0 \<notin> set ?b" and disj: "set xs \<inter> set ?b = {}"
    using wf assms(3,4) by (auto simp: p_wf_def dest: in_set_takeD)
  define s1 where "s1 = s\<lparr>slinks := link_batch ?b (slinks s)\<rparr>"
  have s1: "sched_rep s1 xs"
    using wf(2) disj gq_rep_cong [of xs "link_batch ?b (slinks s)" "slinks s" "grunq s"]
    by (auto simp: s1_def sched_rep_def link_batch_frame disjoint_iff)
  have l1: "linked (slinks s1) ?b (slinks s (last ?b))"
    unfolding s1_def using distb zb link_batch_linked [of ?b "slinks s"] by simp
  define p' where "p' = p\<lparr>runqhead := ?h + 128\<rparr>"
  define s' where "s' = fst (globrunqputbatch \<lparr>qhead = hd ?b, qtail = last ?b\<rparr> (int (length ?b)) s1)"
  have s': "sched_rep s' (xs @ ?b)"
    unfolding s'_def using wf(3) distb disj by (intro globrunqputbatch_rep [OF s1 l1]) auto
  have p': "local_gs p' = drop 128 (local_gs p)" "p_wf p'" "next_gs p' = next_gs p"
    "runqtail p' - runqhead p' = 128"
    using local_gs_advance [OF wf(1), of 128] assms(2)
    by (simp_all add: p'_def runq_len_def next_gs_def diff_diff_eq[symmetric] del: diff_diff_eq)
  have "?b ! 0 = hd ?b" "?b ! 128 = last ?b"
    using len by (cases "local_gs p"; simp add: nth_append)+
  then have "runqputslow g ?h ?t (p, s) = Inr (p', s')"
    using assms(2) b len by (simp add: runqputslow_def runq_len_def p'_def s'_def s1_def Let_def)
  moreover have "rq_wf p' s' (xs @ ?b)"
    using p' s' wf(3) assms(4) set_drop_subset [of 128 "local_gs p"]
    by (auto simp: rq_wf_def dest: in_set_takeD in_set_dropD set_take_disj_set_drop_if_distinct)
  ultimately show ?thesis using p' by auto
qed

lemma rq_wf_cong:
  "rq_wf p s xs \<Longrightarrow> p_wf p' \<Longrightarrow> distinct (next_gs p' @ local_gs p' @ xs) \<Longrightarrow> rq_wf p' s xs"
  by (simp add: rq_wf_def)

lemma local_room:
  assumes "p_wf p"
  shows "runqtail p - runqhead p < runq_len \<or> runqtail p - runqhead p = runq_len"
proof -
  have "unat (runqtail p - runqhead p) \<le> 256" using assms by (simp add: p_wf_def)
  then have "runqtail p - runqhead p \<le> runq_len" by (simp add: runq_len_def word_le_nat_alt)
  then show ?thesis by (auto simp: order_le_less)
qed

text \<open>
  \<open>runqput\<close> with \<open>next = false\<close>: either the goroutine is the last of the ring, or the ring was
  full and its older half goes, with the goroutine, to the end of the global queue.
\<close>

lemma runqput_tail_spec:
  assumes "rq_wf p s xs" and "g \<noteq> 0" and "g \<notin> set (next_gs p @ local_gs p @ xs)"
  obtains (room) p' where "runqput_tail g (p, s) = Inr (p', s)" "rq_wf p' s xs"
      "local_gs p' = local_gs p @ [g]" "next_gs p' = next_gs p"
      "length (local_gs p) < 256"
  | (full) p' s' where "runqput_tail g (p, s) = Inr (p', s')"
      "rq_wf p' s' (xs @ take 128 (local_gs p) @ [g])"
      "local_gs p' = drop 128 (local_gs p)" "next_gs p' = next_gs p"
      "length (local_gs p) = 256"
proof (cases "runqtail p - runqhead p < runq_len")
  case True
  define p' where "p' = p\<lparr>runq := (runq p)[slot (runqtail p) := g], runqtail := runqtail p + 1\<rparr>"
  have wf: "p_wf p" using assms(1) by (simp add: rq_wf_def)
  note put = local_gs_put [OF wf True assms(2), folded p'_def]
  have "rq_wf p' s xs" using assms put by (auto simp: rq_wf_def)
  moreover have "runqput_tail g (p, s) = Inr (p', s)"
    using True by (simp add: runqput_tail_def Let_def p'_def)
  moreover have "length (local_gs p) < 256"
    using True by (simp add: length_local_gs runq_len_def word_less_nat_alt)
  ultimately show thesis using room put by blast
next
  case False
  then have "runqtail p - runqhead p = runq_len"
    using local_room [of p] assms(1) by (simp add: rq_wf_def)
  moreover from this have "length (local_gs p) = 256" by (simp add: length_local_gs runq_len_def)
  moreover have "runqput_tail g (p, s) = runqputslow g (runqhead p) (runqtail p) (p, s)"
    using False by (simp add: runqput_tail_def Let_def)
  ultimately show thesis using runqputslow_full [OF assms(1) _ assms(2,3)] full by metis
qed

text \<open>All the goroutines a P and the global queue hold.\<close>

abbreviation held :: "p \<Rightarrow> gp list \<Rightarrow> gp multiset" where
  "held p xs \<equiv> mset (next_gs p @ local_gs p @ xs)"

lemma runqput_tail_keeps:
  assumes "rq_wf p s xs" and "g \<noteq> 0" and "g \<notin> set (next_gs p @ local_gs p @ xs)"
  shows "\<exists>p' s' xs'. runqput_tail g (p, s) = Inr (p', s') \<and> rq_wf p' s' xs'
           \<and> held p' xs' = add_mset g (held p xs) \<and> next_gs p' = next_gs p"
  using assms
proof (cases rule: runqput_tail_spec)
  case (room p')
  then show ?thesis by (intro exI[of _ p'] exI[of _ s] exI[of _ xs]) simp
next
  case (full p' s')
  have "mset (local_gs p) = mset (take 128 (local_gs p)) + mset (drop 128 (local_gs p))"
    by (metis append_take_drop_id mset_append)
  with full show ?thesis
    by (intro exI[of _ p'] exI[of _ s'] exI[of _ "xs @ take 128 (local_gs p) @ [g]"]) simp
qed

lemma rq_wf_runnext:
  assumes "rq_wf p s xs" and "g \<noteq> 0" and "g \<notin> set (next_gs p @ local_gs p @ xs)"
  shows "rq_wf (p\<lparr>runnext := g\<rparr>) s xs" and "next_gs (p\<lparr>runnext := g\<rparr>) = [g]"
  using assms by (auto simp: rq_wf_def next_gs_def)

lemma runqput_keeps:
  assumes "rq_wf p s xs" and "g \<noteq> 0" and "g \<notin> set (next_gs p @ local_gs p @ xs)"
  shows "\<exists>p' s' xs'. runqput g nxt (p, s) = Inr (p', s') \<and> rq_wf p' s' xs'
           \<and> held p' xs' = add_mset g (held p xs) \<and> (nxt \<longrightarrow> runnext p' = g)"
proof (cases "nxt \<and> runnext p \<noteq> 0")
  case False
  show ?thesis
  proof (cases nxt)
    case True
    with False rq_wf_runnext [OF assms] show ?thesis
      by (intro exI[of _ "p\<lparr>runnext := g\<rparr>"] exI[of _ s] exI[of _ xs])
        (simp add: runqput_def next_gs_def)
  next
    case False
    with runqput_tail_keeps [OF assms] show ?thesis by (auto simp: runqput_def)
  qed
next
  case True
  let ?p = "p\<lparr>runnext := g\<rparr>"
  have o: "next_gs p = [runnext p]" using True by (simp add: next_gs_def)
  have wf: "rq_wf ?p s xs" and ng: "next_gs ?p = [g]" using rq_wf_runnext [OF assms] .
  have "runnext p \<notin> set (next_gs ?p @ local_gs ?p @ xs)"
    using assms True o by (auto simp: rq_wf_def next_gs_def)
  then obtain p' s' xs' where r: "runqput_tail (runnext p) (?p, s) = Inr (p', s')" "rq_wf p' s' xs'"
    "held p' xs' = add_mset (runnext p) (held ?p xs)" "next_gs p' = next_gs ?p"
    using runqput_tail_keeps [OF wf] True by blast
  moreover have "runnext p' = g" using r(4) ng assms(2) by (auto simp: next_gs_def split: if_splits)
  ultimately show ?thesis using True o ng by (auto simp: runqput_def Let_def)
qed

text \<open>\<open>runqget\<close> takes \<open>runnext\<close>, else the oldest of the ring.\<close>

lemma runqget_spec:
  assumes "rq_wf p s xs"
  shows "case runqget p of ((g, inherit), p') \<Rightarrow>
      rq_wf p' s xs
    \<and> (g = 0 \<longrightarrow> next_gs p @ local_gs p = [] \<and> p' = p \<and> \<not> inherit)
    \<and> (g \<noteq> 0 \<longrightarrow> next_gs p @ local_gs p = g # next_gs p' @ local_gs p'
                 \<and> (inherit \<longleftrightarrow> next_gs p \<noteq> []))"
proof (cases "runnext p = 0")
  case False
  then show ?thesis
    using assms by (auto simp: runqget_def next_gs_def rq_wf_def Let_def)
next
  case True
  let ?k = "unat (runqtail p - runqhead p)"
  show ?thesis
  proof (cases "runqtail p = runqhead p")
    case True
    with \<open>runnext p = 0\<close> assms show ?thesis
      by (simp add: runqget_def next_gs_def local_gs_def)
  next
    case False
    have wf: "p_wf p" using assms by (simp add: rq_wf_def)
    have one: "1 \<le> runqtail p - runqhead p" using False
      by (metis eq_iff_diff_eq_0 not_less word_less_1)
    then have k: "?k = Suc (?k - 1)" by (simp add: word_le_nat_alt)
    define p' where "p' = p\<lparr>runqhead := runqhead p + 1\<rparr>"
    have g: "local_gs p = runq p ! slot (runqhead p) # local_gs p'"
    proof -
      have "local_gs p = runq p ! slot (runqhead p) # drop 1 (local_gs p)"
        using ring_Cons [of "runq p" "unat (runqhead p)" "?k - 1"] k wf
        by (simp add: local_gs_def p_wf_def slot_unat)
      then show ?thesis using local_gs_advance(1) [OF wf one] by (simp add: p'_def)
    qed
    moreover have "rq_wf p' s xs"
      using assms local_gs_advance(2) [OF wf one] g by (auto simp: rq_wf_def p'_def next_gs_def)
    moreover have "runq p ! slot (runqhead p) \<noteq> 0" using wf g by (auto simp: p_wf_def)
    ultimately show ?thesis
      using True False by (simp add: runqget_def next_gs_def p'_def Let_def)
  qed
qed

section \<open>Stealing\<close>

lemma length_copy_slots [simp]: "length (copy_slots i n src h batch bh) = length batch"
  by (induction i n src h batch bh rule: copy_slots.induct) simp_all

text \<open>
  Copying after a window of \<open>k + i\<close> goroutines of the destination extends the window, as long
  as the whole fits in the ring.
\<close>

lemma copy_slots_ring:
  assumes "length batch = 256" and "length src = 256" and "k + i + n \<le> 256"
    and "unat bh mod 256 = (hp + k) mod 256"
  shows "ring (copy_slots i n src h batch bh) hp (k + i + n)
           = ring batch hp (k + i) @ ring src (unat h + i) n"
  using assms
proof (induction i n src h batch bh rule: copy_slots.induct)
  case (1 i src h batch bh)
  then show ?case by simp
next
  case (2 i n src h batch bh)
  let ?b = "batch[slot (bh + of_nat i) := src ! slot (h + of_nat i)]"
  have "slot (bh + of_nat i) = (hp + (k + i)) mod 256"
    using 2 by (simp add: slot_add_nat) (metis add.assoc mod_add_left_eq)
  then have "ring ?b hp (Suc (k + i)) = ring batch hp (k + i) @ [src ! slot (h + of_nat i)]"
    using ring_push [of "k + i" batch hp] 2 by simp
  moreover have "src ! slot (h + of_nat i) = src ! ((unat h + i) mod length src)"
    using 2 by (simp add: slot_add_nat)
  ultimately show ?case
    using 2 ring_Cons [of src "unat h + i" n] by simp
qed

lemma half_up: "unat (n - n div 2) = unat n - unat n div 2" for n :: u32
proof -
  have "n div 2 \<le> n" by (simp add: word_le_nat_alt unat_div_distrib)
  then show ?thesis by (simp add: unat_sub unat_div_distrib)
qed

text \<open>
  What \<open>runqgrab\<close> takes: the older half of the ring, rounded up, or, from an empty ring, the
  goroutine in \<open>runnext\<close> when the thief insists.
\<close>

definition grabbed :: "p \<Rightarrow> bool \<Rightarrow> gp list" where
  "grabbed p stealNext =
     (if local_gs p = [] then (if stealNext then next_gs p else [])
      else take (length (local_gs p) - length (local_gs p) div 2) (local_gs p))"

lemma length_grabbed: "p_wf p \<Longrightarrow> length (grabbed p b) \<le> 128"
  by (auto simp: grabbed_def p_wf_def next_gs_def length_local_gs min_def)

lemma runqgrab_spec:
  assumes "p_wf p2" and "length batch = 256" and "k + length (grabbed p2 b) \<le> 256"
    and "unat bh mod 256 = (hp + k) mod 256"
  shows "\<exists>batch' p2'. runqgrab p2 batch bh b = Inr (of_nat (length (grabbed p2 b)), batch', p2')
       \<and> length batch' = 256 \<and> p_wf p2'
       \<and> ring batch' hp (k + length (grabbed p2 b)) = ring batch hp k @ grabbed p2 b
       \<and> mset (next_gs p2 @ local_gs p2) = mset (grabbed p2 b) + mset (next_gs p2' @ local_gs p2')
       \<and> (grabbed p2 b \<noteq> [] \<or> p2' = p2)
       \<and> local_gs p2' = drop (length (local_gs p2) - length (local_gs p2) div 2) (local_gs p2)"
proof -
  let ?d = "runqtail p2 - runqhead p2"
  let ?n = "?d - ?d div 2"
  have n: "unat ?n = length (local_gs p2) - length (local_gs p2) div 2"
    by (simp add: half_up length_local_gs)
  have d: "unat ?d \<le> 256" using assms(1) by (simp add: p_wf_def)
  show ?thesis
  proof (cases "local_gs p2 = []")
    case True
    then have n0: "?n = 0" using n by (simp add: unat_eq_0)
    show ?thesis
    proof (cases "b \<and> runnext p2 \<noteq> 0")
      case True
      then have g: "grabbed p2 b = [runnext p2]"
        using \<open>local_gs p2 = []\<close> by (simp add: grabbed_def next_gs_def)
      have "slot bh = (hp + k) mod length batch" using assms by (simp add: slot_unat)
      then have "ring (batch[slot bh := runnext p2]) hp (Suc k) = ring batch hp k @ [runnext p2]"
        using ring_push [of k batch hp "runnext p2"] assms(2,3) g by simp
      with True g n0 assms(1,2) \<open>local_gs p2 = []\<close> show ?thesis
        by (auto simp: runqgrab_def Let_def next_gs_def)
    next
      case False
      then have "grabbed p2 b = []"
        using \<open>local_gs p2 = []\<close> by (auto simp: grabbed_def next_gs_def)
      with False n0 assms(1,2) \<open>local_gs p2 = []\<close> show ?thesis
        by (auto simp: runqgrab_def Let_def)
    qed
  next
    case False
    then have pos: "0 < length (local_gs p2)" by simp
    have g: "grabbed p2 b = take (unat ?n) (local_gs p2)" "length (grabbed p2 b) = unat ?n"
      using False n by (auto simp: grabbed_def)
    have "0 < unat ?n" using n pos by linarith
    then have n0: "?n \<noteq> 0" by (simp add: unat_gt_0)
    have n128: "\<not> ?n > runq_len div 2"
      using d n by (simp add: runq_len_def word_less_nat_alt length_local_gs)
    have le: "?n \<le> ?d" using n by (simp add: word_le_nat_alt length_local_gs)
    define p2' where "p2' = p2\<lparr>runqhead := runqhead p2 + ?n\<rparr>"
    note adv = local_gs_advance [OF assms(1) le, folded p2'_def]
    have "grabbed p2 b = ring (runq p2) (unat (runqhead p2)) (unat ?n)"
      using ring_take [of "unat ?n" "unat ?d" "runq p2" "unat (runqhead p2)"] n
      by (simp add: g local_gs_def)
    then have "ring (copy_slots 0 (unat ?n) (runq p2) (runqhead p2) batch bh) hp (k + unat ?n)
        = ring batch hp k @ grabbed p2 b"
      using copy_slots_ring [of batch "runq p2" k 0 "unat ?n" bh hp "runqhead p2"] assms g
      by (simp add: p_wf_def)
    moreover have "runqgrab p2 batch bh b
        = Inr (?n, copy_slots 0 (unat ?n) (runq p2) (runqhead p2) batch bh, p2')"
      using n0 n128 by (simp add: runqgrab_def Let_def p2'_def)
    moreover have "of_nat (length (grabbed p2 b)) = ?n"
      using g(2) by simp
    moreover have "mset (local_gs p2) = mset (grabbed p2 b) + mset (local_gs p2')"
      by (metis adv(1) append_take_drop_id g(1) mset_append)
    moreover have "grabbed p2 b \<noteq> []" using g(2) \<open>0 < unat ?n\<close> by auto
    moreover have "next_gs p2' = next_gs p2" by (simp add: p2'_def next_gs_def)
    ultimately show ?thesis
      using adv assms(2) g(2) n
      by (intro exI[of _ "copy_slots 0 (unat ?n) (runq p2) (runqhead p2) batch bh"] exI[of _ p2'])
        (simp add: length_local_gs)
  qed
qed

text \<open>
  Stealing: the last of the goroutines grabbed is returned to run, the others join the thief's
  ring in order; nothing is lost and no overflow is thrown when there is room for what a victim
  can give up.
\<close>

lemma snoc_eq_append: "xs @ [y] = zs @ gs \<Longrightarrow> gs \<noteq> [] \<Longrightarrow> xs = zs @ butlast gs \<and> y = last gs"
  by (cases gs rule: rev_cases) auto

lemma runqsteal_spec:
  assumes "p_wf p" and "p_wf p2" and "length (local_gs p) \<le> 128"
  shows "\<exists>g p' p2'. runqsteal p p2 b = Inr (g, p', p2') \<and> p_wf p' \<and> p_wf p2'
     \<and> (grabbed p2 b = [] \<longrightarrow> g = 0 \<and> local_gs p' = local_gs p \<and> p2' = p2)
     \<and> (grabbed p2 b \<noteq> [] \<longrightarrow> g = last (grabbed p2 b)
          \<and> local_gs p' = local_gs p @ butlast (grabbed p2 b))
     \<and> mset (next_gs p2 @ local_gs p2) = mset (grabbed p2 b) + mset (next_gs p2' @ local_gs p2')
     \<and> next_gs p' = next_gs p"
proof -
  define k where "k = length (local_gs p)"
  let ?G = "grabbed p2 b" and ?h = "runqhead p" and ?t = "runqtail p"
  have G: "length ?G \<le> 128" using assms(2) by (rule length_grabbed)
  have k: "unat (?t - ?h) = k" and k128: "k \<le> 128"
    using assms(3) by (simp_all add: length_local_gs k_def)
  have bh: "unat ?t mod 256 = (unat ?h + k) mod 256"
    using tail_slot [of ?t ?h] k by (simp add: slot_unat)
  obtain batch' p2' where grab: "runqgrab p2 (runq p) ?t b = Inr (of_nat (length ?G), batch', p2')"
    "length batch' = 256" "p_wf p2'"
    "ring batch' (unat ?h) (k + length ?G) = ring (runq p) (unat ?h) k @ ?G"
    "mset (next_gs p2 @ local_gs p2) = mset ?G + mset (next_gs p2' @ local_gs p2')"
    "?G \<noteq> [] \<or> p2' = p2"
    using runqgrab_spec [of p2 "runq p" k b ?t "unat ?h"] assms k128 G bh by (auto simp: p_wf_def)
  have ring_p: "ring (runq p) (unat ?h) k = local_gs p" by (simp add: local_gs_def k)
  have nz: "0 \<notin> set ?G" using assms(2)
    by (auto simp: p_wf_def grabbed_def next_gs_def dest: in_set_takeD split: if_splits)
  show ?thesis
  proof (cases "?G = []")
    case True
    have "local_gs (p\<lparr>runq := batch'\<rparr>) = local_gs p"
    proof -
      have "local_gs (p\<lparr>runq := batch'\<rparr>) = ring batch' (unat ?h) k" by (simp add: local_gs_def k)
      then show ?thesis using grab(4) True ring_p by simp
    qed
    then show ?thesis
      using True grab assms
      by (intro exI[of _ 0] exI[of _ "p\<lparr>runq := batch'\<rparr>"] exI[of _ p2'])
        (auto simp: runqsteal_def p_wf_def next_gs_def)
  next
    case False
    define m where "m = length ?G - 1"
    have m: "length ?G = Suc m" "m < 128" using False G by (auto simp: m_def)
    have "unat (of_nat (length ?G) :: u32) = Suc m" using m by (subst unat_of_nat) simp
    then have nw: "(of_nat (length ?G) :: u32) \<noteq> 0" by auto
    have nw1: "of_nat (length ?G) - 1 = (of_nat m :: u32)" by (simp only: m(1) of_nat_Suc) simp
    have all: "ring batch' (unat ?h) (Suc (k + m)) = local_gs p @ ?G"
      using grab(4) m ring_p by simp
    have split: "ring batch' (unat ?h) (k + m) = local_gs p @ butlast ?G"
      "batch' ! ((unat ?h + (k + m)) mod 256) = last ?G"
      using all ring_Suc [of batch' "unat ?h" "k + m"] grab(2) snoc_eq_append [OF _ False]
      by simp_all
    have g: "batch' ! slot (?t + of_nat m) = last ?G"
      using split(2) bh m(2) slot_add_nat [of m ?t] by simp (metis add.assoc mod_add_left_eq)
    define p' where "p' = p\<lparr>runq := batch', runqtail := ?t + of_nat m\<rparr>"
    have unat_m: "unat (of_nat m :: u32) = m" using m(2) by (simp add: unat_of_nat)
    have dist2: "unat (?t - ?h + of_nat m) = k + m"
    proof -
      have "unat (?t - ?h) + unat (of_nat m :: u32) < 2 ^ 32" using k unat_m k128 m(2) by simp
      then show ?thesis using k unat_m by (simp add: unat_word_ariths)
    qed
    then have dist: "unat (?t + of_nat m - ?h) = k + m" by (simp add: algebra_simps)
    have loc: "local_gs p' = local_gs p @ butlast ?G"
    proof -
      have "local_gs p' = ring batch' (unat ?h) (k + m)" using dist by (simp add: local_gs_def p'_def)
      then show ?thesis using split(1) by simp
    qed
    have wf': "p_wf p'"
      using assms(1) k128 grab(2) dist m(2) loc nz
      by (auto simp: p_wf_def p'_def dest: in_set_butlastD)
    have noov: "\<not> ?t - ?h + of_nat m \<ge> runq_len"
      unfolding word_le_nat_alt dist2 using k128 m(2) by (simp add: runq_len_def)
    have m0: "(of_nat m :: u32) \<noteq> 0" if "m \<noteq> 0"
    proof
      assume "(of_nat m :: u32) = 0"
      then have "unat (of_nat m :: u32) = 0" by (simp only: unat_0)
      with unat_m that show False by simp
    qed
    have "runqsteal p p2 b = Inr (last ?G, p', p2')"
      using grab(1) nw nw1 g noov m0
      by (cases "m = 0") (auto simp: runqsteal_def Let_def p'_def)
    then show ?thesis
      using grab(3,5) loc wf' False
      by (intro exI[of _ "last ?G"] exI[of _ p'] exI[of _ p2']) (auto simp: p'_def next_gs_def)
  qed
qed

section \<open>Batches from and to the global queue\<close>

lemma runqput_shift:
  "runqput g nxt (p, s\<lparr>runqsize := runqsize s + d\<rparr>)
     = map_sum id (\<lambda>(p, s). (p, s\<lparr>runqsize := runqsize s + d\<rparr>)) (runqput g nxt (p, s))"
  by (auto simp: runqput_def runqput_tail_def runqputslow_def globrunqputbatch_def Let_def
      split: prod.splits)

lemma runqput_unshift:
  assumes "runqput g nxt (p, s\<lparr>runqsize := runqsize s + d\<rparr>) = Inr (p', s')"
  shows "runqput g nxt (p, s) = Inr (p', s'\<lparr>runqsize := runqsize s' - d\<rparr>)"
  using assms by (cases "runqput g nxt (p, s)") (auto simp: runqput_shift)

lemma sched_rep_pop:
  assumes "sched_rep s (x # xs)"
  obtains q where "gq_pop (slinks s, grunq s) = (x, slinks s, q)"
    and "sched_rep (s\<lparr>grunq := q, runqsize := runqsize s - 1\<rparr>) xs"
proof -
  obtain q where "gq_pop (slinks s, grunq s) = (x, slinks s, q)" "gq_rep (slinks s) q xs"
    using assms gq_pop_rep [of "slinks s" "grunq s" x xs] unfolding sched_rep_def by blast
  with assms that show thesis by (auto simp: sched_rep_def)
qed

text \<open>
  The loop of \<open>globrunqget\<close> runs with the size already reduced by the goroutines still to move.
\<close>

lemma globget_loop_spec:
  assumes "rq_wf p (s\<lparr>runqsize := runqsize s + int n\<rparr>) xs" and "n \<le> length xs" and "0 \<notin> set xs"
  shows "\<exists>p' s' xs'. globget_loop n (p, s) = Inr (p', s') \<and> rq_wf p' s' xs'
      \<and> held p' xs' = held p xs
      \<and> (length (local_gs p) + n \<le> 256 \<longrightarrow>
           local_gs p' = local_gs p @ take n xs \<and> xs' = drop n xs \<and> next_gs p' = next_gs p)"
  using assms
proof (induction n arbitrary: p s xs)
  case 0
  then show ?case by (intro exI[of _ p] exI[of _ s] exI[of _ xs]) simp
next
  case (Suc n)
  let ?s = "s\<lparr>runqsize := runqsize s + int (Suc n)\<rparr>"
  obtain x ys where xs: "xs = x # ys" using Suc.prems(2) by (cases xs) auto
  have wf: "p_wf p" "sched_rep ?s (x # ys)" "distinct (next_gs p @ local_gs p @ x # ys)"
    using Suc.prems(1) xs by (auto simp: rq_wf_def)
  obtain q where q: "gq_pop (slinks s, grunq s) = (x, slinks s, q)"
    "sched_rep (?s\<lparr>grunq := q, runqsize := runqsize ?s - 1\<rparr>) ys"
    using sched_rep_pop [OF wf(2)] by auto
  define s1 where "s1 = s\<lparr>grunq := q\<rparr>"
  have wf1: "rq_wf p (s1\<lparr>runqsize := runqsize s1 + int n\<rparr>) ys"
    using wf q(2) by (simp add: rq_wf_def s1_def)
  have x: "x \<noteq> 0" "x \<notin> set (next_gs p @ local_gs p @ ys)" using wf(3) Suc.prems(3) xs by auto
  show ?case
    using wf1 x
  proof (cases rule: runqput_tail_spec)
    case (room p2)
    have r: "runqput x False (p, s1) = Inr (p2, s1)"
      using runqput_unshift [of x False p s1 "int n" p2 "s1\<lparr>runqsize := runqsize s1 + int n\<rparr>"]
        room(1) by (simp add: runqput_def)
    obtain p' s' xs' where ih: "globget_loop n (p2, s1) = Inr (p', s')" "rq_wf p' s' xs'"
      "held p' xs' = held p2 ys"
      "length (local_gs p2) + n \<le> 256 \<longrightarrow>
         local_gs p' = local_gs p2 @ take n ys \<and> xs' = drop n ys \<and> next_gs p' = next_gs p2"
      using Suc.IH [OF room(2)] Suc.prems(2,3) xs by auto
    then show ?thesis
      using q(1) r room xs by (intro exI[of _ p'] exI[of _ s'] exI[of _ xs']) (simp add: s1_def)
  next
    case (full p2 s2)
    let ?zs = "ys @ take 128 (local_gs p) @ [x]"
    define s3 where "s3 = s2\<lparr>runqsize := runqsize s2 - int n\<rparr>"
    have r: "runqput x False (p, s1) = Inr (p2, s3)"
      using runqput_unshift [of x False p s1 "int n" p2 s2] full(1) by (simp add: runqput_def s3_def)
    have wf3: "rq_wf p2 (s3\<lparr>runqsize := runqsize s3 + int n\<rparr>) ?zs"
      using full(2) by (simp add: s3_def)
    have nz: "0 \<notin> set ?zs" using x wf(1) Suc.prems(3) xs by (auto simp: p_wf_def dest: in_set_takeD)
    obtain p' s' xs' where ih: "globget_loop n (p2, s3) = Inr (p', s')" "rq_wf p' s' xs'"
      "held p' xs' = held p2 ?zs"
      using Suc.IH [OF wf3 _ nz] Suc.prems(2) xs by auto
    have "mset (local_gs p) = mset (take 128 (local_gs p)) + mset (drop 128 (local_gs p))"
      by (metis append_take_drop_id mset_append)
    then show ?thesis
      using q(1) r ih full xs
      by (intro exI[of _ p'] exI[of _ s'] exI[of _ xs']) (simp add: s1_def)
  qed
qed

lemma globrunqget_n_bounds:
  assumes "0 < gomaxprocs" and "0 < sz"
  shows "1 \<le> globrunqget_n gomaxprocs mx sz" and "globrunqget_n gomaxprocs mx sz \<le> sz"
    and "globrunqget_n gomaxprocs mx sz \<le> 128"
proof -
  have "0 \<le> sz div gomaxprocs" using assms by (simp add: pos_imp_zdiv_nonneg_iff)
  then show "1 \<le> globrunqget_n gomaxprocs mx sz" and "globrunqget_n gomaxprocs mx sz \<le> sz"
    and "globrunqget_n gomaxprocs mx sz \<le> 128"
    using assms by (auto simp: globrunqget_n_def Let_def runq_len_def)
qed

lemma globrunqget_spec:
  fixes gomaxprocs mx :: int
  assumes "rq_wf p s xs" and "0 < gomaxprocs"
  defines "n \<equiv> nat (globrunqget_n gomaxprocs mx (int (length xs)))"
  shows "\<exists>g p' s' xs'. globrunqget gomaxprocs mx (p, s) = Inr (g, p', s') \<and> rq_wf p' s' xs'
      \<and> g = hd0 xs
      \<and> held p xs = (if g = 0 then {#} else {#g#}) + held p' xs'
      \<and> (length (local_gs p) < 130 \<longrightarrow>
           local_gs p' = local_gs p @ take (n - 1) (tl xs) \<and> xs' = drop n xs)"
proof (cases xs)
  case Nil
  with assms show ?thesis
    by (auto simp: globrunqget_def n_def globrunqget_n_def rq_wf_def sched_rep_def)
next
  case (Cons x ys)
  have size: "runqsize s = int (length xs)" and nz: "0 \<notin> set xs"
    and rep: "sched_rep s (x # ys)"
    using assms(1) linked_nonzero [of "slinks s" xs 0] Cons
    by (auto simp: rq_wf_def sched_rep_def gq_rep_def)
  obtain q where q: "gq_pop (slinks s, grunq s) = (x, slinks s, q)"
    "sched_rep (s\<lparr>grunq := q, runqsize := runqsize s - 1\<rparr>) ys"
    using sched_rep_pop [OF rep] by auto
  have m: "globrunqget_n gomaxprocs mx (int (length xs)) = int n"
    and n: "1 \<le> n" "n \<le> length xs" "n \<le> 128"
    using globrunqget_n_bounds [OF assms(2), of "int (length xs)" mx] Cons by (auto simp: n_def)
  define s1 where "s1 = s\<lparr>runqsize := runqsize s - int n, grunq := q\<rparr>"
  have wf1: "rq_wf p (s1\<lparr>runqsize := runqsize s1 + int (n - 1)\<rparr>) ys"
    using assms(1) q(2) Cons n(1) by (simp add: rq_wf_def s1_def of_nat_diff)
  have le: "n - 1 \<le> length ys" and nz': "0 \<notin> set ys" using n nz Cons by auto
  obtain p' s' xs' where l: "globget_loop (n - 1) (p, s1) = Inr (p', s')" "rq_wf p' s' xs'"
    "held p' xs' = held p ys"
    "length (local_gs p) + (n - 1) \<le> 256 \<longrightarrow>
       local_gs p' = local_gs p @ take (n - 1) ys \<and> xs' = drop (n - 1) ys \<and> next_gs p' = next_gs p"
    using globget_loop_spec [OF wf1 le nz'] by blast
  have "globrunqget gomaxprocs mx (p, s) = Inr (x, p', s')"
    using l(1) q(1) m size n(1) Cons
    by (simp add: globrunqget_def s1_def nat_diff_distrib)
  moreover have "drop (n - 1) ys = drop n xs" using n(1) Cons by (cases n) auto
  ultimately show ?thesis
    using l n Cons nz by (intro exI[of _ x] exI[of _ p'] exI[of _ s'] exI[of _ xs']) auto
qed

text \<open>Draining: the queue returned holds everything the P had, \<open>runnext\<close> first.\<close>

lemma push_all_rep:
  "gq_rep lk q xs \<Longrightarrow> distinct (xs @ gs) \<Longrightarrow> 0 \<notin> set gs \<Longrightarrow>
     case push_all gs (lk, q) of (lk', q') \<Rightarrow> gq_rep lk' q' (xs @ gs)"
proof (induction gs arbitrary: lk q xs)
  case (Cons g gs)
  obtain lk1 q1 where p: "gq_pushBack g (lk, q) = (lk1, q1)" by (cases "gq_pushBack g (lk, q)")
  have "gq_rep lk1 q1 (xs @ [g])"
    using gq_pushBack_rep [OF Cons.prems(1), of g] Cons.prems(2,3) p by auto
  from Cons.IH [OF this] Cons.prems p show ?case by simp
qed simp

lemma gq_pushBack_frame:
  "gq_rep lk q xs \<Longrightarrow> x \<notin> set xs \<Longrightarrow> x \<noteq> g \<Longrightarrow> fst (gq_pushBack g (lk, q)) x = lk x"
  by (cases "xs = []") (auto simp: gq_pushBack_def gq_rep_def last0_def Let_def)

lemma push_all_frame:
  "gq_rep lk q xs \<Longrightarrow> distinct (xs @ gs) \<Longrightarrow> 0 \<notin> set gs \<Longrightarrow> x \<notin> set (xs @ gs) \<Longrightarrow>
     fst (push_all gs (lk, q)) x = lk x"
proof (induction gs arbitrary: lk q xs)
  case (Cons g gs)
  obtain lk1 q1 where p: "gq_pushBack g (lk, q) = (lk1, q1)" by (cases "gq_pushBack g (lk, q)")
  have "gq_rep lk1 q1 (xs @ [g])"
    using gq_pushBack_rep [OF Cons.prems(1), of g] Cons.prems(2,3) p by auto
  from Cons.IH [OF this] gq_pushBack_frame [OF Cons.prems(1), of x g] Cons.prems p
  show ?case by simp
qed simp

lemma runqdrain_spec:
  assumes "p_wf p" and "distinct (next_gs p @ local_gs p)"
  shows "\<exists>q n p' lk'. runqdrain p lk = Inr (q, n, p', lk')
      \<and> gq_rep lk' q (next_gs p @ local_gs p) \<and> n = length (next_gs p @ local_gs p)
      \<and> runqempty p' \<and> next_gs p' = [] \<and> local_gs p' = []
      \<and> (\<forall>x. x \<notin> set (next_gs p @ local_gs p) \<longrightarrow> lk' x = lk x)"
proof -
  let ?h = "runqhead p" and ?t = "runqtail p"
  obtain lk1 q1 where start: "(if runnext p \<noteq> 0 then gq_pushBack (runnext p) (lk, empty_gQueue)
      else (lk, empty_gQueue)) = (lk1, q1)" "gq_rep lk1 q1 (next_gs p)"
    using gq_pushBack_rep [of lk empty_gQueue "[]" "runnext p"]
    by (cases "runnext p = 0"; cases "gq_pushBack (runnext p) (lk, empty_gQueue)")
      (auto simp: next_gs_def)
  have len: "unat (?t - ?h) = length (local_gs p)" "length (local_gs p) \<le> 256"
    using assms(1) by (simp_all add: length_local_gs p_wf_def)
  have "map (\<lambda>i. runq p ! slot (?h + of_nat i)) [0..<unat (?t - ?h)] = ring (runq p) (unat ?h) (unat (?t - ?h))"
    using assms(1) by (intro map_slots) (simp_all add: p_wf_def)
  then have gs: "map (\<lambda>i. runq p ! slot (?h + of_nat i)) [0..<unat (?t - ?h)] = local_gs p"
    by (simp only: local_gs_def)
  obtain lk2 q2 where fin: "push_all (local_gs p) (lk1, q1) = (lk2, q2)"
    by (cases "push_all (local_gs p) (lk1, q1)")
  have rep: "gq_rep lk2 q2 (next_gs p @ local_gs p)"
    using push_all_rep [OF start(2) assms(2)] assms(1) fin by (simp add: p_wf_def)
  have frame1: "lk1 x = lk x" if "x \<notin> set (next_gs p)" for x
    using start(1) that gq_pushBack_frame [of lk empty_gQueue "[]" x "runnext p"]
    by (cases "runnext p = 0") (auto simp: next_gs_def)
  have frame: "\<forall>x. x \<notin> set (next_gs p @ local_gs p) \<longrightarrow> lk2 x = lk x"
    using push_all_frame [OF start(2) assms(2)] frame1 assms(1) fin by (auto simp: p_wf_def)
  have room: "\<not> ?t - ?h > runq_len"
    using len by (simp add: runq_len_def word_less_nat_alt)
  show ?thesis
  proof (cases "?t = ?h")
    case True
    then have "local_gs p = []" using len by simp
    with start True rep frame fin show ?thesis
      by (cases "runnext p = 0")
        (auto simp: runqdrain_def next_gs_def runqempty_def local_gs_def Let_def split: prod.splits)
  next
    case False
    then have "?t - ?h \<noteq> 0" by simp
    with start room gs fin rep frame len(1) show ?thesis
      by (cases "runnext p = 0")
        (auto simp: runqdrain_def next_gs_def runqempty_def local_gs_def [where p = "_\<lparr>runqhead := _\<rparr>"]
          Let_def split: prod.splits)
  qed
qed

text \<open>\<open>runqputbatch\<close>: as many as fit go to the ring in order, the rest to the global queue.\<close>

lemma putbatch_loop_spec:
  assumes "p_wf (p\<lparr>runq := rq, runqtail := t\<rparr>)" and "gq_rep lk q ys" and "runqhead p = h"
  defines "p0 \<equiv> p\<lparr>runq := rq, runqtail := t\<rparr>"
  shows "\<exists>rq' t' q'. let k = min (256 - length (local_gs p0)) (length ys) in
      putbatch_loop h (rq, t, n, lk, q) = (rq', t', n + k, lk, q')
    \<and> gq_rep lk q' (drop k ys) \<and> p_wf (p\<lparr>runq := rq', runqtail := t'\<rparr>)
    \<and> local_gs (p\<lparr>runq := rq', runqtail := t'\<rparr>) = local_gs p0 @ take k ys"
  using assms(1,2) unfolding p0_def
proof (induction ys arbitrary: rq t n q)
  case Nil
  then show ?case by (simp add: putbatch_loop.simps gq_rep_empty_iff Let_def)
next
  case (Cons y ys)
  let ?p = "p\<lparr>runq := rq, runqtail := t\<rparr>"
  have ne: "\<not> gq_empty q" using gq_rep_empty_iff [OF Cons.prems(2)] by simp
  obtain q1 where q1: "gq_pop (lk, q) = (y, lk, q1)" "gq_rep lk q1 ys"
    using gq_pop_rep [OF Cons.prems(2)] by blast
  have y: "y \<noteq> 0" using Cons.prems(2) by (simp add: gq_rep_def linked_Cons)
  show ?case
  proof (cases "t - h < runq_len")
    case True
    let ?p1 = "p\<lparr>runq := rq[slot t := y], runqtail := t + 1\<rparr>"
    have "local_gs ?p1 = local_gs ?p @ [y]" "p_wf ?p1"
      using local_gs_put [of ?p y] Cons.prems(1) True y assms(3) by simp_all
    moreover have "length (local_gs ?p) < 256"
      using True assms(3) by (simp add: length_local_gs runq_len_def word_less_nat_alt)
    moreover obtain rq' t' q' where "let k = min (256 - length (local_gs ?p1)) (length ys) in
      putbatch_loop h (rq[slot t := y], t + 1, Suc n, lk, q1) = (rq', t', Suc n + k, lk, q')
    \<and> gq_rep lk q' (drop k ys) \<and> p_wf (p\<lparr>runq := rq', runqtail := t'\<rparr>)
    \<and> local_gs (p\<lparr>runq := rq', runqtail := t'\<rparr>) = local_gs ?p1 @ take k ys"
      using Cons.IH [OF \<open>p_wf ?p1\<close> q1(2), of "Suc n"] by blast
    moreover have "min (256 - length (local_gs ?p)) (Suc (length ys))
        = Suc (min (256 - length (local_gs ?p1)) (length ys))"
      using calculation by simp
    moreover have "putbatch_loop h (rq, t, n, lk, q)
        = putbatch_loop h (rq[slot t := y], t + 1, Suc n, lk, q1)"
      using True ne q1(1) by (simp add: putbatch_loop.simps [of h rq t n lk q])
    ultimately show ?thesis
      by (intro exI[of _ rq'] exI[of _ t'] exI[of _ q']) (simp add: Let_def)
  next
    case False
    then have "256 \<le> length (local_gs ?p)"
      using assms(3) by (simp add: length_local_gs runq_len_def word_less_nat_alt)
    with False show ?thesis
      using Cons.prems by (intro exI[of _ rq] exI[of _ t] exI[of _ q])
        (simp add: putbatch_loop.simps [of h rq t n lk q])
  qed
qed

lemma runqputbatch_spec:
  assumes "rq_wf p s xs" and "gq_rep (slinks s) q ys" and "distinct (next_gs p @ local_gs p @ xs @ ys)"
  shows "\<exists>p' s'. let k = min (256 - length (local_gs p)) (length ys) in
      runqputbatch q (int (length ys)) (p, s) = (p', s', empty_gQueue)
    \<and> rq_wf p' s' (xs @ drop k ys)
    \<and> local_gs p' = local_gs p @ take k ys \<and> next_gs p' = next_gs p"
proof -
  define k where "k = min (256 - length (local_gs p)) (length ys)"
  have wf: "p_wf p" and rep: "sched_rep s xs" using assms(1) by (simp_all add: rq_wf_def)
  obtain rq t q' where l:
    "putbatch_loop (runqhead p) (runq p, runqtail p, 0, slinks s, q) = (rq, t, k, slinks s, q')"
    "gq_rep (slinks s) q' (drop k ys)" "p_wf (p\<lparr>runq := rq, runqtail := t\<rparr>)"
    "local_gs (p\<lparr>runq := rq, runqtail := t\<rparr>) = local_gs p @ take k ys"
    using putbatch_loop_spec [where p = p and rq = "runq p" and t = "runqtail p" and n = 0, OF _ assms(2) refl] wf
    by (auto simp: k_def Let_def)
  define p' where "p' = p\<lparr>runq := rq, runqtail := t\<rparr>"
  have dist: "distinct (next_gs p' @ local_gs p' @ xs @ drop k ys)"
  proof -
    have "mset (next_gs p' @ local_gs p' @ xs @ drop k ys)
        = mset (next_gs p @ local_gs p @ xs) + mset (take k ys @ drop k ys)"
      using l(4) by (simp add: p'_def next_gs_def del: append_take_drop_id)
    also have "\<dots> = mset (next_gs p @ local_gs p @ xs @ ys)" by simp
    finally show ?thesis using assms(3) mset_eq_imp_distinct_iff by blast
  qed
  have nx: "next_gs p' = next_gs p" by (simp add: p'_def next_gs_def)
  have "\<exists>s'. runqputbatch q (int (length ys)) (p, s) = (p', s', empty_gQueue)
      \<and> sched_rep s' (xs @ drop k ys)"
  proof (cases "drop k ys = []")
    case True
    then have "gq_empty q'" using gq_rep_empty_iff [OF l(2)] by simp
    moreover have "q' = empty_gQueue" using l(2) True by (simp add: gq_rep_def empty_gQueue_def)
    ultimately show ?thesis
      using l(1) True rep by (auto simp: runqputbatch_def p'_def Let_def)
  next
    case False
    then have ne: "\<not> gq_empty q'" using gq_rep_empty_iff [OF l(2)] by simp
    have q': "q' = \<lparr>qhead = hd (drop k ys), qtail = last (drop k ys)\<rparr>"
      using l(2) False by (simp add: gq_rep_def hd0_def last0_def)
    have "sched_rep (fst (globrunqputbatch q' (int (length (drop k ys))) s)) (xs @ drop k ys)"
      unfolding q' using rep l(2) dist False
      by (intro globrunqputbatch_rep [of _ _ _ 0]) (auto simp: gq_rep_def)
    moreover have n: "int (length ys) - int k = int (length (drop k ys))"
      by (simp add: k_def)
    have "globrunqputbatch q' (int (length (drop k ys))) s
        = (fst (globrunqputbatch q' (int (length (drop k ys))) s), empty_gQueue)"
      by (simp add: globrunqputbatch_def split: prod.splits)
    then have "runqputbatch q (int (length ys)) (p, s)
        = (p', fst (globrunqputbatch q' (int (length (drop k ys))) s), empty_gQueue)"
      unfolding runqputbatch_def Let_def using ne l(1) n by (simp add: p'_def del: length_drop)
    ultimately show ?thesis by blast
  qed
  then obtain s' where "runqputbatch q (int (length ys)) (p, s) = (p', s', empty_gQueue)"
    "sched_rep s' (xs @ drop k ys)" by blast
  moreover from this(2) have "rq_wf p' s' (xs @ drop k ys)"
    using l(3) dist by (simp add: rq_wf_def p'_def)
  moreover have "local_gs p' = local_gs p @ take k ys" using l(4) by (simp add: p'_def)
  ultimately show ?thesis
    unfolding k_def [symmetric] Let_def using nx by blast
qed

section \<open>The ring is a FIFO queue\<close>

text \<open>
  With room in the ring and \<open>runnext\<close> empty, \<open>runqput\<close> and \<open>runqget\<close> of one P are the queue
  operations; \<open>p_enq\<close> and \<open>p_deq\<close> name them for the interpretation.
\<close>

definition p_enq :: "gp \<Rightarrow> p \<times> sched \<Rightarrow> p \<times> sched" where
  "p_enq g ps = (case runqput g False ps of Inr ps' \<Rightarrow> ps' | Inl e \<Rightarrow> ps)"

definition p_deq :: "p \<times> sched \<Rightarrow> gp option \<times> (p \<times> sched)" where
  "p_deq = (\<lambda>(p, s). case runqget p of ((g, inherit), p') \<Rightarrow> (if g = 0 then None else Some g, (p', s)))"

definition p_room :: "gp \<Rightarrow> p \<times> sched \<Rightarrow> bool" where
  "p_room g ps \<longleftrightarrow> g \<noteq> 0 \<and> length (local_gs (fst ps)) < 256
     \<and> (\<forall>xs. rq_wf (fst ps) (snd ps) xs \<longrightarrow> g \<notin> set (next_gs (fst ps) @ local_gs (fst ps) @ xs))"

definition p_inv :: "p \<times> sched \<Rightarrow> bool" where
  "p_inv ps \<longleftrightarrow> (\<exists>xs. rq_wf (fst ps) (snd ps) xs) \<and> next_gs (fst ps) = []"

lemma p_enq_room:
  assumes "p_inv ps" and "p_room g ps"
  shows "p_inv (p_enq g ps) \<and> local_gs (fst (p_enq g ps)) = local_gs (fst ps) @ [g]"
proof -
  obtain p s xs where ps: "ps = (p, s)" and wf: "rq_wf p s xs" and nx: "next_gs p = []"
    using assms(1) by (cases ps) (auto simp: p_inv_def)
  have g: "g \<noteq> 0" "g \<notin> set (next_gs p @ local_gs p @ xs)" "length (local_gs p) < 256"
    using assms(2) wf by (auto simp: p_room_def ps)
  from wf g(1,2) show ?thesis
  proof (cases rule: runqput_tail_spec)
    case (room p')
    then show ?thesis using nx by (auto simp: ps p_enq_def runqput_def p_inv_def)
  next
    case (full p' s')
    then show ?thesis using g(3) by simp
  qed
qed

interpretation ringq: fifo_queue p_inv "\<lambda>ps. local_gs (fst ps)" p_room p_enq p_deq
proof
  fix ps :: "p \<times> sched" and g :: gp and gs :: "gp list"
  assume inv: "p_inv ps"
  obtain p s xs where ps: "ps = (p, s)" and wf: "rq_wf p s xs" and nx: "next_gs p = []"
    using inv by (cases ps) (auto simp: p_inv_def)
  obtain h b p' where r: "runqget p = ((h, b), p')" by (metis prod.exhaust)
  note get = runqget_spec [OF wf, unfolded r prod.case]
  have nx': "next_gs p' = []" if "h \<noteq> 0"
    using get nx r that by (auto simp: runqget_def next_gs_def Let_def split: if_splits)
  { assume "p_room g ps"
    with inv p_enq_room show "p_inv (p_enq g ps)"
      and "local_gs (fst (p_enq g ps)) = local_gs (fst ps) @ [g]" by blast+ }
  show "p_inv (snd (p_deq ps))"
    using get nx nx' by (cases "h = 0") (auto simp: ps p_deq_def r p_inv_def)
  show "fst (p_deq ps) = None \<and> local_gs (fst (snd (p_deq ps))) = []"
    if "local_gs (fst ps) = []"
    using get nx that by (cases "h = 0") (auto simp: ps p_deq_def r)
  show "fst (p_deq ps) = Some g \<and> local_gs (fst (snd (p_deq ps))) = gs"
    if "local_gs (fst ps) = g # gs"
    using get nx nx' that by (cases "h = 0") (auto simp: ps p_deq_def r)
qed

section \<open>Properties\<close>

text \<open>An example: a P whose counters are about to wrap around, with two goroutines in the ring.\<close>

definition p_ex :: p where
  "p_ex = \<lparr>runqhead = 4294967295, runqtail = 1,
     runq = (replicate 256 0)[255 := 3, 0 := 4], runnext = 5\<rparr>"

definition p_idle :: p where
  "p_idle = \<lparr>runqhead = 4294967290, runqtail = 4294967290, runq = replicate 256 0, runnext = 0\<rparr>"

definition s_ex :: sched where
  "s_ex = \<lparr>slinks = (\<lambda>_. 0)(8 := 9), grunq = \<lparr>qhead = 8, qtail = 9\<rparr>, runqsize = 2\<rparr>"

lemma p_ex_wf:
  "local_gs p_ex = [3, 4]" "next_gs p_ex = [5]" "p_wf p_ex" "rq_wf p_ex s_ex [8, 9]"
proof -
  show l: "local_gs p_ex = [3, 4]"
    by (simp add: local_gs_def p_ex_def ring_def upt_rec)
  show n: "next_gs p_ex = [5]" by (simp add: next_gs_def p_ex_def)
  show w: "p_wf p_ex" using l by (simp add: p_wf_def) (simp add: p_ex_def)
  show "rq_wf p_ex s_ex [8, 9]"
    using l n w by (simp add: rq_wf_def sched_rep_def s_ex_def gq_rep_def)
qed

lemma p_idle_wf: "local_gs p_idle = []" "next_gs p_idle = []" "p_wf p_idle" "rq_wf p_idle s_ex [8, 9]"
proof -
  show l: "local_gs p_idle = []" by (simp add: local_gs_def p_idle_def ring_def)
  show n: "next_gs p_idle = []" by (simp add: next_gs_def p_idle_def)
  show w: "p_wf p_idle" using l by (simp add: p_wf_def) (simp add: p_idle_def)
  show "rq_wf p_idle s_ex [8, 9]"
    using l n w by (simp add: rq_wf_def sched_rep_def s_ex_def gq_rep_def)
qed

text \<open>
  C11: making a goroutine runnable on a P, by \<open>runqput\<close> on every path (into \<open>runnext\<close>, kicking the
  old \<open>runnext\<close> out, into the ring, or half of the full ring to the global queue), ends without
  the \<open>queue is not full\<close> throw, loses and duplicates no goroutine, and leaves the P, the links
  and the global queue well formed.
\<close>

theorem runqput_moves:
  assumes "rq_wf p s xs" and "g \<noteq> 0" and "g \<notin> set (next_gs p @ local_gs p @ xs)"
  shows "\<exists>p' s' xs'. runqput g nxt (p, s) = Inr (p', s') \<and> rq_wf p' s' xs'
           \<and> held p' xs' = add_mset g (held p xs) \<and> (nxt \<longrightarrow> runnext p' = g)"
  using assms by (rule runqput_keeps)

theorem runqput_moves_witness:
  "\<exists>p' s' xs'. runqput 7 True (p_ex, s_ex) = Inr (p', s') \<and> rq_wf p' s' xs'
     \<and> held p' xs' = {#7, 5, 3, 4, 8, 9#} \<and> runnext p' = 7"
  using runqput_moves [OF p_ex_wf(4), of 7 True] by (simp add: p_ex_wf)

text \<open>
  Putting goroutines in the ring of a P with \<open>runqput\<close> while there is room and taking as many
  with \<open>runqget\<close> gives them back in the order they were put, across the wrap-around of the slots
  and of the 32-bit counters.
\<close>

theorem ring_fifo:
  assumes "rq_wf p s xs" and "next_gs p = []" and "local_gs p = []"
    and "ringq.ok_all gs (p, s)"
  shows "fst (ringq.deq_n (length gs) (ringq.enq_all gs (p, s))) = gs"
  using assms by (intro ringq.fifo_roundtrip) (auto simp: p_inv_def)

theorem ring_fifo_witness:
  "fst (ringq.deq_n 1 (ringq.enq_all [7] (p_idle, s_ex))) = [7]"
proof -
  have "p_room 7 (p_idle, s_ex)"
  proof -
    have "xs = [8, 9]" if "rq_wf p_idle s_ex xs" for xs
    proof -
      have "linked (slinks s_ex) xs 0" "hd0 xs = hd0 [8, 9]"
        "linked (slinks s_ex) [8, 9] 0"
        using that p_idle_wf(4) by (simp_all add: rq_wf_def sched_rep_def gq_rep_def)
      then show ?thesis by (intro linked_unique)
    qed
    then have "7 \<notin> set xs" if "rq_wf p_idle s_ex xs" for xs
      using that by fastforce
    then show ?thesis by (simp add: p_room_def p_idle_wf)
  qed
  then show ?thesis using ring_fifo [OF p_idle_wf(4), of "[7]"] p_idle_wf by simp
qed

text \<open>
  C12: a thief with at most half a ring of its own goroutines takes the older half (rounded up) of
  the ring of another P, or its \<open>runnext\<close> when asked to and the ring is empty; it runs the last of
  them and its own ring is extended by the others in order. It ends without the \<open>runq overflow\<close>
  throw and the two Ps together hold the same goroutines as before.
\<close>

theorem runqsteal_moves:
  assumes "p_wf p" and "p_wf p2" and "length (local_gs p) \<le> 128"
  shows "\<exists>g p' p2'. runqsteal p p2 b = Inr (g, p', p2') \<and> p_wf p' \<and> p_wf p2'
     \<and> (grabbed p2 b = [] \<longrightarrow> g = 0 \<and> local_gs p' = local_gs p \<and> p2' = p2)
     \<and> (grabbed p2 b \<noteq> [] \<longrightarrow> g = last (grabbed p2 b)
          \<and> local_gs p' = local_gs p @ butlast (grabbed p2 b))
     \<and> mset (next_gs p2 @ local_gs p2) = mset (grabbed p2 b) + mset (next_gs p2' @ local_gs p2')
     \<and> next_gs p' = next_gs p"
  using assms by (rule runqsteal_spec)

theorem runqsteal_moves_witness:
  "\<exists>p' p2'. runqsteal p_idle p_ex False = Inr (3, p', p2') \<and> local_gs p' = []
     \<and> {#5, 3, 4#} = {#3#} + mset (next_gs p2' @ local_gs p2')"
proof -
  have "grabbed p_ex False = [3]" by (simp add: grabbed_def p_ex_wf)
  then show ?thesis
    using runqsteal_moves [OF p_idle_wf(3) p_ex_wf(3), of False] p_idle_wf(1) by (auto simp: p_ex_wf)
qed

text \<open>
  \<open>globrunqget\<close> takes the oldest goroutine of the global queue to run, moves the next ones, in
  order, to the ring of the P (at most half a ring, when the ring has room for them), and loses
  none even when the ring overflows back into the global queue while they are moved.
\<close>

theorem globrunqget_moves:
  fixes gomaxprocs mx :: int
  assumes "rq_wf p s xs" and "0 < gomaxprocs"
  shows "\<exists>g p' s' xs'. globrunqget gomaxprocs mx (p, s) = Inr (g, p', s') \<and> rq_wf p' s' xs'
      \<and> g = hd0 xs
      \<and> held p xs = (if g = 0 then {#} else {#g#}) + held p' xs'
      \<and> (length (local_gs p) < 130 \<longrightarrow>
           local_gs p' = local_gs p
             @ take (nat (globrunqget_n gomaxprocs mx (int (length xs))) - 1) (tl xs)
         \<and> xs' = drop (nat (globrunqget_n gomaxprocs mx (int (length xs)))) xs)"
  using assms by (rule globrunqget_spec)

theorem globrunqget_moves_witness:
  "\<exists>p' s'. globrunqget 1 0 (p_ex, s_ex) = Inr (8, p', s') \<and> local_gs p' = [3, 4, 9]
     \<and> rq_wf p' s' []"
proof -
  have n: "globrunqget_n 1 0 2 = 2" by (simp add: globrunqget_n_def runq_len_def)
  show ?thesis
    using globrunqget_moves [OF p_ex_wf(4), of 1 0] by (auto simp: n p_ex_wf numeral_2_eq_2)
qed

text \<open>
  Draining a P empties its \<open>runnext\<close> and its ring into one batch, and putting that batch on
  another P appends it in order to that P's ring as far as it has room and to the global queue
  for the rest: no goroutine is lost on the way.
\<close>

theorem drain_and_refill:
  assumes "p_wf p1" and "rq_wf p2 s xs"
    and "distinct (next_gs p2 @ local_gs p2 @ xs @ next_gs p1 @ local_gs p1)"
    and "ys = next_gs p1 @ local_gs p1" and "k = min (256 - length (local_gs p2)) (length ys)"
  shows "\<exists>q p1' lk p2' s'. runqdrain p1 (slinks s) = Inr (q, length ys, p1', lk)
     \<and> runqempty p1'
     \<and> runqputbatch q (int (length ys)) (p2, s\<lparr>slinks := lk\<rparr>) = (p2', s', empty_gQueue)
     \<and> rq_wf p2' s' (xs @ drop k ys) \<and> local_gs p2' = local_gs p2 @ take k ys"
proof -
  have d: "distinct (next_gs p1 @ local_gs p1)" using assms(3) by simp
  obtain q n p1' lk where dr: "runqdrain p1 (slinks s) = Inr (q, n, p1', lk)"
    "gq_rep lk q ys" "n = length ys" "runqempty p1'" "\<forall>x. x \<notin> set ys \<longrightarrow> lk x = slinks s x"
    using runqdrain_spec [OF assms(1) d, of "slinks s"] by (auto simp: assms(4))
  have "gq_rep lk (grunq s) xs = gq_rep (slinks s) (grunq s) xs"
    using dr(5) assms(3,4) by (intro gq_rep_cong) auto
  then have "rq_wf p2 (s\<lparr>slinks := lk\<rparr>) xs"
    using assms(2) by (simp add: rq_wf_def sched_rep_def)
  from runqputbatch_spec [OF this, of q ys] dr assms(3)
  show ?thesis by (simp add: assms(4,5) Let_def) blast
qed

theorem drain_and_refill_witness:
  "\<exists>q p1' lk p2' s'. runqdrain p_ex (slinks s_ex) = Inr (q, 3, p1', lk) \<and> runqempty p1'
     \<and> runqputbatch q 3 (p_idle, s_ex\<lparr>slinks := lk\<rparr>) = (p2', s', empty_gQueue)
     \<and> rq_wf p2' s' [8, 9] \<and> local_gs p2' = [5, 3, 4]"
  using drain_and_refill [OF p_ex_wf(3) p_idle_wf(4) _ refl refl] by (simp add: p_ex_wf p_idle_wf flip: numeral_3_eq_3)

end
