(* ===== verification/StealOrder.thy ===== *)
theory StealOrder
  imports GoPrelude
begin

text \<open>
  The order in which a P visits the others when it looks for work (\<open>randomOrder\<close>,
  \<open>randomEnum\<close>, \<open>gcd\<close>) and the masks of idle Ps (\<open>pMask\<close>), from \<open>runtime/proc.go\<close>.
  All the arithmetic is on \<open>uint32\<close>. The atomic loads and read-modify-writes of one word of a
  mask are single steps, so each operation is a function of the mask.
\<close>

section \<open>Enumerating the Ps\<close>

record randomOrder =
  ro_count :: u32
  coprimes :: "u32 list"

record randomEnum =
  re_i :: u32
  re_count :: u32
  re_pos :: u32
  re_inc :: u32

function go_gcd :: "u32 \<Rightarrow> u32 \<Rightarrow> u32" where
  "go_gcd a b = (if b \<noteq> 0 then go_gcd b (a mod b) else a)"
  by pat_completeness auto
termination
  by (relation "measure (\<lambda>(a, b). unat b)") (auto simp: unat_mod_distrib unat_gt_0)

declare go_gcd.simps [simp del]

text \<open>The loop \<open>for i := uint32(1); i <= count; i++\<close> appends the numbers coprime to \<open>count\<close>.\<close>

definition reset :: "u32 \<Rightarrow> randomOrder" where
  "reset cnt = \<lparr>ro_count = cnt,
     coprimes = filter (\<lambda>i. go_gcd i cnt = 1) (map of_nat [1..<unat cnt + 1])\<rparr>"

definition start :: "randomOrder \<Rightarrow> u32 \<Rightarrow> randomEnum" where
  "start ord i = \<lparr>re_i = 0, re_count = ro_count ord, re_pos = i mod ro_count ord,
     re_inc = coprimes ord ! unat (i mod of_nat (length (coprimes ord)))\<rparr>"

definition enum_done :: "randomEnum \<Rightarrow> bool" where
  "enum_done e \<longleftrightarrow> re_i e = re_count e"

definition enum_next :: "randomEnum \<Rightarrow> randomEnum" where
  "enum_next e = e\<lparr>re_i := re_i e + 1, re_pos := (re_pos e + re_inc e) mod re_count e\<rparr>"

definition position :: "randomEnum \<Rightarrow> u32" where
  "position e = re_pos e"

text \<open>
  The positions visited by \<open>for enum := stealOrder.start(r); !enum.done(); enum.next()\<close>, the
  loop of \<open>stealWork\<close>.
\<close>

function visited :: "randomEnum \<Rightarrow> u32 list" where
  "visited e = (if enum_done e then [] else position e # visited (enum_next e))"
  by pat_completeness auto

lemma remaining_less: "a \<noteq> b \<Longrightarrow> unat (b - (a + 1)) < unat (b - a)" for a b :: u32
proof -
  assume "a \<noteq> b"
  then have "1 \<le> b - a" by (metis eq_iff_diff_eq_0 not_less word_less_1)
  then have "unat (b - a - 1) = unat (b - a) - 1" and "0 < unat (b - a)"
    by (simp_all add: unat_sub word_le_nat_alt)
  then show ?thesis by (simp add: diff_diff_eq)
qed

termination visited
  by (relation "measure (\<lambda>e. unat (re_count e - re_i e))")
    (auto simp: enum_done_def enum_next_def remaining_less)

declare visited.simps [simp del]

lemma go_gcd_gcd: "unat (go_gcd a b) = gcd (unat a) (unat b)"
proof (induction a b rule: go_gcd.induct)
  case (1 a b)
  show ?case
  proof (cases "b = 0")
    case True
    then show ?thesis by (simp add: go_gcd.simps)
  next
    case False
    then have "unat (go_gcd a b) = gcd (unat b) (unat a mod unat b)"
      using 1 by (simp add: go_gcd.simps [of a b] unat_mod_distrib)
    then show ?thesis by (simp only: gcd_red_nat [of "unat a" "unat b"])
  qed
qed

text \<open>The state after \<open>k\<close> steps, in \<open>nat\<close>.\<close>

lemma visited_from:
  assumes "unat (re_count e) = n" and "0 < n" and "n < 2 ^ 31" and "unat (re_pos e) < n"
    and "unat (re_inc e) \<le> n" and "unat (re_i e) + m = n"
  shows "map unat (visited e) = map (\<lambda>k. (unat (re_pos e) + k * unat (re_inc e)) mod n) [0..<m]"
  using assms
proof (induction m arbitrary: e)
  case 0
  then have "enum_done e" by (simp add: enum_done_def word_unat_eq_iff)
  then show ?case by (simp add: visited.simps)
next
  case (Suc m)
  let ?e = "enum_next e"
  have "\<not> enum_done e" using Suc.prems by (auto simp: enum_done_def)
  then have v: "visited e = re_pos e # visited ?e"
    by (simp add: visited.simps [of e] position_def)
  have pos: "unat (re_pos ?e) = (unat (re_pos e) + unat (re_inc e)) mod n"
    using Suc.prems by (simp add: enum_next_def unat_mod_distrib unat_word_ariths)
  have i: "unat (re_i ?e) = unat (re_i e) + 1"
    using Suc.prems by (simp add: enum_next_def unat_word_ariths)
  have "map unat (visited ?e)
      = map (\<lambda>k. (unat (re_pos ?e) + k * unat (re_inc ?e)) mod n) [0..<m]"
    using Suc.prems pos i by (intro Suc.IH) (simp_all add: enum_next_def)
  also have "\<dots> = map (\<lambda>k. (unat (re_pos e) + Suc k * unat (re_inc e)) mod n) [0..<m]"
    unfolding pos by (simp add: enum_next_def mod_add_left_eq add.assoc)
  finally have "map unat (visited e)
      = unat (re_pos e) # map (\<lambda>k. (unat (re_pos e) + Suc k * unat (re_inc e)) mod n) [0..<m]"
    by (simp add: v)
  also have "\<dots> = map (\<lambda>k. (unat (re_pos e) + k * unat (re_inc e)) mod n) (0 # map Suc [0..<m])"
    using Suc.prems by (simp add: comp_def)
  also have "0 # map Suc [0..<m] = [0..<Suc m]"
    by (simp add: map_Suc_upt upt_conv_Cons del: upt_Suc)
  finally show ?case .
qed

lemma coprime_steps_distinct:
  fixes p c n :: nat
  assumes "coprime c n" and "j < n" and "k < n" and "(p + j * c) mod n = (p + k * c) mod n"
  shows "j = k"
proof -
  have "a = b" if "a \<le> b" "b < n" "(p + a * c) mod n = (p + b * c) mod n" for a b
  proof -
    have "(p + b * c) mod n = (p + a * c) mod n \<longleftrightarrow> n dvd (p + b * c) - (p + a * c)"
      using that(1) by (intro mod_eq_dvd_iff_nat) (simp add: mult_le_mono1)
    then have "n dvd (p + b * c) - (p + a * c)" using that(3) by simp
    then have "n dvd (b - a) * c" by (simp add: diff_mult_distrib)
    then have "n dvd b - a" using assms(1) by (simp add: coprime_commute coprime_dvd_mult_left_iff)
    then show ?thesis using that by (auto dest: dvd_imp_le)
  qed
  then show ?thesis using assms by (metis nat_le_linear)
qed

lemma start_inc:
  fixes cnt r :: u32
  assumes "0 < cnt" and "cnt < 2 ^ 31"
  defines "e \<equiv> start (reset cnt) r"
  shows "coprime (unat (re_inc e)) (unat cnt)" and "unat (re_inc e) \<le> unat cnt"
proof -
  let ?cs = "coprimes (reset cnt)"
  have n: "0 < unat cnt" "unat cnt < 2 ^ 31"
    using assms(1,2) by (simp_all add: unat_gt_0 word_less_nat_alt)
  have "go_gcd 1 cnt = 1"
    using go_gcd_gcd [of 1 cnt] by (simp add: word_unat_eq_iff)
  moreover have "of_nat 1 \<in> set (map of_nat [1..<unat cnt + 1] :: u32 list)"
    unfolding set_map using n(1) by (intro imageI) (simp del: upt_Suc)
  ultimately have "(1 :: u32) \<in> set ?cs" by (simp add: reset_def del: upt_Suc)
  then have len: "0 < length ?cs" by (metis length_pos_if_in_set)
  have "length ?cs \<le> length (map of_nat [1..<unat cnt + 1] :: u32 list)"
    by (simp only: reset_def randomOrder.simps length_filter_le)
  then have "length ?cs \<le> unat cnt" by (simp only: length_map length_upt)
  then have lw: "unat (of_nat (length ?cs) :: u32) = length ?cs"
    using n(2) by (simp add: unat_of_nat)
  have "unat (r mod of_nat (length ?cs)) < length ?cs"
    using len lw by (simp add: unat_mod_distrib)
  then have "re_inc e \<in> set ?cs" by (simp add: e_def start_def)
  then obtain k where k: "re_inc e = of_nat k" "k \<le> unat cnt" "go_gcd (re_inc e) cnt = 1"
    by (auto simp: reset_def simp del: upt_Suc)
  have uk: "unat (re_inc e) = k" using k(1,2) n(2) by (simp add: unat_of_nat)
  show "unat (re_inc e) \<le> unat cnt" using uk k(2) by simp
  show "coprime (unat (re_inc e)) (unat cnt)"
  proof -
    have "gcd (unat (re_inc e)) (unat cnt) = unat (1 :: u32)"
      by (simp only: go_gcd_gcd [symmetric] k(3))
    then show ?thesis by (simp add: coprime_iff_gcd_eq_1)
  qed
qed

text \<open>
  C13: whatever the random number, looking for work visits every P exactly once.
\<close>

theorem steal_order_visits_all:
  assumes "0 < cnt" and "cnt < 2 ^ 31"
  shows "distinct (visited (start (reset cnt) r))
       \<and> set (visited (start (reset cnt) r)) = {i. i < cnt}"
proof -
  define e where "e = start (reset cnt) r"
  define n where "n = unat cnt"
  have n: "0 < n" "n < 2 ^ 31"
    using assms by (simp_all add: n_def unat_gt_0 word_less_nat_alt)
  have e: "re_count e = cnt" "re_i e = 0" "unat (re_pos e) < n"
    using n by (simp_all add: e_def start_def reset_def unat_mod_distrib n_def)
  note inc = start_inc [OF assms, of r, folded e_def n_def]
  let ?f = "\<lambda>k. (unat (re_pos e) + k * unat (re_inc e)) mod n"
  have v: "map unat (visited e) = map ?f [0..<n]"
    using e inc n by (intro visited_from) (simp_all add: n_def)
  have "inj_on ?f {0..<n}"
  proof (rule inj_onI)
    fix x y
    assume "x \<in> {0..<n}" and "y \<in> {0..<n}" and eq: "?f x = ?f y"
    then show "x = y" by (intro coprime_steps_distinct [OF inc(1) _ _ eq]) simp_all
  qed
  then have d: "distinct (map unat (visited e))" and "card (?f ` {0..<n}) = n"
    unfolding v by (simp_all add: distinct_map card_image)
  then have "?f ` {0..<n} = {0..<n}"
    using n(1) by (intro card_subset_eq) auto
  moreover have "unat ` set (visited e) = ?f ` {0..<n}"
    by (simp only: v set_map set_upt flip: list.set_map)
  ultimately have "unat ` set (visited e) = {0..<n}" by simp
  moreover have "{0..<n} = unat ` {i. i < cnt}"
  proof (intro set_eqI iffI)
    fix x
    assume "x \<in> {0..<n}"
    then have "unat (of_nat x :: u32) = x" using n(2) by (simp add: unat_of_nat)
    with \<open>x \<in> {0..<n}\<close> show "x \<in> unat ` {i. i < cnt}"
      by (intro image_eqI [of _ _ "of_nat x"]) (simp_all add: n_def word_less_nat_alt)
  qed (auto simp: n_def word_less_nat_alt)
  ultimately have "unat ` set (visited e) = unat ` {i. i < cnt}" by simp
  moreover have "inj (unat :: u32 \<Rightarrow> nat)" 
    by (rule injI) (rule word_unat_eq_iff [THEN iffD2])
  ultimately have "set (visited e) = {i. i < cnt}" by (simp add: inj_image_eq_iff)
  then show ?thesis using d by (simp add: e_def distinct_map)
qed

theorem steal_order_visits_all_witness:
  "distinct (visited (start (reset 6) 11)) \<and> set (visited (start (reset 6) 11)) = {i. i < 6}"
  by (rule steal_order_visits_all) simp_all

section \<open>Masks of Ps\<close>

text \<open>
  One bit per P in a slice of 32-bit words. \<open>None\<close> is the run-time panic of an index out of
  range; \<open>set\<close> and \<open>clear\<close> take an \<open>int32\<close>, so a negative number panics too.
\<close>

definition pmask_bit :: "u32 \<Rightarrow> u32" where
  "pmask_bit i = push_bit (unat (i mod 32)) 1"

definition pmask_read :: "u32 list \<Rightarrow> u32 \<Rightarrow> bool option" where
  "pmask_read p i =
     (let w = unat (i div 32) in
      if w < length p then Some ((p ! w) AND pmask_bit i \<noteq> 0) else None)"

definition pmask_set :: "u32 list \<Rightarrow> u32 \<Rightarrow> u32 list option" where
  "pmask_set p i =
     (let w = unat (i div 32) in
      if 0 \<le> sint i \<and> w < length p then Some (p[w := (p ! w) OR pmask_bit i]) else None)"

definition pmask_clear :: "u32 list \<Rightarrow> u32 \<Rightarrow> u32 list option" where
  "pmask_clear p i =
     (let w = unat (i div 32) in
      if 0 \<le> sint i \<and> w < length p then Some (p[w := (p ! w) AND NOT (pmask_bit i)]) else None)"

lemma pmask_bit_iff: "bit (pmask_bit i) n \<longleftrightarrow> n = unat (i mod 32)"
proof -
  have "unat (i mod 32) < 32" by (simp add: unat_mod_distrib)
  then show ?thesis by (auto simp: pmask_bit_def bit_exp_iff possible_bit_word)
qed

lemma pmask_idx: "unat (i mod 32 :: u32) < 32"
  by (simp add: unat_mod_distrib)

lemma pmask_test: "w AND pmask_bit i \<noteq> 0 \<longleftrightarrow> bit w (unat (i mod 32))"
  by (auto simp: bit_eq_iff [of "w AND pmask_bit i" 0] bit_and_iff pmask_bit_iff pmask_idx)

lemma pmask_same_bit: "i = i' \<longleftrightarrow> unat (i div 32) = unat (i' div 32) \<and> unat (i mod 32) = unat (i' mod 32)"
  by (metis div_mult_mod_eq word_unat_eq_iff)

lemma pmask_set_read:
  assumes "pmask_set p i = Some p'"
  shows "pmask_read p' i' = (if i' = i then Some True else pmask_read p i')"
  using assms pmask_same_bit [of i' i]
  by (auto simp: pmask_set_def pmask_read_def Let_def pmask_test bit_or_iff pmask_bit_iff
      nth_list_update split: if_splits)

lemma pmask_clear_read:
  assumes "pmask_clear p i = Some p'"
  shows "pmask_read p' i' = (if i' = i then Some False else pmask_read p i')"
  using assms pmask_same_bit [of i' i]
  by (auto simp: pmask_clear_def pmask_read_def Let_def pmask_test bit_and_iff bit_not_iff
      pmask_bit_iff nth_list_update pmask_idx split: if_splits)

text \<open>
  A mask is a set of Ps. Setting or clearing the bit of one P changes the answer for that P
  and for no other, whatever word the two share.
\<close>

theorem pmask_set_clear:
  assumes "pmask_set p i = Some p'" and "pmask_clear p' j = Some p''"
  shows "pmask_read p'' k = (if k = j then Some False else if k = i then Some True else pmask_read p k)"
  using pmask_set_read [OF assms(1)] pmask_clear_read [OF assms(2)] by simp

theorem pmask_set_clear_witness:
  "pmask_set [0, 0] 33 = Some [0, 2] \<and> pmask_clear [0, 2] 1 = Some [0, 2] \<and>
   pmask_read [0, 2] 33 = Some True"
proof -
  have s: "pmask_set [0, 0] 33 = Some [0, 2]" and c: "pmask_clear [0, 2] 1 = Some [0, 2]"
    by (simp_all add: pmask_set_def pmask_clear_def pmask_bit_def)
  with pmask_set_clear [OF s c, of 33] show ?thesis by simp
qed

end
