(* ===== verification/Mutex.thy ===== *)
theory Mutex
  imports GoPrelude
begin

unbundle bit_operations_syntax

text \<open>
  \<open>sync.Mutex\<close> (\<open>sync/mutex.go\<close>) and the semaphore it sleeps on (\<open>runtime/sema.go\<close>), as a
  system of goroutines that interleave at every access to the shared word \<open>state\<close> and to the
  semaphore. The state is the 32-bit word of the source: bit 0 is \<open>mutexLocked\<close>, bit 1
  \<open>mutexWoken\<close>, bit 2 \<open>mutexStarving\<close>, and the rest counts the waiters.

  A goroutine is its program point together with the local variables of \<open>lockSlow\<close>; a step runs
  it up to its next access to shared memory. What the model leaves open is given to the step:
  whether \<open>runtime_canSpin\<close> allows a spin, whether the goroutine has waited for more than
  \<open>starvationThresholdNs\<close>, and whether goroutines wait on other addresses of the same \<open>semaRoot\<close>.
  \<open>runtime_nanotime\<close> never returns 0, so \<open>waitStartTime != 0\<close> is the flag \<open>waited\<close>.

  The semaphore is the count \<open>msema\<close>, and of its \<open>semaRoot\<close> the lock (\<open>rlock\<close>), the part of \<open>nwait\<close> that
  counts waiters on this address, and the queue of this address, first waiter first (\<open>SemaRoot\<close> shows that
  the treap gives it). Both functions read or change \<open>msema\<close> and read \<open>nwait\<close> without the lock, so each of
  these accesses is a step of its own; \<open>nwait\<close> and the queue change only under the lock, so taking the
  lock is one step with the first access under it, and giving it back with the last one. \<open>cansemacquire\<close> is
  its successful compare-and-swap, or its load of 0. Every sudog is queued with ticket 0.
\<close>

section \<open>State\<close>

definition mutexLocked :: u32 where "mutexLocked = 1"
definition mutexWoken :: u32 where "mutexWoken = 2"
definition mutexStarving :: u32 where "mutexStarving = 4"
definition mutexWaiterShift :: nat where "mutexWaiterShift = 3"

record lock_local =
  old :: u32
  awoke :: bool
  starving :: bool
  waited :: bool
  queueLifo :: bool

text \<open>
  Program points of \<open>Lock\<close>: outside, at the top of the loop of \<open>lockSlow\<close>, before it reads the state; in
  \<open>semacquire1\<close> before the easy case, before it takes the lock of the root, before it checks the semaphore
  under the lock, and before it takes itself out of \<open>nwait\<close> again; asleep in the queue, woken there (with the
  ticket), back from \<open>semacquire1\<close>, before the \<open>AddInt32\<close> that takes over a starving mutex, holding the mutex.
  Of \<open>Unlock\<close>: before the compare-and-swap of \<open>unlockSlow\<close>; in \<open>semrelease1\<close> before the \<open>Xadd\<close>, before it
  reads \<open>nwait\<close>, before it looks for a waiter under the lock, and with a waiter taken from the queue. Last,
  after a \<open>throw\<close>.
\<close>

datatype pc =
    Outside | Slow lock_local | Reload lock_local
  | Acquire lock_local | Enter lock_local | Recheck lock_local | Leave lock_local | Asleep lock_local
  | Woken lock_local bool | Acquired lock_local | HandOff u32 | Holding
  | UnlockCas u32 | Release bool | Load bool | Wake bool | Ready nat bool | Thrown

record mutex =
  mstate :: u32
  msema :: u32
  rlock :: bool
  nwait :: u32
  mqueue :: "nat list"
  gs :: "pc list"

section \<open>The code\<close>

text \<open>\<open>Lock\<close>: the fast path, or the read of the state at the start of \<open>lockSlow\<close>.\<close>

definition lock_start :: "u32 \<Rightarrow> pc \<times> u32" where
  "lock_start m = (if m = 0 then (Holding, mutexLocked)
     else (Reload \<lparr>old = 0, awoke = False, starving = False, waited = False, queueLifo = False\<rparr>, m))"

text \<open>One iteration of the loop of \<open>lockSlow\<close>, up to the call of \<open>runtime_SemacquireMutex\<close>.\<close>

definition lockSlow_iter :: "bool \<Rightarrow> lock_local \<Rightarrow> u32 \<Rightarrow> pc \<times> u32" where
  "lockSlow_iter spin l m =
     (if old l AND (mutexLocked OR mutexStarving) = mutexLocked \<and> spin then
        (let won = \<not> awoke l \<and> old l AND mutexWoken = 0 \<and>
               signed_drop_bit mutexWaiterShift (old l) \<noteq> 0 \<and> m = old l
         in (Reload (l\<lparr>awoke := awoke l \<or> won\<rparr>), if won then old l OR mutexWoken else m))
      else
        let new = old l;
            new = (if old l AND mutexStarving = 0 then new OR mutexLocked else new);
            new = (if old l AND (mutexLocked OR mutexStarving) \<noteq> 0
                   then new + push_bit mutexWaiterShift 1 else new);
            new = (if starving l \<and> old l AND mutexLocked \<noteq> 0 then new OR mutexStarving else new)
        in if awoke l \<and> new AND mutexWoken = 0 then (Thrown, m)
           else let new = (if awoke l then new AND NOT mutexWoken else new) in
             if m = old l then
               (if old l AND (mutexLocked OR mutexStarving) = 0 then (Holding, new)
                else (Acquire (l\<lparr>queueLifo := waited l, waited := True\<rparr>), new))
             else (Reload l, m))"

text \<open>From the return of \<open>runtime_SemacquireMutex\<close> to the next access: it reads the state.\<close>

definition lockSlow_woken :: "bool \<Rightarrow> lock_local \<Rightarrow> u32 \<Rightarrow> pc" where
  "lockSlow_woken late l m =
     (let starv = starving l \<or> late in
      if m AND mutexStarving \<noteq> 0 then
        (if m AND (mutexLocked OR mutexWoken) \<noteq> 0 \<or> signed_drop_bit mutexWaiterShift m = 0
         then Thrown
         else let delta = mutexLocked - push_bit mutexWaiterShift 1
           in HandOff (if \<not> starv \<or> signed_drop_bit mutexWaiterShift m = 1
                then delta - mutexStarving else delta))
      else Slow (l\<lparr>old := m, starving := starv, awoke := True\<rparr>))"

text \<open>The head of the loop of \<open>unlockSlow\<close>: give up, or try to wake someone.\<close>

definition unlockSlow_check :: "u32 \<Rightarrow> pc" where
  "unlockSlow_check m =
     (if signed_drop_bit mutexWaiterShift m = 0
       \<or> m AND (mutexLocked OR mutexWoken OR mutexStarving) \<noteq> 0 then Outside else UnlockCas m)"

definition unlockSlow :: "u32 \<Rightarrow> pc" where
  "unlockSlow new =
     (if (new + mutexLocked) AND mutexLocked = 0 then Thrown
      else if new AND mutexStarving = 0 then unlockSlow_check new else Release True)"

definition unlock_start :: "u32 \<Rightarrow> pc \<times> u32" where
  "unlock_start m =
     (let new = m - mutexLocked in (if new \<noteq> 0 then unlockSlow new else Outside, new))"

definition unlockSlow_cas :: "u32 \<Rightarrow> u32 \<Rightarrow> pc \<times> u32" where
  "unlockSlow_cas o' m =
     (if m = o' then (Release False, (o' - push_bit mutexWaiterShift 1) OR mutexWoken)
      else (unlockSlow_check m, m))"

text \<open>\<open>semacquire1\<close>: the easy case, which neither counts nor queues.\<close>

definition cansemacquire :: "u32 \<Rightarrow> bool \<times> u32" where
  "cansemacquire v = (if v = 0 then (False, v) else (True, v - 1))"

definition semacquire1_easy :: "nat \<Rightarrow> lock_local \<Rightarrow> mutex \<Rightarrow> mutex" where
  "semacquire1_easy i l s =
     (case cansemacquire (msema s) of
        (True, v) \<Rightarrow> s\<lparr>msema := v, gs := (gs s)[i := Acquired l]\<rparr>
      | (False, v) \<Rightarrow> s\<lparr>gs := (gs s)[i := Enter l]\<rparr>)"

text \<open>The loop: it counts itself, checks the semaphore once more, and queues up or takes itself out again.\<close>

definition semacquire1_enter :: "nat \<Rightarrow> lock_local \<Rightarrow> mutex \<Rightarrow> mutex option" where
  "semacquire1_enter i l s =
     (if rlock s then None else Some (s\<lparr>rlock := True, nwait := nwait s + 1, gs := (gs s)[i := Recheck l]\<rparr>))"

definition semacquire1_recheck :: "nat \<Rightarrow> lock_local \<Rightarrow> mutex \<Rightarrow> mutex" where
  "semacquire1_recheck i l s =
     (case cansemacquire (msema s) of
        (True, v) \<Rightarrow> s\<lparr>msema := v, gs := (gs s)[i := Leave l]\<rparr>
      | (False, v) \<Rightarrow> s\<lparr>rlock := False, mqueue := (if queueLifo l then i # mqueue s else mqueue s @ [i]),
                       gs := (gs s)[i := Asleep l]\<rparr>)"

definition semacquire1_leave :: "nat \<Rightarrow> lock_local \<Rightarrow> mutex \<Rightarrow> mutex" where
  "semacquire1_leave i l s = s\<lparr>rlock := False, nwait := nwait s - 1, gs := (gs s)[i := Acquired l]\<rparr>"

definition semacquire1_woken :: "nat \<Rightarrow> lock_local \<Rightarrow> bool \<Rightarrow> mutex \<Rightarrow> mutex" where
  "semacquire1_woken i l ticket s =
     (if ticket then s\<lparr>gs := (gs s)[i := Acquired l]\<rparr>
      else case cansemacquire (msema s) of
        (True, v) \<Rightarrow> s\<lparr>msema := v, gs := (gs s)[i := Acquired l]\<rparr>
      | (False, v) \<Rightarrow> s\<lparr>gs := (gs s)[i := Enter l]\<rparr>)"

text \<open>\<open>semrelease1\<close>: it adds a permit, and then looks for a waiter if there may be one.\<close>

definition semrelease1_add :: "nat \<Rightarrow> bool \<Rightarrow> mutex \<Rightarrow> mutex" where
  "semrelease1_add i handoff s = s\<lparr>msema := msema s + 1, gs := (gs s)[i := Load handoff]\<rparr>"

definition semrelease1_load :: "nat \<Rightarrow> bool \<Rightarrow> bool \<Rightarrow> mutex \<Rightarrow> mutex" where
  "semrelease1_load i handoff other s =
     s\<lparr>gs := (gs s)[i := if nwait s = 0 \<and> \<not> other then Outside else Wake handoff]\<rparr>"

definition semrelease1_search :: "nat \<Rightarrow> bool \<Rightarrow> bool \<Rightarrow> mutex \<Rightarrow> mutex option" where
  "semrelease1_search i handoff other s =
     (if rlock s then None
      else if nwait s = 0 \<and> \<not> other then Some (s\<lparr>gs := (gs s)[i := Outside]\<rparr>)
      else case mqueue s of
        [] \<Rightarrow> Some (s\<lparr>gs := (gs s)[i := Outside]\<rparr>)
      | j # q \<Rightarrow> Some (s\<lparr>nwait := nwait s - 1, mqueue := q, gs := (gs s)[i := Ready j handoff]\<rparr>))"

text \<open>The waiter gets a ticket with a hand-off, if the permit is still there, and runs.\<close>

definition semrelease1_ready :: "nat \<Rightarrow> nat \<Rightarrow> bool \<Rightarrow> mutex \<Rightarrow> mutex" where
  "semrelease1_ready i j handoff s =
     (case gs s ! j of
        Asleep l \<Rightarrow>
          (let (ticket, v) = (if handoff then cansemacquire (msema s) else (False, msema s))
           in s\<lparr>msema := v, gs := ((gs s)[j := Woken l ticket])[i := Outside]\<rparr>)
      | _ \<Rightarrow> s\<lparr>gs := (gs s)[i := Thrown]\<rparr>)"

definition put_pc :: "nat \<Rightarrow> pc \<times> u32 \<Rightarrow> mutex \<Rightarrow> mutex" where
  "put_pc i r s = s\<lparr>mstate := snd r, gs := (gs s)[i := fst r]\<rparr>"

text \<open>
  A step of goroutine \<open>i\<close>. A goroutine that holds the mutex may unlock it and one outside may
  lock it at any time; one that is asleep or has thrown does not move, nor does one that waits for the
  lock of the root.
\<close>

definition mutex_step :: "nat \<Rightarrow> bool \<Rightarrow> bool \<Rightarrow> bool \<Rightarrow> mutex \<Rightarrow> mutex option" where
  "mutex_step i spin late other s =
     (if length (gs s) \<le> i then None
      else case gs s ! i of
        Outside \<Rightarrow> Some (put_pc i (lock_start (mstate s)) s)
      | Slow l \<Rightarrow> Some (put_pc i (lockSlow_iter spin l (mstate s)) s)
      | Reload l \<Rightarrow> Some (put_pc i (Slow (l\<lparr>old := mstate s\<rparr>), mstate s) s)
      | Acquire l \<Rightarrow> Some (semacquire1_easy i l s)
      | Enter l \<Rightarrow> semacquire1_enter i l s
      | Recheck l \<Rightarrow> Some (semacquire1_recheck i l s)
      | Leave l \<Rightarrow> Some (semacquire1_leave i l s)
      | Asleep l \<Rightarrow> None
      | Woken l ticket \<Rightarrow> Some (semacquire1_woken i l ticket s)
      | Acquired l \<Rightarrow> Some (put_pc i (lockSlow_woken late l (mstate s), mstate s) s)
      | HandOff delta \<Rightarrow> Some (put_pc i (Holding, mstate s + delta) s)
      | Holding \<Rightarrow> Some (put_pc i (unlock_start (mstate s)) s)
      | UnlockCas m \<Rightarrow> Some (put_pc i (unlockSlow_cas m (mstate s)) s)
      | Release handoff \<Rightarrow> Some (semrelease1_add i handoff s)
      | Load handoff \<Rightarrow> Some (semrelease1_load i handoff other s)
      | Wake handoff \<Rightarrow> semrelease1_search i handoff other s
      | Ready j handoff \<Rightarrow> Some (semrelease1_ready i j handoff s)
      | Thrown \<Rightarrow> None)"

definition mutex_init :: "nat \<Rightarrow> mutex" where
  "mutex_init k = \<lparr>mstate = 0, msema = 0, rlock = False, nwait = 0, mqueue = [], gs = replicate k Outside\<rparr>"

inductive mutex_reach :: "nat \<Rightarrow> mutex \<Rightarrow> bool" for k where
  init: "mutex_reach k (mutex_init k)"
| step: "mutex_reach k s \<Longrightarrow> mutex_step i spin late other s = Some s' \<Longrightarrow> mutex_reach k s'"

section \<open>The fields of the state word\<close>

definition enc :: "bool \<Rightarrow> bool \<Rightarrow> bool \<Rightarrow> nat \<Rightarrow> u32" where
  "enc L W S n = of_nat (of_bool L + 2 * (of_bool W + 2 * (of_bool S + 2 * n)))"

lemma bit_enc:
  "bit (enc L W S n) k \<longleftrightarrow> k < 32 \<and>
     (if k = 0 then L else if k = 1 then W else if k = 2 then S else bit n (k - 3))"
proof -
  have "k = 0 \<or> k = Suc 0 \<or> k = Suc (Suc 0) \<or> (\<exists>j. k = Suc (Suc (Suc j)))" by presburger
  moreover have "bit (2 * n) (Suc j) = bit n j" "\<not> bit (2 * n) 0" for j
    by (simp_all add: bit_Suc bit_0)
  moreover have "bit (of_bool S + 2 * n) 0 = S" by (rule bit_of_bool_double)
  ultimately show ?thesis
    unfolding enc_def bit_of_nat_iff
    by (elim disjE exE; simp only:) (simp_all only: bit_of_bool_double possible_bit_word, simp_all)
qed

lemma bit_unat: "bit (unat w) k = bit w k" for w :: u32
  by transfer (simp add: bit_nat_iff bit_take_bit_iff)

lemma enc_fields: "m = enc (bit m 0) (bit m 1) (bit m 2) (unat (drop_bit 3 m))"
proof (rule bit_word_eqI)
  fix k :: nat assume "k < LENGTH(32)"
  moreover have "k = 0 \<or> k = 1 \<or> k = 2 \<or> 3 + (k - 3) = k" by presburger
  ultimately show "bit m k = bit (enc (bit m 0) (bit m 1) (bit m 2) (unat (drop_bit 3 m))) k"
    by (auto simp: bit_enc bit_unat bit_drop_bit_eq)
qed

lemma unat_enc:
  assumes "n < 2 ^ 29"
  shows "unat (enc L W S n) = of_bool L + 2 * (of_bool W + 2 * (of_bool S + 2 * n))"
proof -
  have "of_bool L + 2 * (of_bool W + 2 * (of_bool S + 2 * n)) < 2 ^ 32"
    using assms by (cases L; cases W; cases S) simp_all
  then show ?thesis unfolding enc_def unat_of_nat by simp
qed

lemma sint_enc:
  assumes "n < 2 ^ 28"
  shows "sint (enc L W S n) = int (of_bool L + 2 * (of_bool W + 2 * (of_bool S + 2 * n)))"
proof -
  let ?x = "of_bool L + 2 * (of_bool W + 2 * (of_bool S + 2 * n))"
  have "?x < 2 ^ 31"
    using assms by (cases L; cases W; cases S) simp_all
  then have x: "int ?x < 2 ^ 31" by (metis of_nat_less_iff of_nat_numeral of_nat_power)
  have "unat (enc L W S n) = ?x" using assms by (intro unat_enc) simp
  then have "uint (enc L W S n) = int ?x" by (simp only: uint_nat unsigned_of_nat)
  moreover have "signed_take_bit 31 (int ?x) = int ?x"
    using x by (intro signed_take_bit_int_eq_self) linarith+
  ultimately show ?thesis unfolding sint_uint by simp
qed

lemma mutex_consts:
  "mutexLocked = enc True False False 0" "mutexWoken = enc False True False 0"
  "mutexStarving = enc False False True 0" "push_bit mutexWaiterShift 1 = enc False False False 1"
  "0 = enc False False False 0"
  by (simp_all add: mutexLocked_def mutexWoken_def mutexStarving_def mutexWaiterShift_def enc_def)

lemma enc_or: "enc L W S n OR enc L' W' S' 0 = enc (L \<or> L') (W \<or> W') (S \<or> S') n"
  by (rule bit_word_eqI) (auto simp: bit_enc bit_or_iff)

lemma enc_and: "enc L W S n AND enc L' W' S' 0 = enc (L \<and> L') (W \<and> W') (S \<and> S') 0"
  by (rule bit_word_eqI) (auto simp: bit_enc bit_and_iff)

lemma enc_clear_woken: "enc L W S n AND NOT (enc False True False 0) = enc L False S n"
  by (rule bit_word_eqI) (auto simp: bit_enc bit_and_iff bit_not_iff)

lemma enc_inj:
  assumes "n < 2 ^ 29" and "n' < 2 ^ 29"
  shows "enc L W S n = enc L' W' S' n' \<longleftrightarrow> L = L' \<and> W = W' \<and> S = S' \<and> n = n'"
proof
  assume eq: "enc L W S n = enc L' W' S' n'"
  have "L = L'" "W = W'" "S = S'"
    using eq bit_enc [of L W S n 0] bit_enc [of L W S n 1] bit_enc [of L W S n 2]
      bit_enc [of L' W' S' n' 0] bit_enc [of L' W' S' n' 1] bit_enc [of L' W' S' n' 2] by simp_all
  moreover from this have "n = n'"
    using arg_cong [OF eq, of unat] assms by (simp add: unat_enc)
  ultimately show "L = L' \<and> W = W' \<and> S = S' \<and> n = n'" by simp
qed auto

lemma enc_shift:
  assumes "n < 2 ^ 28"
  shows "signed_drop_bit mutexWaiterShift (enc L W S n) = of_nat n"
proof -
  have "sint (signed_drop_bit 3 (enc L W S n)) = int n"
    using assms by (cases L; cases W; cases S)
      (simp_all add: sint_signed_drop_bit_eq sint_enc drop_bit_eq_div)
  then have "of_int (sint (signed_drop_bit 3 (enc L W S n))) = (of_int (int n) :: u32)"
    by (rule arg_cong)
  then show ?thesis by (simp add: mutexWaiterShift_def scast_id)
qed

lemma enc_shift_eq:
  assumes "n < 2 ^ 28"
  shows "signed_drop_bit mutexWaiterShift (enc L W S n) = 0 \<longleftrightarrow> n = 0"
    and "signed_drop_bit mutexWaiterShift (enc L W S n) = 1 \<longleftrightarrow> n = 1"
proof -
  have u: "unat (of_nat n :: u32) = n" using assms by (simp add: unat_of_nat)
  have "(of_nat n :: u32) = 0 \<longleftrightarrow> n = 0" "(of_nat n :: u32) = 1 \<longleftrightarrow> n = 1"
    unfolding word_unat_eq_iff u by simp_all
  then show "signed_drop_bit mutexWaiterShift (enc L W S n) = 0 \<longleftrightarrow> n = 0"
    and "signed_drop_bit mutexWaiterShift (enc L W S n) = 1 \<longleftrightarrow> n = 1"
    by (simp_all only: enc_shift [OF assms])
qed

lemma enc_add: "enc L W S n + enc False False False 1 = enc L W S (Suc n)"
  and enc_unlock: "enc True W S n - enc True False False 0 = enc False W S n"
  and enc_relock: "enc False W S n + enc True False False 0 = enc True W S n"
  and enc_sub: "enc L W S (Suc n) - enc False False False 1 = enc L W S n"
  and enc_handoff:
    "enc False False True (Suc n) + (enc True False False 0 - enc False False False 1)
       = enc True False True n"
    "enc False False True (Suc n)
       + (enc True False False 0 - enc False False False 1 - enc False False True 0)
       = enc True False False n"
  by (simp_all add: enc_def algebra_simps)

lemma enc_zero: "n < 2 ^ 29 \<Longrightarrow> enc L W S n = 0 \<longleftrightarrow> \<not> L \<and> \<not> W \<and> \<not> S \<and> n = 0"
  using enc_inj [of n 0 L W S False False False] by (simp add: mutex_consts(5))

lemma enc_and_zero:
  "enc L W S n AND enc L' W' S' 0 = 0 \<longleftrightarrow> \<not> (L \<and> L') \<and> \<not> (W \<and> W') \<and> \<not> (S \<and> S')"
  by (simp add: enc_and enc_zero)

lemmas enc_ops = enc_or enc_and enc_clear_woken enc_add enc_unlock enc_relock enc_sub enc_handoff
  enc_shift_eq

section \<open>The invariant\<close>

text \<open>
  Each goroutine weighs in the invariant by its program point: it holds the mutex, it carries a
  wake-up on its way through the semaphore, it has consumed one (or set \<open>mutexWoken\<close> itself), it
  is about to take over a starving mutex, it is accounted as a waiter, it is about to wake
  someone, it will look at the queue of the semaphore again, it holds the lock of the root, it has taken
  goroutine \<open>j\<close> out of the queue.
\<close>

fun hold_w :: "pc \<Rightarrow> nat" where
  "hold_w Holding = 1" | "hold_w _ = 0"

fun tok_w :: "pc \<Rightarrow> nat" where
  "tok_w (Release _) = 1" | "tok_w (Woken _ ticket) = of_bool ticket" | "tok_w (Leave _) = 1" | "tok_w (Acquired _) = 1"
| "tok_w _ = 0"

fun awk_w :: "pc \<Rightarrow> nat" where
  "awk_w (Slow l) = of_bool (awoke l)" | "awk_w (Reload l) = of_bool (awoke l)" | "awk_w _ = 0"

fun fix_w :: "pc \<Rightarrow> nat" where
  "fix_w (HandOff _) = 1" | "fix_w _ = 0"

fun wait_w :: "pc \<Rightarrow> nat" where
  "wait_w (Acquire _) = 1" | "wait_w (Enter _) = 1" | "wait_w (Recheck _) = 1" | "wait_w (Leave _) = 1" | "wait_w (Asleep _) = 1" | "wait_w (Woken _ _) = 1"
| "wait_w (Acquired _) = 1" | "wait_w (HandOff _) = 1" | "wait_w _ = 0"

fun ucas_w :: "pc \<Rightarrow> nat" where
  "ucas_w (UnlockCas _) = 1" | "ucas_w _ = 0"

fun waker_w :: "pc \<Rightarrow> nat" where
  "waker_w (Load _) = 1" | "waker_w (Wake _) = 1" | "waker_w (Ready _ _) = 1" | "waker_w (Woken _ ticket) = of_bool (\<not> ticket)" | "waker_w _ = 0"

fun crit_w :: "pc \<Rightarrow> nat" where
  "crit_w (Recheck _) = 1" | "crit_w (Leave _) = 1" | "crit_w _ = 0"

fun ready_w :: "nat \<Rightarrow> pc \<Rightarrow> nat" where
  "ready_w j (Ready i _) = of_bool (i = j)" | "ready_w j _ = 0"

fun is_asleep :: "pc \<Rightarrow> bool" where
  "is_asleep (Asleep _) = True" | "is_asleep _ = False"

definition total :: "(pc \<Rightarrow> nat) \<Rightarrow> mutex \<Rightarrow> nat" where
  "total f s = tally f (gs s)"

text \<open>What a program point knows of the state: \<open>n\<close> is the number of waiters now.\<close>

fun local_ok :: "nat \<Rightarrow> pc \<Rightarrow> bool" where
  "local_ok n (Slow l) = ((starving l \<longrightarrow> awoke l) \<and>
     (\<exists>L W S k. old l = enc L W S k \<and> k < 2 ^ 28 \<and> (awoke l \<longrightarrow> W)))"
| "local_ok n (Reload l) = (starving l \<longrightarrow> awoke l)"
| "local_ok n (UnlockCas m) = (\<exists>k. m = enc False False False k \<and> 0 < k \<and> k < 2 ^ 28)"
| "local_ok n (HandOff d) =
     (d = enc True False False 0 - enc False False False 1 \<and> 2 \<le> n
    \<or> d = enc True False False 0 - enc False False False 1 - enc False False True 0)"
| "local_ok n Thrown = False"
| "local_ok n _ = True"

definition minv :: "mutex \<Rightarrow> bool \<Rightarrow> bool \<Rightarrow> bool \<Rightarrow> nat \<Rightarrow> bool" where
  "minv s L W S n \<longleftrightarrow>
     mstate s = enc L W S n \<and>
     total hold_w s = of_bool L \<and>
     total tok_w s + unat (msema s) + total awk_w s + total fix_w s = of_bool W + of_bool (S \<and> \<not> L) \<and>
     n + (if S then 0 else total tok_w s + unat (msema s)) = total wait_w s \<and>
     (S \<longrightarrow> \<not> W \<and> 0 < n) \<and>
     (0 < total awk_w s \<longrightarrow> W) \<and>
     (0 < total fix_w s \<longrightarrow> S \<and> \<not> L) \<and>
     (\<not> L \<and> \<not> W \<and> \<not> S \<and> 0 < n \<longrightarrow> 0 < total ucas_w s) \<and>
     (msema s \<noteq> 0 \<and> mqueue s \<noteq> [] \<longrightarrow> 0 < total waker_w s) \<and>
     (\<forall>x \<in> set (gs s). local_ok n x)"

text \<open>How a step of one goroutine changes the totals.\<close>

lemma total_ge: "i < length (gs s) \<Longrightarrow> f (gs s ! i) \<le> total f s"
  by (simp add: total_def tally_ge)

lemma total_upd:
  assumes "i < length (gs s)"
  shows "total f (s\<lparr>gs := (gs s)[i := x]\<rparr>) + f (gs s ! i) = total f s + f x"
  using assms by (simp add: total_def tally_upd)

lemma total_fields [simp]:
  "total f (s\<lparr>mstate := m\<rparr>) = total f s" "total f (s\<lparr>msema := v\<rparr>) = total f s"
  "total f (s\<lparr>mqueue := q\<rparr>) = total f s" "total f (s\<lparr>rlock := r\<rparr>) = total f s" "total f (s\<lparr>nwait := n\<rparr>) = total f s"
  by (simp_all add: total_def)

lemma local_ok_mono: "local_ok n x \<Longrightarrow> n \<le> n' \<or> fix_w x = 0 \<Longrightarrow> local_ok n' x"
  by (cases x) auto

text \<open>
  The proof obligations of a step of goroutine \<open>i\<close> to \<open>y\<close>. \<open>T\<close> is the number of wake-ups in the semaphore of
  the other goroutines.
\<close>

lemma minv_put_queue:
  assumes inv: "minv s L W S n" and i: "i < length (gs s)" and m: "m = enc L' W' S' n'"
    and hold: "hold_w y + of_bool L = hold_w (gs s ! i) + of_bool L'"
    and tok: "tok_w y + unat v + awk_w y + fix_w y + (of_bool W + of_bool (S \<and> \<not> L))
        = tok_w (gs s ! i) + unat (msema s) + awk_w (gs s ! i) + fix_w (gs s ! i)
          + (of_bool W' + of_bool (S' \<and> \<not> L'))"
    and wait: "\<And>T. total tok_w s = T + tok_w (gs s ! i) \<Longrightarrow>
        n + (if S then 0 else T + tok_w (gs s ! i) + unat (msema s)) + wait_w y
          = n' + (if S' then 0 else T + tok_w y + unat v) + wait_w (gs s ! i)"
    and starve: "S' \<Longrightarrow> \<not> W' \<and> 0 < n'"
    and awk: "W \<Longrightarrow> \<not> W' \<Longrightarrow> awk_w (gs s ! i) = 1 \<and> awk_w y = 0" "0 < awk_w y \<Longrightarrow> W'"
    and fx: "S \<and> \<not> L \<Longrightarrow> \<not> (S' \<and> \<not> L') \<Longrightarrow> fix_w (gs s ! i) = 1 \<and> fix_w y = 0"
      "0 < fix_w y \<Longrightarrow> S' \<and> \<not> L'"
    and uc: "\<not> L' \<and> \<not> W' \<and> \<not> S' \<and> 0 < n' \<Longrightarrow>
        0 < ucas_w y \<or> ucas_w (gs s ! i) = 0 \<and> \<not> L \<and> \<not> W \<and> \<not> S \<and> 0 < n"
    and wk: "v \<noteq> 0 \<Longrightarrow> q \<noteq> [] \<Longrightarrow> 0 < waker_w y \<or> waker_w (gs s ! i) = 0 \<and> msema s \<noteq> 0 \<and> mqueue s \<noteq> []
        \<or> waker_w (gs s ! i) < total waker_w s"
    and loc: "local_ok n' y" "n \<le> n' \<or> fix_w (gs s ! i) = 1 \<or> \<not> (S \<and> \<not> L)"
  shows "minv (s\<lparr>mstate := m, msema := v, mqueue := q, gs := (gs s)[i := y]\<rparr>) L' W' S' n'"
proof -
  define x where "x = gs s ! i"
  define s' where "s' = s\<lparr>mstate := m, msema := v, mqueue := q, gs := (gs s)[i := y]\<rparr>"
  have upd: "total f s' + f x = total f s + f y" for f
    using total_upd [of i s f y] i by (simp add: s'_def x_def total_def)
  have ge: "f x \<le> total f s" for f using total_ge [OF i] by (simp add: x_def)
  note inv' = inv [unfolded minv_def]
  note a = hold tok [folded x_def] starve awk [folded x_def] fx [folded x_def]
    uc [folded x_def] wk [folded x_def]
  have tot: "total hold_w s = of_bool L"
      "total tok_w s + unat (msema s) + total awk_w s + total fix_w s = of_bool W + of_bool (S \<and> \<not> L)"
      "n + (if S then 0 else total tok_w s + unat (msema s)) = total wait_w s"
      "S \<Longrightarrow> \<not> W" "0 < total awk_w s \<Longrightarrow> W" "0 < total fix_w s \<Longrightarrow> S \<and> \<not> L"
    using inv' by auto
  have 1: "total hold_w s' = of_bool L'"
    using upd [of hold_w] hold tot(1) by (simp add: x_def)
  have 2: "total tok_w s' + unat v + total awk_w s' + total fix_w s' = of_bool W' + of_bool (S' \<and> \<not> L')"
    using upd [of tok_w] upd [of awk_w] upd [of fix_w] tot(2) tok [folded x_def] by linarith
  have 3: "n' + (if S' then 0 else total tok_w s' + unat v) = total wait_w s'"
  proof -
    obtain T where T: "total tok_w s = T + tok_w x" using ge [of tok_w] by (metis le_iff_add add.commute)
    then have "total tok_w s' = T + tok_w y" using upd [of tok_w] by linarith
    then show ?thesis
      using wait [folded x_def, OF T] upd [of wait_w] tot(3) T by (simp split: if_splits)
  qed
  have 4: "0 < total awk_w s' \<longrightarrow> W'"
  proof
    assume "0 < total awk_w s'"
    show W'
    proof (rule ccontr)
      assume nW: "\<not> W'"
      then have "awk_w y = 0" using awk(2) by auto
      with upd [of awk_w] \<open>0 < total awk_w s'\<close> have "awk_w x < total awk_w s" by linarith
      moreover from this have W using tot(5) by simp
      ultimately show False
        using awk(1) [folded x_def] nW tot(2,4) by (cases S) auto
    qed
  qed
  have 5: "0 < total fix_w s' \<longrightarrow> S' \<and> \<not> L'"
  proof
    assume "0 < total fix_w s'"
    show "S' \<and> \<not> L'"
    proof (rule ccontr)
      assume nS: "\<not> (S' \<and> \<not> L')"
      then have "fix_w y = 0" using fx(2) by auto
      with upd [of fix_w] \<open>0 < total fix_w s'\<close> have "fix_w x < total fix_w s" by linarith
      moreover from this have SL: "S \<and> \<not> L" using tot(6) by simp
      ultimately show False
        using fx(1) [folded x_def] nS tot(2,4) by auto
    qed
  qed
  have 6: "\<not> L' \<and> \<not> W' \<and> \<not> S' \<and> 0 < n' \<longrightarrow> 0 < total ucas_w s'"
  proof
    assume h: "\<not> L' \<and> \<not> W' \<and> \<not> S' \<and> 0 < n'"
    from uc [OF this, folded x_def] inv' upd [of ucas_w] ge [of ucas_w]
    show "0 < total ucas_w s'" by linarith
  qed
  have 7: "v \<noteq> 0 \<and> q \<noteq> [] \<longrightarrow> 0 < total waker_w s'"
  proof
    assume h: "v \<noteq> 0 \<and> q \<noteq> []"
    from wk [folded x_def] h inv' upd [of waker_w] ge [of waker_w]
    show "0 < total waker_w s'" by linarith
  qed
  have 9: "\<forall>z \<in> set ((gs s)[i := y]). local_ok n' z"
  proof
    fix z assume "z \<in> set ((gs s)[i := y])"
    then obtain j where j: "j < length (gs s)" "z = (gs s)[i := y] ! j"
      by (metis in_set_conv_nth length_list_update)
    show "local_ok n' z"
    proof (cases "j = i")
      case True
      with j i loc(1) show ?thesis by simp
    next
      case False
      with j have z: "z = gs s ! j" "z \<in> set (gs s)" by auto
      then have ok: "local_ok n z" using inv' by blast
      have "fix_w z = 0" if "\<not> n \<le> n'"
      proof -
        have "total fix_w s' \<ge> fix_w z"
          using total_ge [of j s' fix_w] j False by (simp add: s'_def)
        moreover have "fix_w y + total fix_w s \<le> fix_w x + fix_w y"
        proof (cases "S \<and> \<not> L")
          case True
          then show ?thesis using loc(2) [folded x_def] that tot(2,4) by auto
        next
          case False
          then have "total fix_w s = 0" using tot(6) by blast
          then show ?thesis by simp
        qed
        ultimately have "fix_w z \<le> fix_w y" using upd [of fix_w] by linarith
        moreover have "fix_w z + fix_w x \<le> total fix_w s"
          using total_upd [of j s fix_w Outside] total_ge [of i "s\<lparr>gs := (gs s)[j := Outside]\<rparr>" fix_w]
            j(1) z(1) i False by (simp add: x_def)
        ultimately show ?thesis using \<open>fix_w y + total fix_w s \<le> fix_w x + fix_w y\<close> by linarith
      qed
      then show ?thesis using ok local_ok_mono [of n z n'] by blast
    qed
  qed
  have f: "mstate s' = m" "msema s' = v" "mqueue s' = q" "gs s' = (gs s)[i := y]"
    by (simp_all add: s'_def)
  have 11: "S' \<longrightarrow> \<not> W' \<and> 0 < n'" using starve by blast
  show ?thesis
    unfolding minv_def s'_def [symmetric] f length_list_update
    by (intro conjI; (rule m 1 2 3 11 4 5 6 7 9)?)
qed

lemma minv_same:
  assumes "minv s L W S n" "mstate s' = mstate s" "msema s' = msema s" "mqueue s' = mqueue s" "gs s' = gs s"
  shows "minv s' L W S n"
proof -
  have "total f s' = total f s" for f using assms(5) by (simp add: total_def)
  then show ?thesis using assms by (auto simp: minv_def split: if_splits)
qed

text \<open>A step that leaves the queue alone.\<close>

lemma minv_put:
  assumes "minv s L W S n" "i < length (gs s)" "m = enc L' W' S' n'"
    and "hold_w y + of_bool L = hold_w (gs s ! i) + of_bool L'"
    and "tok_w y + unat v + awk_w y + fix_w y + (of_bool W + of_bool (S \<and> \<not> L))
        = tok_w (gs s ! i) + unat (msema s) + awk_w (gs s ! i) + fix_w (gs s ! i)
          + (of_bool W' + of_bool (S' \<and> \<not> L'))"
    and "\<And>T. total tok_w s = T + tok_w (gs s ! i) \<Longrightarrow>
        n + (if S then 0 else T + tok_w (gs s ! i) + unat (msema s)) + wait_w y
          = n' + (if S' then 0 else T + tok_w y + unat v) + wait_w (gs s ! i)"
    and "S' \<Longrightarrow> \<not> W' \<and> 0 < n'"
    and "W \<Longrightarrow> \<not> W' \<Longrightarrow> awk_w (gs s ! i) = 1 \<and> awk_w y = 0" "0 < awk_w y \<Longrightarrow> W'"
    and "S \<and> \<not> L \<Longrightarrow> \<not> (S' \<and> \<not> L') \<Longrightarrow> fix_w (gs s ! i) = 1 \<and> fix_w y = 0"
      "0 < fix_w y \<Longrightarrow> S' \<and> \<not> L'"
    and "\<not> L' \<and> \<not> W' \<and> \<not> S' \<and> 0 < n' \<Longrightarrow>
        0 < ucas_w y \<or> ucas_w (gs s ! i) = 0 \<and> \<not> L \<and> \<not> W \<and> \<not> S \<and> 0 < n"
    and "v \<noteq> 0 \<Longrightarrow> mqueue s \<noteq> [] \<Longrightarrow> 0 < waker_w y \<or> waker_w (gs s ! i) = 0 \<and> msema s \<noteq> 0
        \<or> waker_w (gs s ! i) < total waker_w s"
    and "local_ok n' y" "n \<le> n' \<or> fix_w (gs s ! i) = 1 \<or> \<not> (S \<and> \<not> L)"
  shows "minv (s\<lparr>mstate := m, msema := v, gs := (gs s)[i := y]\<rparr>) L' W' S' n'"
proof -
  have "minv (s\<lparr>mstate := m, msema := v, mqueue := mqueue s, gs := (gs s)[i := y]\<rparr>) L' W' S' n'"
    by (rule minv_put_queue [OF assms(1-5)], erule assms(6), erule assms(7), erule (1) assms(8), erule assms(9),
        erule (1) assms(10), erule assms(11), erule assms(12), drule (1) assms(13), blast, rule assms(14), rule assms(15))
  moreover have "s\<lparr>mstate := m, msema := v, mqueue := mqueue s, gs := (gs s)[i := y]\<rparr>
      = s\<lparr>mstate := m, msema := v, gs := (gs s)[i := y]\<rparr>" by simp
  ultimately show ?thesis by simp
qed

definition word_inv :: "mutex \<Rightarrow> bool" where
  "word_inv s \<longleftrightarrow> (\<exists>L W S n. minv s L W S n)"

lemma put_pc_eq: "put_pc i r s = s\<lparr>mstate := snd r, msema := msema s, gs := (gs s)[i := fst r]\<rparr>"
  by (simp add: put_pc_def)

text \<open>There are no more waiters than goroutines, so the count stays in its field.\<close>

lemma wait_w_le: "wait_w x \<le> 1"
  by (cases x) auto

lemma minv_waiters:
  assumes "minv s L W S n"
  shows "n \<le> length (gs s)"
proof -
  have "n + (if S then 0 else total tok_w s + unat (msema s)) = total wait_w s"
    using assms unfolding minv_def by blast
  moreover have "total wait_w s \<le> length (gs s)"
    using tally_le_length [OF wait_w_le] by (simp only: total_def)
  ultimately show ?thesis by linarith
qed

lemma minv_local: "minv s L W S n \<Longrightarrow> i < length (gs s) \<Longrightarrow> local_ok n (gs s ! i)"
  unfolding minv_def using nth_mem by blast

lemma minv_mstate: "minv s L W S n \<Longrightarrow> mstate s = enc L W S n"
  unfolding minv_def by blast

lemma minv_starve: "minv s L W S n \<Longrightarrow> S \<Longrightarrow> \<not> W \<and> 0 < n"
  unfolding minv_def by blast

lemma minv_hold_total: "minv s L W S n \<Longrightarrow> total hold_w s = of_bool L"
  unfolding minv_def by blast

lemma minv_hold: "minv s L W S n \<Longrightarrow> i < length (gs s) \<Longrightarrow> hold_w (gs s ! i) = 1 \<Longrightarrow> L"
  using total_ge [of i s hold_w] minv_hold_total [of s L W S n] by (cases L) simp_all

lemma minv_awk:
  assumes "minv s L W S n" "i < length (gs s)" "awk_w (gs s ! i) = 1"
  shows "W \<and> \<not> S \<and> total tok_w s + unat (msema s) = 0"
proof -
  have a: "total tok_w s + unat (msema s) + total awk_w s + total fix_w s = of_bool W + of_bool (S \<and> \<not> L)"
      "0 < total awk_w s \<longrightarrow> W" "S \<longrightarrow> \<not> W \<and> 0 < n"
    using assms(1) unfolding minv_def by blast+
  have "1 \<le> total awk_w s" using total_ge [OF assms(2), of awk_w] assms(3) by simp
  with a show ?thesis by simp
qed

lemma minv_fix:
  assumes "minv s L W S n" "i < length (gs s)" "fix_w (gs s ! i) = 1"
  shows "S \<and> \<not> L \<and> total tok_w s + unat (msema s) = 0"
proof -
  have a: "total tok_w s + unat (msema s) + total awk_w s + total fix_w s = of_bool W + of_bool (S \<and> \<not> L)"
      "0 < total fix_w s \<longrightarrow> S \<and> \<not> L" "S \<longrightarrow> \<not> W \<and> 0 < n"
    using assms(1) unfolding minv_def by blast+
  have "1 \<le> total fix_w s" using total_ge [OF assms(2), of fix_w] assms(3) by simp
  with a show ?thesis by simp
qed

lemma minv_tok:
  assumes "minv s L W S n" "0 < total tok_w s + unat (msema s)"
  shows "W \<noteq> (S \<and> \<not> L) \<and> total tok_w s + unat (msema s) = 1"
proof -
  have a: "total tok_w s + unat (msema s) + total awk_w s + total fix_w s = of_bool W + of_bool (S \<and> \<not> L)"
      "S \<longrightarrow> \<not> W \<and> 0 < n"
    using assms(1) unfolding minv_def by blast+
  with assms(2) show ?thesis by (cases W; cases "S \<and> \<not> L") auto
qed

lemma lock_start_inv:
  assumes "minv s L W S n" "i < length (gs s)" "gs s ! i = Outside" "n < 2 ^ 28"
  shows "word_inv (put_pc i (lock_start (mstate s)) s)"
proof (cases "mstate s = 0")
  case True
  then have 0: "\<not> L" "\<not> W" "\<not> S" "n = 0"
    using assms(4) enc_inj [of n 0 L W S False False False]
    by (simp_all add: minv_mstate [OF assms(1)] mutex_consts(5))
  have "minv (put_pc i (lock_start (mstate s)) s) True False False 0"
    unfolding put_pc_eq
    by (intro minv_put [OF assms(1,2)]) (simp_all add: 0 assms(3) True lock_start_def mutex_consts(1))
  then show ?thesis by (auto simp: word_inv_def)
next
  case False
  have "minv (put_pc i (lock_start (mstate s)) s) L W S n"
    unfolding put_pc_eq using minv_starve [OF assms(1)]
    by (intro minv_put [OF assms(1,2)])
      (simp_all add: False [unfolded minv_mstate [OF assms(1)]] assms(3) lock_start_def
        minv_mstate [OF assms(1)])
  then show ?thesis by (auto simp: word_inv_def)
qed

lemma reload_inv:
  assumes "minv s L W S n" "i < length (gs s)" "gs s ! i = Reload l" "n < 2 ^ 28"
  shows "minv (put_pc i (Slow (l\<lparr>old := mstate s\<rparr>), mstate s) s) L W S n"
proof -
  have "awoke l \<Longrightarrow> W" using minv_awk [OF assms(1,2)] assms(3) by simp
  moreover have "starving l \<longrightarrow> awoke l" using minv_local [OF assms(1,2)] assms(3) by simp
  ultimately show ?thesis
    unfolding put_pc_eq using minv_starve [OF assms(1)] assms(4)
    by (intro minv_put [OF assms(1,2)]) (auto simp: assms(3) minv_mstate [OF assms(1)])
qed

text \<open>An iteration of \<open>lockSlow\<close> on the fields of the state.\<close>

lemma lockSlow_iter_enc:
  assumes "old l = enc Lo Wo So k" "k < 2 ^ 28" "m = enc L W S n" "n < 2 ^ 28"
  defines "same \<equiv> (L = Lo \<and> W = Wo \<and> S = So \<and> n = k)"
  shows "lockSlow_iter spin l m =
    (if Lo \<and> \<not> So \<and> spin then
       (let won = \<not> awoke l \<and> \<not> Wo \<and> k \<noteq> 0 \<and> same
        in (Reload (l\<lparr>awoke := awoke l \<or> won\<rparr>), enc L (W \<or> won) S n))
     else if awoke l \<and> \<not> Wo then (Thrown, m)
     else if same then
       (if \<not> Lo \<and> \<not> So then (Holding, enc True (W \<and> \<not> awoke l) S n)
        else (Acquire (l\<lparr>queueLifo := waited l, waited := True\<rparr>),
              enc (Lo \<or> \<not> So) (W \<and> \<not> awoke l) (So \<or> (starving l \<and> Lo)) (Suc n)))
     else (Reload l, m))"
proof -
  have eq: "(enc L W S n = enc Lo Wo So k) = same"
    using assms enc_inj [of n k L W S Lo Wo So] by simp
  have lk: "(enc Lo Wo So k AND (enc True False False 0 OR enc False False True 0)
      = enc True False False 0) = (Lo \<and> \<not> So)"
    by (simp add: enc_or enc_and enc_inj)
  show ?thesis
  proof (cases "Lo \<and> \<not> So \<and> spin")
    case True
    then show ?thesis
      using assms(2) unfolding lockSlow_iter_def mutex_consts(1-4) assms(1,3) lk eq
      by (simp add: enc_shift_eq enc_or enc_and_zero Let_def) (auto simp: same_def)
  next
    case False
    then have c: "(Lo \<and> \<not> So \<and> spin) = False" by simp
    show ?thesis
    proof (cases "awoke l \<and> \<not> Wo")
      case True
      show ?thesis
        unfolding lockSlow_iter_def mutex_consts(1-4) assms(1,3) lk eq c if_False Let_def
        using True c by (cases Lo; cases So; cases "starving l") (simp_all add: enc_or enc_and_zero enc_add [unfolded One_nat_def])
    next
      case False
      then have w: "(awoke l \<and> \<not> Wo) = False" by simp
      show ?thesis
        unfolding lockSlow_iter_def mutex_consts(1-4) assms(1,3) lk eq c w if_False Let_def
        using False c
        by (cases Lo; cases So; cases "starving l"; cases "awoke l"; cases same)
          (simp_all add: enc_or enc_and_zero enc_add [unfolded One_nat_def] enc_clear_woken
            enc_add same_def)
    qed
  qed
qed

lemma lockSlow_iter_inv:
  assumes "minv s L W S n" "i < length (gs s)" "gs s ! i = Slow l" "n < 2 ^ 28"
  shows "word_inv (put_pc i (lockSlow_iter spin l (mstate s)) s)"
proof -
  have loc: "starving l \<Longrightarrow> awoke l" using minv_local [OF assms(1,2)] assms(3) by simp
  obtain Lo Wo So k where o': "old l = enc Lo Wo So k" "k < 2 ^ 28" "awoke l \<Longrightarrow> Wo"
    using minv_local [OF assms(1,2)] assms(3) by auto
  have aw: "awoke l \<Longrightarrow> W \<and> \<not> S \<and> total tok_w s + unat (msema s) = 0"
    using minv_awk [OF assms(1,2)] assms(3) by simp
  note m = minv_mstate [OF assms(1)] and st = minv_starve [OF assms(1)]
  note iter = lockSlow_iter_enc [OF o'(1,2) m assms(4), of spin]
  consider (won) "lockSlow_iter spin l (mstate s) = (Reload (l\<lparr>awoke := True\<rparr>), enc L True S n)"
      "\<not> awoke l" "\<not> W" "\<not> S" "L"
    | (stay) pc where "lockSlow_iter spin l (mstate s) = (pc, enc L W S n)" "pc = Reload l"
    | (lock) "lockSlow_iter spin l (mstate s) = (Holding, enc True (W \<and> \<not> awoke l) S n)"
      "\<not> L" "\<not> S"
    | (wait) l' where "lockSlow_iter spin l (mstate s)
        = (Acquire l', enc (L \<or> \<not> S) (W \<and> \<not> awoke l) (S \<or> (starving l \<and> L)) (Suc n))" "L \<or> S"
  proof (cases "Lo \<and> \<not> So \<and> spin")
    case True
    show thesis
    proof (cases "\<not> awoke l \<and> \<not> Wo \<and> k \<noteq> 0 \<and> L = Lo \<and> W = Wo \<and> S = So \<and> n = k")
      case won: True
      with iter True won(1) that(1) show thesis by simp
    next
      case False
      then have "lockSlow_iter spin l (mstate s) = (Reload l, enc L W S n)"
        using iter True unfolding Let_def by (auto split: if_splits)
      then show thesis by (intro that(2)) auto
    qed
  next
    case False
    then show thesis using iter o'(3) m that by (auto split: if_splits)
  qed
  then show ?thesis
  proof cases
    case won
    then have "minv (put_pc i (lockSlow_iter spin l (mstate s)) s) L True S n"
      unfolding put_pc_eq
      by (intro minv_put [OF assms(1,2)]) (simp_all add: assms(3))
    then show ?thesis by (auto simp: word_inv_def)
  next
    case stay
    then have "minv (put_pc i (lockSlow_iter spin l (mstate s)) s) L W S n"
      unfolding put_pc_eq using st aw loc
      by (intro minv_put [OF assms(1,2)]) (auto simp: assms(3))
    then show ?thesis by (auto simp: word_inv_def)
  next
    case lock
    then have "minv (put_pc i (lockSlow_iter spin l (mstate s)) s) True (W \<and> \<not> awoke l) S n"
      unfolding put_pc_eq using aw
      by (intro minv_put [OF assms(1,2)]) (auto simp: assms(3))
    then show ?thesis by (auto simp: word_inv_def)
  next
    case wait
    have "minv (put_pc i (lockSlow_iter spin l (mstate s)) s) L (W \<and> \<not> awoke l)
        (S \<or> (starving l \<and> L)) (Suc n)"
      unfolding put_pc_eq using aw loc st wait
      by (intro minv_put [OF assms(1,2)]) (auto simp: assms(3))
    then show ?thesis by (auto simp: word_inv_def)
  qed
qed

lemma lockSlow_woken_enc:
  assumes "n < 2 ^ 28"
  shows "lockSlow_woken late l (enc L W S n) =
    (if S then
       (if L \<or> W \<or> n = 0 then Thrown
        else HandOff (if \<not> (starving l \<or> late) \<or> n = 1
          then enc True False False 0 - enc False False False 1 - enc False False True 0
          else enc True False False 0 - enc False False False 1))
     else Slow (l\<lparr>old := enc L W S n, starving := starving l \<or> late, awoke := True\<rparr>))"
  unfolding lockSlow_woken_def mutex_consts(1-4)
  by (simp add: enc_or enc_and_zero enc_shift_eq [OF assms] Let_def)

lemma lockSlow_woken_inv:
  assumes "minv s L W S n" "i < length (gs s)" "gs s ! i = Acquired l" "n < 2 ^ 28"
  shows "minv (put_pc i (lockSlow_woken late l (mstate s), mstate s) s) L W S n"
proof -
  have "1 \<le> total tok_w s" using total_ge [OF assms(2), of tok_w] assms(3) by simp
  then have tok: "W \<noteq> (S \<and> \<not> L)" "total tok_w s + unat (msema s) = 1"
    using minv_tok [OF assms(1)] by auto
  note st = minv_starve [OF assms(1)] and m = minv_mstate [OF assms(1)]
  show ?thesis
  proof (cases S)
    case True
    then have "lockSlow_woken late l (mstate s)
        = HandOff (if \<not> (starving l \<or> late) \<or> n = 1
          then enc True False False 0 - enc False False False 1 - enc False False True 0
          else enc True False False 0 - enc False False False 1)"
      using tok st by (simp add: m lockSlow_woken_enc [OF assms(4)])
    then show ?thesis
      unfolding put_pc_eq using tok st True m
      by (intro minv_put [OF assms(1,2)]) (auto simp: assms(3))
  next
    case False
    then have "lockSlow_woken late l (mstate s)
        = Slow (l\<lparr>old := enc L W S n, starving := starving l \<or> late, awoke := True\<rparr>)"
      by (simp add: m lockSlow_woken_enc [OF assms(4)])
    then show ?thesis
      unfolding put_pc_eq using tok False m assms(4)
      by (intro minv_put [OF assms(1,2)]) (auto simp: assms(3))
  qed
qed

lemma handoff_inv:
  assumes "minv s L W S n" "i < length (gs s)" "gs s ! i = HandOff d"
  shows "word_inv (put_pc i (Holding, mstate s + d) s)"
proof -
  have fx: "S" "\<not> L" "total tok_w s = 0" "msema s = 0"
    using minv_fix [OF assms(1,2)] assms(3) by (auto simp: unat_eq_0)
  then have nW: "\<not> W" "0 < n" using minv_starve [OF assms(1)] by auto
  then obtain k where n: "n = Suc k" using gr0_implies_Suc by blast
  have m: "mstate s = enc False False True (Suc k)" using minv_mstate [OF assms(1)] fx nW n by simp
  have d: "d = enc True False False 0 - enc False False False 1 \<and> 2 \<le> n
      \<or> d = enc True False False 0 - enc False False False 1 - enc False False True 0"
    using minv_local [OF assms(1,2)] assms(3) by simp
  obtain S' where S': "mstate s + d = enc True False S' k" "S' \<Longrightarrow> 0 < k"
    using d
  proof
    assume "d = enc True False False 0 - enc False False False 1 \<and> 2 \<le> n"
    then show thesis using enc_handoff(1) [of k] m n by (intro that [of True]) auto
  next
    assume "d = enc True False False 0 - enc False False False 1 - enc False False True 0"
    then show thesis using enc_handoff(2) [of k] m by (intro that [of False]) auto
  qed
  have "minv (put_pc i (Holding, mstate s + d) s) True False S' k"
    unfolding put_pc_eq using n fx nW S'
    by (intro minv_put [OF assms(1,2)]) (auto simp: assms(3))
  then show ?thesis by (auto simp: word_inv_def)
qed

lemma unlockSlow_check_enc:
  "n < 2 ^ 28 \<Longrightarrow> unlockSlow_check (enc L W S n)
     = (if n = 0 \<or> L \<or> W \<or> S then Outside else UnlockCas (enc L W S n))"
  unfolding unlockSlow_check_def mutex_consts(1-4)
  by (auto simp: enc_or enc_and_zero enc_shift_eq)

lemma unlock_start_enc:
  assumes "n < 2 ^ 28"
  shows "unlock_start (enc True W S n) =
    (if S then Release True else if n = 0 \<or> W then Outside else UnlockCas (enc False W S n),
     enc False W S n)"
  using assms unfolding unlock_start_def unlockSlow_def mutex_consts(1-4)
  by (auto simp: enc_unlock enc_relock enc_and_zero enc_zero unlockSlow_check_enc Let_def)

lemma unlock_start_inv:
  assumes "minv s L W S n" "i < length (gs s)" "gs s ! i = Holding" "n < 2 ^ 28"
  shows "minv (put_pc i (unlock_start (mstate s)) s) False W S n"
proof -
  have L: "L" using minv_hold [OF assms(1,2)] assms(3) by simp
  note st = minv_starve [OF assms(1)]
  show ?thesis
    unfolding put_pc_eq using L st minv_mstate [OF assms(1)] assms(4)
    by (intro minv_put [OF assms(1,2)]) (auto simp: assms(3) unlock_start_enc split: if_splits)
qed

lemma unlockSlow_cas_inv:
  assumes "minv s L W S n" "i < length (gs s)" "gs s ! i = UnlockCas m" "n < 2 ^ 28"
  shows "word_inv (put_pc i (unlockSlow_cas m (mstate s)) s)"
proof -
  obtain k where k: "m = enc False False False k" "0 < k" "k < 2 ^ 28"
    using minv_local [OF assms(1,2)] assms(3) by auto
  note m = minv_mstate [OF assms(1)] and st = minv_starve [OF assms(1)]
  show ?thesis
  proof (cases "mstate s = m")
    case True
    then have 0: "\<not> L" "\<not> W" "\<not> S" "n = k"
      using enc_inj [of n k L W S False False False] m k assms(4) by simp_all
    obtain j where j: "k = Suc j" using k(2) gr0_implies_Suc by blast
    have "unlockSlow_cas m (mstate s) = (Release False, enc False True False j)"
      unfolding unlockSlow_cas_def mutex_consts(1-4) True k(1) j enc_sub enc_or by simp
    then have "minv (put_pc i (unlockSlow_cas m (mstate s)) s) False True False j"
      unfolding put_pc_eq using 0 j
      by (intro minv_put [OF assms(1,2)]) (auto simp: assms(3))
    then show ?thesis by (auto simp: word_inv_def)
  next
    case False
    then have "unlockSlow_cas m (mstate s)
        = (if n = 0 \<or> L \<or> W \<or> S then Outside else UnlockCas (enc L W S n), enc L W S n)"
      using m assms(4) by (simp add: unlockSlow_cas_def unlockSlow_check_enc)
    then have "minv (put_pc i (unlockSlow_cas m (mstate s)) s) L W S n"
      unfolding put_pc_eq using st assms(4)
      by (intro minv_put [OF assms(1,2)]) (auto simp: assms(3) split: if_splits)
    then show ?thesis by (auto simp: word_inv_def)
  qed
qed

lemma sema_one: "minv s L W S n \<Longrightarrow> msema s \<noteq> 0 \<Longrightarrow> msema s = 1"
proof -
  assume inv: "minv s L W S n" "msema s \<noteq> 0"
  then have "unat (msema s) = 1"
    using minv_tok [OF inv(1)] by (simp add: unat_gt_0) (metis add_is_1 gr0I unat_eq_0)
  then show ?thesis by (simp add: word_unat_eq_iff)
qed

lemma minv_tok_zero:
  assumes "minv s L W S n" "i < length (gs s)" "tok_w (gs s ! i) = 1"
  shows "msema s = 0"
proof -
  have "1 \<le> total tok_w s" using total_ge [OF assms(2), of tok_w] assms(3) by simp
  then have "unat (msema s) = 0" using minv_tok [OF assms(1)] by auto
  then show ?thesis by (simp add: unat_eq_0)
qed

text \<open>A step in \<open>semacquire1\<close> or \<open>semrelease1\<close> leaves the word of the mutex alone.\<close>

lemma minv_sema:
  assumes inv: "minv s L W S n" and i: "i < length (gs s)"
    and w: "hold_w y = hold_w (gs s ! i)" "awk_w y = awk_w (gs s ! i)" "fix_w y = fix_w (gs s ! i)"
      "ucas_w y = ucas_w (gs s ! i)" "wait_w y = wait_w (gs s ! i)"
    and tok: "tok_w y + unat v = tok_w (gs s ! i) + unat (msema s)"
    and wk: "v \<noteq> 0 \<Longrightarrow> q \<noteq> [] \<Longrightarrow> 0 < waker_w y \<or> waker_w (gs s ! i) = 0 \<and> msema s \<noteq> 0 \<and> mqueue s \<noteq> []
        \<or> waker_w (gs s ! i) < total waker_w s"
    and loc: "local_ok n y"
  shows "minv (s\<lparr>msema := v, mqueue := q, gs := (gs s)[i := y]\<rparr>) L W S n"
proof -
  have inv': "S \<longrightarrow> \<not> W \<and> 0 < n" "0 < total awk_w s \<longrightarrow> W" "0 < total fix_w s \<longrightarrow> S \<and> \<not> L"
      "\<not> L \<and> \<not> W \<and> \<not> S \<and> 0 < n \<longrightarrow> 0 < total ucas_w s"
    using inv unfolding minv_def by blast+
  have ge: "awk_w (gs s ! i) \<le> total awk_w s" "fix_w (gs s ! i) \<le> total fix_w s" using total_ge [OF i] by blast+
  have "minv (s\<lparr>mstate := mstate s, msema := v, mqueue := q, gs := (gs s)[i := y]\<rparr>) L W S n"
  proof (rule minv_put_queue [OF inv i minv_mstate [OF inv] _ _ _ _ _ _ _ _ _ wk loc])
    show "0 < ucas_w y \<or> ucas_w (gs s ! i) = 0 \<and> \<not> L \<and> \<not> W \<and> \<not> S \<and> 0 < n" if "\<not> L \<and> \<not> W \<and> \<not> S \<and> 0 < n"
      using that w by auto
  qed (use inv' ge w tok in auto)
  then show ?thesis by simp
qed

lemma easy_inv:
  assumes "minv s L W S n" "i < length (gs s)" "gs s ! i = Acquire l"
  shows "minv (semacquire1_easy i l s) L W S n"
proof (cases "msema s = 0")
  case True
  have "minv (s\<lparr>msema := msema s, mqueue := mqueue s, gs := (gs s)[i := Enter l]\<rparr>) L W S n"
    using True by (intro minv_sema [OF assms(1,2)]) (auto simp: assms(3))
  then show ?thesis by (rule minv_same) (use True in \<open>simp_all add: semacquire1_easy_def cansemacquire_def\<close>)
next
  case False
  have "minv (s\<lparr>msema := 0, mqueue := mqueue s, gs := (gs s)[i := Acquired l]\<rparr>) L W S n"
    using sema_one [OF assms(1) False] by (intro minv_sema [OF assms(1,2)]) (auto simp: assms(3))
  then show ?thesis by (rule minv_same) (use sema_one [OF assms(1) False] in \<open>simp_all add: semacquire1_easy_def cansemacquire_def\<close>)
qed

lemma enter_inv:
  assumes "minv s L W S n" "i < length (gs s)" "gs s ! i = Enter l" "semacquire1_enter i l s = Some s'"
  shows "minv s' L W S n"
proof -
  have "minv (s\<lparr>msema := msema s, mqueue := mqueue s, gs := (gs s)[i := Recheck l]\<rparr>) L W S n"
    by (intro minv_sema [OF assms(1,2)]) (auto simp: assms(3))
  then show ?thesis by (rule minv_same) (use assms(4) in \<open>auto simp: semacquire1_enter_def split: if_splits\<close>)
qed

lemma recheck_inv:
  assumes "minv s L W S n" "i < length (gs s)" "gs s ! i = Recheck l"
  shows "minv (semacquire1_recheck i l s) L W S n"
proof (cases "msema s = 0")
  case True
  let ?q = "if queueLifo l then i # mqueue s else mqueue s @ [i]"
  have "minv (s\<lparr>msema := msema s, mqueue := ?q, gs := (gs s)[i := Asleep l]\<rparr>) L W S n"
    using True by (intro minv_sema [OF assms(1,2)]) (auto simp: assms(3))
  then show ?thesis by (rule minv_same) (use True in \<open>simp_all add: semacquire1_recheck_def cansemacquire_def\<close>)
next
  case False
  have "minv (s\<lparr>msema := 0, mqueue := mqueue s, gs := (gs s)[i := Leave l]\<rparr>) L W S n"
    using sema_one [OF assms(1) False] by (intro minv_sema [OF assms(1,2)]) (auto simp: assms(3))
  then show ?thesis by (rule minv_same) (use sema_one [OF assms(1) False] in \<open>simp_all add: semacquire1_recheck_def cansemacquire_def\<close>)
qed

lemma leave_inv:
  assumes "minv s L W S n" "i < length (gs s)" "gs s ! i = Leave l"
  shows "minv (semacquire1_leave i l s) L W S n"
proof -
  have "minv (s\<lparr>msema := msema s, mqueue := mqueue s, gs := (gs s)[i := Acquired l]\<rparr>) L W S n"
    using minv_tok_zero [OF assms(1,2)] by (intro minv_sema [OF assms(1,2)]) (auto simp: assms(3))
  then show ?thesis by (rule minv_same) (simp_all add: semacquire1_leave_def)
qed

lemma woken_inv:
  assumes "minv s L W S n" "i < length (gs s)" "gs s ! i = Woken l ticket"
  shows "minv (semacquire1_woken i l ticket s) L W S n"
proof (cases ticket)
  case True
  have "minv (s\<lparr>msema := msema s, mqueue := mqueue s, gs := (gs s)[i := Acquired l]\<rparr>) L W S n"
    using True minv_tok_zero [OF assms(1,2)] by (intro minv_sema [OF assms(1,2)]) (auto simp: assms(3))
  then show ?thesis by (rule minv_same) (use True in \<open>simp_all add: semacquire1_woken_def cansemacquire_def\<close>)
next
  case nt: False
  show ?thesis
  proof (cases "msema s = 0")
    case True
    have "minv (s\<lparr>msema := msema s, mqueue := mqueue s, gs := (gs s)[i := Enter l]\<rparr>) L W S n"
      using True nt by (intro minv_sema [OF assms(1,2)]) (auto simp: assms(3))
    then show ?thesis by (rule minv_same) (use True nt in \<open>simp_all add: semacquire1_woken_def cansemacquire_def\<close>)
  next
    case False
    have "minv (s\<lparr>msema := 0, mqueue := mqueue s, gs := (gs s)[i := Acquired l]\<rparr>) L W S n"
      using sema_one [OF assms(1) False] nt by (intro minv_sema [OF assms(1,2)]) (auto simp: assms(3))
    then show ?thesis by (rule minv_same) (use sema_one [OF assms(1) False] nt in \<open>simp_all add: semacquire1_woken_def cansemacquire_def\<close>)
  qed
qed

lemma add_inv:
  assumes "minv s L W S n" "i < length (gs s)" "gs s ! i = Release handoff"
  shows "minv (semrelease1_add i handoff s) L W S n"
proof -
  have "msema s = 0" using minv_tok_zero [OF assms(1,2)] assms(3) by simp
  then have "minv (s\<lparr>msema := msema s + 1, mqueue := mqueue s, gs := (gs s)[i := Load handoff]\<rparr>) L W S n"
    by (intro minv_sema [OF assms(1,2)]) (auto simp: assms(3))
  then show ?thesis by (rule minv_same) (simp_all add: semrelease1_add_def)
qed

section \<open>The semaphore\<close>

text \<open>
  \<open>nwait\<close> counts the queue and the goroutine that holds the lock of the root to queue up; and a goroutine that is
  asleep is in the queue, or has been taken out of it by exactly one that is about to wake it.
\<close>

definition sema_ok :: "mutex \<Rightarrow> bool" where
  "sema_ok s \<longleftrightarrow>
     total crit_w s = of_bool (rlock s) \<and>
     nwait s = of_nat (length (mqueue s) + of_bool (rlock s)) \<and>
     distinct (mqueue s) \<and>
     (\<forall>j. of_bool (j \<in> set (mqueue s)) + total (ready_w j) s = of_bool (j < length (gs s) \<and> is_asleep (gs s ! j)))"

lemma sema_ok_queue:
  assumes "sema_ok s" "length (gs s) < 2 ^ 28" "nwait s = 0"
  shows "mqueue s = []"
proof -
  have s: "distinct (mqueue s)" "of_bool (j \<in> set (mqueue s)) + total (ready_w j) s = of_bool (j < length (gs s) \<and> is_asleep (gs s ! j))"
      "nwait s = of_nat (length (mqueue s) + of_bool (rlock s))" for j
    using assms(1) unfolding sema_ok_def by blast+
  have "j < length (gs s)" if "j \<in> set (mqueue s)" for j using s(2) [of j] that by (cases "j < length (gs s)") simp_all
  then have "set (mqueue s) \<subseteq> {..<length (gs s)}" by blast
  from card_mono [OF _ this] have "length (mqueue s) \<le> length (gs s)" using s(1) by (simp add: distinct_card)
  moreover have "unat (nwait s) = (length (mqueue s) + of_bool (rlock s)) mod 2 ^ 32" unfolding s(3) by (simp add: unat_of_nat del: of_nat_add)
  ultimately have "length (mqueue s) + of_bool (rlock s) = 0"
    using assms(2,3) by (cases "rlock s") simp_all
  then show ?thesis by simp
qed

lemma sema_ok_put:
  assumes "sema_ok s" "i < length (gs s)" "crit_w y = crit_w (gs s ! i)" "\<And>j. ready_w j y = ready_w j (gs s ! i)"
    and "is_asleep y = is_asleep (gs s ! i)"
    and s': "gs s' = (gs s)[i := y]" "rlock s' = rlock s" "nwait s' = nwait s" "mqueue s' = mqueue s"
  shows "sema_ok s'"
proof -
  have "total f s' + f (gs s ! i) = total f s + f y" for f
    using total_upd [OF assms(2), of f y] s'(1) by (simp add: total_def)
  then have "total crit_w s' = total crit_w s" "total (ready_w j) s' = total (ready_w j) s" for j
    using assms(3,4) by (metis add_right_cancel)+
  then show ?thesis using assms(1,2,5) s' by (simp add: sema_ok_def nth_list_update)
qed

lemma load_inv:
  assumes "minv s L W S n" "i < length (gs s)" "gs s ! i = Load handoff" "sema_ok s" "length (gs s) < 2 ^ 28"
  shows "minv (semrelease1_load i handoff other s) L W S n" "sema_ok (semrelease1_load i handoff other s)"
proof -
  let ?y = "if nwait s = 0 \<and> \<not> other then Outside else Wake handoff"
  have "minv (s\<lparr>msema := msema s, mqueue := mqueue s, gs := (gs s)[i := ?y]\<rparr>) L W S n"
    using sema_ok_queue [OF assms(4,5)] by (intro minv_sema [OF assms(1,2)]) (auto simp: assms(3))
  then show "minv (semrelease1_load i handoff other s) L W S n"
    by (rule minv_same) (simp_all add: semrelease1_load_def)
  show "sema_ok (semrelease1_load i handoff other s)"
    by (rule sema_ok_put [OF assms(4,2), of ?y]) (simp_all add: assms(3) semrelease1_load_def)
qed

lemma search_inv:
  assumes "minv s L W S n" "i < length (gs s)" "gs s ! i = Wake handoff" "sema_ok s" "length (gs s) < 2 ^ 28"
    and "semrelease1_search i handoff other s = Some s'"
  shows "minv s' L W S n" "sema_ok s'"
proof -
  have "\<not> rlock s" using assms(6) by (auto simp: semrelease1_search_def)
  then consider (out) "mqueue s = []" "s' = s\<lparr>gs := (gs s)[i := Outside]\<rparr>"
    | (wake) j q where "mqueue s = j # q" "s' = s\<lparr>nwait := nwait s - 1, mqueue := q, gs := (gs s)[i := Ready j handoff]\<rparr>"
    using assms(6) sema_ok_queue [OF assms(4,5)] by (cases "mqueue s") (auto simp: semrelease1_search_def split: if_splits)
  then have "minv s' L W S n \<and> sema_ok s'"
  proof cases
    case out
    have "minv (s\<lparr>msema := msema s, mqueue := mqueue s, gs := (gs s)[i := Outside]\<rparr>) L W S n"
      using out(1) by (intro minv_sema [OF assms(1,2)]) (auto simp: assms(3))
    then have "minv s' L W S n" by (rule minv_same) (simp_all add: out(2))
    moreover have "sema_ok s'" by (rule sema_ok_put [OF assms(4,2), of Outside]) (simp_all add: assms(3) out(2))
    ultimately show ?thesis by blast
  next
    case wake
    let ?y = "Ready j handoff"
    have "minv (s\<lparr>msema := msema s, mqueue := q, gs := (gs s)[i := ?y]\<rparr>) L W S n"
      by (intro minv_sema [OF assms(1,2)]) (auto simp: assms(3))
    then have minv: "minv s' L W S n" by (rule minv_same) (simp_all add: wake(2))
    have q: "total crit_w s = of_bool (rlock s)" "distinct (j # q)" "nwait s = of_nat (Suc (length q) + of_bool (rlock s))"
        "of_bool (k \<in> set (j # q)) + total (ready_w k) s = of_bool (k < length (gs s) \<and> is_asleep (gs s ! k))" for k
      using assms(4) unfolding sema_ok_def wake(1) by simp_all
    have tot: "total f s' = total f (s\<lparr>gs := (gs s)[i := ?y]\<rparr>)" for f by (simp add: wake(2) total_def)
    have "total crit_w s' = total crit_w s" "total (ready_w k) s' = total (ready_w k) s + of_bool (j = k)" for k
      unfolding tot using total_upd [OF assms(2), of crit_w ?y] total_upd [OF assms(2), of "ready_w k" ?y] by (simp_all add: assms(3))
    moreover have "of_bool (k \<in> set q) + of_bool (j = k) = (of_bool (k \<in> set (j # q)) :: nat)" for k
      using q(2) by auto
    moreover have "of_bool (k \<in> set q) + (total (ready_w k) s + of_bool (j = k))
        = of_bool (k \<in> set q) + of_bool (j = k) + total (ready_w k) s" for k by simp
    ultimately have "of_bool (k \<in> set q) + total (ready_w k) s' = of_bool (k < length (gs s) \<and> is_asleep (gs s ! k))" for k
      using q(4) [of k] by presburger
    moreover have "is_asleep ((gs s)[i := ?y] ! k) = is_asleep (gs s ! k)" for k
      using assms(2,3) by (cases "k = i") simp_all
    ultimately have "sema_ok s'"
      using q(1-3) \<open>total crit_w s' = total crit_w s\<close> by (simp add: sema_ok_def wake(2) del: total_fields)
    then show ?thesis using minv by blast
  qed
  then show "minv s' L W S n" "sema_ok s'" by blast+
qed

text \<open>A goroutine that has been taken out of the queue is still asleep.\<close>

lemma ready_asleep:
  assumes "sema_ok s" "i < length (gs s)" "gs s ! i = Ready j handoff"
  shows "j < length (gs s)" "is_asleep (gs s ! j)" "j \<notin> set (mqueue s)" "total (ready_w j) s = 1"
proof -
  have eq: "of_bool (j \<in> set (mqueue s)) + total (ready_w j) s = of_bool (j < length (gs s) \<and> is_asleep (gs s ! j))"
    using assms(1) unfolding sema_ok_def by blast
  have "1 \<le> total (ready_w j) s" using total_ge [OF assms(2), of "ready_w j"] assms(3) by simp
  then show "j < length (gs s)" "is_asleep (gs s ! j)" "j \<notin> set (mqueue s)" "total (ready_w j) s = 1"
    using eq by (cases "j < length (gs s) \<and> is_asleep (gs s ! j)"; cases "j \<in> set (mqueue s)"; simp)+
qed

lemma ready_inv:
  assumes "minv s L W S n" "i < length (gs s)" "gs s ! i = Ready j handoff" "sema_ok s"
  shows "minv (semrelease1_ready i j handoff s) L W S n" "sema_ok (semrelease1_ready i j handoff s)"
proof -
  note j = ready_asleep [OF assms(4,2,3)]
  obtain l where l: "gs s ! j = Asleep l" using j(2) by (cases "gs s ! j") auto
  have ij: "i \<noteq> j" using l assms(3) by auto
  define t where "t = (handoff \<and> msema s \<noteq> 0)"
  define v where "v = (if t then msema s - 1 else msema s)"
  define s1 where "s1 = s\<lparr>msema := v, mqueue := mqueue s, gs := (gs s)[j := Woken l t]\<rparr>"
  have tv: "of_bool t + unat v = unat (msema s) \<and> (t \<longrightarrow> v = 0)"
    using sema_one [OF assms(1)] by (auto simp: t_def v_def)
  have inv1: "minv s1 L W S n"
    unfolding s1_def using tv by (intro minv_sema [OF assms(1) j(1)]) (auto simp: l)
  have i1: "i < length (gs s1)" "gs s1 ! i = Ready j handoff" using assms(2,3) ij by (simp_all add: s1_def)
  have wk: "1 < total waker_w s1" if "\<not> t"
  proof -
    have "waker_w (gs s ! i) + waker_w (Woken l t) \<le> total waker_w s1"
      using total_upd [OF j(1), of waker_w "Woken l t"] total_ge [OF assms(2), of waker_w] l
      by (simp add: s1_def total_def)
    then show ?thesis using that assms(3) by simp
  qed
  have "minv (s1\<lparr>msema := msema s1, mqueue := mqueue s1, gs := (gs s1)[i := Outside]\<rparr>) L W S n"
    using i1(2) wk tv by (intro minv_sema [OF inv1 i1(1)]) (auto simp: s1_def)
  moreover have eq: "semrelease1_ready i j handoff s = s\<lparr>msema := v, gs := ((gs s)[j := Woken l t])[i := Outside]\<rparr>"
    by (auto simp: semrelease1_ready_def l t_def v_def cansemacquire_def)
  ultimately show "minv (semrelease1_ready i j handoff s) L W S n"
    by (elim minv_same) (simp_all add: s1_def)
  let ?s = "s\<lparr>msema := v, gs := ((gs s)[j := Woken l t])[i := Outside]\<rparr>"
  have tot: "total f ?s + f (gs s ! i) + f (gs s ! j) = total f s + f (Woken l t) + f Outside" for f
    using total_upd [OF j(1), of f "Woken l t"] total_upd [of i "s\<lparr>gs := (gs s)[j := Woken l t]\<rparr>" f Outside] assms(2) ij
    by (simp add: total_def)
  have crit: "total crit_w ?s = total crit_w s" using tot [of crit_w] assms(3) l by simp
  have rdy: "total (ready_w k) ?s + of_bool (j = k) = total (ready_w k) s" for k
    using tot [of "ready_w k"] assms(3) l by simp
  have slp: "is_asleep (((gs s)[j := Woken l t])[i := Outside] ! k) = (is_asleep (gs s ! k) \<and> j \<noteq> k)" if "k < length (gs s)" for k
    using that assms(2,3) ij j(1) by (cases "k = i"; cases "k = j") simp_all
  have "of_bool (k \<in> set (mqueue s)) + total (ready_w k) ?s = of_bool (k < length (gs s) \<and> is_asleep (gs ?s ! k))" for k
  proof (cases "j = k")
    case True
    then show ?thesis using rdy [of k] slp [of k] j by simp
  next
    case False
    then show ?thesis using rdy [of k] slp [of k] assms(4) by (cases "k < length (gs s)") (simp_all add: sema_ok_def)
  qed
  then show "sema_ok (semrelease1_ready i j handoff s)"
    using crit assms(4) unfolding eq sema_ok_def by (simp del: total_fields)
qed

lemma enter_sema_ok:
  assumes "sema_ok s" "i < length (gs s)" "gs s ! i = Enter l" "semacquire1_enter i l s = Some s'"
  shows "sema_ok s'"
proof -
  have s': "\<not> rlock s" "s' = s\<lparr>rlock := True, nwait := nwait s + 1, gs := (gs s)[i := Recheck l]\<rparr>"
    using assms(4) by (auto simp: semacquire1_enter_def split: if_splits)
  have tot: "total f s' = total f (s\<lparr>gs := (gs s)[i := Recheck l]\<rparr>)" for f by (simp add: s'(2) total_def)
  have "total crit_w s' = Suc (total crit_w s)" "total (ready_w j) s' = total (ready_w j) s" for j
    unfolding tot using total_upd [OF assms(2), of crit_w "Recheck l"] total_upd [OF assms(2), of "ready_w j" "Recheck l"]
    by (simp_all add: assms(3))
  then show ?thesis using assms(1-3) s' by (simp add: sema_ok_def nth_list_update del: total_fields)
qed

lemma leave_sema_ok:
  assumes "sema_ok s" "i < length (gs s)" "gs s ! i = Leave l"
  shows "sema_ok (semacquire1_leave i l s)"
proof -
  let ?s = "semacquire1_leave i l s"
  have tot: "total f ?s = total f (s\<lparr>gs := (gs s)[i := Acquired l]\<rparr>)" for f by (simp add: semacquire1_leave_def total_def)
  have t: "Suc (total crit_w ?s) = total crit_w s" "total (ready_w j) ?s = total (ready_w j) s" for j
    unfolding tot using total_upd [OF assms(2), of crit_w "Acquired l"] total_upd [OF assms(2), of "ready_w j" "Acquired l"]
    by (simp_all add: assms(3))
  then have "rlock s" using assms(1) by (cases "rlock s") (simp_all add: sema_ok_def)
  then show ?thesis using t assms by (simp add: sema_ok_def semacquire1_leave_def nth_list_update del: total_fields)
qed

lemma recheck_sema_ok:
  assumes "sema_ok s" "i < length (gs s)" "gs s ! i = Recheck l"
  shows "sema_ok (semacquire1_recheck i l s)"
proof (cases "msema s = 0")
  case False
  then show ?thesis
    by (intro sema_ok_put [OF assms(1,2), of "Leave l"]) (simp_all add: assms(3) semacquire1_recheck_def cansemacquire_def)
next
  case True
  let ?q = "if queueLifo l then i # mqueue s else mqueue s @ [i]"
  define s' where "s' = s\<lparr>rlock := False, mqueue := ?q, gs := (gs s)[i := Asleep l]\<rparr>"
  have tot: "total f s' = total f (s\<lparr>gs := (gs s)[i := Asleep l]\<rparr>)" for f by (simp add: s'_def total_def)
  have t: "Suc (total crit_w s') = total crit_w s" "total (ready_w j) s' = total (ready_w j) s" for j
    unfolding tot using total_upd [OF assms(2), of crit_w "Asleep l"] total_upd [OF assms(2), of "ready_w j" "Asleep l"]
    by (simp_all add: assms(3))
  then have r: "rlock s" using assms(1) by (cases "rlock s") (simp_all add: sema_ok_def)
  have eq: "of_bool (j \<in> set (mqueue s)) + total (ready_w j) s = of_bool (j < length (gs s) \<and> is_asleep (gs s ! j))" for j
    using assms(1) unfolding sema_ok_def by blast
  have i: "i \<notin> set (mqueue s)" "total (ready_w i) s = 0" using eq [of i] assms(3) by simp_all
  have "of_bool (j \<in> set ?q) + total (ready_w j) s' = of_bool (j < length (gs s) \<and> is_asleep ((gs s)[i := Asleep l] ! j))" for j
    using eq [of j] i assms(2) t(2) [of j] by (cases "j = i") simp_all
  then have "sema_ok s'"
    using t(1) r i(1) assms(1) by (simp add: sema_ok_def s'_def algebra_simps del: total_fields)
  then show ?thesis using True by (simp add: semacquire1_recheck_def cansemacquire_def s'_def)
qed

text \<open>The steps that do not touch the lock of the root and the queue.\<close>

definition quiet :: "pc \<Rightarrow> bool" where
  "quiet y \<longleftrightarrow> crit_w y = 0 \<and> (\<forall>j. ready_w j y = 0) \<and> \<not> is_asleep y"

lemma quiet_simps [simp]:
  "quiet Outside" "quiet (Slow l)" "quiet (Reload l)" "quiet (Acquire l)" "quiet (Enter l)" "quiet (Woken l t)"
  "quiet (Acquired l)" "quiet (HandOff d)" "quiet Holding" "quiet (UnlockCas m)" "quiet (Release h)" "quiet (Load h)"
  "quiet (Wake h)" "quiet Thrown"
  by (simp_all add: quiet_def)

lemma quiet_code:
  "quiet (fst (lock_start m))" "quiet (fst (lockSlow_iter spin l m))" "quiet (lockSlow_woken late l m)"
  "quiet (unlockSlow_check m)" "quiet (fst (unlock_start m))" "quiet (fst (unlockSlow_cas o' m))"
  by (simp_all add: lock_start_def lockSlow_iter_def lockSlow_woken_def unlockSlow_check_def unlock_start_def
      unlockSlow_def unlockSlow_cas_def Let_def)

lemma quiet_sema_ok:
  assumes "sema_ok s" "i < length (gs s)" "quiet (gs s ! i)" "quiet y"
    and "gs s' = (gs s)[i := y]" "rlock s' = rlock s" "nwait s' = nwait s" "mqueue s' = mqueue s"
  shows "sema_ok s'"
  by (rule sema_ok_put [OF assms(1,2)]) (use assms(3-) in \<open>simp_all add: quiet_def\<close>)

lemma quiet_steps:
  assumes "sema_ok s" "i < length (gs s)" "quiet (gs s ! i)"
  shows "quiet (fst r) \<Longrightarrow> sema_ok (put_pc i r s)" "sema_ok (semacquire1_easy i l s)"
    "sema_ok (semacquire1_woken i l ticket s)" "sema_ok (semrelease1_add i handoff s)"
proof -
  note q = quiet_sema_ok [OF assms]
  show "sema_ok (put_pc i r s)" if "quiet (fst r)"
    by (rule q [of "fst r"]) (use that in \<open>simp_all add: put_pc_def\<close>)
  show "sema_ok (semacquire1_easy i l s)"
    by (rule q [of "if msema s = 0 then Enter l else Acquired l"]) (simp_all add: semacquire1_easy_def cansemacquire_def)
  show "sema_ok (semacquire1_woken i l ticket s)"
    by (rule q [of "if msema s = 0 \<and> \<not> ticket then Enter l else Acquired l"])
      (simp_all add: semacquire1_woken_def cansemacquire_def)
  show "sema_ok (semrelease1_add i handoff s)"
    by (rule q [of "Load handoff"]) (simp_all add: semrelease1_add_def)
qed

definition mutex_inv :: "mutex \<Rightarrow> bool" where
  "mutex_inv s \<longleftrightarrow> word_inv s \<and> sema_ok s"

lemma mutex_invE:
  assumes "mutex_inv s"
  obtains L W S n where "minv s L W S n"
  using assms by (auto simp: mutex_inv_def word_inv_def)

lemma length_gs_step: "mutex_step i spin late other s = Some s' \<Longrightarrow> length (gs s') = length (gs s)"
  by (auto simp: mutex_step_def put_pc_def semacquire1_easy_def semacquire1_enter_def semacquire1_recheck_def
      semacquire1_leave_def semacquire1_woken_def semrelease1_add_def semrelease1_load_def semrelease1_search_def
      semrelease1_ready_def split: if_splits pc.splits prod.splits bool.splits list.splits)

lemma mutex_step_inv:
  assumes "mutex_inv s" "length (gs s) < 2 ^ 28" "mutex_step i spin late other s = Some s'"
  shows "mutex_inv s'"
proof -
  obtain L W S n where inv: "minv s L W S n" using assms(1) by (rule mutex_invE)
  have ok: "sema_ok s" using assms(1) by (simp add: mutex_inv_def)
  have i: "i < length (gs s)" using assms(3) by (auto simp: mutex_step_def split: if_splits)
  have n: "n < 2 ^ 28" using minv_waiters [OF inv] assms(2) by simp
  have word: "minv s'' L' W' S' n' \<Longrightarrow> word_inv s''" for s'' L' W' S' n'
    unfolding word_inv_def by blast
  note rules = lock_start_inv [OF inv i] lockSlow_iter_inv [OF inv i] handoff_inv [OF inv i]
    unlockSlow_cas_inv [OF inv i] reload_inv [OF inv i, THEN word]
    lockSlow_woken_inv [OF inv i, THEN word] unlock_start_inv [OF inv i, THEN word]
    easy_inv [OF inv i, THEN word] woken_inv [OF inv i, THEN word] add_inv [OF inv i, THEN word]
    enter_inv [OF inv i, THEN word] recheck_inv [OF inv i, THEN word] leave_inv [OF inv i, THEN word]
    load_inv(1) [OF inv i _ ok assms(2), THEN word] search_inv(1) [OF inv i _ ok assms(2), THEN word]
    ready_inv(1) [OF inv i _ ok, THEN word]
  note oks = enter_sema_ok [OF ok i] recheck_sema_ok [OF ok i] leave_sema_ok [OF ok i]
    load_inv(2) [OF inv i _ ok assms(2)] search_inv(2) [OF inv i _ ok assms(2)] ready_inv(2) [OF inv i _ ok]
  note quiets = quiet_steps [OF ok i] quiet_code
  have "word_inv s'" using assms(3) i n rules by (cases "gs s ! i") (auto simp: mutex_step_def)
  moreover have "sema_ok s'"
    using assms(3) i oks by (cases "gs s ! i") (auto simp: mutex_step_def intro!: quiets)
  ultimately show ?thesis by (simp add: mutex_inv_def)
qed

lemma mutex_init_inv: "mutex_inv (mutex_init k)"
proof -
  have t: "total f (mutex_init k) = k * f Outside" for f
    by (simp add: total_def mutex_init_def tally_replicate)
  then have "minv (mutex_init k) False False False 0"
    by (simp add: minv_def) (simp add: mutex_init_def flip: mutex_consts(5))
  moreover have "sema_ok (mutex_init k)" using t by (simp add: sema_ok_def) (simp add: mutex_init_def)
  ultimately show ?thesis by (auto simp: mutex_inv_def word_inv_def)
qed

lemma mutex_reach_inv:
  assumes "mutex_reach k s" "k < 2 ^ 28"
  shows "mutex_inv s" and "length (gs s) = k"
proof -
  have "mutex_inv s \<and> length (gs s) = k"
    using assms(1)
  proof induction
    case init
    show ?case using mutex_init_inv by (simp add: mutex_init_def)
  next
    case (step s i spin late other s')
    then show ?case using mutex_step_inv [of s i spin late other s'] assms(2) length_gs_step by simp
  qed
  then show "mutex_inv s" and "length (gs s) = k" by blast+
qed

section \<open>Properties\<close>

lemma total_zero: "total f s = 0 \<longleftrightarrow> (\<forall>x \<in> set (gs s). f x = 0)"
  by (simp add: total_def tally_zero)

lemma hold_w_eq: "hold_w x = of_bool (x = Holding)"
  by (cases x) auto

lemma holders_total: "length (filter (\<lambda>x. x = Holding) (gs s)) = total hold_w s"
proof -
  have "length (filter (\<lambda>x. x = Holding) xs) = sum_list (map hold_w xs)" for xs
    by (induction xs) (auto simp: hold_w_eq)
  then show ?thesis by (simp add: total_def tally_def)
qed

lemma locked_bit: "m AND mutexLocked = 0 \<longleftrightarrow> \<not> bit m 0"
  and starving_bit: "m AND mutexStarving = 0 \<longleftrightarrow> \<not> bit m 2"
proof -
  obtain L W S n where m: "m = enc L W S n" using enc_fields by blast
  then show "m AND mutexLocked = 0 \<longleftrightarrow> \<not> bit m 0" "m AND mutexStarving = 0 \<longleftrightarrow> \<not> bit m 2"
    by (simp_all add: mutex_consts(1,3) enc_and_zero bit_enc)
qed

text \<open>A run of the system: which goroutine steps, and what the model leaves open.\<close>

fun mutex_run :: "(nat \<times> bool \<times> bool \<times> bool) list \<Rightarrow> mutex \<Rightarrow> mutex option" where
  "mutex_run [] s = Some s"
| "mutex_run ((i, spin, late, other) # es) s =
     (case mutex_step i spin late other s of None \<Rightarrow> None | Some s' \<Rightarrow> mutex_run es s')"

lemma mutex_run_reach: "mutex_reach k s \<Longrightarrow> mutex_run es s = Some s' \<Longrightarrow> mutex_reach k s'"
  by (induction es s rule: mutex_run.induct) (auto split: option.splits intro: mutex_reach.step)

text \<open>
  Goroutine 0 locks; 1 queues up; 0 unlocks, wakes 1, and locks again before 1 runs; 1 has waited
  too long, makes the mutex starving and sleeps again; 0 unlocks and hands the mutex over.
\<close>

definition starve_trace :: "(nat \<times> bool \<times> bool \<times> bool) list" where
  "starve_trace = map (\<lambda>i. (i, False, True, False))
     [0, 1, 1, 1, 1, 1, 1, 0, 0, 0, 0, 0, 0, 0, 0, 0, 1, 1, 1, 1, 1, 1, 0, 0, 0, 0, 0, 1, 1]"

definition starve_state :: mutex where
  "starve_state = \<lparr>mstate = 12, msema = 0, rlock = False, nwait = 0, mqueue = [], gs = [Outside, HandOff 4294967285]\<rparr>"

lemma starve_trace_run: "mutex_run starve_trace (mutex_init 2) = Some starve_state"
  by code_simp

lemma starve_state_reach: "mutex_reach 2 starve_state"
  using mutex_run_reach [OF mutex_reach.init starve_trace_run] .

text \<open>
  C14: mutual exclusion and consistency. However goroutines interleave, at most one holds the
  mutex, exactly when the lock bit is set, and neither of the two \<open>inconsistent mutex state\<close>
  throws nor the one of \<open>Unlock\<close> is ever reached by goroutines that unlock what they locked.
\<close>

theorem mutex_exclusion:
  assumes "mutex_reach k s" and "k < 2 ^ 28"
  shows "length (filter (\<lambda>x. x = Holding) (gs s)) = of_bool (mstate s AND mutexLocked \<noteq> 0)
       \<and> Thrown \<notin> set (gs s)"
proof -
  obtain L W S n where inv: "minv s L W S n"
    using mutex_invE [OF mutex_reach_inv(1) [OF assms]] by blast
  have "\<forall>x \<in> set (gs s). local_ok n x" using inv unfolding minv_def by blast
  then have "Thrown \<notin> set (gs s)" by auto
  then show ?thesis
    using minv_hold_total [OF inv] minv_mstate [OF inv]
    by (simp add: holders_total locked_bit bit_enc)
qed

theorem mutex_exclusion_witness:
  "length (filter (\<lambda>x. x = Holding) (gs starve_state)) = of_bool (mstate starve_state AND mutexLocked \<noteq> 0)
     \<and> Thrown \<notin> set (gs starve_state)"
  by (rule mutex_exclusion [OF starve_state_reach]) simp

text \<open>When everyone has left or is asleep, nobody is asleep.\<close>

lemma mutex_quiescent:
  assumes "mutex_inv s" and "\<forall>x \<in> set (gs s). x = Outside \<or> is_asleep x"
  shows "s = mutex_init (length (gs s))"
proof -
  obtain L W S n where inv: "minv s L W S n" using assms(1) by (rule mutex_invE)
  have z: "total f s = 0" if "f Outside = 0" "\<And>x. is_asleep x \<Longrightarrow> f x = 0" for f
    using assms(2) that by (auto simp: total_zero)
  have 0: "total hold_w s = 0" "total tok_w s = 0" "total awk_w s = 0" "total fix_w s = 0"
    "total ucas_w s = 0" "total waker_w s = 0" "total crit_w s = 0"
    by (rule z; (simp | erule is_asleep.elims; simp))+
  have 1: "total (ready_w j) s = 0" for j by (rule z; (simp | erule is_asleep.elims; simp))
  have f: "total hold_w s = of_bool L"
    "total tok_w s + unat (msema s) + total awk_w s + total fix_w s = of_bool W + of_bool (S \<and> \<not> L)"
    "n + (if S then 0 else total tok_w s + unat (msema s)) = total wait_w s"
    "S \<longrightarrow> \<not> W \<and> 0 < n"
    "\<not> L \<and> \<not> W \<and> \<not> S \<and> 0 < n \<longrightarrow> 0 < total ucas_w s"
    "msema s \<noteq> 0 \<and> mqueue s \<noteq> [] \<longrightarrow> 0 < total waker_w s"
    using inv unfolding minv_def by blast+
  have ok: "sema_ok s" using assms(1) by (simp add: mutex_inv_def)
  have r: "\<not> rlock s" using ok 0(7) by (cases "rlock s") (simp_all add: sema_ok_def)
  have q: "of_bool (j \<in> set (mqueue s)) = (of_bool (j < length (gs s) \<and> is_asleep (gs s ! j)) :: nat)" for j
    using ok 1 [of j] unfolding sema_ok_def by (metis add_0_right)
  have L: "\<not> L" using f(1) 0(1) by simp
  have "is_asleep x \<Longrightarrow> wait_w x \<noteq> 0" for x by (cases x) simp_all
  then have asleep: "total wait_w s = 0 \<longleftrightarrow> (\<forall>x \<in> set (gs s). x = Outside)"
    using assms(2) by (fastforce simp: total_zero)
  have v: "msema s = 0"
  proof (rule ccontr)
    assume v: "msema s \<noteq> 0"
    then have "mqueue s = []" using f(6) 0(6) by simp
    then have "\<not> (j < length (gs s) \<and> is_asleep (gs s ! j))" for j using q [of j] by simp
    then have "\<forall>x \<in> set (gs s). \<not> is_asleep x" by (auto simp: in_set_conv_nth)
    then have "total wait_w s = 0" using assms(2) asleep by blast
    then show False using f(3,4) v by (cases S) (simp_all add: unat_eq_0)
  qed
  then have WS: "\<not> W" "\<not> S" using f(2) 0 L by auto
  then have n: "n = 0" using f(5) L 0(5) by simp
  have "total wait_w s = 0" using f(3) n v 0(2) by (simp split: if_splits)
  then have out: "\<forall>x \<in> set (gs s). x = Outside" using asleep by blast
  have "\<not> (j < length (gs s) \<and> is_asleep (gs s ! j))" for j using out by (metis is_asleep.simps(2) nth_mem)
  then have "j \<notin> set (mqueue s)" for j using q [of j] by (metis of_bool_eq_0_iff of_bool_eq(1))
  then have "mqueue s = []" by (metis last_in_set)
  moreover from this have "nwait s = 0" using ok r by (simp add: sema_ok_def)
  moreover have "mstate s = 0" using minv_mstate [OF inv] L WS n by (simp flip: mutex_consts(5))
  moreover have "gs s = replicate (length (gs s)) Outside" using out by (metis replicate_length_same)
  ultimately show ?thesis using r v unfolding mutex_init_def by (metis (full_types) mutex.surjective old.unit.exhaust)
qed

text \<open>Who holds the lock of the root can move, so nobody waits for it for ever.\<close>

lemma mutex_stuck:
  assumes inv: "mutex_inv s"
    and stuck: "\<And>i. i < length (gs s) \<Longrightarrow> gs s ! i \<noteq> Outside \<Longrightarrow> \<forall>spin late other. mutex_step i spin late other s = None"
  shows "s = mutex_init (length (gs s))"
proof (rule mutex_quiescent [OF inv], rule ballI)
  fix x assume x: "x \<in> set (gs s)"
  obtain L W S n where "minv s L W S n" using inv by (rule mutex_invE)
  then have nt: "Thrown \<notin> set (gs s)" unfolding minv_def by auto
  have r: "\<not> rlock s"
  proof
    assume "rlock s"
    then have "total crit_w s \<noteq> 0" using inv by (simp add: mutex_inv_def sema_ok_def)
    then obtain y where "y \<in> set (gs s)" "crit_w y \<noteq> 0" by (auto simp: total_zero)
    then obtain i where i: "i < length (gs s)" "crit_w (gs s ! i) \<noteq> 0" by (metis in_set_conv_nth)
    then have "mutex_step i False False False s \<noteq> None" "gs s ! i \<noteq> Outside"
      by (cases "gs s ! i"; simp add: mutex_step_def)+
    then show False using stuck [OF i(1)] by simp
  qed
  obtain i where i: "i < length (gs s)" "gs s ! i = x" using x by (auto simp: in_set_conv_nth)
  show "x = Outside \<or> is_asleep x"
  proof (rule ccontr)
    assume no: "\<not> (x = Outside \<or> is_asleep x)"
    moreover have "x \<noteq> Thrown" using nt x by blast
    ultimately have "mutex_step i False False False s \<noteq> None"
      using i r by (cases x)
        (auto simp: mutex_step_def semacquire1_enter_def semrelease1_search_def split: list.splits)
    then show False using stuck [OF i(1)] i(2) no by simp
  qed
qed

text \<open>
  C15: no wake-up is lost. When no goroutine inside \<open>Lock\<close> or \<open>Unlock\<close> or holding the mutex can take a step, be it
  that it sleeps in the queue of the semaphore or that it waits for the lock of the root, then there is none: all
  have left, and the mutex and its semaphore are as they were at the start, with no permit, waiter or count left.
  So a goroutine never sleeps on a mutex that nobody holds and nobody is about to hand over or wake it for, in
  spite of the reads of \<open>nwait\<close> and of the semaphore outside of the lock of the root.
\<close>

theorem mutex_no_lost_wakeup:
  assumes "mutex_reach k s" and "k < 2 ^ 28"
    and "\<And>i. i < k \<Longrightarrow> gs s ! i \<noteq> Outside \<Longrightarrow> \<forall>spin late other. mutex_step i spin late other s = None"
  shows "s = mutex_init k"
  using mutex_stuck [OF mutex_reach_inv(1) [OF assms(1,2)]] mutex_reach_inv(2) [OF assms(1,2)] assms(3) by simp

theorem mutex_no_lost_wakeup_witness:
  "mutex_run [(1, False, False, False), (1, False, False, False)] starve_state = Some (mutex_init 2)"
proof -
  have "map_option gs (mutex_run [(1, False, False, False), (1, False, False, False)] starve_state)
      = Some [Outside, Outside]" by code_simp
  then obtain s where s: "mutex_run [(1, False, False, False), (1, False, False, False)] starve_state = Some s"
    "gs s = [Outside, Outside]" by auto
  have "mutex_reach 2 s" by (rule mutex_run_reach [OF starve_state_reach s(1)])
  then have "s = mutex_init 2" by (rule mutex_no_lost_wakeup) (auto simp: s(2) less_2_cases_iff)
  then show ?thesis using s(1) by simp
qed

text \<open>What the code of the mutex never goes to.\<close>

lemma code_forms:
  "fst (lock_start m) \<noteq> HandOff d" "fst (lock_start m) \<noteq> Acquired l" "fst (lock_start m) \<noteq> Leave l"
  "fst (lockSlow_iter spin l' m) \<noteq> HandOff d" "fst (lockSlow_iter spin l' m) \<noteq> Acquired l" "fst (lockSlow_iter spin l' m) \<noteq> Leave l"
  "lockSlow_woken late l' m \<noteq> Holding" "lockSlow_woken late l' m \<noteq> Acquired l" "lockSlow_woken late l' m \<noteq> Leave l"
  "fst (unlock_start m) \<noteq> Holding" "fst (unlock_start m) \<noteq> HandOff d" "fst (unlock_start m) \<noteq> Acquired l" "fst (unlock_start m) \<noteq> Leave l"
  "fst (unlockSlow_cas o' m) \<noteq> Holding" "fst (unlockSlow_cas o' m) \<noteq> HandOff d" "fst (unlockSlow_cas o' m) \<noteq> Acquired l"
  "fst (unlockSlow_cas o' m) \<noteq> Leave l"
  by (simp_all add: lock_start_def lockSlow_iter_def lockSlow_woken_def unlockSlow_check_def unlock_start_def
      unlockSlow_def unlockSlow_cas_def Let_def)

text \<open>
  C18: a starving mutex is handed over with a permit of its semaphore. While \<open>mutexStarving\<close> is set there is no
  permit when the mutex is locked and exactly one when it is not: with an \<open>Unlock\<close> that is about to release it, in
  the semaphore, or with a goroutine that has taken it. Only with it a goroutine comes to hold the mutex: neither
  the fast path of one that arrives nor the compare-and-swap of one that was already running gets it, but only the
  \<open>AddInt32\<close> after \<open>runtime_SemacquireMutex\<close>, from which a goroutine returns with a ticket or by taking the permit.
\<close>

theorem mutex_starving_handoff:
  assumes "mutex_reach k s" and "k < 2 ^ 28" and "mstate s AND mutexStarving \<noteq> 0"
    and "mutex_step i spin late other s = Some s'"
  shows "unat (msema s) + total tok_w s + total fix_w s = of_bool (mstate s AND mutexLocked = 0)
       \<and> (gs s ! i \<noteq> Holding \<and> gs s' ! i = Holding \<longrightarrow> (\<exists>d. gs s ! i = HandOff d))
       \<and> (\<forall>d. gs s' ! i = HandOff d \<longrightarrow> (\<exists>l. gs s ! i = Acquired l))
       \<and> (\<forall>l. gs s' ! i = Acquired l \<longrightarrow> gs s ! i \<in> {Leave l, Woken l True}
            \<or> gs s ! i \<in> {Acquire l, Woken l False} \<and> msema s = 1 \<and> msema s' = 0)
       \<and> (\<forall>l. gs s' ! i = Leave l \<longrightarrow> gs s ! i = Recheck l \<and> msema s = 1 \<and> msema s' = 0)"
proof -
  obtain L W S n where inv: "minv s L W S n"
    using mutex_invE [OF mutex_reach_inv(1) [OF assms(1,2)]] by blast
  note m = minv_mstate [OF inv]
  have S: S using assms(3) m by (simp add: starving_bit bit_enc)
  have i: "i < length (gs s)" using assms(4) by (auto simp: mutex_step_def split: if_splits)
  have n: "n < 2 ^ 28" using minv_waiters [OF inv] mutex_reach_inv(2) [OF assms(1,2)] assms(2) by simp
  have "fst (lock_start (mstate s)) \<noteq> Holding"
    using S m n by (simp add: lock_start_def enc_zero)
  moreover have "fst (lockSlow_iter spin l (mstate s)) \<noteq> Holding" if "gs s ! i = Slow l" for l
  proof -
    have "local_ok n (Slow l)" using minv_local [OF inv i] that by simp
    then obtain Lo Wo So k where "old l = enc Lo Wo So k" "k < 2 ^ 28" by auto
    from lockSlow_iter_enc [OF this m n, of spin] S show ?thesis by (auto simp: Let_def)
  qed
  moreover have "unat (msema s) + total tok_w s + total fix_w s = of_bool (mstate s AND mutexLocked = 0)"
  proof -
    have f: "total tok_w s + unat (msema s) + total awk_w s + total fix_w s = of_bool W + of_bool (S \<and> \<not> L)"
        "S \<longrightarrow> \<not> W \<and> 0 < n" "0 < total awk_w s \<longrightarrow> W"
      using inv unfolding minv_def by blast+
    then show ?thesis using S m by (simp add: locked_bit bit_enc)
  qed
  ultimately show ?thesis
    using assms(4) i sema_one [OF inv]
    by (cases "gs s ! i")
      (auto simp: mutex_step_def put_pc_def semacquire1_easy_def semacquire1_enter_def semacquire1_recheck_def
        semacquire1_leave_def semacquire1_woken_def semrelease1_add_def semrelease1_load_def semrelease1_search_def
        semrelease1_ready_def cansemacquire_def split_def Let_def code_forms
        split: if_splits list.splits pc.splits)
qed

theorem mutex_starving_handoff_witness:
  "(\<exists>d. gs starve_state ! 1 = HandOff d) \<and> total tok_w starve_state + total fix_w starve_state = 1"
proof -
  obtain s' where s': "mutex_step 1 False False False starve_state = Some s'" "gs s' ! 1 = Holding"
    by (auto simp: mutex_step_def starve_state_def put_pc_def)
  have s: "mstate starve_state AND mutexStarving \<noteq> 0" "mstate starve_state AND mutexLocked = 0"
      "msema starve_state = 0" "gs starve_state ! 1 \<noteq> Holding"
    by (simp_all add: starve_state_def mutexStarving_def mutexLocked_def)
  show ?thesis
    using mutex_starving_handoff [OF starve_state_reach _ s(1) s'(1)] s s'(2) by simp
qed

text \<open>
  The permit need not go to the waiter at the front of the queue: a goroutine that arrives between the \<open>Xadd\<close> of
  \<open>semrelease1\<close> and its hand-off finds the permit in the easy case of \<open>semacquire1\<close>. Here goroutine 2 gets the
  starving mutex without having slept, while goroutine 1 is asleep.
\<close>

definition barge_trace :: "(nat \<times> bool \<times> bool \<times> bool) list" where
  "barge_trace = map (\<lambda>i. (i, False, True, False))
     [0, 1, 1, 1, 1, 1, 1, 0, 0, 0, 0, 0, 0, 0, 0, 0, 1, 1, 1, 1, 1, 1, 0, 0, 2, 2, 2, 2, 2, 2]"

lemma mutex_starving_barge:
  "\<exists>s. mutex_reach 3 s \<and> gs s ! 2 = Holding \<and> mqueue s = [1] \<and> is_asleep (gs s ! 1) \<and> mstate s AND mutexStarving \<noteq> 0"
proof -
  have "map_option (\<lambda>s. (gs s ! 2 = Holding, mqueue s, is_asleep (gs s ! 1), mstate s AND mutexStarving \<noteq> 0))
      (mutex_run barge_trace (mutex_init 3)) = Some (True, [1], True, True)" by code_simp
  then obtain s where "mutex_run barge_trace (mutex_init 3) = Some s" "gs s ! 2 = Holding" "mqueue s = [1]"
      "is_asleep (gs s ! 1)" "mstate s AND mutexStarving \<noteq> 0" by auto
  then show ?thesis using mutex_run_reach [OF mutex_reach.init] by blast
qed

text \<open>
  Unlocking an unlocked mutex is a run-time error, whatever else the state word says about
  waiters, a woken goroutine or starvation.
\<close>

theorem unlock_unlocked_throws:
  "m AND mutexLocked = 0 \<Longrightarrow> fst (unlock_start m) = Thrown"
proof -
  assume a: "m AND mutexLocked = 0"
  then have "m \<noteq> mutexLocked" by (auto simp: mutexLocked_def)
  with a show ?thesis by (simp add: unlock_start_def unlockSlow_def Let_def)
qed

theorem unlock_unlocked_throws_witness: "fst (unlock_start 8) = Thrown"
  by (rule unlock_unlocked_throws) (simp add: mutexLocked_def)

end
