(* ===== verification/FdMutex.thy ===== *)
theory FdMutex
  imports GoPrelude
begin

unbundle bit_operations_syntax

text \<open>
  \<open>fdMutex\<close> of \<open>internal/poll/fd_mutex.go\<close>, which counts the references to a file descriptor,
  serialises its readers and its writers and tells the last user to close it. The state is the
  64-bit word of the source. Every method is a loop around one compare-and-swap: the load and the
  computation between it and a compare-and-swap that succeeds read the same word, so one attempt
  is a function of the word, and a failed compare-and-swap changes nothing.
\<close>

section \<open>The code\<close>

definition mutexClosed :: u64 where "mutexClosed = push_bit 0 1"
definition mutexRLock :: u64 where "mutexRLock = push_bit 1 1"
definition mutexWLock :: u64 where "mutexWLock = push_bit 2 1"
definition mutexRef :: u64 where "mutexRef = push_bit 3 1"
definition mutexRefMask :: u64 where "mutexRefMask = push_bit 3 (push_bit 20 1 - 1)"
definition mutexRWait :: u64 where "mutexRWait = push_bit 23 1"
definition mutexRMask :: u64 where "mutexRMask = push_bit 23 (push_bit 20 1 - 1)"
definition mutexWWait :: u64 where "mutexWWait = push_bit 43 1"
definition mutexWMask :: u64 where "mutexWMask = push_bit 43 (push_bit 20 1 - 1)"

datatype fd_panic = TooManyOps | Inconsistent

datatype fd_result = Ret bool | Sleep | Panic fd_panic

text \<open>The bit, the unit and the mask for reading or for writing.\<close>

definition mutexBit :: "bool \<Rightarrow> u64" where
  "mutexBit rd = (if rd then mutexRLock else mutexWLock)"
definition mutexWait :: "bool \<Rightarrow> u64" where
  "mutexWait rd = (if rd then mutexRWait else mutexWWait)"
definition mutexMask :: "bool \<Rightarrow> u64" where
  "mutexMask rd = (if rd then mutexRMask else mutexWMask)"

definition incref :: "u64 \<Rightarrow> fd_result \<times> u64" where
  "incref old =
     (if old AND mutexClosed \<noteq> 0 then (Ret False, old)
      else let new = old + mutexRef in
        if new AND mutexRefMask = 0 then (Panic TooManyOps, old) else (Ret True, new))"

text \<open>
  The loops of \<open>increfAndClose\<close> release the semaphore once for each waiter the old state counts.
  The result has the number of releases of \<open>rsema\<close> and of \<open>wsema\<close>.
\<close>

function releases :: "bool \<Rightarrow> u64 \<Rightarrow> nat \<times> u64" where
  "releases rd old =
     (if old AND mutexMask rd \<noteq> 0
      then (let (n, old') = releases rd (old - mutexWait rd) in (Suc n, old'))
      else (0, old))"
  by pat_completeness auto

definition increfAndClose :: "u64 \<Rightarrow> (fd_result \<times> u64) \<times> nat \<times> nat" where
  "increfAndClose old =
     (if old AND mutexClosed \<noteq> 0 then ((Ret False, old), 0, 0)
      else let new = (old OR mutexClosed) + mutexRef in
        if new AND mutexRefMask = 0 then ((Panic TooManyOps, old), 0, 0)
        else let new = new AND NOT (mutexRMask OR mutexWMask);
                 (r, old) = releases True old; (w, old) = releases False old
             in ((Ret True, new), r, w))"

definition decref :: "u64 \<Rightarrow> fd_result \<times> u64" where
  "decref old =
     (if old AND mutexRefMask = 0 then (Panic Inconsistent, old)
      else let new = old - mutexRef
           in (Ret (new AND (mutexClosed OR mutexRefMask) = mutexClosed), new))"

definition rwlock :: "bool \<Rightarrow> u64 \<Rightarrow> fd_result \<times> u64" where
  "rwlock rd old =
     (if old AND mutexClosed \<noteq> 0 then (Ret False, old)
      else if old AND mutexBit rd = 0 then
        (let new = (old OR mutexBit rd) + mutexRef in
         if new AND mutexRefMask = 0 then (Panic TooManyOps, old) else (Ret True, new))
      else
        (let new = old + mutexWait rd in
         if new AND mutexMask rd = 0 then (Panic TooManyOps, old) else (Sleep, new)))"

text \<open>\<open>rwunlock\<close> also says whether it releases the semaphore.\<close>

definition rwunlock :: "bool \<Rightarrow> u64 \<Rightarrow> (fd_result \<times> u64) \<times> bool" where
  "rwunlock rd old =
     (if old AND mutexBit rd = 0 \<or> old AND mutexRefMask = 0 then ((Panic Inconsistent, old), False)
      else let new = (old AND NOT (mutexBit rd)) - mutexRef;
               new = (if old AND mutexMask rd \<noteq> 0 then new - mutexWait rd else new)
           in ((Ret (new AND (mutexClosed OR mutexRefMask) = mutexClosed), new),
               old AND mutexMask rd \<noteq> 0))"

section \<open>The fields of the state word\<close>

definition fd_enc :: "bool \<Rightarrow> bool \<Rightarrow> bool \<Rightarrow> nat \<Rightarrow> nat \<Rightarrow> nat \<Rightarrow> u64" where
  "fd_enc c rl wl ref r w = of_nat (of_bool c + 2 * (of_bool rl + 2 * (of_bool wl
     + 2 * (ref + 2 ^ 20 * (r + 2 ^ 20 * w)))))"

lemma bit_fd_enc:
  assumes "ref < 2 ^ 20" and "r < 2 ^ 20"
  shows "bit (fd_enc c rl wl ref r w) k \<longleftrightarrow> k < 64 \<and>
     (if k = 0 then c else if k = 1 then rl else if k = 2 then wl
      else if k < 23 then bit ref (k - 3) else if k < 43 then bit r (k - 23) else bit w (k - 43))"
proof -
  define X where "X = ref + 2 ^ 20 * (r + 2 ^ 20 * w)"
  have X: "bit X j = (if j < 20 then bit ref j else if j < 40 then bit r (j - 20) else bit w (j - 40))"
    for j unfolding X_def
    by (simp only: bit_concat [OF assms(1)] bit_concat [OF assms(2)]) auto
  have "bit (2 * X) (Suc j) = bit X j" "\<not> bit (2 * X) 0" for j
    by (simp_all add: bit_Suc bit_0)
  then have "bit (of_bool c + 2 * (of_bool rl + 2 * (of_bool wl + 2 * X))) k \<longleftrightarrow>
     (if k = 0 then c else if k = 1 then rl else if k = 2 then wl else bit X (k - 3))"
  proof -
    have "k = 0 \<or> k = Suc 0 \<or> k = Suc (Suc 0) \<or> (\<exists>j. k = Suc (Suc (Suc j)))" by presburger
    then show ?thesis
      by (elim disjE exE; simp only:) (simp_all only: bit_of_bool_double, simp_all)
  qed
  moreover have "bit (fd_enc c rl wl ref r w) k
      \<longleftrightarrow> k < 64 \<and> bit (of_bool c + 2 * (of_bool rl + 2 * (of_bool wl + 2 * X))) k"
    by (simp add: fd_enc_def X_def bit_of_nat_iff possible_bit_word del: of_nat_add of_nat_mult)
  ultimately show ?thesis using X [of "k - 3"] by auto
qed

lemma fd_bits_cases:
  obtains "k = 0" | "k = 1" | "k = 2" | "3 \<le> k" "k < 23" | "23 \<le> k" "k < 43" | "43 \<le> (k::nat)"
  by linarith

definition fill :: "bool \<Rightarrow> nat" where "fill b = (if b then mask 20 else 0)"

lemma fill_less [simp]: "fill b < 2 ^ 20" "fill b < 1048576"
  by (simp_all add: fill_def mask_nat_def)

lemma bit_fill: "bit (fill b) k \<longleftrightarrow> b \<and> k < 20"
  by (simp add: fill_def bit_mask_iff)

lemma fill_simps: "fill False = 0" "fill True = 2 ^ 20 - 1"
  by (simp_all add: fill_def mask_nat_def)

lemma fd_consts:
  "mutexClosed = fd_enc True False False 0 0 0"
  "mutexRef = fd_enc False False False 1 0 0"
  "mutexRefMask = fd_enc False False False (fill True) (fill False) (fill False)"
  "mutexBit rd = fd_enc False rd (\<not> rd) 0 0 0"
  "mutexWait rd = fd_enc False False False 0 (of_bool rd) (of_bool (\<not> rd))"
  "mutexMask rd = fd_enc False False False (fill False) (fill rd) (fill (\<not> rd))"
  by (cases rd; simp add: mutexClosed_def mutexRef_def mutexRefMask_def mutexBit_def mutexWait_def
      mutexMask_def mutexRLock_def mutexWLock_def mutexRWait_def mutexWWait_def mutexRMask_def
      mutexWMask_def fd_enc_def fill_simps)+

lemma bit_small: "n < 2 ^ 20 \<Longrightarrow> bit n k \<Longrightarrow> k < 20" for n :: nat
  using bit_imp_ge [of n k] power_less_imp_less_exp [of "2::nat" k 20] by linarith

lemma fd_and:
  assumes "ref < 2 ^ 20" "r < 2 ^ 20" "d \<longrightarrow> w < 2 ^ 20"
  shows "fd_enc c rl wl ref r w AND fd_enc c' rl' wl' (fill a) (fill b) (fill d)
    = fd_enc (c \<and> c') (rl \<and> rl') (wl \<and> wl')
        (if a then ref else 0) (if b then r else 0) (if d then w else 0)"
proof (rule bit_word_eqI)
  note small = bit_small [OF assms(1)] bit_small [OF assms(2)] bit_small [OF assms(3) [rule_format]]
  fix k :: nat assume k: "k < LENGTH(64)"
  show "bit (fd_enc c rl wl ref r w AND fd_enc c' rl' wl' (fill a) (fill b) (fill d)) k = bit (fd_enc (c \<and> c') (rl \<and> rl') (wl \<and> wl')
        (if a then ref else 0) (if b then r else 0) (if d then w else 0)) k"
    using k by (cases k rule: fd_bits_cases)
      (use assms small in \<open>auto simp: bit_fd_enc bit_and_iff bit_fill\<close>)
qed

lemma fd_and_not:
  assumes "ref < 2 ^ 20" "r < 2 ^ 20" "w < 2 ^ 20"
  shows "fd_enc c rl wl ref r w AND NOT (fd_enc c' rl' wl' (fill a) (fill b) (fill d))
    = fd_enc (c \<and> \<not> c') (rl \<and> \<not> rl') (wl \<and> \<not> wl')
        (if a then 0 else ref) (if b then 0 else r) (if d then 0 else w)"
proof (rule bit_word_eqI)
  note small = bit_small [OF assms(1)] bit_small [OF assms(2)] bit_small [OF assms(3)]
  fix k :: nat assume k: "k < LENGTH(64)"
  show "bit (fd_enc c rl wl ref r w AND NOT (fd_enc c' rl' wl' (fill a) (fill b) (fill d))) k = bit (fd_enc (c \<and> \<not> c') (rl \<and> \<not> rl') (wl \<and> \<not> wl')
        (if a then 0 else ref) (if b then 0 else r) (if d then 0 else w)) k"
    using k by (cases k rule: fd_bits_cases)
      (use assms small in \<open>auto simp: bit_fd_enc bit_and_iff bit_not_iff bit_fill\<close>)
qed

lemma fd_or_flags:
  assumes "ref < 2 ^ 20" "r < 2 ^ 20"
  shows "fd_enc c rl wl ref r w OR fd_enc c' rl' wl' 0 0 0
    = fd_enc (c \<or> c') (rl \<or> rl') (wl \<or> wl') ref r w"
  using assms by (intro bit_word_eqI) (auto simp: bit_fd_enc bit_or_iff)

lemma fd_or_masks:
  "fd_enc c rl wl (fill a) (fill b) (fill d) OR fd_enc c' rl' wl' (fill a') (fill b') (fill d')
    = fd_enc (c \<or> c') (rl \<or> rl') (wl \<or> wl') (fill (a \<or> a')) (fill (b \<or> b')) (fill (d \<or> d'))"
  by (intro bit_word_eqI) (auto simp: bit_fd_enc bit_or_iff bit_fill)

lemma unat_fd_enc:
  assumes "ref < 2 ^ 20" "r < 2 ^ 20" "w < 2 ^ 20"
  shows "unat (fd_enc c rl wl ref r w) = of_bool c + 2 * (of_bool rl + 2 * (of_bool wl
     + 2 * (ref + 2 ^ 20 * (r + 2 ^ 20 * w))))"
proof -
  have "of_bool c + 2 * (of_bool rl + 2 * (of_bool wl
     + 2 * (ref + 2 ^ 20 * (r + 2 ^ 20 * w)))) < (2::nat) ^ 64"
    using assms by (cases c; cases rl; cases wl) simp_all
  then show ?thesis unfolding fd_enc_def unat_of_nat by simp
qed

lemma fd_enc_zero:
  assumes "ref < 2 ^ 20" "r < 2 ^ 20" "w < 2 ^ 20"
  shows "fd_enc c rl wl ref r w = 0 \<longleftrightarrow> \<not> c \<and> \<not> rl \<and> \<not> wl \<and> ref = 0 \<and> r = 0 \<and> w = 0"
  using unat_fd_enc [OF assms, of c rl wl] by (cases c; cases rl; cases wl) (auto simp: word_unat_eq_iff)

lemma fd_and_zero:
  assumes "ref < 2 ^ 20" "r < 2 ^ 20" "d \<longrightarrow> w < 2 ^ 20"
  shows "fd_enc c rl wl ref r w AND fd_enc c' rl' wl' (fill a) (fill b) (fill d) = 0
    \<longleftrightarrow> \<not> (c \<and> c') \<and> \<not> (rl \<and> rl') \<and> \<not> (wl \<and> wl') \<and> (a \<longrightarrow> ref = 0) \<and> (b \<longrightarrow> r = 0) \<and> (d \<longrightarrow> w = 0)"
  using assms by (simp add: fd_and fd_enc_zero)

text \<open>Incrementing a field, and what its mask then shows when it overflows.\<close>

lemma fd_inc:
  "fd_enc c rl wl ref r w + mutexRef = fd_enc c rl wl (Suc ref) r w"
  "fd_enc c rl wl ref r w + mutexWait rd
     = fd_enc c rl wl ref (if rd then Suc r else r) (if rd then w else Suc w)"
  by (simp_all add: fd_consts fd_enc_def algebra_simps)

lemma fd_dec:
  "fd_enc c rl wl (Suc ref) r w - mutexRef = fd_enc c rl wl ref r w"
  "fd_enc c rl wl ref (if rd then Suc r else r) (if rd then w else Suc w) - mutexWait rd
     = fd_enc c rl wl ref r w"
  by (simp_all add: fd_consts fd_enc_def algebra_simps)

lemma fd_carry:
  "fd_enc c rl wl (2 ^ 20) r w = fd_enc c rl wl 0 (Suc r) w"
  "fd_enc c rl wl ref (2 ^ 20) w = fd_enc c rl wl ref 0 (Suc w)"
  by (simp_all add: fd_enc_def algebra_simps)

lemma fd_flags_fill: "fd_enc c rl wl 0 0 0 = fd_enc c rl wl (fill False) (fill False) (fill False)"
  by (simp add: fill_simps)

text \<open>The tests of the code on the fields.\<close>

lemma fd_tests:
  assumes "ref < 2 ^ 20" "r < 2 ^ 20"
  shows "fd_enc c rl wl ref r w AND mutexClosed = 0 \<longleftrightarrow> \<not> c"
    and "fd_enc c rl wl ref r w AND mutexBit rd = 0 \<longleftrightarrow> \<not> (if rd then rl else wl)"
    and "fd_enc c rl wl ref r w AND mutexRefMask = 0 \<longleftrightarrow> ref = 0"
    and "w < 2 ^ 20 \<Longrightarrow> fd_enc c rl wl ref r w AND mutexMask rd = 0 \<longleftrightarrow> (if rd then r else w) = 0"
  by (simp_all only: fd_consts fd_flags_fill fd_and_zero assms simp_thms) (auto simp: fd_and_zero [OF assms])

lemma fd_mask_tests:
  assumes "ref < 2 ^ 20"
  shows "r < 2 ^ 20 \<Longrightarrow> fd_enc c rl wl ref r w AND mutexMask True = 0 \<longleftrightarrow> r = 0"
    and "r < 2 ^ 20 \<Longrightarrow> fd_enc c rl wl ref r (2 ^ 20) AND mutexMask False = 0"
proof -
  show "r < 2 ^ 20 \<Longrightarrow> fd_enc c rl wl ref r w AND mutexMask True = 0 \<longleftrightarrow> r = 0"
    using assms by (simp add: fd_consts fd_and_zero)
  assume r: "r < 2 ^ 20"
  have "bit ((2::nat) ^ 20) j \<longleftrightarrow> j = 20" for j
    by (simp add: bit_exp_iff del: power_numeral)
  then show "fd_enc c rl wl ref r (2 ^ 20) AND mutexMask False = 0"
    using assms r unfolding fd_consts
    by (intro bit_word_eqI) (auto simp: bit_and_iff bit_fd_enc bit_fill simp del: power_numeral)
qed

lemma fd_overflow_tests:
  assumes "ref < 2 ^ 20" "r < 2 ^ 20" "w < 2 ^ 20"
  shows "fd_enc c rl wl (Suc ref) r w AND mutexRefMask = 0 \<longleftrightarrow> Suc ref = 2 ^ 20"
    and "fd_enc c rl wl ref (if rd then Suc r else r) (if rd then w else Suc w) AND mutexMask rd = 0
      \<longleftrightarrow> Suc (if rd then r else w) = 2 ^ 20"
proof -
  show "fd_enc c rl wl (Suc ref) r w AND mutexRefMask = 0 \<longleftrightarrow> Suc ref = 2 ^ 20"
  proof (cases "Suc ref = 2 ^ 20")
    case True
    have "fd_enc c rl wl 0 (Suc r) w AND mutexRefMask = 0"
    proof (cases "Suc r = 2 ^ 20")
      case True
      show ?thesis unfolding True fd_carry by (simp add: fd_tests(3))
    next
      case False
      then have "Suc r < 2 ^ 20" using assms by simp
      then show ?thesis by (simp add: fd_tests(3))
    qed
    then have "fd_enc c rl wl (Suc ref) r w AND mutexRefMask = 0" unfolding True fd_carry .
    with True show ?thesis by simp
  next
    case False
    then have "Suc ref < 2 ^ 20" using assms by simp
    then show ?thesis using False assms by (simp only: fd_tests(3)) simp
  qed
  show "fd_enc c rl wl ref (if rd then Suc r else r) (if rd then w else Suc w) AND mutexMask rd = 0
      \<longleftrightarrow> Suc (if rd then r else w) = 2 ^ 20"
  proof (cases rd)
    case True
    show ?thesis
    proof (cases "Suc r = 2 ^ 20")
      case over: True
      have "fd_enc c rl wl ref 0 (Suc w) AND mutexMask True = 0"
        using assms by (subst fd_mask_tests(1)) auto
      then show ?thesis using True over by (simp only: if_True fd_carry simp_thms)
    next
      case False
      then show ?thesis using True assms by (simp only: if_True) (subst fd_mask_tests(1), auto)
    qed
  next
    case nrd: False
    show ?thesis
    proof (cases "Suc w = 2 ^ 20")
      case True
      then show ?thesis using nrd fd_mask_tests(2) [OF assms(1,2)] by (simp only: if_False simp_thms)
    next
      case False
      then have "Suc w < 2 ^ 20" using assms by simp
      from fd_tests(4) [OF assms(1,2) this, of c rl wl False]
      show ?thesis using nrd False by (simp only: if_False) simp
    qed
  qed
qed

section \<open>The methods on the fields\<close>

lemma incref_enc:
  assumes "ref < 2 ^ 20" "r < 2 ^ 20" "w < 2 ^ 20"
  shows "incref (fd_enc c rl wl ref r w) =
    (if c then (Ret False, fd_enc c rl wl ref r w)
     else if Suc ref = 2 ^ 20 then (Panic TooManyOps, fd_enc c rl wl ref r w)
     else (Ret True, fd_enc c rl wl (Suc ref) r w))"
  unfolding incref_def Let_def fd_inc fd_overflow_tests [OF assms] fd_tests(1) [OF assms(1,2)] by simp

lemma releases_termination:
  assumes "x AND mutexMask rd \<noteq> 0"
  shows "unat (x - mutexWait rd) < unat x"
proof -
  obtain k where k: "bit x k" "bit (mutexMask rd) k"
    using assms by (auto simp: bit_eq_iff bit_and_iff)
  have "bit (unat x) k" using k(1) by transfer (simp add: bit_nat_iff bit_take_bit_iff)
  then have x: "2 ^ k \<le> unat x" by (rule bit_imp_ge)
  have wait: "unat (mutexWait rd) = 2 ^ (if rd then 23 else 43)"
    by (simp add: mutexWait_def mutexRWait_def mutexWWait_def)
  have "(if rd then 23 else 43) \<le> k"
    using k(2) by (cases k rule: fd_bits_cases; cases rd) (auto simp: fd_consts bit_fd_enc bit_fill)
  then have "unat (mutexWait rd) \<le> 2 ^ k" unfolding wait by (rule power_increasing) simp
  then have "mutexWait rd \<le> x" using x by (simp add: word_le_nat_alt)
  then have "unat (x - mutexWait rd) = unat x - unat (mutexWait rd)" by (rule unat_sub)
  moreover have "0 < unat (mutexWait rd)" unfolding wait by simp
  ultimately show ?thesis using \<open>mutexWait rd \<le> x\<close> by (simp add: word_le_nat_alt)
qed

termination releases
  by (relation "measure (\<lambda>(rd, x). unat x)") (auto simp: releases_termination)

declare releases.simps [simp del]

lemma releases_enc:
  assumes "ref < 2 ^ 20" "r < 2 ^ 20" "w < 2 ^ 20"
  shows "releases rd (fd_enc c rl wl ref r w)
    = (if rd then r else w, fd_enc c rl wl ref (if rd then 0 else r) (if rd then w else 0))"
  using assms(2,3)
proof (induction "if rd then r else w" arbitrary: r w)
  case 0
  then show ?case
    using fd_tests(4) [OF assms(1) 0(2,3), of c rl wl rd]
    by (subst releases.simps) (cases rd; simp)
next
  case (Suc n)
  define r' where "r' = (if rd then n else r)"
  define w' where "w' = (if rd then w else n)"
  have rw: "r = (if rd then Suc r' else r')" "w = (if rd then w' else Suc w')"
    using Suc.hyps(2) by (simp_all add: r'_def w'_def split: if_splits)
  have "fd_enc c rl wl ref r w AND mutexMask rd \<noteq> 0"
    using fd_tests(4) [OF assms(1) Suc.prems, of c rl wl rd] Suc.hyps(2) by simp
  moreover have "fd_enc c rl wl ref r w - mutexWait rd = fd_enc c rl wl ref r' w'"
    unfolding rw by (rule fd_dec)
  moreover have "n = (if rd then r' else w')" "r' < 2 ^ 20" "w' < 2 ^ 20"
    using Suc.hyps(2) Suc.prems by (auto simp: r'_def w'_def split: if_splits)
  ultimately show ?case
    using Suc.hyps(1) [of r' w'] Suc.hyps(2)
    by (subst releases.simps) (simp add: rw split: if_splits)
qed

text \<open>All bounds are those of the fields.\<close>

definition fd_ok :: "nat \<Rightarrow> nat \<Rightarrow> nat \<Rightarrow> bool" where
  "fd_ok ref r w \<longleftrightarrow> ref < 2 ^ 20 \<and> r < 2 ^ 20 \<and> w < 2 ^ 20"

lemma increfAndClose_enc:
  assumes "fd_ok ref r w"
  shows "increfAndClose (fd_enc c rl wl ref r w) =
    (if c then ((Ret False, fd_enc c rl wl ref r w), 0, 0)
     else if Suc ref = 2 ^ 20 then ((Panic TooManyOps, fd_enc c rl wl ref r w), 0, 0)
     else ((Ret True, fd_enc True rl wl (Suc ref) 0 0), r, w))"
proof -
  have b: "ref < 2 ^ 20" "r < 2 ^ 20" "w < 2 ^ 20" using assms by (simp_all add: fd_ok_def)
  have o': "fd_enc c rl wl ref r w OR mutexClosed = fd_enc True rl wl ref r w"
    unfolding fd_consts using b by (simp add: fd_or_flags)
  have m: "mutexRMask OR mutexWMask = fd_enc False False False (fill False) (fill True) (fill True)"
  proof -
    have "mutexRMask = fd_enc False False False (fill False) (fill True) (fill False)"
      and "mutexWMask = fd_enc False False False (fill False) (fill False) (fill True)"
      using fd_consts(6) [of True] fd_consts(6) [of False] by (simp_all add: mutexMask_def)
    then show ?thesis
      using fd_or_masks [of False False False False True False False False False False False True]
      by (simp del: fill_less)
  qed
  have n: "fd_enc True rl wl (Suc ref) r w AND NOT (mutexRMask OR mutexWMask)
      = fd_enc True rl wl (Suc ref) 0 0" if "Suc ref \<noteq> 2 ^ 20"
    unfolding m using b that by (subst fd_and_not) auto
  have rel: "releases True (fd_enc c rl wl ref r w) = (r, fd_enc c rl wl ref 0 w)"
    "releases False (fd_enc c rl wl ref 0 w) = (w, fd_enc c rl wl ref 0 0)"
    using releases_enc [OF b, of True] releases_enc [of ref 0 w False] b by simp_all
  show ?thesis
    unfolding increfAndClose_def Let_def o' fd_inc fd_overflow_tests [OF b] fd_tests(1) [OF b(1,2)]
    using n rel by (cases c) simp_all
qed

lemma fd_last_test:
  assumes "fd_ok ref r w"
  shows "fd_enc c rl wl ref r w AND (mutexClosed OR mutexRefMask) = mutexClosed \<longleftrightarrow> c \<and> ref = 0"
proof -
  have b: "ref < 2 ^ 20" "r < 2 ^ 20" "w < 2 ^ 20" using assms by (simp_all add: fd_ok_def)
  have "mutexClosed OR mutexRefMask = fd_enc True False False (fill True) (fill False) (fill False)"
    unfolding fd_consts(1,3) fd_flags_fill [of True] fd_or_masks by simp
  then have "fd_enc c rl wl ref r w AND (mutexClosed OR mutexRefMask) = fd_enc c False False ref 0 0"
    using b by (simp add: fd_and)
  moreover have "fd_enc c False False ref 0 0 = fd_enc True False False 0 0 0 \<longleftrightarrow> c \<and> ref = 0"
    using b(1) by (cases c) (auto simp: word_unat_eq_iff unat_fd_enc)
  ultimately show ?thesis by (simp add: fd_consts(1))
qed

lemma decref_enc:
  assumes "fd_ok ref r w"
  shows "decref (fd_enc c rl wl ref r w) =
    (if ref = 0 then (Panic Inconsistent, fd_enc c rl wl ref r w)
     else (Ret (c \<and> ref = 1), fd_enc c rl wl (ref - 1) r w))"
proof (cases ref)
  case 0
  then show ?thesis using assms by (simp add: decref_def fd_tests fd_ok_def)
next
  case (Suc k)
  then have "fd_ok k r w" using assms by (simp add: fd_ok_def)
  then show ?thesis
    using assms Suc by (simp add: decref_def fd_tests fd_dec fd_last_test fd_ok_def)
qed

lemma rwlock_enc:
  assumes "fd_ok ref r w"
  shows "rwlock rd (fd_enc c rl wl ref r w) =
    (if c then (Ret False, fd_enc c rl wl ref r w)
     else if \<not> (if rd then rl else wl) then
       (if Suc ref = 2 ^ 20 then (Panic TooManyOps, fd_enc c rl wl ref r w)
        else (Ret True, fd_enc c (rl \<or> rd) (wl \<or> \<not> rd) (Suc ref) r w))
     else if Suc (if rd then r else w) = 2 ^ 20 then (Panic TooManyOps, fd_enc c rl wl ref r w)
     else (Sleep, fd_enc c rl wl ref (if rd then Suc r else r) (if rd then w else Suc w)))"
proof -
  have b: "ref < 2 ^ 20" "r < 2 ^ 20" "w < 2 ^ 20" using assms by (simp_all add: fd_ok_def)
  have o': "fd_enc c rl wl ref r w OR mutexBit rd = fd_enc c (rl \<or> rd) (wl \<or> \<not> rd) ref r w"
    unfolding fd_consts using b by (simp add: fd_or_flags)
  show ?thesis
    unfolding rwlock_def Let_def o' fd_inc fd_overflow_tests [OF b] fd_tests(1,2) [OF b(1,2)]
    by simp
qed

lemma rwunlock_enc:
  assumes "fd_ok ref r w"
  shows "rwunlock rd (fd_enc c rl wl ref r w) =
    (if \<not> (if rd then rl else wl) \<or> ref = 0
     then ((Panic Inconsistent, fd_enc c rl wl ref r w), False)
     else ((Ret (c \<and> ref = 1),
            fd_enc c (rl \<and> \<not> rd) (wl \<and> rd) (ref - 1) (if rd then r - 1 else r) (if rd then w else w - 1)),
           (if rd then r else w) \<noteq> 0))"
proof -
  have b: "ref < 2 ^ 20" "r < 2 ^ 20" "w < 2 ^ 20" using assms by (simp_all add: fd_ok_def)
  show ?thesis
  proof (cases "\<not> (if rd then rl else wl) \<or> ref = 0")
    case True
    then show ?thesis
      unfolding rwunlock_def fd_tests(2,3) [OF b(1,2)] by simp
  next
    case False
    then obtain k where k: "ref = Suc k" by (cases ref) auto
    define n where "n = (if rd then r else w)"
    have clear: "fd_enc c rl wl ref r w AND NOT (mutexBit rd) = fd_enc c (rl \<and> \<not> rd) (wl \<and> rd) ref r w"
      unfolding fd_consts fd_flags_fill [of False] using b by (subst fd_and_not) auto
    have mask: "fd_enc c rl wl ref r w AND mutexMask rd = 0 \<longleftrightarrow> n = 0"
      unfolding n_def by (rule fd_tests(4) [OF b])
    let ?r = "if rd then r - 1 else r" and ?w = "if rd then w else w - 1"
    have new: "(if n \<noteq> 0 then fd_enc c (rl \<and> \<not> rd) (wl \<and> rd) k r w - mutexWait rd
        else fd_enc c (rl \<and> \<not> rd) (wl \<and> rd) k r w) = fd_enc c (rl \<and> \<not> rd) (wl \<and> rd) k ?r ?w"
    proof (cases "n = 0")
      case False
      then have "r = (if rd then Suc ?r else ?r)" "w = (if rd then ?w else Suc ?w)"
        by (auto simp: n_def split: if_splits)
      then show ?thesis using False fd_dec(2) [of c "rl \<and> \<not> rd" "wl \<and> rd" k rd ?r ?w] by simp
    qed (auto simp: n_def)
    have ok: "fd_ok k ?r ?w" using b k by (auto simp: fd_ok_def)
    have tests: "(\<not> (if rd then rl else wl) \<or> ref = 0) = False" using False by blast
    have "rwunlock rd (fd_enc c rl wl ref r w) =
      ((Ret (c \<and> k = 0), fd_enc c (rl \<and> \<not> rd) (wl \<and> rd) k ?r ?w), n \<noteq> 0)"
      unfolding rwunlock_def fd_tests(2,3) [OF b(1,2)] tests clear mask if_False
      unfolding k fd_dec(1) Let_def new fd_last_test [OF ok] ..
    then show ?thesis unfolding tests by (simp add: k n_def)
  qed
qed

section \<open>Goroutines that use a descriptor\<close>

text \<open>
  A goroutine is idle, holds a plain reference (from \<open>incref\<close> or \<open>increfAndClose\<close>), waits on the
  semaphore of readers or of writers, is about to go round the loop of \<open>rwlock\<close> after a wake-up,
  holds the read or the write lock, or has panicked. The record has the state word, the two
  semaphores (\<open>rsema\<close> at \<open>True\<close>, \<open>wsema\<close> at \<open>False\<close>) and how often \<open>fd.destroy\<close> has been called.
\<close>

datatype user = Idle | Using | Waiting bool | Retry bool | Locked bool | Panicked

record fdMutex =
  state :: u64
  sema :: "bool \<Rightarrow> nat"
  users :: "user list"
  destroyed :: nat

datatype fd_act = AIncref | ADecref | AClose | ALock bool | AUnlock | AWake

definition fd_lock_result :: "bool \<Rightarrow> fd_result \<Rightarrow> user" where
  "fd_lock_result rd res =
     (case res of Ret True \<Rightarrow> Locked rd | Ret False \<Rightarrow> Idle | Sleep \<Rightarrow> Waiting rd | Panic e \<Rightarrow> Panicked)"

text \<open>
  \<open>FD.decref\<close>, \<open>FD.readUnlock\<close> and \<open>FD.writeUnlock\<close> call \<open>fd.destroy\<close> when they are told that they
  dropped the last reference of a closed descriptor.
\<close>

definition fd_step :: "nat \<Rightarrow> fd_act \<Rightarrow> fdMutex \<Rightarrow> fdMutex option" where
  "fd_step i a m =
     (if length (users m) \<le> i then None
      else case (users m ! i, a) of
        (Idle, AIncref) \<Rightarrow>
          (let (res, st) = incref (state m);
               u = (case res of Ret True \<Rightarrow> Using | Panic e \<Rightarrow> Panicked | _ \<Rightarrow> Idle)
           in Some (m\<lparr>state := st, users := (users m)[i := u]\<rparr>))
      | (Idle, AClose) \<Rightarrow>
          (let ((res, st), r, w) = increfAndClose (state m);
               u = (case res of Ret True \<Rightarrow> Using | Panic e \<Rightarrow> Panicked | _ \<Rightarrow> Idle)
           in Some (m\<lparr>state := st, sema := (\<lambda>rd. sema m rd + (if rd then r else w)),
                      users := (users m)[i := u]\<rparr>))
      | (Idle, ALock rd) \<Rightarrow>
          (let (res, st) = rwlock rd (state m)
           in Some (m\<lparr>state := st, users := (users m)[i := fd_lock_result rd res]\<rparr>))
      | (Retry rd, ALock rd') \<Rightarrow>
          (let (res, st) = rwlock rd (state m)
           in Some (m\<lparr>state := st, users := (users m)[i := fd_lock_result rd res]\<rparr>))
      | (Waiting rd, AWake) \<Rightarrow>
          (if sema m rd = 0 then None
           else Some (m\<lparr>sema := (sema m)(rd := sema m rd - 1), users := (users m)[i := Retry rd]\<rparr>))
      | (Using, ADecref) \<Rightarrow>
          (let (res, st) = decref (state m)
           in Some (m\<lparr>state := st, users := (users m)[i := (case res of Panic e \<Rightarrow> Panicked | _ \<Rightarrow> Idle)],
                      destroyed := destroyed m + of_bool (res = Ret True)\<rparr>))
      | (Locked rd, AUnlock) \<Rightarrow>
          (let ((res, st), signal) = rwunlock rd (state m)
           in Some (m\<lparr>state := st, sema := (sema m)(rd := sema m rd + of_bool signal),
                      users := (users m)[i := (case res of Panic e \<Rightarrow> Panicked | _ \<Rightarrow> Idle)],
                      destroyed := destroyed m + of_bool (res = Ret True)\<rparr>))
      | _ \<Rightarrow> None)"

definition fd_init :: "nat \<Rightarrow> fdMutex" where
  "fd_init k = \<lparr>state = 0, sema = (\<lambda>_. 0), users = replicate k Idle, destroyed = 0\<rparr>"

inductive fd_reach :: "nat \<Rightarrow> fdMutex \<Rightarrow> bool" for k where
  init: "fd_reach k (fd_init k)"
| step: "fd_reach k m \<Longrightarrow> fd_step i a m = Some m' \<Longrightarrow> fd_reach k m'"

section \<open>The invariant\<close>

fun ref_w :: "user \<Rightarrow> nat" where
  "ref_w Using = 1" | "ref_w (Locked _) = 1" | "ref_w _ = 0"

fun lock_w :: "bool \<Rightarrow> user \<Rightarrow> nat" where
  "lock_w rd (Locked rd') = of_bool (rd = rd')" | "lock_w rd _ = 0"

fun waiting_w :: "bool \<Rightarrow> user \<Rightarrow> nat" where
  "waiting_w rd (Waiting rd') = of_bool (rd = rd')" | "waiting_w rd _ = 0"

fun retry_w :: "bool \<Rightarrow> user \<Rightarrow> nat" where
  "retry_w rd (Retry rd') = of_bool (rd = rd')" | "retry_w rd _ = 0"

text \<open>
  The state word has the fields \<open>c\<close>, \<open>L rd\<close> (the lock is taken), \<open>ref\<close> and \<open>Q rd\<close> (the waiters
  nobody has woken).
\<close>

definition fd_inv :: "fdMutex \<Rightarrow> bool \<Rightarrow> (bool \<Rightarrow> bool) \<Rightarrow> nat \<Rightarrow> (bool \<Rightarrow> nat) \<Rightarrow> bool" where
  "fd_inv m c L ref Q \<longleftrightarrow>
     state m = fd_enc c (L True) (L False) ref (Q True) (Q False) \<and>
     ref = tally ref_w (users m) \<and>
     (\<forall>rd. of_bool (L rd) = tally (lock_w rd) (users m)) \<and>
     (\<forall>rd. Q rd + sema m rd = tally (waiting_w rd) (users m)) \<and>
     (\<forall>rd. c \<longrightarrow> Q rd = 0) \<and>
     (\<forall>rd. 0 < Q rd \<longrightarrow> L rd \<or> 0 < sema m rd \<or> 0 < tally (retry_w rd) (users m)) \<and>
     destroyed m = of_bool (c \<and> ref = 0) \<and>
     Panicked \<notin> set (users m)"

lemma fd_invD:
  assumes "fd_inv m c L ref Q"
  shows "state m = fd_enc c (L True) (L False) ref (Q True) (Q False)"
    and "ref = tally ref_w (users m)"
    and "of_bool (L rd) = tally (lock_w rd) (users m)"
    and "Q rd + sema m rd = tally (waiting_w rd) (users m)"
    and "c \<longrightarrow> Q rd = 0"
    and "0 < Q rd \<longrightarrow> L rd \<or> 0 < sema m rd \<or> 0 < tally (retry_w rd) (users m)"
    and "destroyed m = of_bool (c \<and> ref = 0)"
    and "Panicked \<notin> set (users m)"
  by (insert assms, unfold fd_inv_def, (elim conjE, (assumption | erule spec))+)

lemma fd_weights_le: "ref_w u \<le> 1" "lock_w rd u \<le> 1" "waiting_w rd u \<le> 1"
  by (cases u; simp)+

lemma fd_inv_ok:
  assumes "fd_inv m c L ref Q" and "Suc (length (users m)) < 2 ^ 20"
  shows "fd_ok ref (Q True) (Q False)" and "Suc ref < 2 ^ 20" and "Suc (Q rd) < 2 ^ 20"
proof -
  have "ref = tally ref_w (users m)" and q: "\<And>rd. Q rd + sema m rd = tally (waiting_w rd) (users m)"
    using assms(1) unfolding fd_inv_def by blast+
  then have r: "ref \<le> length (users m)" using tally_le_length [OF fd_weights_le(1)] by simp
  have w: "Q rd \<le> length (users m)" for rd
    using q [of rd] tally_le_length [of "waiting_w rd" "users m"] fd_weights_le(3) by (metis add_leD1)
  show "fd_ok ref (Q True) (Q False)" unfolding fd_ok_def
    using r w [of True] w [of False] assms(2) by linarith
  show "Suc ref < 2 ^ 20" using r assms(2) by linarith
  show "Suc (Q rd) < 2 ^ 20" using w [of rd] assms(2) by linarith
qed

lemma fd_put:
  assumes inv: "fd_inv m c L ref Q" and i: "i < length (users m)" and y: "y \<noteq> Panicked"
    and st: "st = fd_enc c' (L' True) (L' False) ref' (Q' True) (Q' False)"
    and ref: "ref' + ref_w (users m ! i) = ref + ref_w y"
    and lock: "\<And>rd. of_bool (L' rd) + lock_w rd (users m ! i) = of_bool (L rd) + lock_w rd y"
    and queue: "\<And>rd. Q' rd + s' rd + waiting_w rd (users m ! i) = Q rd + sema m rd + waiting_w rd y"
    and cl: "\<And>rd. c' \<Longrightarrow> Q' rd = 0"
    and lost: "\<And>rd. 0 < Q' rd \<Longrightarrow> L' rd \<or> 0 < s' rd \<or> 0 < retry_w rd y
        \<or> (0 < Q rd \<and> \<not> L rd \<and> (sema m rd = 0 \<longrightarrow> retry_w rd (users m ! i) = 0) \<and> s' rd = sema m rd)"
    and des: "d' = of_bool (c' \<and> ref' = 0)"
  shows "fd_inv (m\<lparr>state := st, sema := s', users := (users m)[i := y], destroyed := d'\<rparr>) c' L' ref' Q'"
proof -
  have upd: "tally f ((users m)[i := y]) + f (users m ! i) = tally f (users m) + f y" for f
    using i by (rule tally_upd)
  have ge: "f (users m ! i) \<le> tally f (users m)" for f :: "user \<Rightarrow> nat" using i by (rule tally_ge)
  have old: "ref = tally ref_w (users m)" "\<And>rd. of_bool (L rd) = tally (lock_w rd) (users m)"
    "\<And>rd. Q rd + sema m rd = tally (waiting_w rd) (users m)"
    "\<And>rd. 0 < Q rd \<longrightarrow> L rd \<or> 0 < sema m rd \<or> 0 < tally (retry_w rd) (users m)"
    "Panicked \<notin> set (users m)"
    by (rule fd_invD [OF inv])+
  have 1: "ref' = tally ref_w ((users m)[i := y])" using upd [of ref_w] ref old(1) by linarith
  have 2: "of_bool (L' rd) = tally (lock_w rd) ((users m)[i := y])" for rd
    using upd [of "lock_w rd"] lock [of rd] old(2) [of rd] by linarith
  have 3: "Q' rd + s' rd = tally (waiting_w rd) ((users m)[i := y])" for rd
    using upd [of "waiting_w rd"] queue [of rd] old(3) [of rd] by linarith
  have 4: "0 < Q' rd \<longrightarrow> L' rd \<or> 0 < s' rd \<or> 0 < tally (retry_w rd) ((users m)[i := y])" for rd
  proof
    assume "0 < Q' rd"
    from lost [OF this]
    consider (now) "L' rd \<or> 0 < s' rd \<or> 0 < retry_w rd y"
      | (before) "0 < Q rd" "\<not> L rd" "sema m rd = 0 \<longrightarrow> retry_w rd (users m ! i) = 0" "s' rd = sema m rd"
      by (elim disjE conjE) simp_all
    then show "L' rd \<or> 0 < s' rd \<or> 0 < tally (retry_w rd) ((users m)[i := y])"
    proof cases
      case now
      then show ?thesis using upd [of "retry_w rd"] ge [of "retry_w rd"] by linarith
    next
      case before
      show ?thesis
      proof (cases "sema m rd = 0")
        case True
        then have "0 < tally (retry_w rd) (users m)" "retry_w rd (users m ! i) = 0"
          using old(4) [of rd] before by auto
        then show ?thesis using upd [of "retry_w rd"] by linarith
      next
        case False
        then show ?thesis using before(4) by simp
      qed
    qed
  qed
  have 5: "Panicked \<notin> set ((users m)[i := y])"
    using old(5) y set_update_subset_insert [of "users m" i y] by blast
  define m' where "m' = m\<lparr>state := st, sema := s', users := (users m)[i := y], destroyed := d'\<rparr>"
  have f: "state m' = st" "sema m' = s'" "users m' = (users m)[i := y]" "destroyed m' = d'"
    by (simp_all add: m'_def)
  have 6: "c' \<longrightarrow> Q' rd = 0" for rd using cl by blast
  show ?thesis
    unfolding fd_inv_def m'_def [symmetric] f by (intro conjI allI; (rule st 1 2 3 4 5 6 des))
qed

text \<open>Each action of a goroutine that stands at the right point keeps the invariant.\<close>

lemma fd_step_inv:
  assumes inv: "fd_inv m c L ref Q" and n: "Suc (length (users m)) < 2 ^ 20"
    and step: "fd_step i a m = Some m'"
  shows "\<exists>c L ref Q. fd_inv m' c L ref Q"
proof -
  note ok = fd_inv_ok [OF inv n]
  have i: "i < length (users m)" using step by (auto simp: fd_step_def split: if_splits)
  have st: "state m = fd_enc c (L True) (L False) ref (Q True) (Q False)"
    and cl: "\<And>rd. c \<Longrightarrow> Q rd = 0" and des: "destroyed m = of_bool (c \<and> ref = 0)"
    and rf: "ref = tally ref_w (users m)" and lk: "\<And>rd. of_bool (L rd) = tally (lock_w rd) (users m)"
    using inv unfolding fd_inv_def by blast+
  have b: "ref < 2 ^ 20" "Q True < 2 ^ 20" "Q False < 2 ^ 20" using ok(1) by (simp_all add: fd_ok_def)
  have ref_pos: "0 < ref" if "ref_w (users m ! i) = 1"
    using tally_ge [OF i, of ref_w] that rf by simp
  have held: "L rd" if "lock_w rd (users m ! i) = 1" for rd
    using tally_ge [OF i, of "lock_w rd"] that lk [of rd] by (cases "L rd") simp_all
  have flds: "m = m\<lparr>state := state m, sema := sema m, destroyed := destroyed m\<rparr>" by simp
  note put = fd_put [OF inv i]
  have locking: "\<exists>c L ref Q. fd_inv m' c L ref Q"
    if m': "m' = m\<lparr>state := snd (rwlock rd (state m)),
        users := (users m)[i := fd_lock_result rd (fst (rwlock rd (state m)))]\<rparr>"
      and at: "users m ! i = Idle \<or> users m ! i = Retry rd" for rd
  proof -
    have w: "ref_w (users m ! i) = 0" "lock_w rd' (users m ! i) = 0" "waiting_w rd' (users m ! i) = 0"
      "rd' \<noteq> rd \<Longrightarrow> retry_w rd' (users m ! i) = 0" for rd'
      using at by auto
    consider "c" | "\<not> c" "\<not> L rd" | "\<not> c" "L rd" by blast
    then show ?thesis
    proof cases
      case 1
      then have "m' = m\<lparr>state := fd_enc c (L True) (L False) ref (Q True) (Q False),
          sema := sema m, users := (users m)[i := Idle], destroyed := destroyed m\<rparr>"
        unfolding m' by (simp add: st rwlock_enc [OF ok(1)] fd_lock_result_def)
      moreover have "fd_inv \<dots> c L ref Q"
        using cl des 1 by (intro put) (auto simp: w)
      ultimately show ?thesis by metis
    next
      case 2
      then have "m' = m\<lparr>state := fd_enc c ((L(rd := True)) True) ((L(rd := True)) False)
            (Suc ref) (Q True) (Q False),
          sema := sema m, users := (users m)[i := Locked rd], destroyed := destroyed m\<rparr>"
        unfolding m' using ok(2)
        by (cases rd) (simp_all add: st rwlock_enc [OF ok(1)] fd_lock_result_def)
      moreover have "fd_inv \<dots> c (L(rd := True)) (Suc ref) Q"
        using des 2 by (intro put) (auto simp: w)
      ultimately show ?thesis by metis
    next
      case 3
      then have "m' = m\<lparr>state := fd_enc c (L True) (L False) ref
            ((Q(rd := Suc (Q rd))) True) ((Q(rd := Suc (Q rd))) False),
          sema := sema m, users := (users m)[i := Waiting rd], destroyed := destroyed m\<rparr>"
        unfolding m' using ok(3) [of rd]
        by (cases rd) (simp_all add: st rwlock_enc [OF ok(1)] fd_lock_result_def)
      moreover have "fd_inv \<dots> c L ref (Q(rd := Suc (Q rd)))"
        using des 3 by (intro put) (auto simp: w split: if_splits)
      ultimately show ?thesis by metis
    qed
  qed
  show ?thesis
  proof (cases "users m ! i")
    case Idle
    then consider (incref) "a = AIncref" | (close) "a = AClose" | (lock) rd where "a = ALock rd"
      using step i by (cases a) (auto simp: fd_step_def)
    then show ?thesis
    proof cases
      case incref
      define y where "y = (if c then Idle else Using)"
      have "m' = m\<lparr>state := fd_enc c (L True) (L False) (if c then ref else Suc ref) (Q True) (Q False),
          sema := sema m, users := (users m)[i := y], destroyed := destroyed m\<rparr>"
        using step i Idle ok(2) unfolding incref y_def
        by (auto simp: fd_step_def st incref_enc [OF b])
      moreover have "fd_inv \<dots> c L (if c then ref else Suc ref) Q"
        using cl des by (intro put) (auto simp: y_def Idle)
      ultimately show ?thesis by metis
    next
      case close
      define y where "y = (if c then Idle else Using)"
      define s' where "s' = (\<lambda>rd. sema m rd + (if c then 0 else Q rd))"
      have "m' = m\<lparr>state := fd_enc True (L True) (L False) (if c then ref else Suc ref) 0 0,
          sema := s', users := (users m)[i := y], destroyed := destroyed m\<rparr>"
      proof (cases c)
        case True
        moreover have "fd_ok ref 0 0" using ok(1) by (simp add: fd_ok_def)
        ultimately show ?thesis using step [symmetric] i Idle cl unfolding close y_def s'_def
          by (simp add: fd_step_def st increfAndClose_enc)
      next
        case False
        have "(\<lambda>rd. sema m rd + (if rd then Q True else Q False)) = s'"
          using False by (auto simp: s'_def)
        then show ?thesis using step [symmetric] i Idle ok(2) False unfolding close y_def
          by (simp add: fd_step_def st increfAndClose_enc [OF ok(1)])
      qed
      moreover have "fd_inv \<dots> True L (if c then ref else Suc ref) (\<lambda>_. 0)"
        using cl des by (intro put) (auto simp: y_def s'_def Idle)
      ultimately show ?thesis by metis
    next
      case lock
      then show ?thesis using step i Idle
        by (intro locking [of rd]) (simp_all add: fd_step_def split: prod.splits)
    qed
  next
    case Using
    then obtain k where k: "ref = Suc k" using ref_pos gr0_implies_Suc by fastforce
    have a: "a = ADecref" using step i Using by (cases a) (auto simp: fd_step_def)
    have "m' = m\<lparr>state := fd_enc c (L True) (L False) k (Q True) (Q False),
        sema := sema m, users := (users m)[i := Idle], destroyed := of_bool (c \<and> k = 0)\<rparr>"
    proof -
      have "decref (state m) = (Ret (c \<and> k = 0), fd_enc c (L True) (L False) k (Q True) (Q False))"
        unfolding st decref_enc [OF ok(1)] by (simp add: k)
      then show ?thesis using step [symmetric] i Using des k unfolding a by (simp add: fd_step_def)
    qed
    moreover have "fd_inv \<dots> c L k Q"
      using cl k by (intro put) (auto simp: Using)
    ultimately show ?thesis by metis
  next
    case (Waiting rd)
    have a: "a = AWake" using step i Waiting by (cases a) (auto simp: fd_step_def)
    then have "m' = m\<lparr>state := state m, sema := (sema m)(rd := sema m rd - 1),
        users := (users m)[i := Retry rd], destroyed := destroyed m\<rparr>" and "0 < sema m rd"
      using step i Waiting by (auto simp: fd_step_def split: if_splits)
    moreover from this(2) have
      "fd_inv (m\<lparr>state := state m, sema := (sema m)(rd := sema m rd - 1),
        users := (users m)[i := Retry rd], destroyed := destroyed m\<rparr>) c L ref Q"
      using cl des st by (intro put) (auto simp: Waiting)
    ultimately show ?thesis by metis
  next
    case (Retry rd)
    then obtain rd' where "a = ALock rd'" using step i by (cases a) (auto simp: fd_step_def)
    then show ?thesis using step i Retry
      by (intro locking [of rd]) (simp_all add: fd_step_def split: prod.splits)
  next
    case (Locked rd)
    then obtain k where k: "ref = Suc k" using ref_pos gr0_implies_Suc by fastforce
    have L: "L rd" using held [of rd] Locked by simp
    have a: "a = AUnlock" using step i Locked by (cases a) (auto simp: fd_step_def)
    have "m' = m\<lparr>state := fd_enc c ((L(rd := False)) True) ((L(rd := False)) False) k
          ((Q(rd := Q rd - 1)) True) ((Q(rd := Q rd - 1)) False),
        sema := (sema m)(rd := sema m rd + of_bool (Q rd \<noteq> 0)),
        users := (users m)[i := Idle], destroyed := of_bool (c \<and> k = 0)\<rparr>"
    proof -
      have "rwunlock rd (state m) = ((Ret (c \<and> k = 0), fd_enc c ((L(rd := False)) True)
          ((L(rd := False)) False) k ((Q(rd := Q rd - 1)) True) ((Q(rd := Q rd - 1)) False)), Q rd \<noteq> 0)"
        unfolding st rwunlock_enc [OF ok(1)] using L by (cases rd) (simp_all add: k)
      then show ?thesis using step [symmetric] i Locked des k unfolding a by (simp add: fd_step_def)
    qed
    moreover have "fd_inv \<dots> c (L(rd := False)) k (Q(rd := Q rd - 1))"
      using cl k L by (intro put) (auto simp: Locked)
    ultimately show ?thesis by metis
  next
    case Panicked
    then show ?thesis using step i by (simp add: fd_step_def)
  qed
qed

lemma fd_reach_inv:
  assumes "fd_reach k m" and "Suc k < 2 ^ 20"
  shows "\<exists>c L ref Q. fd_inv m c L ref Q" and "length (users m) = k"
proof -
  have len: "fd_step i a m = Some m' \<Longrightarrow> length (users m') = length (users m)" for i a m m'
    by (auto simp: fd_step_def split: if_splits user.splits fd_act.splits prod.splits)
  have "(\<exists>c L ref Q. fd_inv m c L ref Q) \<and> length (users m) = k"
    using assms(1)
  proof induction
    case init
    have "fd_inv (fd_init k) False (\<lambda>_. False) 0 (\<lambda>_. 0)"
      by (simp add: fd_inv_def fd_init_def tally_replicate fd_enc_def)
    then show ?case by (auto simp: fd_init_def)
  next
    case (step m i a m')
    then show ?case using fd_step_inv [of m _ _ _ _ i a m'] len assms(2) by metis
  qed
  then show "\<exists>c L ref Q. fd_inv m c L ref Q" and "length (users m) = k" by blast+
qed

section \<open>Properties\<close>

text \<open>
  C19: the descriptor is closed once, by its last user, and locks exclude. However goroutines
  interleave (fewer than \<open>2^20 - 1\<close> of them), \<open>fd.destroy\<close> has been called at most once, and when it
  has, the descriptor is marked closed and nobody holds a reference or a lock; at most one
  goroutine holds the read lock and at most one the write lock; none of the panics is reached.
\<close>

theorem fd_destroy_once:
  assumes "fd_reach k m" and "Suc k < 2 ^ 20"
  shows "destroyed m \<le> 1
     \<and> (destroyed m = 1 \<longleftrightarrow> state m AND mutexClosed \<noteq> 0 \<and> (\<forall>u \<in> set (users m). u \<noteq> Using \<and> (\<forall>rd. u \<noteq> Locked rd)))
     \<and> length (filter (\<lambda>u. u = Locked rd) (users m)) \<le> 1
     \<and> Panicked \<notin> set (users m)"
proof -
  obtain c L ref Q where inv: "fd_inv m c L ref Q" using fd_reach_inv(1) [OF assms] by blast
  note d = fd_invD [OF inv]
  have ok: "ref < 2 ^ 20" "Q True < 2 ^ 20"
    using fd_inv_ok(1) [OF inv] fd_reach_inv(2) [OF assms] assms(2) by (simp_all add: fd_ok_def)
  have "ref_w u = 0 \<longleftrightarrow> u \<noteq> Using \<and> (\<forall>rd. u \<noteq> Locked rd)" for u by (cases u) auto
  then have "ref = 0 \<longleftrightarrow> (\<forall>u \<in> set (users m). u \<noteq> Using \<and> (\<forall>rd. u \<noteq> Locked rd))"
    unfolding d(2) tally_zero by blast
  moreover have "state m AND mutexClosed \<noteq> 0 \<longleftrightarrow> c"
    unfolding d(1) using fd_tests(1) [OF ok] by blast
  moreover have "length (filter (\<lambda>u. u = Locked rd) us) = tally (lock_w rd) us" for us
  proof (induction us)
    case (Cons u us)
    then show ?case by (cases u) (auto simp: tally_def)
  qed (simp add: tally_def)
  ultimately show ?thesis
    using d(3) [of rd, symmetric] d(7,8) by (cases "c \<and> ref = 0") auto
qed

definition fd_run :: "(nat \<times> fd_act) list \<Rightarrow> fdMutex \<Rightarrow> fdMutex option" where
  "fd_run = (\<lambda>acts m. fold (\<lambda>(i, a) om. case om of None \<Rightarrow> None | Some m \<Rightarrow> fd_step i a m) acts (Some m))"

lemma fd_run_reach: "fd_reach k m \<Longrightarrow> fd_run acts m = Some m' \<Longrightarrow> fd_reach k m'"
proof (induction acts arbitrary: m)
  case (Cons ia acts)
  obtain i a where ia: "ia = (i, a)" by (cases ia)
  have none: "fold (\<lambda>(i, a) om. case om of None \<Rightarrow> None | Some m \<Rightarrow> fd_step i a m) acts None = None" for acts
    by (induction acts) auto
  show ?case
  proof (cases "fd_step i a m")
    case None
    then show ?thesis using Cons.prems none by (simp add: fd_run_def ia)
  next
    case (Some m1)
    then show ?thesis
      using Cons.IH [of m1] Cons.prems fd_reach.step [of k m i a m1] by (simp add: fd_run_def ia)
  qed
qed (simp add: fd_run_def)

text \<open>A reader holds the lock, another waits, a third closes: the reader that leaves last destroys.\<close>

definition fd_trace :: "(nat \<times> fd_act) list" where
  "fd_trace = [(0, ALock True), (1, ALock True), (2, AClose), (2, ADecref), (1, AWake),
     (1, ALock True), (0, AUnlock)]"

lemma fd_trace_run:
  obtains m where "fd_reach 3 m" "users m = [Idle, Idle, Idle]" "destroyed m = 1"
proof -
  have "map_option (\<lambda>m. (users m, destroyed m)) (fd_run fd_trace (fd_init 3)) = Some ([Idle, Idle, Idle], 1)"
    by code_simp
  then obtain m where "fd_run fd_trace (fd_init 3) = Some m" "users m = [Idle, Idle, Idle]" "destroyed m = 1"
    by auto
  then show thesis using that fd_run_reach [OF fd_reach.init] by blast
qed

theorem fd_destroy_once_witness:
  "\<exists>m. fd_reach 3 m \<and> destroyed m = 1 \<and> state m AND mutexClosed \<noteq> 0"
proof -
  obtain m where m: "fd_reach 3 m" "users m = [Idle, Idle, Idle]" "destroyed m = 1"
    by (rule fd_trace_run)
  then show ?thesis using fd_destroy_once [OF m(1), of True] by auto
qed

text \<open>
  C20: no reader or writer is left behind. When no goroutine can move except by starting something
  new (each is idle, or sleeps on a semaphore that has not been signalled), none sleeps: unlocking
  passes the lock on and closing wakes every waiter.
\<close>

theorem fd_no_stuck_waiter:
  assumes "fd_reach k m" and "Suc k < 2 ^ 20"
    and "\<forall>u \<in> set (users m). u = Idle \<or> (\<exists>rd. u = Waiting rd \<and> sema m rd = 0)"
  shows "\<forall>u \<in> set (users m). u = Idle"
proof
  fix u assume u: "u \<in> set (users m)"
  obtain c L ref Q where inv: "fd_inv m c L ref Q" using fd_reach_inv(1) [OF assms(1,2)] by blast
  note d = fd_invD [OF inv]
  show "u = Idle"
  proof (rule ccontr)
    assume "u \<noteq> Idle"
    then obtain rd where rd: "u = Waiting rd" "sema m rd = 0" using assms(3) u by blast
    have "waiting_w rd u \<noteq> 0" using rd by simp
    then have "0 < Q rd"
      using d(4) [of rd] rd(2) u tally_zero [of "waiting_w rd" "users m"] by auto
    moreover have "tally (lock_w rd) (users m) = 0" "tally (retry_w rd) (users m) = 0"
      using assms(3) by (auto simp: tally_zero)
    ultimately show False using d(3) [of rd] d(6) [of rd] rd(2) by simp
  qed
qed

theorem fd_no_stuck_waiter_witness: "\<exists>m. fd_reach 3 m \<and> destroyed m = 1 \<and> hd (users m) = Idle"
proof -
  obtain m where m: "fd_reach 3 m" "users m = [Idle, Idle, Idle]" "destroyed m = 1"
    by (rule fd_trace_run)
  then show ?thesis using fd_no_stuck_waiter [OF m(1)] by auto
qed

text \<open>
  The reference count cannot wrap around into the fields above it. \<open>incref\<close>, \<open>increfAndClose\<close> and
  \<open>rwlock\<close> on a descriptor with the maximal number of references panic and leave the state as it
  was; below the maximum \<open>incref\<close> followed by \<open>decref\<close> is the identity on the state.
\<close>

theorem fd_refcount_overflow:
  assumes "fd_ok ref r w"
  shows "(ref = 2 ^ 20 - 1 \<longrightarrow>
       incref (fd_enc False rl wl ref r w) = (Panic TooManyOps, fd_enc False rl wl ref r w)
     \<and> fst (increfAndClose (fd_enc False rl wl ref r w)) = (Panic TooManyOps, fd_enc False rl wl ref r w)
     \<and> rwlock True (fd_enc False False wl ref r w) = (Panic TooManyOps, fd_enc False False wl ref r w))
   \<and> (ref < 2 ^ 20 - 1 \<longrightarrow>
       (case incref (fd_enc False rl wl ref r w) of (res, st) \<Rightarrow>
          res = Ret True \<and> decref st = (Ret False, fd_enc False rl wl ref r w)))"
  using assms decref_enc [of "Suc ref" r w False rl wl]
  by (simp add: incref_enc increfAndClose_enc rwlock_enc fd_ok_def)

theorem fd_refcount_overflow_witness:
  "incref (fd_enc False True False (2 ^ 20 - 1) 5 0) = (Panic TooManyOps, fd_enc False True False (2 ^ 20 - 1) 5 0)"
  using fd_refcount_overflow [of "2 ^ 20 - 1" 5 0 True False] by (simp add: fd_ok_def)

end
