(* ===== verification/SortBase.thy ===== *)
theory SortBase
  imports GoPrelude
begin

text \<open>
  What \<open>sort.Interface\<close> and \<open>heap.Interface\<close> promise (\<open>sort/sort.go\<close>, \<open>container/heap/heap.go\<close>): a
  collection is a list, \<open>Less(i, j)\<close> compares the elements at two indices by a relation \<open>lt\<close>, and
  \<open>Swap(i, j)\<close> exchanges them. The locale \<open>less_order\<close> holds what the comment on \<open>Less\<close> asks of
  \<open>lt\<close>; the programs only ever change the collection by swaps, inside a range of indices.
\<close>

definition Less :: "('a \<Rightarrow> 'a \<Rightarrow> bool) \<Rightarrow> 'a list \<Rightarrow> nat \<Rightarrow> nat \<Rightarrow> bool" where
  "Less lt xs i j = lt (xs ! i) (xs ! j)"

definition Swap :: "nat \<Rightarrow> nat \<Rightarrow> 'a list \<Rightarrow> 'a list" where
  "Swap i j xs = xs[i := xs ! j, j := xs ! i]"

text \<open>\<open>reverse.Less\<close>.\<close>

definition reverse_less :: "('a \<Rightarrow> 'a \<Rightarrow> bool) \<Rightarrow> 'a \<Rightarrow> 'a \<Rightarrow> bool" where
  "reverse_less lt x y = lt y x"

section \<open>Permuting a range\<close>

definition perm_range :: "nat \<Rightarrow> nat \<Rightarrow> 'a list \<Rightarrow> 'a list \<Rightarrow> bool" where
  "perm_range a b xs ys \<longleftrightarrow>
     length ys = length xs \<and> mset ys = mset xs \<and> (\<forall>i. i < a \<or> b \<le> i \<longrightarrow> ys ! i = xs ! i)"

lemma length_Swap [simp]: "length (Swap i j xs) = length xs"
  by (simp add: Swap_def)

lemma nth_Swap:
  "i < length xs \<Longrightarrow> j < length xs \<Longrightarrow>
     Swap i j xs ! k = (if k = i then xs ! j else if k = j then xs ! i else xs ! k)"
  by (auto simp: Swap_def nth_list_update)

lemma perm_range_refl [simp]: "perm_range a b xs xs"
  by (simp add: perm_range_def)

lemma perm_range_trans [trans]:
  "perm_range a b xs ys \<Longrightarrow> perm_range a b ys zs \<Longrightarrow> perm_range a b xs zs"
  by (simp add: perm_range_def)

lemma perm_range_mono: "perm_range a b xs ys \<Longrightarrow> a' \<le> a \<Longrightarrow> b \<le> b' \<Longrightarrow> perm_range a' b' xs ys"
  unfolding perm_range_def by auto

lemma perm_range_length: "perm_range a b xs ys \<Longrightarrow> length ys = length xs"
  by (simp add: perm_range_def)

lemma perm_range_outside: "perm_range a b xs ys \<Longrightarrow> i < a \<or> b \<le> i \<Longrightarrow> ys ! i = xs ! i"
  unfolding perm_range_def by blast

lemma perm_range_Swap:
  assumes "a \<le> i" "i < b" "a \<le> j" "j < b" "b \<le> length xs"
  shows "perm_range a b xs (Swap i j xs)"
proof -
  have "mset (Swap i j xs) = mset xs"
    unfolding Swap_def using assms by (intro mset_swap) auto
  then show ?thesis using assms by (auto simp: perm_range_def nth_Swap)
qed

text \<open>Whatever holds of all the elements of the range still does.\<close>

lemma perm_range_slice:
  assumes p: "perm_range a b xs ys" and ab: "a \<le> b" "b \<le> length xs"
  shows "mset (take (b - a) (drop a ys)) = mset (take (b - a) (drop a xs))"
proof -
  have split: "mset zs = mset (take a zs) + mset (take (b - a) (drop a zs)) + mset (drop b zs)"
    if "length zs = length xs" for zs :: "'a list"
  proof -
    have "zs = take a zs @ take (b - a) (drop a zs) @ drop b zs"
      using ab by (metis append_take_drop_id drop_drop le_add_diff_inverse2)
    then show ?thesis by (metis mset_append add.assoc)
  qed
  have "take a ys = take a xs" "drop b ys = drop b xs"
    using p ab by (auto simp: perm_range_def intro!: nth_equalityI)
  then show ?thesis using split [of xs] split [of ys] p by (simp add: perm_range_def)
qed

lemma set_slice: "b \<le> length xs \<Longrightarrow> set (take (b - a) (drop a xs)) = {xs ! i | i. a \<le> i \<and> i < b}"
proof
  assume b: "b \<le> length xs"
  show "{xs ! i | i. a \<le> i \<and> i < b} \<subseteq> set (take (b - a) (drop a xs))"
  proof
    fix x assume "x \<in> {xs ! i | i. a \<le> i \<and> i < b}"
    then obtain i where i: "a \<le> i" "i < b" "x = xs ! i" by blast
    then have "take (b - a) (drop a xs) ! (i - a) = x" using b by simp
    moreover have "i - a < length (take (b - a) (drop a xs))" using i b by simp
    ultimately show "x \<in> set (take (b - a) (drop a xs))" by (metis nth_mem)
  qed
next
  assume b: "b \<le> length xs"
  show "set (take (b - a) (drop a xs)) \<subseteq> {xs ! i | i. a \<le> i \<and> i < b}"
  proof
    fix x assume "x \<in> set (take (b - a) (drop a xs))"
    then obtain k where "k < b - a" "x = xs ! (a + k)" by (auto simp: in_set_conv_nth)
    then show "x \<in> {xs ! i | i. a \<le> i \<and> i < b}" by (intro CollectI exI [of _ "a + k"]) simp
  qed
qed

lemma perm_range_all:
  assumes "perm_range a b xs ys" "b \<le> length xs" "\<And>i. a \<le> i \<Longrightarrow> i < b \<Longrightarrow> P (xs ! i)" "a \<le> k" "k < b"
  shows "P (ys ! k)"
proof -
  have "set (take (b - a) (drop a ys)) = set (take (b - a) (drop a xs))"
    using assms(2,4,5) by (intro mset_eq_setD perm_range_slice [OF assms(1)]) simp_all
  moreover have "set (take (b - a) (drop a ys)) = {ys ! i | i. a \<le> i \<and> i < b}"
    using assms(1,2) by (intro set_slice) (simp add: perm_range_def)
  ultimately have eq: "{ys ! i | i. a \<le> i \<and> i < b} = {xs ! i | i. a \<le> i \<and> i < b}"
    unfolding set_slice [OF assms(2)] by simp
  have "ys ! k \<in> {ys ! i | i. a \<le> i \<and> i < b}" using assms(4,5) by blast
  from set_mp [OF equalityD1 [OF eq] this]
  have "ys ! k \<in> {xs ! i | i. a \<le> i \<and> i < b}" .
  then obtain i where "ys ! k = xs ! i" "a \<le> i" "i < b" by blast
  then show ?thesis using assms(3) [of i] by simp
qed

section \<open>The order\<close>

text \<open>
  \<open>Less\<close> must be a transitive ordering, and so must \<open>not Less\<close>; an element is not less than itself.
\<close>

locale less_order =
  fixes lt :: "'a \<Rightarrow> 'a \<Rightarrow> bool"
  assumes irrefl: "\<not> lt x x"
    and trans: "lt x y \<Longrightarrow> lt y z \<Longrightarrow> lt x z"
    and neg_trans: "\<not> lt x y \<Longrightarrow> \<not> lt y z \<Longrightarrow> \<not> lt x z"
begin

lemma asym: "lt x y \<Longrightarrow> \<not> lt y x"
  using irrefl trans by blast

lemma reverse_order: "less_order (reverse_less lt)"
proof
  show "\<not> reverse_less lt x x" for x by (simp add: reverse_less_def irrefl)
  show "reverse_less lt x z" if "reverse_less lt x y" "reverse_less lt y z" for x y z
    using that trans [of z y x] by (simp add: reverse_less_def)
  show "\<not> reverse_less lt x z" if "\<not> reverse_less lt x y" "\<not> reverse_less lt y z" for x y z
    using that neg_trans [of z y x] by (simp add: reverse_less_def)
qed

end

definition int_less :: "int \<Rightarrow> int \<Rightarrow> bool" where "int_less x y \<longleftrightarrow> x < y"

definition sorted_range :: "('a \<Rightarrow> 'a \<Rightarrow> bool) \<Rightarrow> nat \<Rightarrow> nat \<Rightarrow> 'a list \<Rightarrow> bool" where
  "sorted_range lt a b xs \<longleftrightarrow> (\<forall>i j. a \<le> i \<and> i < j \<and> j < b \<longrightarrow> \<not> lt (xs ! j) (xs ! i))"

lemma sorted_range_trivial [simp]: "b \<le> Suc a \<Longrightarrow> sorted_range lt a b xs"
  by (auto simp: sorted_range_def)

lemma sorted_range_same:
  "sorted_range lt a b xs \<Longrightarrow> (\<And>i. a \<le> i \<Longrightarrow> i < b \<Longrightarrow> ys ! i = xs ! i) \<Longrightarrow> sorted_range lt a b ys"
  by (simp add: sorted_range_def)

text \<open>Sorting both sides of a partition sorts the whole.\<close>

context less_order begin

lemma sorted_range_join:
  assumes "sorted_range lt a m xs" "sorted_range lt m b xs"
    and "\<And>i. a \<le> i \<Longrightarrow> i < m \<Longrightarrow> \<not> lt p (xs ! i)" "\<And>i. m \<le> i \<Longrightarrow> i < b \<Longrightarrow> \<not> lt (xs ! i) p"
  shows "sorted_range lt a b xs"
proof -
  have "\<not> lt (xs ! j) (xs ! i)" if "a \<le> i" "i < j" "j < b" for i j
  proof -
    consider "j < m" | "m \<le> i" | "i < m" "m \<le> j" by linarith
    then show ?thesis
      using that assms neg_trans [of "xs ! j" p "xs ! i"] by cases (auto simp: sorted_range_def)
  qed
  then show ?thesis by (simp add: sorted_range_def)
qed

end

text \<open>\<open>IntSlice\<close>, and its reverse.\<close>

interpretation int_order: less_order int_less
  by unfold_locales (auto simp: int_less_def)

interpretation rev_int_order: less_order "reverse_less int_less"
  by (rule int_order.reverse_order)

end
