(* ===== verification/HeapSort.thy ===== *)
theory HeapSort
  imports SortBase
begin

text \<open>
  The binary heaps of the library: \<open>siftDown\<close> and \<open>heapSort\<close> of \<open>sort/sort.go\<close>, a heap with its
  greatest element on top inside a slice of the data, and \<open>container/heap/heap.go\<close>, a heap with its
  least element on top. \<open>down\<close> is \<open>siftDown\<close> at offset 0 for the reverse order, so one invariant
  serves both.
\<close>

section \<open>The code\<close>

function sift_loop :: "('a \<Rightarrow> 'a \<Rightarrow> bool) \<Rightarrow> nat \<Rightarrow> nat \<Rightarrow> nat \<Rightarrow> 'a list \<Rightarrow> 'a list" where
  "sift_loop lt hi first root xs =
     (let child = 2 * root + 1 in
      if child \<ge> hi then xs
      else let child = (if child + 1 < hi \<and> Less lt xs (first + child) (first + child + 1)
                        then child + 1 else child) in
        if \<not> Less lt xs (first + root) (first + child) then xs
        else sift_loop lt hi first child (Swap (first + root) (first + child) xs))"
  by pat_completeness auto
termination
  by (relation "measure (\<lambda>(lt, hi, first, root, xs). hi - root)") auto

declare sift_loop.simps [simp del]

definition siftDown :: "('a \<Rightarrow> 'a \<Rightarrow> bool) \<Rightarrow> nat \<Rightarrow> nat \<Rightarrow> nat \<Rightarrow> 'a list \<Rightarrow> 'a list" where
  "siftDown lt lo hi first xs = sift_loop lt hi first lo xs"

text \<open>\<open>for i := (hi - 1) / 2; i >= 0; i--\<close> and \<open>for i := hi - 1; i >= 0; i--\<close>.\<close>

definition heapSort :: "('a \<Rightarrow> 'a \<Rightarrow> bool) \<Rightarrow> nat \<Rightarrow> nat \<Rightarrow> 'a list \<Rightarrow> 'a list" where
  "heapSort lt a b xs =
     (let first = a; hi = b - a;
          xs = fold (\<lambda>i. siftDown lt i hi first) (rev [0..<Suc ((hi - 1) div 2)]) xs
      in fold (\<lambda>i xs. siftDown lt 0 i first (Swap first (first + i) xs)) (rev [0..<hi]) xs)"

text \<open>
  \<open>container/heap\<close>: the loops of \<open>down\<close> (with the index it stops at) and of \<open>up\<close>. The code tests \<open>j1 < 0\<close> beside
  \<open>j1 >= n\<close>, for an \<open>int\<close> that overflows. As \<open>n\<close> is an \<open>int\<close> and \<open>i < n\<close>, this is when the number \<open>2 * i + 1\<close> is
  beyond every \<open>int\<close>, so that it is not below \<open>n\<close>: with indices that are numbers the first test covers both.
\<close>

function down_loop :: "('a \<Rightarrow> 'a \<Rightarrow> bool) \<Rightarrow> nat \<Rightarrow> nat \<Rightarrow> 'a list \<Rightarrow> nat \<times> 'a list" where
  "down_loop lt n i xs =
     (let j1 = 2 * i + 1 in
      if j1 \<ge> n then (i, xs)
      else let j2 = j1 + 1; j = (if j2 < n \<and> Less lt xs j2 j1 then j2 else j1) in
        if \<not> Less lt xs j i then (i, xs)
        else down_loop lt n j (Swap i j xs))"
  by pat_completeness auto
termination
  by (relation "measure (\<lambda>(lt, n, i, xs). n - i)") auto

declare down_loop.simps [simp del]

definition down :: "('a \<Rightarrow> 'a \<Rightarrow> bool) \<Rightarrow> nat \<Rightarrow> nat \<Rightarrow> 'a list \<Rightarrow> bool \<times> 'a list" where
  "down lt i0 n xs = (let (i, xs) = down_loop lt n i0 xs in (i > i0, xs))"

text \<open>The parent of the root is \<open>(0 - 1) / 2 = 0\<close>.\<close>

function up :: "('a \<Rightarrow> 'a \<Rightarrow> bool) \<Rightarrow> nat \<Rightarrow> 'a list \<Rightarrow> 'a list" where
  "up lt j xs =
     (let i = (j - 1) div 2 in
      if i = j \<or> \<not> Less lt xs j i then xs else up lt i (Swap i j xs))"
  by pat_completeness auto
termination
  by (relation "measure (\<lambda>(lt, j, xs). j)") auto

declare up.simps [simp del]

text \<open>\<open>h.Push\<close> appends, \<open>h.Pop\<close> removes the last element.\<close>

definition heap_Init :: "('a \<Rightarrow> 'a \<Rightarrow> bool) \<Rightarrow> 'a list \<Rightarrow> 'a list" where
  "heap_Init lt xs =
     (let n = length xs in fold (\<lambda>i xs. snd (down lt i n xs)) (rev [0..<n div 2]) xs)"

definition heap_Push :: "('a \<Rightarrow> 'a \<Rightarrow> bool) \<Rightarrow> 'a \<Rightarrow> 'a list \<Rightarrow> 'a list" where
  "heap_Push lt x xs = (let xs = xs @ [x] in up lt (length xs - 1) xs)"

text \<open>An index out of range panics: \<open>None\<close>.\<close>

definition heap_Pop :: "('a \<Rightarrow> 'a \<Rightarrow> bool) \<Rightarrow> 'a list \<Rightarrow> ('a \<times> 'a list) option" where
  "heap_Pop lt xs =
     (if xs = [] then None
      else let n = length xs - 1; xs = snd (down lt 0 n (Swap 0 n xs)) in Some (last xs, butlast xs))"

definition heap_Remove :: "('a \<Rightarrow> 'a \<Rightarrow> bool) \<Rightarrow> nat \<Rightarrow> 'a list \<Rightarrow> ('a \<times> 'a list) option" where
  "heap_Remove lt i xs =
     (if length xs \<le> i then None
      else let n = length xs - 1;
               xs = (if n \<noteq> i then
                       (let (moved, xs) = down lt i n (Swap i n xs)
                        in if \<not> moved then up lt i xs else xs)
                     else xs)
           in Some (last xs, butlast xs))"

definition heap_Fix :: "('a \<Rightarrow> 'a \<Rightarrow> bool) \<Rightarrow> nat \<Rightarrow> 'a list \<Rightarrow> 'a list" where
  "heap_Fix lt i xs =
     (let (moved, xs) = down lt i (length xs) xs in if \<not> moved then up lt i xs else xs)"

section \<open>Heap order\<close>

definition par :: "nat \<Rightarrow> nat" where "par i = (i - 1) div 2"

text \<open>
  In the heap of \<open>hi\<close> elements at offset \<open>f\<close>, every edge whose parent is at least \<open>lo\<close> is in order.
\<close>

definition heap_from :: "('a \<Rightarrow> 'a \<Rightarrow> bool) \<Rightarrow> nat \<Rightarrow> nat \<Rightarrow> nat \<Rightarrow> 'a list \<Rightarrow> bool" where
  "heap_from lt lo hi f xs \<longleftrightarrow>
     (\<forall>i. 0 < i \<and> i < hi \<and> lo \<le> par i \<longrightarrow> \<not> lt (xs ! (f + par i)) (xs ! (f + i)))"

text \<open>
  The same but for the edges below \<open>r\<close>; there the grandparents are in order.
\<close>

definition heap_but :: "('a \<Rightarrow> 'a \<Rightarrow> bool) \<Rightarrow> nat \<Rightarrow> nat \<Rightarrow> nat \<Rightarrow> nat \<Rightarrow> 'a list \<Rightarrow> bool" where
  "heap_but lt r lo hi f xs \<longleftrightarrow>
     (\<forall>i. 0 < i \<and> i < hi \<and> lo \<le> par i \<and> par i \<noteq> r \<longrightarrow> \<not> lt (xs ! (f + par i)) (xs ! (f + i))) \<and>
     (\<forall>i. 0 < i \<and> i < hi \<and> par i = r \<and> 0 < r \<and> lo \<le> par r \<longrightarrow>
          \<not> lt (xs ! (f + par r)) (xs ! (f + i)))"

text \<open>And with the edge into \<open>r\<close> out of order as well.\<close>

definition heap_hole :: "('a \<Rightarrow> 'a \<Rightarrow> bool) \<Rightarrow> nat \<Rightarrow> nat \<Rightarrow> nat \<Rightarrow> nat \<Rightarrow> 'a list \<Rightarrow> bool" where
  "heap_hole lt r lo hi f xs \<longleftrightarrow>
     (\<forall>i. 0 < i \<and> i < hi \<and> lo \<le> par i \<and> par i \<noteq> r \<and> i \<noteq> r \<longrightarrow>
          \<not> lt (xs ! (f + par i)) (xs ! (f + i))) \<and>
     (\<forall>i. 0 < i \<and> i < hi \<and> par i = r \<and> 0 < r \<and> lo \<le> par r \<longrightarrow>
          \<not> lt (xs ! (f + par r)) (xs ! (f + i)))"

text \<open>Every edge of the first \<open>n\<close> elements of a min-heap but the one into \<open>j\<close>.\<close>

definition heap_above :: "('a \<Rightarrow> 'a \<Rightarrow> bool) \<Rightarrow> nat \<Rightarrow> nat \<Rightarrow> 'a list \<Rightarrow> bool" where
  "heap_above lt j n xs \<longleftrightarrow>
     (\<forall>i. 0 < i \<and> i < n \<and> i \<noteq> j \<longrightarrow> \<not> lt (xs ! i) (xs ! par i)) \<and>
     (\<forall>i. 0 < i \<and> i < n \<and> par i = j \<and> 0 < j \<longrightarrow> \<not> lt (xs ! i) (xs ! par j))"

lemma heap_but_hole: "heap_but lt r lo hi f xs \<Longrightarrow> heap_hole lt r lo hi f xs"
  by (simp add: heap_but_def heap_hole_def)

definition min_heap :: "('a \<Rightarrow> 'a \<Rightarrow> bool) \<Rightarrow> 'a list \<Rightarrow> bool" where
  "min_heap lt xs \<longleftrightarrow> (\<forall>i. 0 < i \<and> i < length xs \<longrightarrow> \<not> lt (xs ! i) (xs ! par i))"

lemma min_heap_from: "min_heap lt xs = heap_from (reverse_less lt) 0 (length xs) 0 xs"
  by (simp add: min_heap_def heap_from_def reverse_less_def)

lemma par_child: "par (2 * r + 1) = r" "par (2 * r + 2) = r"
  by (simp_all add: par_def)

lemma par_cases: "0 < i \<Longrightarrow> par i = r \<Longrightarrow> i = 2 * r + 1 \<or> i = 2 * r + 2"
  unfolding par_def by presburger

lemma par_less: "0 < i \<Longrightarrow> par i < i"
  unfolding par_def by presburger

context less_order begin

text \<open>The child that the code picks, and one step down.\<close>

lemma sift_step:
  assumes but: "heap_hole lt r lo hi f xs" and lo: "lo \<le> r" and len: "f + hi \<le> length xs"
    and c: "par c = r" "0 < c" "c < hi"
    and big: "\<And>i. 0 < i \<Longrightarrow> i < hi \<Longrightarrow> par i = r \<Longrightarrow> \<not> lt (xs ! (f + c)) (xs ! (f + i))"
    and lt: "lt (xs ! (f + r)) (xs ! (f + c))"
  shows "heap_but lt c lo hi f (Swap (f + r) (f + c) xs)"
proof -
  have rc: "r < c" using par_less c by auto
  have sw: "Swap (f + r) (f + c) xs ! (f + k)
      = (if k = r then xs ! (f + c) else if k = c then xs ! (f + r) else xs ! (f + k))" for k
    using len c rc by (subst nth_Swap) auto
  have e1: "\<not> lt (xs ! (f + par i)) (xs ! (f + i))"
    if "0 < i" "i < hi" "lo \<le> par i" "par i \<noteq> r" "i \<noteq> r" for i
    using but that by (simp add: heap_hole_def)
  have e2: "\<not> lt (xs ! (f + par r)) (xs ! (f + c))" if "0 < r" "lo \<le> par r"
    using but that c by (simp add: heap_hole_def)
  have "\<not> lt (Swap (f + r) (f + c) xs ! (f + par i)) (Swap (f + r) (f + c) xs ! (f + i))"
    if i: "0 < i" "i < hi" "lo \<le> par i" "par i \<noteq> c" for i
  proof -
    consider "i = r" | "par i = r" "i = c" | "par i = r" "i \<noteq> c" "i \<noteq> r"
      | "i \<noteq> r" "par i \<noteq> r" "i \<noteq> c" using c(1) by blast
    then show ?thesis
    proof cases
      case 1
      moreover have "par r \<noteq> r" "par r \<noteq> c" using par_less [of r] 1 i rc by auto
      ultimately show ?thesis using e2 i by (simp add: sw)
    next
      case 2
      then show ?thesis using asym [OF lt] rc by (simp add: sw)
    next
      case 3
      then show ?thesis using big [of i] i by (simp add: sw)
    next
      case 4
      then show ?thesis using e1 [of i] i by (simp add: sw)
    qed
  qed
  moreover have "\<not> lt (Swap (f + r) (f + c) xs ! (f + par c)) (Swap (f + r) (f + c) xs ! (f + i))"
    if i: "0 < i" "i < hi" "par i = c" for i
  proof -
    have "c < i" using par_less [OF i(1)] i by simp
    then show ?thesis using e1 [of i] i rc c lo by (simp add: sw)
  qed
  ultimately show ?thesis unfolding heap_but_def by blast
qed

lemma sift_stop:
  assumes "heap_but lt r lo hi f xs"
    and "\<And>i. 0 < i \<Longrightarrow> i < hi \<Longrightarrow> par i = r \<Longrightarrow> \<not> lt (xs ! (f + r)) (xs ! (f + i))"
  shows "heap_from lt lo hi f xs"
  using assms by (auto simp: heap_but_def heap_from_def)

lemma sift_loop_correct:
  assumes "heap_but lt r lo hi f xs" "lo \<le> r" "f + hi \<le> length xs"
  shows "heap_from lt lo hi f (sift_loop lt hi f r xs)
    \<and> perm_range (f + r) (f + hi) xs (sift_loop lt hi f r xs)"
  using assms
proof (induction "hi - r" arbitrary: r xs rule: less_induct)
  case less
  show ?case
  proof (cases "2 * r + 1 \<ge> hi")
    case True
    have "heap_from lt lo hi f xs"
    proof (rule sift_stop [OF less.prems(1)])
      fix i assume "0 < i" "i < hi" "par i = r"
      with par_cases [of i r] True show "\<not> lt (xs ! (f + r)) (xs ! (f + i))" by auto
    qed
    then show ?thesis using True by (simp add: sift_loop.simps [of lt hi f r xs])
  next
    case False
    define c where "c = (if 2 * r + 1 + 1 < hi \<and> Less lt xs (f + (2 * r + 1)) (f + (2 * r + 1) + 1)
      then 2 * r + 1 + 1 else 2 * r + 1)"
    have c: "par c = r" "0 < c" "c < hi" "r < c" using False by (auto simp: c_def par_def)
    have big: "\<not> lt (xs ! (f + c)) (xs ! (f + i))" if "0 < i" "i < hi" "par i = r" for i
      using par_cases [OF that(1,3)] that(2) asym irrefl
      by (auto simp: c_def Less_def split: if_splits)
    have unf: "sift_loop lt hi f r xs = (if \<not> lt (xs ! (f + r)) (xs ! (f + c)) then xs
        else sift_loop lt hi f c (Swap (f + r) (f + c) xs))"
      using False unfolding sift_loop.simps [of lt hi f r xs] Let_def c_def [symmetric]
      by (simp add: Less_def)
    show ?thesis
    proof (cases "lt (xs ! (f + r)) (xs ! (f + c))")
      case True
      have "heap_from lt lo hi f (sift_loop lt hi f c (Swap (f + r) (f + c) xs))
        \<and> perm_range (f + c) (f + hi) (Swap (f + r) (f + c) xs)
             (sift_loop lt hi f c (Swap (f + r) (f + c) xs))"
      proof (rule less.hyps)
        show "heap_but lt c lo hi f (Swap (f + r) (f + c) xs)"
          by (rule sift_step [OF heap_but_hole [OF less.prems(1)] less.prems(2,3) c(1-3) _ True]) (rule big)
      qed (use c less.prems in auto)
      moreover have "perm_range (f + r) (f + hi) xs (Swap (f + r) (f + c) xs)"
        using c less.prems by (intro perm_range_Swap) auto
      ultimately show ?thesis
        using True unf c perm_range_mono [of "f + c" "f + hi" _ _ "f + r" "f + hi"]
        by (auto intro: perm_range_trans)
    next
      case False
      then have "heap_from lt lo hi f xs"
        using big neg_trans by (intro sift_stop [OF less.prems(1)]) blast
      then show ?thesis using False unf by simp
    qed
  qed
qed

section \<open>Heap sort\<close>

lemma siftDown_correct:
  assumes "heap_from lt (Suc lo) hi f xs" "f + hi \<le> length xs"
  shows "heap_from lt lo hi f (siftDown lt lo hi f xs)"
    and "perm_range f (f + hi) xs (siftDown lt lo hi f xs)"
proof -
  have "heap_but lt lo lo hi f xs"
    using assms(1) par_less [of lo] by (auto simp: heap_from_def heap_but_def)
  from sift_loop_correct [OF this order.refl assms(2)]
  show "heap_from lt lo hi f (siftDown lt lo hi f xs)"
    and "perm_range f (f + hi) xs (siftDown lt lo hi f xs)"
    by (auto simp: siftDown_def elim: perm_range_mono)
qed

lemma build_heap:
  assumes "heap_from lt k hi f xs" "f + hi \<le> length xs"
  defines "ys \<equiv> fold (\<lambda>i. siftDown lt i hi f) (rev [0..<k]) xs"
  shows "heap_from lt 0 hi f ys \<and> perm_range f (f + hi) xs ys"
  using assms(1,2) unfolding ys_def
proof (induction k arbitrary: xs)
  case (Suc k)
  note s = siftDown_correct [OF Suc.prems]
  have "f + hi \<le> length (siftDown lt k hi f xs)"
    using s(2) Suc.prems(2) by (simp add: perm_range_length)
  from Suc.IH [OF s(1) this] s(2) show ?case by (auto intro: perm_range_trans)
qed simp

lemma heap_root:
  assumes "heap_from lt 0 hi f xs" "k < hi"
  shows "\<not> lt (xs ! f) (xs ! (f + k))"
  using assms(2)
proof (induction k rule: less_induct)
  case (less k)
  show ?case
  proof (cases "k = 0")
    case True
    then show ?thesis using irrefl by simp
  next
    case False
    then have "\<not> lt (xs ! f) (xs ! (f + par k))" "\<not> lt (xs ! (f + par k)) (xs ! (f + k))"
      using less par_less [of k] assms(1) by (auto simp: heap_from_def)
    then show ?thesis by (rule neg_trans)
  qed
qed

lemma pop_phase:
  assumes "heap_from lt 0 n f xs" "n \<le> hi" "f + hi \<le> length xs" "sorted_range lt (f + n) (f + hi) xs"
    and "\<And>i j. i < n \<Longrightarrow> f + n \<le> j \<Longrightarrow> j < f + hi \<Longrightarrow> \<not> lt (xs ! j) (xs ! (f + i))"
  defines "ys \<equiv> fold (\<lambda>i xs. siftDown lt 0 i f (Swap f (f + i) xs)) (rev [0..<n]) xs"
  shows "sorted_range lt f (f + hi) ys \<and> perm_range f (f + hi) xs ys"
  using assms(1-5) unfolding ys_def
proof (induction n arbitrary: xs)
  case 0
  then show ?case by simp
next
  case (Suc n)
  define zs where "zs = Swap f (f + n) xs"
  define ws where "ws = siftDown lt 0 n f zs"
  have sw: "zs ! k = (if k = f then xs ! (f + n) else if k = f + n then xs ! f else xs ! k)" for k
    using Suc.prems(2,3) by (auto simp: zs_def nth_Swap)
  have len: "length zs = length xs" by (simp add: zs_def)
  have "heap_from lt (Suc 0) n f zs"
    unfolding heap_from_def
  proof (intro allI impI)
    fix i assume i: "0 < i \<and> i < n \<and> Suc 0 \<le> par i"
    then have "par i < i" using par_less by simp
    with i show "\<not> lt (zs ! (f + par i)) (zs ! (f + i))"
      using Suc.prems(1) by (simp add: sw heap_from_def)
  qed
  from siftDown_correct [OF this] Suc.prems(2,3) len
  have ws: "heap_from lt 0 n f ws" "perm_range f (f + n) zs ws" by (auto simp: ws_def)
  have out: "ws ! j = zs ! j" if "f + n \<le> j" for j using perm_range_outside [OF ws(2)] that by simp
  have root: "\<not> lt (xs ! f) (xs ! (f + k))" if "k < Suc n" for k
    using heap_root [OF Suc.prems(1)] that .
  have top: "\<not> lt (xs ! j) (xs ! (f + k))" if "f + Suc n \<le> j" "j < f + hi" "k < Suc n" for j k
    using Suc.prems(5) that by blast
  have le: "\<not> lt (ws ! j) (ws ! (f + i))" if "i < n" "f + n \<le> j" "j < f + hi" for i j
  proof (rule perm_range_all [OF ws(2), where P = "\<lambda>v. \<not> lt (ws ! j) v"])
    show "f + n \<le> length zs" using Suc.prems(2,3) len by simp
    fix k assume k: "f \<le> k" "k < f + n"
    then obtain d where d: "k = f + d" "d < n" using le_Suc_ex by (metis nat_add_left_cancel_less)
    show "\<not> lt (ws ! j) (zs ! k)"
    proof (cases "j = f + n")
      case True
      then show ?thesis using out [of j] d root [of n] root [of d] by (auto simp: sw)
    next
      case False
      then show ?thesis using out [of j] d that top [of j n] top [of j d] by (auto simp: sw)
    qed
  qed (use that in auto)
  have srt: "sorted_range lt (f + n) (f + hi) ws"
    unfolding sorted_range_def
  proof (intro allI impI)
    fix i j assume ij: "f + n \<le> i \<and> i < j \<and> j < f + hi"
    show "\<not> lt (ws ! j) (ws ! i)"
    proof (cases "i = f + n")
      case True
      then show ?thesis using ij out [of i] out [of j] top [of j 0] by (simp add: sw)
    next
      case False
      then show ?thesis using ij out [of i] out [of j] Suc.prems(4) by (simp add: sw sorted_range_def)
    qed
  qed
  have "perm_range f (f + hi) xs zs"
    unfolding zs_def using Suc.prems(2,3) by (intro perm_range_Swap) auto
  moreover have "perm_range f (f + hi) zs ws"
    using ws(2) Suc.prems(2) by (auto elim: perm_range_mono)
  ultimately have p: "perm_range f (f + hi) xs ws" by (rule perm_range_trans)
  have "f + hi \<le> length ws" using p Suc.prems(3) by (simp add: perm_range_length)
  from Suc.IH [OF ws(1) _ this srt le] p Suc.prems(2)
  show ?case by (auto simp: ws_def zs_def intro: perm_range_trans)
qed

lemma heapSort_correct:
  assumes "a \<le> b" "b \<le> length xs"
  shows "sorted_range lt a b (heapSort lt a b xs) \<and> perm_range a b xs (heapSort lt a b xs)"
proof -
  define hi where "hi = b - a"
  have b: "b = a + hi" using assms(1) by (simp add: hi_def)
  define ys where "ys = fold (\<lambda>i. siftDown lt i hi a) (rev [0..<Suc ((hi - 1) div 2)]) xs"
  have "heap_from lt (Suc ((hi - 1) div 2)) hi a xs"
    unfolding heap_from_def
  proof (intro allI impI)
    fix i assume i: "0 < i \<and> i < hi \<and> Suc ((hi - 1) div 2) \<le> par i"
    then have "(i - 1) div 2 \<le> (hi - 1) div 2" by (intro div_le_mono diff_le_mono) linarith
    with i show "\<not> lt (xs ! (a + par i)) (xs ! (a + i))" by (simp add: par_def)
  qed
  from build_heap [OF this] assms(2) b
  have ys: "heap_from lt 0 hi a ys" "perm_range a b xs ys" by (auto simp: ys_def)
  then have "a + hi \<le> length ys" using assms(2) b by (simp add: perm_range_length)
  from pop_phase [OF ys(1) order.refl this] ys(2) b
  show ?thesis unfolding heapSort_def Let_def hi_def [symmetric] ys_def [symmetric]
    by (auto intro: perm_range_trans)
qed

section \<open>Package heap\<close>

lemma down_loop_sift: "snd (down_loop lt n i xs) = sift_loop (reverse_less lt) n 0 i xs"
proof (induction "n - i" arbitrary: i xs rule: less_induct)
  case less
  define j where "j = (if 2 * i + 1 + 1 < n \<and> Less lt xs (2 * i + 1 + 1) (2 * i + 1)
    then 2 * i + 1 + 1 else 2 * i + 1)"
  have "snd (down_loop lt n j (Swap i j xs)) = sift_loop (reverse_less lt) n 0 j (Swap i j xs)"
    if "2 * i + 1 < n" using that by (intro less) (auto simp: j_def)
  then show ?case
    unfolding down_loop.simps [of lt n i xs] sift_loop.simps [of _ n 0 i xs] Let_def
    by (simp add: j_def Less_def reverse_less_def)
qed

lemma down_loop_ge: "i \<le> fst (down_loop lt n i xs)"
proof (induction "n - i" arbitrary: i xs rule: less_induct)
  case less
  have "i \<le> fst (down_loop lt n j (Swap i j xs))" if "i < j" "i < n" for j
  proof -
    have "j \<le> fst (down_loop lt n j (Swap i j xs))" using that by (intro less) simp
    with that show ?thesis by simp
  qed
  then show ?case by (subst down_loop.simps) (simp add: Let_def)
qed

text \<open>
  \<open>down\<close> from a place where both the edge above and the edges below may be out of order: if it
  moves, the heap is in order; if it does not, at most the edge above is not.
\<close>

lemma down_hole:
  assumes "heap_hole (reverse_less lt) r 0 n 0 xs" "n \<le> length xs"
  shows "case down lt r n xs of (moved, ys) \<Rightarrow>
     perm_range r n xs ys
   \<and> (moved \<longrightarrow> heap_from (reverse_less lt) 0 n 0 ys)
   \<and> (\<not> moved \<longrightarrow> ys = xs \<and> (\<forall>i. 0 < i \<and> i < n \<and> par i = r \<longrightarrow> \<not> lt (xs ! i) (xs ! r)))"
proof (cases "2 * r + 1 \<ge> n")
  case True
  then have "down lt r n xs = (False, xs)"
    unfolding down_def down_loop.simps [of lt n r xs] by simp
  moreover have "\<not> (0 < i \<and> i < n \<and> par i = r)" for i using par_cases [of i r] True by auto
  ultimately show ?thesis by auto
next
  case False
  define c where "c = (if 2 * r + 1 + 1 < n \<and> Less lt xs (2 * r + 1 + 1) (2 * r + 1)
    then 2 * r + 1 + 1 else 2 * r + 1)"
  have c: "par c = r" "0 < c" "c < n" "r < c" using False by (auto simp: c_def par_def)
  have big: "\<not> reverse_less lt (xs ! (0 + c)) (xs ! (0 + i))" if "0 < i" "i < n" "par i = r" for i
    using par_cases [OF that(1,3)] that(2) asym irrefl
    by (auto simp: c_def Less_def reverse_less_def split: if_splits)
  have unf: "down_loop lt n r xs = (if \<not> lt (xs ! c) (xs ! r) then (r, xs)
      else down_loop lt n c (Swap r c xs))"
    using False unfolding down_loop.simps [of lt n r xs] Let_def c_def [symmetric]
    by (simp add: Less_def)
  show ?thesis
  proof (cases "lt (xs ! c) (xs ! r)")
    case True
    obtain k ys where k: "down_loop lt n c (Swap r c xs) = (k, ys)" by fastforce
    have "r < k" using down_loop_ge [of c n "Swap r c xs"] k c by simp
    then have d: "down lt r n xs = (True, ys)" using True unf k by (simp add: down_def)
    have ys: "ys = sift_loop (reverse_less lt) n 0 c (Swap r c xs)"
      using down_loop_sift [of n c "Swap r c xs"] k by simp
    have "heap_but (reverse_less lt) c 0 n 0 (Swap (0 + r) (0 + c) xs)"
      using assms(2) True
      by (intro less_order.sift_step [OF reverse_order assms(1) _ _ c(1-3) big])
        (simp_all add: reverse_less_def)
    from less_order.sift_loop_correct [OF reverse_order this] assms(2)
    have "heap_from (reverse_less lt) 0 n 0 ys" "perm_range c n (Swap r c xs) ys"
      by (simp_all add: ys)
    moreover have "perm_range r n xs (Swap r c xs)"
      using c assms(2) by (intro perm_range_Swap) auto
    ultimately show ?thesis
      using c perm_range_mono [of c n _ _ r n] by (auto simp: d intro: perm_range_trans)
  next
    case no: False
    then have "down lt r n xs = (False, xs)" using unf by (simp add: down_def)
    moreover have "\<not> lt (xs ! i) (xs ! r)" if "0 < i" "i < n" "par i = r" for i
      using big [OF that] no neg_trans by (auto simp: reverse_less_def)
    ultimately show ?thesis by auto
  qed
qed

text \<open>\<open>up\<close> from a place where only the edge above may be out of order.\<close>

lemma up_correct:
  assumes "heap_above lt j n xs" "j < n" "n \<le> length xs"
  shows "heap_from (reverse_less lt) 0 n 0 (up lt j xs) \<and> perm_range 0 (Suc j) xs (up lt j xs)"
  using assms
proof (induction j arbitrary: xs rule: less_induct)
  case (less j)
  have unf: "up lt j xs = (if par j = j \<or> \<not> lt (xs ! j) (xs ! par j) then xs
      else up lt (par j) (Swap (par j) j xs))"
    unfolding up.simps [of lt j xs] by (simp add: Let_def par_def Less_def)
  show ?case
  proof (cases "par j = j \<or> \<not> lt (xs ! j) (xs ! par j)")
    case True
    then have "0 < j \<Longrightarrow> \<not> lt (xs ! j) (xs ! par j)" using par_less [of j] by auto
    then have "heap_from (reverse_less lt) 0 n 0 xs"
      using less.prems(1) by (auto simp: heap_from_def heap_above_def reverse_less_def)
    then show ?thesis using True by (simp add: unf)
  next
    case False
    then have j: "0 < j" "par j < j" "lt (xs ! j) (xs ! par j)"
      using par_less [of j] by (auto simp: par_def)
    define ys where "ys = Swap (par j) j xs"
    have sw: "ys ! k = (if k = par j then xs ! j else if k = j then xs ! par j else xs ! k)" for k
      using j less.prems(2,3) by (auto simp: ys_def nth_Swap)
    have e: "\<not> lt (xs ! i) (xs ! par i)" if "0 < i" "i < n" "i \<noteq> j" for i
      using less.prems(1) that by (simp add: heap_above_def)
    have g: "\<not> lt (xs ! i) (xs ! par j)" if "0 < i" "i < n" "par i = j" for i
      using less.prems(1) that j(1) by (simp add: heap_above_def)
    have kid: "\<not> lt (xs ! i) (xs ! j)" if "0 < i" "i < n" "par i = par j" "i \<noteq> j" for i
      using e [OF that(1,2,4)] asym [OF j(3)] neg_trans that(3) by metis
    have "heap_above lt (par j) n ys"
      unfolding heap_above_def
    proof (intro conjI allI impI)
      fix i assume i: "0 < i \<and> i < n \<and> i \<noteq> par j"
      have "par i < i" using par_less i by simp
      then show "\<not> lt (ys ! i) (ys ! par i)"
        using i e [of i] g [of i] kid [of i] asym [OF j(3)] j(2) by (auto simp: sw)
    next
      fix i assume i: "0 < i \<and> i < n \<and> par i = par j \<and> 0 < par j"
      have p: "par (par j) < par j" using par_less [of "par j"] i by simp
      have "\<not> lt (xs ! par j) (xs ! par (par j))" using e [of "par j"] i j less.prems(2) by simp
      moreover from this have "\<not> lt (xs ! i) (xs ! par (par j))" if "i \<noteq> j"
        using e [of i] i that neg_trans by metis
      moreover have "par i < i" using par_less [of i] i by blast
      ultimately show "\<not> lt (ys ! i) (ys ! par (par j))" using p j(2) i by (auto simp: sw)
    qed
    from less.IH [OF j(2) this] less.prems(2,3) j
    have "heap_from (reverse_less lt) 0 n 0 (up lt (par j) ys)"
      "perm_range 0 (Suc (par j)) ys (up lt (par j) ys)" by (auto simp: ys_def)
    moreover have "perm_range 0 (Suc j) xs ys"
      unfolding ys_def using j less.prems(2,3) by (intro perm_range_Swap) auto
    ultimately show ?thesis
      using False j(2) perm_range_mono [of 0 "Suc (par j)" _ _ 0 "Suc j"]
      by (auto simp: unf ys_def intro: perm_range_trans)
  qed
qed

lemma heap_Init_correct: "min_heap lt (heap_Init lt xs) \<and> mset (heap_Init lt xs) = mset xs"
proof -
  have eq: "heap_Init lt xs
      = fold (\<lambda>i. siftDown (reverse_less lt) i (length xs) 0) (rev [0..<length xs div 2]) xs"
    unfolding heap_Init_def Let_def
    by (intro fold_cong) (auto simp: fun_eq_iff down_def siftDown_def split_beta simp flip: down_loop_sift)
  have "heap_from (reverse_less lt) (length xs div 2) (length xs) 0 xs"
    unfolding heap_from_def
  proof (intro allI impI)
    fix i assume i: "0 < i \<and> i < length xs \<and> length xs div 2 \<le> par i"
    then have False unfolding par_def by presburger
    then show "\<not> reverse_less lt (xs ! (0 + par i)) (xs ! (0 + i))" ..
  qed
  from less_order.build_heap [OF reverse_order this]
  show ?thesis by (auto simp: eq min_heap_from perm_range_def)
qed

lemma heap_Push_correct:
  assumes "min_heap lt xs"
  shows "min_heap lt (heap_Push lt x xs) \<and> mset (heap_Push lt x xs) = add_mset x (mset xs)"
proof -
  have "heap_above lt (length xs) (Suc (length xs)) (xs @ [x])"
    unfolding heap_above_def
  proof (intro conjI allI impI)
    fix i assume i: "0 < i \<and> i < Suc (length xs) \<and> i \<noteq> length xs"
    then have "par i < i" "i < length xs" using par_less [of i] by auto
    then show "\<not> lt ((xs @ [x]) ! i) ((xs @ [x]) ! par i)"
      using assms i by (simp add: min_heap_def nth_append)
  next
    fix i assume i: "0 < i \<and> i < Suc (length xs) \<and> par i = length xs \<and> 0 < length xs"
    then have False using par_less [of i] by linarith
    then show "\<not> lt ((xs @ [x]) ! i) ((xs @ [x]) ! par (length xs))" ..
  qed
  from up_correct [OF this] show ?thesis
    by (auto simp: heap_Push_def Let_def min_heap_from perm_range_def)
qed

lemma last_perm: "perm_range r n xs ys \<Longrightarrow> length xs = Suc n \<Longrightarrow> last ys = xs ! n"
  using perm_range_outside [of r n xs ys n] perm_range_length [of r n xs ys]
  by (metis diff_Suc_1 last_conv_nth length_0_conv nat.distinct(1) order.refl)

lemma butlast_heap:
  "heap_from (reverse_less lt) 0 n 0 ys \<Longrightarrow> length ys = Suc n \<Longrightarrow> min_heap lt (butlast ys)"
proof -
  assume a: "heap_from (reverse_less lt) 0 n 0 ys" "length ys = Suc n"
  have "\<not> lt (butlast ys ! i) (butlast ys ! par i)" if "0 < i" "i < n" for i
    using a that par_less [of i] by (simp add: heap_from_def reverse_less_def nth_butlast)
  with a(2) show ?thesis by (simp add: min_heap_def)
qed

lemma mset_last_butlast: "ys \<noteq> [] \<Longrightarrow> mset ys = add_mset (last ys) (mset (butlast ys))"
  by (induction ys) auto

text \<open>Taking the element at \<open>i\<close> out: the last one takes its place.\<close>

lemma remove_hole:
  assumes "min_heap lt xs" "length xs = Suc n" "i \<le> n"
  shows "heap_hole (reverse_less lt) i 0 n 0 (Swap i n xs)"
proof -
  have sw: "Swap i n xs ! k = (if k = i then xs ! n else if k = n then xs ! i else xs ! k)" for k
    using assms by (simp add: nth_Swap)
  have e: "\<not> lt (xs ! k) (xs ! par k)" if "0 < k" "k < n" for k
    using assms that by (simp add: min_heap_def)
  have "\<not> lt (xs ! k) (xs ! par i)" if "0 < k" "k < n" "par k = i" "0 < i" for k
  proof -
    have "i < n" using par_less [of k] that by simp
    with that e [of k] e [of i] neg_trans show ?thesis by metis
  qed
  note g = this
  show ?thesis
    unfolding heap_hole_def reverse_less_def
  proof (intro conjI allI impI)
    fix k assume k: "0 < k \<and> k < n \<and> 0 \<le> par k \<and> par k \<noteq> i \<and> k \<noteq> i"
    then have "par k < n" using par_less [of k] by simp
    with k e [of k] show "\<not> lt (Swap i n xs ! (0 + k)) (Swap i n xs ! (0 + par k))" by (simp add: sw)
  next
    fix k assume k: "0 < k \<and> k < n \<and> par k = i \<and> 0 < i \<and> 0 \<le> par i"
    then have "i < k" "par i < i" using par_less [of k] par_less [of i] by auto
    with k g [of k] show "\<not> lt (Swap i n xs ! (0 + k)) (Swap i n xs ! (0 + par i))" by (simp add: sw)
  qed
qed

lemma hole_above:
  assumes "heap_hole (reverse_less lt) i 0 n 0 xs"
    and "\<forall>k. 0 < k \<and> k < n \<and> par k = i \<longrightarrow> \<not> lt (xs ! k) (xs ! i)"
  shows "heap_above lt i n xs"
  using assms unfolding heap_hole_def heap_above_def reverse_less_def by auto

text \<open>\<open>down\<close>, and \<open>up\<close> when it did not move, repair a hole.\<close>

lemma repair_hole:
  assumes "heap_hole (reverse_less lt) i 0 n 0 xs" "n \<le> length xs" "i < n"
  defines "ys \<equiv> (case down lt i n xs of (moved, ys) \<Rightarrow> if \<not> moved then up lt i ys else ys)"
  shows "heap_from (reverse_less lt) 0 n 0 ys \<and> perm_range 0 n xs ys"
proof -
  obtain moved zs where d: "down lt i n xs = (moved, zs)" by fastforce
  note h = down_hole [OF assms(1,2), unfolded d prod.case]
  show ?thesis
  proof (cases moved)
    case True
    then show ?thesis using h perm_range_mono [of i n xs zs 0 n] by (simp add: ys_def d)
  next
    case False
    then have "heap_above lt i n xs" "zs = xs" using h hole_above [OF assms(1)] by auto
    with up_correct [OF this(1) assms(3,2)] False perm_range_mono [of 0 "Suc i" xs _ 0 n] assms(3)
    show ?thesis by (simp add: ys_def d)
  qed
qed

lemma heap_Remove_correct:
  assumes "min_heap lt xs" "i < length xs"
  shows "\<exists>ys. heap_Remove lt i xs = Some (xs ! i, ys) \<and> min_heap lt ys
      \<and> mset xs = add_mset (xs ! i) (mset ys)"
proof -
  obtain n where n: "length xs = Suc n" using assms(2) by (cases "length xs") auto
  define zs where "zs = (if n \<noteq> i then
      (case down lt i n (Swap i n xs) of (moved, ys) \<Rightarrow> if \<not> moved then up lt i ys else ys) else xs)"
  have r: "heap_Remove lt i xs = Some (last zs, butlast zs)"
    using assms(2) n by (simp add: heap_Remove_def zs_def Let_def)
  have hole: "heap_hole (reverse_less lt) i 0 n 0 (Swap i n xs)"
    using assms n by (intro remove_hole) auto
  have p: "perm_range 0 (length xs) xs (Swap i n xs)"
    using assms(2) n by (intro perm_range_Swap) auto
  have "heap_from (reverse_less lt) 0 n 0 zs \<and> last zs = xs ! i \<and> length zs = Suc n \<and> mset zs = mset xs"
  proof (cases "n = i")
    case True
    have "heap_from (reverse_less lt) 0 n 0 xs"
      using assms(1) n by (simp add: heap_from_def min_heap_def reverse_less_def)
    moreover have "last xs = xs ! n" using n last_conv_nth [of xs] by (cases xs) simp_all
    ultimately show ?thesis using True n by (simp add: zs_def)
  next
    case False
    then have "i < n" using assms(2) n by simp
    with repair_hole [OF hole] n False
    have z: "heap_from (reverse_less lt) 0 n 0 zs" "perm_range 0 n (Swap i n xs) zs"
      by (simp_all add: zs_def)
    from last_perm [OF this(2)] have "last zs = xs ! i" using n assms(2) by (simp add: nth_Swap)
    with z p n show ?thesis by (auto simp: perm_range_def)
  qed
  moreover from this have "zs \<noteq> []" by auto
  ultimately show ?thesis
    using butlast_heap [of n zs] mset_last_butlast [of zs] r by auto
qed

lemma heap_Pop_Remove: "heap_Pop lt xs = heap_Remove lt 0 xs"
proof -
  have "up lt 0 ys = ys" for ys by (simp add: up.simps)
  moreover have "Swap 0 0 xs = xs" by (simp add: Swap_def)
  moreover have "down lt 0 0 ys = (False, ys)" for ys by (simp add: down_def down_loop.simps)
  ultimately show ?thesis
    by (auto simp: heap_Pop_def heap_Remove_def Let_def split: prod.splits)
qed

lemma heap_min: "min_heap lt xs \<Longrightarrow> z \<in> set xs \<Longrightarrow> \<not> lt z (xs ! 0)"
  using less_order.heap_root [OF reverse_order, of "length xs" 0 xs]
  by (auto simp: min_heap_from reverse_less_def in_set_conv_nth)

lemma heap_Fix_correct:
  assumes "min_heap lt xs" "i < length xs"
  shows "min_heap lt (heap_Fix lt i (xs[i := x])) \<and> mset (heap_Fix lt i (xs[i := x])) = mset (xs[i := x])"
proof -
  have e: "\<not> lt (xs ! k) (xs ! par k)" if "0 < k" "k < length xs" for k
    using assms that by (simp add: min_heap_def)
  have "\<not> lt (xs ! k) (xs ! par i)" if "0 < k" "k < length xs" "par k = i" "0 < i" for k
    using that e [of k] e [of i] neg_trans assms(2) by metis
  note g = this
  have "heap_hole (reverse_less lt) i 0 (length xs) 0 (xs[i := x])"
    unfolding heap_hole_def reverse_less_def
  proof (intro conjI allI impI)
    fix k assume k: "0 < k \<and> k < length xs \<and> 0 \<le> par k \<and> par k \<noteq> i \<and> k \<noteq> i"
    with e [of k] show "\<not> lt (xs[i := x] ! (0 + k)) (xs[i := x] ! (0 + par k))" by simp
  next
    fix k assume k: "0 < k \<and> k < length xs \<and> par k = i \<and> 0 < i \<and> 0 \<le> par i"
    then have "i < k" "par i < i" using par_less [of k] par_less [of i] by auto
    with k g [of k] show "\<not> lt (xs[i := x] ! (0 + k)) (xs[i := x] ! (0 + par i))" by simp
  qed
  from repair_hole [OF this] assms(2)
  show ?thesis by (auto simp: heap_Fix_def min_heap_from perm_range_def)
qed

end

section \<open>Properties\<close>

text \<open>
  \<open>heap.Init\<close> turns any collection into a heap of the same elements, for every \<open>Less\<close> that
  keeps the contract of \<open>sort.Interface\<close>.
\<close>

theorem heap_init_heap:
  assumes "less_order lt"
  shows "min_heap lt (heap_Init lt xs) \<and> mset (heap_Init lt xs) = mset xs"
  using assms by (rule less_order.heap_Init_correct)

theorem heap_init_heap_witness:
  "min_heap int_less (heap_Init int_less [5, 3, 8, 1, 9, 2])
     \<and> mset (heap_Init int_less [5, 3, 8, 1, 9, 2]) = {#1, 2, 3, 5, 8, 9#}"
  using heap_init_heap [OF int_order.less_order_axioms, of "[5, 3, 8, 1, 9, 2]"]
  by (simp add: add_mset_commute)

text \<open>
  C22: the other operations of package heap keep the heap in order and account for every element, for a heap of any
  size: \<open>Push\<close> adds one, also to an empty heap; \<open>Pop\<close> takes out an element that no other is less than, and panics
  just when the heap is empty; \<open>Remove\<close> takes out the element at any index, and panics just when there is none;
  \<open>Fix\<close> restores the order after the element at any index was overwritten.
\<close>

theorem heap_operations:
  assumes "less_order lt" and "min_heap lt xs"
  shows "min_heap lt (heap_Push lt x xs) \<and> mset (heap_Push lt x xs) = add_mset x (mset xs)
     \<and> (case heap_Pop lt xs of None \<Rightarrow> xs = []
          | Some (y, ys) \<Rightarrow> min_heap lt ys \<and> mset xs = add_mset y (mset ys) \<and> \<not> (\<exists>z \<in> set xs. lt z y))
     \<and> (case heap_Remove lt i xs of None \<Rightarrow> length xs \<le> i
          | Some (y, ys) \<Rightarrow> i < length xs \<and> y = xs ! i \<and> min_heap lt ys \<and> mset xs = add_mset y (mset ys))
     \<and> (i < length xs \<longrightarrow>
          min_heap lt (heap_Fix lt i (xs[i := x])) \<and> mset (heap_Fix lt i (xs[i := x])) = mset (xs[i := x]))"
proof -
  have rem: "case heap_Remove lt j xs of None \<Rightarrow> length xs \<le> j
      | Some (y, ys) \<Rightarrow> j < length xs \<and> y = xs ! j \<and> min_heap lt ys \<and> mset xs = add_mset y (mset ys)" for j
  proof (cases "j < length xs")
    case True
    then show ?thesis using less_order.heap_Remove_correct [OF assms True] by auto
  next
    case False
    then show ?thesis by (simp add: heap_Remove_def)
  qed
  have "case heap_Pop lt xs of None \<Rightarrow> xs = []
      | Some (y, ys) \<Rightarrow> min_heap lt ys \<and> mset xs = add_mset y (mset ys) \<and> \<not> (\<exists>z \<in> set xs. lt z y)"
    unfolding less_order.heap_Pop_Remove [OF assms(1)]
    using rem [of 0] less_order.heap_min [OF assms] by (auto split: option.splits)
  then show ?thesis
    using rem [of i] less_order.heap_Push_correct [OF assms, of x] less_order.heap_Fix_correct [OF assms, of i x] by blast
qed

theorem heap_operations_witness:
  "mset (heap_Push int_less 7 []) = {#7#} \<and> (\<exists>ys. heap_Pop int_less [1, 3, 2] = Some (1, ys) \<and> min_heap int_less ys)
    \<and> heap_Remove int_less 5 [1, 3, 2] = None"
proof -
  have "min_heap int_less []" by (simp add: min_heap_def)
  then have push: "mset (heap_Push int_less 7 []) = {#7#}"
    using heap_operations [OF int_order.less_order_axioms, of "[]" 7 0] by simp
  have h: "min_heap int_less [1, 3, 2]"
    by (auto simp: min_heap_def int_less_def par_def less_Suc_eq numeral_3_eq_3)
  have p: "heap_Pop int_less [1, 3, 2] = Some (1, [2, 3])" "heap_Remove int_less 5 [1, 3, 2] = None" by code_simp+
  show ?thesis
    using heap_operations [OF int_order.less_order_axioms h, of 1 0] p push by auto
qed

end
