(* ===== verification/Sort.thy ===== *)
theory Sort
  imports HeapSort
begin

text \<open>
  \<open>sort.Sort\<close>, \<open>sort.IsSorted\<close> and \<open>sort.Search\<close> (\<open>sort/sort.go\<close>, \<open>sort/search.go\<close>): quicksort with
  the partition of Bentley and McIlroy, which falls back to heap sort when the recursion gets too
  deep and ends with a Shell pass and insertion sort on at most 12 elements. Indices are natural
  numbers; an iteration of a loop is a recursive call.
\<close>

section \<open>The code\<close>

fun insert_loop :: "('a \<Rightarrow> 'a \<Rightarrow> bool) \<Rightarrow> nat \<Rightarrow> nat \<Rightarrow> 'a list \<Rightarrow> 'a list" where
  "insert_loop lt a 0 xs = xs"
| "insert_loop lt a (Suc j) xs =
     (if a < Suc j \<and> Less lt xs (Suc j) j then insert_loop lt a j (Swap (Suc j) j xs) else xs)"

definition insertionSort :: "('a \<Rightarrow> 'a \<Rightarrow> bool) \<Rightarrow> nat \<Rightarrow> nat \<Rightarrow> 'a list \<Rightarrow> 'a list" where
  "insertionSort lt a b xs = fold (insert_loop lt a) [a + 1..<b] xs"

definition medianOfThree :: "('a \<Rightarrow> 'a \<Rightarrow> bool) \<Rightarrow> nat \<Rightarrow> nat \<Rightarrow> nat \<Rightarrow> 'a list \<Rightarrow> 'a list" where
  "medianOfThree lt m1 m0 m2 xs =
     (let xs = (if Less lt xs m1 m0 then Swap m1 m0 xs else xs) in
      if Less lt xs m2 m1 then
        (let xs = Swap m2 m1 xs in if Less lt xs m1 m0 then Swap m1 m0 xs else xs)
      else xs)"

text \<open>The scanning loops of \<open>doPivot\<close>: each stops at an index.\<close>

function scan_less :: "('a \<Rightarrow> 'a \<Rightarrow> bool) \<Rightarrow> nat \<Rightarrow> nat \<Rightarrow> nat \<Rightarrow> 'a list \<Rightarrow> nat" where
  "scan_less lt pivot c a xs =
     (if a < c \<and> Less lt xs a pivot then scan_less lt pivot c (a + 1) xs else a)"
  by pat_completeness auto
termination by (relation "measure (\<lambda>(lt, pivot, c, a, xs). c - a)") auto

function scan_le :: "('a \<Rightarrow> 'a \<Rightarrow> bool) \<Rightarrow> nat \<Rightarrow> nat \<Rightarrow> nat \<Rightarrow> 'a list \<Rightarrow> nat" where
  "scan_le lt pivot c b xs =
     (if b < c \<and> \<not> Less lt xs pivot b then scan_le lt pivot c (b + 1) xs else b)"
  by pat_completeness auto
termination by (relation "measure (\<lambda>(lt, pivot, c, b, xs). c - b)") auto

fun scan_gt :: "('a \<Rightarrow> 'a \<Rightarrow> bool) \<Rightarrow> nat \<Rightarrow> nat \<Rightarrow> nat \<Rightarrow> 'a list \<Rightarrow> nat" where
  "scan_gt lt pivot b 0 xs = 0"
| "scan_gt lt pivot b (Suc c) xs =
     (if b < Suc c \<and> Less lt xs pivot c then scan_gt lt pivot b c xs else Suc c)"

fun scan_eq :: "('a \<Rightarrow> 'a \<Rightarrow> bool) \<Rightarrow> nat \<Rightarrow> nat \<Rightarrow> nat \<Rightarrow> 'a list \<Rightarrow> nat" where
  "scan_eq lt pivot a 0 xs = 0"
| "scan_eq lt pivot a (Suc b) xs =
     (if a < Suc b \<and> \<not> Less lt xs b pivot then scan_eq lt pivot a b xs else Suc b)"

declare scan_less.simps [simp del] scan_le.simps [simp del]

lemma scan_less_ge: "a \<le> scan_less lt p c a xs"
  by (induction lt p c a xs rule: scan_less.induct) (subst scan_less.simps, auto)

lemma scan_le_ge: "b \<le> scan_le lt p c b xs"
  by (induction lt p c b xs rule: scan_le.induct) (subst scan_le.simps, auto)

lemma scan_gt_le: "scan_gt lt p b c xs \<le> c"
  by (induction c) auto

lemma scan_eq_le: "scan_eq lt p a b xs \<le> b"
  by (induction b) auto

function part_loop ::
  "('a \<Rightarrow> 'a \<Rightarrow> bool) \<Rightarrow> nat \<Rightarrow> nat \<Rightarrow> nat \<Rightarrow> 'a list \<Rightarrow> nat \<times> nat \<times> 'a list" where
  "part_loop lt pivot b c xs =
     (let b = scan_le lt pivot c b xs; c = scan_gt lt pivot b c xs in
      if b \<ge> c then (b, c, xs) else part_loop lt pivot (b + 1) (c - 1) (Swap b (c - 1) xs))"
  by pat_completeness auto
termination
proof (relation "measure (\<lambda>(lt, pivot, b, c, xs). c - b)")
  fix lt :: "'a \<Rightarrow> 'a \<Rightarrow> bool" and pivot b c xs b' c'
  assume "b' = scan_le lt pivot c b xs" "c' = scan_gt lt pivot b' c xs" "\<not> c' \<le> b'"
  then show "((lt, pivot, b' + 1, c' - 1, Swap b' (c' - 1) xs), lt, pivot, b, c, xs)
      \<in> measure (\<lambda>(lt, pivot, b, c, xs). c - b)"
    using scan_le_ge [of b lt pivot c xs] scan_gt_le [of lt pivot b' c xs] by auto
qed simp

function dup_loop ::
  "('a \<Rightarrow> 'a \<Rightarrow> bool) \<Rightarrow> nat \<Rightarrow> nat \<Rightarrow> nat \<Rightarrow> 'a list \<Rightarrow> nat \<times> nat \<times> 'a list" where
  "dup_loop lt pivot a b xs =
     (let b = scan_eq lt pivot a b xs; a = scan_less lt pivot b a xs in
      if a \<ge> b then (a, b, xs) else dup_loop lt pivot (a + 1) (b - 1) (Swap a (b - 1) xs))"
  by pat_completeness auto
termination
proof (relation "measure (\<lambda>(lt, pivot, a, b, xs). b - a)")
  fix lt :: "'a \<Rightarrow> 'a \<Rightarrow> bool" and pivot a b xs b' a'
  assume "b' = scan_eq lt pivot a b xs" "a' = scan_less lt pivot b' a xs" "\<not> b' \<le> a'"
  then show "((lt, pivot, a' + 1, b' - 1, Swap a' (b' - 1) xs), lt, pivot, a, b, xs)
      \<in> measure (\<lambda>(lt, pivot, a, b, xs). b - a)"
    using scan_eq_le [of lt pivot a b xs] scan_less_ge [of a lt pivot b' xs] by auto
qed simp

declare part_loop.simps [simp del] dup_loop.simps [simp del]

text \<open>
  \<open>doPivot\<close> in three parts: the tests for duplicates, the partition around the pivot at \<open>lo\<close>, and
  the choice of the pivot, which calls the partition.
\<close>

definition dup_tests ::
  "('a \<Rightarrow> 'a \<Rightarrow> bool) \<Rightarrow> nat \<Rightarrow> nat \<Rightarrow> nat \<Rightarrow> nat \<Rightarrow> 'a list \<Rightarrow> bool \<times> nat \<times> nat \<times> 'a list" where
  "dup_tests lt lo hi b c xs =
     (let pivot = lo; m = (lo + hi) div 2;
          (c, dups, xs) = (if \<not> Less lt xs pivot (hi - 1) then (c + 1, 1, Swap c (hi - 1) xs)
                           else (c, 0::nat, xs));
          (b, dups) = (if \<not> Less lt xs (b - 1) pivot then (b - 1, dups + 1) else (b, dups));
          (b, dups, xs) = (if \<not> Less lt xs m pivot then (b - 1, dups + 1, Swap m (b - 1) xs)
                           else (b, dups, xs))
      in (dups > 1, b, c, xs))"

definition pivot_tail ::
  "('a \<Rightarrow> 'a \<Rightarrow> bool) \<Rightarrow> nat \<Rightarrow> nat \<Rightarrow> 'a list \<Rightarrow> nat \<times> nat \<times> 'a list" where
  "pivot_tail lt lo hi xs =
     (let pivot = lo; a = lo + 1; c = hi - 1;
          a = scan_less lt pivot c a xs;
          b = a;
          (b, c, xs) = part_loop lt pivot b c xs;
          protect = (hi - c < 5);
          (protect, b, c, xs) = (if \<not> protect \<and> hi - c < (hi - lo) div 4 then dup_tests lt lo hi b c xs
                                 else (protect, b, c, xs));
          (a, b, xs) = (if protect then dup_loop lt pivot a b xs else (a, b, xs));
          xs = Swap pivot (b - 1) xs
      in (b - 1, c, xs))"

definition doPivot ::
  "('a \<Rightarrow> 'a \<Rightarrow> bool) \<Rightarrow> nat \<Rightarrow> nat \<Rightarrow> 'a list \<Rightarrow> nat \<times> nat \<times> 'a list" where
  "doPivot lt lo hi xs =
     (let m = (lo + hi) div 2;
          xs = (if hi - lo > 40 then
                  (let s = (hi - lo) div 8;
                       xs = medianOfThree lt lo (lo + s) (lo + 2 * s) xs;
                       xs = medianOfThree lt m (m - s) (m + s) xs
                   in medianOfThree lt (hi - 1) (hi - 1 - s) (hi - 1 - 2 * s) xs)
                else xs);
          xs = medianOfThree lt lo m (hi - 1) xs
      in pivot_tail lt lo hi xs)"

text \<open>
  One call of \<open>quickSort\<close> per iteration of its loop: the last call of each branch is the next
  iteration, with the bound that was not recursed on.
\<close>

fun quickSort :: "('a \<Rightarrow> 'a \<Rightarrow> bool) \<Rightarrow> nat \<Rightarrow> nat \<Rightarrow> nat \<Rightarrow> 'a list \<Rightarrow> 'a list" where
  "quickSort lt a b d xs =
     (if b - a > 12 then
        (case d of
           0 \<Rightarrow> heapSort lt a b xs
         | Suc d' \<Rightarrow>
             (let (mlo, mhi, xs) = doPivot lt a b xs in
              if mlo - a < b - mhi then
                quickSort lt mhi b d' (quickSort lt a mlo d' xs)
              else quickSort lt a mlo d' (quickSort lt mhi b d' xs)))
      else if b - a > 1 then
        insertionSort lt a b
          (fold (\<lambda>i xs. if Less lt xs i (i - 6) then Swap i (i - 6) xs else xs) [a + 6..<b] xs)
      else xs)"

declare quickSort.simps [simp del]

fun depth_loop :: "nat \<Rightarrow> nat" where
  "depth_loop i = (if i > 0 then Suc (depth_loop (i div 2)) else 0)"

declare depth_loop.simps [simp del]

definition maxDepth :: "nat \<Rightarrow> nat" where
  "maxDepth n = depth_loop n * 2"

definition Sort :: "('a \<Rightarrow> 'a \<Rightarrow> bool) \<Rightarrow> 'a list \<Rightarrow> 'a list" where
  "Sort lt xs = (let n = length xs in quickSort lt 0 n (maxDepth n) xs)"

definition Ints :: "int list \<Rightarrow> int list" where
  "Ints xs = Sort int_less xs"

definition IsSorted :: "('a \<Rightarrow> 'a \<Rightarrow> bool) \<Rightarrow> 'a list \<Rightarrow> bool" where
  "IsSorted lt xs = list_all (\<lambda>i. \<not> Less lt xs i (i - 1)) (rev [1..<length xs])"

text \<open>The binary search loop; \<open>h\<close> is computed without overflow.\<close>

function search_loop :: "(nat \<Rightarrow> bool) \<Rightarrow> nat \<Rightarrow> nat \<Rightarrow> nat" where
  "search_loop f i j =
     (if i < j then
        (let h = (i + j) div 2 in if \<not> f h then search_loop f (h + 1) j else search_loop f i h)
      else i)"
  by pat_completeness auto
termination by (relation "measure (\<lambda>(f, i, j). j - i)") auto

declare search_loop.simps [simp del]

definition Search :: "nat \<Rightarrow> (nat \<Rightarrow> bool) \<Rightarrow> nat" where
  "Search n f = search_loop f 0 n"

definition SearchInts :: "int list \<Rightarrow> int \<Rightarrow> nat" where
  "SearchInts a x = Search (length a) (\<lambda>i. a ! i \<ge> x)"

section \<open>Insertion sort\<close>

lemma fold_perm_range:
  "(\<And>i xs. i \<in> set is \<Longrightarrow> length xs = n \<Longrightarrow> perm_range a b xs (f i xs)) \<Longrightarrow> length xs = n \<Longrightarrow>
     perm_range a b xs (fold f is xs)"
proof (induction "is" arbitrary: xs)
  case (Cons i "is")
  have p: "perm_range a b xs (f i xs)" using Cons.prems by simp
  moreover from p have "length (f i xs) = n" using Cons.prems(2) by (simp add: perm_range_length)
  ultimately show ?case using Cons.IH [of "f i xs"] Cons.prems(1) by (auto intro: perm_range_trans)
qed simp

text \<open>
  The partition around the pivot at \<open>lo\<close>: not greater up to \<open>b\<close>, equal up to \<open>c\<close>, not less up to \<open>hi\<close>.
\<close>

definition part3 :: "('a \<Rightarrow> 'a \<Rightarrow> bool) \<Rightarrow> nat \<Rightarrow> nat \<Rightarrow> nat \<Rightarrow> nat \<Rightarrow> 'a list \<Rightarrow> bool" where
  "part3 lt lo b c hi xs \<longleftrightarrow>
     (\<forall>i. lo < i \<and> i < b \<longrightarrow> \<not> lt (xs ! lo) (xs ! i)) \<and>
     (\<forall>i. b \<le> i \<and> i < c \<longrightarrow> \<not> lt (xs ! lo) (xs ! i) \<and> \<not> lt (xs ! i) (xs ! lo)) \<and>
     (\<forall>i. c \<le> i \<and> i < hi \<longrightarrow> \<not> lt (xs ! i) (xs ! lo))"

context less_order begin

lemma insert_loop_correct:
  assumes "a \<le> j" "j < e" "e \<le> length xs"
    and "\<And>p q. a \<le> p \<Longrightarrow> p < q \<Longrightarrow> q < e \<Longrightarrow> p \<noteq> j \<Longrightarrow> q \<noteq> j \<Longrightarrow> \<not> lt (xs ! q) (xs ! p)"
    and "\<And>q. j < q \<Longrightarrow> q < e \<Longrightarrow> \<not> lt (xs ! q) (xs ! j)"
  shows "sorted_range lt a e (insert_loop lt a j xs) \<and> perm_range a e xs (insert_loop lt a j xs)"
  using assms
proof (induction j arbitrary: xs)
  case 0
  then show ?case by (auto simp: sorted_range_def)
next
  case (Suc j)
  show ?case
  proof (cases "a < Suc j \<and> lt (xs ! Suc j) (xs ! j)")
    case True
    define ys where "ys = Swap (Suc j) j xs"
    have sw: "ys ! k = (if k = Suc j then xs ! j else if k = j then xs ! Suc j else xs ! k)" for k
      using Suc.prems(2,3) by (simp add: ys_def nth_Swap)
    have "sorted_range lt a e (insert_loop lt a j ys) \<and> perm_range a e ys (insert_loop lt a j ys)"
    proof (rule Suc.IH)
      show "a \<le> j" "j < e" "e \<le> length ys" using True Suc.prems(2,3) by (auto simp: ys_def)
      fix p q assume pq: "a \<le> p" "p < q" "q < e" "p \<noteq> j" "q \<noteq> j"
      show "\<not> lt (ys ! q) (ys ! p)"
        using pq True Suc.prems(4) [of p q] Suc.prems(4) [of p j] Suc.prems(4) [of j q] Suc.prems(2)
        by (cases "p = Suc j"; cases "q = Suc j") (auto simp: sw)
    next
      fix q assume q: "j < q" "q < e"
      show "\<not> lt (ys ! q) (ys ! j)"
        using q Suc.prems(5) [of q] asym True by (cases "q = Suc j") (auto simp: sw)
    qed
    moreover have "perm_range a e xs ys"
      unfolding ys_def using True Suc.prems(2,3) by (intro perm_range_Swap) auto
    ultimately show ?thesis using True by (auto simp: Less_def ys_def intro: perm_range_trans)
  next
    case False
    then have eq: "insert_loop lt a (Suc j) xs = xs" by (auto simp: Less_def)
    have "\<not> lt (xs ! q) (xs ! p)" if "a \<le> p" "p < q" "q < e" for p q
    proof -
      consider "p = Suc j" | "q = Suc j" "p = j" | "q = Suc j" "p < j" | "p \<noteq> Suc j" "q \<noteq> Suc j"
        using \<open>p < q\<close> by (cases "q = Suc j"; cases "p = Suc j"; cases "p = j") auto
      then show ?thesis
      proof cases
        case 3
        have "\<not> lt (xs ! Suc j) (xs ! j)" "\<not> lt (xs ! j) (xs ! p)"
          using False 3 that Suc.prems(4) [of p j] by auto
        then show ?thesis using 3 neg_trans by blast
      qed (use False that Suc.prems in auto)
    qed
    then show ?thesis unfolding eq by (simp add: sorted_range_def)
  qed
qed

lemma insertionSort_correct:
  assumes "b \<le> length xs"
  shows "sorted_range lt a b (insertionSort lt a b xs) \<and> perm_range a b xs (insertionSort lt a b xs)"
proof -
  have "sorted_range lt a (a + 1 + k) (fold (insert_loop lt a) [a + 1..<a + 1 + k] xs)
      \<and> perm_range a b xs (fold (insert_loop lt a) [a + 1..<a + 1 + k] xs)" if "a + 1 + k \<le> b" for k
    using that
  proof (induction k)
    case 0
    then show ?case by simp
  next
    case (Suc k)
    define ys where "ys = fold (insert_loop lt a) [a + 1..<a + 1 + k] xs"
    have ys: "sorted_range lt a (a + 1 + k) ys" "perm_range a b xs ys"
      using Suc by (simp_all add: ys_def)
    have "sorted_range lt a (a + 1 + Suc k) (insert_loop lt a (a + 1 + k) ys)
      \<and> perm_range a (a + 1 + Suc k) ys (insert_loop lt a (a + 1 + k) ys)"
    proof (rule insert_loop_correct)
      show "a + 1 + Suc k \<le> length ys"
        using Suc.prems assms perm_range_length [OF ys(2)] by linarith
      show "\<not> lt (ys ! q) (ys ! p)"
        if "a \<le> p" "p < q" "q < a + 1 + Suc k" "q \<noteq> a + 1 + k" for p q
      proof -
        have "q < a + 1 + k" using that(3,4) by linarith
        with ys(1) that(1,2) show ?thesis by (simp add: sorted_range_def)
      qed
    qed auto
    moreover have "fold (insert_loop lt a) [a + 1..<a + 1 + Suc k] xs = insert_loop lt a (a + 1 + k) ys"
      by (simp add: ys_def)
    ultimately show ?case
      using ys(2) Suc.prems perm_range_mono [of a "a + 1 + Suc k" ys _ a b]
      by (auto intro: perm_range_trans)
  qed
  note step = this
  show ?thesis
  proof (cases "a + 1 \<le> b")
    case True
    then have "a + 1 + (b - (a + 1)) = b" by simp
    with step [of "b - (a + 1)"] show ?thesis by (simp only: insertionSort_def order.refl)
  qed (simp add: insertionSort_def)
qed

section \<open>The partition\<close>

lemma medianOfThree_perm:
  assumes "lo \<le> m0" "m0 < hi" "lo \<le> m1" "m1 < hi" "lo \<le> m2" "m2 < hi" "hi \<le> length xs"
  shows "perm_range lo hi xs (medianOfThree lt m1 m0 m2 xs)"
proof -
  have s: "perm_range lo hi ys (Swap i j ys)" "length (Swap i j ys) = length ys"
    if "i \<in> {m0, m1, m2}" "j \<in> {m0, m1, m2}" "length ys = length xs" for i j and ys :: "'a list"
    using that assms by (auto intro!: perm_range_Swap)
  show ?thesis
    unfolding medianOfThree_def Let_def
    using s(1) [of m1 m0 xs] s(1) [of m2 m1 xs] s(1) [of m2 m1 "Swap m1 m0 xs"]
      s(1) [of m1 m0 "Swap m2 m1 xs"] s(1) [of m1 m0 "Swap m2 m1 (Swap m1 m0 xs)"]
    by (auto intro: perm_range_trans)
qed

lemma medianOfThree_max:
  assumes "m0 \<noteq> m1" "m1 \<noteq> m2" "m0 \<noteq> m2" "m0 < length xs" "m1 < length xs" "m2 < length xs"
  defines "ys \<equiv> medianOfThree lt m1 m0 m2 xs"
  shows "\<not> lt (ys ! m2) (ys ! m1)"
proof -
  define zs where "zs = (if Less lt xs m1 m0 then Swap m1 m0 xs else xs)"
  have len: "length zs = length xs" by (simp add: zs_def)
  have z: "\<not> lt (zs ! m1) (zs ! m0)"
    using assms(1,4,5) asym by (auto simp: zs_def Less_def nth_Swap)
  have ys: "ys = (if lt (zs ! m2) (zs ! m1)
      then (if lt (zs ! m2) (zs ! m0) then Swap m1 m0 (Swap m2 m1 zs) else Swap m2 m1 zs) else zs)"
    unfolding ys_def medianOfThree_def Let_def zs_def [symmetric]
    using assms(1-6) len by (simp add: Less_def nth_Swap)
  show ?thesis
  proof (cases "lt (zs ! m2) (zs ! m1)")
    case True
    then show ?thesis using z asym [OF True] assms(1-6) len by (simp add: ys nth_Swap)
  qed (simp add: ys)
qed

text \<open>What the scans say about the place where they stop.\<close>

lemma scan_less_spec:
  assumes "a \<le> c"
  shows "scan_less lt p c a xs \<le> c"
    and "a \<le> i \<Longrightarrow> i < scan_less lt p c a xs \<Longrightarrow> lt (xs ! i) (xs ! p)"
    and "scan_less lt p c a xs < c \<Longrightarrow> \<not> lt (xs ! scan_less lt p c a xs) (xs ! p)"
proof -
  have "scan_less lt p c a xs \<le> c
    \<and> (\<forall>i. a \<le> i \<and> i < scan_less lt p c a xs \<longrightarrow> lt (xs ! i) (xs ! p))
    \<and> (scan_less lt p c a xs < c \<longrightarrow> \<not> lt (xs ! scan_less lt p c a xs) (xs ! p))"
    using assms
  proof (induction "c - a" arbitrary: a)
    case 0
    then show ?case by (auto simp: scan_less.simps)
  next
    case (Suc n)
    have ac: "a < c" using Suc.hyps(2) by simp
    show ?case
    proof (cases "lt (xs ! a) (xs ! p)")
      case True
      have "scan_less lt p c a xs = scan_less lt p c (a + 1) xs"
        using True ac by (subst scan_less.simps) (simp add: Less_def)
      moreover have "a \<le> i \<longleftrightarrow> i = a \<or> a + 1 \<le> i" for i by auto
      ultimately show ?thesis using Suc.hyps(1) [of "a + 1"] Suc.hyps(2) True by auto
    next
      case False
      then have "scan_less lt p c a xs = a" by (subst scan_less.simps) (simp add: Less_def)
      then show ?thesis using False Suc.prems by auto
    qed
  qed
  then show "scan_less lt p c a xs \<le> c"
    and "a \<le> i \<Longrightarrow> i < scan_less lt p c a xs \<Longrightarrow> lt (xs ! i) (xs ! p)"
    and "scan_less lt p c a xs < c \<Longrightarrow> \<not> lt (xs ! scan_less lt p c a xs) (xs ! p)" by blast+
qed

lemma scan_le_spec:
  assumes "b \<le> c"
  shows "scan_le lt p c b xs \<le> c"
    and "b \<le> i \<Longrightarrow> i < scan_le lt p c b xs \<Longrightarrow> \<not> lt (xs ! p) (xs ! i)"
    and "scan_le lt p c b xs < c \<Longrightarrow> lt (xs ! p) (xs ! scan_le lt p c b xs)"
proof -
  have "scan_le lt p c b xs \<le> c
    \<and> (\<forall>i. b \<le> i \<and> i < scan_le lt p c b xs \<longrightarrow> \<not> lt (xs ! p) (xs ! i))
    \<and> (scan_le lt p c b xs < c \<longrightarrow> lt (xs ! p) (xs ! scan_le lt p c b xs))"
    using assms
  proof (induction "c - b" arbitrary: b)
    case 0
    then show ?case by (auto simp: scan_le.simps)
  next
    case (Suc n)
    have ac: "b < c" using Suc.hyps(2) by simp
    show ?case
    proof (cases "lt (xs ! p) (xs ! b)")
      case True
      then have "scan_le lt p c b xs = b" by (subst scan_le.simps) (simp add: Less_def)
      then show ?thesis using True Suc.prems by auto
    next
      case False
      have "scan_le lt p c b xs = scan_le lt p c (b + 1) xs"
        using False ac by (subst scan_le.simps) (simp add: Less_def)
      moreover have "b \<le> i \<longleftrightarrow> i = b \<or> b + 1 \<le> i" for i by auto
      ultimately show ?thesis using Suc.hyps(1) [of "b + 1"] Suc.hyps(2) False by auto
    qed
  qed
  then show "scan_le lt p c b xs \<le> c"
    and "b \<le> i \<Longrightarrow> i < scan_le lt p c b xs \<Longrightarrow> \<not> lt (xs ! p) (xs ! i)"
    and "scan_le lt p c b xs < c \<Longrightarrow> lt (xs ! p) (xs ! scan_le lt p c b xs)" by blast+
qed

lemma scan_gt_spec:
  assumes "b \<le> c"
  shows "b \<le> scan_gt lt p b c xs"
    and "scan_gt lt p b c xs \<le> i \<Longrightarrow> i < c \<Longrightarrow> lt (xs ! p) (xs ! i)"
    and "b < scan_gt lt p b c xs \<Longrightarrow> \<not> lt (xs ! p) (xs ! (scan_gt lt p b c xs - 1))"
  using assms by (induction c) (auto simp: Less_def not_less_eq_eq less_Suc_eq split: if_splits)

lemma scan_eq_spec:
  assumes "a \<le> b"
  shows "a \<le> scan_eq lt p a b xs"
    and "scan_eq lt p a b xs \<le> i \<Longrightarrow> i < b \<Longrightarrow> \<not> lt (xs ! i) (xs ! p)"
    and "a < scan_eq lt p a b xs \<Longrightarrow> lt (xs ! (scan_eq lt p a b xs - 1)) (xs ! p)"
  using assms by (induction b) (auto simp: Less_def not_less_eq_eq less_Suc_eq split: if_splits)

lemma part_loop_correct:
  assumes "lo < b" "b \<le> c" "c \<le> hi" "hi \<le> length xs"
    and "\<And>i. lo < i \<Longrightarrow> i < b \<Longrightarrow> \<not> lt (xs ! lo) (xs ! i)"
    and "\<And>i. c \<le> i \<Longrightarrow> i < hi \<Longrightarrow> \<not> lt (xs ! i) (xs ! lo)"
  shows "\<exists>k ys. part_loop lt lo b c xs = (k, k, ys) \<and> b \<le> k \<and> k \<le> c
      \<and> perm_range (lo + 1) hi xs ys \<and> part3 lt lo k k hi ys"
  using assms
proof (induction "c - b" arbitrary: b c xs rule: less_induct)
  case less
  define b' where "b' = scan_le lt lo c b xs"
  define c' where "c' = scan_gt lt lo b' c xs"
  note sb = scan_le_spec [OF less.prems(2), where p = lo and xs = xs, folded b'_def]
  note sc = scan_gt_spec [OF sb(1), where p = lo and xs = xs, folded c'_def]
  have b': "b \<le> b'" "c' \<le> c" using scan_le_ge [of b lt lo c xs] scan_gt_le [of lt lo b' c xs]
    by (simp_all add: b'_def c'_def)
  have left: "\<not> lt (xs ! lo) (xs ! i)" if "lo < i" "i < b'" for i
    using less.prems(5) [of i] sb(2) [of i] that by (cases "i < b") auto
  have right: "\<not> lt (xs ! i) (xs ! lo)" if "c' \<le> i" "i < hi" for i
    using less.prems(6) [of i] sc(2) [of i] that asym by (cases "i < c") auto
  have unf: "part_loop lt lo b c xs = (if b' \<ge> c' then (b', c', xs)
      else part_loop lt lo (b' + 1) (c' - 1) (Swap b' (c' - 1) xs))"
    by (subst part_loop.simps) (simp add: Let_def b'_def c'_def)
  show ?case
  proof (cases "b' \<ge> c'")
    case True
    then have "c' = b'" using sc(1) by simp
    then show ?thesis
      using True left right b' sb(1) by (auto simp: unf part3_def)
  next
    case False
    then have "lt (xs ! lo) (xs ! b')" "\<not> lt (xs ! lo) (xs ! (c' - 1))"
      using sb(3) sc(3) b'(2) by auto
    then have ne: "b' \<noteq> c' - 1" by auto
    define ys where "ys = Swap b' (c' - 1) xs"
    have sw: "ys ! k = (if k = b' then xs ! (c' - 1) else if k = c' - 1 then xs ! b' else xs ! k)" for k
      using False b' less.prems(1-4) by (simp add: ys_def nth_Swap)
    have lo: "ys ! lo = xs ! lo" using less.prems(1) b' False by (auto simp: sw)
    have p: "perm_range (lo + 1) hi xs ys"
      unfolding ys_def using False b' less.prems(1-4) by (intro perm_range_Swap) auto
    have "\<exists>k zs. part_loop lt lo (b' + 1) (c' - 1) ys = (k, k, zs) \<and> b' + 1 \<le> k \<and> k \<le> c' - 1
      \<and> perm_range (lo + 1) hi ys zs \<and> part3 lt lo k k hi zs"
    proof (rule less.hyps)
      show "(c' - 1) - (b' + 1) < c - b" "b' + 1 \<le> c' - 1" using False ne b' by linarith+
      show "lo < b' + 1" "c' - 1 \<le> hi" "hi \<le> length ys" using less.prems(1-4) b' by (auto simp: ys_def)
      show "\<not> lt (ys ! lo) (ys ! i)" if "lo < i" "i < b' + 1" for i
        using that left [of i] \<open>\<not> lt (xs ! lo) (xs ! (c' - 1))\<close> False ne
        unfolding lo by (auto simp: sw)
      show "\<not> lt (ys ! i) (ys ! lo)" if "c' - 1 \<le> i" "i < hi" for i
        using that right [of i] asym [OF \<open>lt (xs ! lo) (xs ! b')\<close>] False ne
        unfolding lo by (cases "i = c' - 1") (auto simp: sw)
    qed
    then show ?thesis using False p b' unfolding unf ys_def [symmetric]
      by (auto intro: perm_range_trans)
  qed
qed

lemma dup_loop_done:
  assumes "b < a"
  shows "dup_loop lt p a b xs = (a, b, xs)"
proof -
  have "scan_eq lt p a b xs = b" using assms by (cases b) auto
  moreover have "scan_less lt p b a xs = a" using assms by (subst scan_less.simps) auto
  ultimately show ?thesis using assms by (subst dup_loop.simps) (simp add: Let_def)
qed

lemma dup_loop_correct:
  assumes "lo < a" "a \<le> b" "b \<le> c" "c \<le> hi" "hi \<le> length xs" "part3 lt lo b c hi xs"
  shows "\<exists>a' k ys. dup_loop lt lo a b xs = (a', k, ys) \<and> a \<le> k \<and> k \<le> b
      \<and> perm_range (lo + 1) hi xs ys \<and> part3 lt lo k c hi ys"
  using assms
proof (induction "b - a" arbitrary: a b xs rule: less_induct)
  case less
  define b' where "b' = scan_eq lt lo a b xs"
  note sb = scan_eq_spec [OF less.prems(2), where p = lo and xs = xs, folded b'_def]
  define a' where "a' = scan_less lt lo b' a xs"
  note sa = scan_less_spec [OF sb(1), where p = lo and xs = xs, folded a'_def]
  have le: "b' \<le> b" "a \<le> a'" using scan_eq_le [of lt lo a b xs] scan_less_ge [of a lt lo b' xs]
    by (simp_all add: b'_def a'_def)
  have unf: "dup_loop lt lo a b xs = (if a' \<ge> b' then (a', b', xs)
      else dup_loop lt lo (a' + 1) (b' - 1) (Swap a' (b' - 1) xs))"
    by (subst dup_loop.simps) (simp add: Let_def b'_def a'_def)
  have old: "\<And>i. lo < i \<Longrightarrow> i < b \<Longrightarrow> \<not> lt (xs ! lo) (xs ! i)"
    "\<And>i. b \<le> i \<Longrightarrow> i < c \<Longrightarrow> \<not> lt (xs ! lo) (xs ! i) \<and> \<not> lt (xs ! i) (xs ! lo)"
    "\<And>i. c \<le> i \<Longrightarrow> i < hi \<Longrightarrow> \<not> lt (xs ! i) (xs ! lo)"
    using less.prems(6) unfolding part3_def by blast+
  have mid: "\<not> lt (xs ! lo) (xs ! i) \<and> \<not> lt (xs ! i) (xs ! lo)" if "b' \<le> i" "i < c" for i
    using that old(1) [of i] old(2) [of i] sb(2) [of i] sb(1) less.prems(1) by (cases "i < b") auto
  show ?case
  proof (cases "a' \<ge> b'")
    case True
    have "part3 lt lo b' c hi xs" using old mid le unfolding part3_def by auto
    then show ?thesis using True sb(1) le by (auto simp: unf)
  next
    case False
    then have e: "\<not> lt (xs ! a') (xs ! lo)" "lt (xs ! (b' - 1)) (xs ! lo)"
      using sa(3) sb(3) le by auto
    then have ne: "a' \<noteq> b' - 1" by auto
    define ys where "ys = Swap a' (b' - 1) xs"
    have sw: "ys ! k = (if k = a' then xs ! (b' - 1) else if k = b' - 1 then xs ! a' else xs ! k)" for k
      using False le less.prems(1-5) by (simp add: ys_def nth_Swap)
    have lo: "ys ! lo = xs ! lo" using less.prems(1) le False by (auto simp: sw)
    have p: "perm_range (lo + 1) hi xs ys"
      unfolding ys_def using False le less.prems(1-5) by (intro perm_range_Swap) auto
    have "part3 lt lo (b' - 1) c hi ys"
      unfolding part3_def lo
    proof (intro conjI allI impI; elim conjE)
      fix i assume i: "lo < i" "i < b' - 1"
      then show "\<not> lt (xs ! lo) (ys ! i)" using old(1) [of i] asym [OF e(2)] le by (auto simp: sw)
    next
      fix i assume i: "b' - 1 \<le> i" "i < c"
      show "\<not> lt (xs ! lo) (ys ! i)"
        using i mid [of i] old(1) [of a'] le False ne less.prems(1) by (cases "i = b' - 1") (auto simp: sw)
    next
      fix i assume i: "b' - 1 \<le> i" "i < c"
      show "\<not> lt (ys ! i) (xs ! lo)"
        using i mid [of i] e(1) False ne by (cases "i = b' - 1") (auto simp: sw)
    next
      fix i assume i: "c \<le> i" "i < hi"
      then show "\<not> lt (ys ! i) (xs ! lo)" using old(3) [of i] le less.prems(3) False by (auto simp: sw)
    qed
    then have "\<exists>a'' k zs. dup_loop lt lo (a' + 1) (b' - 1) ys = (a'', k, zs) \<and> a' + 1 \<le> k \<and> k \<le> b' - 1
      \<and> perm_range (lo + 1) hi ys zs \<and> part3 lt lo k c hi zs"
      using False ne le less.prems(1-5) by (intro less.hyps) (auto simp: ys_def)
    then show ?thesis using False p le unfolding unf ys_def [symmetric]
      by (auto intro: perm_range_trans)
  qed
qed

text \<open>
  The three tests for duplicates move the borders over elements equal to the pivot.
\<close>

lemma part3_swap_right:
  assumes "part3 lt lo b c hi xs" "lo < b" "b \<le> c" "c < hi" "hi \<le> length xs"
    and "\<not> lt (xs ! lo) (xs ! (hi - 1))"
  shows "part3 lt lo b (c + 1) hi (Swap c (hi - 1) xs)"
proof -
  have sw: "Swap c (hi - 1) xs ! k
      = (if k = c then xs ! (hi - 1) else if k = hi - 1 then xs ! c else xs ! k)" for k
    using assms by (simp add: nth_Swap)
  note sw = sw sw [unfolded One_nat_def]
  have "lo \<noteq> c" "lo \<noteq> hi - 1" using assms by linarith+
  then have lo: "Swap c (hi - 1) xs ! lo = xs ! lo" by (simp add: sw)
  note o = assms(1) [unfolded part3_def]
  show ?thesis
    unfolding part3_def lo
  proof (intro conjI allI impI; elim conjE)
    fix i assume "lo < i" "i < b"
    then show "\<not> lt (xs ! lo) (Swap c (hi - 1) xs ! i)" using o assms by (auto simp: sw)
  next
    fix i assume i: "b \<le> i" "i < c + 1"
    show "\<not> lt (xs ! lo) (Swap c (hi - 1) xs ! i)"
      using i o assms by (cases "i = c") (auto simp: sw)
    show "\<not> lt (Swap c (hi - 1) xs ! i) (xs ! lo)"
      using i o assms by (cases "i = c") (auto simp: sw)
  next
    fix i assume i: "c + 1 \<le> i" "i < hi"
    show "\<not> lt (Swap c (hi - 1) xs ! i) (xs ! lo)"
      using i o assms by (cases "i = hi - 1") (auto simp: sw)
  qed
qed

lemma part3_left:
  assumes "part3 lt lo (b + 1) c hi xs" "lo < b" "b < c" "\<not> lt (xs ! b) (xs ! lo)"
  shows "part3 lt lo b c hi xs"
proof -
  have "b \<le> i \<longleftrightarrow> i = b \<or> b + 1 \<le> i" for i by auto
  then show ?thesis using assms by (auto simp: part3_def)
qed

lemma part3_swap_left:
  assumes "part3 lt lo (b + 1) c hi xs" "lo < m" "m \<le> b" "b < c" "c \<le> hi" "hi \<le> length xs"
    and "\<not> lt (xs ! m) (xs ! lo)"
  shows "part3 lt lo b c hi (Swap m b xs)"
proof -
  have sw: "Swap m b xs ! k = (if k = m then xs ! b else if k = b then xs ! m else xs ! k)" for k
    using assms by (simp add: nth_Swap)
  note o = assms(1) [unfolded part3_def]
  have lo: "Swap m b xs ! lo = xs ! lo" using assms(2,3) by (simp add: sw)
  have "part3 lt lo (b + 1) c hi (Swap m b xs)"
    unfolding part3_def lo
  proof (intro conjI allI impI; elim conjE)
    fix i assume i: "lo < i" "i < b + 1"
    then show "\<not> lt (xs ! lo) (Swap m b xs ! i)" using o assms(2,3) by (simp add: sw)
  next
    fix i assume i: "b + 1 \<le> i" "i < c"
    then show "\<not> lt (xs ! lo) (Swap m b xs ! i)" "\<not> lt (Swap m b xs ! i) (xs ! lo)"
      using o assms(3) by (simp_all add: sw)
  next
    fix i assume i: "c \<le> i" "i < hi"
    then show "\<not> lt (Swap m b xs ! i) (xs ! lo)" using o assms(3,4) by (simp add: sw)
  qed
  moreover have "\<not> lt (Swap m b xs ! b) (Swap m b xs ! lo)" using assms(7) lo by (simp add: sw)
  ultimately show ?thesis
    by (rule part3_left [where b = b, OF _ less_le_trans [OF assms(2,3)] assms(4)])
qed

lemma dup_tests_correct:
  assumes p3: "part3 lt lo k k hi xs" and b: "lo + 1 \<le> k" "k < hi" "hi \<le> length xs"
    and few: "\<not> hi - k < 5" "hi - k < (hi - lo) div 4"
  shows "\<exists>pr b' c' ys. dup_tests lt lo hi k k xs = (pr, b', c', ys) \<and> lo + 1 \<le> b' \<and> k \<le> b' + 2 \<and> b' \<le> c' \<and> c' \<le> hi
     \<and> perm_range (lo + 1) hi xs ys \<and> part3 lt lo b' c' hi ys"
proof -
  define m where "m = (lo + hi) div 2"
  have m: "lo < m" "m + 3 < k" "lo + 5 < k" using few b unfolding m_def by linarith+
  obtain c1 d1 xs1 where 1: "(if \<not> Less lt xs lo (hi - 1) then (k + 1, 1, Swap k (hi - 1) xs)
      else (k, 0::nat, xs)) = (c1, d1, xs1)" by (metis prod.exhaust)
  have s1: "k \<le> c1" "c1 \<le> hi" "perm_range (lo + 1) hi xs xs1" "part3 lt lo k c1 hi xs1" "length xs1 = length xs"
    using 1 p3 b part3_swap_right [OF p3] perm_range_Swap [of "lo + 1" k hi "hi - 1" xs]
    by (auto simp: Less_def split: if_splits)
  obtain b2 d2 where 2: "(if \<not> Less lt xs1 (k - 1) lo then (k - 1, d1 + 1) else (k, d1)) = (b2, d2)"
    by (metis prod.exhaust)
  have s2: "b2 \<le> k" "k \<le> b2 + 1" "part3 lt lo b2 c1 hi xs1"
    using 2 s1 m part3_left [of lo "k - 1" c1 hi xs1] by (auto simp: Less_def split: if_splits)
  obtain b3 d3 xs3 where 3: "(if \<not> Less lt xs1 m lo then (b2 - 1, d2 + 1, Swap m (b2 - 1) xs1)
      else (b2, d2, xs1)) = (b3, d3, xs3)" by (metis prod.exhaust)
  have s3: "b3 \<le> b2 \<and> b2 \<le> b3 + 1 \<and> perm_range (lo + 1) hi xs1 xs3 \<and> part3 lt lo b3 c1 hi xs3"
  proof (cases "lt (xs1 ! m) (xs1 ! lo)")
    case True
    then show ?thesis using 3 s2 by (simp add: Less_def)
  next
    case False
    have b2: "lo + 3 < b2" "m < b2 - 1" "b2 = b2 - 1 + 1" using s2(2) m by linarith+
    have p: "part3 lt lo (b2 - 1 + 1) c1 hi xs1" using s2(3) b2(1) by simp
    have "perm_range (lo + 1) hi xs1 (Swap m (b2 - 1) xs1)"
      by (rule perm_range_Swap) (use b2 s2 m b s1(5) in linarith)+
    moreover have "part3 lt lo (b2 - 1) c1 hi (Swap m (b2 - 1) xs1)"
      by (rule part3_swap_left [OF p m(1) _ _ s1(2) _ False])
        (use b2 s2 m b s1 in linarith)+
    moreover have "b3 = b2 - 1" "xs3 = Swap m (b2 - 1) xs1" using 3 False by (auto simp: Less_def)
    ultimately show ?thesis by simp
  qed
  have "dup_tests lt lo hi k k xs = (d3 > 1, b3, c1, xs3)"
    unfolding dup_tests_def m_def [symmetric] Let_def 1 prod.case 2 3 ..
  moreover have "lo + 1 \<le> b3" "k \<le> b3 + 2" "b3 \<le> c1" using s1 s2 s3 m by linarith+
  ultimately show ?thesis using s1 s3 by (auto intro: perm_range_trans)
qed

lemma pivot_tail_correct:
  assumes hi: "lo + 12 < hi" "hi \<le> length xs" and med: "\<not> lt (xs ! (hi - 1)) (xs ! lo)"
  shows "\<exists>k c ys p. pivot_tail lt lo hi xs = (k, c, ys) \<and> lo \<le> k \<and> k < c \<and> c \<le> hi
     \<and> perm_range lo hi xs ys
     \<and> (\<forall>i. lo \<le> i \<and> i < k \<longrightarrow> \<not> lt p (ys ! i))
     \<and> (\<forall>i. k \<le> i \<and> i < c \<longrightarrow> \<not> lt p (ys ! i) \<and> \<not> lt (ys ! i) p)
     \<and> (\<forall>i. c \<le> i \<and> i < hi \<longrightarrow> \<not> lt (ys ! i) p)"
proof -
  define a where "a = scan_less lt lo (hi - 1) (lo + 1) xs"
  have le: "lo + 1 \<le> hi - 1" using hi by linarith
  note sa = scan_less_spec [OF le, where p = lo and xs = xs, folded a_def]
  have a: "lo < a" using scan_less_ge [of "lo + 1" lt lo "hi - 1" xs] by (simp add: a_def)
  have before: "\<not> lt (xs ! lo) (xs ! i)" if "lo < i" "i < a" for i
    using sa(2) [of i] that asym by auto
  have last: "\<not> lt (xs ! i) (xs ! lo)" if "hi - 1 \<le> i" "i < hi" for i
  proof -
    have "i = hi - 1" using that by linarith
    with med show ?thesis by simp
  qed
  obtain k ys where pl: "part_loop lt lo a (hi - 1) xs = (k, k, ys)" "a \<le> k" "k \<le> hi - 1"
      "perm_range (lo + 1) hi xs ys" "part3 lt lo k k hi ys"
    using part_loop_correct [OF a sa(1) diff_le_self hi(2) before last] by blast
  have len: "length ys = length xs" using pl(4) by (rule perm_range_length)
  define pr where "pr = (hi - k < 5)"
  obtain pr' b c zs where dt: "(if \<not> pr \<and> hi - k < (hi - lo) div 4 then dup_tests lt lo hi k k ys
      else (pr, k, k, ys)) = (pr', b, c, zs)" by (metis prod.exhaust)
  have kh: "lo + 1 \<le> k" "k < hi" "hi \<le> length ys" using pl(2,3) a hi len by linarith+
  have z: "lo + 1 \<le> b \<and> b \<le> c \<and> c \<le> hi \<and> perm_range (lo + 1) hi ys zs \<and> part3 lt lo b c hi zs"
  proof (cases "\<not> pr \<and> hi - k < (hi - lo) div 4")
    case True
    then show ?thesis using dt dup_tests_correct [OF pl(5) kh] by (auto simp: pr_def)
  next
    case False
    then show ?thesis using dt pl kh by (auto split: if_splits)
  qed
  then have lenz: "length zs = length xs" using len by (auto simp: perm_range_length)
  obtain a' b' ws where dl: "(if pr' then dup_loop lt lo a b zs else (a, b, zs)) = (a', b', ws)"
    by (metis prod.exhaust)
  have w: "lo + 1 \<le> b' \<and> b' \<le> b \<and> perm_range (lo + 1) hi zs ws \<and> part3 lt lo b' c hi ws"
  proof (cases "pr' \<and> a \<le> b")
    case True
    then show ?thesis using dl z a lenz hi dup_loop_correct [of lo a b c hi zs] by auto
  next
    case False
    then show ?thesis using dl z dup_loop_done [of b a lo zs] by (auto split: if_splits)
  qed
  have unf: "pivot_tail lt lo hi xs = (b' - 1, c, Swap lo (b' - 1) ws)"
    unfolding pivot_tail_def Let_def a_def [symmetric] pl(1) prod.case pr_def [symmetric] dt dl ..
  have perm: "perm_range (lo + 1) hi xs ws" using pl(4) z w by (blast intro: perm_range_trans)
  define vs where "vs = Swap lo (b' - 1) ws"
  have lenw: "length ws = length xs" using perm by (rule perm_range_length)
  have b': "b' \<le> c" "b' \<ge> lo + 1" "c \<le> hi" using z w by linarith+
  have sw: "vs ! i = (if i = lo then ws ! (b' - 1) else if i = b' - 1 then ws ! lo else ws ! i)" for i
    using b' hi lenw by (simp add: vs_def nth_Swap)
  have p3: "part3 lt lo b' c hi ws" using w by blast
  note p = p3 [unfolded part3_def]
  have "perm_range lo hi ws vs" unfolding vs_def using b' hi lenw by (intro perm_range_Swap) auto
  moreover have "perm_range lo hi xs ws" using perm by (rule perm_range_mono) auto
  ultimately have "perm_range lo hi xs vs" by (blast intro: perm_range_trans)
  moreover have "\<not> lt (ws ! lo) (vs ! i)" if i: "lo \<le> i" "i < b' - 1" for i
  proof (cases "i = lo")
    case True
    then show ?thesis using i p b' by (simp add: sw)
  next
    case False
    then show ?thesis using i p b' by (simp add: sw)
  qed
  moreover have "\<not> lt (ws ! lo) (vs ! i) \<and> \<not> lt (vs ! i) (ws ! lo)" if "b' - 1 \<le> i" "i < c" for i
  proof (cases "i = b' - 1")
    case True
    then show ?thesis using irrefl by (simp add: sw)
  next
    case False
    then show ?thesis using that p b' by (simp add: sw)
  qed
  moreover have "\<not> lt (vs ! i) (ws ! lo)" if "c \<le> i" "i < hi" for i
    using that p b' by (simp add: sw)
  ultimately show ?thesis using b' unfolding unf vs_def [symmetric]
    by (intro exI [of _ "b' - 1"] exI [of _ c] exI [of _ vs] exI [of _ "ws ! lo"]) auto
qed

definition split3 :: "nat \<Rightarrow> nat \<Rightarrow> nat \<Rightarrow> nat \<Rightarrow> 'a \<Rightarrow> 'a list \<Rightarrow> bool" where
  "split3 a k c b p xs \<longleftrightarrow>
     (\<forall>i. a \<le> i \<and> i < k \<longrightarrow> \<not> lt p (xs ! i)) \<and>
     (\<forall>i. k \<le> i \<and> i < c \<longrightarrow> \<not> lt p (xs ! i) \<and> \<not> lt (xs ! i) p) \<and>
     (\<forall>i. c \<le> i \<and> i < b \<longrightarrow> \<not> lt (xs ! i) p)"

lemma doPivot_correct:
  assumes hi: "lo + 12 < hi" "hi \<le> length xs"
  shows "\<exists>k c ys p. doPivot lt lo hi xs = (k, c, ys) \<and> lo \<le> k \<and> k < c \<and> c \<le> hi
     \<and> perm_range lo hi xs ys \<and> split3 lo k c hi p ys"
proof -
  define m where "m = (lo + hi) div 2"
  define s where "s = (hi - lo) div 8"
  have m: "lo < m" "m < hi - 1" "s \<le> m" "lo \<le> m - s" "m + s < hi" "8 * s \<le> hi - lo"
    using hi unfolding m_def s_def by linarith+
  define x1 where "x1 = medianOfThree lt lo (lo + s) (lo + 2 * s) xs"
  define x2 where "x2 = medianOfThree lt m (m - s) (m + s) x1"
  define x3 where "x3 = (if hi - lo > 40 then medianOfThree lt (hi - 1) (hi - 1 - s) (hi - 1 - 2 * s) x2 else xs)"
  define x4 where "x4 = medianOfThree lt lo m (hi - 1) x3"
  have p1: "perm_range lo hi xs x1"
    unfolding x1_def using m hi by (intro medianOfThree_perm) linarith+
  have "perm_range lo hi x1 x2"
    unfolding x2_def using m hi perm_range_length [OF p1] by (intro medianOfThree_perm) linarith+
  with p1 have p2: "perm_range lo hi xs x2" by (rule perm_range_trans)
  have "perm_range lo hi x2 (medianOfThree lt (hi - 1) (hi - 1 - s) (hi - 1 - 2 * s) x2)"
    using m hi perm_range_length [OF p2] by (intro medianOfThree_perm) linarith+
  with p2 have p3: "perm_range lo hi xs x3" by (auto simp: x3_def intro: perm_range_trans)
  note len = perm_range_length [OF p3]
  have "perm_range lo hi x3 x4"
    unfolding x4_def using m hi len by (intro medianOfThree_perm) linarith+
  with p3 have p4: "perm_range lo hi xs x4" by (rule perm_range_trans)
  have med: "\<not> lt (x4 ! (hi - 1)) (x4 ! lo)"
    unfolding x4_def using m hi len by (intro medianOfThree_max) linarith+
  have "doPivot lt lo hi xs = pivot_tail lt lo hi x4"
    unfolding doPivot_def Let_def x4_def x3_def x2_def x1_def m_def s_def by simp
  with pivot_tail_correct [OF hi(1) _ med] p4 hi(2) perm_range_length [OF p4] show ?thesis
    unfolding split3_def by (auto intro: perm_range_trans)
qed

lemma split3_sorted:
  assumes "split3 a k c b p xs" "k < c" "sorted_range lt a k xs" "sorted_range lt c b xs"
  shows "sorted_range lt a b xs"
proof -
  have "sorted_range lt k c xs" unfolding sorted_range_def
  proof (intro allI impI)
    fix i j assume ij: "k \<le> i \<and> i < j \<and> j < c"
    then have "\<not> lt (xs ! j) p" "\<not> lt p (xs ! i)" using assms(1) by (auto simp: split3_def)
    then show "\<not> lt (xs ! j) (xs ! i)" by (rule neg_trans)
  qed
  then have kb: "sorted_range lt k b xs" using assms(4)
    by (rule sorted_range_join [where p = p]) (use assms(1) in \<open>simp_all add: split3_def\<close>)
  show ?thesis
  proof (rule sorted_range_join [OF assms(3) kb, where p = p])
    show "\<not> lt p (xs ! i)" if "a \<le> i" "i < k" for i using assms(1) that by (simp add: split3_def)
    show "\<not> lt (xs ! i) p" if "k \<le> i" "i < b" for i
      using assms(1) that by (cases "i < c") (simp_all add: split3_def)
  qed
qed

lemma split3_left:
  assumes "split3 a k c b p xs" "perm_range a k xs ys" "k < c" "k \<le> length xs"
  shows "split3 a k c b p ys"
proof -
  have "\<not> lt p (ys ! i)" if "a \<le> i" "i < k" for i
    using assms(1) that
    by (intro perm_range_all [OF assms(2,4), where P = "\<lambda>x. \<not> lt p x"]) (simp_all add: split3_def)
  then show ?thesis
    using assms(1,3) perm_range_outside [OF assms(2)] by (simp add: split3_def)
qed

lemma split3_right:
  assumes "split3 a k c b p xs" "perm_range c b xs ys" "k < c" "b \<le> length xs"
  shows "split3 a k c b p ys"
proof -
  have "\<not> lt (ys ! i) p" if "c \<le> i" "i < b" for i
    using assms(1) that
    by (intro perm_range_all [OF assms(2,4), where P = "\<lambda>x. \<not> lt x p"]) (simp_all add: split3_def)
  then show ?thesis
    using assms(1,3) perm_range_outside [OF assms(2)] by (simp add: split3_def)
qed

lemma sides_sorted:
  assumes "split3 a k c b p xs" "a \<le> k" "k < c" "c \<le> b" "b \<le> length xs"
    and "sorted_range lt a k ys \<and> perm_range a k xs ys" "sorted_range lt c b zs \<and> perm_range c b ys zs"
  shows "sorted_range lt a b zs \<and> perm_range a b xs zs"
proof
  have len: "length ys = length xs" using assms(6) by (auto simp: perm_range_length)
  have "split3 a k c b p ys"
    by (rule split3_left [OF assms(1) conjunct2 [OF assms(6)] assms(3)]) (use assms in linarith)
  then have p: "split3 a k c b p zs"
    by (rule split3_right [OF _ conjunct2 [OF assms(7)] assms(3)]) (use assms(5) len in simp)
  have l: "sorted_range lt a k zs"
    by (rule sorted_range_same [OF conjunct1 [OF assms(6)]])
      (rule perm_range_outside [OF conjunct2 [OF assms(7)]], use assms(3) in linarith)
  show "sorted_range lt a b zs" by (rule split3_sorted [OF p assms(3) l conjunct1 [OF assms(7)]])
  show "perm_range a b xs zs"
    using perm_range_mono [of a k xs ys a b] perm_range_mono [of c b ys zs a b] assms(2-4,6,7)
    by (auto intro: perm_range_trans)
qed

lemma sides_sorted':
  assumes "split3 a k c b p xs" "a \<le> k" "k < c" "c \<le> b" "b \<le> length xs"
    and "sorted_range lt c b ys \<and> perm_range c b xs ys" "sorted_range lt a k zs \<and> perm_range a k ys zs"
  shows "sorted_range lt a b zs \<and> perm_range a b xs zs"
proof
  have len: "length ys = length xs" using assms(6) by (auto simp: perm_range_length)
  have "split3 a k c b p ys"
    by (rule split3_right [OF assms(1) conjunct2 [OF assms(6)] assms(3,5)])
  then have p: "split3 a k c b p zs"
    by (rule split3_left [OF _ conjunct2 [OF assms(7)] assms(3)]) (use assms len in linarith)
  have r: "sorted_range lt c b zs"
    by (rule sorted_range_same [OF conjunct1 [OF assms(6)]])
      (rule perm_range_outside [OF conjunct2 [OF assms(7)]], use assms(3) in linarith)
  show "sorted_range lt a b zs" by (rule split3_sorted [OF p assms(3) conjunct1 [OF assms(7)] r])
  show "perm_range a b xs zs"
    using perm_range_mono [of c b xs ys a b] perm_range_mono [of a k ys zs a b] assms(2-4,6,7)
    by (auto intro: perm_range_trans)
qed

lemma shell_pass:
  assumes "b \<le> length xs"
  shows "perm_range a b xs
    (fold (\<lambda>i xs. if Less lt xs i (i - 6) then Swap i (i - 6) xs else xs) [a + 6..<b] xs)"
  using assms by (intro fold_perm_range [where n = "length xs"]) (auto intro!: perm_range_Swap)

lemma quickSort_short:
  assumes "a \<le> b" "b \<le> length xs" "\<not> b - a > 12"
  shows "sorted_range lt a b (quickSort lt a b d xs) \<and> perm_range a b xs (quickSort lt a b d xs)"
proof (cases "b - a > 1")
  case True
  let ?ys = "fold (\<lambda>i xs. if Less lt xs i (i - 6) then Swap i (i - 6) xs else xs) [a + 6..<b] xs"
  have "quickSort lt a b d xs = insertionSort lt a b ?ys"
    using assms(3) True by (simp add: quickSort.simps)
  moreover have p: "perm_range a b xs ?ys" by (rule shell_pass [OF assms(2)])
  moreover have "b \<le> length ?ys" using assms(2) perm_range_length [OF p] by simp
  ultimately show ?thesis using insertionSort_correct [of b ?ys a] by (auto intro: perm_range_trans)
next
  case False
  then show ?thesis using assms(3) by (simp add: quickSort.simps)
qed

lemma quickSort_correct:
  assumes "a \<le> b" "b \<le> length xs"
  shows "sorted_range lt a b (quickSort lt a b d xs) \<and> perm_range a b xs (quickSort lt a b d xs)"
  using assms
proof (induction d arbitrary: a b xs)
  case (0 a b xs)
  show ?case
  proof (cases "b - a > 12")
    case True
    then have "quickSort lt a b 0 xs = heapSort lt a b xs" by (simp add: quickSort.simps)
    then show ?thesis using heapSort_correct [OF 0] by simp
  qed (rule quickSort_short [OF 0])
next
  case (Suc d a b xs)
  show ?case
  proof (cases "b - a > 12")
    case True
    then have "a + 12 < b" by linarith
    then obtain k c ys p where d: "doPivot lt a b xs = (k, c, ys)" "a \<le> k" "k < c" "c \<le> b"
      "perm_range a b xs ys" "split3 a k c b p ys"
      using doPivot_correct [of a b xs] Suc.prems(2) by blast
    have len: "length ys = length xs" using d(5) by (rule perm_range_length)
    have l: "sorted_range lt a k (quickSort lt a k d us) \<and> perm_range a k us (quickSort lt a k d us)"
      if "length us = length xs" for us
      using d Suc.prems that by (intro Suc.IH) linarith+
    have r: "sorted_range lt c b (quickSort lt c b d us) \<and> perm_range c b us (quickSort lt c b d us)"
      if "length us = length xs" for us
      using d Suc.prems that by (intro Suc.IH) linarith+
    note side = d(6,2,3,4) Suc.prems(2) [folded len]
    let ?l = "quickSort lt a k d ys" and ?r = "quickSort lt c b d ys"
    have len': "length ?l = length xs" "length ?r = length xs"
      using l [OF len] r [OF len] len by (auto simp: perm_range_length)
    have "quickSort lt a b (Suc d) xs
      = (if k - a < b - c then quickSort lt c b d ?l else quickSort lt a k d ?r)"
      using True d(1) by (subst quickSort.simps) (simp add: Let_def)
    then show ?thesis
      using sides_sorted [OF side l [OF len] r [OF len'(1)]]
        sides_sorted' [OF side r [OF len] l [OF len'(2)]] d(5)
      by (auto intro: perm_range_trans)
  qed (rule quickSort_short [OF Suc.prems])
qed

text \<open>A list is sorted when neighbours are in order.\<close>

lemma IsSorted_correct: "IsSorted lt xs = sorted_range lt 0 (length xs) xs"
proof
  assume "IsSorted lt xs"
  then have n: "\<not> lt (xs ! Suc i) (xs ! i)" if "Suc i < length xs" for i
    using that by (force simp: IsSorted_def list_all_iff Less_def)
  have "\<not> lt (xs ! (i + Suc k)) (xs ! i)" if "i + Suc k < length xs" for i k
    using that
  proof (induction k)
    case (Suc k)
    with n [of "i + Suc k"] neg_trans [of "xs ! (i + Suc (Suc k))" "xs ! (i + Suc k)" "xs ! i"]
    show ?case by simp
  qed (use n in simp)
  then show "sorted_range lt 0 (length xs) xs"
    unfolding sorted_range_def by (metis less_imp_Suc_add add_Suc_right)
next
  assume "sorted_range lt 0 (length xs) xs"
  then show "IsSorted lt xs" by (auto simp: IsSorted_def list_all_iff Less_def sorted_range_def)
qed

lemma Sort_correct: "sorted_range lt 0 (length xs) (Sort lt xs) \<and> perm_range 0 (length xs) xs (Sort lt xs)"
  unfolding Sort_def Let_def by (rule quickSort_correct) simp_all

end

section \<open>Properties\<close>

text \<open>
  C21: For every order (\<open>Less\<close> a strict weak order), \<open>sort.Sort\<close> returns the elements it was given,
  each as often, and no element of the result is less than one before it.
\<close>

theorem Sort_sorts:
  assumes "less_order lt"
  shows "sorted_range lt 0 (length xs) (Sort lt xs) \<and> mset (Sort lt xs) = mset xs"
  using less_order.Sort_correct [OF assms, of xs] by (simp add: perm_range_def)

theorem Sort_sorts_witness:
  "sorted_range int_less 0 (length [2, 3, 1 :: int]) (Sort int_less [2, 3, 1::int]) \<and> mset (Sort int_less [2, 3, 1]) = mset [2, 3, 1]"
  by (rule Sort_sorts [OF int_order.less_order_axioms])

lemma sorted_range_int: "sorted_range int_less 0 (length xs) xs \<longleftrightarrow> sorted xs"
proof
  assume s: "sorted_range int_less 0 (length xs) xs"
  show "sorted xs" unfolding sorted_iff_nth_mono_less
  proof (intro allI impI)
    fix i j assume "i < j" "j < length xs"
    with s show "xs ! i \<le> xs ! j" by (simp add: sorted_range_def int_less_def not_less)
  qed
next
  assume "sorted xs"
  then show "sorted_range int_less 0 (length xs) xs"
    by (simp add: sorted_range_def int_less_def not_less sorted_iff_nth_mono_less)
qed

lemma Ints_sort: "Ints xs = sort xs"
proof (rule properties_for_sort [symmetric])
  note s = int_order.Sort_correct [of xs]
  then show m: "mset (Ints xs) = mset xs" by (simp add: Ints_def perm_range_def)
  have "length (Ints xs) = length xs" using m by (rule mset_eq_length)
  with s show "sorted (Ints xs)" by (simp add: Ints_def flip: sorted_range_int)
qed

lemma filter_takeWhile_sorted: "sorted ys \<Longrightarrow> takeWhile (\<lambda>y. y < x) ys = filter (\<lambda>y. y < x) ys" for x :: int
  by (induction ys) (auto intro!: filter_False [symmetric])

text \<open>
  \<open>sort.Ints\<close> computes exactly the reference sort of the library: its result is the list \<open>sort xs\<close>.
\<close>

theorem Ints_eq_sort: "Ints xs = sort xs"
  by (rule Ints_sort)

text \<open>
  \<open>sort.IsSorted\<close>, which looks at neighbours only, decides that no element is less than any
  element before it, for every order; in particular it accepts what \<open>sort.Sort\<close> returns.
\<close>

theorem IsSorted_decides:
  assumes "less_order lt"
  shows "IsSorted lt xs = sorted_range lt 0 (length xs) xs"
  by (rule less_order.IsSorted_correct [OF assms])

theorem IsSorted_decides_witness: "IsSorted int_less [1, 2, 2] = sorted_range int_less 0 (length [1, 2, 2 :: int]) [1, 2, 2]"
  by (rule IsSorted_decides [OF int_order.less_order_axioms])

text \<open>The loop of \<open>Search\<close> keeps \<open>f\<close> false below \<open>i\<close> and true from \<open>j\<close> on.\<close>

lemma search_loop_spec:
  assumes mono: "\<And>i j. i \<le> j \<Longrightarrow> j < n \<Longrightarrow> f i \<Longrightarrow> f j"
  shows "i \<le> j \<Longrightarrow> j \<le> n \<Longrightarrow> (\<And>k. k < i \<Longrightarrow> \<not> f k) \<Longrightarrow> (\<And>k. j \<le> k \<Longrightarrow> k < n \<Longrightarrow> f k) \<Longrightarrow>
    search_loop f i j \<le> n \<and> (\<forall>k < search_loop f i j. \<not> f k)
    \<and> (\<forall>k. search_loop f i j \<le> k \<and> k < n \<longrightarrow> f k)"
proof (induction "j - i" arbitrary: i j rule: less_induct)
  case less
  define h where "h = (i + j) div 2"
  let ?P = "\<lambda>r. r \<le> n \<and> (\<forall>k < r. \<not> f k) \<and> (\<forall>k. r \<le> k \<and> k < n \<longrightarrow> f k)"
  have unf: "search_loop f i j
      = (if i < j then if \<not> f h then search_loop f (h + 1) j else search_loop f i h else i)"
    by (subst search_loop.simps) (simp add: Let_def h_def)
  show ?case
  proof (cases "i < j")
    case True
    then have h: "i \<le> h" "h < j" by (auto simp: h_def)
    show ?thesis
    proof (cases "f h")
      case t: True
      have "f k" if "h \<le> k" "k < n" for k using mono that t by blast
      then have "?P (search_loop f i h)"
        by (intro less.hyps less.prems(3)) (use h less.prems(2) in linarith)+
      then show ?thesis using True t by (simp add: unf)
    next
      case f: False
      have "\<not> f k" if "k < h + 1" for k using mono [of k h] that f h less.prems(2) by auto
      then have "?P (search_loop f (h + 1) j)"
        by (intro less.hyps less.prems(4)) (use h less.prems(2) in linarith)+
      then show ?thesis using True f by (simp add: unf)
    qed
  next
    case False
    then have "search_loop f i j = i" by (simp add: unf)
    then show ?thesis using less.prems False by simp
  qed
qed

lemma Search_scan_aux:
  assumes "\<And>i j. i \<le> j \<Longrightarrow> j < n \<Longrightarrow> f i \<Longrightarrow> f j"
  shows "Search n f = length (takeWhile (\<lambda>i. \<not> f i) [0..<n])"
proof -
  define r where "r = Search n f"
  have s: "r \<le> n \<and> (\<forall>k < r. \<not> f k) \<and> (\<forall>k. r \<le> k \<and> k < n \<longrightarrow> f k)"
    unfolding r_def Search_def by (rule search_loop_spec [OF assms]) auto
  have "[0..<n] = [0..<r] @ [r..<n]"
    using s upt_add_eq_append [of 0 r "n - r"] by simp
  moreover have "takeWhile (\<lambda>i. \<not> f i) ([0..<r] @ [r..<n]) = [0..<r] @ takeWhile (\<lambda>i. \<not> f i) [r..<n]"
    using s by (intro takeWhile_append2) auto
  moreover have "takeWhile (\<lambda>i. \<not> f i) [r..<n] = []"
    using s by (cases "r < n") (auto simp: upt_conv_Cons)
  ultimately show ?thesis by (simp flip: r_def)
qed

text \<open>
  For a predicate that stays true once it is true, the binary search \<open>sort.Search\<close> returns what
  a scan from the front returns: the first index below \<open>n\<close> where the predicate is true, else \<open>n\<close>.
\<close>

theorem Search_scan:
  assumes "\<And>i j. i \<le> j \<Longrightarrow> j < n \<Longrightarrow> f i \<Longrightarrow> f j"
  shows "Search n f = length (takeWhile (\<lambda>i. \<not> f i) [0..<n])"
  by (rule Search_scan_aux) (rule assms)

theorem Search_scan_witness: "Search 4 (\<lambda>i. i \<ge> 3) = length (takeWhile (\<lambda>i. \<not> i \<ge> 3) [0..<4 :: nat])"
  by (rule Search_scan) simp

text \<open>In a list sorted by \<open>sort.Ints\<close>, \<open>sort.SearchInts\<close> returns the number of smaller elements.\<close>

theorem SearchInts_Ints: "SearchInts (Ints xs) x = length (filter (\<lambda>y. y < x) xs)"
proof -
  let ?ys = "Ints xs"
  have s: "sorted ?ys" "mset ?ys = mset xs" by (simp_all add: Ints_sort)
  have "SearchInts ?ys x = length (takeWhile (\<lambda>i. \<not> x \<le> ?ys ! i) [0..<length ?ys])"
    unfolding SearchInts_def
    using s(1) by (intro Search_scan_aux) (auto simp: sorted_iff_nth_mono intro: order_trans)
  also have "\<dots> = length (map ((!) ?ys) (takeWhile (\<lambda>i. \<not> x \<le> ?ys ! i) [0..<length ?ys]))"
    by simp
  also have "map ((!) ?ys) (takeWhile (\<lambda>i. \<not> x \<le> ?ys ! i) [0..<length ?ys])
      = takeWhile (\<lambda>y. y < x) (map ((!) ?ys) [0..<length ?ys])"
    by (simp add: takeWhile_map comp_def not_le)
  also have "\<dots> = takeWhile (\<lambda>y. y < x) ?ys" by (simp add: map_nth)
  also have "\<dots> = filter (\<lambda>y. y < x) ?ys"
    by (rule filter_takeWhile_sorted [OF s(1)])
  also have "length \<dots> = length (filter (\<lambda>y. y < x) xs)"
    using s(2) by (metis mset_filter size_mset)
  finally show ?thesis .
qed

end
