(* ===== verification/StableSort.thy ===== *)
theory StableSort
  imports Sort
begin

text \<open>
  \<open>sort.Stable\<close> (\<open>sort/sort.go\<close>): insertion sort on blocks of 20 elements, then passes that merge neighbouring
  blocks in place with the SymMerge algorithm, whose recursive step finds by binary search which two inner
  blocks to exchange and rotates them by swapping ranges.

  The loops that do not return on every input (the rotation of an empty block) are partial functions: \<open>None\<close>
  means that the code runs for ever. Sorting is stable because every step only exchanges two neighbouring blocks
  in which each element of the right one is less than each of the left one.
\<close>

section \<open>The code\<close>

definition swapRange :: "nat \<Rightarrow> nat \<Rightarrow> nat \<Rightarrow> 'a list \<Rightarrow> 'a list" where
  "swapRange a b n xs = fold (\<lambda>i. Swap (a + i) (b + i)) [0..<n] xs"

partial_function (option) rotate_loop :: "nat \<Rightarrow> nat \<Rightarrow> nat \<Rightarrow> 'a list \<Rightarrow> 'a list option" where
  "rotate_loop m i j xs =
     (if i \<noteq> j then
        if i > j then rotate_loop m (i - j) j (swapRange (m - i) m j xs)
        else rotate_loop m i (j - i) (swapRange (m - i) (m + j - i) i xs)
      else Some (swapRange (m - i) m i xs))"

definition rotate :: "nat \<Rightarrow> nat \<Rightarrow> nat \<Rightarrow> 'a list \<Rightarrow> 'a list option" where
  "rotate a m b xs = (let i = m - a; j = b - m in rotate_loop m i j xs)"

lemma mid_left: "a < s \<Longrightarrow> s < (a + b) div 2 \<Longrightarrow> (a + b) div 2 - a < b - a" for a b s :: nat
  by linarith

lemma mid_right: "(a + b) div 2 < e \<Longrightarrow> e < b \<Longrightarrow> b - (a + b) div 2 < b - a" for a b e :: nat
  by linarith

text \<open>The binary searches of \<open>symMerge\<close> are those of \<open>Search\<close>: \<open>search_loop f i j\<close> with the negated test.\<close>

function symMerge :: "('a \<Rightarrow> 'a \<Rightarrow> bool) \<Rightarrow> nat \<Rightarrow> nat \<Rightarrow> nat \<Rightarrow> 'a list \<Rightarrow> 'a list option" where
  "symMerge lt a m b xs =
     (if m - a = 1 then
        let i = search_loop (\<lambda>h. \<not> Less lt xs h a) m b in
        Some (fold (\<lambda>k. Swap k (k + 1)) [a..<i - 1] xs)
      else if b - m = 1 then
        let i = search_loop (\<lambda>h. Less lt xs m h) a m in
        Some (fold (\<lambda>k. Swap k (k - 1)) (rev [i + 1..<m + 1]) xs)
      else
        let mid = (a + b) div 2;
            n = mid + m;
            (start, r) = (if m > mid then (n - b, mid) else (a, m));
            p = n - 1;
            start = search_loop (\<lambda>c. Less lt xs (p - c) c) start r;
            end = n - start
        in case (if start < m \<and> m < end then rotate start m end xs else Some xs) of
             None \<Rightarrow> None
           | Some xs \<Rightarrow>
               (case (if a < start \<and> start < mid then symMerge lt a start mid xs else Some xs) of
                  None \<Rightarrow> None
                | Some xs \<Rightarrow>
                    if mid < end \<and> end < b then symMerge lt mid end b xs else Some xs))"
  by pat_completeness auto
termination
proof (relation "measure (\<lambda>(lt, a, m, b, xs). b - a)", goal_cases)
  case 2
  then show ?case by (simp only: in_measure prod.case) (blast intro: mid_left)
next
  case 3
  then show ?case by (simp only: in_measure prod.case) (blast intro: mid_right)
qed (rule wf_measure)

declare symMerge.simps [simp del]

text \<open>Insertion sort on the blocks, then the passes; \<open>a\<close> and \<open>b\<close> bound the current block.\<close>

function block_loop :: "('a \<Rightarrow> 'a \<Rightarrow> bool) \<Rightarrow> nat \<Rightarrow> nat \<Rightarrow> nat \<Rightarrow> 'a list \<Rightarrow> 'a list" where
  "block_loop lt n a b xs =
     (if b \<le> n then block_loop lt n b (b + 20) (insertionSort lt a b xs) else insertionSort lt a n xs)"
  by pat_completeness auto
termination
  by (relation "measure (\<lambda>(lt, n, a, b, xs). Suc n - b)") auto

declare block_loop.simps [simp del]

partial_function (option) pass_loop ::
  "('a \<Rightarrow> 'a \<Rightarrow> bool) \<Rightarrow> nat \<Rightarrow> nat \<Rightarrow> nat \<Rightarrow> nat \<Rightarrow> 'a list \<Rightarrow> 'a list option" where
  "pass_loop lt blockSize n a b xs =
     (if b \<le> n then
        case symMerge lt a (a + blockSize) b xs of
          None \<Rightarrow> None
        | Some xs \<Rightarrow> pass_loop lt blockSize n b (b + 2 * blockSize) xs
      else
        let m = a + blockSize in if m < n then symMerge lt a m n xs else Some xs)"

partial_function (option) stable_loop :: "('a \<Rightarrow> 'a \<Rightarrow> bool) \<Rightarrow> nat \<Rightarrow> nat \<Rightarrow> 'a list \<Rightarrow> 'a list option" where
  "stable_loop lt blockSize n xs =
     (if blockSize < n then
        case pass_loop lt blockSize n 0 (2 * blockSize) xs of
          None \<Rightarrow> None
        | Some xs \<Rightarrow> stable_loop lt (blockSize * 2) n xs
      else Some xs)"

definition stable :: "('a \<Rightarrow> 'a \<Rightarrow> bool) \<Rightarrow> nat \<Rightarrow> 'a list \<Rightarrow> 'a list option" where
  "stable lt n xs = (let blockSize = 20 in stable_loop lt blockSize n (block_loop lt n 0 blockSize xs))"

definition Stable :: "('a \<Rightarrow> 'a \<Rightarrow> bool) \<Rightarrow> 'a list \<Rightarrow> 'a list option" where
  "Stable lt xs = stable lt (length xs) xs"

section \<open>Exchanging blocks\<close>

lemma Swap_blocks: "Swap (length p) (length p + 1 + length q) (p @ [x] @ q @ [y] @ s) = p @ [y] @ q @ [x] @ s"
  by (simp add: Swap_def nth_append list_update_append)

lemma Swap_commute: "Swap i j xs = Swap j i xs"
  by (cases "i = j") (simp_all add: Swap_def list_update_swap)

lemma swapRange_blocks:
  assumes "length u = n" "length v = n" "a = length p" "b = length p + n + length q"
  shows "swapRange a b n (p @ u @ q @ v @ s) = p @ v @ q @ u @ s"
  using assms
proof (induction n arbitrary: u v q s b)
  case 0
  then show ?case by (simp add: swapRange_def)
next
  case (Suc n)
  obtain u' x v' y where uv: "u = u' @ [x]" "v = v' @ [y]" "length u' = n" "length v' = n"
    using Suc.prems(1,2) by (metis length_Suc_conv_rev)
  have "swapRange a b (Suc n) (p @ u @ q @ v @ s) =
      Swap (a + n) (b + n) (swapRange a b n (p @ u' @ ([x] @ q) @ v' @ ([y] @ s)))"
    by (simp add: swapRange_def uv)
  also have "swapRange a b n (p @ u' @ ([x] @ q) @ v' @ ([y] @ s)) = p @ v' @ ([x] @ q) @ u' @ ([y] @ s)"
    using Suc.prems uv by (intro Suc.IH) simp_all
  also have "Swap (a + n) (b + n) \<dots> = p @ v' @ [y] @ q @ u' @ [x] @ s"
    using Swap_blocks [of "p @ v'" "q @ u'" x y s] Suc.prems uv by (simp add: ac_simps)
  finally show ?case by (simp add: uv)
qed

lemma rotate_loop_blocks:
  "length u = i \<Longrightarrow> length v = j \<Longrightarrow> 0 < i \<Longrightarrow> 0 < j \<Longrightarrow> length p + i = m \<Longrightarrow>
    rotate_loop m i j (p @ u @ v @ s) = Some (p @ v @ u @ s)"
proof (induction "i + j" arbitrary: i j u v p s rule: less_induct)
  case less
  consider "i = j" | "j < i" | "i < j" by linarith
  then show ?case
  proof cases
    case 1
    have "swapRange (m - i) m i (p @ u @ [] @ v @ s) = p @ v @ [] @ u @ s"
      using less.prems 1 by (intro swapRange_blocks) auto
    then show ?thesis using 1 by (subst rotate_loop.simps) simp
  next
    case 2
    obtain u1 u2 where u: "u = u1 @ u2" "length u1 = j" "length u2 = i - j"
      using less.prems(1) 2 by (metis append_take_drop_id length_drop length_take less_imp_le min.absorb2)
    have "swapRange (m - i) m j (p @ u1 @ u2 @ v @ s) = p @ v @ u2 @ u1 @ s"
      using less.prems u 2 by (intro swapRange_blocks) auto
    moreover have "rotate_loop m (i - j) j ((p @ v) @ u2 @ u1 @ s) = Some ((p @ v) @ u1 @ u2 @ s)"
      using less.prems u 2 by (intro less.hyps) auto
    ultimately show ?thesis using 2 u(1) by (subst rotate_loop.simps) simp
  next
    case 3
    obtain v1 v2 where v: "v = v1 @ v2" "length v1 = j - i" "length v2 = i"
      using less.prems(2) 3 by (metis append_take_drop_id diff_diff_cancel diff_le_self length_drop length_take less_imp_le min.absorb2)
    have "swapRange (m - i) (m + j - i) i (p @ u @ v1 @ v2 @ s) = p @ v2 @ v1 @ u @ s"
      using less.prems v 3 by (intro swapRange_blocks) auto
    moreover have "rotate_loop m i (j - i) (p @ v2 @ v1 @ (u @ s)) = Some (p @ v1 @ v2 @ (u @ s))"
      using less.prems v 3 by (intro less.hyps) auto
    ultimately show ?thesis using 3 v(1) by (subst rotate_loop.simps) simp
  qed
qed

text \<open>The exchange of the neighbouring ranges \<open>a..m\<close> and \<open>m..b\<close>.\<close>

definition exchanged :: "nat \<Rightarrow> nat \<Rightarrow> nat \<Rightarrow> 'a list \<Rightarrow> 'a list" where
  "exchanged a m b xs = take a xs @ take (b - m) (drop m xs) @ take (m - a) (drop a xs) @ drop b xs"

lemma split_range:
  "a \<le> m \<Longrightarrow> m \<le> b \<Longrightarrow> b \<le> length xs \<Longrightarrow>
    xs = take a xs @ take (m - a) (drop a xs) @ take (b - m) (drop m xs) @ drop b xs"
  by (metis append_take_drop_id drop_drop le_add_diff_inverse2)

lemma rotate_exchanged:
  assumes "a < m" "m < b" "b \<le> length xs"
  shows "rotate a m b xs = Some (exchanged a m b xs)"
proof -
  have e1: "rotate_loop m (m - a) (b - m) (take a xs @ take (m - a) (drop a xs) @ take (b - m) (drop m xs) @ drop b xs)
      = Some (exchanged a m b xs)"
    unfolding exchanged_def using assms by (intro rotate_loop_blocks) simp_all
  have e2: "take a xs @ take (m - a) (drop a xs) @ take (b - m) (drop m xs) @ drop b xs = xs"
    using assms by (intro split_range [symmetric]) simp_all
  show ?thesis unfolding rotate_def Let_def using e1 unfolding e2 .
qed

lemma nth_exchanged:
  assumes "a \<le> m" "m \<le> b" "b \<le> length xs" "k < length xs"
  shows "exchanged a m b xs ! k =
    (if k < a \<or> b \<le> k then xs ! k else if k < a + (b - m) then xs ! (m + (k - a)) else xs ! (k - (b - m)))"
proof -
  define p v u where "p = take a xs" and "v = take (b - m) (drop m xs)" and "u = take (m - a) (drop a xs)"
  have l: "length p = a" "length v = b - m" "length u = m - a" using assms by (simp_all add: p_def v_def u_def)
  have e: "exchanged a m b xs = p @ v @ u @ drop b xs" by (simp add: exchanged_def p_def v_def u_def)
  consider "k < a" | "a \<le> k" "k < a + (b - m)" | "a + (b - m) \<le> k" "k < b" | "b \<le> k" by linarith
  then show ?thesis
  proof cases
    case 1
    then show ?thesis using l by (simp add: e nth_append) (simp add: p_def)
  next
    case 2
    then have "k - a < b - m" "k < b" using assms by linarith+
    then show ?thesis using 2 l assms by (simp add: e nth_append) (simp add: v_def)
  next
    case 3
    then have c: "\<not> k < a" "\<not> k - a < b - m" "k - a - (b - m) < m - a" and k: "a + (k - a - (b - m)) = k - (b - m)"
      and g: "\<not> (k < a \<or> b \<le> k)" "\<not> k < a + (b - m)"
      using assms by linarith+
    have "exchanged a m b xs ! k = u ! (k - a - (b - m))" by (simp only: e nth_append l c if_True if_False)
    also have "\<dots> = xs ! (k - (b - m))" using c(3) assms k by (simp add: u_def)
    finally show ?thesis by (simp only: g if_False)
  next
    case 4
    then have c: "\<not> k < a" "\<not> k - a < b - m" "\<not> k - a - (b - m) < m - a" and k: "k - a - (b - m) - (m - a) = k - b"
      using assms by linarith+
    have "exchanged a m b xs ! k = drop b xs ! (k - a - (b - m) - (m - a))"
      by (simp only: e nth_append l c if_False)
    also have "\<dots> = xs ! k" unfolding k using 4 assms by simp
    finally show ?thesis using 4 by simp
  qed
qed

lemma length_exchanged: "a \<le> m \<Longrightarrow> m \<le> b \<Longrightarrow> b \<le> length xs \<Longrightarrow> length (exchanged a m b xs) = length xs"
  by (simp add: exchanged_def)

lemma shift_up_blocks:
  "fold (\<lambda>k. Swap k (k + 1)) [length p..<length p + length v] (p @ [x] @ v @ s) = p @ v @ [x] @ s"
proof (induction v arbitrary: p)
  case (Cons y v)
  have "Swap (length p) (length p + 1) (p @ [x] @ (y # v) @ s) = (p @ [y]) @ [x] @ v @ s"
    using Swap_blocks [of p "[]" x y "v @ s"] by simp
  then show ?case using Cons.IH [of "p @ [y]"] by (simp add: upt_conv_Cons del: upt_Suc)
qed simp

lemma shift_down_blocks:
  "fold (\<lambda>k. Swap k (k - 1)) (rev [length p + 1..<length p + length v + 1]) (p @ v @ [x] @ s) = p @ [x] @ v @ s"
proof (induction v arbitrary: s rule: rev_induct)
  case (snoc y v)
  let ?n = "length p + length v"
  have "Swap (?n + 1) ?n (p @ (v @ [y]) @ [x] @ s) = p @ v @ [x] @ ([y] @ s)"
    by (rule trans [OF Swap_commute]) (use Swap_blocks [of "p @ v" "[]" y x s] in simp)
  then show ?case using snoc.IH [of "[y] @ s"] by simp
qed simp

lemma shift_up: "a < i \<Longrightarrow> i \<le> length xs \<Longrightarrow> fold (\<lambda>k. Swap k (k + 1)) [a..<i - 1] xs = exchanged a (a + 1) i xs"
proof -
  assume a: "a < i" "i \<le> length xs"
  have x: "take (a + 1 - a) (drop a xs) = [xs ! a]" using a by (simp add: take_Suc_conv_app_nth)
  have e2: "take a xs @ [xs ! a] @ take (i - (a + 1)) (drop (a + 1) xs) @ drop i xs = xs"
    using split_range [of a "a + 1" i xs] a unfolding x by simp
  have l: "length (take a xs) = a" "a + length (take (i - (a + 1)) (drop (a + 1) xs)) = i - 1" using a by simp_all
  show ?thesis
    using shift_up_blocks [of "take a xs" "take (i - (a + 1)) (drop (a + 1) xs)" "xs ! a" "drop i xs"]
    unfolding e2 l exchanged_def x .
qed

lemma shift_down: "i \<le> m \<Longrightarrow> m < length xs \<Longrightarrow>
  fold (\<lambda>k. Swap k (k - 1)) (rev [i + 1..<m + 1]) xs = exchanged i m (m + 1) xs"
proof -
  assume a: "i \<le> m" "m < length xs"
  have x: "take (m + 1 - m) (drop m xs) = [xs ! m]" using a by (simp add: take_Suc_conv_app_nth)
  have e2: "take i xs @ take (m - i) (drop i xs) @ [xs ! m] @ drop (m + 1) xs = xs"
    using split_range [of i m "m + 1" xs] a unfolding x by simp
  have l: "length (take i xs) = i" "i + length (take (m - i) (drop i xs)) + 1 = m + 1" using a by simp_all
  show ?thesis
    using shift_down_blocks [of "take i xs" "take (m - i) (drop i xs)" "xs ! m" "drop (m + 1) xs"]
    unfolding e2 l exchanged_def x .
qed

section \<open>Stability\<close>

definition same_class :: "('a \<Rightarrow> 'a \<Rightarrow> bool) \<Rightarrow> 'a \<Rightarrow> 'a \<Rightarrow> bool" where
  "same_class lt z x \<longleftrightarrow> \<not> lt x z \<and> \<not> lt z x"

definition stable_range :: "('a \<Rightarrow> 'a \<Rightarrow> bool) \<Rightarrow> nat \<Rightarrow> nat \<Rightarrow> 'a list \<Rightarrow> 'a list \<Rightarrow> bool" where
  "stable_range lt a b xs ys \<longleftrightarrow>
     perm_range a b xs ys \<and> (\<forall>z. filter (same_class lt z) ys = filter (same_class lt z) xs)"

lemma stable_range_refl [simp]: "stable_range lt a b xs xs"
  by (simp add: stable_range_def)

lemma stable_range_trans [trans]:
  "stable_range lt a b xs ys \<Longrightarrow> stable_range lt a b ys zs \<Longrightarrow> stable_range lt a b xs zs"
  by (auto simp: stable_range_def intro: perm_range_trans)

lemma stable_range_mono: "stable_range lt a b xs ys \<Longrightarrow> a' \<le> a \<Longrightarrow> b \<le> b' \<Longrightarrow> stable_range lt a' b' xs ys"
  by (auto simp: stable_range_def intro: perm_range_mono)

lemma stable_range_perm: "stable_range lt a b xs ys \<Longrightarrow> perm_range a b xs ys"
  by (simp add: stable_range_def)

lemmas stable_length = perm_range_length [OF stable_range_perm]
  and stable_outside = perm_range_outside [OF stable_range_perm]

lemma exchanged_perm:
  assumes "a \<le> m" "m \<le> b" "b \<le> length xs"
  shows "perm_range a b xs (exchanged a m b xs)"
proof -
  have "mset (exchanged a m b xs) = mset xs"
    using arg_cong [OF split_range [OF assms], of mset] by (simp add: exchanged_def ac_simps)
  then show ?thesis using assms nth_exchanged [OF assms] length_exchanged [OF assms]
    by (auto simp: perm_range_def exchanged_def nth_append)
qed

lemma search_loop_range:
  assumes "i \<le> j" "\<And>k l. i \<le> k \<Longrightarrow> k \<le> l \<Longrightarrow> l < j \<Longrightarrow> f k \<Longrightarrow> f l"
  shows "i \<le> search_loop f i j \<and> search_loop f i j \<le> j
    \<and> (\<forall>k. i \<le> k \<and> k < search_loop f i j \<longrightarrow> \<not> f k) \<and> (\<forall>k. search_loop f i j \<le> k \<and> k < j \<longrightarrow> f k)"
  using assms
proof (induction "j - i" arbitrary: i j rule: less_induct)
  case less
  define h where "h = (i + j) div 2"
  let ?P = "\<lambda>i j r. i \<le> r \<and> r \<le> j \<and> (\<forall>k. i \<le> k \<and> k < r \<longrightarrow> \<not> f k) \<and> (\<forall>k. r \<le> k \<and> k < j \<longrightarrow> f k)"
  have unf: "search_loop f i j
      = (if i < j then if \<not> f h then search_loop f (h + 1) j else search_loop f i h else i)"
    by (subst search_loop.simps) (simp add: Let_def h_def)
  show ?case
  proof (cases "i < j")
    case True
    then have h: "i \<le> h" "h < j" by (auto simp: h_def)
    show ?thesis
    proof (cases "f h")
      case t: True
      have "?P i h (search_loop f i h)" using h by (intro less.hyps) (auto intro: less.prems(2))
      moreover have "f k" if "h \<le> k" "k < j" for k using less.prems(2) [of h k] h that t by blast
      ultimately show ?thesis using True t h by (auto simp: unf not_le) (metis not_le)
    next
      case f: False
      have "?P (h + 1) j (search_loop f (h + 1) j)"
      proof (rule less.hyps)
        show "j - (h + 1) < j - i" "h + 1 \<le> j" using h by linarith+
        show "f l" if "h + 1 \<le> k" "k \<le> l" "l < j" "f k" for k l using less.prems(2) [of k l] h that by linarith
      qed
      moreover have "\<not> f k" if "i \<le> k" "k \<le> h" for k using less.prems(2) [of k h] h that f by blast
      ultimately show ?thesis using True f h by (auto simp: unf) (metis Suc_le_eq not_le)
    qed
  next
    case False
    then have "search_loop f i j = i" by (simp add: unf)
    then show ?thesis using less.prems(1) False by auto
  qed
qed

context less_order begin

lemma exchanged_stable:
  assumes r: "a \<le> m" "m \<le> b" "b \<le> length xs"
    and strict: "\<And>i j. a \<le> i \<Longrightarrow> i < m \<Longrightarrow> m \<le> j \<Longrightarrow> j < b \<Longrightarrow> lt (xs ! j) (xs ! i)"
  shows "stable_range lt a b xs (exchanged a m b xs)"
proof -
  let ?u = "take (m - a) (drop a xs)" and ?v = "take (b - m) (drop m xs)"
  have u: "set ?u = {xs ! i | i. a \<le> i \<and> i < m}" and v: "set ?v = {xs ! i | i. m \<le> i \<and> i < b}"
    using r by (intro set_slice; simp)+
  have "filter (same_class lt z) (exchanged a m b xs) = filter (same_class lt z) xs" for z
  proof -
    have "\<not> lt y x" if "same_class lt z x" "same_class lt z y" for x y
      using that neg_trans [of y z x] by (simp add: same_class_def)
    moreover have "lt y x" if "x \<in> set ?u" "y \<in> set ?v" for x y
      using that strict unfolding u v by blast
    ultimately have "filter (same_class lt z) ?u = [] \<or> filter (same_class lt z) ?v = []"
      unfolding filter_empty_conv by blast
    moreover have "filter (same_class lt z) xs = filter (same_class lt z) (take a xs) @ filter (same_class lt z) ?u
        @ filter (same_class lt z) ?v @ filter (same_class lt z) (drop b xs)"
      using arg_cong [OF split_range [OF r], of "filter (same_class lt z)"] by simp
    ultimately show ?thesis by (auto simp: exchanged_def)
  qed
  then show ?thesis using exchanged_perm [OF r] by (simp add: stable_range_def)
qed

lemma exchanged_stable_in:
  assumes "a' \<le> a" "a \<le> m" "m \<le> b" "b \<le> b'" "b \<le> length xs"
    and "\<And>i j. a \<le> i \<Longrightarrow> i < m \<Longrightarrow> m \<le> j \<Longrightarrow> j < b \<Longrightarrow> lt (xs ! j) (xs ! i)"
  shows "stable_range lt a' b' xs (exchanged a m b xs)"
  by (rule stable_range_mono [OF exchanged_stable [OF assms(2,3,5,6)] assms(1,4)])

lemma sorted_cross:
  assumes "sorted_range lt a m xs" "sorted_range lt m b xs"
    and "\<And>i j. a \<le> i \<Longrightarrow> i < m \<Longrightarrow> m \<le> j \<Longrightarrow> j < b \<Longrightarrow> \<not> lt (xs ! j) (xs ! i)"
  shows "sorted_range lt a b xs"
  unfolding sorted_range_def
proof (intro allI impI, elim conjE)
  fix i j assume ij: "a \<le> i" "i < j" "j < b"
  show "\<not> lt (xs ! j) (xs ! i)"
  proof (cases "j < m \<or> m \<le> i")
    case True
    then show ?thesis using assms(1,2) ij by (auto simp: sorted_range_def)
  qed (use assms(3) ij in auto)
qed

lemma insert_left:
  assumes "a < b" "b \<le> length xs" "sorted_range lt (a + 1) b xs"
  defines "i \<equiv> search_loop (\<lambda>h. \<not> Less lt xs h a) (a + 1) b"
  defines "ys \<equiv> fold (\<lambda>k. Swap k (k + 1)) [a..<i - 1] xs"
  shows "sorted_range lt a b ys \<and> stable_range lt a b xs ys"
proof -
  have s: "\<not> lt (xs ! l) (xs ! k)" if "a + 1 \<le> k" "k < l" "l < b" for k l
    using that assms(3) by (simp add: sorted_range_def)
  have i: "a + 1 \<le> i" "i \<le> b" "\<And>k. a + 1 \<le> k \<Longrightarrow> k < i \<Longrightarrow> lt (xs ! k) (xs ! a)"
    "\<And>k. i \<le> k \<Longrightarrow> k < b \<Longrightarrow> \<not> lt (xs ! k) (xs ! a)"
  proof -
    have mono: "\<not> Less lt xs l a" if "a + 1 \<le> k" "k \<le> l" "l < b" "\<not> Less lt xs k a" for k l
      using that s [of k l] neg_trans [of "xs ! l" "xs ! k" "xs ! a"] by (cases "k = l") (auto simp: Less_def)
    have r: "a + 1 \<le> i \<and> i \<le> b \<and> (\<forall>k. a + 1 \<le> k \<and> k < i \<longrightarrow> \<not> \<not> Less lt xs k a)
        \<and> (\<forall>k. i \<le> k \<and> k < b \<longrightarrow> \<not> Less lt xs k a)"
      unfolding i_def by (rule search_loop_range) (use assms(1) in simp, rule mono)
    show "a + 1 \<le> i" "i \<le> b" using r assms(1) by auto
    show "lt (xs ! k) (xs ! a)" if "a + 1 \<le> k" "k < i" for k using r that assms(1) by (auto simp: Less_def)
    show "\<not> lt (xs ! k) (xs ! a)" if "i \<le> k" "k < b" for k using r that assms(1) by (auto simp: Less_def)
  qed
  have ys: "ys = exchanged a (a + 1) i xs"
    unfolding ys_def using i(1,2) assms(2) by (intro shift_up) simp_all
  obtain e where e: "i = e + 1" "a \<le> e" "e < b" using i(1,2) by (metis Suc_eq_plus1 Suc_le_eq Suc_le_D Suc_le_mono add.commute plus_1_eq_Suc)
  have nth: "ys ! k = (if k < a \<or> e < k then xs ! k else if k < e then xs ! (k + 1) else xs ! a)" if "k < b" for k
    using nth_exchanged [of a "a + 1" i xs k] e that assms(2) unfolding ys by (cases "k = e") auto
  have "sorted_range lt a b ys"
  proof (rule sorted_cross)
    show "sorted_range lt a e ys" using e s by (auto simp: sorted_range_def nth)
    show "sorted_range lt e b ys" using e i(4) s by (auto simp: sorted_range_def nth)
    show "\<not> lt (ys ! l) (ys ! k)" if "a \<le> k" "k < e" "e \<le> l" "l < b" for k l
      using that e i(3) [of "k + 1"] asym [of "xs ! (k + 1)" "xs ! a"] s [of "k + 1" l] by (auto simp: nth)
  qed
  moreover have "stable_range lt a b xs ys"
    unfolding ys
  proof (rule exchanged_stable_in)
    show "lt (xs ! l) (xs ! k)" if "a \<le> k" "k < a + 1" "a + 1 \<le> l" "l < i" for k l
    proof -
      have "k = a" using that by linarith
      then show ?thesis using i(3) [OF that(3,4)] by simp
    qed
  qed (use i(1,2) assms(2) in linarith)+
  ultimately show ?thesis by blast
qed

lemma insert_right:
  assumes "a \<le> m" "m < length xs" "sorted_range lt a m xs"
  defines "i \<equiv> search_loop (\<lambda>h. Less lt xs m h) a m"
  defines "ys \<equiv> fold (\<lambda>k. Swap k (k - 1)) (rev [i + 1..<m + 1]) xs"
  shows "sorted_range lt a (m + 1) ys \<and> stable_range lt a (m + 1) xs ys"
proof -
  have s: "\<not> lt (xs ! l) (xs ! k)" if "a \<le> k" "k < l" "l < m" for k l
    using that assms(3) by (simp add: sorted_range_def)
  have i: "a \<le> i" "i \<le> m" "\<And>k. a \<le> k \<Longrightarrow> k < i \<Longrightarrow> \<not> lt (xs ! m) (xs ! k)"
    "\<And>k. i \<le> k \<Longrightarrow> k < m \<Longrightarrow> lt (xs ! m) (xs ! k)"
  proof -
    have mono: "Less lt xs m l" if "a \<le> k" "k \<le> l" "l < m" "Less lt xs m k" for k l
      using that s [of k l] neg_trans [of "xs ! m" "xs ! l" "xs ! k"] by (cases "k = l") (auto simp: Less_def)
    have r: "a \<le> i \<and> i \<le> m \<and> (\<forall>k. a \<le> k \<and> k < i \<longrightarrow> \<not> Less lt xs m k) \<and> (\<forall>k. i \<le> k \<and> k < m \<longrightarrow> Less lt xs m k)"
      unfolding i_def by (rule search_loop_range) (use assms(1) in simp, rule mono)
    show "a \<le> i" "i \<le> m" using r assms(1) by auto
    show "\<not> lt (xs ! m) (xs ! k)" if "a \<le> k" "k < i" for k using r that assms(1) by (auto simp: Less_def)
    show "lt (xs ! m) (xs ! k)" if "i \<le> k" "k < m" for k using r that assms(1) by (auto simp: Less_def)
  qed
  have ys: "ys = exchanged i m (m + 1) xs"
    unfolding ys_def using i(2) assms(2) by (intro shift_down) simp_all
  have nth: "ys ! k = (if k < i then xs ! k else if k = i then xs ! m else xs ! (k - 1))" if "k < m + 1" for k
    using nth_exchanged [of i m "m + 1" xs k] i(1,2) that assms(2) unfolding ys by auto
  have "sorted_range lt a (m + 1) ys"
  proof (rule sorted_cross)
    show "sorted_range lt a i ys" using i(1,2) s by (auto simp: sorted_range_def nth)
    show "sorted_range lt i (m + 1) ys" using i s asym by (auto simp: sorted_range_def nth)
    show "\<not> lt (ys ! l) (ys ! k)" if "a \<le> k" "k < i" "i \<le> l" "l < m + 1" for k l
      using that i s by (auto simp: nth)
  qed
  moreover have "stable_range lt a (m + 1) xs ys"
    unfolding ys
  proof (rule exchanged_stable_in)
    show "lt (xs ! l) (xs ! k)" if "i \<le> k" "k < m" "m \<le> l" "l < m + 1" for k l
    proof -
      have "l = m" using that by linarith
      then show ?thesis using i(4) [OF that(1,2)] by simp
    qed
  qed (use i(1,2) assms(2) in linarith)+
  ultimately show ?thesis by blast
qed

text \<open>
  What the binary search of the recursive step finds. \<open>s0\<close> and \<open>r0\<close> are the bounds it starts with.
\<close>

lemma sym_search:
  assumes ab: "a < m" "m < b"
    and left: "sorted_range lt a m xs" and right: "sorted_range lt m b xs"
  defines "mid \<equiv> (a + b) div 2"
  defines "n \<equiv> mid + m"
  defines "s0 \<equiv> if m > mid then n - b else a" and "r0 \<equiv> if m > mid then mid else m"
  defines "start \<equiv> search_loop (\<lambda>c. Less lt xs (n - 1 - c) c) s0 r0"
  defines "e \<equiv> n - start"
  shows "a \<le> start" "start \<le> m" "start \<le> mid" "m \<le> e" "mid \<le> e" "e \<le> b" "start + (e - m) = mid" "e - (e - m) = m"
    and "start < m \<Longrightarrow> m < e \<Longrightarrow> lt (xs ! (e - 1)) (xs ! start)"
    and "a < start \<Longrightarrow> e < b \<Longrightarrow> \<not> lt (xs ! e) (xs ! (start - 1))"
proof -
  have mid: "2 * mid \<le> a + b" "a + b \<le> 2 * mid + 1" unfolding mid_def by linarith+
  have r: "a \<le> s0" "s0 \<le> r0" "r0 \<le> m" "r0 \<le> mid" "n \<le> s0 + b" "m \<le> n - r0" "n - r0 \<ge> mid" "n - s0 \<le> b" "r0 \<le> n"
    using ab mid by (auto simp: s0_def r0_def n_def split: if_splits)
  have inside: "a \<le> c \<and> c < m \<and> m \<le> n - 1 - c \<and> n - 1 - c < b" if "s0 \<le> c" "c < r0" for c
    using that r ab by linarith
  have mono: "Less lt xs (n - 1 - l) l" if "s0 \<le> k" "k \<le> l" "l < r0" "Less lt xs (n - 1 - k) k" for k l
  proof -
    have k: "a \<le> k" "k < m" "m \<le> n - 1 - k" "n - 1 - k < b" and l: "l < m" "m \<le> n - 1 - l"
      using inside [of k] inside [of l] that by auto
    have "\<not> lt (xs ! l) (xs ! k)"
      using left irrefl k(1) l(1) that(2) by (cases "k = l") (auto simp: sorted_range_def)
    moreover have "n - 1 - l \<le> n - 1 - k" using that(2) by linarith
    then have "\<not> lt (xs ! (n - 1 - k)) (xs ! (n - 1 - l))"
      using right irrefl k(4) l(2) by (cases "n - 1 - l = n - 1 - k") (auto simp: sorted_range_def)
    ultimately show ?thesis
      using that(4) neg_trans [of "xs ! (n - 1 - l)" "xs ! l" "xs ! k"] neg_trans [of "xs ! (n - 1 - k)" "xs ! (n - 1 - l)" "xs ! k"]
      unfolding Less_def by blast
  qed
  have st: "s0 \<le> start \<and> start \<le> r0 \<and> (\<forall>c. s0 \<le> c \<and> c < start \<longrightarrow> \<not> Less lt xs (n - 1 - c) c)
      \<and> (\<forall>c. start \<le> c \<and> c < r0 \<longrightarrow> Less lt xs (n - 1 - c) c)"
    unfolding start_def by (rule search_loop_range) (use r(2) in simp, rule mono)
  then have s: "s0 \<le> start" "start \<le> r0" by simp_all
  show "a \<le> start" "start \<le> m" "start \<le> mid" using s r by linarith+
  show b: "m \<le> e" "mid \<le> e" "e \<le> b" using s r unfolding e_def by linarith+
  show "start + (e - m) = mid" using \<open>start \<le> m\<close> \<open>m \<le> e\<close> \<open>start \<le> mid\<close> unfolding e_def n_def by linarith
  show "e - (e - m) = m" using b by linarith
  show "lt (xs ! (e - 1)) (xs ! start)" if "start < m" "m < e"
  proof -
    have "start < r0" using that s unfolding e_def n_def r0_def by (auto split: if_splits)
    then have "Less lt xs (n - 1 - start) start" using st by blast
    moreover have "n - 1 - start = e - 1" unfolding e_def by linarith
    ultimately show ?thesis by (simp add: Less_def)
  qed
  show "\<not> lt (xs ! e) (xs ! (start - 1))" if "a < start" "e < b"
  proof -
    have "s0 < start" using that s r unfolding e_def s0_def by (auto split: if_splits)
    then have "s0 \<le> start - 1" "start - 1 < start" by linarith+
    then have "\<not> Less lt xs (n - 1 - (start - 1)) (start - 1)" using st by blast
    moreover have "n - 1 - (start - 1) = e" using \<open>s0 < start\<close> unfolding e_def by linarith
    ultimately show ?thesis by (simp add: Less_def)
  qed
qed

text \<open>The four blocks after the rotation: each sorted, and the first two not greater than the others.\<close>

lemma sym_rotated:
  assumes ab: "a < m" "m < b" "b \<le> length xs"
    and left: "sorted_range lt a m xs" and right: "sorted_range lt m b xs"
    and st: "a \<le> start" "start \<le> m" "m \<le> e" "e \<le> b" "start + (e - m) = mid" "mid \<le> e" "e - (e - m) = m"
    and low: "start < m \<Longrightarrow> m < e \<Longrightarrow> lt (xs ! (e - 1)) (xs ! start)"
    and high: "a < start \<Longrightarrow> e < b \<Longrightarrow> \<not> lt (xs ! e) (xs ! (start - 1))"
  defines "zs \<equiv> exchanged start m e xs"
  shows "sorted_range lt a start zs" "sorted_range lt start mid zs" "sorted_range lt mid e zs" "sorted_range lt e b zs"
    and "stable_range lt a b xs zs"
    and "\<And>i j. a \<le> i \<Longrightarrow> i < mid \<Longrightarrow> mid \<le> j \<Longrightarrow> j < b \<Longrightarrow> \<not> lt (zs ! j) (zs ! i)"
proof -
  have l: "\<not> lt (xs ! j) (xs ! i)" if "a \<le> i" "i \<le> j" "j < m" for i j
    using left irrefl that by (cases "i = j") (auto simp: sorted_range_def)
  have r: "\<not> lt (xs ! j) (xs ! i)" if "m \<le> i" "i \<le> j" "j < b" for i j
    using right irrefl that by (cases "i = j") (auto simp: sorted_range_def)
  have nth: "zs ! k = (if k < start \<or> e \<le> k then xs ! k else if k < mid then xs ! (m + (k - start)) else xs ! (k - (e - m)))"
    if "k < b" for k
    using nth_exchanged [of start m e xs k] st ab that unfolding zs_def by simp
  have strict: "lt (xs ! j) (xs ! i)" if "start \<le> i" "i < m" "m \<le> j" "j < e" for i j
  proof -
    have "lt (xs ! (e - 1)) (xs ! start)" using low that by linarith
    moreover have "\<not> lt (xs ! i) (xs ! start)" "\<not> lt (xs ! (e - 1)) (xs ! j)"
      using l [of start i] r [of j "e - 1"] that st by auto
    ultimately show ?thesis using neg_trans [of "xs ! (e - 1)" "xs ! j" "xs ! i"] neg_trans [of "xs ! (e - 1)" "xs ! i" "xs ! start"]
      by blast
  qed
  show "sorted_range lt a start zs" "sorted_range lt start mid zs" "sorted_range lt mid e zs" "sorted_range lt e b zs"
  proof -
    have "\<not> lt (zs ! j) (zs ! i)" if "a \<le> i" "i < j" "j < start" for i j
      using that st ab l [of i j] by (simp add: nth)
    then show "sorted_range lt a start zs" by (simp add: sorted_range_def)
    have "\<not> lt (zs ! j) (zs ! i)" if "start \<le> i" "i < j" "j < mid" for i j
    proof -
      have "m \<le> m + (i - start)" "m + (i - start) \<le> m + (j - start)" "m + (j - start) < b" using that st by linarith+
      from r [OF this] show ?thesis using that st ab by (simp add: nth)
    qed
    then show "sorted_range lt start mid zs" by (simp add: sorted_range_def)
    have "\<not> lt (zs ! j) (zs ! i)" if "mid \<le> i" "i < j" "j < e" for i j
    proof -
      have "a \<le> i - (e - m)" "i - (e - m) \<le> j - (e - m)" "j - (e - m) < m" using that st by linarith+
      note le = l [OF this]
      have z: "zs ! i = xs ! (i - (e - m))" "zs ! j = xs ! (j - (e - m))"
        using nth [of i] nth [of j] that st by auto
      show ?thesis unfolding z by (rule le)
    qed
    then show "sorted_range lt mid e zs" by (simp add: sorted_range_def)
    have "\<not> lt (zs ! j) (zs ! i)" if "e \<le> i" "i < j" "j < b" for i j
      using that st ab r [of i j] by (simp add: nth)
    then show "sorted_range lt e b zs" by (simp add: sorted_range_def)
  qed
  show "stable_range lt a b xs zs"
    unfolding zs_def by (rule exchanged_stable_in [OF st(1-4)]) (use st ab strict in auto)
  show "\<not> lt (zs ! j) (zs ! i)" if ij: "a \<le> i" "i < mid" "mid \<le> j" "j < b" for i j
  proof -
    have zi: "zs ! i = (if i < start then xs ! i else xs ! (m + (i - start)))" using nth [of i] ij st by auto
    have zj: "zs ! j = (if j < e then xs ! (j - (e - m)) else xs ! j)" using nth [of j] ij st by auto
    consider "i < start" "j < e" | "i < start" "e \<le> j" | "start \<le> i" "j < e" | "start \<le> i" "e \<le> j" by linarith
    then show ?thesis
    proof cases
      case 1
      then have "i \<le> j - (e - m)" "j - (e - m) < m" using ij st by linarith+
      then show ?thesis using 1 l ij(1) by (simp add: zi zj)
    next
      case 2
      then have "\<not> lt (xs ! j) (xs ! e)" "\<not> lt (xs ! e) (xs ! (start - 1))" "\<not> lt (xs ! (start - 1)) (xs ! i)"
        using r [of e j] high l [of i "start - 1"] ij st by auto
      then have "\<not> lt (xs ! j) (xs ! i)" using neg_trans by blast
      then show ?thesis using 2 by (simp add: zi zj)
    next
      case 3
      then have "start \<le> j - (e - m)" "j - (e - m) < m" "m \<le> m + (i - start)" "m + (i - start) < e" using ij st by linarith+
      then show ?thesis using 3 asym [OF strict] by (simp add: zi zj)
    next
      case 4
      then have "m \<le> m + (i - start)" "m + (i - start) \<le> j" using ij st by linarith+
      then show ?thesis using 4 r ij(4) by (simp add: zi zj)
    qed
  qed
qed

lemma exchanged_empty: "a \<le> m \<Longrightarrow> m \<le> b \<Longrightarrow> b \<le> length xs \<Longrightarrow> a = m \<or> m = b \<Longrightarrow> exchanged a m b xs = xs"
  using split_range [symmetric, of a m b xs] by (auto simp: exchanged_def)

text \<open>A side that is already one sorted block is left alone, the other ones are merged.\<close>

lemma merge_side:
  assumes IH: "\<And>xs. a < m \<Longrightarrow> m < b \<Longrightarrow> b \<le> length xs \<Longrightarrow> sorted_range lt a m xs \<Longrightarrow> sorted_range lt m b xs \<Longrightarrow>
      \<exists>ys. symMerge lt a m b xs = Some ys \<and> sorted_range lt a b ys \<and> stable_range lt a b xs ys"
    and r: "a \<le> m" "m \<le> b" "b \<le> length xs" "sorted_range lt a m xs" "sorted_range lt m b xs"
  obtains ys where "(if a < m \<and> m < b then symMerge lt a m b xs else Some xs) = Some ys"
    "sorted_range lt a b ys" "stable_range lt a b xs ys"
proof (cases "a < m \<and> m < b")
  case True
  then show ?thesis using IH [of xs] r that by auto
next
  case False
  then have "a = m \<or> m = b" using r by auto
  then have "sorted_range lt a b xs" using r by auto
  then show ?thesis using that [of xs] False by auto
qed

lemma symMerge_correct:
  "a < m \<Longrightarrow> m < b \<Longrightarrow> b \<le> length xs \<Longrightarrow> sorted_range lt a m xs \<Longrightarrow> sorted_range lt m b xs \<Longrightarrow>
    \<exists>ys. symMerge lt a m b xs = Some ys \<and> sorted_range lt a b ys \<and> stable_range lt a b xs ys"
proof (induction "b - a" arbitrary: a m b xs rule: less_induct)
  case less
  note ab = less.prems(1-3) and left = less.prems(4) and right = less.prems(5)
  consider "m - a = 1" | "m - a \<noteq> 1" "b - m = 1" | "m - a \<noteq> 1" "b - m \<noteq> 1" by blast
  then show ?case
  proof cases
    case 1
    then have m: "m = a + 1" by linarith
    show ?thesis using insert_left [of a b xs] ab right unfolding m
      by (subst symMerge.simps) (simp add: Let_def)
  next
    case 2
    then have b: "b = m + 1" by linarith
    show ?thesis using insert_right [of a m xs] ab left 2(1) unfolding b
      by (subst symMerge.simps) (simp add: Let_def)
  next
    case 3
    define mid n where "mid = (a + b) div 2" and "n = mid + m"
    define s0 r0 where "s0 = (if m > mid then n - b else a)" and "r0 = (if m > mid then mid else m)"
    define start where "start = search_loop (\<lambda>c. Less lt xs (n - 1 - c) c) s0 r0"
    define e where "e = n - start"
    note st = sym_search [OF ab(1,2) left right, folded mid_def, folded n_def, folded s0_def r0_def,
        folded start_def, folded e_def]
    note rot = sym_rotated [OF ab left right st(1,2,4,6,7,5,8,9,10)]
    let ?zs = "exchanged start m e xs"
    have zs: "(if start < m \<and> m < e then rotate start m e xs else Some xs) = Some ?zs"
      using rotate_exchanged [of start m e xs] exchanged_empty [of start m e xs] st ab by auto
    have len: "length ?zs = length xs" using stable_length [OF rot(5)] .
    have lo: "a < start \<Longrightarrow> start < mid \<Longrightarrow> mid - a < b - a" unfolding mid_def by (rule mid_left)
    have hi: "mid < e \<Longrightarrow> e < b \<Longrightarrow> b - mid < b - a" unfolding mid_def by (rule mid_right)
    obtain ys1 where 1: "(if a < start \<and> start < mid then symMerge lt a start mid ?zs else Some ?zs) = Some ys1"
      "sorted_range lt a mid ys1" "stable_range lt a mid ?zs ys1"
      by (rule merge_side [of a start mid ?zs]) (use less.hyps lo st ab len rot(1,2) in auto)
    have same: "ys1 ! k = ?zs ! k" if "mid \<le> k" for k using stable_outside [OF 1(3), of k] that by simp
    have s1: "sorted_range lt mid e ys1" "sorted_range lt e b ys1"
      using rot(3,4) st same by (auto intro: sorted_range_same)
    obtain ys2 where 2: "(if mid < e \<and> e < b then symMerge lt mid e b ys1 else Some ys1) = Some ys2"
      "sorted_range lt mid b ys2" "stable_range lt mid b ys1 ys2"
      by (rule merge_side [of mid e b ys1]) (use less.hyps hi st ab len stable_length [OF 1(3)] s1 in auto)
    have pr: "(if mid < m then (n - b, mid) else (a, m)) = (s0, r0)" by (simp add: s0_def r0_def)
    have result: "symMerge lt a m b xs = Some ys2"
      by (simp only: symMerge.simps [of lt a m b xs] 3 if_False Let_def mid_def [symmetric] n_def [symmetric] pr prod.case
          start_def [symmetric] e_def [symmetric] zs option.case 1(1) 2(1))
    have "sorted_range lt a b ys2"
    proof (rule sorted_cross)
      show "sorted_range lt a mid ys2" using 1(2) stable_outside [OF 2(3)] by (rule sorted_range_same) simp
      show "sorted_range lt mid b ys2" by (rule 2(2))
      fix i j assume ij: "a \<le> i" "i < mid" "mid \<le> j" "j < b"
      have bl: "b \<le> length ys1" using stable_length [OF 1(3)] len ab by simp
      have "\<not> lt (ys1 ! j') (ys1 ! i)" if "mid \<le> j'" "j' < b" for j'
      proof (rule perm_range_all [OF stable_range_perm [OF 1(3)], where P = "\<lambda>x. \<not> lt (ys1 ! j') x"])
        show "mid \<le> length ?zs" using len ab st by linarith
        show "\<not> lt (ys1 ! j') (?zs ! k)" if "a \<le> k" "k < mid" for k
          unfolding same [OF \<open>mid \<le> j'\<close>] using rot(6) that \<open>mid \<le> j'\<close> \<open>j' < b\<close> by blast
      qed (use ij in auto)
      then have "\<not> lt (ys2 ! j) (ys1 ! i)"
        by (intro perm_range_all [OF stable_range_perm [OF 2(3)] bl, where P = "\<lambda>x. \<not> lt x (ys1 ! i)"]) (use ij in auto)
      then show "\<not> lt (ys2 ! j) (ys2 ! i)" using stable_outside [OF 2(3), of i] ij by simp
    qed
    moreover have "stable_range lt a b xs ys2"
    proof -
      have "stable_range lt a b ?zs ys1" "stable_range lt a b ys1 ys2"
        using stable_range_mono [OF 1(3), of a b] stable_range_mono [OF 2(3), of a b] st ab by auto
      then show ?thesis using rot(5) stable_range_trans by blast
    qed
    ultimately show ?thesis using result by blast
  qed
qed

section \<open>Insertion sort is stable\<close>

lemma Swap_exchanged: "Suc j < length xs \<Longrightarrow> Swap (Suc j) j xs = exchanged j (j + 1) (j + 2) xs"
  using shift_up [of j "j + 2" xs] Swap_commute [of "Suc j" j xs] by simp

lemma insert_loop_stable:
  "a \<le> j \<Longrightarrow> j < b \<Longrightarrow> b \<le> length xs \<Longrightarrow> stable_range lt a b xs (insert_loop lt a j xs)"
proof (induction j arbitrary: xs)
  case (Suc j)
  show ?case
  proof (cases "a < Suc j \<and> Less lt xs (Suc j) j")
    case True
    have "stable_range lt a b xs (Swap (Suc j) j xs)"
      unfolding Swap_exchanged [OF less_le_trans [OF Suc.prems(2,3)]]
    proof (rule exchanged_stable_in)
      fix i k assume "j \<le> i" "i < j + 1" "j + 1 \<le> k" "k < j + 2"
      then have "i = j" "k = Suc j" by linarith+
      then show "lt (xs ! k) (xs ! i)" using True by (simp add: Less_def)
    qed (use True Suc.prems in linarith)+
    moreover have "stable_range lt a b (Swap (Suc j) j xs) (insert_loop lt a j (Swap (Suc j) j xs))"
      using Suc True by simp
    ultimately show ?thesis using True stable_range_trans by fastforce
  qed auto
qed simp

lemma insertionSort_stable:
  assumes "b \<le> length xs"
  shows "sorted_range lt a b (insertionSort lt a b xs) \<and> stable_range lt a b xs (insertionSort lt a b xs)"
proof -
  have "set is \<subseteq> {a + 1..<b} \<Longrightarrow> length ys = length xs \<Longrightarrow> stable_range lt a b ys (fold (insert_loop lt a) is ys)" for "is" ys
  proof (induction "is" arbitrary: ys)
    case (Cons i "is")
    then have st: "stable_range lt a b ys (insert_loop lt a i ys)"
      using assms by (intro insert_loop_stable) auto
    moreover have "stable_range lt a b (insert_loop lt a i ys) (fold (insert_loop lt a) is (insert_loop lt a i ys))"
      using Cons stable_length [OF st] by simp
    ultimately show ?case using stable_range_trans by fastforce
  qed simp
  from this [of "[a + 1..<b]" xs] show ?thesis
    using insertionSort_correct [OF assms, of a] by (simp add: insertionSort_def)
qed

section \<open>The passes\<close>

text \<open>Every aligned block of \<open>w\<close> elements of the first \<open>n\<close> is sorted, from the \<open>j\<close>-th block on or up to it.\<close>

definition block_sorted :: "nat \<Rightarrow> nat \<Rightarrow> nat \<Rightarrow> 'a list \<Rightarrow> bool" where
  "block_sorted w n k xs \<longleftrightarrow> sorted_range lt (k * w) (min ((k + 1) * w) n) xs"

lemma block_past: "n \<le> k * w \<Longrightarrow> block_sorted w n k xs"
  by (auto simp: block_sorted_def sorted_range_def)

lemma block_same:
  "block_sorted w n k xs \<Longrightarrow> (\<And>i. k * w \<le> i \<Longrightarrow> i < (k + 1) * w \<Longrightarrow> ys ! i = xs ! i) \<Longrightarrow> block_sorted w n k ys"
  unfolding block_sorted_def by (erule sorted_range_same) simp

lemma block_before: "stable_range lt (j * w) b xs ys \<Longrightarrow> k < j \<Longrightarrow> block_sorted w n k xs \<Longrightarrow> block_sorted w n k ys"
proof (erule block_same)
  fix i assume p: "stable_range lt (j * w) b xs ys" "k < j" "i < (k + 1) * w"
  have "(k + 1) * w \<le> j * w" using p(2) by (intro mult_le_mono1) simp
  then show "ys ! i = xs ! i" using stable_outside [OF p(1)] p(3) by simp
qed

lemma block_after: "stable_range lt a (j * w) xs ys \<Longrightarrow> j \<le> k \<Longrightarrow> block_sorted w n k xs \<Longrightarrow> block_sorted w n k ys"
proof (erule block_same)
  fix i assume p: "stable_range lt a (j * w) xs ys" "j \<le> k" "k * w \<le> i"
  have "j * w \<le> i" using mult_le_mono1 [OF p(2), of w] p(3) by linarith
  then show "ys ! i = xs ! i" using stable_outside [OF p(1)] by blast
qed

lemma block_loop_correct:
  "n \<le> length xs \<Longrightarrow> j * 20 \<le> n \<Longrightarrow> (\<And>k. k < j \<Longrightarrow> block_sorted 20 n k xs) \<Longrightarrow>
    (\<forall>k. block_sorted 20 n k (block_loop lt n (j * 20) ((j + 1) * 20) xs))
    \<and> stable_range lt 0 n xs (block_loop lt n (j * 20) ((j + 1) * 20) xs)"
proof (induction "n - j * 20" arbitrary: j xs rule: less_induct)
  case less
  let ?a = "j * 20" and ?b = "(j + 1) * 20"
  show ?case
  proof (cases "?b \<le> n")
    case True
    let ?ys = "insertionSort lt ?a ?b xs"
    have s: "sorted_range lt ?a ?b ?ys" "stable_range lt ?a ?b xs ?ys"
      using insertionSort_stable [of ?b xs ?a] True less.prems(1) by auto
    have blocks: "block_sorted 20 n k ?ys" if "k < j + 1" for k
    proof (cases "k = j")
      case True
      then show ?thesis using s(1) \<open>?b \<le> n\<close> by (simp add: block_sorted_def)
    next
      case False
      then show ?thesis using block_before [OF s(2)] less.prems(3) that by simp
    qed
    have "(\<forall>k. block_sorted 20 n k (block_loop lt n ((j + 1) * 20) ((j + 1 + 1) * 20) ?ys))
        \<and> stable_range lt 0 n ?ys (block_loop lt n ((j + 1) * 20) ((j + 1 + 1) * 20) ?ys)"
      using True less.prems stable_length [OF s(2)] blocks by (intro less.hyps) auto
    moreover have "block_loop lt n ?a ?b xs = block_loop lt n ((j + 1) * 20) ((j + 1 + 1) * 20) ?ys"
      using True by (subst block_loop.simps) simp
    moreover have "stable_range lt 0 n xs ?ys" using stable_range_mono [OF s(2), of 0 n] True by simp
    ultimately show ?thesis using stable_range_trans by fastforce
  next
    case False
    let ?ys = "insertionSort lt ?a n xs"
    have s: "sorted_range lt ?a n ?ys" "stable_range lt ?a n xs ?ys"
      using insertionSort_stable [of n xs ?a] less.prems(1) by auto
    have "block_sorted 20 n k ?ys" for k
    proof -
      consider "k < j" | "k = j" | "j < k" by linarith
      then show ?thesis
      proof cases
        case 1
        then show ?thesis using block_before [OF s(2)] less.prems(3) by simp
      next
        case 2
        then show ?thesis using s(1) False by (simp add: block_sorted_def)
      next
        case 3
        then show ?thesis using False by (intro block_past) simp
      qed
    qed
    moreover have "block_loop lt n ?a ?b xs = ?ys" using False by (subst block_loop.simps) simp
    ultimately show ?thesis using stable_range_mono [OF s(2), of 0 n] by simp
  qed
qed

lemma pass_loop_correct:
  assumes w: "0 < w"
  shows "n \<le> length xs \<Longrightarrow> j * (2 * w) \<le> n \<Longrightarrow> (\<And>k. k < j \<Longrightarrow> block_sorted (2 * w) n k xs) \<Longrightarrow>
    (\<And>k. 2 * j \<le> k \<Longrightarrow> block_sorted w n k xs) \<Longrightarrow>
    \<exists>ys. pass_loop lt w n (j * (2 * w)) ((j + 1) * (2 * w)) xs = Some ys
      \<and> (\<forall>k. block_sorted (2 * w) n k ys) \<and> stable_range lt 0 n xs ys"
proof (induction "n - j * (2 * w)" arbitrary: j xs rule: less_induct)
  case less
  let ?a = "j * (2 * w)" and ?b = "(j + 1) * (2 * w)"
  have m: "(2 * j + 1) * w = ?a + w" "(2 * j + 1 + 1) * w = ?b" "(2 * j) * w = ?a" "?b = ?a + 2 * w"
    by (simp_all add: algebra_simps)
  have l: "sorted_range lt ?a (min (?a + w) n) xs" and r: "sorted_range lt (?a + w) (min ?b n) xs"
    using less.prems(4) [of "2 * j"] less.prems(4) [of "2 * j + 1"] unfolding block_sorted_def m by simp_all
  show ?case
  proof (cases "?b \<le> n")
    case True
    then obtain zs where zs: "symMerge lt ?a (?a + w) ?b xs = Some zs" "sorted_range lt ?a ?b zs" "stable_range lt ?a ?b xs zs"
      using symMerge_correct [of ?a "?a + w" ?b xs] w m(4) l r less.prems(1) by auto
    have blocks: "block_sorted (2 * w) n k zs" if "k < j + 1" for k
    proof (cases "k = j")
      case True
      then show ?thesis using zs(2) \<open>?b \<le> n\<close> by (simp add: block_sorted_def)
    next
      case False
      then show ?thesis using block_before [OF zs(3)] less.prems(3) that by simp
    qed
    have rest: "block_sorted w n k zs" if "2 * (j + 1) \<le> k" for k
    proof (rule block_after)
      show "stable_range lt ?a (2 * (j + 1) * w) xs zs" using zs(3) by (simp add: algebra_simps)
    qed (use that less.prems(4) [of k] in simp_all)
    have "\<exists>ys. pass_loop lt w n ((j + 1) * (2 * w)) ((j + 1 + 1) * (2 * w)) zs = Some ys
        \<and> (\<forall>k. block_sorted (2 * w) n k ys) \<and> stable_range lt 0 n zs ys"
    proof (rule less.hyps)
      show "n - (j + 1) * (2 * w) < n - j * (2 * w)" using True w m(4) by linarith
      show "n \<le> length zs" using stable_length [OF zs(3)] less.prems(1) by simp
    qed (use True blocks rest in simp_all)
    then obtain ys where ys: "pass_loop lt w n ?b (?b + 2 * w) zs = Some ys"
      "\<forall>k. block_sorted (2 * w) n k ys" "stable_range lt 0 n zs ys"
      by (auto simp: algebra_simps)
    have "stable_range lt 0 n xs zs" using stable_range_mono [OF zs(3), of 0 n] True by simp
    then have "stable_range lt 0 n xs ys" using ys(3) stable_range_trans by blast
    moreover have "pass_loop lt w n ?a ?b xs = Some ys"
      using True zs(1) ys(1) by (subst pass_loop.simps) simp
    ultimately show ?thesis using ys(2) by blast
  next
    case False
    obtain ys where ys: "(if ?a + w < n then symMerge lt ?a (?a + w) n xs else Some xs) = Some ys"
      "sorted_range lt ?a n ys" "stable_range lt ?a n xs ys"
    proof (cases "?a + w < n")
      case True
      then show ?thesis using symMerge_correct [of ?a "?a + w" n xs] that w l r False less.prems(1) by auto
    next
      case f: False
      then show ?thesis using that [of xs] l by (simp add: min_def split: if_splits)
    qed
    have "block_sorted (2 * w) n k ys" for k
    proof -
      consider "k < j" | "k = j" | "j + 1 \<le> k" by linarith
      then show ?thesis
      proof cases
        case 1
        then show ?thesis using block_before [OF ys(3)] less.prems(3) by simp
      next
        case 2
        then show ?thesis using ys(2) False by (simp add: block_sorted_def)
      next
        case 3
        then have "?b \<le> k * (2 * w)" by (rule mult_le_mono1)
        then show ?thesis using False by (intro block_past) linarith
      qed
    qed
    moreover have "pass_loop lt w n ?a ?b xs = Some ys"
      using False ys(1) by (subst pass_loop.simps) (simp add: Let_def)
    ultimately show ?thesis using stable_range_mono [OF ys(3), of 0 n] by auto
  qed
qed

lemma stable_loop_correct:
  "0 < w \<Longrightarrow> n \<le> length xs \<Longrightarrow> (\<And>k. block_sorted w n k xs) \<Longrightarrow>
    \<exists>ys. stable_loop lt w n xs = Some ys \<and> sorted_range lt 0 n ys \<and> stable_range lt 0 n xs ys"
proof (induction "n - w" arbitrary: w xs rule: less_induct)
  case less
  show ?case
  proof (cases "w < n")
    case True
    obtain ys where ys: "pass_loop lt w n 0 (2 * w) xs = Some ys" "\<forall>k. block_sorted (2 * w) n k ys" "stable_range lt 0 n xs ys"
      using pass_loop_correct [OF less.prems(1,2), of 0] less.prems(3) by auto
    have "\<exists>zs. stable_loop lt (2 * w) n ys = Some zs \<and> sorted_range lt 0 n zs \<and> stable_range lt 0 n ys zs"
      using True less.prems(1,2) ys(2) stable_length [OF ys(3)] by (intro less.hyps) auto
    then obtain zs where zs: "stable_loop lt (2 * w) n ys = Some zs" "sorted_range lt 0 n zs" "stable_range lt 0 n ys zs"
      by blast
    have "stable_loop lt w n xs = Some zs" using True ys(1) zs(1) by (subst stable_loop.simps) (simp add: mult.commute)
    then show ?thesis using zs(2) stable_range_trans [OF ys(3) zs(3)] by blast
  next
    case False
    then have "sorted_range lt 0 n xs" using less.prems(3) [of 0] by (simp add: block_sorted_def)
    then show ?thesis using False by (subst stable_loop.simps) simp
  qed
qed

lemma Stable_correct:
  "\<exists>ys. Stable lt xs = Some ys \<and> sorted_range lt 0 (length xs) ys \<and> stable_range lt 0 (length xs) xs ys"
proof -
  let ?n = "length xs"
  let ?ys = "block_loop lt ?n 0 20 xs"
  have b: "\<forall>k. block_sorted 20 ?n k ?ys" "stable_range lt 0 ?n xs ?ys"
    using block_loop_correct [of ?n xs 0] by simp_all
  obtain zs where "stable_loop lt 20 ?n ?ys = Some zs" "sorted_range lt 0 ?n zs" "stable_range lt 0 ?n ?ys zs"
    using stable_loop_correct [of 20 ?n ?ys] b(1) stable_length [OF b(2)] by auto
  then show ?thesis using stable_range_trans [OF b(2)] by (auto simp: Stable_def stable_def)
qed

end

section \<open>What \<open>Stable\<close> promises\<close>

text \<open>C40: \<open>sort.Stable\<close> returns for every collection and every order, sorts it, and keeps the elements of each class of
  equal elements in their original order (which makes it a permutation). In particular no rotation of an empty block,
  which would run for ever, is reached.\<close>
theorem Stable_sorts:
  assumes "less_order lt"
  shows "\<exists>ys. Stable lt xs = Some ys \<and> sorted_range lt 0 (length ys) ys \<and> mset ys = mset xs
    \<and> (\<forall>z. filter (same_class lt z) ys = filter (same_class lt z) xs)"
proof -
  obtain ys where "Stable lt xs = Some ys" "sorted_range lt 0 (length xs) ys" "stable_range lt 0 (length xs) xs ys"
    using less_order.Stable_correct [OF assms] by blast
  then show ?thesis by (auto simp: stable_range_def perm_range_def)
qed

theorem Stable_sorts_witness: "\<exists>ys. Stable int_less [3, 1, 2] = Some ys \<and> mset ys = mset [3, 1, 2]"
  using Stable_sorts [OF int_order.less_order_axioms, of "[3, 1, 2]"] by blast

lemma key_order: "less_order (\<lambda>x y. f x < f y)" for f :: "'a \<Rightarrow> 'b::linorder"
  by unfold_locales auto

text \<open>Sorting stably by a key, with \<open>Less\<close> comparing the keys, is the library's \<open>sort_key\<close>.\<close>
theorem Stable_eq_sort_key: "Stable (\<lambda>x y. f x < f y) xs = Some (sort_key f xs)" for f :: "'a \<Rightarrow> 'b::linorder"
proof -
  obtain ys where ys: "Stable (\<lambda>x y. f x < f y) xs = Some ys" "sorted_range (\<lambda>x y. f x < f y) 0 (length xs) ys"
    "stable_range (\<lambda>x y. f x < f y) 0 (length xs) xs ys"
    using less_order.Stable_correct [OF key_order] by blast
  have "sort_key f xs = ys"
  proof (rule properties_for_sort_key)
    show "mset ys = mset xs" using ys(3) by (simp add: stable_range_def perm_range_def)
    have "same_class (\<lambda>x y. f x < f y) z = (\<lambda>x. f z = f x)" for z by (auto simp: same_class_def fun_eq_iff)
    then show "filter (\<lambda>x. f k = f x) ys = filter (\<lambda>x. f k = f x) xs" for k
      using ys(3) by (simp add: stable_range_def)
    have "length ys = length xs" using ys(3) by (rule stable_length)
    then show "sorted (map f ys)" using ys(2) by (auto simp: sorted_iff_nth_mono_less sorted_range_def not_less)
  qed
  then show ?thesis using ys(1) by simp
qed

end
