(* ===== verification/Utf8.thy ===== *)
theory Utf8
  imports GoWords
begin

text \<open>
  \<open>unicode/utf8/utf8.go\<close>: UTF-8 over bytes (\<open>8 word\<close>) and runes (Go's \<open>int32\<close>, a
  \<open>32 word\<close> read with \<open>sint\<close> where the code compares it as signed). A \<open>string\<close> is a list of bytes
  like a slice; the code has every function twice, and so has the model. The scanning loops are
  recursive functions on the index.
\<close>

section \<open>The code\<close>

type_synonym rune = "32 word"

definition RuneError :: rune where "RuneError = 0xFFFD"
definition RuneSelf :: u8 where "RuneSelf = 0x80"
definition MaxRune :: rune where "MaxRune = 0x10FFFF"
definition surrogateMin :: rune where "surrogateMin = 0xD800"
definition surrogateMax :: rune where "surrogateMax = 0xDFFF"

definition tx :: u8 where "tx = 0b10000000"
definition t2 :: u8 where "t2 = 0b11000000"
definition t3 :: u8 where "t3 = 0b11100000"
definition t4 :: u8 where "t4 = 0b11110000"
definition maskx :: u8 where "maskx = 0b00111111"
definition mask2 :: u8 where "mask2 = 0b00011111"
definition mask3 :: u8 where "mask3 = 0b00001111"
definition mask4 :: u8 where "mask4 = 0b00000111"
definition rune1Max :: rune where "rune1Max = 0x7F"
definition rune2Max :: rune where "rune2Max = 0x7FF"
definition rune3Max :: rune where "rune3Max = 0xFFFF"
definition locb :: u8 where "locb = 0b10000000"
definition hicb :: u8 where "hicb = 0b10111111"

definition xx :: u8 where "xx = 0xF1"
definition asc :: u8 where "asc = 0xF0"
definition s1 :: u8 where "s1 = 0x02"
definition s2 :: u8 where "s2 = 0x13"
definition s3 :: u8 where "s3 = 0x03"
definition s4 :: u8 where "s4 = 0x23"
definition s5 :: u8 where "s5 = 0x34"
definition s6 :: u8 where "s6 = 0x04"
definition s7 :: u8 where "s7 = 0x44"

text \<open>The table of first bytes, row by row; \<open>asc\<close> is the code's \<open>as\<close>.\<close>

definition first_table :: "u8 list" where
  "first_table =
     replicate 128 asc @
     replicate 64 xx @
     [xx, xx] @ replicate 30 s1 @
     [s2] @ replicate 12 s3 @ [s4, s3, s3] @
     [s5, s6, s6, s6, s7] @ replicate 11 xx"

definition first :: "u8 \<Rightarrow> u8" where "first b = first_table ! unat b"

record acceptRange =
  lo :: u8
  hi :: u8

definition acceptRanges_table :: "acceptRange list" where
  "acceptRanges_table =
     [\<lparr>lo = locb, hi = hicb\<rparr>, \<lparr>lo = 0xA0, hi = hicb\<rparr>, \<lparr>lo = locb, hi = 0x9F\<rparr>,
      \<lparr>lo = 0x90, hi = hicb\<rparr>, \<lparr>lo = locb, hi = 0x8F\<rparr>] @ replicate 11 \<lparr>lo = 0, hi = 0\<rparr>"

definition acceptRanges :: "u8 \<Rightarrow> acceptRange" where
  "acceptRanges i = acceptRanges_table ! unat i"

definition FullRune :: "u8 list \<Rightarrow> bool" where
  "FullRune p =
     (let n = length p in
      if n = 0 then False
      else let x = first (p ! 0) in
        if n \<ge> unat (x AND 7) then True
        else let accept = acceptRanges (drop_bit 4 x) in
          if n > 1 \<and> (p ! 1 < lo accept \<or> hi accept < p ! 1) then True
          else if n > 2 \<and> (p ! 2 < locb \<or> hicb < p ! 2) then True
          else False)"

definition FullRuneInString :: "u8 list \<Rightarrow> bool" where
  "FullRuneInString s =
     (let n = length s in
      if n = 0 then False
      else let x = first (s ! 0) in
        if n \<ge> unat (x AND 7) then True
        else let accept = acceptRanges (drop_bit 4 x) in
          if n > 1 \<and> (s ! 1 < lo accept \<or> hi accept < s ! 1) then True
          else if n > 2 \<and> (s ! 2 < locb \<or> hicb < s ! 2) then True
          else False)"

definition DecodeRune :: "u8 list \<Rightarrow> rune \<times> nat" where
  "DecodeRune p =
     (let n = length p in
      if n < 1 then (RuneError, 0)
      else let p0 = p ! 0; x = first p0 in
        if x \<ge> asc then
          let mask = signed_drop_bit 31 (push_bit 31 (ucast x :: rune))
          in ((ucast (p ! 0) AND NOT mask) OR (RuneError AND mask), 1)
        else let sz = unat (x AND 7); accept = acceptRanges (drop_bit 4 x) in
          if n < sz then (RuneError, 1)
          else let b1 = p ! 1 in
            if b1 < lo accept \<or> hi accept < b1 then (RuneError, 1)
            else if sz \<le> 2 then (push_bit 6 (ucast (p0 AND mask2)) OR ucast (b1 AND maskx), 2)
            else let b2 = p ! 2 in
              if b2 < locb \<or> hicb < b2 then (RuneError, 1)
              else if sz \<le> 3 then
                (push_bit 12 (ucast (p0 AND mask3)) OR push_bit 6 (ucast (b1 AND maskx))
                   OR ucast (b2 AND maskx), 3)
              else let b3 = p ! 3 in
                if b3 < locb \<or> hicb < b3 then (RuneError, 1)
                else (push_bit 18 (ucast (p0 AND mask4)) OR push_bit 12 (ucast (b1 AND maskx))
                        OR push_bit 6 (ucast (b2 AND maskx)) OR ucast (b3 AND maskx), 4))"

definition DecodeRuneInString :: "u8 list \<Rightarrow> rune \<times> nat" where
  "DecodeRuneInString s =
     (let n = length s in
      if n < 1 then (RuneError, 0)
      else let s0 = s ! 0; x = first s0 in
        if x \<ge> asc then
          let mask = signed_drop_bit 31 (push_bit 31 (ucast x :: rune))
          in ((ucast (s ! 0) AND NOT mask) OR (RuneError AND mask), 1)
        else let sz = unat (x AND 7); accept = acceptRanges (drop_bit 4 x) in
          if n < sz then (RuneError, 1)
          else let s1 = s ! 1 in
            if s1 < lo accept \<or> hi accept < s1 then (RuneError, 1)
            else if sz \<le> 2 then (push_bit 6 (ucast (s0 AND mask2)) OR ucast (s1 AND maskx), 2)
            else let s2 = s ! 2 in
              if s2 < locb \<or> hicb < s2 then (RuneError, 1)
              else if sz \<le> 3 then
                (push_bit 12 (ucast (s0 AND mask3)) OR push_bit 6 (ucast (s1 AND maskx))
                   OR ucast (s2 AND maskx), 3)
              else let s3 = s ! 3 in
                if s3 < locb \<or> hicb < s3 then (RuneError, 1)
                else (push_bit 18 (ucast (s0 AND mask4)) OR push_bit 12 (ucast (s1 AND maskx))
                        OR push_bit 6 (ucast (s2 AND maskx)) OR ucast (s3 AND maskx), 4))"

definition RuneLen :: "rune \<Rightarrow> int" where
  "RuneLen r =
     (if sint r < 0 then -1
      else if sint r \<le> sint rune1Max then 1
      else if sint r \<le> sint rune2Max then 2
      else if sint surrogateMin \<le> sint r \<and> sint r \<le> sint surrogateMax then -1
      else if sint r \<le> sint rune3Max then 3
      else if sint r \<le> sint MaxRune then 4
      else -1)"

text \<open>
  \<open>EncodeRune\<close> writes into \<open>p\<close>; where \<open>p\<close> is too short its bounds check panics (\<open>None\<close>). The third
  case of the \<open>switch\<close> replaces the rune and falls through to the fourth.
\<close>

definition encode3 :: "u8 list \<Rightarrow> rune \<Rightarrow> (u8 list \<times> nat) option" where
  "encode3 p r =
     (if length p \<le> 2 then None
      else Some (p[0 := t3 OR ucast (signed_drop_bit 12 r),
                   1 := tx OR (ucast (signed_drop_bit 6 r) AND maskx),
                   2 := tx OR (ucast r AND maskx)], 3))"

definition EncodeRune :: "u8 list \<Rightarrow> rune \<Rightarrow> (u8 list \<times> nat) option" where
  "EncodeRune p r =
     (let i = r in
      if i \<le> rune1Max then (if p = [] then None else Some (p[0 := ucast r], 1))
      else if i \<le> rune2Max then
        (if length p \<le> 1 then None
         else Some (p[0 := t2 OR ucast (signed_drop_bit 6 r), 1 := tx OR (ucast r AND maskx)], 2))
      else if i > MaxRune \<or> surrogateMin \<le> i \<and> i \<le> surrogateMax then encode3 p RuneError
      else if i \<le> rune3Max then encode3 p r
      else if length p \<le> 3 then None
      else Some (p[0 := t4 OR ucast (signed_drop_bit 18 r),
                   1 := tx OR (ucast (signed_drop_bit 12 r) AND maskx),
                   2 := tx OR (ucast (signed_drop_bit 6 r) AND maskx),
                   3 := tx OR (ucast r AND maskx)], 4))"

definition RuneStart :: "u8 \<Rightarrow> bool" where
  "RuneStart b \<longleftrightarrow> b AND 0xC0 \<noteq> 0x80"

definition ValidRune :: "rune \<Rightarrow> bool" where
  "ValidRune r =
     (if 0 \<le> sint r \<and> sint r < sint surrogateMin then True
      else if sint surrogateMax < sint r \<and> sint r \<le> sint MaxRune then True
      else False)"

text \<open>
  \<open>count_next\<close> and \<open>valid_next\<close> are the bodies of the two scanning loops: the index after the rune
  at \<open>i\<close>, and \<open>None\<close> for \<open>return false\<close>.
\<close>

definition count_next :: "u8 list \<Rightarrow> nat \<Rightarrow> nat" where
  "count_next p i =
     (let c = p ! i in
      if c < RuneSelf then i + 1
      else let x = first c in
        if x = xx then i + 1
        else let size = unat (x AND 7) in
          if i + size > length p then i + 1
          else let accept = acceptRanges (drop_bit 4 x);
                   size = (if p ! (i + 1) < lo accept \<or> hi accept < p ! (i + 1) then 1
                           else if size = 2 then size
                           else if p ! (i + 2) < locb \<or> hicb < p ! (i + 2) then 1
                           else if size = 3 then size
                           else if p ! (i + 3) < locb \<or> hicb < p ! (i + 3) then 1
                           else size)
               in i + size)"

definition valid_next :: "u8 list \<Rightarrow> nat \<Rightarrow> nat option" where
  "valid_next p i =
     (let pi = p ! i in
      if pi < RuneSelf then Some (i + 1)
      else let x = first pi in
        if x = xx then None
        else let size = unat (x AND 7) in
          if i + size > length p then None
          else let accept = acceptRanges (drop_bit 4 x) in
            if p ! (i + 1) < lo accept \<or> hi accept < p ! (i + 1) then None
            else if size = 2 then Some (i + size)
            else if p ! (i + 2) < locb \<or> hicb < p ! (i + 2) then None
            else if size = 3 then Some (i + size)
            else if p ! (i + 3) < locb \<or> hicb < p ! (i + 3) then None
            else Some (i + size))"

text \<open>The fast path of \<open>Valid\<close> skips eight ASCII bytes at a time.\<close>

function valid_skip :: "u8 list \<Rightarrow> u8 list" where
  "valid_skip p =
     (if length p \<ge> 8 then
        (let first32 = ucast (p ! 0) OR push_bit 8 (ucast (p ! 1)) OR push_bit 16 (ucast (p ! 2))
               OR push_bit 24 (ucast (p ! 3)) :: u32;
             second32 = ucast (p ! 4) OR push_bit 8 (ucast (p ! 5)) OR push_bit 16 (ucast (p ! 6))
               OR push_bit 24 (ucast (p ! 7)) :: u32
         in if (first32 OR second32) AND 0x80808080 \<noteq> 0 then p else valid_skip (drop 8 p))
      else p)"
  by pat_completeness auto
termination by (relation "measure length") auto

declare valid_skip.simps [simp del]

section \<open>The tables, by ranges of the first byte\<close>

lemmas utf8_consts = RuneError_def RuneSelf_def MaxRune_def surrogateMin_def surrogateMax_def
  tx_def t2_def t3_def t4_def maskx_def mask2_def mask3_def mask4_def
  rune1Max_def rune2Max_def rune3Max_def locb_def hicb_def

lemmas first_codes = xx_def asc_def s1_def s2_def s3_def s4_def s5_def s6_def s7_def

lemma first_cases:
  "first b =
     (if unat b < 128 then asc else if unat b < 194 then xx else if unat b < 224 then s1
      else if unat b = 224 then s2 else if unat b = 237 then s4 else if unat b < 240 then s3
      else if unat b = 240 then s5 else if unat b < 244 then s6 else if unat b = 244 then s7 else xx)"
proof -
  have "unat b < 256" using unsigned_less [of b, where 'a = nat] by simp
  then show ?thesis
    by (auto simp: first_def first_table_def nth_append nth_Cons' nth_replicate)
qed

lemma acceptRanges_cases:
  "lo (acceptRanges (drop_bit 4 (first b))) = (if unat b = 224 then 0xA0 else if unat b = 240 then 0x90 else 0x80)"
  "hi (acceptRanges (drop_bit 4 (first b))) = (if unat b = 237 then 0x9F else if unat b = 244 then 0x8F else 0xBF)"
  if "194 \<le> unat b" "unat b \<le> 244"
  using that
  by (auto simp: first_cases first_codes acceptRanges_def acceptRanges_table_def locb_def hicb_def)

lemma size_cases:
  "unat (first b AND 7) =
     (if unat b < 128 then 0 else if unat b < 194 then 1 else if unat b < 224 then 2
      else if unat b < 240 then 3 else if unat b \<le> 244 then 4 else 1)"
  by (auto simp: first_cases first_codes)

lemma first_as: "asc \<le> first b \<longleftrightarrow> unat b < 194 \<or> 244 < unat b"
  by (auto simp: first_cases first_codes)

lemma first_xx: "first b = xx \<longleftrightarrow> 128 \<le> unat b \<and> (unat b < 194 \<or> 244 < unat b)"
  by (auto simp: first_cases first_codes)

section \<open>Arithmetic of the encoding\<close>

lemma u8_less: "unat (b :: u8) < 256"
  using unsigned_less [of b, where 'a = nat] by simp

lemma unat_mask2: "unat (b AND mask2) = unat b mod 32"
  using unat_and_mask [of b 5] by (simp add: mask2_def mask_eq_exp_minus_1)

lemma unat_mask3: "unat (b AND mask3) = unat b mod 16"
  using unat_and_mask [of b 4] by (simp add: mask3_def mask_eq_exp_minus_1)

lemma unat_mask4: "unat (b AND mask4) = unat b mod 8"
  using unat_and_mask [of b 3] by (simp add: mask4_def mask_eq_exp_minus_1)

lemma unat_maskx: "unat (b AND maskx) = unat b mod 64"
  using unat_and_mask [of b 6] by (simp add: maskx_def mask_eq_exp_minus_1)

lemmas unat_masks = unat_mask2 unat_mask3 unat_mask4 unat_maskx

lemma unat_ucast_rune: "unat (ucast (b :: u8) :: rune) = unat b"
  using u8_less [of b] by (simp add: unat_ucast)

lemma decode2:
  "unat (push_bit 6 (ucast (p0 AND mask2)) OR ucast (b1 AND maskx) :: rune)
     = 64 * (unat p0 mod 32) + unat b1 mod 64"
proof -
  let ?c = "push_bit 6 (ucast (p0 AND mask2)) :: rune"
  have "unat (ucast (p0 AND mask2) :: rune) = unat p0 mod 32"
    by (simp add: unat_ucast_rune unat_masks)
  then have "unat ?c = 2 ^ 6 * (unat p0 mod 32)" by (subst unat_push_bit) simp_all
  then show ?thesis
    by (subst unat_or_add [where k = 6]) (simp_all add: unat_ucast_rune unat_masks)
qed

lemma decode3:
  "unat (push_bit 12 (ucast (p0 AND mask3)) OR push_bit 6 (ucast (b1 AND maskx))
      OR ucast (b2 AND maskx) :: rune)
     = 4096 * (unat p0 mod 16) + 64 * (unat b1 mod 64) + unat b2 mod 64"
proof -
  let ?c = "push_bit 12 (ucast (p0 AND mask3)) :: rune"
  let ?d = "push_bit 6 (ucast (b1 AND maskx)) :: rune"
  have "unat (ucast (p0 AND mask3) :: rune) = unat p0 mod 16"
    by (simp add: unat_ucast_rune unat_masks)
  then have c: "unat ?c = 2 ^ 12 * (unat p0 mod 16)" by (subst unat_push_bit) simp_all
  have "unat (ucast (b1 AND maskx) :: rune) = unat b1 mod 64"
    by (simp add: unat_ucast_rune unat_masks)
  then have d: "unat ?d = 2 ^ 6 * (unat b1 mod 64)" by (subst unat_push_bit) simp_all
  have "unat (?d OR ucast (b2 AND maskx)) = unat ?d + unat b2 mod 64"
    using d by (subst unat_or_add [where k = 6]) (simp_all add: unat_ucast_rune unat_masks)
  then have e: "unat (?d OR ucast (b2 AND maskx)) = 64 * (unat b1 mod 64) + unat b2 mod 64"
    using d by simp
  have "64 * (unat b1 mod 64) + unat b2 mod 64 < 2 ^ 12"
    using mod_less_divisor [of 64 "unat b1"] mod_less_divisor [of 64 "unat b2"] by simp
  then show ?thesis
    using c e by (subst unat_or_add [where k = 12]) simp_all
qed

lemma decode4:
  "unat (push_bit 18 (ucast (p0 AND mask4)) OR push_bit 12 (ucast (b1 AND maskx))
      OR push_bit 6 (ucast (b2 AND maskx)) OR ucast (b3 AND maskx) :: rune)
     = 262144 * (unat p0 mod 8) + 4096 * (unat b1 mod 64) + 64 * (unat b2 mod 64) + unat b3 mod 64"
proof -
  let ?c = "push_bit 18 (ucast (p0 AND mask4)) :: rune"
  let ?d = "push_bit 12 (ucast (b1 AND maskx)) :: rune"
  let ?e = "push_bit 6 (ucast (b2 AND maskx)) :: rune"
  have m: "unat b mod 64 < 64" "unat b mod 8 < 8" for b :: u8 by simp_all
  have "unat (ucast (p0 AND mask4) :: rune) = unat p0 mod 8"
    by (simp add: unat_ucast_rune unat_masks)
  then have c: "unat ?c = 2 ^ 18 * (unat p0 mod 8)" using m(2) [of p0] by (subst unat_push_bit) simp_all
  have "unat (ucast (b1 AND maskx) :: rune) = unat b1 mod 64"
    by (simp add: unat_ucast_rune unat_masks)
  then have d: "unat ?d = 2 ^ 12 * (unat b1 mod 64)" using m(1) [of b1] by (subst unat_push_bit) simp_all
  have "unat (ucast (b2 AND maskx) :: rune) = unat b2 mod 64"
    by (simp add: unat_ucast_rune unat_masks)
  then have e: "unat ?e = 2 ^ 6 * (unat b2 mod 64)" using m(1) [of b2] by (subst unat_push_bit) simp_all
  have f: "unat (?e OR ucast (b3 AND maskx)) = 64 * (unat b2 mod 64) + unat b3 mod 64"
    using e by (subst unat_or_add [where k = 6]) (simp_all add: unat_ucast_rune unat_masks)
  have "64 * (unat b2 mod 64) + unat b3 mod 64 < 2 ^ 12"
    using m(1) [of b2] m(1) [of b3] by simp
  then have g: "unat (?d OR ?e OR ucast (b3 AND maskx))
      = 4096 * (unat b1 mod 64) + (64 * (unat b2 mod 64) + unat b3 mod 64)"
    using d f by (subst unat_or_add [where k = 12]) simp_all
  have "4096 * (unat b1 mod 64) + (64 * (unat b2 mod 64) + unat b3 mod 64) < 2 ^ 18"
    using m(1) [of b1] m(1) [of b2] m(1) [of b3] by simp
  then show ?thesis
    using c g by (subst unat_or_add [where k = 18]) simp_all
qed

lemma encode_lead:
  fixes r :: rune and t :: u8
  assumes "unat r < 2 ^ 21" "unat r div 2 ^ k < 2 ^ n" "n < 8" "unat t = 2 ^ n * m"
  shows "unat (t OR ucast (signed_drop_bit k r)) = unat t + unat r div 2 ^ k"
proof -
  have "unat r < 2 ^ 31" using assms(1) by simp
  then have "signed_drop_bit k r = drop_bit k r" by (intro signed_drop_bit_nonneg) simp
  moreover have "(2 :: nat) ^ n < 2 ^ 8" using assms(3) by (intro power_strict_increasing) auto
  ultimately have "unat (ucast (signed_drop_bit k r) :: u8) = unat r div 2 ^ k"
    using assms(2) by (simp add: unat_ucast unat_drop_bit)
  then show ?thesis using assms(2,4) by (subst unat_or_add [where k = n and m = m]) simp_all
qed

lemma encode_cont:
  fixes r :: rune
  assumes "unat r < 2 ^ 21"
  shows "unat (tx OR (ucast (signed_drop_bit k r) AND maskx)) = 128 + unat r div 2 ^ k mod 64"
proof -
  have "unat r < 2 ^ 31" using assms by simp
  then have "signed_drop_bit k r = drop_bit k r" by (intro signed_drop_bit_nonneg) simp
  then have "unat ((ucast (signed_drop_bit k r) :: u8) AND maskx) = unat r div 2 ^ k mod 64"
    using mod_mod_cancel [of 64 256 "unat r div 2 ^ k"] by (simp add: unat_masks unat_ucast unat_drop_bit)
  then show ?thesis
    by (subst unat_or_add [where k = 6 and m = 2]) (simp_all add: tx_def)
qed

lemmas encode_cont0 = encode_cont [where k = 0, simplified]

section \<open>What each form of the input decodes to\<close>

definition bad :: "rune \<times> nat" where "bad = (RuneError, 1)"

definition second_ok :: "nat \<Rightarrow> nat \<Rightarrow> bool" where
  "second_ok b0 b1 \<longleftrightarrow>
     (if b0 = 224 then 160 else if b0 = 240 then 144 else 128) \<le> b1 \<and>
     b1 \<le> (if b0 = 237 then 159 else if b0 = 244 then 143 else 191)"

definition cont :: "u8 \<Rightarrow> bool" where "cont b \<longleftrightarrow> 128 \<le> unat b \<and> unat b < 192"

lemma runeI: "unat r = n \<Longrightarrow> r = word_of_nat n" for r :: rune
  by auto

lemma DecodeRune_ascii:
  assumes "unat b0 < 128"
  shows "DecodeRune (b0 # p) = (ucast b0, 1)"
  using assms by (simp add: DecodeRune_def first_cases first_codes)

lemma DecodeRune_bad0:
  assumes "128 \<le> unat b0" "unat b0 < 194 \<or> 244 < unat b0"
  shows "DecodeRune (b0 # p) = bad"
  using assms by (auto simp: DecodeRune_def first_cases first_codes bad_def)

lemma cont_iff: "\<not> (b < locb \<or> hicb < b) \<longleftrightarrow> cont b"
  by (auto simp: cont_def locb_def hicb_def word_less_nat_alt not_less)

lemma second_iff:
  assumes "194 \<le> unat b0" "unat b0 \<le> 244"
  shows "\<not> (b1 < lo (acceptRanges (drop_bit 4 (first b0))) \<or> hi (acceptRanges (drop_bit 4 (first b0))) < b1)
    \<longleftrightarrow> second_ok (unat b0) (unat b1)"
  using acceptRanges_cases [OF assms] by (auto simp: second_ok_def word_less_nat_alt not_less)

lemma DecodeRune_2:
  assumes "194 \<le> unat b0" "unat b0 < 224"
  shows "DecodeRune (b0 # p) =
    (case p of [] \<Rightarrow> bad
     | b1 # _ \<Rightarrow> if cont b1 then (word_of_nat (64 * (unat b0 - 192) + (unat b1 - 128)), 2) else bad)"
proof (cases p)
  case Nil
  then show ?thesis using assms by (simp add: DecodeRune_def first_as size_cases bad_def)
next
  case (Cons b1 q)
  have s: "second_ok (unat b0) (unat b1) \<longleftrightarrow> cont b1"
    using assms by (auto simp: second_ok_def cont_def)
  have "DecodeRune (b0 # b1 # q) =
      (if cont b1 then (push_bit 6 (ucast (b0 AND mask2)) OR ucast (b1 AND maskx), 2) else bad)"
    using assms second_iff [of b0 b1] unfolding s
    by (simp add: DecodeRune_def first_as size_cases bad_def Let_def split del: if_split cong: if_cong) auto
  moreover have "push_bit 6 (ucast (b0 AND mask2)) OR ucast (b1 AND maskx)
      = (word_of_nat (64 * (unat b0 - 192) + (unat b1 - 128)) :: rune)" if "cont b1"
  proof (rule runeI)
    have "unat b0 mod 32 = unat b0 - 192" "unat b1 mod 64 = unat b1 - 128"
      using that assms by (auto simp: cont_def mod_nat_eqI)
    then show "unat (push_bit 6 (ucast (b0 AND mask2)) OR ucast (b1 AND maskx) :: rune)
        = 64 * (unat b0 - 192) + (unat b1 - 128)" by (simp only: decode2)
  qed
  ultimately show ?thesis by (simp add: Cons)
qed

lemma cont_mod: "cont b \<Longrightarrow> unat b mod 64 = unat b - 128"
  by (auto simp: cont_def mod_nat_eqI)

lemma second_cont: "second_ok b0 (unat b1) \<Longrightarrow> cont b1"
  by (auto simp: second_ok_def cont_def split: if_splits)

lemma DecodeRune_3:
  assumes "224 \<le> unat b0" "unat b0 < 240"
  shows "DecodeRune (b0 # p) =
    (case p of
       b1 # b2 # _ \<Rightarrow>
         if second_ok (unat b0) (unat b1) \<and> cont b2
         then (word_of_nat (4096 * (unat b0 - 224) + 64 * (unat b1 - 128) + (unat b2 - 128)), 3) else bad
     | _ \<Rightarrow> bad)"
proof (cases "\<exists>b1 b2 q. p = b1 # b2 # q")
  case False
  then have "length p < 2" by (cases p; cases "tl p") auto
  moreover from False have "(case p of b1 # b2 # _ \<Rightarrow> f b1 b2 | _ \<Rightarrow> bad) = bad" for f
    by (auto split: list.splits)
  ultimately show ?thesis using assms by (simp add: DecodeRune_def first_as size_cases bad_def)
next
  case True
  then obtain b1 b2 q where p: "p = b1 # b2 # q" by blast
  have "DecodeRune (b0 # b1 # b2 # q) =
      (if second_ok (unat b0) (unat b1) \<and> cont b2 then
         (push_bit 12 (ucast (p0 AND mask3)) OR push_bit 6 (ucast (b1 AND maskx)) OR ucast (b2 AND maskx), 3)
       else bad)" if "p0 = b0" for p0
    using assms that second_iff [of b0 b1] cont_iff [of b2]
    by (simp add: DecodeRune_def first_as size_cases bad_def Let_def split del: if_split cong: if_cong) auto
  moreover have "push_bit 12 (ucast (b0 AND mask3)) OR push_bit 6 (ucast (b1 AND maskx)) OR ucast (b2 AND maskx)
      = (word_of_nat (4096 * (unat b0 - 224) + 64 * (unat b1 - 128) + (unat b2 - 128)) :: rune)"
    if "second_ok (unat b0) (unat b1)" "cont b2"
  proof (rule runeI)
    have "unat b0 mod 16 = unat b0 - 224" using assms by (auto simp: mod_nat_eqI)
    with that second_cont [OF that(1)]
    show "unat (push_bit 12 (ucast (b0 AND mask3)) OR push_bit 6 (ucast (b1 AND maskx)) OR ucast (b2 AND maskx) :: rune)
        = 4096 * (unat b0 - 224) + 64 * (unat b1 - 128) + (unat b2 - 128)"
      by (simp only: decode3 cont_mod)
  qed
  ultimately show ?thesis by (simp add: p)
qed

lemma DecodeRune_4:
  assumes "240 \<le> unat b0" "unat b0 \<le> 244"
  shows "DecodeRune (b0 # p) =
    (case p of
       b1 # b2 # b3 # _ \<Rightarrow>
         if second_ok (unat b0) (unat b1) \<and> cont b2 \<and> cont b3
         then (word_of_nat (262144 * (unat b0 - 240) + 4096 * (unat b1 - 128) + 64 * (unat b2 - 128)
                + (unat b3 - 128)), 4) else bad
     | _ \<Rightarrow> bad)"
proof (cases "\<exists>b1 b2 b3 q. p = b1 # b2 # b3 # q")
  case False
  then have "length p < 3" by (cases p; cases "tl p"; cases "tl (tl p)") auto
  moreover from False have "(case p of b1 # b2 # b3 # _ \<Rightarrow> f b1 b2 b3 | _ \<Rightarrow> bad) = bad" for f
    by (auto split: list.splits)
  ultimately show ?thesis using assms by (simp add: DecodeRune_def first_as size_cases bad_def)
next
  case True
  then obtain b1 b2 b3 q where p: "p = b1 # b2 # b3 # q" by blast
  have "DecodeRune (b0 # b1 # b2 # b3 # q) =
      (if second_ok (unat b0) (unat b1) \<and> cont b2 \<and> cont b3 then
         (push_bit 18 (ucast (b0 AND mask4)) OR push_bit 12 (ucast (b1 AND maskx))
            OR push_bit 6 (ucast (b2 AND maskx)) OR ucast (b3 AND maskx), 4)
       else bad)"
    using assms second_iff [of b0 b1] cont_iff [of b2] cont_iff [of b3]
    by (simp add: DecodeRune_def first_as size_cases bad_def Let_def split del: if_split cong: if_cong) auto
  moreover have "push_bit 18 (ucast (b0 AND mask4)) OR push_bit 12 (ucast (b1 AND maskx))
            OR push_bit 6 (ucast (b2 AND maskx)) OR ucast (b3 AND maskx)
      = (word_of_nat (262144 * (unat b0 - 240) + 4096 * (unat b1 - 128) + 64 * (unat b2 - 128)
                + (unat b3 - 128)) :: rune)"
    if "second_ok (unat b0) (unat b1)" "cont b2" "cont b3"
  proof (rule runeI)
    have "unat b0 mod 8 = unat b0 - 240" using assms by (auto simp: mod_nat_eqI)
    with that second_cont [OF that(1)]
    show "unat (push_bit 18 (ucast (b0 AND mask4)) OR push_bit 12 (ucast (b1 AND maskx))
            OR push_bit 6 (ucast (b2 AND maskx)) OR ucast (b3 AND maskx) :: rune)
        = 262144 * (unat b0 - 240) + 4096 * (unat b1 - 128) + 64 * (unat b2 - 128) + (unat b3 - 128)"
      by (simp only: decode4 cont_mod)
  qed
  ultimately show ?thesis by (simp add: p)
qed

section \<open>The encoding of RFC 3629\<close>

definition utf8_nat :: "nat \<Rightarrow> nat list" where
  "utf8_nat n =
     (if n < 128 then [n]
      else if n < 2048 then [192 + n div 64, 128 + n mod 64]
      else if n < 65536 then [224 + n div 4096, 128 + n div 64 mod 64, 128 + n mod 64]
      else [240 + n div 262144, 128 + n div 4096 mod 64, 128 + n div 64 mod 64, 128 + n mod 64])"

definition utf8 :: "rune \<Rightarrow> u8 list" where
  "utf8 r = map word_of_nat (utf8_nat (unat r))"

lemma sint_rune: "sint r = (if unat r < 2147483648 then int (unat r) else int (unat r) - 4294967296)"
  for r :: rune
  using sint_unat [of r] by simp

lemma rune_less: "unat (r :: rune) < 4294967296"
  using unsigned_less [of r, where 'a = nat] by simp

lemma ValidRune_iff: "ValidRune r \<longleftrightarrow> unat r < 0xD800 \<or> 0xDFFF < unat r \<and> unat r \<le> 0x10FFFF"
  using rune_less [of r]
  by (auto simp: ValidRune_def sint_rune [of r] surrogateMin_def surrogateMax_def MaxRune_def
      simp del: of_nat_unat)

text \<open>How many bytes the encoding of a rune takes.\<close>

lemma length_utf8:
  "length (utf8 r) = (if unat r < 128 then 1 else if unat r < 2048 then 2 else if unat r < 65536 then 3 else 4)"
  by (simp add: utf8_def utf8_nat_def)

lemma u8I: "unat b = n \<Longrightarrow> b = word_of_nat n" for b :: u8
  by auto

lemma encode3_utf8:
  assumes "2048 \<le> unat r" "unat r < 65536"
  shows "encode3 p r = (if length p < 3 then None else Some (utf8 r @ drop 3 p, 3))"
proof (cases "length p < 3")
  case False
  then obtain a b c q where p: "p = a # b # c # q"
    by (cases p; cases "tl p"; cases "tl (tl p)") auto
  have d: "unat r div 4096 < 2 ^ 4" using assms by simp
  have l: "t3 OR ucast (signed_drop_bit 12 r) = word_of_nat (224 + unat r div 4096)"
    by (rule u8I, subst encode_lead [where n = 4 and m = 14]) (use assms d in \<open>simp_all add: t3_def\<close>)
  have c1: "tx OR (ucast (signed_drop_bit 6 r) AND maskx) = word_of_nat (128 + unat r div 64 mod 64)"
    by (rule u8I, subst encode_cont) (use assms in simp_all)
  have c2: "tx OR (ucast r AND maskx) = word_of_nat (128 + unat r mod 64)"
    by (rule u8I, subst encode_cont0) (use assms in simp_all)
  show ?thesis using assms
    unfolding p encode3_def l c1 c2 by (simp add: utf8_def utf8_nat_def numeral_2_eq_2 numeral_3_eq_3)
qed (simp add: encode3_def)

lemma encode2_utf8:
  assumes "128 \<le> unat r" "unat r < 2048" "2 \<le> length p"
  shows "p[0 := t2 OR ucast (signed_drop_bit 6 r), 1 := tx OR (ucast r AND maskx)] = utf8 r @ drop 2 p"
proof -
  obtain a b q where p: "p = a # b # q" using assms(3) by (cases p; cases "tl p") auto
  have d: "unat r div 64 < 2 ^ 5" using assms by simp
  have l: "t2 OR ucast (signed_drop_bit 6 r) = word_of_nat (192 + unat r div 64)"
    by (rule u8I, subst encode_lead [where n = 5 and m = 6]) (use assms d in \<open>simp_all add: t2_def\<close>)
  have c: "tx OR (ucast r AND maskx) = word_of_nat (128 + unat r mod 64)"
    by (rule u8I, subst encode_cont0) (use assms in simp_all)
  show ?thesis using assms unfolding p l c by (simp add: utf8_def utf8_nat_def)
qed

lemma encode4_utf8:
  assumes "65536 \<le> unat r" "unat r \<le> 0x10FFFF" "4 \<le> length p"
  shows "p[0 := t4 OR ucast (signed_drop_bit 18 r),
           1 := tx OR (ucast (signed_drop_bit 12 r) AND maskx),
           2 := tx OR (ucast (signed_drop_bit 6 r) AND maskx),
           3 := tx OR (ucast r AND maskx)] = utf8 r @ drop 4 p"
proof -
  obtain a b c d q where p: "p = a # b # c # d # q"
    using assms(3) by (cases p; cases "tl p"; cases "tl (tl p)"; cases "tl (tl (tl p))") auto
  have d: "unat r div 262144 < 2 ^ 3" using assms by simp
  have l: "t4 OR ucast (signed_drop_bit 18 r) = word_of_nat (240 + unat r div 262144)"
    by (rule u8I, subst encode_lead [where n = 3 and m = 30]) (use assms d in \<open>simp_all add: t4_def\<close>)
  have c1: "tx OR (ucast (signed_drop_bit 12 r) AND maskx) = word_of_nat (128 + unat r div 4096 mod 64)"
    by (rule u8I, subst encode_cont) (use assms in simp_all)
  have c2: "tx OR (ucast (signed_drop_bit 6 r) AND maskx) = word_of_nat (128 + unat r div 64 mod 64)"
    by (rule u8I, subst encode_cont) (use assms in simp_all)
  have c3: "tx OR (ucast r AND maskx) = word_of_nat (128 + unat r mod 64)"
    by (rule u8I, subst encode_cont0) (use assms in simp_all)
  show ?thesis using assms
    unfolding p l c1 c2 c3 by (simp add: utf8_def utf8_nat_def numeral_2_eq_2 numeral_3_eq_3)
qed

lemma EncodeRune_eq:
  "EncodeRune p r =
     (let e = utf8 (if ValidRune r then r else RuneError); n = length e
      in if length p < n then None else Some (e @ drop n p, n))"
proof -
  have err: "unat RuneError = 65533" by (simp add: RuneError_def)
  consider "unat r < 128" | "128 \<le> unat r" "unat r < 2048"
    | "2048 \<le> unat r" "\<not> ValidRune r" | "2048 \<le> unat r" "unat r < 65536" "ValidRune r"
    | "65536 \<le> unat r" "ValidRune r"
    by linarith
  then show ?thesis
  proof cases
    case 1
    then show ?thesis
      by (cases p) (simp_all add: EncodeRune_def ValidRune_iff rune1Max_def word_le_nat_alt utf8_def utf8_nat_def
          flip: unat_ucast_rune)
  next
    case 2
    then show ?thesis using encode2_utf8 [OF 2, of p]
      by (simp add: EncodeRune_def ValidRune_iff rune1Max_def rune2Max_def word_le_nat_alt length_utf8)
  next
    case 3
    then have "MaxRune < r \<or> surrogateMin \<le> r \<and> r \<le> surrogateMax"
      by (auto simp: ValidRune_iff MaxRune_def surrogateMin_def surrogateMax_def word_le_nat_alt word_less_nat_alt)
    with 3 show ?thesis using encode3_utf8 [of RuneError p] err
      by (simp add: EncodeRune_def rune1Max_def rune2Max_def word_le_nat_alt length_utf8)
  next
    case 4
    then have "\<not> MaxRune < r" "\<not> (surrogateMin \<le> r \<and> r \<le> surrogateMax)"
      by (auto simp: ValidRune_iff MaxRune_def surrogateMin_def surrogateMax_def word_le_nat_alt word_less_nat_alt)
    with 4 show ?thesis using encode3_utf8 [of r p]
      by (auto simp: EncodeRune_def rune1Max_def rune2Max_def rune3Max_def word_le_nat_alt length_utf8)
  next
    case 5
    then show ?thesis using encode4_utf8 [of r p]
      by (simp add: EncodeRune_def ValidRune_iff rune1Max_def rune2Max_def rune3Max_def MaxRune_def
          surrogateMin_def surrogateMax_def word_le_nat_alt word_less_nat_alt length_utf8)
  qed
qed

section \<open>Decoding inverts encoding\<close>

lemma split_runs:
  "(n :: nat) = 4096 * (n div 4096) + 64 * (n div 64 mod 64) + n mod 64"
  "n div 64 mod 64 < 64" "n mod 64 < 64"
proof -
  have "n div 64 = 64 * (n div 64 div 64) + n div 64 mod 64" by simp
  then have "n div 64 = 64 * (n div 4096) + n div 64 mod 64" by (simp add: div_mult2_eq [symmetric])
  moreover have "n = 64 * (n div 64) + n mod 64" by simp
  ultimately show "n = 4096 * (n div 4096) + 64 * (n div 64 mod 64) + n mod 64" by linarith
qed simp_all

lemma split_runs4:
  "(n :: nat) = 262144 * (n div 262144) + 4096 * (n div 4096 mod 64) + 64 * (n div 64 mod 64) + n mod 64"
  "n div 4096 mod 64 < 64" "n div 64 mod 64 < 64" "n mod 64 < 64"
proof -
  have "n div 4096 = 64 * (n div 4096 div 64) + n div 4096 mod 64" by simp
  then have "n div 4096 = 64 * (n div 262144) + n div 4096 mod 64" by (simp add: div_mult2_eq [symmetric])
  with split_runs(1) [of n]
  show "n = 262144 * (n div 262144) + 4096 * (n div 4096 mod 64) + 64 * (n div 64 mod 64) + n mod 64"
    by linarith
qed simp_all

lemma DecodeRune_utf8:
  assumes "ValidRune r"
  shows "DecodeRune (utf8 r @ q) = (r, length (utf8 r))"
proof -
  let ?n = "unat r"
  have n: "?n < 0xD800 \<or> 0xDFFF < ?n \<and> ?n \<le> 0x10FFFF" using assms by (simp add: ValidRune_iff)
  have r: "word_of_nat ?n = r" by simp
  consider "?n < 128" | "128 \<le> ?n" "?n < 2048" | "2048 \<le> ?n" "?n < 65536" | "65536 \<le> ?n" by linarith
  then show ?thesis
  proof cases
    case 1
    define b where "b = (word_of_nat ?n :: u8)"
    have b: "unat b = ?n" using 1 unfolding b_def by (subst unat_of_nat) simp
    then have "ucast b = r" by (simp only: word_unat_eq_iff unat_ucast_rune)
    moreover have "utf8 r = [b]" using 1 by (simp add: utf8_def utf8_nat_def b_def)
    ultimately show ?thesis using 1 b by (simp add: DecodeRune_ascii)
  next
    case 2
    define b0 b1 where "b0 = (word_of_nat (192 + ?n div 64) :: u8)" "b1 = (word_of_nat (128 + ?n mod 64) :: u8)"
    have u: "utf8 r = [b0, b1]" using 2 by (simp add: utf8_def utf8_nat_def b0_b1_def)
    have "unat b0 = 192 + ?n div 64" "unat b1 = 128 + ?n mod 64"
      unfolding b0_b1_def using 2 by (subst unat_of_nat; simp)+
    moreover have "64 * (?n div 64) + ?n mod 64 = ?n" by simp
    ultimately show ?thesis using 2 unfolding u by (simp add: DecodeRune_2 cont_def)
  next
    case 3
    define a b c where "a = ?n div 4096" "b = ?n div 64 mod 64" "c = ?n mod 64"
    note s = split_runs [of ?n, folded a_b_c_def]
    have a: "a < 16" using 3 by (simp add: a_b_c_def)
    have ok: "second_ok (224 + a) (128 + b)"
      using s n 3 a unfolding second_ok_def by auto
    define b0 b1 b2 where "b0 = (word_of_nat (224 + a) :: u8)" "b1 = (word_of_nat (128 + b) :: u8)"
      "b2 = (word_of_nat (128 + c) :: u8)"
    have u: "utf8 r = [b0, b1, b2]" using 3 by (simp add: utf8_def utf8_nat_def b0_b1_b2_def a_b_c_def)
    have "unat b0 = 224 + a" "unat b1 = 128 + b" "unat b2 = 128 + c"
      unfolding b0_b1_b2_def using a s by (subst unat_of_nat; simp)+
    then show ?thesis using a s ok r unfolding u by (simp add: DecodeRune_3 cont_def flip: s(1))
  next
    case 4
    define a b c d where "a = ?n div 262144" "b = ?n div 4096 mod 64" "c = ?n div 64 mod 64" "d = ?n mod 64"
    note s = split_runs4 [of ?n, folded a_b_c_d_def]
    have a: "a \<le> 4" using 4 n by (simp add: a_b_c_d_def)
    have ok: "second_ok (240 + a) (128 + b)"
      using s n 4 a unfolding second_ok_def by auto
    define b0 b1 b2 b3 where "b0 = (word_of_nat (240 + a) :: u8)" "b1 = (word_of_nat (128 + b) :: u8)"
      "b2 = (word_of_nat (128 + c) :: u8)" "b3 = (word_of_nat (128 + d) :: u8)"
    have u: "utf8 r = [b0, b1, b2, b3]"
      using 4 by (simp add: utf8_def utf8_nat_def b0_b1_b2_b3_def a_b_c_d_def)
    have "unat b0 = 240 + a" "unat b1 = 128 + b" "unat b2 = 128 + c" "unat b3 = 128 + d"
      unfolding b0_b1_b2_b3_def using a s by (subst unat_of_nat; simp)+
    then show ?thesis using a s ok r unfolding u by (simp add: DecodeRune_4 cont_def flip: s(1))
  qed
qed

lemma mod_64:
  "c < 64 \<Longrightarrow> (4096 * a + (64 * b + c)) mod 64 = (c :: nat)"
  "d < 64 \<Longrightarrow> (262144 * a + (4096 * b + (64 * c + d))) mod 64 = (d :: nat)"
proof -
  have m: "(64 * x + y) mod 64 = y" if "y < 64" for x y :: nat using that by simp
  show "(4096 * a + (64 * b + c)) mod 64 = c" if "c < 64"
    using m [OF that, of "64 * a + b"] by (simp add: distrib_left add.assoc)
  show "(262144 * a + (4096 * b + (64 * c + d))) mod 64 = d" if "d < 64"
    using m [OF that, of "4096 * a + (64 * b + c)"] by (simp add: distrib_left add.assoc)
qed

lemma DecodeRune_sound_2:
  assumes "194 \<le> unat b0" "unat b0 < 224" "cont b1"
  defines "r \<equiv> word_of_nat (64 * (unat b0 - 192) + (unat b1 - 128)) :: rune"
  shows "ValidRune r \<and> utf8 r = [b0, b1]"
proof -
  define a b where "a = unat b0 - 192" "b = unat b1 - 128"
  have ab: "unat b0 = 192 + a" "unat b1 = 128 + b" "2 \<le> a" "a < 32" "b < 64"
    using assms(1-3) by (auto simp: cont_def a_b_def)
  have r: "unat r = 64 * a + b" unfolding r_def using ab by (subst unat_of_nat) simp
  have "[b0, b1] = map word_of_nat [unat b0, unat b1]" by simp
  then have "[b0, b1] = map word_of_nat [192 + a, 128 + b]" unfolding ab(1,2) .
  then show ?thesis using ab(3-5) r by (simp add: ValidRune_iff utf8_def utf8_nat_def)
qed

lemma DecodeRune_sound_3:
  assumes "224 \<le> unat b0" "unat b0 < 240" "second_ok (unat b0) (unat b1)" "cont b2"
  defines "r \<equiv> word_of_nat (4096 * (unat b0 - 224) + 64 * (unat b1 - 128) + (unat b2 - 128)) :: rune"
  shows "ValidRune r \<and> utf8 r = [b0, b1, b2]"
proof -
  define a b c where "a = unat b0 - 224" "b = unat b1 - 128" "c = unat b2 - 128"
  have ab: "unat b0 = 224 + a" "unat b1 = 128 + b" "unat b2 = 128 + c" "a < 16" "b < 64" "c < 64"
    using assms(1-4) second_cont [OF assms(3)] by (auto simp: cont_def a_b_c_def)
  have range: "a = 0 \<Longrightarrow> 32 \<le> b" "a = 13 \<Longrightarrow> b < 32"
    using assms(3) unfolding second_ok_def ab by auto
  have r: "unat r = 4096 * a + (64 * b + c)" unfolding r_def ab using ab(4-6) by (subst unat_of_nat) simp
  have "unat r div 64 = 64 * a + b" using ab(6) unfolding r by simp
  then have d: "unat r div 4096 = a" "unat r div 64 mod 64 = b" "unat r mod 64 = c"
    using ab(5,6) unfolding r by (simp_all add: mod_64)
  have g: "2048 \<le> unat r" "unat r < 65536" "unat r < 0xD800 \<or> 0xDFFF < unat r"
    unfolding r using range ab(4-6) by (cases "a = 0"; cases "a = 13"; force)+
  have "[b0, b1, b2] = map word_of_nat [unat b0, unat b1, unat b2]" by simp
  then have "[b0, b1, b2] = map word_of_nat [224 + a, 128 + b, 128 + c]" unfolding ab(1,2,3) .
  then show ?thesis using g d by (auto simp: ValidRune_iff utf8_def utf8_nat_def)
qed

lemma DecodeRune_sound_4:
  assumes "240 \<le> unat b0" "unat b0 \<le> 244" "second_ok (unat b0) (unat b1)" "cont b2" "cont b3"
  defines "r \<equiv> word_of_nat (262144 * (unat b0 - 240) + 4096 * (unat b1 - 128) + 64 * (unat b2 - 128)
                + (unat b3 - 128)) :: rune"
  shows "ValidRune r \<and> utf8 r = [b0, b1, b2, b3]"
proof -
  define a b c d where "a = unat b0 - 240" "b = unat b1 - 128" "c = unat b2 - 128" "d = unat b3 - 128"
  have ab: "unat b0 = 240 + a" "unat b1 = 128 + b" "unat b2 = 128 + c" "unat b3 = 128 + d"
    "a \<le> 4" "b < 64" "c < 64" "d < 64"
    using assms(1-5) second_cont [OF assms(3)] by (auto simp: cont_def a_b_c_d_def)
  have range: "a = 0 \<Longrightarrow> 16 \<le> b" "a = 4 \<Longrightarrow> b < 16"
    using assms(3) unfolding second_ok_def ab by auto
  have r: "unat r = 262144 * a + (4096 * b + (64 * c + d))"
    unfolding r_def ab using ab(5-8) by (subst unat_of_nat) simp
  have "unat r div 64 = 4096 * a + (64 * b + c)" using ab(8) unfolding r by simp
  moreover have "unat r div 4096 = unat r div 64 div 64" by (simp add: div_mult2_eq [symmetric])
  ultimately have e: "unat r div 4096 = 64 * a + b" "unat r div 64 mod 64 = c"
    using ab(7) by (simp_all add: mod_64)
  have "unat r div 262144 = unat r div 4096 div 64" by (simp add: div_mult2_eq [symmetric])
  then have f: "unat r div 262144 = a" "unat r div 4096 mod 64 = b" "unat r mod 64 = d"
    using e(1) ab(6,8) unfolding r by (simp_all add: mod_64)
  have g: "65536 \<le> unat r" "unat r \<le> 0x10FFFF"
    unfolding r using range ab(5-8) by (cases "a = 0"; cases "a = 4"; force)+
  have "[b0, b1, b2, b3] = map word_of_nat [unat b0, unat b1, unat b2, unat b3]" by simp
  then have "[b0, b1, b2, b3] = map word_of_nat [240 + a, 128 + b, 128 + c, 128 + d]"
    unfolding ab(1,2,3,4) .
  then show ?thesis using g e f by (auto simp: ValidRune_iff utf8_def utf8_nat_def)
qed

lemma DecodeRune_sound:
  assumes "DecodeRune p = (r, n)" "p \<noteq> []" "(r, n) \<noteq> bad"
  shows "ValidRune r \<and> take n p = utf8 r \<and> n \<le> length p"
proof -
  obtain b0 q where p: "p = b0 # q" using assms(2) by (cases p) auto
  consider "unat b0 < 128" | "128 \<le> unat b0" "unat b0 < 194 \<or> 244 < unat b0"
    | "194 \<le> unat b0" "unat b0 < 224" | "224 \<le> unat b0" "unat b0 < 240" | "240 \<le> unat b0" "unat b0 \<le> 244"
    by linarith
  then show ?thesis
  proof cases
    case 1
    then have "r = ucast b0" "n = 1" using assms(1) DecodeRune_ascii [OF 1, of q] by (auto simp: p)
    moreover from this have "unat r = unat b0" by (simp only: unat_ucast_rune)
    ultimately show ?thesis using 1 p by (simp add: ValidRune_iff utf8_def utf8_nat_def)
  next
    case 2
    then show ?thesis using DecodeRune_bad0 [OF 2] assms by (simp add: p)
  next
    case 3
    then show ?thesis
      using assms DecodeRune_sound_2 [OF 3] unfolding p DecodeRune_2 [OF 3]
      by (auto split: list.splits if_splits)
  next
    case 4
    then show ?thesis
      using assms DecodeRune_sound_3 [OF 4] unfolding p DecodeRune_3 [OF 4]
      by (auto split: list.splits if_splits)
  next
    case 5
    then show ?thesis
      using assms DecodeRune_sound_4 [OF 5] unfolding p DecodeRune_4 [OF 5]
      by (auto split: list.splits if_splits)
  qed
qed

section \<open>Scanning a whole buffer\<close>

lemma RuneSelf_iff: "b < RuneSelf \<longleftrightarrow> unat b < 128"
  by (simp add: RuneSelf_def word_less_nat_alt)

text \<open>Both bodies agree with \<open>DecodeRune\<close> on what starts at \<open>i\<close>.\<close>

lemma next_drop:
  assumes "i < length p"
  shows "valid_next p i = map_option ((+) i) (valid_next (drop i p) 0)"
proof -
  have nth: "drop i p ! k = p ! (i + k)" for k using assms by simp
  have size: "(0 + k > length (drop i p)) = (i + k > length p)" for k using assms by auto
  show ?thesis
    unfolding valid_next_def Let_def nth size
    by (simp add: if_distrib [of "map_option ((+) i)"] cong: if_cong)
qed

lemma ascii_not_bad: "unat b < 128 \<Longrightarrow> (ucast b, Suc 0) \<noteq> bad" for b :: u8
proof
  assume b: "unat b < 128" "(ucast b, Suc 0) = bad"
  then have "unat (ucast b :: rune) = unat RuneError" by (simp add: bad_def)
  then have "unat b = 65533" unfolding unat_ucast_rune by (simp add: RuneError_def)
  with b(1) show False by simp
qed

lemma bad_size: "(r, n) = bad \<longleftrightarrow> False" if "n \<noteq> 1"
  using that by (simp add: bad_def)

lemma valid_next_0:
  "valid_next (b0 # q) 0 = (let d = DecodeRune (b0 # q) in if d = bad then None else Some (snd d))"
proof -
  consider "unat b0 < 128" | "128 \<le> unat b0" "unat b0 < 194 \<or> 244 < unat b0"
    | "194 \<le> unat b0" "unat b0 < 224" | "224 \<le> unat b0" "unat b0 < 240" | "240 \<le> unat b0" "unat b0 \<le> 244"
    by linarith
  then show ?thesis
  proof cases
    case 1
    then show ?thesis using ascii_not_bad [OF 1] by (simp add: valid_next_def RuneSelf_iff DecodeRune_ascii)
  next
    case 2
    then show ?thesis
      by (simp add: valid_next_def RuneSelf_iff first_xx DecodeRune_bad0 [OF 2])
  next
    case 3
    have so: "second_ok (unat b0) (unat b1) \<longleftrightarrow> cont b1" for b1
      using 3 by (auto simp: second_ok_def cont_def)
    show ?thesis
    proof (cases q)
      case (Cons b1 q')
      then show ?thesis using 3 second_iff [of b0 b1] unfolding so
        by (simp add: valid_next_def RuneSelf_iff first_xx size_cases DecodeRune_2 [OF 3] Let_def
            split del: if_split cong: if_cong) (auto simp: bad_size)
    qed (use 3 in \<open>simp add: valid_next_def RuneSelf_iff first_xx size_cases DecodeRune_2 [OF 3]\<close>)
  next
    case 4
    show ?thesis
    proof (cases "\<exists>b1 b2 q'. q = b1 # b2 # q'")
      case True
      then obtain b1 b2 q' where q: "q = b1 # b2 # q'" by blast
      show ?thesis using 4 second_iff [of b0 b1] cont_iff [of b2] unfolding q
        by (simp add: valid_next_def RuneSelf_iff first_xx size_cases DecodeRune_3 [OF 4] Let_def
            split del: if_split cong: if_cong) (auto simp: bad_size)
    next
      case False
      then have "length q < 2" by (cases q; cases "tl q") auto
      moreover from False have "DecodeRune (b0 # q) = bad"
        unfolding DecodeRune_3 [OF 4] by (auto split: list.splits)
      ultimately show ?thesis using 4 by (simp add: valid_next_def RuneSelf_iff first_xx size_cases)
    qed
  next
    case 5
    show ?thesis
    proof (cases "\<exists>b1 b2 b3 q'. q = b1 # b2 # b3 # q'")
      case True
      then obtain b1 b2 b3 q' where q: "q = b1 # b2 # b3 # q'" by blast
      show ?thesis using 5 second_iff [of b0 b1] cont_iff [of b2] cont_iff [of b3] unfolding q
        by (simp add: valid_next_def RuneSelf_iff first_xx size_cases DecodeRune_4 [OF 5] Let_def
            numeral_3_eq_3 split del: if_split cong: if_cong) (auto simp: bad_size)
    next
      case False
      then have "length q < 3" by (cases q; cases "tl q"; cases "tl (tl q)") auto
      moreover from False have "DecodeRune (b0 # q) = bad"
        unfolding DecodeRune_4 [OF 5] by (auto split: list.splits)
      ultimately show ?thesis using 5 by (simp add: valid_next_def RuneSelf_iff first_xx size_cases)
    qed
  qed
qed

text \<open>Where \<open>Valid\<close> gives up, \<open>RuneCount\<close> counts one byte.\<close>

lemma count_next_valid: "count_next p i = (case valid_next p i of None \<Rightarrow> i + 1 | Some j \<Rightarrow> j)"
  by (simp add: count_next_def valid_next_def Let_def)

lemma valid_next_gt: "valid_next p i = Some j \<Longrightarrow> i < j"
  by (auto simp: valid_next_def Let_def size_cases first_xx RuneSelf_iff split: if_splits)

lemma count_next_gt: "i < count_next p i"
  by (auto simp: count_next_valid valid_next_gt split: option.split)

function count_loop :: "u8 list \<Rightarrow> nat \<Rightarrow> nat \<Rightarrow> nat" where
  "count_loop p i n = (if i < length p then count_loop p (count_next p i) (n + 1) else n)"
  by pat_completeness auto
termination
  by (relation "measure (\<lambda>(p, i, n). length p - i)") (simp_all add: count_next_gt diff_less_mono2)

function valid_loop :: "u8 list \<Rightarrow> nat \<Rightarrow> bool" where
  "valid_loop p i =
     (if i < length p then (case valid_next p i of None \<Rightarrow> False | Some j \<Rightarrow> valid_loop p j) else True)"
  by pat_completeness auto
termination
  by (relation "measure (\<lambda>(p, i). length p - i)") (auto dest: valid_next_gt)

declare count_loop.simps [simp del] valid_loop.simps [simp del]

definition RuneCount :: "u8 list \<Rightarrow> nat" where
  "RuneCount p = count_loop p 0 0"

definition RuneCountInString :: "u8 list \<Rightarrow> nat" where
  "RuneCountInString s = count_loop s 0 0"

definition Valid :: "u8 list \<Rightarrow> bool" where
  "Valid p = (let p = valid_skip p in valid_loop p 0)"

definition ValidString :: "u8 list \<Rightarrow> bool" where
  "ValidString s = (let s = valid_skip s in valid_loop s 0)"

text \<open>The reference: decode a rune, drop its bytes, and so on.\<close>

lemma DecodeRune_pos: "p \<noteq> [] \<Longrightarrow> 0 < snd (DecodeRune p)"
  by (simp add: DecodeRune_def Let_def)

function decodes :: "u8 list \<Rightarrow> (rune \<times> nat) list" where
  "decodes p = (if p = [] then [] else let d = DecodeRune p in d # decodes (drop (snd d) p))"
  by pat_completeness auto
termination
  by (relation "measure length") (simp_all add: DecodeRune_pos)

declare decodes.simps [simp del]

lemma decodes_Nil [simp]: "decodes [] = []"
  by (simp add: decodes.simps)

lemma decodes_ascii: "unat b < 128 \<Longrightarrow> decodes (b # q) = (ucast b, 1) # decodes q"
  by (subst decodes.simps) (simp add: DecodeRune_ascii)

lemma valid_next_decode:
  assumes "i < length p"
  shows "valid_next p i
    = (let d = DecodeRune (drop i p) in if d = bad then None else Some (i + snd d))"
proof -
  have "drop i p = p ! i # drop (i + 1) p" using assms by (simp add: Cons_nth_drop_Suc)
  then show ?thesis
    using next_drop [OF assms] valid_next_0 [of "p ! i" "drop (i + 1) p"] by (simp add: Let_def)
qed

lemma valid_loop_decodes: "valid_loop p i \<longleftrightarrow> list_all (\<lambda>d. d \<noteq> bad) (decodes (drop i p))"
proof (induction "length p - i" arbitrary: i rule: less_induct)
  case less
  show ?case
  proof (cases "i < length p")
    case True
    define d where "d = DecodeRune (drop i p)"
    have dec: "decodes (drop i p) = d # decodes (drop (i + snd d) p)"
      using True by (subst decodes.simps) (simp add: d_def Let_def add.commute)
    have "0 < snd d" unfolding d_def using True by (intro DecodeRune_pos) simp
    then have IH: "valid_loop p (i + snd d) \<longleftrightarrow> list_all (\<lambda>d. d \<noteq> bad) (decodes (drop (i + snd d) p))"
      using True by (intro less) linarith
    show ?thesis
      using True IH unfolding dec
      by (subst valid_loop.simps) (simp add: valid_next_decode Let_def flip: d_def)
  qed (simp add: valid_loop.simps)
qed

lemma count_loop_decodes: "count_loop p i n = n + length (decodes (drop i p))"
proof (induction "length p - i" arbitrary: i n rule: less_induct)
  case less
  show ?case
  proof (cases "i < length p")
    case True
    define d where "d = DecodeRune (drop i p)"
    have dec: "decodes (drop i p) = d # decodes (drop (i + snd d) p)"
      using True by (subst decodes.simps) (simp add: d_def Let_def add.commute)
    have next_eq: "count_next p i = i + snd d"
      using valid_next_decode [OF True]
      by (auto simp: count_next_valid Let_def bad_def split: option.split if_splits simp flip: d_def)
    have "0 < snd d" unfolding d_def using True by (intro DecodeRune_pos) simp
    then have "count_loop p (i + snd d) (n + 1) = n + 1 + length (decodes (drop (i + snd d) p))"
      using True by (intro less) linarith
    then show ?thesis
      using True unfolding dec by (subst count_loop.simps) (simp add: next_eq)
  qed (simp add: count_loop.simps)
qed

text \<open>Eight bytes that pass the test of the fast path are ASCII.\<close>

lemma ascii_bit: "unat b < 128 \<longleftrightarrow> \<not> bit b 7" for b :: u8
proof
  assume "unat b < 128"
  then show "\<not> bit b 7" using bit_imp_ge [of "unat b" 7] by (auto simp: bit_unsigned_iff)
next
  assume n: "\<not> bit b 7"
  have "b = take_bit 7 b"
  proof (rule bit_word_eqI)
    fix k assume k: "k < LENGTH(8)"
    show "bit b k = bit (take_bit 7 b) k"
      using n k by (cases "k = 7") (auto simp: bit_take_bit_iff)
  qed
  then have "unat b = unat b mod 128" using unat_take_bit [of 7 b] by simp
  then show "unat b < 128" by (metis mod_less_divisor zero_less_numeral)
qed

lemma fast_path:
  fixes b0 b1 b2 b3 :: u8 and w :: u32
  assumes "(ucast b0 OR push_bit 8 (ucast b1) OR push_bit 16 (ucast b2) OR push_bit 24 (ucast b3) OR w)
    AND 0x80808080 = 0"
  shows "unat b0 < 128 \<and> unat b1 < 128 \<and> unat b2 < 128 \<and> unat b3 < 128"
proof -
  let ?v = "ucast b0 OR push_bit 8 (ucast b1) OR push_bit 16 (ucast b2) OR push_bit 24 (ucast b3) OR w"
  have m: "bit (0x80808080 :: u32) k" if "k \<in> {7, 15, 23, 31}" for k
    using that by auto
  have v: "\<not> bit ?v k" if "k \<in> {7, 15, 23, 31}" for k
    using assms m [OF that] by (metis bit_and_iff bit_0_eq bot_apply bot_bool_def)
  have "\<not> bit b0 7" using v [of 7] by (simp add: bit_or_iff bit_unsigned_iff)
  moreover have "\<not> bit b1 7" using v [of 15] by (simp add: bit_or_iff bit_unsigned_iff bit_push_bit_iff)
  moreover have "\<not> bit b2 7" using v [of 23] by (simp add: bit_or_iff bit_unsigned_iff bit_push_bit_iff)
  moreover have "\<not> bit b3 7" using v [of 31] by (simp add: bit_or_iff bit_unsigned_iff bit_push_bit_iff)
  ultimately show ?thesis by (simp add: ascii_bit)
qed

lemma valid_skip_decodes:
  "list_all (\<lambda>d. d \<noteq> bad) (decodes (valid_skip p)) = list_all (\<lambda>d. d \<noteq> bad) (decodes p)"
proof (induction p rule: valid_skip.induct)
  case (1 p)
  show ?case
  proof (cases "length p \<ge> 8")
    case True
    then obtain b0 b1 b2 b3 b4 b5 b6 b7 q where p: "p = b0 # b1 # b2 # b3 # b4 # b5 # b6 # b7 # q"
      by (auto simp: numeral_eq_Suc Suc_le_length_iff)
    let ?f = "ucast b0 OR push_bit 8 (ucast b1) OR push_bit 16 (ucast b2) OR push_bit 24 (ucast b3) :: u32"
    let ?s = "ucast b4 OR push_bit 8 (ucast b5) OR push_bit 16 (ucast b6) OR push_bit 24 (ucast b7) :: u32"
    show ?thesis
    proof (cases "(?f OR ?s) AND 0x80808080 = 0")
      case zero: True
      have a: "unat b0 < 128" "unat b1 < 128" "unat b2 < 128" "unat b3 < 128"
        using zero fast_path [of b0 b1 b2 b3 ?s] by (simp_all only: or.assoc)
      have "(?s OR ?f) AND 0x80808080 = 0" using zero by (simp only: or.commute)
      then have b: "unat b4 < 128" "unat b5 < 128" "unat b6 < 128" "unat b7 < 128"
        using fast_path [of b4 b5 b6 b7 ?f] by (simp_all only: or.assoc)
      have "valid_skip p = valid_skip q"
        using zero by (subst valid_skip.simps) (simp add: p Let_def)
      moreover have "list_all (\<lambda>d. d \<noteq> bad) (decodes p) = list_all (\<lambda>d. d \<noteq> bad) (decodes q)"
        using a b by (simp add: p decodes_ascii ascii_not_bad)
      moreover have "list_all (\<lambda>d. d \<noteq> bad) (decodes (valid_skip q)) = list_all (\<lambda>d. d \<noteq> bad) (decodes q)"
        using 1 [OF True refl refl] zero by (simp add: p)
      ultimately show ?thesis by simp
    next
      case False
      then have "valid_skip p = p" by (subst valid_skip.simps) (simp add: p Let_def)
      then show ?thesis by simp
    qed
  next
    case False
    then have "valid_skip p = p" by (subst valid_skip.simps) simp
    then show ?thesis by simp
  qed
qed

lemma Valid_decodes: "Valid p \<longleftrightarrow> list_all (\<lambda>d. d \<noteq> bad) (decodes p)"
  by (simp add: Valid_def Let_def valid_loop_decodes valid_skip_decodes)

lemma utf8_not_bad: "(r, length (utf8 r)) \<noteq> bad"
  by (auto simp: bad_def length_utf8 RuneError_def)

lemma decodes_utf8:
  "list_all ValidRune rs \<Longrightarrow> decodes (concat (map utf8 rs)) = map (\<lambda>r. (r, length (utf8 r))) rs"
proof (induction rs)
  case (Cons r rs)
  have "utf8 r \<noteq> []" using length_utf8 [of r] by (auto split: if_splits)
  then show ?case
    using Cons by (subst decodes.simps) (simp add: DecodeRune_utf8)
qed simp

lemma decodes_concat:
  "list_all (\<lambda>d. d \<noteq> bad) (decodes p) \<Longrightarrow>
     list_all ValidRune (map fst (decodes p)) \<and> p = concat (map utf8 (map fst (decodes p)))"
proof (induction p rule: decodes.induct)
  case (1 p)
  show ?case
  proof (cases "p = []")
    case False
    obtain r n where d: "DecodeRune p = (r, n)" by (cases "DecodeRune p")
    have dec: "decodes p = (r, n) # decodes (drop n p)"
      using False d by (subst decodes.simps) simp
    have "(r, n) \<noteq> bad" using 1(2) by (simp add: dec)
    then have r: "ValidRune r" "take n p = utf8 r" using DecodeRune_sound [OF d False] by auto
    have "list_all (\<lambda>d. d \<noteq> bad) (decodes (drop n p))" using 1(2) by (simp add: dec)
    with 1(1) [OF False d [symmetric]]
    have IH: "list_all ValidRune (map fst (decodes (drop n p)))"
      "drop n p = concat (map utf8 (map fst (decodes (drop n p))))" by simp_all
    have "p = utf8 r @ drop n p" using r(2) by (metis append_take_drop_id)
    also have "drop n p = concat (map utf8 (map fst (decodes (drop n p))))" by (rule IH(2))
    finally have "p = concat (map utf8 (map fst (decodes p)))" by (simp add: dec)
    then show ?thesis using IH(1) r(1) by (simp add: dec)
  qed simp
qed

section \<open>The last rune, and incomplete runes\<close>

text \<open>\<open>for start--; start >= lim; start--\<close> with an \<open>int\<close> that may go below 0.\<close>

function back_loop :: "u8 list \<Rightarrow> int \<Rightarrow> int \<Rightarrow> int" where
  "back_loop p lim start =
     (if start \<ge> lim then (if RuneStart (p ! nat start) then start else back_loop p lim (start - 1))
      else start)"
  by pat_completeness auto
termination by (relation "measure (\<lambda>(p, lim, start). nat (start - lim + 1))") auto

declare back_loop.simps [simp del]

definition DecodeLastRune :: "u8 list \<Rightarrow> rune \<times> nat" where
  "DecodeLastRune p =
     (let end = length p in
      if end = 0 then (RuneError, 0)
      else let start = int end - 1; r = ucast (p ! nat start) :: rune in
        if sint r < 0x80 then (r, 1)
        else let lim = int end - 4;
                 lim = (if lim < 0 then 0 else lim);
                 start = back_loop p lim (start - 1);
                 start = (if start < 0 then 0 else start);
                 (r, size) = DecodeRune (take (end - nat start) (drop (nat start) p))
          in if start + int size \<noteq> int end then (RuneError, 1) else (r, size))"

definition DecodeLastRuneInString :: "u8 list \<Rightarrow> rune \<times> nat" where
  "DecodeLastRuneInString s =
     (let end = length s in
      if end = 0 then (RuneError, 0)
      else let start = int end - 1; r = ucast (s ! nat start) :: rune in
        if sint r < 0x80 then (r, 1)
        else let lim = int end - 4;
                 lim = (if lim < 0 then 0 else lim);
                 start = back_loop s lim (start - 1);
                 start = (if start < 0 then 0 else start);
                 (r, size) = DecodeRuneInString (take (end - nat start) (drop (nat start) s))
          in if start + int size \<noteq> int end then (RuneError, 1) else (r, size))"

lemma RuneStart_iff: "RuneStart b \<longleftrightarrow> \<not> cont b"
proof -
  have "b AND 0xC0 = push_bit 6 (drop_bit 6 b)"
  proof (rule bit_word_eqI)
    fix k assume "k < LENGTH(8)"
    then have "k \<in> {0, 1, 2, 3, 4, 5, 6, 7}" by auto
    then show "bit (b AND 0xC0) k = bit (push_bit 6 (drop_bit 6 b)) k"
      by (auto simp: bit_and_iff bit_push_bit_iff bit_drop_bit_eq)
  qed
  moreover have "2 ^ 6 * unat (drop_bit 6 b) < 2 ^ LENGTH(8)"
    using u8_less [of b] by (simp add: unat_drop_bit)
  ultimately have "unat (b AND 0xC0) = 64 * (unat b div 64)"
    using unat_push_bit [of 6 "drop_bit 6 b"] by (simp add: unat_drop_bit)
  moreover have "RuneStart b \<longleftrightarrow> unat (b AND 0xC0) \<noteq> 128"
    by (simp add: RuneStart_def word_unat_eq_iff)
  ultimately show ?thesis by (auto simp: cont_def)
qed

lemma utf8_shape:
  assumes "ValidRune r"
  shows "\<exists>b0 bs. utf8 r = b0 # bs \<and> \<not> cont b0 \<and> list_all cont bs \<and> length bs < 4
    \<and> (bs = [] \<longleftrightarrow> unat b0 < 128)"
proof -
  have e: "DecodeRune (utf8 r) = (r, length (utf8 r))" using DecodeRune_utf8 [OF assms, of "[]"] by simp
  obtain b0 bs where u: "utf8 r = b0 # bs" using length_utf8 [of r] by (cases "utf8 r") (auto split: if_splits)
  have nb: "DecodeRune (b0 # bs) \<noteq> bad" using e utf8_not_bad [of r] by (simp add: u)
  have len: "snd (DecodeRune (b0 # bs)) = length (b0 # bs)" using e by (simp add: u)
  consider "unat b0 < 128" | "128 \<le> unat b0" "unat b0 < 194 \<or> 244 < unat b0"
    | "194 \<le> unat b0" "unat b0 < 224" | "224 \<le> unat b0" "unat b0 < 240" | "240 \<le> unat b0" "unat b0 \<le> 244"
    by linarith
  then show ?thesis
  proof cases
    case 1
    then have "bs = []" using len by (simp add: DecodeRune_ascii)
    then show ?thesis using 1 u by (simp add: cont_def)
  next
    case 2
    then show ?thesis using nb DecodeRune_bad0 [OF 2] by simp
  next
    case 3
    then show ?thesis using nb len unfolding u DecodeRune_2 [OF 3]
      by (auto simp: cont_def split: list.splits if_splits)
  next
    case 4
    then show ?thesis using nb len unfolding u DecodeRune_3 [OF 4]
      by (auto simp: cont_def dest: second_cont split: list.splits if_splits)
  next
    case 5
    then show ?thesis using nb len unfolding u DecodeRune_4 [OF 5]
      by (auto simp: cont_def dest: second_cont split: list.splits if_splits)
  qed
qed

lemma back_loop_conts:
  assumes "\<not> cont b0" "list_all cont cs" "lim \<le> int (length q)"
  shows "back_loop (q @ b0 # cs @ ds) lim (int (length q + length cs)) = int (length q)"
  using assms(2)
proof (induction cs arbitrary: ds rule: rev_induct)
  case Nil
  then show ?case using assms(1,3) by (subst back_loop.simps) (simp add: RuneStart_iff nth_append)
next
  case (snoc c cs)
  have "back_loop (q @ b0 # (cs @ [c]) @ ds) lim (int (length q + length (cs @ [c])))
      = back_loop (q @ b0 # cs @ c # ds) lim (int (length q + length cs))"
  proof (subst back_loop.simps)
    have "(q @ b0 # cs @ c # ds) ! (length q + Suc (length cs)) = c" by (simp add: nth_append)
    moreover have "nat (int (length q + length (cs @ [c]))) = length q + Suc (length cs)" by simp
    ultimately show "(if lim \<le> int (length q + length (cs @ [c])) then
        if RuneStart ((q @ b0 # (cs @ [c]) @ ds) ! nat (int (length q + length (cs @ [c]))))
        then int (length q + length (cs @ [c]))
        else back_loop (q @ b0 # (cs @ [c]) @ ds) lim (int (length q + length (cs @ [c])) - 1)
        else int (length q + length (cs @ [c]))) = back_loop (q @ b0 # cs @ c # ds) lim (int (length q + length cs))"
      using snoc.prems assms(3) by (simp add: RuneStart_iff)
  qed
  then show ?case using snoc by simp
qed

lemma DecodeLastRune_utf8:
  assumes "ValidRune r"
  shows "DecodeLastRune (q @ utf8 r) = (r, length (utf8 r))"
proof -
  obtain b0 bs where u: "utf8 r = b0 # bs" "\<not> cont b0" "list_all cont bs" "length bs < 4"
    "bs = [] \<longleftrightarrow> unat b0 < 128" using utf8_shape [OF assms] by blast
  have e: "DecodeRune (utf8 r) = (r, length (utf8 r))" using DecodeRune_utf8 [OF assms, of "[]"] by simp
  have sb: "sint (ucast b :: rune) = int (unat b)" for b :: u8
    using u8_less [of b] by (simp add: sint_rune unat_ucast_rune)
  show ?thesis
  proof (cases bs rule: rev_cases)
    case Nil
    then have "r = ucast b0" using e u(1,5) by (simp add: DecodeRune_ascii)
    then show ?thesis using Nil u(1,5) by (simp add: DecodeLastRune_def Let_def nth_append sb del: of_nat_unat)
  next
    case (snoc cs c)
    define lim where "lim = (if int (length q + length (utf8 r)) - 4 < 0 then 0 else int (length q + length (utf8 r)) - 4)"
    have lim: "lim \<le> int (length q)" using u(1,4) by (simp add: lim_def)
    have c: "128 \<le> unat c" "list_all cont cs" using u(3) snoc by (simp_all add: cont_def)
    have len: "length (utf8 r) = Suc (Suc (length cs))" by (simp add: u(1) snoc)
    have last: "(q @ utf8 r) ! (length q + Suc (length cs)) = c" by (simp add: u(1) snoc nth_append)
    have loop: "back_loop (q @ utf8 r) lim (int (length q + length cs)) = int (length q)"
      using back_loop_conts [OF u(2) c(2) lim, of "[c]"] by (simp add: u(1) snoc)
    have i: "nat (int (length q + length (utf8 r)) - 1) = length q + Suc (length cs)"
      "int (length q + length (utf8 r)) - 1 - 1 = int (length q + length cs)" using len by simp_all
    have "\<not> sint (ucast c :: rune) < 128" using c(1) by (simp add: sb del: of_nat_unat)
    then show ?thesis
      unfolding DecodeLastRune_def Let_def length_append i last lim_def [symmetric] loop
      using e len by simp
  qed
qed

text \<open>Appending bytes changes what is decoded exactly when the rune is not full.\<close>

lemma FullRune_Cons:
  assumes "194 \<le> unat b0" "unat b0 \<le> 244"
  shows "FullRune (b0 # q) \<longleftrightarrow>
     unat (first b0 AND 7) \<le> Suc (length q) \<or>
     0 < length q \<and> \<not> second_ok (unat b0) (unat (q ! 0)) \<or>
     1 < length q \<and> \<not> cont (q ! 1)"
  using second_iff [OF assms, of "q ! 0"] cont_iff [of "q ! 1"]
  by (simp add: FullRune_def Let_def) blast

lemma FullRune_early: "unat b0 < 194 \<or> 244 < unat b0 \<Longrightarrow> FullRune (b0 # q)"
  by (auto simp: FullRune_def Let_def size_cases)

lemma DecodeRune_early: "unat b0 < 194 \<or> 244 < unat b0 \<Longrightarrow> DecodeRune (b0 # p) = DecodeRune [b0]"
  by (cases "unat b0 < 128") (simp_all add: DecodeRune_ascii DecodeRune_bad0)

lemma FullRune_stable:
  assumes "FullRune p"
  shows "DecodeRune (p @ q) = DecodeRune p"
proof -
  obtain b0 p' where p: "p = b0 # p'" using assms by (cases p) (auto simp: FullRune_def)
  consider "unat b0 < 194 \<or> 244 < unat b0"
    | "194 \<le> unat b0" "unat b0 < 224" | "224 \<le> unat b0" "unat b0 < 240" | "240 \<le> unat b0" "unat b0 \<le> 244"
    by linarith
  then show ?thesis
  proof cases
    case 1
    then show ?thesis using DecodeRune_early [OF 1] by (metis append_Cons p)
  next
    case 2
    then obtain b1 p'' where "p' = b1 # p''"
      using assms p FullRune_Cons [of b0 p'] by (cases p') (auto simp: size_cases)
    then show ?thesis using DecodeRune_2 [OF 2] by (simp add: p)
  next
    case 3
    show ?thesis
    proof (cases "\<exists>b1 b2 p''. p' = b1 # b2 # p''")
      case True
      then show ?thesis using DecodeRune_3 [OF 3] by (auto simp: p)
    next
      case False
      then obtain b1 where "p' = [b1]" "\<not> second_ok (unat b0) (unat b1)"
        using 3 assms p FullRune_Cons [of b0 p'] by (cases p'; cases "tl p'") (auto simp: size_cases)
      then show ?thesis using DecodeRune_3 [OF 3] by (auto simp: p split: list.split)
    qed
  next
    case 4
    show ?thesis
    proof (cases "\<exists>b1 b2 b3 p''. p' = b1 # b2 # b3 # p''")
      case True
      then show ?thesis using DecodeRune_4 [OF 4] by (auto simp: p)
    next
      case False
      then consider b1 where "p' = [b1]" "\<not> second_ok (unat b0) (unat b1)"
        | b1 b2 where "p' = [b1, b2]" "\<not> second_ok (unat b0) (unat b1) \<or> \<not> cont b2"
        using 4 assms p FullRune_Cons [of b0 p']
        by (cases p'; cases "tl p'"; cases "tl (tl p')") (auto simp: size_cases)
      then show ?thesis
      proof cases
        case 1
        then show ?thesis using DecodeRune_4 [OF 4] by (auto simp: p split: list.split)
      next
        case 2
        then show ?thesis using DecodeRune_4 [OF 4] by (auto simp: p split: list.split)
      qed
    qed
  qed
qed

lemma second_ok_witness: "\<exists>b :: u8. second_ok n (unat b)"
proof -
  have "second_ok n (unat (0x80 :: u8)) \<or> second_ok n (unat (0xA0 :: u8)) \<or> second_ok n (unat (0x90 :: u8))"
    by (simp add: second_ok_def)
  then show ?thesis by blast
qed

lemma FullRune_complete:
  assumes "\<not> FullRune p"
  shows "\<exists>q. DecodeRune (p @ q) \<noteq> DecodeRune p"
proof (cases p)
  case Nil
  have "DecodeRune [0] \<noteq> DecodeRune []" by (simp add: DecodeRune_ascii) (simp add: DecodeRune_def)
  then show ?thesis using Nil by (metis append_Nil)
next
  case (Cons b0 p')
  obtain s where s: "second_ok (unat b0) (unat (s :: u8))" using second_ok_witness by blast
  have c: "cont 0x80" by (simp add: cont_def)
  have b0: "194 \<le> unat b0 \<and> unat b0 \<le> 244" using assms FullRune_early [of b0 p'] Cons by (metis not_le)
  then have np: "unat (first b0 AND 7) > Suc (length p')"
    "0 < length p' \<longrightarrow> second_ok (unat b0) (unat (p' ! 0))" "1 < length p' \<longrightarrow> cont (p' ! 1)"
    using assms FullRune_Cons [of b0 p'] Cons by auto
  consider "194 \<le> unat b0" "unat b0 < 224" | "224 \<le> unat b0" "unat b0 < 240" | "240 \<le> unat b0" "unat b0 \<le> 244"
    using b0 by linarith
  then show ?thesis
  proof cases
    case 1
    then have "p' = []" using np(1) by (simp add: size_cases)
    then have "DecodeRune (p @ [0x80]) \<noteq> DecodeRune p"
      using DecodeRune_2 [OF 1] c by (simp add: Cons bad_def)
    then show ?thesis by blast
  next
    case 2
    then consider "p' = []" | b1 where "p' = [b1]" using np(1)
      by (cases p'; cases "tl p'") (auto simp: size_cases)
    then show ?thesis
    proof cases
      case 1
      then have "DecodeRune (p @ [s, 0x80]) \<noteq> DecodeRune p"
        using DecodeRune_3 [OF 2] c s by (simp add: Cons bad_def)
      then show ?thesis by blast
    next
      case (2 b1)
      then have "DecodeRune (p @ [0x80]) \<noteq> DecodeRune p"
        using DecodeRune_3 [OF \<open>224 \<le> unat b0\<close> \<open>unat b0 < 240\<close>] c np(2) by (simp add: Cons bad_def)
      then show ?thesis by blast
    qed
  next
    case 3
    note d = DecodeRune_4 [OF 3]
    from 3 consider "p' = []" | b1 where "p' = [b1]" | b1 b2 where "p' = [b1, b2]" using np(1)
      by (cases p'; cases "tl p'"; cases "tl (tl p')") (auto simp: size_cases)
    then show ?thesis
    proof cases
      case 1
      then have "DecodeRune (p @ [s, 0x80, 0x80]) \<noteq> DecodeRune p"
        using d c s by (simp add: Cons bad_def)
      then show ?thesis by blast
    next
      case (2 b1)
      then have "DecodeRune (p @ [0x80, 0x80]) \<noteq> DecodeRune p"
        using d c np(2) by (simp add: Cons bad_def)
      then show ?thesis by blast
    next
      case (3 b1 b2)
      then have "DecodeRune (p @ [0x80]) \<noteq> DecodeRune p"
        using d c np(2,3) by (simp add: Cons bad_def)
      then show ?thesis by blast
    qed
  qed
qed

lemma RuneLen_utf8: "RuneLen r = (if ValidRune r then int (length (utf8 r)) else -1)"
  using rune_less [of r]
  by (auto simp: RuneLen_def ValidRune_iff length_utf8 sint_rune [of r] rune1Max_def rune2Max_def rune3Max_def
      MaxRune_def surrogateMin_def surrogateMax_def simp del: of_nat_unat)

lemma InString:
  "FullRuneInString = FullRune" "DecodeRuneInString = DecodeRune" "DecodeLastRuneInString = DecodeLastRune"
  "RuneCountInString = RuneCount" "ValidString = Valid"
proof -
  show d: "DecodeRuneInString = DecodeRune" unfolding fun_eq_iff DecodeRuneInString_def DecodeRune_def by simp
  show "FullRuneInString = FullRune" by (simp add: fun_eq_iff FullRuneInString_def FullRune_def)
  show "DecodeLastRuneInString = DecodeLastRune"
    unfolding fun_eq_iff DecodeLastRuneInString_def DecodeLastRune_def d by simp
  show "RuneCountInString = RuneCount" by (simp add: fun_eq_iff RuneCountInString_def RuneCount_def)
  show "ValidString = Valid" by (simp add: fun_eq_iff ValidString_def Valid_def)
qed

section \<open>Properties\<close>

text \<open>
  \<open>EncodeRune\<close> writes exactly the encoding of RFC 3629 at the front of the buffer and returns its
  length, writes the encoding of U+FFFD for a surrogate, a negative or a too large rune, and panics
  exactly when the buffer is shorter than the encoding.
\<close>

theorem EncodeRune_writes:
  "EncodeRune p r =
     (let e = utf8 (if ValidRune r then r else RuneError); n = length e
      in if length p < n then None else Some (e @ drop n p, n))"
  by (rule EncodeRune_eq)

text \<open>
  C23: What \<open>EncodeRune\<close> wrote for a valid rune, \<open>DecodeRune\<close> reads back from the front of any longer
  buffer and \<open>DecodeLastRune\<close> from the end of any longer buffer, with the number of bytes that
  \<open>RuneLen\<close> announces.
\<close>

theorem utf8_roundtrip:
  assumes "ValidRune r" and "EncodeRune p r = Some (b, n)"
  shows "DecodeRune (take n b @ q) = (r, n) \<and> DecodeLastRune (q @ take n b) = (r, n) \<and> RuneLen r = int n"
proof -
  have b: "take n b = utf8 r" and n: "n = length (utf8 r)"
    using assms by (auto simp: EncodeRune_eq Let_def split: if_splits)
  show ?thesis
    unfolding b unfolding n using assms(1) by (simp add: DecodeRune_utf8 DecodeLastRune_utf8 RuneLen_utf8)
qed

theorem utf8_roundtrip_witness:
  "DecodeRune (take 3 [0xE2, 0x82, 0xAC] @ [7]) = (0x20AC, 3) \<and>
   DecodeLastRune ([7] @ take 3 [0xE2, 0x82, 0xAC]) = (0x20AC, 3) \<and> RuneLen 0x20AC = int 3"
proof (rule utf8_roundtrip)
  show "ValidRune 0x20AC" by (simp add: ValidRune_iff)
  show "EncodeRune [0, 0, 0] 0x20AC = Some ([0xE2, 0x82, 0xAC], 3)"
    by (simp add: EncodeRune_eq ValidRune_iff Let_def utf8_def utf8_nat_def)
qed

text \<open>
  C24: \<open>Valid\<close>, with its fast path and its table of second bytes, accepts exactly the concatenations
  of encodings of valid runes: no overlong form, no surrogate, no truncated sequence.
\<close>

theorem Valid_grammar: "Valid p \<longleftrightarrow> (\<exists>rs. list_all ValidRune rs \<and> p = concat (map utf8 rs))"
proof
  assume "Valid p"
  then show "\<exists>rs. list_all ValidRune rs \<and> p = concat (map utf8 rs)"
    using decodes_concat [of p] unfolding Valid_decodes by blast
next
  assume "\<exists>rs. list_all ValidRune rs \<and> p = concat (map utf8 rs)"
  then obtain rs where rs: "list_all ValidRune rs" "p = concat (map utf8 rs)" by blast
  have "list_all (\<lambda>d. d \<noteq> bad) (map (\<lambda>r. (r, length (utf8 r))) rs)"
    by (simp add: list_all_iff utf8_not_bad)
  then show "Valid p" unfolding Valid_decodes rs(2) decodes_utf8 [OF rs(1)] .
qed

text \<open>
  \<open>RuneCount\<close>, which does not decode, returns for every buffer, valid or not, the number of steps
  that decoding it rune by rune takes.
\<close>

theorem RuneCount_decodes: "RuneCount p = length (decodes p)"
  by (simp add: RuneCount_def count_loop_decodes)

text \<open>
  \<open>FullRune\<close> is true exactly when no bytes that may still arrive can change the result of
  \<open>DecodeRune\<close>.
\<close>

theorem FullRune_decides: "FullRune p \<longleftrightarrow> (\<forall>q. DecodeRune (p @ q) = DecodeRune p)"
  using FullRune_stable FullRune_complete by blast

end
