(* ===== verification/Buffer.thy ===== *)
theory Buffer
  imports Utf8
begin

text \<open>
  \<open>bytes/buffer.go\<close>. The slice \<open>buf\<close> is its backing array \<open>arr\<close> (as long as the capacity) with the
  length \<open>blen\<close>; the bytes between \<open>blen\<close> and the capacity are kept, since \<open>buf[:l+n]\<close> exposes them.
  A panic is the \<open>Inl\<close> side of a sum. \<open>mem\<close> is the largest slice that \<open>make\<close> can allocate; lengths
  are natural numbers, and comparisons that may go below zero in the code are written over \<open>int\<close>.
\<close>

section \<open>The code\<close>

record buffer =
  arr :: "u8 list"
  blen :: nat
  isnil :: bool
  off :: nat
  lastRead :: int

definition opRead :: int where "opRead = -1"
definition opInvalid :: int where "opInvalid = 0"
definition opReadRune1 :: int where "opReadRune1 = 1"
definition smallBufferSize :: nat where "smallBufferSize = 64"
definition MinRead :: nat where "MinRead = 512"
definition maxInt :: int where "maxInt = 2 ^ 63 - 1"

datatype buf_panic =
  ErrTooLarge | truncation_out_of_range | negative_count | slice_out_of_range
  | invalid_write_count | negative_read

datatype buf_error = EOF | ErrShortWrite | errUnreadByte | errUnreadRune | OtherError

type_synonym 'a buf_result = "buf_panic + ('a \<times> buffer)"

definition zero_buffer :: buffer where
  "zero_buffer = \<lparr>arr = [], blen = 0, isnil = True, off = 0, lastRead = 0\<rparr>"

text \<open>A slice given by its bytes and its capacity.\<close>

definition NewBuffer :: "u8 list \<Rightarrow> nat \<Rightarrow> buffer" where
  "NewBuffer a n = \<lparr>arr = a, blen = n, isnil = False, off = 0, lastRead = 0\<rparr>"

definition NewBufferString :: "u8 list \<Rightarrow> buffer" where
  "NewBufferString s = NewBuffer s (length s)"

definition Bytes :: "buffer \<Rightarrow> u8 list" where
  "Bytes b = drop (off b) (take (blen b) (arr b))"

definition buf_empty :: "buffer \<Rightarrow> bool" where "buf_empty b \<longleftrightarrow> blen b \<le> off b"

definition Len :: "buffer \<Rightarrow> nat" where "Len b = blen b - off b"

definition Cap :: "buffer \<Rightarrow> nat" where "Cap b = length (arr b)"

definition Reset :: "buffer \<Rightarrow> buffer" where
  "Reset b = b\<lparr>blen := 0, off := 0, lastRead := opInvalid\<rparr>"

definition Truncate :: "int \<Rightarrow> buffer \<Rightarrow> unit buf_result" where
  "Truncate n b =
     (if n = 0 then Inr ((), Reset b)
      else let b = b\<lparr>lastRead := opInvalid\<rparr> in
        if n < 0 \<or> n > int (Len b) then Inl truncation_out_of_range
        else Inr ((), b\<lparr>blen := off b + nat n\<rparr>))"

definition tryGrowByReslice :: "nat \<Rightarrow> buffer \<Rightarrow> nat \<times> bool \<times> buffer" where
  "tryGrowByReslice n b =
     (let l = blen b in
      if int n \<le> int (Cap b) - int l then (l, True, b\<lparr>blen := l + n\<rparr>) else (0, False, b))"

definition makeSlice :: "nat \<Rightarrow> nat \<Rightarrow> buf_panic + u8 list" where
  "makeSlice mem n = (if n > mem then Inl ErrTooLarge else Inr (replicate n 0))"

text \<open>\<open>copy(dst, src)\<close>, the slices possibly overlapping.\<close>

definition copy_to :: "u8 list \<Rightarrow> u8 list \<Rightarrow> u8 list" where
  "copy_to dst src = take (length dst) src @ drop (length src) dst"

definition grow :: "nat \<Rightarrow> nat \<Rightarrow> buffer \<Rightarrow> nat buf_result" where
  "grow mem n b =
     (let m = Len b;
          b = (if m = 0 \<and> off b \<noteq> 0 then Reset b else b)
      in case tryGrowByReslice n b of
        (i, True, b) \<Rightarrow> Inr (i, b)
      | (_, False, b) \<Rightarrow>
        if isnil b \<and> n \<le> smallBufferSize then
          Inr (0, b\<lparr>arr := replicate smallBufferSize 0, blen := n, isnil := False\<rparr>)
        else let c = Cap b in
          if int n \<le> int (c div 2) - int m then
            Inr (m, b\<lparr>arr := copy_to (take (blen b) (arr b)) (Bytes b) @ drop (blen b) (arr b),
                      off := 0, blen := m + n\<rparr>)
          else if int c > maxInt - int c - int n then Inl ErrTooLarge
          else (case makeSlice mem (2 * c + n) of
                  Inl e \<Rightarrow> Inl e
                | Inr buf \<Rightarrow>
                    Inr (m, b\<lparr>arr := copy_to buf (Bytes b), isnil := False, off := 0, blen := m + n\<rparr>)))"

definition Grow :: "nat \<Rightarrow> int \<Rightarrow> buffer \<Rightarrow> unit buf_result" where
  "Grow mem n b =
     (if n < 0 then Inl negative_count
      else case grow mem (nat n) b of
        Inl e \<Rightarrow> Inl e
      | Inr (m, b) \<Rightarrow> Inr ((), b\<lparr>blen := m\<rparr>))"

text \<open>The slow path of the writers.\<close>

definition reserve :: "nat \<Rightarrow> nat \<Rightarrow> buffer \<Rightarrow> nat buf_result" where
  "reserve mem n b =
     (case tryGrowByReslice n b of
        (m, True, b) \<Rightarrow> Inr (m, b)
      | (_, False, b) \<Rightarrow> grow mem n b)"

text \<open>\<open>copy(b.buf[m:], p)\<close>\<close>

definition store_at :: "nat \<Rightarrow> u8 list \<Rightarrow> buffer \<Rightarrow> buffer" where
  "store_at m p b =
     b\<lparr>arr := take m (arr b) @ copy_to (drop m (take (blen b) (arr b))) p @ drop (blen b) (arr b)\<rparr>"

definition Write :: "nat \<Rightarrow> u8 list \<Rightarrow> buffer \<Rightarrow> nat buf_result" where
  "Write mem p b =
     (case reserve mem (length p) (b\<lparr>lastRead := opInvalid\<rparr>) of
        Inl e \<Rightarrow> Inl e
      | Inr (m, b) \<Rightarrow> Inr (min (blen b - m) (length p), store_at m p b))"

definition WriteString :: "nat \<Rightarrow> u8 list \<Rightarrow> buffer \<Rightarrow> nat buf_result" where
  "WriteString mem s b =
     (case reserve mem (length s) (b\<lparr>lastRead := opInvalid\<rparr>) of
        Inl e \<Rightarrow> Inl e
      | Inr (m, b) \<Rightarrow> Inr (min (blen b - m) (length s), store_at m s b))"

definition WriteByte :: "nat \<Rightarrow> u8 \<Rightarrow> buffer \<Rightarrow> unit buf_result" where
  "WriteByte mem c b =
     (case reserve mem 1 (b\<lparr>lastRead := opInvalid\<rparr>) of
        Inl e \<Rightarrow> Inl e
      | Inr (m, b) \<Rightarrow> Inr ((), b\<lparr>arr := (arr b)[m := c]\<rparr>))"

text \<open>\<open>EncodeRune\<close> gets the slice \<open>b.buf[m:m+4]\<close>.\<close>

definition WriteRune :: "nat \<Rightarrow> rune \<Rightarrow> buffer \<Rightarrow> nat buf_result" where
  "WriteRune mem r b =
     (if r < 0x80 then
        (case WriteByte mem (ucast r) b of Inl e \<Rightarrow> Inl e | Inr (_, b) \<Rightarrow> Inr (1, b))
      else case reserve mem 4 (b\<lparr>lastRead := opInvalid\<rparr>) of
        Inl e \<Rightarrow> Inl e
      | Inr (m, b) \<Rightarrow>
          (case EncodeRune (take 4 (drop m (arr b))) r of
             None \<Rightarrow> Inl slice_out_of_range
           | Some (w, n) \<Rightarrow> Inr (n, b\<lparr>arr := take m (arr b) @ w @ drop (m + 4) (arr b), blen := m + n\<rparr>)))"

text \<open>\<open>Read(p)\<close> with \<open>n = len(p)\<close> returns the bytes it copied and the error.\<close>

definition Read :: "nat \<Rightarrow> buffer \<Rightarrow> (u8 list \<times> buf_error option) \<times> buffer" where
  "Read k b =
     (let b = b\<lparr>lastRead := opInvalid\<rparr> in
      if buf_empty b then (let b = Reset b in if k = 0 then (([], None), b) else (([], Some EOF), b))
      else let data = take k (Bytes b); n = length data; b = b\<lparr>off := off b + n\<rparr>
        in ((data, None), if n > 0 then b\<lparr>lastRead := opRead\<rparr> else b))"

definition Next :: "int \<Rightarrow> buffer \<Rightarrow> u8 list buf_result" where
  "Next n b =
     (let b = b\<lparr>lastRead := opInvalid\<rparr>; m = Len b; n = (if n > int m then int m else n) in
      if n < 0 then Inl slice_out_of_range
      else let data = take (nat n) (drop (off b) (take (blen b) (arr b)));
               b = b\<lparr>off := off b + nat n\<rparr>
        in Inr (data, if n > 0 then b\<lparr>lastRead := opRead\<rparr> else b))"

definition ReadByte :: "buffer \<Rightarrow> (u8 \<times> buf_error option) \<times> buffer" where
  "ReadByte b =
     (if buf_empty b then ((0, Some EOF), Reset b)
      else let c = arr b ! off b in ((c, None), b\<lparr>off := off b + 1, lastRead := opRead\<rparr>))"

definition ReadRune :: "buffer \<Rightarrow> (rune \<times> nat \<times> buf_error option) \<times> buffer" where
  "ReadRune b =
     (if buf_empty b then ((0, 0, Some EOF), Reset b)
      else let c = arr b ! off b in
        if c < RuneSelf then ((ucast c, 1, None), b\<lparr>off := off b + 1, lastRead := opReadRune1\<rparr>)
        else let (r, n) = DecodeRune (Bytes b)
          in ((r, n, None), b\<lparr>off := off b + n, lastRead := int n\<rparr>))"

definition UnreadRune :: "buffer \<Rightarrow> buf_error option \<times> buffer" where
  "UnreadRune b =
     (if lastRead b \<le> opInvalid then (Some errUnreadRune, b)
      else let b = (if int (off b) \<ge> lastRead b then b\<lparr>off := off b - nat (lastRead b)\<rparr> else b)
        in (None, b\<lparr>lastRead := opInvalid\<rparr>))"

definition UnreadByte :: "buffer \<Rightarrow> buf_error option \<times> buffer" where
  "UnreadByte b =
     (if lastRead b = opInvalid then (Some errUnreadByte, b)
      else let b = b\<lparr>lastRead := opInvalid\<rparr>
        in (None, if off b > 0 then b\<lparr>off := off b - 1\<rparr> else b))"

text \<open>\<open>IndexByte\<close> is the loop of \<open>internal/bytealg\<close>.\<close>

fun index_loop :: "u8 \<Rightarrow> u8 list \<Rightarrow> int \<Rightarrow> int" where
  "index_loop c [] i = -1"
| "index_loop c (x # xs) i = (if x = c then i else index_loop c xs (i + 1))"

definition IndexByte :: "u8 list \<Rightarrow> u8 \<Rightarrow> int" where
  "IndexByte b c = index_loop c b 0"

definition readSlice :: "u8 \<Rightarrow> buffer \<Rightarrow> (u8 list \<times> buf_error option) \<times> buffer" where
  "readSlice delim b =
     (let i = IndexByte (Bytes b) delim;
          (end, err) = (if i < 0 then (blen b, Some EOF) else (off b + nat i + 1, None));
          line = drop (off b) (take end (arr b))
      in ((line, err), b\<lparr>off := end, lastRead := opRead\<rparr>))"

definition ReadBytes :: "u8 \<Rightarrow> buffer \<Rightarrow> (u8 list \<times> buf_error option) \<times> buffer" where
  "ReadBytes delim b = (let ((slice, err), b) = readSlice delim b; line = [] @ slice in ((line, err), b))"

definition ReadString :: "u8 \<Rightarrow> buffer \<Rightarrow> (u8 list \<times> buf_error option) \<times> buffer" where
  "ReadString delim b = (let ((slice, err), b) = readSlice delim b in ((slice, err), b))"

text \<open>
  A reader is what its calls return in turn: the bytes it left at the front of the space it was
  given, the count it claims and the error; after that it reports \<open>io.EOF\<close>. A writer answers one call
  with a count and an error.
\<close>

type_synonym response = "u8 list \<times> int \<times> buf_error option"

fun ReadFrom_loop :: "nat \<Rightarrow> int \<Rightarrow> response list \<Rightarrow> buffer \<Rightarrow> (int \<times> buf_error option) buf_result" where
  "ReadFrom_loop mem n rs b =
     (case grow mem MinRead b of
        Inl e \<Rightarrow> Inl e
      | Inr (i, b) \<Rightarrow>
        (let b = b\<lparr>blen := i\<rparr> in
         case rs of
           [] \<Rightarrow> Inr ((n, None), b)
         | (data, m, e) # rs \<Rightarrow>
           (let b = b\<lparr>arr := take i (arr b) @ copy_to (drop i (arr b)) data\<rparr> in
            if m < 0 then Inl negative_read
            else if int i + m > int (Cap b) then Inl slice_out_of_range
            else let b = b\<lparr>blen := i + nat m\<rparr>; n = n + m in
              if e = Some EOF then Inr ((n, None), b)
              else if e \<noteq> None then Inr ((n, e), b)
              else ReadFrom_loop mem n rs b)))"

declare ReadFrom_loop.simps [simp del]

definition ReadFrom :: "nat \<Rightarrow> response list \<Rightarrow> buffer \<Rightarrow> (int \<times> buf_error option) buf_result" where
  "ReadFrom mem rs b = ReadFrom_loop mem 0 rs (b\<lparr>lastRead := opInvalid\<rparr>)"

text \<open>
  The writer of \<open>WriteTo\<close> answers with a count \<open>m\<close>, which its contract (\<open>0 <= n <= len(p)\<close> in \<open>io.Writer\<close>) makes
  non-negative; a count that is too big panics.
\<close>

definition WriteTo :: "nat \<Rightarrow> buf_error option \<Rightarrow> buffer \<Rightarrow> (nat \<times> buf_error option) buf_result" where
  "WriteTo m e b =
     (let b = b\<lparr>lastRead := opInvalid\<rparr>; nBytes = Len b in
      if nBytes > 0 then
        if m > nBytes then Inl invalid_write_count
        else let b = b\<lparr>off := off b + m\<rparr> in
          if e \<noteq> None then Inr ((m, e), b)
          else if m \<noteq> nBytes then Inr ((m, Some ErrShortWrite), b)
          else Inr ((m, None), Reset b)
      else Inr ((0, None), Reset b))"

section \<open>The invariant, and what growing keeps\<close>

definition binv :: "buffer \<Rightarrow> bool" where
  "binv b \<longleftrightarrow> off b \<le> blen b \<and> blen b \<le> length (arr b) \<and> (isnil b \<longrightarrow> arr b = [])"

named_theorems buf_defs \<open>definitions of the buffer\<close>

declare Bytes_def [buf_defs] buf_empty_def [buf_defs] Len_def [buf_defs] Cap_def [buf_defs] Reset_def [buf_defs]
  binv_def [buf_defs]

lemma length_Bytes: "binv b \<Longrightarrow> length (Bytes b) = Len b"
  by (simp add: buf_defs)

lemma length_copy_to [simp]: "length (copy_to d s) = length d"
  by (simp add: copy_to_def)

lemma copy_to_exact: "length s \<le> length d \<Longrightarrow> copy_to d s = s @ drop (length s) d"
  by (simp add: copy_to_def)

text \<open>Room for \<open>n\<close> bytes from index \<open>i\<close> on, and the unread bytes of \<open>b\<close> just before it.\<close>

definition room :: "buffer \<Rightarrow> nat \<Rightarrow> nat \<Rightarrow> buffer \<Rightarrow> bool" where
  "room b n i b' \<longleftrightarrow> binv b' \<and> blen b' = i + n \<and> off b' \<le> i \<and> drop (off b') (take i (arr b')) = Bytes b"

lemma tryGrow_room:
  assumes "binv b" "tryGrowByReslice n b = (i, True, b')"
  shows "room b n i b' \<and> lastRead b' = lastRead b"
  using assms by (auto simp: tryGrowByReslice_def room_def buf_defs Let_def split: if_splits)

lemma tryGrow_fail: "tryGrowByReslice n b = (i, False, b') \<Longrightarrow> b' = b \<and> Cap b < blen b + n"
  by (auto simp: tryGrowByReslice_def Let_def split: if_splits)

lemma grow_room:
  assumes b: "binv b" and g: "grow mem n b = Inr (i, b')"
  shows "room b n i b'"
proof -
  define c where "c = (if Len b = 0 \<and> off b \<noteq> 0 then Reset b else b)"
  have c: "binv c" "Bytes c = Bytes b" "Len c = Len b" "isnil c = isnil b"
    using b by (auto simp: c_def buf_defs)
  obtain j ok d where t: "tryGrowByReslice n c = (j, ok, d)" by (metis prod.exhaust)
  show ?thesis
  proof (cases ok)
    case True
    then have "i = j" "b' = d" using g t by (simp_all add: grow_def c_def Let_def)
    then show ?thesis using tryGrow_room [OF c(1), of n i b'] t True c(2) by (simp add: room_def)
  next
    case False
    have d: "d = c" using tryGrow_fail [of n c j d] t False by simp
    have g': "(if isnil c \<and> n \<le> smallBufferSize then
          Inr (0, c\<lparr>arr := replicate smallBufferSize 0, blen := n, isnil := False\<rparr>)
        else if int n \<le> int (Cap c div 2) - int (Len b) then
            Inr (Len b, c\<lparr>arr := copy_to (take (blen c) (arr c)) (Bytes c) @ drop (blen c) (arr c),
                      off := 0, blen := Len b + n\<rparr>)
          else if int (Cap c) > maxInt - int (Cap c) - int n then Inl ErrTooLarge
          else (case makeSlice mem (2 * Cap c + n) of
                  Inl e \<Rightarrow> Inl e
                | Inr buf \<Rightarrow>
                    Inr (Len b, c\<lparr>arr := copy_to buf (Bytes c), isnil := False, off := 0, blen := Len b + n\<rparr>)))
        = Inr (i, b')"
      using g t False unfolding grow_def c_def [symmetric] Let_def d by simp
    have len: "length (Bytes c) = Len b" using length_Bytes [OF c(1)] c(3) by simp
    consider (nil) "isnil c" "n \<le> smallBufferSize"
      | (slide) "\<not> (isnil c \<and> n \<le> smallBufferSize)" "int n \<le> int (Cap c div 2) - int (Len b)"
      | (new) "\<not> (isnil c \<and> n \<le> smallBufferSize)" "\<not> int n \<le> int (Cap c div 2) - int (Len b)"
      by blast
    then show ?thesis
    proof cases
      case nil
      then have "i = 0" "b' = c\<lparr>arr := replicate smallBufferSize 0, blen := n, isnil := False\<rparr>"
        using g' by simp_all
      moreover have "Bytes b = []" "off c = 0" using nil(1) c(1,2) by (auto simp: buf_defs)
      ultimately show ?thesis using nil(2) by (simp add: room_def buf_defs)
    next
      case slide
      then have e: "i = Len b" "b' = c\<lparr>arr := copy_to (take (blen c) (arr c)) (Bytes c) @ drop (blen c) (arr c),
                      off := 0, blen := Len b + n\<rparr>" using g' by (auto split: if_splits)
      have l: "Len b \<le> blen c" "blen c \<le> length (arr c)" "Len b + n \<le> length (arr c)"
        using slide(2) c(1,3) by (auto simp: buf_defs)
      have "copy_to (take (blen c) (arr c)) (Bytes c) = Bytes c @ drop (Len b) (take (blen c) (arr c))"
        using l len by (subst copy_to_exact) auto
      then show ?thesis using e l c(1,2) len by (auto simp: room_def binv_def)
    next
      case new
      then obtain buf where "makeSlice mem (2 * Cap c + n) = Inr buf"
        and e: "i = Len b" "b' = c\<lparr>arr := copy_to buf (Bytes c), isnil := False, off := 0, blen := Len b + n\<rparr>"
        using g' by (auto split: if_splits sum.splits)
      then have buf: "length buf = 2 * Cap c + n" by (auto simp: makeSlice_def split: if_splits)
      have l: "Len b \<le> Cap c" using c(1,3) by (auto simp: buf_defs)
      have "copy_to buf (Bytes c) = Bytes c @ drop (Len b) buf"
        using l len buf by (subst copy_to_exact) auto
      then show ?thesis using e l c(2) len buf by (simp add: room_def binv_def)
    qed
  qed
qed

lemma reserve_room:
  assumes "binv b" "reserve mem n b = Inr (i, b')"
  shows "room b n i b'"
proof -
  obtain j ok d where t: "tryGrowByReslice n b = (j, ok, d)" by (metis prod.exhaust)
  show ?thesis
  proof (cases ok)
    case True
    then show ?thesis using assms t tryGrow_room [of b n i b'] by (simp add: reserve_def)
  next
    case False
    then have "d = b" using tryGrow_fail [of n b j d] t by simp
    then show ?thesis using assms t False grow_room [of b mem n i b'] by (simp add: reserve_def)
  qed
qed

lemma grow_panic: "grow mem n b = Inl e \<Longrightarrow> e = ErrTooLarge"
  by (auto simp: grow_def makeSlice_def Let_def split: prod.splits bool.splits if_splits sum.splits)

lemma reserve_panic: "reserve mem n b = Inl e \<Longrightarrow> e = ErrTooLarge"
  by (auto simp: reserve_def grow_panic split: prod.splits bool.splits)

section \<open>The contract: a queue of bytes\<close>

text \<open>
  The operations as data, their results, and what each does to the list of unread bytes. The only
  thing left out of the contract is when \<open>ErrTooLarge\<close> happens.
\<close>

datatype buf_op =
  OpWrite "u8 list" | OpWriteString "u8 list" | OpWriteByte u8 | OpWriteRune rune
  | OpRead nat | OpNext int | OpReadByte | OpReadRune | OpReadBytes u8 | OpReadString u8
  | OpTruncate int | OpReset | OpGrow int | OpWriteTo nat "buf_error option"

datatype buf_val =
  VUnit | VNat nat | VBytes "u8 list" "buf_error option" | VByte u8 "buf_error option"
  | VRune rune nat "buf_error option" | VCount nat "buf_error option"

definition val :: "('a \<Rightarrow> buf_val) \<Rightarrow> 'a buf_result \<Rightarrow> buf_val buf_result" where
  "val f r = (case r of Inl e \<Rightarrow> Inl e | Inr (x, b) \<Rightarrow> Inr (f x, b))"

fun run :: "nat \<Rightarrow> buf_op \<Rightarrow> buffer \<Rightarrow> buf_val buf_result" where
  "run mem (OpWrite p) b = val VNat (Write mem p b)"
| "run mem (OpWriteString s) b = val VNat (WriteString mem s b)"
| "run mem (OpWriteByte c) b = val (\<lambda>_. VUnit) (WriteByte mem c b)"
| "run mem (OpWriteRune r) b = val VNat (WriteRune mem r b)"
| "run mem (OpRead k) b = val (\<lambda>(d, e). VBytes d e) (Inr (Read k b))"
| "run mem (OpNext n) b = val (\<lambda>d. VBytes d None) (Next n b)"
| "run mem OpReadByte b = val (\<lambda>(c, e). VByte c e) (Inr (ReadByte b))"
| "run mem OpReadRune b = val (\<lambda>(r, n, e). VRune r n e) (Inr (ReadRune b))"
| "run mem (OpReadBytes d) b = val (\<lambda>(l, e). VBytes l e) (Inr (ReadBytes d b))"
| "run mem (OpReadString d) b = val (\<lambda>(l, e). VBytes l e) (Inr (ReadString d b))"
| "run mem (OpTruncate n) b = val (\<lambda>_. VUnit) (Truncate n b)"
| "run mem OpReset b = Inr (VUnit, Reset b)"
| "run mem (OpGrow n) b = val (\<lambda>_. VUnit) (Grow mem n b)"
| "run mem (OpWriteTo m e) b = val (\<lambda>(n, e). VCount n e) (WriteTo m e b)"

definition line_of :: "u8 \<Rightarrow> u8 list \<Rightarrow> u8 list" where
  "line_of d q = take (length (takeWhile (\<lambda>x. x \<noteq> d) q) + 1) q"

fun contract :: "buf_op \<Rightarrow> u8 list \<Rightarrow> buf_panic + (buf_val \<times> u8 list)" where
  "contract (OpWrite p) q = Inr (VNat (length p), q @ p)"
| "contract (OpWriteString s) q = Inr (VNat (length s), q @ s)"
| "contract (OpWriteByte c) q = Inr (VUnit, q @ [c])"
| "contract (OpWriteRune r) q =
     (let e = utf8 (if ValidRune r then r else RuneError) in Inr (VNat (length e), q @ e))"
| "contract (OpRead k) q = Inr (VBytes (take k q) (if q = [] \<and> k \<noteq> 0 then Some EOF else None), drop k q)"
| "contract (OpNext n) q =
     (if n < 0 then Inl slice_out_of_range else Inr (VBytes (take (nat n) q) None, drop (nat n) q))"
| "contract OpReadByte q =
     Inr (case q of [] \<Rightarrow> (VByte 0 (Some EOF), []) | c # q \<Rightarrow> (VByte c None, q))"
| "contract OpReadRune q =
     Inr (if q = [] then (VRune 0 0 (Some EOF), [])
          else let (r, n) = DecodeRune q in (VRune r n None, drop n q))"
| "contract (OpReadBytes d) q =
     Inr (VBytes (line_of d q) (if d \<in> set q then None else Some EOF), drop (length (line_of d q)) q)"
| "contract (OpReadString d) q =
     Inr (VBytes (line_of d q) (if d \<in> set q then None else Some EOF), drop (length (line_of d q)) q)"
| "contract (OpTruncate n) q =
     (if n < 0 \<or> n > int (length q) then Inl truncation_out_of_range else Inr (VUnit, take (nat n) q))"
| "contract OpReset q = Inr (VUnit, [])"
| "contract (OpGrow n) q = (if n < 0 then Inl negative_count else Inr (VUnit, q))"
| "contract (OpWriteTo m e) q =
     (if q = [] then Inr (VCount 0 None, [])
      else if m > length q then Inl invalid_write_count
      else Inr (VCount m (case e of Some e \<Rightarrow> Some e | None \<Rightarrow> if m = length q then None else Some ErrShortWrite),
                drop m q))"

text \<open>A run keeps the contract if it does what the contract says or gives up for lack of memory.\<close>

definition keeps :: "buf_val buf_result \<Rightarrow> buf_panic + (buf_val \<times> u8 list) \<Rightarrow> bool" where
  "keeps r s \<longleftrightarrow>
     (case r of
        Inl e \<Rightarrow> e = ErrTooLarge \<or> s = Inl e
      | Inr (v, b) \<Rightarrow> binv b \<and> s = Inr (v, Bytes b))"

lemma binv_lastRead: "binv (b\<lparr>lastRead := x\<rparr>) = binv b" "Bytes (b\<lparr>lastRead := x\<rparr>) = Bytes b"
  by (simp_all add: buf_defs)

text \<open>Storing in the reserved room appends.\<close>

lemma store_room:
  assumes "room b (length p) i b'"
  shows "binv (store_at i p b') \<and> Bytes (store_at i p b') = Bytes b @ p \<and> min (blen b' - i) (length p) = length p"
proof -
  note r = assms [unfolded room_def]
  have l: "i + length p \<le> length (arr b')" "off b' \<le> i" "blen b' = i + length p" using r by (auto simp: binv_def)
  have "copy_to (drop i (take (blen b') (arr b'))) p = p"
    using l by (subst copy_to_exact) auto
  then show ?thesis using r l by (auto simp: store_at_def buf_defs)
qed

lemma Write_keeps: "binv b \<Longrightarrow> keeps (run mem (OpWrite p) b) (contract (OpWrite p) (Bytes b))"
  using reserve_room [of "b\<lparr>lastRead := opInvalid\<rparr>" mem "length p"] store_room [of "b\<lparr>lastRead := opInvalid\<rparr>" p]
  by (auto simp: keeps_def val_def Write_def binv_lastRead dest: reserve_panic split: sum.split prod.split)

lemma WriteString_keeps: "binv b \<Longrightarrow> keeps (run mem (OpWriteString p) b) (contract (OpWriteString p) (Bytes b))"
  using Write_keeps [of b mem p] by (simp add: Write_def WriteString_def)

lemma WriteByte_keeps: "binv b \<Longrightarrow> keeps (run mem (OpWriteByte c) b) (contract (OpWriteByte c) (Bytes b))"
proof -
  assume b: "binv b"
  let ?b = "b\<lparr>lastRead := opInvalid\<rparr>"
  show ?thesis
  proof (cases "reserve mem 1 ?b")
    case (Inl e)
    then show ?thesis by (auto simp: keeps_def val_def WriteByte_def dest: reserve_panic)
  next
    case (Inr x)
    obtain i d where x: "x = (i, d)" by (cases x)
    have r: "room ?b (length [c]) i d" using reserve_room [of ?b mem 1 i d] b Inr x by (simp add: binv_lastRead)
    then have l: "i < length (arr d)" "blen d = i + 1" by (auto simp: room_def binv_def)
    have "store_at i [c] d = d\<lparr>arr := (arr d)[i := c]\<rparr>"
      using l by (simp add: store_at_def copy_to_def upd_conv_take_nth_drop)
    then show ?thesis using store_room [OF r] Inr x by (simp add: keeps_def val_def WriteByte_def binv_lastRead)
  qed
qed

lemma WriteRune_keeps: "binv b \<Longrightarrow> keeps (run mem (OpWriteRune r) b) (contract (OpWriteRune r) (Bytes b))"
proof -
  assume b: "binv b"
  let ?b = "b\<lparr>lastRead := opInvalid\<rparr>"
  define e where "e = utf8 (if ValidRune r then r else RuneError)"
  show ?thesis
  proof (cases "r < 0x80")
    case True
    then have u: "unat r < 128" by (simp add: word_less_nat_alt)
    then have e: "e = [ucast r]" by (simp add: e_def ValidRune_iff utf8_def utf8_nat_def)
    then show ?thesis
      using WriteByte_keeps [OF b, of mem "ucast r"] True
      by (auto simp: keeps_def val_def WriteRune_def Let_def simp flip: e_def split: sum.splits)
  next
    case False
    show ?thesis
    proof (cases "reserve mem 4 ?b")
      case (Inl x)
      then show ?thesis using False by (auto simp: keeps_def val_def WriteRune_def dest: reserve_panic)
    next
      case (Inr x)
      obtain i d where x: "x = (i, d)" by (cases x)
      have rm: "room ?b 4 i d" using reserve_room [of ?b mem 4 i d] b Inr x by (simp add: binv_lastRead)
      then have l: "i + 4 \<le> length (arr d)" "blen d = i + 4" "off d \<le> i" by (auto simp: room_def binv_def)
      have el: "length e \<le> 4" "0 < length e" using length_utf8 by (auto simp: e_def)
      have enc: "EncodeRune (take 4 (drop i (arr d))) r
          = Some (e @ drop (length e) (take 4 (drop i (arr d))), length e)"
        using l el by (simp add: EncodeRune_eq Let_def min_def flip: e_def) linarith
      define d' where "d' = d\<lparr>arr := take i (arr d) @ (e @ drop (length e) (take 4 (drop i (arr d)))) @ drop (i + 4) (arr d),
          blen := i + length e\<rparr>"
      have "WriteRune mem r b = Inr (length e, d')"
        using False Inr x enc by (simp add: WriteRune_def d'_def)
      moreover have "binv d' \<and> Bytes d' = Bytes b @ e"
        using rm l el by (auto simp: d'_def room_def buf_defs)
      ultimately show ?thesis by (simp add: keeps_def val_def Let_def flip: e_def)
    qed
  qed
qed

lemma Read_keeps: "binv b \<Longrightarrow> keeps (run mem (OpRead k) b) (contract (OpRead k) (Bytes b))"
  by (auto simp: keeps_def val_def Read_def Let_def buf_defs opInvalid_def min_def add.commute)

lemma Next_keeps: "binv b \<Longrightarrow> keeps (run mem (OpNext n) b) (contract (OpNext n) (Bytes b))"
  by (auto simp: keeps_def val_def Next_def Let_def buf_defs opInvalid_def min_def add.commute)

lemma Bytes_Cons: "binv b \<Longrightarrow> \<not> buf_empty b \<Longrightarrow> Bytes b = arr b ! off b # drop (off b + 1) (take (blen b) (arr b))"
  using Cons_nth_drop_Suc [of "off b" "take (blen b) (arr b)"] by (auto simp: buf_defs)

lemma Bytes_empty: "binv b \<Longrightarrow> buf_empty b \<longleftrightarrow> Bytes b = []"
  by (auto simp: buf_defs)

lemma Reset_keeps: "binv b \<Longrightarrow> binv (Reset b) \<and> Bytes (Reset b) = []"
  by (auto simp: buf_defs)

lemma advance:
  assumes "binv b" "n \<le> length (Bytes b)"
  shows "binv (b\<lparr>off := off b + n, lastRead := x\<rparr>) \<and> Bytes (b\<lparr>off := off b + n, lastRead := x\<rparr>) = drop n (Bytes b)"
  using assms by (auto simp: buf_defs add.commute)

lemma ReadByte_keeps: "binv b \<Longrightarrow> keeps (run mem OpReadByte b) (contract OpReadByte (Bytes b))"
  using advance [of b 1 opRead] Reset_keeps [of b] Bytes_Cons [of b] Bytes_empty [of b]
  by (cases "buf_empty b") (auto simp: keeps_def val_def ReadByte_def Let_def)

lemma snd_DecodeRune_le: "snd (DecodeRune q) \<le> length q"
proof (cases "q = []")
  case True
  then show ?thesis by (simp add: DecodeRune_def)
next
  case False
  obtain r n where d: "DecodeRune q = (r, n)" by (cases "DecodeRune q")
  show ?thesis
  proof (cases "(r, n) = bad")
    case True
    then show ?thesis using False d by (cases q) (simp_all add: bad_def)
  qed (use DecodeRune_sound [OF d False] d in simp)
qed

lemma ReadRune_keeps: "binv b \<Longrightarrow> keeps (run mem OpReadRune b) (contract OpReadRune (Bytes b))"
proof (cases "buf_empty b")
  case True
  assume "binv b"
  then show ?thesis using True Reset_keeps [of b] Bytes_empty [of b]
    by (simp add: keeps_def val_def ReadRune_def)
next
  case False
  assume b: "binv b"
  note q = Bytes_Cons [OF b False]
  show ?thesis
  proof (cases "unat (arr b ! off b) < 128")
    case True
    then show ?thesis using False b q advance [OF b, of 1 opReadRune1]
      by (simp add: keeps_def val_def ReadRune_def RuneSelf_iff Let_def DecodeRune_ascii)
  next
    case nf: False
    obtain r n where d: "DecodeRune (Bytes b) = (r, n)" by (cases "DecodeRune (Bytes b)")
    then have "n \<le> length (Bytes b)" using snd_DecodeRune_le [of "Bytes b"] by simp
    then show ?thesis using False nf b q d advance [OF b, of n "int n"]
      by (auto simp: keeps_def val_def ReadRune_def RuneSelf_iff Let_def)
  qed
qed

lemma index_loop_eq:
  "index_loop c xs i = (if c \<in> set xs then i + int (length (takeWhile (\<lambda>x. x \<noteq> c) xs)) else -1)"
  by (induction xs arbitrary: i) auto

lemma takeWhile_less: "c \<in> set xs \<Longrightarrow> length (takeWhile (\<lambda>x. x \<noteq> c) xs) < length xs"
  by (induction xs) auto

lemma readSlice_keeps:
  assumes "binv b"
  shows "\<exists>b'. readSlice d b = ((line_of d (Bytes b), if d \<in> set (Bytes b) then None else Some EOF), b')
    \<and> binv b' \<and> Bytes b' = drop (length (line_of d (Bytes b))) (Bytes b)"
proof (cases "d \<in> set (Bytes b)")
  case True
  define k where "k = length (takeWhile (\<lambda>x. x \<noteq> d) (Bytes b))"
  have k: "k < length (Bytes b)" "k < Len b"
    using takeWhile_less [OF True] length_Bytes [OF assms] by (simp_all add: k_def)
  have "IndexByte (Bytes b) d = int k" using True by (simp add: IndexByte_def index_loop_eq k_def)
  then have "readSlice d b = ((drop (off b) (take (off b + k + 1) (arr b)), None), b\<lparr>off := off b + k + 1, lastRead := opRead\<rparr>)"
    by (simp add: readSlice_def Let_def)
  moreover have "drop (off b) (take (off b + k + 1) (arr b)) = take (k + 1) (Bytes b)"
    using k(2) assms by (simp add: buf_defs take_drop min_def add.commute)
  then have "drop (off b) (take (off b + k + 1) (arr b)) = line_of d (Bytes b)"
    by (simp add: line_of_def flip: k_def)
  moreover have "length (line_of d (Bytes b)) = k + 1" using k(1) by (simp add: line_of_def flip: k_def)
  ultimately show ?thesis using True advance [OF assms, of "k + 1" opRead] k(1) by (simp add: add.assoc)
next
  case False
  then have "IndexByte (Bytes b) d = -1" by (simp add: IndexByte_def index_loop_eq)
  then have "readSlice d b = ((Bytes b, Some EOF), b\<lparr>off := blen b, lastRead := opRead\<rparr>)"
    by (simp add: readSlice_def Bytes_def)
  moreover have tw: "takeWhile (\<lambda>x. x \<noteq> d) (Bytes b) = Bytes b" using False by (auto simp: takeWhile_eq_all_conv)
  have "line_of d (Bytes b) = Bytes b" unfolding line_of_def tw by simp
  ultimately show ?thesis using False assms by (auto simp: buf_defs)
qed

lemma ReadBytes_keeps: "binv b \<Longrightarrow> keeps (run mem (OpReadBytes d) b) (contract (OpReadBytes d) (Bytes b))"
  using readSlice_keeps [of b d] by (auto simp: keeps_def val_def ReadBytes_def)

lemma ReadString_keeps: "binv b \<Longrightarrow> keeps (run mem (OpReadString d) b) (contract (OpReadString d) (Bytes b))"
  using readSlice_keeps [of b d] by (auto simp: keeps_def val_def ReadString_def)

lemma Truncate_keeps: "binv b \<Longrightarrow> keeps (run mem (OpTruncate n) b) (contract (OpTruncate n) (Bytes b))"
  using length_Bytes [of b] Reset_keeps [of b]
  by (auto simp: keeps_def val_def Truncate_def Let_def buf_defs take_drop min_def add.commute)

lemma Grow_keeps: "binv b \<Longrightarrow> keeps (run mem (OpGrow n) b) (contract (OpGrow n) (Bytes b))"
proof (cases "grow mem (nat n) b")
  case (Inl e)
  then show ?thesis by (auto simp: keeps_def val_def Grow_def dest: grow_panic)
next
  case (Inr x)
  assume b: "binv b"
  obtain i d where x: "x = (i, d)" by (cases x)
  have "room b (nat n) i d" using grow_room [OF b] Inr x by blast
  then have "binv (d\<lparr>blen := i\<rparr>) \<and> Bytes (d\<lparr>blen := i\<rparr>) = Bytes b" by (auto simp: room_def buf_defs)
  then show ?thesis using Inr x by (simp add: keeps_def val_def Grow_def)
qed

lemma WriteTo_keeps: "binv b \<Longrightarrow> keeps (run mem (OpWriteTo m e) b) (contract (OpWriteTo m e) (Bytes b))"
  using length_Bytes [of b] Reset_keeps [of b]
  by (cases e) (auto simp: keeps_def val_def WriteTo_def Let_def buf_defs add.commute)

lemma run_keeps: "binv b \<Longrightarrow> keeps (run mem op b) (contract op (Bytes b))"
  using Reset_keeps [of b]
  by (cases op) (simp_all only: Write_keeps WriteString_keeps WriteByte_keeps WriteRune_keeps Read_keeps
      Next_keeps ReadByte_keeps ReadRune_keeps ReadBytes_keeps ReadString_keeps Truncate_keeps Grow_keeps
      WriteTo_keeps, simp add: keeps_def)

text \<open>A run of operations on the zero value, against the same run on the empty list.\<close>

fun runs :: "nat \<Rightarrow> buf_op list \<Rightarrow> buffer \<Rightarrow> buf_panic + (buf_val list \<times> buffer)" where
  "runs mem [] b = Inr ([], b)"
| "runs mem (op # ops) b =
     (case run mem op b of Inl e \<Rightarrow> Inl e
      | Inr (v, b) \<Rightarrow> (case runs mem ops b of Inl e \<Rightarrow> Inl e | Inr (vs, b) \<Rightarrow> Inr (v # vs, b)))"

fun contracts :: "buf_op list \<Rightarrow> u8 list \<Rightarrow> buf_panic + (buf_val list \<times> u8 list)" where
  "contracts [] q = Inr ([], q)"
| "contracts (op # ops) q =
     (case contract op q of Inl e \<Rightarrow> Inl e
      | Inr (v, q) \<Rightarrow> (case contracts ops q of Inl e \<Rightarrow> Inl e | Inr (vs, q) \<Rightarrow> Inr (v # vs, q)))"

lemma runs_keep:
  "binv b \<Longrightarrow>
     (case runs mem ops b of
        Inl e \<Rightarrow> e = ErrTooLarge \<or> contracts ops (Bytes b) = Inl e
      | Inr (vs, b') \<Rightarrow> binv b' \<and> contracts ops (Bytes b) = Inr (vs, Bytes b'))"
proof (induction ops arbitrary: b)
  case (Cons op ops)
  note k = run_keeps [OF Cons.prems, of mem op]
  show ?case
  proof (cases "run mem op b")
    case (Inl e)
    then show ?thesis using k by (auto simp: keeps_def)
  next
    case (Inr x)
    obtain v c where x: "x = (v, c)" by (cases x)
    have "binv c" "contract op (Bytes b) = Inr (v, Bytes c)" using k Inr x by (simp_all add: keeps_def)
    then show ?thesis using Cons.IH [of c] Inr x by (auto split: sum.splits)
  qed
qed simp

lemma zero_buffer_inv: "binv zero_buffer" "Bytes zero_buffer = []"
  by (simp_all add: zero_buffer_def buf_defs)

section \<open>Enough memory, and reading from a reader\<close>

lemma grow_returns:
  assumes "binv b" "2 * Cap b + n \<le> mem" "int (2 * Cap b + n) \<le> maxInt"
  shows "\<exists>i b'. grow mem n b = Inr (i, b')"
proof -
  define c where "c = (if Len b = 0 \<and> off b \<noteq> 0 then Reset b else b)"
  have "Cap c = Cap b" by (simp add: c_def buf_defs)
  moreover obtain j ok d where t: "tryGrowByReslice n c = (j, ok, d)" by (metis prod.exhaust)
  moreover have "d = c" if "\<not> ok" using tryGrow_fail [of n c j d] t that by simp
  ultimately show ?thesis using assms(2,3)
    unfolding grow_def Let_def c_def [symmetric] t
    by (cases ok) (auto simp: makeSlice_def)
qed

text \<open>A reader that tells the truth about how much it read and stays inside the space given.\<close>

definition honest :: "response \<Rightarrow> bool" where
  "honest r \<longleftrightarrow> fst (snd r) = int (length (fst r))"

fun read_all :: "response list \<Rightarrow> u8 list \<times> buf_error option" where
  "read_all [] = ([], None)"
| "read_all ((d, m, e) # rs) =
     (case e of None \<Rightarrow> (let (q, e) = read_all rs in (d @ q, e))
      | Some e \<Rightarrow> (d, if e = EOF then None else Some e))"

lemma ReadFrom_loop_appends:
  "binv b \<Longrightarrow> list_all honest rs \<Longrightarrow> ReadFrom_loop mem n rs b = Inr (x, b') \<Longrightarrow>
     (\<exists>q. Bytes b' = Bytes b @ q \<and> x = (n + int (length q), snd (read_all rs)) \<and> q = fst (read_all rs)) \<and> binv b'"
proof (induction rs arbitrary: b n)
  case Nil
  obtain i c where g: "grow mem MinRead b = Inr (i, c)" and b': "b' = c\<lparr>blen := i\<rparr>" "x = (n, None)"
    using Nil.prems(3) by (subst (asm) ReadFrom_loop.simps) (auto simp: Let_def split: sum.splits)
  have "room b MinRead i c" by (rule grow_room [OF Nil.prems(1) g])
  then show ?case using b' by (auto simp: room_def buf_defs)
next
  case (Cons r rs)
  obtain d m e where r: "r = (d, m, e)" by (cases r)
  have m: "m = int (length d)" using Cons.prems(2) r by (simp add: honest_def)
  obtain i c where g: "grow mem MinRead b = Inr (i, c)"
    using Cons.prems(3) by (subst (asm) ReadFrom_loop.simps) (auto split: sum.splits)
  have rm: "room b MinRead i c" by (rule grow_room [OF Cons.prems(1) g])
  then have i: "off c \<le> i" "i \<le> length (arr c)" "drop (off c) (take i (arr c)) = Bytes b"
    by (auto simp: room_def binv_def)
  define c' where "c' = c\<lparr>arr := take i (arr c) @ copy_to (drop i (arr c)) d, blen := i + length d\<rparr>"
  have step: "i + length d \<le> length (arr c) \<and>
    (if e = Some EOF then Inr ((n + m, None), c')
     else if e \<noteq> None then Inr ((n + m, e), c')
     else ReadFrom_loop mem (n + m) rs c') = Inr (x, b')"
    using Cons.prems(3) i(2) g m r unfolding c'_def
    by (subst (asm) ReadFrom_loop.simps) (auto simp: Let_def Cap_def split: if_splits)
  have fit: "length d \<le> length (drop i (arr c))" using conjunct1 [OF step] by simp
  have c': "binv c'" "Bytes c' = Bytes b @ d"
    using i step rm copy_to_exact [OF fit] by (auto simp: c'_def room_def buf_defs)
  show ?case
  proof (cases e)
    case None
    then have "ReadFrom_loop mem (n + m) rs c' = Inr (x, b')" using step by simp
    with Cons.IH [OF c'(1) _ this] Cons.prems(2) c'(2) None m r show ?thesis
      by (auto simp: split_beta)
  next
    case (Some a)
    then show ?thesis using step c' m r by (auto split: if_splits)
  qed
qed

section \<open>Properties\<close>

text \<open>
  C25: From the zero \<open>Buffer\<close>, every sequence of writes, reads, \<open>Next\<close>, \<open>Truncate\<close>, \<open>Reset\<close>, \<open>Grow\<close> and
  \<open>WriteTo\<close> gives the values, errors and panics that the same sequence gives on a plain list of unread
  bytes, however the storage was slid, resliced or reallocated, unless it panics with \<open>ErrTooLarge\<close>.
\<close>

theorem buffer_refines:
  "case runs mem ops zero_buffer of
     Inl e \<Rightarrow> (if e = ErrTooLarge then True else contracts ops [] = Inl e)
   | Inr (vs, b) \<Rightarrow> binv b \<and> contracts ops [] = Inr (vs, Bytes b)"
  using runs_keep [OF zero_buffer_inv(1), where mem = mem and ops = ops] zero_buffer_inv(2)
  by (auto split: sum.splits)

text \<open>
  C26: \<open>Write\<close> panics only with \<open>ErrTooLarge\<close>, and only when twice the capacity plus the bytes to write is more
  than can be allocated or than fits an \<open>int\<close>; otherwise it returns, the number of bytes is that of its argument,
  and they come after the unread ones.
\<close>

theorem write_returns:
  assumes "binv b"
  shows "case Write mem p b of
      Inl e \<Rightarrow> e = ErrTooLarge \<and> (mem < 2 * Cap b + length p \<or> maxInt < int (2 * Cap b + length p))
    | Inr (n, b') \<Rightarrow> n = length p \<and> Bytes b' = Bytes b @ p \<and> binv b'"
proof -
  let ?b = "b\<lparr>lastRead := opInvalid\<rparr>"
  show ?thesis
  proof (cases "Write mem p b")
    case (Inl e)
    then have r: "reserve mem (length p) ?b = Inl e" by (auto simp: Write_def split: sum.splits)
    have "\<exists>i c. reserve mem (length p) ?b = Inr (i, c)" if "2 * Cap b + length p \<le> mem" "int (2 * Cap b + length p) \<le> maxInt"
      using grow_returns [of ?b "length p" mem] assms that tryGrow_fail [of "length p" ?b]
      by (auto simp: reserve_def binv_lastRead Cap_def split: prod.splits bool.splits)
    then have "\<not> (2 * Cap b + length p \<le> mem \<and> int (2 * Cap b + length p) \<le> maxInt)" using r by auto
    moreover have "e = ErrTooLarge" using reserve_panic [OF r] .
    ultimately show ?thesis using Inl by auto
  next
    case (Inr x)
    then show ?thesis using Write_keeps [OF assms, of mem p] by (auto simp: keeps_def val_def)
  qed
qed

theorem write_returns_witness:
  "(\<exists>b'. Write 1000 [1, 2] zero_buffer = Inr (length [1, 2 :: u8], b') \<and> Bytes b' = Bytes zero_buffer @ [1, 2])
   \<and> Write 100 (replicate 101 (0 :: u8)) zero_buffer = Inl ErrTooLarge"
proof -
  have inv: "binv zero_buffer" by (simp add: zero_buffer_def buf_defs)
  have "isl (Write 100 (replicate 101 (0 :: u8)) zero_buffer)" by code_simp
  then have e: "\<exists>e. Write 100 (replicate 101 (0 :: u8)) zero_buffer = Inl e"
    by (cases "Write 100 (replicate 101 (0 :: u8)) zero_buffer") simp_all
  show ?thesis
    using write_returns [OF inv, of 1000 "[1, 2]"] write_returns [OF inv, of 100 "replicate 101 0"] e
    by (auto simp: zero_buffer_def buf_defs maxInt_def split: sum.splits)
qed

text \<open>
  \<open>UnreadByte\<close> after a successful \<open>ReadByte\<close>, and \<open>UnreadRune\<close> after a successful \<open>ReadRune\<close>, succeed
  and make the unread bytes what they were before the read.
\<close>

theorem unread_undoes:
  assumes "binv b" "Bytes b \<noteq> []"
  shows "fst (UnreadByte (snd (ReadByte b))) = None \<and> Bytes (snd (UnreadByte (snd (ReadByte b)))) = Bytes b \<and>
    fst (UnreadRune (snd (ReadRune b))) = None \<and> Bytes (snd (UnreadRune (snd (ReadRune b)))) = Bytes b"
proof -
  have ne: "\<not> buf_empty b" using assms Bytes_empty by blast
  obtain r n where d: "DecodeRune (Bytes b) = (r, n)" by (cases "DecodeRune (Bytes b)")
  have n: "0 < n" using DecodeRune_pos [OF assms(2)] d by simp
  have "ReadRune b = ((ucast (arr b ! off b), 1, None), b\<lparr>off := off b + 1, lastRead := 1\<rparr>)
      \<or> ReadRune b = ((r, n, None), b\<lparr>off := off b + n, lastRead := int n\<rparr>)"
    using ne d by (auto simp: ReadRune_def Let_def opReadRune1_def)
  then have "fst (UnreadRune (snd (ReadRune b))) = None \<and> Bytes (snd (UnreadRune (snd (ReadRune b)))) = Bytes b"
    using n by (auto simp: UnreadRune_def opInvalid_def Bytes_def)
  moreover have "fst (UnreadByte (snd (ReadByte b))) = None \<and> Bytes (snd (UnreadByte (snd (ReadByte b)))) = Bytes b"
    using ne by (simp add: ReadByte_def UnreadByte_def Let_def opRead_def opInvalid_def Bytes_def)
  ultimately show ?thesis by blast
qed

theorem unread_undoes_witness:
  "fst (UnreadByte (snd (ReadByte (NewBuffer [65, 66] 2)))) = None \<and>
   Bytes (snd (UnreadByte (snd (ReadByte (NewBuffer [65, 66] 2))))) = Bytes (NewBuffer [65, 66] 2) \<and>
   fst (UnreadRune (snd (ReadRune (NewBuffer [65, 66] 2)))) = None \<and>
   Bytes (snd (UnreadRune (snd (ReadRune (NewBuffer [65, 66] 2))))) = Bytes (NewBuffer [65, 66] 2)"
  by (rule unread_undoes) (simp_all add: NewBuffer_def buf_defs)

text \<open>
  \<open>ReadFrom\<close> appends exactly what the reader delivered up to its first error or \<open>io.EOF\<close>, returns
  that number of bytes, and turns \<open>io.EOF\<close> into no error.
\<close>

theorem ReadFrom_appends:
  assumes "binv b" "list_all honest rs" "ReadFrom mem rs b = Inr (x, b')"
  shows "Bytes b' = Bytes b @ fst (read_all rs) \<and> x = (int (length (fst (read_all rs))), snd (read_all rs))"
  using ReadFrom_loop_appends [of "b\<lparr>lastRead := opInvalid\<rparr>" rs mem 0 x b'] assms
  by (auto simp: ReadFrom_def binv_lastRead)

lemma ReadFrom_small:
  "ReadFrom 10000 [([65, 66], 2, None), ([67], 1, Some EOF)] (NewBuffer [] 0)
     = Inr ((3, None), \<lparr>arr = [65, 66, 67] @ replicate 1533 0, blen = 3, isnil = False, off = 0, lastRead = 0\<rparr>)"
  by code_simp

theorem ReadFrom_appends_witness:
  "Bytes \<lparr>arr = [65, 66, 67] @ replicate 1533 0, blen = 3, isnil = False, off = 0, lastRead = 0\<rparr>
     = Bytes (NewBuffer [] 0) @ fst (read_all [([65, 66], 2, None), ([67], 1, Some EOF)]) \<and>
   (3 :: int, None) = (int (length (fst (read_all [([65, 66], 2, None), ([67], 1, Some EOF)]))),
     snd (read_all [([65, 66], 2, None), ([67], 1, Some EOF)]))"
  by (rule ReadFrom_appends [OF _ _ ReadFrom_small]) (simp_all add: NewBuffer_def buf_defs honest_def)

text \<open>
  Where the comments promise more than the code does: after \<open>ReadBytes\<close> that returned no byte and
  \<open>io.EOF\<close>, \<open>UnreadByte\<close> reports success and un-reads a byte of an earlier read; after \<open>Grow\<close> has moved
  the bytes, it reports success and un-reads nothing.
\<close>

lemma unread_after_eof:
  "let b = snd (ReadByte (NewBuffer [65] 1)); ((line, err), c) = ReadBytes 66 b
   in line = [] \<and> err = Some EOF \<and> fst (UnreadByte c) = None \<and> Bytes b = [] \<and> Bytes (snd (UnreadByte c)) = [65]"
  by code_simp

lemma unread_after_grow:
  "case Grow 1000 10 (snd (ReadByte (NewBuffer [65, 66] 2))) of
     Inr (_, c) \<Rightarrow> fst (UnreadByte c) = None \<and> Bytes c = [66] \<and> Bytes (snd (UnreadByte c)) = [66]
   | Inl _ \<Rightarrow> False"
  by code_simp

end
