(* ===== verification/Varint.thy ===== *)
theory Varint
  imports GoWords
begin

text \<open>
  \<open>encoding/binary/varint.go\<close>: 64-bit integers in groups of seven bits, the least significant first.
  \<open>None\<close> is the panic of a buffer that is too small. A byte reader is the list of its answers; after
  them it reports \<open>io.EOF\<close>.
\<close>

section \<open>The code\<close>

definition MaxVarintLen64 :: nat where "MaxVarintLen64 = 10"

function PutUvarint_loop :: "u8 list \<Rightarrow> u64 \<Rightarrow> nat \<Rightarrow> (u8 list \<times> nat) option" where
  "PutUvarint_loop buf x i =
     (if x \<ge> 0x80 then
        if i < length buf then PutUvarint_loop (buf[i := ucast x OR 0x80]) (drop_bit 7 x) (i + 1) else None
      else if i < length buf then Some (buf[i := ucast x], i + 1) else None)"
  by pat_completeness auto
termination
proof (relation "measure (\<lambda>(buf, x, i). unat x)")
  fix buf :: "u8 list" and x :: u64 and i
  assume "x \<ge> 0x80"
  then have "0 < unat x" by (simp add: word_le_nat_alt)
  then show "((buf[i := ucast x OR 0x80], drop_bit 7 x, i + 1), buf, x, i) \<in> measure (\<lambda>(buf, x, i). unat x)"
    by (simp add: unat_drop_bit del: unat_gt_0)
qed simp

declare PutUvarint_loop.simps [simp del]

definition PutUvarint :: "u8 list \<Rightarrow> u64 \<Rightarrow> (u8 list \<times> nat) option" where
  "PutUvarint buf x = PutUvarint_loop buf x 0"

fun Uvarint_loop :: "u64 \<Rightarrow> nat \<Rightarrow> nat \<Rightarrow> u8 list \<Rightarrow> u64 \<times> int" where
  "Uvarint_loop x s i [] = (0, 0)"
| "Uvarint_loop x s i (b # bs) =
     (if i = MaxVarintLen64 then (0, - (int i + 1))
      else if b < 0x80 then
        if i = MaxVarintLen64 - 1 \<and> b > 1 then (0, - (int i + 1))
        else (x OR push_bit s (ucast b), int i + 1)
      else Uvarint_loop (x OR push_bit s (ucast (b AND 0x7f))) (s + 7) (i + 1) bs)"

definition Uvarint :: "u8 list \<Rightarrow> u64 \<times> int" where
  "Uvarint buf = Uvarint_loop 0 0 0 buf"

definition PutVarint :: "u8 list \<Rightarrow> u64 \<Rightarrow> (u8 list \<times> nat) option" where
  "PutVarint buf x =
     (let ux = push_bit 1 x; ux = (if sint x < 0 then NOT ux else ux) in PutUvarint buf ux)"

definition Varint :: "u8 list \<Rightarrow> u64 \<times> int" where
  "Varint buf =
     (let (ux, n) = Uvarint buf; x = drop_bit 1 ux; x = (if ux AND 1 \<noteq> 0 then NOT x else x) in (x, n))"

datatype varint_error = overflow | ReaderError nat

text \<open>Besides the results, what the reader has left.\<close>

fun ReadUvarint_loop ::
  "u64 \<Rightarrow> nat \<Rightarrow> nat \<Rightarrow> (nat + u8) list \<Rightarrow> (u64 \<times> varint_error option) \<times> (nat + u8) list" where
  "ReadUvarint_loop x s i [] = (if i < MaxVarintLen64 then ((x, Some (ReaderError 0)), []) else ((x, Some overflow), []))"
| "ReadUvarint_loop x s i (r # rs) =
     (if i < MaxVarintLen64 then
        (case r of
           Inl e \<Rightarrow> ((x, Some (ReaderError e)), rs)
         | Inr b \<Rightarrow>
             if b < 0x80 then
               if i = MaxVarintLen64 - 1 \<and> b > 1 then ((x, Some overflow), rs)
               else ((x OR push_bit s (ucast b), None), rs)
             else ReadUvarint_loop (x OR push_bit s (ucast (b AND 0x7f))) (s + 7) (i + 1) rs)
      else ((x, Some overflow), r # rs))"

definition ReadUvarint :: "(nat + u8) list \<Rightarrow> (u64 \<times> varint_error option) \<times> (nat + u8) list" where
  "ReadUvarint r = ReadUvarint_loop 0 0 0 r"

definition ReadVarint :: "(nat + u8) list \<Rightarrow> (u64 \<times> varint_error option) \<times> (nat + u8) list" where
  "ReadVarint r =
     (let ((ux, err), r) = ReadUvarint r; x = drop_bit 1 ux; x = (if ux AND 1 \<noteq> 0 then NOT x else x)
      in ((x, err), r))"

section \<open>The groups of a number\<close>

fun groups :: "nat \<Rightarrow> nat list" where
  "groups n = (if n < 128 then [n] else (128 + n mod 128) # groups (n div 128))"

declare groups.simps [simp del]

definition varint :: "u64 \<Rightarrow> u8 list" where
  "varint x = map word_of_nat (groups (unat x))"

lemma low_byte: "unat (ucast x OR 0x80 :: u8) = 128 + unat x mod 128" for x :: u64
proof (rule sym)
  have "(ucast x OR 0x80 :: u8) = 0x80 OR take_bit 7 (ucast x)"
  proof (rule bit_word_eqI)
    fix k assume "k < LENGTH(8)"
    then have "k \<in> {0, 1, 2, 3, 4, 5, 6, 7}" by auto
    then show "bit (ucast x OR 0x80 :: u8) k = bit (0x80 OR take_bit 7 (ucast x) :: u8) k"
      by (auto simp: bit_or_iff bit_take_bit_iff)
  qed
  moreover have "unat (take_bit 7 (ucast x) :: u8) = unat x mod 128"
    using mod_mod_cancel [of 128 256 "unat x"] by (simp add: unat_take_bit unat_ucast)
  moreover have "unat (0x80 OR take_bit 7 (ucast x) :: u8) = unat (0x80 :: u8) + unat (take_bit 7 (ucast x) :: u8)"
    by (rule unat_or_add [where k = 7 and m = 1]) (simp_all add: unat_take_bit)
  ultimately show "128 + unat x mod 128 = unat (ucast x OR 0x80 :: u8)" by simp
qed

lemma put_loop_eq:
  "PutUvarint_loop buf x i =
     (let e = varint x; n = length e
      in if length buf < i + n then None else Some (take i buf @ e @ drop (i + n) buf, i + n))"
proof (induction buf x i rule: PutUvarint_loop.induct)
  case (1 buf x i)
  show ?case
  proof (cases "x \<ge> 0x80")
    case True
    then have x: "128 \<le> unat x" by (simp add: word_le_nat_alt)
    have v: "varint x = (ucast x OR 0x80) # varint (drop_bit 7 x)"
      using x unfolding varint_def word_of_unatI [OF low_byte [of x]]
      by (subst groups.simps) (simp add: unat_drop_bit)
    show ?thesis
    proof (cases "i < length buf")
      case ib: True
      have "take (i + 1) (buf[i := ucast x OR 0x80]) = take i buf @ [ucast x OR 0x80]"
        using ib by (simp add: take_Suc_conv_app_nth)
      then show ?thesis
        using 1 [OF True ib] True ib by (subst PutUvarint_loop.simps) (simp add: v Let_def)
    next
      case False
      then show ?thesis using True by (subst PutUvarint_loop.simps) (simp add: v Let_def)
    qed
  next
    case False
    then have x: "unat x < 128" by (simp add: word_le_nat_alt)
    then have v: "varint x = [ucast x]" unfolding varint_def by (subst groups.simps) simp
    show ?thesis
      using False by (subst PutUvarint_loop.simps) (simp add: v Let_def upd_conv_take_nth_drop)
  qed
qed

section \<open>Reading them back\<close>

lemma or_shift:
  fixes acc v :: u64
  assumes "unat acc < 2 ^ s" "2 ^ s * unat v < 2 ^ 64"
  shows "unat (acc OR push_bit s v) = unat acc + 2 ^ s * unat v"
proof -
  have p: "unat (push_bit s v) = 2 ^ s * unat v" using assms(2) by (intro unat_push_bit) simp
  have "unat (push_bit s v OR acc) = unat (push_bit s v) + unat acc"
    by (rule unat_or_add [OF assms(1) p])
  then show ?thesis using p by (simp add: or.commute)
qed

lemma ucast_byte: "unat (ucast (b :: u8) :: u64) = unat b"
  using unsigned_less [of b, where 'a = nat] by (simp add: unat_ucast)

lemma and_7f: "unat (b AND 0x7f) = unat b mod 128" for b :: u8
  using unat_and_mask [of b 7] by (simp add: mask_eq_exp_minus_1)

lemma byte_less: "b < 0x80 \<longleftrightarrow> unat b < 128" "b > 1 \<longleftrightarrow> unat b > 1" for b :: u8
  by (simp_all add: word_less_nat_alt)

lemma uvarint_groups:
  "unat acc < 2 ^ (7 * i) \<Longrightarrow> unat acc + n * 2 ^ (7 * i) < 2 ^ 64 \<Longrightarrow> i \<le> 9 \<Longrightarrow>
     Uvarint_loop acc (7 * i) i (map word_of_nat (groups n) @ rest)
       = (word_of_nat (unat acc + n * 2 ^ (7 * i)), int (i + length (groups n)))"
proof (induction n arbitrary: acc i rule: groups.induct)
  case (1 n)
  show ?case
  proof (cases "n < 128")
    case True
    define b where "b = (word_of_nat n :: u8)"
    have b: "unat b = n" unfolding b_def using True by (subst unat_of_nat) simp
    have "2 ^ (7 * i) * unat (ucast b :: u64) < 2 ^ 64"
      using 1(3) b by (simp only: ucast_byte mult.commute)
    then have v: "unat (acc OR push_bit (7 * i) (ucast b)) = unat acc + n * 2 ^ (7 * i)"
      using or_shift [OF 1(2)] b by (simp only: ucast_byte mult.commute)
    have last: "n \<le> 1" if "i = 9"
    proof (rule ccontr)
      assume "\<not> n \<le> 1"
      then have "2 * 2 ^ 63 \<le> n * (2 :: nat) ^ 63" by simp
      then show False using 1(3) that by simp
    qed
    have "groups n = [n]" using True by (subst groups.simps) simp
    then show ?thesis
      using True b last 1(4) word_of_unatI [OF v]
      by (auto simp: byte_less MaxVarintLen64_def simp flip: b_def)
  next
    case False
    define b where "b = (word_of_nat (128 + n mod 128) :: u8)"
    have b: "unat b = 128 + n mod 128" unfolding b_def by (subst unat_of_nat) simp
    have i: "i \<le> 8"
    proof (rule ccontr)
      assume "\<not> i \<le> 8"
      then have "i = 9" using 1(4) by simp
      moreover have "128 * 2 ^ 63 \<le> n * (2 :: nat) ^ 63" using False by simp
      ultimately show False using 1(3) by simp
    qed
    let ?v = "acc OR push_bit (7 * i) (ucast (b AND 0x7f))"
    have m: "unat (ucast (b AND 0x7f) :: u64) = n mod 128"
      unfolding ucast_byte and_7f b by simp
    have le: "n mod 128 * 2 ^ (7 * i) \<le> n * 2 ^ (7 * i)" by simp
    then have "2 ^ (7 * i) * unat (ucast (b AND 0x7f) :: u64) < 2 ^ 64"
      using 1(3) unfolding m by (simp only: mult.commute)
    then have v: "unat ?v = unat acc + 2 ^ (7 * i) * (n mod 128)"
      using or_shift [OF 1(2), of "ucast (b AND 0x7f)"] unfolding m by blast
    have p: "(2 :: nat) ^ (7 * (i + 1)) = 128 * 2 ^ (7 * i)" by (simp add: power_add)
    have "unat acc + 2 ^ (7 * i) * (n mod 128) < 2 ^ (7 * i) * (n mod 128 + 1)" using 1(2) by simp
    also have "\<dots> \<le> 2 ^ (7 * i) * 128" by (intro mult_le_mono2) (simp add: Suc_le_eq)
    finally have a: "unat ?v < 2 ^ (7 * (i + 1))" using p v by simp
    have n: "2 ^ (7 * i) * (n mod 128) + n div 128 * (128 * 2 ^ (7 * i)) = n * 2 ^ (7 * i)"
    proof -
      have "P * r + q * (128 * P) = (r + q * 128) * P" for P q r :: nat by (simp add: algebra_simps)
      moreover have "n mod 128 + n div 128 * 128 = n" by simp
      ultimately show ?thesis by (simp only:)
    qed
    have e: "unat ?v + n div 128 * 2 ^ (7 * (i + 1)) = unat acc + n * 2 ^ (7 * i)"
      unfolding v p using n by linarith
    have i': "i + 1 \<le> 9" using i by simp
    have IH: "Uvarint_loop ?v (7 * (i + 1)) (i + 1) (map word_of_nat (groups (n div 128)) @ rest)
       = (word_of_nat (unat acc + n * 2 ^ (7 * i)), int (i + 1 + length (groups (n div 128))))"
      using 1(1) [OF False a _ i'] 1(3) unfolding e by blast
    have g: "map word_of_nat (groups n) = b # map word_of_nat (groups (n div 128))"
      "length (groups n) = Suc (length (groups (n div 128)))"
      using False by (subst groups.simps, simp add: b_def)+
    have "\<not> b < 0x80" using b by (simp add: byte_less)
    then have "Uvarint_loop acc (7 * i) i (map word_of_nat (groups n) @ rest)
        = Uvarint_loop ?v (7 * (i + 1)) (i + 1) (map word_of_nat (groups (n div 128)) @ rest)"
      using i unfolding g by (simp add: MaxVarintLen64_def add.commute)
    then show ?thesis unfolding IH g(2) by simp
  qed
qed

lemma groups_short: "n < 2 ^ (7 * k) \<Longrightarrow> 0 < k \<Longrightarrow> length (groups n) \<le> k"
proof (induction n arbitrary: k rule: groups.induct)
  case (1 n)
  show ?case
  proof (cases "n < 128")
    case True
    then show ?thesis using 1(3) by (subst groups.simps) simp
  next
    case False
    obtain j where k: "k = Suc j" using 1(3) by (cases k) auto
    have "n < 2 ^ (7 * j) * 128" using 1(2) by (simp add: k power_add)
    then have n: "n div 128 < 2 ^ (7 * j)" by (simp add: less_mult_imp_div_less)
    have "0 < j" using False 1(2) k by (cases j) auto
    with 1(1) [OF False n] False show ?thesis by (subst groups.simps) (simp add: k)
  qed
qed

lemma varint_short: "length (varint x) \<le> 10"
  using groups_short [of "unat x" 10] unsigned_less [of x, where 'a = nat] by (simp add: varint_def)

lemma Uvarint_varint: "Uvarint (varint x @ rest) = (x, int (length (varint x)))"
  using uvarint_groups [of 0 0 "unat x" rest] unsigned_less [of x, where 'a = nat]
  by (simp add: Uvarint_def varint_def)

text \<open>A reader that delivers the bytes one by one gives the same result.\<close>

lemma ReadUvarint_loop_eq:
  "Uvarint_loop x s i bs = (v, n) \<Longrightarrow> n > 0 \<Longrightarrow> i \<le> 10 \<Longrightarrow>
     ReadUvarint_loop x s i (map Inr bs @ rs) = ((v, None), map Inr (drop (nat n - i) bs) @ rs) \<and> int i < n"
proof (induction bs arbitrary: x s i)
  case (Cons b bs)
  have i: "i \<noteq> 10" using Cons.prems by (auto simp: MaxVarintLen64_def)
  show ?case
  proof (cases "b < 0x80")
    case True
    moreover have "nat (int i + 1) - i = 1" by simp
    ultimately show ?thesis using Cons.prems i by (auto simp: MaxVarintLen64_def split: if_splits)
  next
    case False
    then have "Uvarint_loop (x OR push_bit s (ucast (b AND 0x7f))) (s + 7) (i + 1) bs = (v, n)"
      using Cons.prems i by (simp add: MaxVarintLen64_def)
    note IH = Cons.IH [OF this Cons.prems(2)]
    have "nat n - i = Suc (nat n - Suc i)" using IH i Cons.prems(3) by auto
    then show ?thesis using IH False i Cons.prems(3) by (auto simp: MaxVarintLen64_def)
  qed
qed simp

text \<open>The number that seven-bit groups stand for, canonical or not.\<close>

fun uval :: "u8 list \<Rightarrow> nat" where
  "uval [] = 0"
| "uval (b # bs) = unat b mod 128 + 128 * uval bs"

lemma Uvarint_loop_10: "snd (Uvarint_loop x s 10 bs) \<le> 0"
  by (cases bs) (simp_all add: MaxVarintLen64_def)

lemma Uvarint_loop_exact:
  "Uvarint_loop acc (7 * i) i bs = (x, n) \<Longrightarrow> n > 0 \<Longrightarrow> unat acc < 2 ^ (7 * i) \<Longrightarrow> i \<le> 10 \<Longrightarrow>
     \<exists>k. n = int (i + k) \<and> i + k \<le> 10 \<and> k \<le> length bs \<and> unat x = unat acc + 2 ^ (7 * i) * uval (take k bs)"
proof (induction bs arbitrary: acc i)
  case (Cons b bs)
  have i: "i \<le> 9"
  proof (rule ccontr)
    assume "\<not> i \<le> 9"
    then have "i = 10" using Cons.prems(4) by simp
    then show False using Cons.prems(1,2) Uvarint_loop_10 [of acc "7 * i" "b # bs"] by simp
  qed
  have pow: "(2 :: nat) ^ (7 * i) \<le> 2 ^ 63" using i by (intro power_increasing) auto
  show ?case
  proof (cases "b < 0x80")
    case True
    have r: "x = acc OR push_bit (7 * i) (ucast b)" "n = int i + 1" "i = 9 \<longrightarrow> unat b \<le> 1"
      using Cons.prems(1,2) True i by (auto simp: MaxVarintLen64_def byte_less split: if_splits)
    have "2 ^ (7 * i) * unat b < 2 ^ 64"
    proof (cases "i = 9")
      case True
      then have "2 ^ (7 * i) * unat b \<le> 2 ^ 63 * 1" using r(3) by (intro mult_le_mono) auto
      then show ?thesis by simp
    next
      case False
      then have "(2 :: nat) ^ (7 * i) \<le> 2 ^ 56" using i by (intro power_increasing) auto
      then have "2 ^ (7 * i) * unat b \<le> 2 ^ 56 * 127" using True by (intro mult_le_mono) (auto simp: byte_less)
      then show ?thesis by simp
    qed
    then have z: "2 ^ (7 * i) * unat (ucast b :: u64) < 2 ^ 64" unfolding ucast_byte .
    have "unat x = unat acc + 2 ^ (7 * i) * unat b"
      using or_shift [OF Cons.prems(3) z] unfolding r(1) ucast_byte .
    moreover have "unat b mod 128 = unat b" using True by (simp add: byte_less)
    ultimately show ?thesis using r(2) i by (intro exI [of _ 1]) simp
  next
    case False
    let ?v = "acc OR push_bit (7 * i) (ucast (b AND 0x7f))"
    have step: "Uvarint_loop ?v (7 * (i + 1)) (i + 1) bs = (x, n)"
      using Cons.prems(1) False i by (simp add: MaxVarintLen64_def add.commute)
    have "i \<noteq> 9"
    proof
      assume "i = 9"
      then show False using step Cons.prems(2) Uvarint_loop_10 [of ?v "7 * (i + 1)" bs] by simp
    qed
    then have i8: "i \<le> 8" using i by simp
    have m: "unat (ucast (b AND 0x7f) :: u64) = unat b mod 128" unfolding ucast_byte and_7f ..
    have "(2 :: nat) ^ (7 * i) \<le> 2 ^ 56" using i8 by (intro power_increasing) auto
    then have "2 ^ (7 * i) * (unat b mod 128) \<le> 2 ^ 56 * 127" by (intro mult_le_mono) (simp_all add: less_Suc_eq_le [symmetric])
    then have "2 ^ (7 * i) * (unat b mod 128) < 2 ^ 64" by simp
    then have v: "unat ?v = unat acc + 2 ^ (7 * i) * (unat b mod 128)"
      using or_shift [OF Cons.prems(3), of "ucast (b AND 0x7f)"] unfolding m by blast
    have p: "(2 :: nat) ^ (7 * (i + 1)) = 128 * 2 ^ (7 * i)" by (simp add: power_add)
    have "unat acc + 2 ^ (7 * i) * (unat b mod 128) < 2 ^ (7 * i) * (unat b mod 128 + 1)"
      using Cons.prems(3) by simp
    also have "\<dots> \<le> 2 ^ (7 * i) * 128" by (intro mult_le_mono2) (simp add: Suc_le_eq)
    finally have a: "unat ?v < 2 ^ (7 * (i + 1))" using p v by simp
    obtain k where k: "n = int (i + 1 + k)" "i + 1 + k \<le> 10" "k \<le> length bs"
      "unat x = unat ?v + 2 ^ (7 * (i + 1)) * uval (take k bs)"
      using Cons.IH [OF step Cons.prems(2) a] i by auto
    have "unat x = unat acc + 2 ^ (7 * i) * uval (take (Suc k) (b # bs))"
      unfolding k(4) v p by (simp add: algebra_simps)
    then show ?thesis using k by (intro exI [of _ "Suc k"]) simp
  qed
qed simp

section \<open>Zig-zag\<close>

definition zigzag :: "u64 \<Rightarrow> u64" where
  "zigzag x = (if sint x < 0 then NOT (push_bit 1 x) else push_bit 1 x)"

lemma bit_top: "bit x 63 \<longleftrightarrow> sint x < 0" for x :: u64
  using bit_last_iff [of x] by simp

lemma zigzag_back:
  "(if zigzag x AND 1 \<noteq> 0 then NOT (drop_bit 1 (zigzag x)) else drop_bit 1 (zigzag x)) = x"
proof -
  have odd: "zigzag x AND 1 \<noteq> 0 \<longleftrightarrow> sint x < 0"
  proof -
    have "zigzag x AND 1 \<noteq> 0 \<longleftrightarrow> bit (zigzag x) 0" by (simp add: and_one_eq bit_0 odd_iff_mod_2_eq_one)
    also have "\<dots> \<longleftrightarrow> sint x < 0" by (simp add: zigzag_def bit_0 bit_not_iff)
    finally show ?thesis .
  qed
  define y where "y = push_bit 1 x"
  have y: "bit y k \<longleftrightarrow> 0 < k \<and> k < 64 \<and> bit x (k - 1)" for k
    unfolding y_def by (auto simp only: bit_push_bit_iff word_size) (auto simp: Suc_le_eq)
  have z: "zigzag x = (if sint x < 0 then NOT y else y)" by (simp only: zigzag_def y_def)
  show ?thesis
  proof (rule bit_word_eqI)
    fix k assume k: "k < LENGTH(64)"
    show "bit (if zigzag x AND 1 \<noteq> 0 then NOT (drop_bit 1 (zigzag x)) else drop_bit 1 (zigzag x)) k = bit x k"
      unfolding odd using k bit_top [of x]
      by (cases "k = 63") (auto simp: z y bit_not_iff bit_drop_bit_eq)
  qed
qed

lemma PutVarint_zigzag: "PutVarint buf x = PutUvarint buf (zigzag x)"
  by (simp add: PutVarint_def zigzag_def Let_def)

section \<open>Properties\<close>

text \<open>
  C27: Every signed 64-bit integer has an encoding of one to ten bytes. \<open>PutVarint\<close> writes it at the front of every
  buffer that has the room, returns its length and leaves the rest of the buffer alone; it panics on every other
  buffer. \<open>Varint\<close> reads the integer and the length back, whatever follows, and \<open>ReadVarint\<close> reads the
  integer and leaves the rest of its reader alone.
\<close>

theorem varint_roundtrip:
  "\<exists>bs. bs \<noteq> [] \<and> length bs \<le> 10
     \<and> (\<forall>buf. PutVarint buf x = (if length bs \<le> length buf then Some (bs @ drop (length bs) buf, length bs) else None))
     \<and> (\<forall>rest. Varint (bs @ rest) = (x, int (length bs)))
     \<and> (\<forall>rs. ReadVarint (map Inr bs @ rs) = ((x, None), rs))"
proof -
  let ?bs = "varint (zigzag x)"
  have ne: "?bs \<noteq> []" unfolding varint_def by (subst groups.simps) simp
  have put: "PutVarint buf x = (if length ?bs \<le> length buf then Some (?bs @ drop (length ?bs) buf, length ?bs) else None)" for buf
    by (simp add: PutVarint_zigzag PutUvarint_def put_loop_eq Let_def)
  have get: "Varint (?bs @ rest) = (x, int (length ?bs))" for rest
    using zigzag_back [of x] by (simp only: Varint_def Uvarint_varint Let_def prod.case)
  have "Uvarint_loop 0 0 0 ?bs = (zigzag x, int (length ?bs))"
    using Uvarint_varint [of "zigzag x" "[]"] by (simp add: Uvarint_def)
  then have "ReadUvarint (map Inr ?bs @ rs) = ((zigzag x, None), rs)" for rs
    using ReadUvarint_loop_eq [of 0 0 0 ?bs "zigzag x" "int (length ?bs)" rs] ne by (simp add: ReadUvarint_def)
  then have read: "ReadVarint (map Inr ?bs @ rs) = ((x, None), rs)" for rs
    using zigzag_back [of x] by (simp only: ReadVarint_def Let_def prod.case)
  show ?thesis
    by (rule exI [of _ ?bs]) (use ne varint_short [of "zigzag x"] put get read in blast)
qed

theorem varint_roundtrip_witness:
  "\<exists>b n. PutVarint (replicate 10 0) (- 100) = Some (b, n) \<and> fst (Varint (take n b)) = - 100"
proof -
  obtain bs where bs: "length bs \<le> 10"
      "\<forall>buf. PutVarint buf (- 100) = (if length bs \<le> length buf then Some (bs @ drop (length bs) buf, length bs) else None)"
      "\<forall>rest. Varint (bs @ rest) = (- 100, int (length bs))"
    using varint_roundtrip [of "- 100"] by blast
  have "fst (Varint bs) = - 100" using bs(3) [rule_format, of "[]"] by simp
  then show ?thesis using bs(1,2) by simp
qed

text \<open>
  On every input, \<open>Uvarint\<close> either returns the exact number that the groups it consumed stand for
  (never more than ten bytes, never one reduced modulo \<open>2 ^ 64\<close>) or the value 0 with a count that is not
  positive.
\<close>

theorem Uvarint_exact:
  "case Uvarint buf of (x, n) \<Rightarrow>
     if n > 0 then n \<le> 10 \<and> nat n \<le> length buf \<and> unat x = uval (take (nat n) buf) else x = 0"
proof -
  obtain x n where u: "Uvarint_loop 0 0 0 buf = (x, n)" by (cases "Uvarint_loop 0 0 0 buf")
  have zero: "n \<le> 0 \<Longrightarrow> Uvarint_loop y s i bs = (x, n) \<Longrightarrow> x = 0" for y s i bs
    by (induction y s i bs rule: Uvarint_loop.induct) (auto split: if_splits)
  show ?thesis
  proof (cases "n > 0")
    case True
    then show ?thesis using Uvarint_loop_exact [of 0 0 buf x n] u by (auto simp: Uvarint_def)
  next
    case False
    then show ?thesis using zero [of 0 0 0 buf] u by (simp add: Uvarint_def)
  qed
qed

end
