(* ===== verification/MathBits.thy ===== *)
theory MathBits
  imports GoWords
begin

unbundle bit_operations_syntax

text \<open>
  \<open>math/bits\<close> (\<open>math/bits/bits.go\<close>, with the tables of \<open>math/bits/bits_tables.go\<close>): counting, reversing,
  rotating, and arithmetic of double width. Go's \<open>uint\<close> has 32 or 64 bits, as \<open>b32\<close> says (\<open>UintSize == 32\<close>);
  it is read as a \<open>u64\<close>, and the conversions to \<open>uint32\<close> truncate. Tables are lists of bytes.
\<close>

section \<open>Tables\<close>

definition ntz8tab :: "u8 list" where
  "ntz8tab = [
     8, 0, 1, 0, 2, 0, 1, 0, 3, 0, 1, 0, 2, 0, 1, 0,
     4, 0, 1, 0, 2, 0, 1, 0, 3, 0, 1, 0, 2, 0, 1, 0,
     5, 0, 1, 0, 2, 0, 1, 0, 3, 0, 1, 0, 2, 0, 1, 0,
     4, 0, 1, 0, 2, 0, 1, 0, 3, 0, 1, 0, 2, 0, 1, 0,
     6, 0, 1, 0, 2, 0, 1, 0, 3, 0, 1, 0, 2, 0, 1, 0,
     4, 0, 1, 0, 2, 0, 1, 0, 3, 0, 1, 0, 2, 0, 1, 0,
     5, 0, 1, 0, 2, 0, 1, 0, 3, 0, 1, 0, 2, 0, 1, 0,
     4, 0, 1, 0, 2, 0, 1, 0, 3, 0, 1, 0, 2, 0, 1, 0,
     7, 0, 1, 0, 2, 0, 1, 0, 3, 0, 1, 0, 2, 0, 1, 0,
     4, 0, 1, 0, 2, 0, 1, 0, 3, 0, 1, 0, 2, 0, 1, 0,
     5, 0, 1, 0, 2, 0, 1, 0, 3, 0, 1, 0, 2, 0, 1, 0,
     4, 0, 1, 0, 2, 0, 1, 0, 3, 0, 1, 0, 2, 0, 1, 0,
     6, 0, 1, 0, 2, 0, 1, 0, 3, 0, 1, 0, 2, 0, 1, 0,
     4, 0, 1, 0, 2, 0, 1, 0, 3, 0, 1, 0, 2, 0, 1, 0,
     5, 0, 1, 0, 2, 0, 1, 0, 3, 0, 1, 0, 2, 0, 1, 0,
     4, 0, 1, 0, 2, 0, 1, 0, 3, 0, 1, 0, 2, 0, 1, 0]"

definition pop8tab :: "u8 list" where
  "pop8tab = [
     0, 1, 1, 2, 1, 2, 2, 3, 1, 2, 2, 3, 2, 3, 3, 4,
     1, 2, 2, 3, 2, 3, 3, 4, 2, 3, 3, 4, 3, 4, 4, 5,
     1, 2, 2, 3, 2, 3, 3, 4, 2, 3, 3, 4, 3, 4, 4, 5,
     2, 3, 3, 4, 3, 4, 4, 5, 3, 4, 4, 5, 4, 5, 5, 6,
     1, 2, 2, 3, 2, 3, 3, 4, 2, 3, 3, 4, 3, 4, 4, 5,
     2, 3, 3, 4, 3, 4, 4, 5, 3, 4, 4, 5, 4, 5, 5, 6,
     2, 3, 3, 4, 3, 4, 4, 5, 3, 4, 4, 5, 4, 5, 5, 6,
     3, 4, 4, 5, 4, 5, 5, 6, 4, 5, 5, 6, 5, 6, 6, 7,
     1, 2, 2, 3, 2, 3, 3, 4, 2, 3, 3, 4, 3, 4, 4, 5,
     2, 3, 3, 4, 3, 4, 4, 5, 3, 4, 4, 5, 4, 5, 5, 6,
     2, 3, 3, 4, 3, 4, 4, 5, 3, 4, 4, 5, 4, 5, 5, 6,
     3, 4, 4, 5, 4, 5, 5, 6, 4, 5, 5, 6, 5, 6, 6, 7,
     2, 3, 3, 4, 3, 4, 4, 5, 3, 4, 4, 5, 4, 5, 5, 6,
     3, 4, 4, 5, 4, 5, 5, 6, 4, 5, 5, 6, 5, 6, 6, 7,
     3, 4, 4, 5, 4, 5, 5, 6, 4, 5, 5, 6, 5, 6, 6, 7,
     4, 5, 5, 6, 5, 6, 6, 7, 5, 6, 6, 7, 6, 7, 7, 8]"

definition rev8tab :: "u8 list" where
  "rev8tab = [
     0, 128, 64, 192, 32, 160, 96, 224, 16, 144, 80, 208, 48, 176, 112, 240,
     8, 136, 72, 200, 40, 168, 104, 232, 24, 152, 88, 216, 56, 184, 120, 248,
     4, 132, 68, 196, 36, 164, 100, 228, 20, 148, 84, 212, 52, 180, 116, 244,
     12, 140, 76, 204, 44, 172, 108, 236, 28, 156, 92, 220, 60, 188, 124, 252,
     2, 130, 66, 194, 34, 162, 98, 226, 18, 146, 82, 210, 50, 178, 114, 242,
     10, 138, 74, 202, 42, 170, 106, 234, 26, 154, 90, 218, 58, 186, 122, 250,
     6, 134, 70, 198, 38, 166, 102, 230, 22, 150, 86, 214, 54, 182, 118, 246,
     14, 142, 78, 206, 46, 174, 110, 238, 30, 158, 94, 222, 62, 190, 126, 254,
     1, 129, 65, 193, 33, 161, 97, 225, 17, 145, 81, 209, 49, 177, 113, 241,
     9, 137, 73, 201, 41, 169, 105, 233, 25, 153, 89, 217, 57, 185, 121, 249,
     5, 133, 69, 197, 37, 165, 101, 229, 21, 149, 85, 213, 53, 181, 117, 245,
     13, 141, 77, 205, 45, 173, 109, 237, 29, 157, 93, 221, 61, 189, 125, 253,
     3, 131, 67, 195, 35, 163, 99, 227, 19, 147, 83, 211, 51, 179, 115, 243,
     11, 139, 75, 203, 43, 171, 107, 235, 27, 155, 91, 219, 59, 187, 123, 251,
     7, 135, 71, 199, 39, 167, 103, 231, 23, 151, 87, 215, 55, 183, 119, 247,
     15, 143, 79, 207, 47, 175, 111, 239, 31, 159, 95, 223, 63, 191, 127, 255]"

definition len8tab :: "u8 list" where
  "len8tab = [
     0, 1, 2, 2, 3, 3, 3, 3, 4, 4, 4, 4, 4, 4, 4, 4,
     5, 5, 5, 5, 5, 5, 5, 5, 5, 5, 5, 5, 5, 5, 5, 5,
     6, 6, 6, 6, 6, 6, 6, 6, 6, 6, 6, 6, 6, 6, 6, 6,
     6, 6, 6, 6, 6, 6, 6, 6, 6, 6, 6, 6, 6, 6, 6, 6,
     7, 7, 7, 7, 7, 7, 7, 7, 7, 7, 7, 7, 7, 7, 7, 7,
     7, 7, 7, 7, 7, 7, 7, 7, 7, 7, 7, 7, 7, 7, 7, 7,
     7, 7, 7, 7, 7, 7, 7, 7, 7, 7, 7, 7, 7, 7, 7, 7,
     7, 7, 7, 7, 7, 7, 7, 7, 7, 7, 7, 7, 7, 7, 7, 7,
     8, 8, 8, 8, 8, 8, 8, 8, 8, 8, 8, 8, 8, 8, 8, 8,
     8, 8, 8, 8, 8, 8, 8, 8, 8, 8, 8, 8, 8, 8, 8, 8,
     8, 8, 8, 8, 8, 8, 8, 8, 8, 8, 8, 8, 8, 8, 8, 8,
     8, 8, 8, 8, 8, 8, 8, 8, 8, 8, 8, 8, 8, 8, 8, 8,
     8, 8, 8, 8, 8, 8, 8, 8, 8, 8, 8, 8, 8, 8, 8, 8,
     8, 8, 8, 8, 8, 8, 8, 8, 8, 8, 8, 8, 8, 8, 8, 8,
     8, 8, 8, 8, 8, 8, 8, 8, 8, 8, 8, 8, 8, 8, 8, 8,
     8, 8, 8, 8, 8, 8, 8, 8, 8, 8, 8, 8, 8, 8, 8, 8]"

definition deBruijn32tab :: "u8 list" where
  "deBruijn32tab = [
     0, 1, 28, 2, 29, 14, 24, 3, 30, 22, 20, 15, 25, 17, 4, 8,
     31, 27, 13, 23, 21, 19, 16, 7, 26, 12, 18, 6, 11, 5, 10, 9]"

definition deBruijn64tab :: "u8 list" where
  "deBruijn64tab = [
     0, 1, 56, 2, 57, 49, 28, 3, 61, 58, 42, 50, 38, 29, 17, 4,
     62, 47, 59, 36, 45, 43, 51, 22, 53, 39, 33, 30, 24, 18, 12, 5,
     63, 55, 48, 27, 60, 41, 37, 16, 46, 35, 44, 21, 52, 32, 23, 11,
     54, 26, 40, 15, 34, 20, 31, 10, 25, 14, 19, 9, 13, 8, 7, 6]"

definition deBruijn32 :: u32 where "deBruijn32 = 0x077CB531"
definition deBruijn64 :: u64 where "deBruijn64 = 0x03f79d71b4ca8b09"

definition m0 :: u64 where "m0 = 0x5555555555555555"
definition m1 :: u64 where "m1 = 0x3333333333333333"
definition m2 :: u64 where "m2 = 0x0f0f0f0f0f0f0f0f"
definition m3 :: u64 where "m3 = 0x00ff00ff00ff00ff"
definition m4 :: u64 where "m4 = 0x0000ffff0000ffff"

text \<open>Reading a byte of a table at an index that is a word.\<close>

abbreviation at :: "u8 list \<Rightarrow> 'w::len word \<Rightarrow> u8" where
  "at tab x \<equiv> tab ! unat x"

section \<open>Counting\<close>

definition TrailingZeros8 :: "u8 \<Rightarrow> nat" where
  "TrailingZeros8 x = unat (at ntz8tab x)"

definition TrailingZeros16 :: "u16 \<Rightarrow> nat" where
  "TrailingZeros16 x =
     (if x = 0 then 16 else unat (at deBruijn32tab (drop_bit (32 - 5) (ucast (x AND - x) * deBruijn32))))"

definition TrailingZeros32 :: "u32 \<Rightarrow> nat" where
  "TrailingZeros32 x =
     (if x = 0 then 32 else unat (at deBruijn32tab (drop_bit (32 - 5) ((x AND - x) * deBruijn32))))"

definition TrailingZeros64 :: "u64 \<Rightarrow> nat" where
  "TrailingZeros64 x =
     (if x = 0 then 64 else unat (at deBruijn64tab (drop_bit (64 - 6) ((x AND - x) * deBruijn64))))"

definition TrailingZeros :: "bool \<Rightarrow> u64 \<Rightarrow> nat" where
  "TrailingZeros b32 x = (if b32 then TrailingZeros32 (ucast x) else TrailingZeros64 x)"

definition OnesCount8 :: "u8 \<Rightarrow> nat" where
  "OnesCount8 x = unat (at pop8tab x)"

definition OnesCount16 :: "u16 \<Rightarrow> nat" where
  "OnesCount16 x = unat (at pop8tab (drop_bit 8 x) + at pop8tab (x AND 0xff))"

definition OnesCount32 :: "u32 \<Rightarrow> nat" where
  "OnesCount32 x =
     unat (at pop8tab (drop_bit 24 x) + at pop8tab (drop_bit 16 x AND 0xff)
         + at pop8tab (drop_bit 8 x AND 0xff) + at pop8tab (x AND 0xff))"

definition OnesCount64 :: "u64 \<Rightarrow> nat" where
  "OnesCount64 x =
     (let x = (drop_bit 1 x AND m0) + (x AND m0);
          x = (drop_bit 2 x AND m1) + (x AND m1);
          x = (drop_bit 4 x + x) AND m2;
          x = x + drop_bit 8 x;
          x = x + drop_bit 16 x;
          x = x + drop_bit 32 x
      in unat (x AND mask 7))"

definition OnesCount :: "bool \<Rightarrow> u64 \<Rightarrow> nat" where
  "OnesCount b32 x = (if b32 then OnesCount32 (ucast x) else OnesCount64 x)"

definition Len8 :: "u8 \<Rightarrow> nat" where
  "Len8 x = unat (at len8tab x)"

definition Len16 :: "u16 \<Rightarrow> nat" where
  "Len16 x =
     (let (x, n) = (if x \<ge> push_bit 8 1 then (drop_bit 8 x, 8) else (x, 0))
      in n + unat (at len8tab x))"

definition Len32 :: "u32 \<Rightarrow> nat" where
  "Len32 x =
     (let (x, n) = (if x \<ge> push_bit 16 1 then (drop_bit 16 x, 16) else (x, 0));
          (x, n) = (if x \<ge> push_bit 8 1 then (drop_bit 8 x, n + 8) else (x, n))
      in n + unat (at len8tab x))"

definition Len64 :: "u64 \<Rightarrow> nat" where
  "Len64 x =
     (let (x, n) = (if x \<ge> push_bit 32 1 then (drop_bit 32 x, 32) else (x, 0));
          (x, n) = (if x \<ge> push_bit 16 1 then (drop_bit 16 x, n + 16) else (x, n));
          (x, n) = (if x \<ge> push_bit 8 1 then (drop_bit 8 x, n + 8) else (x, n))
      in n + unat (at len8tab x))"

definition bits_Len :: "bool \<Rightarrow> u64 \<Rightarrow> nat" where
  "bits_Len b32 x = (if b32 then Len32 (ucast x) else Len64 x)"

definition LeadingZeros8 :: "u8 \<Rightarrow> int" where "LeadingZeros8 x = 8 - int (Len8 x)"
definition LeadingZeros16 :: "u16 \<Rightarrow> int" where "LeadingZeros16 x = 16 - int (Len16 x)"
definition LeadingZeros32 :: "u32 \<Rightarrow> int" where "LeadingZeros32 x = 32 - int (Len32 x)"
definition LeadingZeros64 :: "u64 \<Rightarrow> int" where "LeadingZeros64 x = 64 - int (Len64 x)"

definition LeadingZeros :: "bool \<Rightarrow> u64 \<Rightarrow> int" where
  "LeadingZeros b32 x = (if b32 then 32 else 64) - int (bits_Len b32 x)"

section \<open>The tables\<close>

text \<open>Each table grows by doubling: the entry at \<open>2 ^ k + n\<close> is a function of the one at \<open>n\<close>.\<close>

fun doubled :: "(nat \<Rightarrow> u8 list \<Rightarrow> u8 list) \<Rightarrow> u8 \<Rightarrow> nat \<Rightarrow> u8 list" where
  "doubled f a 0 = [a]"
| "doubled f a (Suc k) = (let t = doubled f a k in t @ f k t)"

lemma doubled_ind:
  assumes "P 0 a" "\<And>k t. length t = 2 ^ k \<Longrightarrow> length (f k t) = length t"
    and "\<And>k t n. (\<And>n. n < 2 ^ k \<Longrightarrow> P n (t ! n)) \<Longrightarrow> length t = 2 ^ k \<Longrightarrow> k < 8 \<Longrightarrow> n < 2 ^ k
      \<Longrightarrow> P (n + 2 ^ k) (f k t ! n)"
  shows "k \<le> 8 \<Longrightarrow> length (doubled f a k) = 2 ^ k \<and> (\<forall>n < 2 ^ k. P n (doubled f a k ! n))"
proof (induction k)
  case (Suc k)
  then have IH: "length (doubled f a k) = 2 ^ k" "\<And>n. n < 2 ^ k \<Longrightarrow> P n (doubled f a k ! n)" by auto
  have "P n (doubled f a (Suc k) ! n)" if n: "n < 2 ^ Suc k" for n
  proof (cases "n < 2 ^ k")
    case True
    then show ?thesis using IH by (simp add: Let_def nth_append)
  next
    case False
    then have "P (n - 2 ^ k + 2 ^ k) (f k (doubled f a k) ! (n - 2 ^ k))"
      using IH Suc.prems n by (intro assms(3)) auto
    then show ?thesis using False IH(1) by (simp add: Let_def nth_append)
  qed
  then show ?case using IH(1) assms(2) by (simp add: Let_def)
qed (use assms(1) in simp)

lemma pop8tab_doubled: "pop8tab = doubled (\<lambda>k. map (\<lambda>x. x + 1)) 0 8"
  by (simp add: pop8tab_def eval_nat_numeral Let_def)

lemma len8tab_doubled: "len8tab = doubled (\<lambda>k. map (\<lambda>x. of_nat k + 1)) 0 8"
  by (simp add: len8tab_def eval_nat_numeral Let_def)

lemma ntz8tab_doubled: "ntz8tab = doubled (\<lambda>k t. of_nat k # tl t) 8 8"
  by (simp add: ntz8tab_def eval_nat_numeral Let_def)

lemma rev8tab_doubled: "rev8tab = doubled (\<lambda>k. map (\<lambda>x. x + push_bit (7 - k) 1)) 0 8"
  by (simp add: rev8tab_def eval_nat_numeral Let_def)

section \<open>Counting the bits that are set\<close>

definition popcount :: "nat \<Rightarrow> nat" where
  "popcount n = card {i. bit n i}"

lemma finite_bits: "finite {i. bit (n :: nat) i}"
proof (rule finite_subset)
  show "{i. bit n i} \<subseteq> {..n}"
  proof
    fix i assume "i \<in> {i. bit n i}"
    then have "2 ^ i \<le> n" by (simp add: bit_imp_ge)
    then show "i \<in> {..n}" using less_exp [of i] unfolding atMost_iff by linarith
  qed
qed simp

lemma popcount_concat:
  assumes "a < 2 ^ k"
  shows "popcount (a + 2 ^ k * b) = popcount a + popcount b"
proof -
  have lt: "i < k" if "bit a i" for i
    using bit_imp_ge [OF that] assms by (metis leI le_less_trans nat_power_less_imp_less not_less zero_less_numeral)
  have "{i. bit (a + 2 ^ k * b) i} = {i. bit a i} \<union> (\<lambda>i. i + k) ` {i. bit b i}"
  proof (rule set_eqI)
    fix i
    show "i \<in> {i. bit (a + 2 ^ k * b) i} \<longleftrightarrow> i \<in> {i. bit a i} \<union> (\<lambda>i. i + k) ` {i. bit b i}"
    proof (cases "i < k")
      case False
      then have "i \<in> (\<lambda>i. i + k) ` {i. bit b i} \<longleftrightarrow> bit b (i - k)"
        by (force intro: image_eqI [of _ _ "i - k"])
      then show ?thesis using lt [of i] False by (auto simp: bit_concat [OF assms])
    qed (auto simp: bit_concat [OF assms])
  qed
  moreover have "{i. bit a i} \<inter> (\<lambda>i. i + k) ` {i. bit b i} = {}" using lt by force
  moreover have "card ((\<lambda>i. i + k) ` {i. bit b i}) = popcount b"
    unfolding popcount_def by (intro card_image inj_onI) simp
  ultimately show ?thesis
    by (simp add: popcount_def card_Un_disjoint finite_bits)
qed

lemma popcount_0 [simp]: "popcount 0 = 0"
  by (simp add: popcount_def)

lemma popcount_bit [simp]: "popcount (of_bool b) = of_bool b"
proof (cases b)
  case True
  have "{i. bit (1 :: nat) i} = {0}" by (auto simp: bit_1_iff simp del: One_nat_def)
  then show ?thesis using True by (simp add: popcount_def)
qed simp

lemma popcount_le: "(n :: nat) < 2 ^ k \<Longrightarrow> popcount n \<le> k"
proof (induction k arbitrary: n)
  case (Suc k)
  have "n = of_bool (odd n) + 2 ^ 1 * (n div 2)" by simp
  then have "popcount n = of_bool (odd n) + popcount (n div 2)"
    by (metis popcount_bit popcount_concat of_bool_less_eq_one one_less_numeral_iff le_less_trans power_one_right semiring_norm(76))
  moreover have "popcount (n div 2) \<le> k" using Suc by auto
  ultimately show ?case by simp
qed simp

lemma popcount_word: "popcount (unat x) = card {i. bit x i}"
  by (simp add: popcount_def bit_unsigned_iff)

lemma pop8tab_nth:
  assumes "n < 256"
  shows "unat (pop8tab ! n) = popcount n"
proof -
  have "8 \<le> (8 :: nat) \<Longrightarrow> length pop8tab = 2 ^ 8 \<and> (\<forall>n < 2 ^ 8. unat (pop8tab ! n) = popcount n)"
    unfolding pop8tab_doubled
  proof (rule doubled_ind)
    fix k n :: nat and t :: "u8 list"
    assume IH: "\<And>n. n < 2 ^ k \<Longrightarrow> unat (t ! n) = popcount n" and t: "length t = 2 ^ k" "k < 8" "n < 2 ^ k"
    have "popcount n \<le> k" using popcount_le t(3) by blast
    then have "unat (t ! n + 1) = popcount n + 1"
      using IH [OF t(3)] t(2) by (simp add: unat_word_ariths)
    moreover have "popcount (n + 2 ^ k) = popcount n + 1"
      using popcount_concat [OF t(3), of 1] popcount_bit [of True] by simp
    ultimately show "unat (map (\<lambda>x. x + 1) t ! n) = popcount (n + 2 ^ k)" using t by simp
  qed simp_all
  then show ?thesis using assms by simp
qed

lemma popcount_split:
  fixes n :: nat
  shows "popcount n = popcount (n mod 2 ^ k) + popcount (n div 2 ^ k)"
  using popcount_concat [of "n mod 2 ^ k" k "n div 2 ^ k"] by simp

lemma OnesCount8_spec: "OnesCount8 x = card {i. bit x i}"
proof -
  have "unat x < 256" using unsigned_less [of x] by simp
  then show ?thesis by (simp add: OnesCount8_def pop8tab_nth popcount_word)
qed

lemma pop_concat_le: "popcount (n mod 2 ^ k) \<le> k"
  by (rule popcount_le) simp

text \<open>The bytes of a word, and the sum of entries of the table, which does not overflow.\<close>

lemma at_pop: "unat x < 256 \<Longrightarrow> unat (at pop8tab x) = popcount (unat x)"
  by (simp add: pop8tab_nth)

lemma and_ff: "unat (x AND 0xff) = unat x mod 256"
  using unat_and_mask [of x 8] by (simp add: mask_eq_exp_minus_1)

lemma add_small:
  fixes a b :: "'w::len word"
  shows "unat a + unat b < 2 ^ LENGTH('w) \<Longrightarrow> unat (a + b) = unat a + unat b"
  by (simp add: unat_add_lem [THEN iffD1])

lemma OnesCount16_spec: "OnesCount16 x = card {i. bit x i}"
proof -
  let ?u = "unat x"
  have lt: "?u < 2 ^ 16" using unsigned_less [of x] by simp
  have h: "?u div 256 < 256" "?u mod 256 < 256" using lt by simp_all
  have u: "unat (at pop8tab (drop_bit 8 x)) = popcount (?u div 256)"
    "unat (at pop8tab (x AND 0xff)) = popcount (?u mod 256)"
    using h by (subst at_pop; simp add: unat_drop_bit and_ff)+
  have "popcount (?u div 256) \<le> 8" "popcount (?u mod 256) \<le> 8" using h by (intro popcount_le; simp)+
  then have "OnesCount16 x = popcount (?u div 256) + popcount (?u mod 256)"
    unfolding OnesCount16_def using u by (subst add_small) simp_all
  also have "\<dots> = popcount ?u" using popcount_split [of ?u 8] by simp
  finally show ?thesis by (simp add: popcount_word)
qed

lemma OnesCount32_spec: "OnesCount32 x = card {i. bit x i}"
proof -
  let ?u = "unat x"
  let ?b = "\<lambda>k. ?u div 2 ^ (8 * k) mod 256"
  have lt: "?u < 2 ^ 32" using unsigned_less [of x] by simp
  have top: "?u div 2 ^ 24 = ?b 3" using lt by simp
  have u: "unat (at pop8tab (drop_bit 24 x)) = popcount (?b 3)"
    "unat (at pop8tab (drop_bit 16 x AND 0xff)) = popcount (?b 2)"
    "unat (at pop8tab (drop_bit 8 x AND 0xff)) = popcount (?b 1)"
    "unat (at pop8tab (x AND 0xff)) = popcount (?b 0)"
    using top lt by (subst at_pop; simp add: unat_drop_bit and_ff)+
  have le: "popcount (?b k) \<le> 8" for k by (rule popcount_le) simp
  let ?A = "at pop8tab (drop_bit 24 x)" and ?B = "at pop8tab (drop_bit 16 x AND 0xff)"
    and ?C = "at pop8tab (drop_bit 8 x AND 0xff)" and ?D = "at pop8tab (x AND 0xff)"
  have B: "unat ?A \<le> 8" "unat ?B \<le> 8" "unat ?C \<le> 8" "unat ?D \<le> 8" unfolding u by (rule le)+
  have 1: "unat (?A + ?B) = unat ?A + unat ?B" using B by (intro add_small) simp
  have 2: "unat (?A + ?B + ?C) = unat ?A + unat ?B + unat ?C" using B add_small [of "?A + ?B" ?C] 1 by simp
  have "unat (?A + ?B + ?C + ?D) = unat ?A + unat ?B + unat ?C + unat ?D"
    using B add_small [of "?A + ?B + ?C" ?D] 2 by simp
  then have "OnesCount32 x = popcount (?b 3) + popcount (?b 2) + popcount (?b 1) + popcount (?b 0)"
    unfolding OnesCount32_def u .
  also have "\<dots> = popcount ?u"
    using popcount_split [of ?u 8] popcount_split [of "?u div 2 ^ 8" 8] popcount_split [of "?u div 2 ^ 16" 8] top
    by (simp flip: div_mult2_eq)
  finally show ?thesis by (simp add: popcount_word)
qed

subsection \<open>Summing fields in parallel\<close>

text \<open>A number made of fields of \<open>w\<close> bits, and the sums of neighbouring fields.\<close>

fun fields :: "nat \<Rightarrow> nat list \<Rightarrow> nat" where
  "fields w [] = 0"
| "fields w (f # fs) = f + 2 ^ w * fields w fs"

fun evens :: "nat list \<Rightarrow> nat list" where
  "evens (a # b # fs) = a # evens fs"
| "evens _ = []"

fun pairs :: "nat list \<Rightarrow> nat list" where
  "pairs (a # b # fs) = (a + b) # pairs fs"
| "pairs _ = []"

lemma fields_add: "length fs = length gs \<Longrightarrow> fields w fs + fields w gs = fields w (map2 (+) fs gs)"
proof (induction fs gs rule: list_induct2)
  case (Cons f fs g gs)
  have "fields w (f # fs) + fields w (g # gs) = (f + g) + 2 ^ w * (fields w fs + fields w gs)"
    by (simp add: distrib_left)
  then show ?case using Cons by simp
qed simp

lemma fields_pad: "fields w (fs @ replicate k 0) = fields w fs"
proof (induction fs)
  case Nil
  show ?case by (induction k) simp_all
qed simp

lemma fields_less: "list_all (\<lambda>f. f < 2 ^ w) fs \<Longrightarrow> fields w fs < 2 ^ (w * length fs)"
proof (induction fs)
  case (Cons f fs)
  then have "Suc (fields w fs) \<le> 2 ^ (w * length fs)" "f < 2 ^ w" by simp_all
  then have "2 ^ w * Suc (fields w fs) \<le> 2 ^ w * 2 ^ (w * length fs)" by (intro mult_le_mono) simp_all
  then show ?case using \<open>f < 2 ^ w\<close> by (simp add: power_add)
qed simp

lemma fields_drop: "list_all (\<lambda>f. f < 2 ^ w) fs \<Longrightarrow> fields w fs div 2 ^ (w * k) = fields w (drop k fs)"
proof (induction fs arbitrary: k)
  case (Cons f fs)
  show ?case
  proof (cases k)
    case (Suc j)
    have "(f + 2 ^ w * fields w fs) div 2 ^ w = fields w fs" using Cons.prems by simp
    then have "fields w (f # fs) div 2 ^ (w * k) = fields w fs div 2 ^ (w * j)"
      unfolding Suc by (simp add: power_add div_mult2_eq)
    then show ?thesis using Cons Suc by simp
  qed simp
qed simp

lemma and_concat:
  assumes "(a :: nat) < 2 ^ k" "c < 2 ^ k"
  shows "(a + 2 ^ k * b) AND (c + 2 ^ k * d) = (a AND c) + 2 ^ k * (b AND d)"
proof (rule bit_eqI)
  fix i
  have "a AND c = take_bit k (a AND c)" using assms by (simp add: take_bit_nat_eq_self)
  then have "a AND c < 2 ^ k" by (metis take_bit_nat_less_exp)
  then show "bit ((a + 2 ^ k * b) AND (c + 2 ^ k * d)) i = bit ((a AND c) + 2 ^ k * (b AND d)) i"
    using assms by (simp add: bit_and_iff bit_concat)
qed

lemma fields_mask:
  "list_all (\<lambda>f. f < 2 ^ w) fs \<Longrightarrow> length fs = 2 * n \<Longrightarrow>
   fields w fs AND fields (2 * w) (replicate n (2 ^ w - 1)) = fields (2 * w) (evens fs)"
proof (induction n arbitrary: fs)
  case (Suc n)
  then obtain a b gs where fs: "fs = a # b # gs" by (metis length_0_conv length_Suc_conv mult_Suc_right numeral_2_eq_2 add_Suc)
  have lt: "a < 2 ^ w" "b < 2 ^ w" using Suc.prems fs by simp_all
  then have "2 ^ w * Suc b \<le> 2 ^ w * 2 ^ w" by (intro mult_le_mono) simp_all
  moreover have two: "(2 :: nat) ^ (2 * w) = 2 ^ w * 2 ^ w" by (simp add: mult_2 power_add)
  ultimately have ab: "a + 2 ^ w * b < 2 ^ (2 * w)" using lt(1) by simp
  have "(2 :: nat) ^ w - 1 < 2 ^ w" by simp
  also have "(2 :: nat) ^ w \<le> 2 ^ (2 * w)" by (rule power_increasing) simp_all
  finally have m: "(2 :: nat) ^ w - 1 < 2 ^ (2 * w)" .
  have "(2 :: nat) ^ w - 1 = mask w" by (simp add: mask_eq_exp_minus_1)
  then have "(a + 2 ^ w * b) AND (2 ^ w - 1) = take_bit w (a + 2 ^ w * b)" by (simp add: take_bit_eq_mask)
  then have "(a + 2 ^ w * b) AND (2 ^ w - 1) = a" using lt(1) by (simp add: take_bit_eq_mod)
  moreover have "fields w fs = (a + 2 ^ w * b) + 2 ^ (2 * w) * fields w gs"
    unfolding two by (simp add: fs algebra_simps)
  ultimately have "fields w fs AND fields (2 * w) (replicate (Suc n) (2 ^ w - 1))
      = a + 2 ^ (2 * w) * (fields w gs AND fields (2 * w) (replicate n (2 ^ w - 1)))"
    using and_concat [OF ab m, of "fields w gs" "fields (2 * w) (replicate n (2 ^ w - 1))"] by simp
  then show ?case using Suc.IH [of gs] Suc.prems fs by simp
qed simp

lemma pairs_evens:
  "length fs = 2 * n \<Longrightarrow> map2 (+) (evens (tl fs @ [0])) (evens fs) = pairs fs"
proof (induction n arbitrary: fs)
  case (Suc n)
  then obtain a b gs where fs: "fs = a # b # gs" by (metis length_0_conv length_Suc_conv mult_Suc_right numeral_2_eq_2 add_Suc)
  moreover have "evens (b # gs @ [0]) = b # evens (tl gs @ [0])"
    using Suc.prems fs by (cases gs rule: evens.cases) auto
  ultimately show ?case using Suc.IH [of gs] Suc.prems by (simp add: add.commute)
qed simp

lemma pairs_sum: "length fs = 2 * n \<Longrightarrow> sum_list (pairs fs) = sum_list fs \<and> length (pairs fs) = n"
proof (induction n arbitrary: fs)
  case (Suc n)
  then obtain a b gs where "fs = a # b # gs" by (metis length_0_conv length_Suc_conv mult_Suc_right numeral_2_eq_2 add_Suc)
  then show ?case using Suc.IH [of gs] Suc.prems by simp
qed simp

lemma pairs_le: "list_all (\<lambda>f. f \<le> c) fs \<Longrightarrow> list_all (\<lambda>f. f \<le> 2 * c) (pairs fs)"
  by (induction fs rule: pairs.induct) auto

lemma length_evens: "length (evens fs) = length fs div 2"
  by (induction fs rule: evens.induct) auto

lemma pairs_fields:
  assumes fs: "list_all (\<lambda>f. f < 2 ^ w) fs" "length fs = 2 * n"
  shows "(fields w fs div 2 ^ w AND fields (2 * w) (replicate n (2 ^ w - 1)))
      + (fields w fs AND fields (2 * w) (replicate n (2 ^ w - 1))) = fields (2 * w) (pairs fs)"
proof -
  let ?gs = "tl fs @ [0]"
  have tl: "fields w fs div 2 ^ w = fields w ?gs"
    using fields_drop [OF fs(1), of 1] fields_pad [of w "tl fs" 1] by (simp add: drop_Suc)
  have gs: "list_all (\<lambda>f. f < 2 ^ w) ?gs" "fs \<noteq> [] \<Longrightarrow> length ?gs = 2 * n"
    using fs by (cases fs; simp)+
  show ?thesis
  proof (cases "fs = []")
    case False
    then have "length (evens ?gs) = length (evens fs)"
      using gs(2) [OF False] fs(2) by (simp only: length_evens)
    then show ?thesis
      unfolding tl fields_mask [OF fs] fields_mask [OF gs(1) gs(2) [OF False]]
      by (subst fields_add) (simp_all add: pairs_evens [OF fs(2)])
  qed (use fs in simp)
qed

lemma swar_step:
  fixes x M :: u64
  assumes x: "unat x = fields w fs" "list_all (\<lambda>f. f < 2 ^ w) fs" "length fs = 2 * n"
    and M: "unat M = fields (2 * w) (replicate n (2 ^ w - 1))"
    and lt: "list_all (\<lambda>f. f < 2 ^ (2 * w)) (pairs fs)" "2 * w * n \<le> 64"
  shows "unat ((drop_bit w x AND M) + (x AND M)) = fields (2 * w) (pairs fs)"
proof -
  have "unat (drop_bit w x AND M) + unat (x AND M) = fields (2 * w) (pairs fs)"
    using pairs_fields [OF x(2,3)] x(1) M by (simp add: unsigned_and_eq unat_drop_bit)
  moreover have "fields (2 * w) (pairs fs) < 2 ^ (2 * w * n)"
    using fields_less [OF lt(1)] pairs_sum [OF x(3)] by simp
  then have "fields (2 * w) (pairs fs) < 2 ^ 64"
    using lt(2) power_increasing [of "2 * w * n" 64 "2 :: nat"] by linarith
  ultimately show ?thesis by (simp add: add_small)
qed

lemma list_all_lt: "list_all (\<lambda>f. f \<le> c) fs \<Longrightarrow> c < d \<Longrightarrow> list_all (\<lambda>f. f < (d :: nat)) fs"
  by (auto simp: list_all_iff)

text \<open>The bits as the first fields.\<close>

lemma bit_list: "map (\<lambda>i. of_bool (bit n i)) [0..<Suc k] = of_bool (odd n) # map (\<lambda>i. of_bool (bit (n div 2) i)) [0..<k]"
  for n :: nat
  by (simp add: map_Suc_upt [symmetric] upt_conv_Cons bit_0 bit_Suc comp_def del: upt_Suc)

lemma fields_bits: "n < 2 ^ k \<Longrightarrow> fields 1 (map (\<lambda>i. of_bool (bit n i)) [0..<k]) = n"
proof (induction k arbitrary: n)
  case (Suc k)
  then show ?case unfolding bit_list using Suc.IH [of "n div 2"] by simp
qed simp

lemma popcount_bits: "n < 2 ^ k \<Longrightarrow> popcount n = sum_list (map (\<lambda>i. of_bool (bit n i)) [0..<k])"
proof (induction k arbitrary: n)
  case (Suc k)
  have "popcount n = popcount (n mod 2) + popcount (n div 2)" using popcount_split [of n 1] by simp
  moreover have "n mod 2 = of_bool (odd n)" by (simp add: mod2_eq_if)
  ultimately have "popcount n = of_bool (odd n) + popcount (n div 2)" by (simp only: popcount_bit)
  then show ?case unfolding bit_list using Suc.IH [of "n div 2"] Suc.prems by simp
qed simp

text \<open>Adding a word to itself shifted by whole fields that are small enough.\<close>

lemma fold_step:
  fixes x :: u64
  assumes "unat x = fields w fs" "list_all (\<lambda>f. f \<le> c) fs" "2 * c < 2 ^ w" "w * length fs \<le> 64" "k \<le> length fs"
  shows "unat (x + drop_bit (w * k) x) = fields w (map2 (+) fs (drop k fs @ replicate k 0))"
    and "list_all (\<lambda>f. f \<le> 2 * c) (map2 (+) fs (drop k fs @ replicate k 0))"
proof -
  let ?gs = "drop k fs @ replicate k 0"
  have "unat x + unat (drop_bit (w * k) x) = fields w (map2 (+) fs ?gs)"
    using assms(1,3,5) fields_drop [of w fs k] fields_pad [of w "drop k fs" k]
      list_all_lt [OF assms(2), of "2 ^ w"] fields_add [of fs ?gs w]
    by (simp add: unat_drop_bit)
  moreover have le: "f \<le> c" if "f \<in> set fs \<or> f \<in> set ?gs" for f
    using that assms(2) by (auto simp: list_all_iff dest: in_set_dropD)
  have all: "list_all (\<lambda>f. f \<le> 2 * c) (map2 (+) fs ?gs)"
    unfolding list_all_length
  proof (intro allI impI)
    fix n assume "n < length (map2 (+) fs ?gs)"
    then have n: "n < length fs" "n < length ?gs" by simp_all
    then have "fs ! n \<le> c" "?gs ! n \<le> c" using le nth_mem by blast+
    then show "map2 (+) fs ?gs ! n \<le> 2 * c" using n by simp
  qed
  have "fields w (map2 (+) fs ?gs) < 2 ^ (w * length fs)"
    using fields_less [OF list_all_lt [OF all assms(3)]] assms(5) by simp
  then have "fields w (map2 (+) fs ?gs) < 2 ^ 64"
    using assms(4) power_increasing [of "w * length fs" 64 "2 :: nat"] by linarith
  ultimately show "unat (x + drop_bit (w * k) x) = fields w (map2 (+) fs ?gs)" by (simp add: add_small)
  show "list_all (\<lambda>f. f \<le> 2 * c) (map2 (+) fs ?gs)" by (rule all)
qed

lemma replicate_numeral: "replicate (numeral k) x = x # replicate (pred_numeral k) x"
  by (simp add: numeral_eq_Suc)

lemma mask_fields:
  "unat m0 = fields (2 * 1) (replicate 32 (2 ^ 1 - 1))"
  "unat m1 = fields (2 * 2) (replicate 16 (2 ^ 2 - 1))"
  "unat m2 = fields (2 * 4) (replicate 8 (2 ^ 4 - 1))"
  by (simp_all add: m0_def m1_def m2_def replicate_numeral)

lemma fields_mod: "k < w \<Longrightarrow> fields w (f # fs) mod 2 ^ k = f mod 2 ^ k"
proof -
  assume "k < w"
  then have "(2 :: nat) ^ w = 2 ^ k * 2 ^ (w - k)" by (simp flip: power_add)
  then have "fields w (f # fs) = f + 2 ^ k * (2 ^ (w - k) * fields w fs)" by simp
  then show ?thesis by (simp only: mod_mult_self2)
qed

lemma OnesCount64_spec: "OnesCount64 x = card {i. bit x i}"
proof -
  define f0 :: "nat list" where "f0 = map (\<lambda>i. of_bool (bit (unat x) i)) [0..<64 :: nat]"
  define f1 f2 f3 where "f1 = pairs f0" and "f2 = pairs f1" and "f3 = pairs f2"
  have lt: "unat x < 2 ^ 64" using unsigned_less [of x] by simp
  have l: "length f0 = 2 * 32" "length f1 = 2 * 16" "length f2 = 2 * 8" "length f3 = 8"
    using pairs_sum [of f0 32] pairs_sum [of f1 16] pairs_sum [of f2 8]
    by (simp_all add: f0_def f1_def f2_def f3_def)
  have s: "sum_list f3 = popcount (unat x)"
    using pairs_sum [OF l(1)] pairs_sum [OF l(2)] pairs_sum [OF l(3)] popcount_bits [OF lt]
    by (simp add: f0_def f1_def f2_def f3_def)
  have b: "list_all (\<lambda>f. f \<le> 1) f0" by (simp add: f0_def list_all_iff)
  have b1: "list_all (\<lambda>f. f \<le> 2) f1" using pairs_le [OF b] by (simp add: f1_def)
  have b2: "list_all (\<lambda>f. f \<le> 4) f2" using pairs_le [OF b1] by (simp add: f2_def)
  have b3: "list_all (\<lambda>f. f \<le> 8) f3" using pairs_le [OF b2] by (simp add: f3_def)
  define x1 where "x1 = (drop_bit 1 x AND m0) + (x AND m0)"
  define x2 where "x2 = (drop_bit 2 x1 AND m1) + (x1 AND m1)"
  define x3 where "x3 = (drop_bit 4 x2 + x2) AND m2"
  have x0: "unat x = fields 1 f0" using fields_bits [OF lt] by (simp add: f0_def)
  have "unat x1 = fields (2 * 1) (pairs f0)"
    unfolding x1_def using list_all_lt [OF b1] list_all_lt [OF b]
    by (intro swar_step [OF x0 _ l(1) mask_fields(1)]) (simp_all add: f1_def)
  then have x1: "unat x1 = fields 2 f1" by (simp add: f1_def)
  have "unat x2 = fields (2 * 2) (pairs f1)"
    unfolding x2_def using list_all_lt [OF b1] list_all_lt [OF b2]
    by (intro swar_step [OF x1 _ l(2) mask_fields(2)]) (simp_all add: f2_def)
  then have x2: "unat x2 = fields 4 f2" by (simp add: f2_def)
  have x3: "unat x3 = fields 8 f3"
  proof -
    let ?gs = "drop 1 f2 @ replicate 1 0"
    have g: "unat (x2 + drop_bit (4 * 1) x2) = fields 4 (map2 (+) f2 ?gs)"
      "list_all (\<lambda>f. f \<le> 2 * 4) (map2 (+) f2 ?gs)"
      using fold_step [OF x2 b2, of 1] l(3) by simp_all
    have "unat x3 = fields 4 (map2 (+) f2 ?gs) AND unat m2"
      using g(1) by (simp add: x3_def unsigned_and_eq add.commute)
    also have "\<dots> = fields (2 * 4) (evens (map2 (+) f2 ?gs))"
      unfolding mask_fields using l(3) by (intro fields_mask list_all_lt [OF g(2)]) simp_all
    also have "evens (map2 (+) f2 ?gs) = pairs f2"
    proof -
      have "length f2 = 2 * n \<Longrightarrow> length gs = length f2 \<Longrightarrow> evens (map2 (+) f2 gs) = map2 (+) (evens gs) (evens f2)"
        for f2 gs :: "nat list" and n
      proof (induction f2 arbitrary: gs n rule: evens.induct)
        case (1 a b fs)
        then obtain c d hs where "gs = c # d # hs" by (metis length_Suc_conv)
        then show ?case using 1 by (cases n) auto
      qed auto
      then show ?thesis using pairs_evens [OF l(3)] l(3) by (simp add: drop_Suc)
    qed
    finally show ?thesis by (simp add: f3_def)
  qed
  obtain a0 a1 a2 a3 a4 a5 a6 a7 where f3: "f3 = [a0, a1, a2, a3, a4, a5, a6, a7]"
    using l(4) by (auto simp: length_Suc_conv eval_nat_numeral)
  define x4 x5 where "x4 = x3 + drop_bit 8 x3" and "x5 = x4 + drop_bit 16 x4"
  let ?g4 = "[a0 + a1, a1 + a2, a2 + a3, a3 + a4, a4 + a5, a5 + a6, a6 + a7, a7]"
  have 4: "unat x4 = fields 8 ?g4" "list_all (\<lambda>f. f \<le> 16) ?g4"
    using fold_step [OF x3 b3, of 1] by (simp_all add: f3 x4_def)
  let ?g5 = "map2 (+) ?g4 (drop 2 ?g4 @ replicate 2 0)"
  have 5: "unat x5 = fields 8 ?g5" "list_all (\<lambda>f. f \<le> 32) ?g5"
    using fold_step [OF 4, of 2] by (simp_all add: x5_def)
  have "unat (x5 + drop_bit (8 * 4) x5) = fields 8 (map2 (+) ?g5 (drop 4 ?g5 @ replicate 4 0))"
    using fold_step(1) [OF 5, of 4] by simp
  moreover obtain gs where "map2 (+) ?g5 (drop 4 ?g5 @ replicate 4 0) = (a0 + a1 + a2 + a3 + a4 + a5 + a6 + a7) # gs"
    by (simp add: replicate_numeral add.assoc)
  ultimately have "unat (x5 + drop_bit (8 * 4) x5) mod 2 ^ 7 = (a0 + a1 + a2 + a3 + a4 + a5 + a6 + a7) mod 2 ^ 7"
    by (simp only: fields_mod [of 7 8])
  then have "unat (x5 + drop_bit 32 x5) mod 128 = (a0 + a1 + a2 + a3 + a4 + a5 + a6 + a7) mod 128" by simp
  also have "\<dots> = popcount (unat x)" using s popcount_le [OF lt] by (simp add: f3 add.assoc)
  finally have "unat ((x5 + drop_bit 32 x5) AND mask 7) = popcount (unat x)" by (simp add: unat_and_mask)
  then show ?thesis
    unfolding OnesCount64_def Let_def x5_def x4_def x3_def x2_def x1_def popcount_word .
qed

section \<open>The lowest and the highest bit\<close>

text \<open>\<open>t\<close> is the number of trailing zeros, and \<open>l\<close> the number of bits that are needed.\<close>

definition is_ntz :: "nat \<Rightarrow> nat \<Rightarrow> bool" where
  "is_ntz n t \<longleftrightarrow> (\<exists>m. n = 2 ^ t * (2 * m + 1))"

definition is_len :: "nat \<Rightarrow> nat \<Rightarrow> bool" where
  "is_len n l \<longleftrightarrow> n < 2 ^ l \<and> (0 < l \<longrightarrow> 2 ^ (l - 1) \<le> n)"

lemma is_ntz_ex: "0 < n \<Longrightarrow> \<exists>t. is_ntz n t"
proof (induction n rule: less_induct)
  case (less n)
  show ?case
  proof (cases "even n")
    case True
    then have "0 < n div 2" "n div 2 < n" using less.prems by auto
    then obtain t m where "n div 2 = 2 ^ t * (2 * m + 1)"
      using less.IH unfolding is_ntz_def by blast
    then have "n = 2 ^ Suc t * (2 * m + 1)" using True by (auto elim!: evenE)
    then show ?thesis by (auto simp only: is_ntz_def)
  next
    case False
    then obtain m where "n = 2 ^ 0 * (2 * m + 1)" by (auto elim!: oddE)
    then show ?thesis unfolding is_ntz_def by blast
  qed
qed

lemma is_ntz_bits: "is_ntz n t \<Longrightarrow> bit n i = (if i < t then False else i = t \<or> bit (n - 2 ^ t) i)"
proof -
  assume "is_ntz n t"
  then obtain m where n: "n = 0 + 2 ^ t * (2 * m + 1)" by (auto simp: is_ntz_def)
  then have n': "n - 2 ^ t = 0 + 2 ^ t * (2 * m)" by simp
  have "bit (2 * m + 1) j = (j = 0 \<or> bit (2 * m) j)" for j
    by (cases j) (simp_all add: bit_0 bit_Suc)
  then show ?thesis unfolding n' using bit_concat [of 0 t "2 * m + 1" i] bit_concat [of 0 t "2 * m" i] n by auto
qed

lemma is_ntz_less: "is_ntz n t \<Longrightarrow> n < 2 ^ k \<Longrightarrow> t < k"
proof -
  assume "is_ntz n t" "n < 2 ^ k"
  then obtain m where "2 ^ t * (2 * m + 1) < (2 :: nat) ^ k" by (auto simp: is_ntz_def)
  moreover have "2 ^ t * 1 \<le> 2 ^ t * (2 * m + 1)" by (intro mult_le_mono) simp_all
  ultimately have "(2 :: nat) ^ t < 2 ^ k" by linarith
  then show "t < k" by simp
qed

text \<open>Isolating the lowest bit.\<close>

lemma bit_of_unat: "bit (unat x) i = bit x i"
  by (simp add: bit_unsigned_iff)

lemma lowest_bit:
  fixes x :: "'w::len word"
  assumes "is_ntz (unat x) t"
  shows "x AND - x = push_bit t 1"
proof (rule bit_word_eqI)
  fix i assume i: "i < LENGTH('w)"
  have t: "t < LENGTH('w)" using is_ntz_less [OF assms unsigned_less] .
  obtain m where m: "unat x = 2 ^ t * (2 * m + 1)" using assms by (auto simp: is_ntz_def)
  have "x \<noteq> 0"
  proof
    assume "x = 0"
    then show False using m by simp
  qed
  then have "unat (x - 1) = unat x - 1" by (rule unat_minus_one)
  then have "unat (x - 1) = (2 ^ t - 1) + 2 ^ t * (2 * m)" using m by (simp add: algebra_simps)
  then have 1: "bit (x - 1) i = (if i < t then bit (2 ^ t - 1 :: nat) i else bit (2 * m) (i - t))"
    using bit_concat [of "2 ^ t - 1" t "2 * m" i] i by (simp flip: bit_of_unat)
  have 2: "bit x i = (if i < t then False else bit (2 * m + 1) (i - t))"
    using bit_concat [of 0 t "2 * m + 1" i] m i by (simp flip: bit_of_unat)
  have "bit (2 * m + 1) j = (j = 0 \<or> bit (2 * m) j)" "\<not> bit (2 * m) 0" for j
    by (cases j; simp add: bit_0 bit_Suc)+
  then show "bit (x AND - x) i = bit (push_bit t 1 :: 'w word) i"
    using 1 2 i t by (auto simp: bit_and_iff bit_minus_iff bit_exp_iff possible_bit_word)
qed

lemma deBruijn64_table:
  "t < 64 \<Longrightarrow> unat (at deBruijn64tab (drop_bit (64 - 6) (push_bit t 1 * deBruijn64))) = t"
proof -
  assume "t < 64"
  then have "t \<in> set [0..<64]" by simp
  then show ?thesis unfolding deBruijn64tab_def deBruijn64_def
    by (simp add: upt_conv_Cons) (elim disjE; simp)
qed

lemma deBruijn32_table:
  "t < 32 \<Longrightarrow> unat (at deBruijn32tab (drop_bit (32 - 5) (push_bit t 1 * deBruijn32))) = t"
proof -
  assume "t < 32"
  then have "t \<in> set [0..<32]" by simp
  then show ?thesis unfolding deBruijn32tab_def deBruijn32_def
    by (simp add: upt_conv_Cons) (elim disjE; simp)
qed

lemma is_ntz_unique: "is_ntz n t \<Longrightarrow> is_ntz n t' \<Longrightarrow> t = t'"
  using is_ntz_bits [of n t t] is_ntz_bits [of n t t'] is_ntz_bits [of n t' t] is_ntz_bits [of n t' t']
  by (auto split: if_splits)

lemma ntz_exists: "x \<noteq> 0 \<Longrightarrow> \<exists>t < LENGTH('w). is_ntz (unat x) t" for x :: "'w::len word"
  using is_ntz_ex [of "unat x"] is_ntz_less [OF _ unsigned_less] by (metis unat_gt_0)

lemma TrailingZeros64_spec: "if x = 0 then TrailingZeros64 x = 64 else is_ntz (unat x) (TrailingZeros64 x)"
proof (cases "x = 0")
  case False
  then obtain t where t: "t < 64" "is_ntz (unat x) t" using ntz_exists [OF False] by auto
  then show ?thesis using False deBruijn64_table by (simp only: TrailingZeros64_def lowest_bit if_False)
qed (simp add: TrailingZeros64_def)

lemma TrailingZeros32_spec: "if x = 0 then TrailingZeros32 x = 32 else is_ntz (unat x) (TrailingZeros32 x)"
proof (cases "x = 0")
  case False
  then obtain t where t: "t < 32" "is_ntz (unat x) t" using ntz_exists [OF False] by auto
  then show ?thesis using False deBruijn32_table by (simp only: TrailingZeros32_def lowest_bit if_False)
qed (simp add: TrailingZeros32_def)

lemma TrailingZeros16_spec: "if x = 0 then TrailingZeros16 x = 16 else is_ntz (unat x) (TrailingZeros16 x)"
proof (cases "x = 0")
  case False
  then obtain t where t: "t < 16" "is_ntz (unat x) t" using ntz_exists [OF False] by auto
  then have "ucast (push_bit t 1 :: u16) = (push_bit t 1 :: u32)"
    by (intro bit_word_eqI) (auto simp: bit_unsigned_iff bit_exp_iff possible_bit_word)
  then show ?thesis using False t deBruijn32_table [of t]
    by (simp only: TrailingZeros16_def lowest_bit if_False)
qed (simp add: TrailingZeros16_def)

lemma TrailingZeros8_spec: "if x = 0 then TrailingZeros8 x = 8 else is_ntz (unat x) (TrailingZeros8 x)"
proof -
  have "8 \<le> (8 :: nat) \<Longrightarrow> length ntz8tab = 2 ^ 8 \<and>
      (\<forall>n < 2 ^ 8. if n = 0 then ntz8tab ! n = 8 else is_ntz n (unat (ntz8tab ! n)))"
    unfolding ntz8tab_doubled
  proof (rule doubled_ind)
    fix k n :: nat and t :: "u8 list"
    assume IH: "\<And>n. n < 2 ^ k \<Longrightarrow> if n = 0 then t ! n = 8 else is_ntz n (unat (t ! n))"
      and t: "length t = 2 ^ k" "k < 8" "n < 2 ^ k"
    show "if n + 2 ^ k = 0 then (of_nat k # tl t) ! n = 8 else is_ntz (n + 2 ^ k) (unat ((of_nat k # tl t) ! n))"
    proof (cases n)
      case 0
      then show ?thesis using t(2) by (simp add: is_ntz_def unat_of_nat exI [of _ 0])
    next
      case (Suc n')
      then have "is_ntz n (unat (t ! n))" using IH [OF t(3)] by simp
      then obtain m where m: "n = 2 ^ unat (t ! n) * (2 * m + 1)" by (auto simp: is_ntz_def)
      have "unat (t ! n) < k" using is_ntz_less [OF \<open>is_ntz n (unat (t ! n))\<close> t(3)] .
      then obtain d where k: "k = Suc (unat (t ! n) + d)" using less_imp_Suc_add by blast
      have "n + 2 ^ k = 2 ^ unat (t ! n) * (2 * (m + 2 ^ d) + 1)"
        unfolding k by (subst m) (simp add: algebra_simps power_add)
      then have "is_ntz (n + 2 ^ k) (unat (t ! n))" unfolding is_ntz_def by blast
      then show ?thesis using Suc t by (simp add: nth_tl)
    qed
  next
    fix k and t :: "u8 list"
    assume "length t = 2 ^ k"
    then show "length (of_nat k # tl t) = length t" by (cases t) simp_all
  qed simp_all
  moreover have "unat x < 2 ^ 8" using unsigned_less [of x] by simp
  ultimately show ?thesis
    by (cases "x = 0") (auto simp: TrailingZeros8_def unat_eq_0 dest: spec [of _ "unat x"])
qed

lemma len8tab_nth:
  assumes "n < 256"
  shows "is_len n (unat (len8tab ! n))"
proof -
  have "8 \<le> (8 :: nat) \<Longrightarrow> length len8tab = 2 ^ 8 \<and> (\<forall>n < 2 ^ 8. is_len n (unat (len8tab ! n)))"
    unfolding len8tab_doubled
  proof (rule doubled_ind)
    fix k n :: nat and t :: "u8 list"
    assume t: "length t = 2 ^ k" "k < 8" "n < 2 ^ k"
    have "unat (of_nat k + 1 :: u8) = k + 1" using t(2) by (simp add: unat_word_ariths unat_of_nat)
    then show "is_len (n + 2 ^ k) (unat (map (\<lambda>x. of_nat k + 1 :: u8) t ! n))"
      using t by (simp add: is_len_def)
  qed (simp_all add: is_len_def)
  then show ?thesis using assms by simp
qed

lemma is_len_shift:
  assumes "is_len (n div 2 ^ k) l" "2 ^ k \<le> n"
  shows "is_len n (l + k)"
proof -
  have "n div 2 ^ k \<noteq> 0" using assms(2) by (simp add: div_eq_0_iff)
  then have "l \<noteq> 0" using assms(1) by (cases l) (simp_all add: is_len_def)
  then obtain j where j: "l = Suc j" using not0_implies_Suc by blast
  have a: "n div 2 ^ k < 2 ^ l" "2 ^ j \<le> n div 2 ^ k" using assms(1) j by (simp_all add: is_len_def)
  have "n < 2 ^ l * 2 ^ k" using a(1) by (simp add: div_less_iff_less_mult)
  moreover have "2 ^ j * 2 ^ k \<le> n" using a(2) by (simp add: less_eq_div_iff_mult_less_eq)
  ultimately show ?thesis using j by (simp add: is_len_def power_add)
qed

text \<open>One halving step of \<open>Len\<close>.\<close>

lemma len_step:
  fixes x :: "'w::len word"
  assumes "k < LENGTH('w)" "(x', d) = (if x \<ge> push_bit k 1 then (drop_bit k x, k) else (x, 0))"
    and "unat x < 2 ^ (k + j)" "j \<le> k"
  shows "unat x' < 2 ^ k" "is_len (unat x') l \<Longrightarrow> is_len (unat x) (l + d)"
proof -
  have "unat (push_bit k 1 :: 'w word) = 2 ^ k" using assms(1) unat_push_bit [of k "1 :: 'w word"] by simp
  then have ge: "x \<ge> push_bit k 1 \<longleftrightarrow> 2 ^ k \<le> unat x" by (simp add: word_le_nat_alt)
  have "unat x div 2 ^ k < 2 ^ j" using assms(3) by (simp add: div_less_iff_less_mult power_add mult.commute)
  also have "(2 :: nat) ^ j \<le> 2 ^ k" using assms(4) by (rule power_increasing) simp
  finally have lt: "unat x div 2 ^ k < 2 ^ k" .
  show "unat x' < 2 ^ k" using assms(2) ge lt by (auto simp: unat_drop_bit not_le split: if_splits)
  show "is_len (unat x) (l + d)" if "is_len (unat x') l"
    using assms(2) ge that is_len_shift [of "unat x" k l] by (auto simp: unat_drop_bit split: if_splits)
qed

lemma Len8_spec: "is_len (unat x) (Len8 x)"
  using len8tab_nth [of "unat x"] unsigned_less [of x] by (simp add: Len8_def)

lemma len_end: "unat x < 256 \<Longrightarrow> is_len (unat x) (unat (at len8tab x))"
  by (rule len8tab_nth)

lemma Len16_spec: "is_len (unat x) (Len16 x)"
proof -
  obtain x' d where 1: "(x', d) = (if x \<ge> push_bit 8 1 then (drop_bit 8 x, 8) else (x, 0 :: nat))" by (metis surj_pair)
  note s1 = len_step [OF _ 1, of 8]
  have "unat x' < 256" using s1(1) unsigned_less [of x] by simp
  then have "is_len (unat x) (unat (at len8tab x') + d)"
    using s1(2) [OF _ _ _ len_end] unsigned_less [of x] by simp
  then show ?thesis using 1 [symmetric] by (simp add: Len16_def add.commute)
qed

lemma Len32_spec: "is_len (unat x) (Len32 x)"
proof -
  obtain x1 d1 where 1: "(x1, d1) = (if x \<ge> push_bit 16 1 then (drop_bit 16 x, 16) else (x, 0 :: nat))" by (metis surj_pair)
  obtain x2 d2 where 2: "(x2, d2) = (if x1 \<ge> push_bit 8 1 then (drop_bit 8 x1, 8) else (x1, 0 :: nat))" by (metis surj_pair)
  have lt: "unat x < 2 ^ 32" using unsigned_less [of x] by simp
  note s1 = len_step [OF _ 1, of 16] and s2 = len_step [OF _ 2, of 8]
  have b1: "unat x1 < 2 ^ 16" using s1(1) unsigned_less [of x] by simp
  then have "unat x2 < 256" using s2(1) by simp
  then have "is_len (unat x) (unat (at len8tab x2) + d2 + d1)"
    using b1 lt by (intro s1(2) s2(2) len_end) simp_all
  moreover have "(if x1 \<ge> push_bit 8 1 then (drop_bit 8 x1, d1 + 8) else (x1, d1)) = (x2, d1 + d2)"
    using 2 by (auto split: if_splits)
  ultimately show ?thesis using 1 [symmetric] by (simp add: Len32_def ac_simps)
qed

lemma Len64_spec: "is_len (unat x) (Len64 x)"
proof -
  obtain x1 d1 where 1: "(x1, d1) = (if x \<ge> push_bit 32 1 then (drop_bit 32 x, 32) else (x, 0 :: nat))" by (metis surj_pair)
  obtain x2 d2 where 2: "(x2, d2) = (if x1 \<ge> push_bit 16 1 then (drop_bit 16 x1, 16) else (x1, 0 :: nat))" by (metis surj_pair)
  obtain x3 d3 where 3: "(x3, d3) = (if x2 \<ge> push_bit 8 1 then (drop_bit 8 x2, 8) else (x2, 0 :: nat))" by (metis surj_pair)
  have lt: "unat x < 2 ^ 64" using unsigned_less [of x] by simp
  note s1 = len_step [OF _ 1, of 32] and s2 = len_step [OF _ 2, of 16] and s3 = len_step [OF _ 3, of 8]
  have b1: "unat x1 < 2 ^ 32" using s1(1) unsigned_less [of x] by simp
  then have b2: "unat x2 < 2 ^ 16" using s2(1) by simp
  then have "unat x3 < 256" using s3(1) by simp
  then have "is_len (unat x) (unat (at len8tab x3) + d3 + d2 + d1)"
    using b1 b2 lt by (intro s1(2) s2(2) s3(2) len_end) simp_all
  moreover have "(if x1 \<ge> push_bit 16 1 then (drop_bit 16 x1, d1 + 16) else (x1, d1)) = (x2, d1 + d2)"
    "(if x2 \<ge> push_bit 8 1 then (drop_bit 8 x2, d1 + d2 + 8) else (x2, d1 + d2)) = (x3, d1 + d2 + d3)"
    using 2 3 by (auto split: if_splits)
  ultimately show ?thesis using 1 [symmetric] by (simp add: Len64_def ac_simps)
qed

end
