(* ===== verification/MathWide.thy ===== *)
theory MathWide
  imports MathBits
begin

unbundle bit_operations_syntax

text \<open>
  The rest of \<open>math/bits\<close> (\<open>math/bits/bits.go\<close>): rotation, reversal, addition and subtraction with carry,
  multiplication to double width, and division of a double-width dividend, which is two steps of
  Knuth's algorithm D. The run-time errors are values.
\<close>

section \<open>The code\<close>

subsection \<open>Rotating and reversing\<close>

definition RotateLeft8 :: "u8 \<Rightarrow> int \<Rightarrow> u8" where
  "RotateLeft8 x k = (let n = 8; s = unat ((of_int k :: u64) AND 7) in push_bit s x OR drop_bit (n - s) x)"

definition RotateLeft16 :: "u16 \<Rightarrow> int \<Rightarrow> u16" where
  "RotateLeft16 x k = (let n = 16; s = unat ((of_int k :: u64) AND 15) in push_bit s x OR drop_bit (n - s) x)"

definition RotateLeft32 :: "u32 \<Rightarrow> int \<Rightarrow> u32" where
  "RotateLeft32 x k = (let n = 32; s = unat ((of_int k :: u64) AND 31) in push_bit s x OR drop_bit (n - s) x)"

definition RotateLeft64 :: "u64 \<Rightarrow> int \<Rightarrow> u64" where
  "RotateLeft64 x k = (let n = 64; s = unat ((of_int k :: u64) AND 63) in push_bit s x OR drop_bit (n - s) x)"

definition ReverseBytes16 :: "u16 \<Rightarrow> u16" where
  "ReverseBytes16 x = drop_bit 8 x OR push_bit 8 x"

definition ReverseBytes32 :: "u32 \<Rightarrow> u32" where
  "ReverseBytes32 x =
     (let m = ucast :: u64 \<Rightarrow> u32;
          x = (drop_bit 8 x AND m m3) OR push_bit 8 (x AND m m3)
      in drop_bit 16 x OR push_bit 16 x)"

definition ReverseBytes64 :: "u64 \<Rightarrow> u64" where
  "ReverseBytes64 x =
     (let x = (drop_bit 8 x AND m3) OR push_bit 8 (x AND m3);
          x = (drop_bit 16 x AND m4) OR push_bit 16 (x AND m4)
      in drop_bit 32 x OR push_bit 32 x)"

definition Reverse8 :: "u8 \<Rightarrow> u8" where
  "Reverse8 x = at rev8tab x"

definition Reverse16 :: "u16 \<Rightarrow> u16" where
  "Reverse16 x = ucast (at rev8tab (drop_bit 8 x)) OR push_bit 8 (ucast (at rev8tab (x AND 0xff)))"

definition Reverse32 :: "u32 \<Rightarrow> u32" where
  "Reverse32 x =
     (let m = ucast :: u64 \<Rightarrow> u32;
          x = (drop_bit 1 x AND m m0) OR push_bit 1 (x AND m m0);
          x = (drop_bit 2 x AND m m1) OR push_bit 2 (x AND m m1);
          x = (drop_bit 4 x AND m m2) OR push_bit 4 (x AND m m2)
      in ReverseBytes32 x)"

definition Reverse64 :: "u64 \<Rightarrow> u64" where
  "Reverse64 x =
     (let x = (drop_bit 1 x AND m0) OR push_bit 1 (x AND m0);
          x = (drop_bit 2 x AND m1) OR push_bit 2 (x AND m1);
          x = (drop_bit 4 x AND m2) OR push_bit 4 (x AND m2)
      in ReverseBytes64 x)"

subsection \<open>Arithmetic\<close>

definition Add32 :: "u32 \<Rightarrow> u32 \<Rightarrow> u32 \<Rightarrow> u32 \<times> u32" where
  "Add32 x y carry =
     (let sum64 = ucast x + ucast y + ucast carry :: u64 in (ucast sum64, ucast (drop_bit 32 sum64)))"

definition Add64 :: "u64 \<Rightarrow> u64 \<Rightarrow> u64 \<Rightarrow> u64 \<times> u64" where
  "Add64 x y carry =
     (let sum = x + y + carry in (sum, drop_bit 63 ((x AND y) OR ((x OR y) AND NOT sum))))"

definition Sub32 :: "u32 \<Rightarrow> u32 \<Rightarrow> u32 \<Rightarrow> u32 \<times> u32" where
  "Sub32 x y borrow =
     (let diff = x - y - borrow in (diff, drop_bit 31 ((NOT x AND y) OR (NOT (x XOR y) AND diff))))"

definition Sub64 :: "u64 \<Rightarrow> u64 \<Rightarrow> u64 \<Rightarrow> u64 \<times> u64" where
  "Sub64 x y borrow =
     (let diff = x - y - borrow in (diff, drop_bit 63 ((NOT x AND y) OR (NOT (x XOR y) AND diff))))"

definition Mul32 :: "u32 \<Rightarrow> u32 \<Rightarrow> u32 \<times> u32" where
  "Mul32 x y = (let tmp = ucast x * ucast y :: u64 in (ucast (drop_bit 32 tmp), ucast tmp))"

definition Mul64 :: "u64 \<Rightarrow> u64 \<Rightarrow> u64 \<times> u64" where
  "Mul64 x y =
     (let mask32 = mask 32;
          x0 = x AND mask32; x1 = drop_bit 32 x;
          y0 = y AND mask32; y1 = drop_bit 32 y;
          w0 = x0 * y0;
          t = x1 * y0 + drop_bit 32 w0;
          w1 = t AND mask32; w2 = drop_bit 32 t;
          w1 = w1 + x0 * y1
      in (x1 * y1 + w2 + drop_bit 32 w1, x * y))"

datatype div_error = divideError | overflowError

definition Div32 :: "u32 \<Rightarrow> u32 \<Rightarrow> u32 \<Rightarrow> div_error + u32 \<times> u32" where
  "Div32 h l y =
     (if y \<noteq> 0 \<and> y \<le> h then Inl overflowError
      else if y = 0 then Inl divideError
      else let z = push_bit 32 (ucast h) OR ucast l :: u64
           in Inr (ucast (z div ucast y), ucast (z mod ucast y)))"

text \<open>
  \<open>Div64\<close> computes its two digits by the same code: estimate the digit \<open>q\<close> by the leading half of the
  divisor, then correct it in a loop.
\<close>

function div_loop :: "u64 \<Rightarrow> u64 \<Rightarrow> u64 \<Rightarrow> u64 \<Rightarrow> u64 \<Rightarrow> u64 \<times> u64" where
  "div_loop yn1 yn0 un q rhat =
     (let two32 = push_bit 32 1 in
      if q \<ge> two32 \<or> q * yn0 > two32 * rhat + un then
        (let q = q - 1; rhat = rhat + yn1 in
         if rhat \<ge> two32 then (q, rhat) else div_loop yn1 yn0 un q rhat)
      else (q, rhat))"
  by pat_completeness auto
termination
proof (relation "measure (\<lambda>(yn1, yn0, un, q, rhat). unat q)")
  fix yn1 yn0 un q rhat two32 q' rhat' :: u64
  assume a: "two32 = push_bit 32 1" "q \<ge> two32 \<or> q * yn0 > two32 * rhat + un" "q' = q - 1"
  have "q \<noteq> 0"
  proof
    assume "q = 0"
    then show False using a(1,2) by simp
  qed
  then show "((yn1, yn0, un, q', rhat'), yn1, yn0, un, q, rhat) \<in> measure (\<lambda>(yn1, yn0, un, q, rhat). unat q)"
    using a(3) by (simp add: unat_minus_one unat_gt_0)
qed simp

declare div_loop.simps [simp del]

definition div_digit :: "u64 \<Rightarrow> u64 \<Rightarrow> u64 \<Rightarrow> u64 \<Rightarrow> u64" where
  "div_digit yn1 yn0 un32 un1 =
     (let q1 = un32 div yn1; rhat = un32 - q1 * yn1 in fst (div_loop yn1 yn0 un1 q1 rhat))"

definition Div64 :: "u64 \<Rightarrow> u64 \<Rightarrow> u64 \<Rightarrow> div_error + u64 \<times> u64" where
  "Div64 h l y =
     (if y = 0 then Inl divideError
      else if y \<le> h then Inl overflowError
      else
        let two32 = push_bit 32 1; mask32 = two32 - 1;
            s = nat (LeadingZeros64 y);
            y = push_bit s y;
            yn1 = drop_bit 32 y; yn0 = y AND mask32;
            un32 = push_bit s h OR drop_bit (64 - s) l;
            un10 = push_bit s l;
            un1 = drop_bit 32 un10; un0 = un10 AND mask32;
            q1 = div_digit yn1 yn0 un32 un1;
            un21 = un32 * two32 + un1 - q1 * y;
            q0 = div_digit yn1 yn0 un21 un0
        in Inr (q1 * two32 + q0, drop_bit s (un21 * two32 + un0 - q0 * y)))"

definition Rem32 :: "u32 \<Rightarrow> u32 \<Rightarrow> u32 \<Rightarrow> div_error + u32" where
  "Rem32 h l y =
     (if y = 0 then Inl divideError else Inr (ucast ((push_bit 32 (ucast h) OR ucast l :: u64) mod ucast y)))"

definition Rem64 :: "u64 \<Rightarrow> u64 \<Rightarrow> u64 \<Rightarrow> div_error + u64" where
  "Rem64 h l y =
     (if y = 0 then Inl divideError
      else case Div64 (h mod y) l y of Inl e \<Rightarrow> Inl e | Inr (_, rem) \<Rightarrow> Inr rem)"

subsection \<open>The functions on \<open>uint\<close>\<close>

definition RotateLeft :: "bool \<Rightarrow> u64 \<Rightarrow> int \<Rightarrow> u64" where
  "RotateLeft b32 x k = (if b32 then ucast (RotateLeft32 (ucast x) k) else RotateLeft64 x k)"

definition Reverse :: "bool \<Rightarrow> u64 \<Rightarrow> u64" where
  "Reverse b32 x = (if b32 then ucast (Reverse32 (ucast x)) else Reverse64 x)"

definition ReverseBytes :: "bool \<Rightarrow> u64 \<Rightarrow> u64" where
  "ReverseBytes b32 x = (if b32 then ucast (ReverseBytes32 (ucast x)) else ReverseBytes64 x)"

text \<open>Widening a pair of results, or the result of a division.\<close>

definition widen :: "u32 \<times> u32 \<Rightarrow> u64 \<times> u64" where
  "widen r = (ucast (fst r), ucast (snd r))"

definition bits_Add :: "bool \<Rightarrow> u64 \<Rightarrow> u64 \<Rightarrow> u64 \<Rightarrow> u64 \<times> u64" where
  "bits_Add b32 x y carry = (if b32 then widen (Add32 (ucast x) (ucast y) (ucast carry)) else Add64 x y carry)"

definition bits_Sub :: "bool \<Rightarrow> u64 \<Rightarrow> u64 \<Rightarrow> u64 \<Rightarrow> u64 \<times> u64" where
  "bits_Sub b32 x y borrow = (if b32 then widen (Sub32 (ucast x) (ucast y) (ucast borrow)) else Sub64 x y borrow)"

definition bits_Mul :: "bool \<Rightarrow> u64 \<Rightarrow> u64 \<Rightarrow> u64 \<times> u64" where
  "bits_Mul b32 x y = (if b32 then widen (Mul32 (ucast x) (ucast y)) else Mul64 x y)"

definition bits_Div :: "bool \<Rightarrow> u64 \<Rightarrow> u64 \<Rightarrow> u64 \<Rightarrow> div_error + u64 \<times> u64" where
  "bits_Div b32 h l y =
     (if b32 then map_sum id widen (Div32 (ucast h) (ucast l) (ucast y)) else Div64 h l y)"

definition bits_Rem :: "bool \<Rightarrow> u64 \<Rightarrow> u64 \<Rightarrow> u64 \<Rightarrow> div_error + u64" where
  "bits_Rem b32 h l y =
     (if b32 then map_sum id ucast (Rem32 (ucast h) (ucast l) (ucast y)) else Rem64 h l y)"

section \<open>Reversal\<close>

text \<open>Swapping neighbouring groups of \<open>s\<close> bits, or the two halves, moves bit \<open>i\<close> to \<open>swap s i\<close>.\<close>

definition swap :: "nat \<Rightarrow> nat \<Rightarrow> nat" where
  "swap s i = (if even (i div s) then i + s else i - s)"

definition exchange :: "nat \<Rightarrow> 'w::len word \<Rightarrow> 'w word \<Rightarrow> 'w word" where
  "exchange s M x = (drop_bit s x AND M) OR push_bit s (x AND M)"

definition halves :: "nat \<Rightarrow> 'w::len word \<Rightarrow> 'w word" where
  "halves s x = drop_bit s x OR push_bit s x"

definition alternates :: "nat \<Rightarrow> 'w::len word \<Rightarrow> bool" where
  "alternates s M \<longleftrightarrow> (\<forall>i < LENGTH('w). bit M i = even (i div s))"

lemma exchange_bits:
  fixes x M :: "'w::len word"
  assumes "0 < s" "i < LENGTH('w)" "alternates s M"
  shows "bit (exchange s M x) i = bit x (swap s i)"
proof (cases "s \<le> i")
  case True
  then have "i div s = Suc ((i - s) div s)" using assms(1) by (simp add: le_div_geq)
  then have "even (i div s) \<longleftrightarrow> \<not> even ((i - s) div s)" by simp
  moreover have "bit M i = even (i div s)" "bit M (i - s) = even ((i - s) div s)"
    using assms(2,3) by (simp_all add: alternates_def)
  ultimately show ?thesis
    using True assms(2)
    by (auto simp: exchange_def swap_def bit_or_iff bit_and_iff bit_drop_bit_eq bit_push_bit_iff add.commute)
next
  case False
  then have "even (i div s)" by simp
  moreover have "bit M i = even (i div s)" using assms(2,3) by (simp add: alternates_def)
  ultimately show ?thesis
    using False assms(2)
    by (auto simp: exchange_def swap_def bit_or_iff bit_and_iff bit_drop_bit_eq bit_push_bit_iff add.commute)
qed

lemma halves_bits:
  fixes x :: "'w::len word"
  assumes "LENGTH('w) = 2 * s" "i < LENGTH('w)"
  shows "bit (halves s x) i = bit x (swap s i)"
proof -
  have "\<not> bit x j" if "2 * s \<le> j" for j using bit_imp_le_length [of x j] that assms(1) by auto
  moreover have "even (i div s) \<longleftrightarrow> i < s"
  proof (cases "i < s")
    case False
    then have "i div s = Suc ((i - s) div s)" using assms by (simp add: le_div_geq)
    moreover have "i - s < s" using assms by linarith
    ultimately show ?thesis using False by simp
  qed simp
  ultimately show ?thesis
    using assms by (auto simp: halves_def swap_def bit_or_iff bit_drop_bit_eq bit_push_bit_iff add.commute)
qed

lemma mask_bits:
  assumes "i < 64"
  shows "bit m0 i = even (i div 1)" "bit m1 i = even (i div 2)" "bit m2 i = even (i div 4)"
    "bit m3 i = even (i div 8)" "bit m4 i = even (i div 16)"
proof -
  have "list_all (\<lambda>i. bit m0 i = even (i div 1)) [0..<64]" "list_all (\<lambda>i. bit m1 i = even (i div 2)) [0..<64]"
    "list_all (\<lambda>i. bit m2 i = even (i div 4)) [0..<64]" "list_all (\<lambda>i. bit m3 i = even (i div 8)) [0..<64]"
    "list_all (\<lambda>i. bit m4 i = even (i div 16)) [0..<64]"
    by (simp_all add: m0_def m1_def m2_def m3_def m4_def upt_conv_Cons)
  then show "bit m0 i = even (i div 1)" "bit m1 i = even (i div 2)" "bit m2 i = even (i div 4)"
    "bit m3 i = even (i div 8)" "bit m4 i = even (i div 16)"
    using assms by (simp_all only: list_all_iff set_upt atLeastLessThan_iff le0 simp_thms)
qed

lemma alternates_64: "alternates 1 m0" "alternates 2 m1" "alternates 4 m2" "alternates 8 m3" "alternates 16 m4"
  by (simp_all only: alternates_def) (simp_all add: mask_bits)

lemma alternates_32:
  "alternates 1 (ucast m0 :: u32)" "alternates 2 (ucast m1 :: u32)" "alternates 4 (ucast m2 :: u32)"
  "alternates 8 (ucast m3 :: u32)"
  by (simp_all add: alternates_def bit_unsigned_iff mask_bits)

text \<open>The positions, one by one.\<close>

definition swaps_ok :: "nat \<Rightarrow> bool" where
  "swaps_ok i \<longleftrightarrow>
     list_all (\<lambda>s. swap s i < 64) [1, 2, 4, 8, 16, 32] \<and>
     swap 1 (swap 2 (swap 4 (swap 8 (swap 16 (swap 32 i))))) = 63 - i \<and>
     swap 8 (swap 16 (swap 32 i)) = 8 * (7 - i div 8) + i mod 8"

definition swaps_ok_32 :: "nat \<Rightarrow> bool" where
  "swaps_ok_32 i \<longleftrightarrow>
     list_all (\<lambda>s. swap s i < 32) [1, 2, 4, 8, 16] \<and>
     swap 1 (swap 2 (swap 4 (swap 8 (swap 16 i)))) = 31 - i \<and>
     swap 8 (swap 16 i) = 8 * (3 - i div 8) + i mod 8"

lemma swaps_all: "list_all swaps_ok [0..<64]" "list_all swaps_ok_32 [0..<32]"
  by (simp_all add: upt_conv_Cons swap_def swaps_ok_def swaps_ok_32_def)

lemma swaps_okI: "i < 64 \<Longrightarrow> swaps_ok i" "i < 32 \<Longrightarrow> swaps_ok_32 i"
  using swaps_all by (simp_all add: list_all_iff)

lemma swaps:
  "i < 64 \<Longrightarrow> swap 1 (swap 2 (swap 4 (swap 8 (swap 16 (swap 32 i))))) = 63 - i"
  "i < 64 \<Longrightarrow> swap 8 (swap 16 (swap 32 i)) = 8 * (7 - i div 8) + i mod 8"
  "i < 64 \<Longrightarrow> s \<in> {1, 2, 4, 8, 16, 32} \<Longrightarrow> swap s i < 64"
  by (drule swaps_okI(1), unfold swaps_ok_def list.pred_inject, blast)+

lemma swaps_32:
  "i < 32 \<Longrightarrow> swap 1 (swap 2 (swap 4 (swap 8 (swap 16 i)))) = 31 - i"
  "i < 32 \<Longrightarrow> swap 8 (swap 16 i) = 8 * (3 - i div 8) + i mod 8"
  "i < 32 \<Longrightarrow> s \<in> {1, 2, 4, 8, 16} \<Longrightarrow> swap s i < 32"
  by (drule swaps_okI(2), unfold swaps_ok_32_def list.pred_inject, blast)+

lemma ReverseBytes_exchange:
  "ReverseBytes64 x = halves 32 (exchange 16 m4 (exchange 8 m3 x))"
  "ReverseBytes32 y = halves 16 (exchange 8 (ucast m3) y)"
  by (simp_all only: ReverseBytes64_def ReverseBytes32_def Let_def halves_def exchange_def)

lemma Reverse_exchange:
  "Reverse64 x = ReverseBytes64 (exchange 4 m2 (exchange 2 m1 (exchange 1 m0 x)))"
  "Reverse32 y = ReverseBytes32 (exchange 4 (ucast m2) (exchange 2 (ucast m1) (exchange 1 (ucast m0) y)))"
  by (simp_all only: Reverse64_def Reverse32_def Let_def exchange_def)

lemma ReverseBytes64_swap: "i < 64 \<Longrightarrow> bit (ReverseBytes64 x) i = bit x (swap 8 (swap 16 (swap 32 i)))"
  unfolding ReverseBytes_exchange using swaps(3) [of i 32] swaps(3) [of "swap 32 i" 16]
  by (subst halves_bits, simp, simp, subst exchange_bits, simp_all add: alternates_64,
      subst exchange_bits, simp_all add: alternates_64)

lemma ReverseBytes64_spec: "i < 64 \<Longrightarrow> bit (ReverseBytes64 x) i = bit x (8 * (7 - i div 8) + i mod 8)"
  by (simp only: ReverseBytes64_swap swaps)

lemma Reverse64_spec: "i < 64 \<Longrightarrow> bit (Reverse64 x) i = bit x (63 - i)"
proof -
  assume i: "i < 64"
  let ?j = "swap 8 (swap 16 (swap 32 i))"
  have j: "?j < 64" "swap 4 ?j < 64" "swap 2 (swap 4 ?j) < 64" by (rule swaps(3) | rule i | simp)+
  show ?thesis
    unfolding Reverse_exchange ReverseBytes64_swap [OF i] using j
    by (subst exchange_bits, simp_all add: alternates_64, subst exchange_bits, simp_all add: alternates_64,
        subst exchange_bits, simp_all add: alternates_64 [simplified] swaps(1) [OF i, simplified])
qed

lemma ReverseBytes32_swap: "i < 32 \<Longrightarrow> bit (ReverseBytes32 x) i = bit x (swap 8 (swap 16 i))"
  unfolding ReverseBytes_exchange using swaps_32(3) [of i 16]
  by (subst halves_bits, simp, simp, subst exchange_bits, simp_all add: alternates_32)

lemma ReverseBytes32_spec: "i < 32 \<Longrightarrow> bit (ReverseBytes32 x) i = bit x (8 * (3 - i div 8) + i mod 8)"
  by (simp only: ReverseBytes32_swap swaps_32)

lemma Reverse32_spec: "i < 32 \<Longrightarrow> bit (Reverse32 x) i = bit x (31 - i)"
proof -
  assume i: "i < 32"
  let ?j = "swap 8 (swap 16 i)"
  have j: "?j < 32" "swap 4 ?j < 32" "swap 2 (swap 4 ?j) < 32" by (rule swaps_32(3) | rule i | simp)+
  show ?thesis
    unfolding Reverse_exchange ReverseBytes32_swap [OF i] using j
    by (subst exchange_bits, simp_all add: alternates_32, subst exchange_bits, simp_all add: alternates_32,
        subst exchange_bits, simp_all add: alternates_32 [simplified] swaps_32(1) [OF i, simplified])
qed

lemma ReverseBytes16_spec: "i < 16 \<Longrightarrow> bit (ReverseBytes16 x) i = bit x (8 * (1 - i div 8) + i mod 8)"
proof -
  assume i: "i < 16"
  have "bit (ReverseBytes16 x) i = bit x (swap 8 i)"
    using halves_bits [of 8 i x] i by (simp add: ReverseBytes16_def halves_def)
  moreover have "list_all (\<lambda>i. swap 8 i = 8 * (1 - i div 8) + i mod 8) [0..<16]"
    by (simp add: upt_conv_Cons swap_def)
  ultimately show ?thesis using i by (simp add: list_all_iff)
qed

lemma Reverse8_spec: "i < 8 \<Longrightarrow> bit (Reverse8 x) i = bit x (7 - i)"
proof -
  have "8 \<le> (8 :: nat) \<Longrightarrow> length rev8tab = 2 ^ 8 \<and> (\<forall>n < 2 ^ 8. \<forall>i < 8. bit (rev8tab ! n) i = bit n (7 - i))"
    unfolding rev8tab_doubled
  proof (rule doubled_ind)
    fix k n :: nat and t :: "u8 list"
    assume IH: "\<And>n. n < 2 ^ k \<Longrightarrow> \<forall>i < 8. bit (t ! n) i = bit n (7 - i)" and t: "length t = 2 ^ k" "k < 8" "n < 2 ^ k"
    let ?v = "t ! n" and ?b = "push_bit (7 - k) 1 :: u8"
    have hi: "\<not> bit n j" if "k \<le> j" for j
    proof
      assume "bit n j"
      then have "2 ^ j \<le> n" by (rule bit_imp_ge)
      moreover have "(2 :: nat) ^ k \<le> 2 ^ j" using that by (rule power_increasing) simp
      ultimately show False using t(3) by simp
    qed
    have b: "bit ?b i = (i = 7 - k)" for i using t(2) by (auto simp: bit_exp_iff possible_bit_word)
    have v: "bit ?v i = (i < 8 \<and> bit n (7 - i))" for i
      using IH [OF t(3)] bit_imp_le_length [of ?v i] by auto
    have "\<not> bit ?v (7 - k)" using v hi [of k] t(2) by simp
    then have "?v + ?b = ?v OR ?b" using b by (intro disjunctive_add_eq_or bit_eqI) (auto simp: bit_and_iff)
    moreover have "bit (n + 2 ^ k) j = (bit n j \<or> j = k)" for j
      using bit_concat [OF t(3), of 1 j] hi [of j] by (auto simp: bit_1_iff simp del: One_nat_def)
    ultimately have "bit (?v + ?b) i = bit (n + 2 ^ k) (7 - i)" if "i < 8" for i
    proof -
      assume e: "?v + ?b = ?v OR ?b" "\<And>j. bit (n + 2 ^ k) j = (bit n j \<or> j = k)"
      have "i = 7 - k \<longleftrightarrow> 7 - i = k" using that t(2) by linarith
      then show ?thesis using that by (simp only: e bit_or_iff b v simp_thms)
    qed
    then show "\<forall>i < 8. bit (map (\<lambda>x. x + ?b) t ! n) i = bit (n + 2 ^ k) (7 - i)"
      using t by (auto simp only: nth_map)
  qed simp_all
  moreover have "unat x < 2 ^ 8" using unsigned_less [of x] by simp
  ultimately show "i < 8 \<Longrightarrow> bit (Reverse8 x) i = bit x (7 - i)"
    unfolding Reverse8_def bit_of_unat [symmetric, of x] by blast
qed

lemma Reverse16_spec: "i < 16 \<Longrightarrow> bit (Reverse16 x) i = bit x (15 - i)"
proof -
  assume i: "i < 16"
  have lt: "unat x < 65536" using unsigned_less [of x] by simp
  have u: "at rev8tab (drop_bit 8 x) = Reverse8 (ucast (drop_bit 8 x))"
    "at rev8tab (x AND 0xff) = Reverse8 (ucast x)"
    using lt by (simp_all add: Reverse8_def unat_ucast unat_drop_bit and_ff)
  show ?thesis
    unfolding Reverse16_def u using i
    by (cases "i < 8") (auto simp: bit_or_iff bit_push_bit_iff bit_unsigned_iff Reverse8_spec bit_drop_bit_eq
        dest: bit_imp_le_length)
qed

section \<open>Rotation\<close>

lemma shift_amount: "n \<le> 64 \<Longrightarrow> unat ((of_int k :: u64) AND mask n) = nat (k mod 2 ^ n)"
proof -
  assume n: "n \<le> 64"
  have "unat (of_int k :: u64) = nat (uint (of_int k :: u64))" by (rule unat_eq_nat_uint)
  then have "unat (of_int k :: u64) = nat (k mod 2 ^ 64)" by (simp add: uint_word_of_int)
  then have "unat ((of_int k :: u64) AND mask n) = nat (k mod 2 ^ 64) mod nat (2 ^ n)"
    by (simp only: unat_and_mask nat_power_eq nat_numeral zero_le_numeral)
  also have "\<dots> = nat (k mod 2 ^ 64 mod 2 ^ n)" by (rule nat_mod_distrib [symmetric]) simp_all
  also have "k mod 2 ^ 64 mod 2 ^ n = k mod 2 ^ n" using n by (intro mod_mod_cancel le_imp_power_dvd)
  finally show ?thesis .
qed

lemma rotate_bits:
  fixes x :: "'w::len word"
  assumes "i < LENGTH('w)" "s = nat (k mod int LENGTH('w))"
  shows "bit (push_bit s x OR drop_bit (LENGTH('w) - s) x) i = bit x (nat ((int i - k) mod int LENGTH('w)))"
proof -
  let ?N = "LENGTH('w)"
  have s: "int s = k mod int ?N" "s < ?N" using assms(2) by simp_all (metis nat_less_iff pos_mod_bound pos_mod_sign len_gt_0 of_nat_0_less_iff)
  have m: "(int i - k) mod int ?N = (int i - int s) mod int ?N" unfolding s(1) by (simp add: mod_diff_right_eq)
  show ?thesis
  proof (cases "s \<le> i")
    case True
    then have "(int i - int s) mod int ?N = int (i - s)" using assms(1) by (simp add: of_nat_diff)
    then have "nat ((int i - k) mod int ?N) = i - s" unfolding m by (simp only: nat_int)
    then show ?thesis
      using True assms(1) s(2) bit_imp_le_length [of x "?N - s + i"]
      by (auto simp: bit_or_iff bit_push_bit_iff bit_drop_bit_eq)
  next
    case False
    then have "(int i - int s) mod int ?N = (int i - int s + int ?N) mod int ?N" by simp
    also have "\<dots> = int (i + (?N - s))" using False s(2) by (subst mod_pos_pos_trivial) auto
    finally have "nat ((int i - k) mod int ?N) = i + (?N - s)" unfolding m by (simp only: nat_int)
    then show ?thesis
      using False assms(1) s(2) by (auto simp: bit_or_iff bit_push_bit_iff bit_drop_bit_eq add.commute)
  qed
qed

lemma Rotate_amounts:
  "unat ((of_int k :: u64) AND 7) = nat (k mod int LENGTH(8))" "unat ((of_int k :: u64) AND 15) = nat (k mod int LENGTH(16))"
  "unat ((of_int k :: u64) AND 31) = nat (k mod int LENGTH(32))" "unat ((of_int k :: u64) AND 63) = nat (k mod int LENGTH(64))"
  using shift_amount [of 3 k] shift_amount [of 4 k] shift_amount [of 5 k] shift_amount [of 6 k]
  by (simp_all add: mask_eq_exp_minus_1)

lemma Rotate_spec:
  "i < 8 \<Longrightarrow> bit (RotateLeft8 a k) i = bit a (nat ((int i - k) mod 8))"
  "i < 16 \<Longrightarrow> bit (RotateLeft16 b k) i = bit b (nat ((int i - k) mod 16))"
  "i < 32 \<Longrightarrow> bit (RotateLeft32 c k) i = bit c (nat ((int i - k) mod 32))"
  "i < 64 \<Longrightarrow> bit (RotateLeft64 d k) i = bit d (nat ((int i - k) mod 64))"
proof -
  have l: "LENGTH(8) = 8" "LENGTH(16) = 16" "LENGTH(32) = 32" "LENGTH(64) = 64"
    "int 8 = 8" "int 16 = 16" "int 32 = 32" "int 64 = 64" by simp_all
  note r = rotate_bits [OF _ refl, where k = k]
  show "i < 8 \<Longrightarrow> bit (RotateLeft8 a k) i = bit a (nat ((int i - k) mod 8))"
    using r [of i a] unfolding RotateLeft8_def Let_def Rotate_amounts l .
  show "i < 16 \<Longrightarrow> bit (RotateLeft16 b k) i = bit b (nat ((int i - k) mod 16))"
    using r [of i b] unfolding RotateLeft16_def Let_def Rotate_amounts l .
  show "i < 32 \<Longrightarrow> bit (RotateLeft32 c k) i = bit c (nat ((int i - k) mod 32))"
    using r [of i c] unfolding RotateLeft32_def Let_def Rotate_amounts l .
  show "i < 64 \<Longrightarrow> bit (RotateLeft64 d k) i = bit d (nat ((int i - k) mod 64))"
    using r [of i d] unfolding RotateLeft64_def Let_def Rotate_amounts l .
qed

section \<open>Addition and subtraction\<close>

lemma top_bit:
  fixes w :: "'w::len word"
  shows "unat (drop_bit (LENGTH('w) - 1) w) = of_bool (bit w (LENGTH('w) - 1))"
    and "bit w (LENGTH('w) - 1) \<longleftrightarrow> 2 ^ (LENGTH('w) - 1) \<le> unat w"
proof -
  let ?k = "LENGTH('w) - 1"
  have two: "(2 :: nat) ^ LENGTH('w) = 2 * 2 ^ ?k" by (simp flip: power_Suc)
  have lt: "unat w < 2 * 2 ^ ?k" using unat_less [of w] unfolding two .
  then have d: "unat w div 2 ^ ?k = of_bool (2 ^ ?k \<le> unat w)"
    by (auto simp: div_nat_eqI le_less_Suc_eq not_le)
  have "bit w ?k \<longleftrightarrow> odd (unat w div 2 ^ ?k)" unfolding bit_of_unat [symmetric] by (rule bit_iff_odd)
  then show "bit w ?k \<longleftrightarrow> 2 ^ ?k \<le> unat w" using d by simp
  then show "unat (drop_bit ?k w) = of_bool (bit w ?k)" using d by (simp add: unat_drop_bit)
qed

lemma unat_add_cases:
  fixes a b :: "'w::len word"
  shows "unat (a + b) = (if unat a + unat b < 2 ^ LENGTH('w) then unat a + unat b else unat a + unat b - 2 ^ LENGTH('w))"
proof -
  have "unat a + unat b < 2 * 2 ^ LENGTH('w)" using unat_less [of a] unat_less [of b] by linarith
  then show ?thesis by (auto simp: unat_word_ariths mod_if not_less le_mod_geq)
qed

lemma top_bit_64: "bit w 63 \<longleftrightarrow> 2 ^ 63 \<le> unat w" "unat (drop_bit 63 w) = of_bool (bit w 63)" for w :: u64
  using top_bit [of w] by simp_all

lemma top_bit_32: "bit w 31 \<longleftrightarrow> 2 ^ 31 \<le> unat w" "unat (drop_bit 31 w) = of_bool (bit w 31)" for w :: u32
  using top_bit [of w] by simp_all

lemma Add64_spec:
  assumes "unat carry \<le> 1" "Add64 x y carry = (s, out)"
  shows "unat s + 2 ^ 64 * unat out = unat x + unat y + unat carry \<and> unat out \<le> 1"
proof -
  let ?P = "2 ^ 63 :: nat"
  have d: "s = x + y + carry" "out = drop_bit 63 ((x AND y) OR ((x OR y) AND NOT s))"
    using assms(2) unfolding Add64_def Let_def by blast+
  have "bit ((x AND y) OR ((x OR y) AND NOT s)) 63 = (bit x 63 \<and> bit y 63 \<or> (bit x 63 \<or> bit y 63) \<and> \<not> bit s 63)"
    by (simp add: bit_or_iff bit_and_iff bit_not_iff)
  then have o: "unat out = of_bool (?P \<le> unat x \<and> ?P \<le> unat y \<or> (?P \<le> unat x \<or> ?P \<le> unat y) \<and> \<not> ?P \<le> unat s)"
    unfolding d(2) top_bit_64(2) by (simp only: top_bit_64(1))
  have l: "unat x < 2 ^ 64" "unat y < 2 ^ 64" using unat_less [of x] unat_less [of y] by simp_all
  have u: "unat s = (if unat x + unat y + unat carry < 2 ^ 64 then unat x + unat y + unat carry
      else unat x + unat y + unat carry - 2 ^ 64)"
    unfolding d(1) using l assms(1) by (simp add: unat_add_cases)
  show ?thesis using o u l assms(1) by (auto split: if_splits)
qed

text \<open>Subtraction, at both widths.\<close>

lemma unat_sub_cases:
  fixes a b :: "'w::len word"
  shows "int (unat (a - b)) = (if unat b \<le> unat a then int (unat a) - int (unat b)
    else int (unat a) - int (unat b) + 2 ^ LENGTH('w))"
proof -
  have l: "int (unat a) < 2 ^ LENGTH('w)" "int (unat b) < 2 ^ LENGTH('w)"
    using uint_lt2p [of a] uint_lt2p [of b] by simp_all
  have "int (unat (a - b)) = (int (unat a) - int (unat b)) mod 2 ^ LENGTH('w)"
    by (simp add: uint_word_ariths)
  also have "\<dots> = (if unat b \<le> unat a then int (unat a) - int (unat b)
    else int (unat a) - int (unat b) + 2 ^ LENGTH('w))"
  proof (cases "unat b \<le> unat a")
    case True
    then have "0 \<le> int (unat a) - int (unat b)" by (simp del: of_nat_unat)
    moreover have "int (unat a) - int (unat b) < 2 ^ LENGTH('w)" using l(1) by linarith
    ultimately have "(int (unat a) - int (unat b)) mod 2 ^ LENGTH('w) = int (unat a) - int (unat b)"
      by (rule mod_pos_pos_trivial)
    then show ?thesis using True by (simp only: if_True)
  next
    case False
    then have "(int (unat a) - int (unat b)) mod 2 ^ LENGTH('w) = (int (unat a) - int (unat b) + 2 ^ LENGTH('w)) mod 2 ^ LENGTH('w)"
      by simp
    also have "\<dots> = int (unat a) - int (unat b) + 2 ^ LENGTH('w)"
    proof (rule mod_pos_pos_trivial)
      have "int (unat a) < int (unat b)" using False by (simp only: of_nat_less_iff not_le)
      then show "int (unat a) - int (unat b) + 2 ^ LENGTH('w) < 2 ^ LENGTH('w)" by linarith
      have "0 \<le> int (unat a)" by simp
      then show "0 \<le> int (unat a) - int (unat b) + 2 ^ LENGTH('w)" using l(2) by linarith
    qed
    finally show ?thesis using False by simp
  qed
  finally show ?thesis .
qed

lemma Sub64_spec:
  assumes "unat borrow \<le> 1" "Sub64 x y borrow = (d, out)"
  shows "int (unat d) - 2 ^ 64 * int (unat out) = int (unat x) - int (unat y) - int (unat borrow) \<and> unat out \<le> 1"
proof -
  let ?P = "2 ^ 63 :: nat"
  have d: "d = x - y - borrow" "out = drop_bit 63 ((NOT x AND y) OR (NOT (x XOR y) AND d))"
    using assms(2) unfolding Sub64_def Let_def by blast+
  have "bit ((NOT x AND y) OR (NOT (x XOR y) AND d)) 63 = (\<not> bit x 63 \<and> bit y 63 \<or> (bit x 63 = bit y 63) \<and> bit d 63)"
    by (auto simp: bit_or_iff bit_and_iff bit_not_iff bit_xor_iff)
  then have o: "unat out = of_bool (\<not> ?P \<le> unat x \<and> ?P \<le> unat y \<or> (?P \<le> unat x) = (?P \<le> unat y) \<and> ?P \<le> unat d)"
    unfolding d(2) top_bit_64(2) by (simp only: top_bit_64(1))
  have l: "unat x < 2 ^ 64" "unat y < 2 ^ 64" using unat_less [of x] unat_less [of y] by simp_all
  have u: "int (unat d) = (if unat y + unat borrow \<le> unat x then int (unat x) - int (unat y) - int (unat borrow)
      else int (unat x) - int (unat y) - int (unat borrow) + 2 ^ 64)"
    unfolding d(1) using l assms(1) unat_sub_cases [of x y] unat_sub_cases [of "x - y" borrow]
    by (auto split: if_splits simp del: of_nat_unat)
  show ?thesis using o u l assms(1) by (auto split: if_splits simp del: of_nat_unat)
qed

lemma Sub32_spec:
  assumes "unat borrow \<le> 1" "Sub32 x y borrow = (d, out)"
  shows "int (unat d) - 2 ^ 32 * int (unat out) = int (unat x) - int (unat y) - int (unat borrow) \<and> unat out \<le> 1"
proof -
  let ?P = "2 ^ 31 :: nat"
  have d: "d = x - y - borrow" "out = drop_bit 31 ((NOT x AND y) OR (NOT (x XOR y) AND d))"
    using assms(2) unfolding Sub32_def Let_def by blast+
  have "bit ((NOT x AND y) OR (NOT (x XOR y) AND d)) 31 = (\<not> bit x 31 \<and> bit y 31 \<or> (bit x 31 = bit y 31) \<and> bit d 31)"
    by (auto simp: bit_or_iff bit_and_iff bit_not_iff bit_xor_iff)
  then have o: "unat out = of_bool (\<not> ?P \<le> unat x \<and> ?P \<le> unat y \<or> (?P \<le> unat x) = (?P \<le> unat y) \<and> ?P \<le> unat d)"
    unfolding d(2) top_bit_32(2) by (simp only: top_bit_32(1))
  have l: "unat x < 2 ^ 32" "unat y < 2 ^ 32" using unat_less [of x] unat_less [of y] by simp_all
  have u: "int (unat d) = (if unat y + unat borrow \<le> unat x then int (unat x) - int (unat y) - int (unat borrow)
      else int (unat x) - int (unat y) - int (unat borrow) + 2 ^ 32)"
    unfolding d(1) using l assms(1) unat_sub_cases [of x y] unat_sub_cases [of "x - y" borrow]
    by (auto split: if_splits simp del: of_nat_unat)
  show ?thesis using o u l assms(1) by (auto split: if_splits simp del: of_nat_unat)
qed

lemma Add32_spec:
  assumes "unat carry \<le> 1" "Add32 x y carry = (s, out)"
  shows "unat s + 2 ^ 32 * unat out = unat x + unat y + unat carry \<and> unat out \<le> 1"
proof -
  have l: "unat x < 2 ^ 32" "unat y < 2 ^ 32" using unat_less [of x] unat_less [of y] by simp_all
  have u: "unat (ucast x :: u64) = unat x" "unat (ucast y :: u64) = unat y" "unat (ucast carry :: u64) = unat carry"
    using l assms(1) by (simp_all add: unat_ucast)
  let ?n = "unat x + unat y + unat carry"
  have n: "unat (ucast x + ucast y + ucast carry :: u64) = ?n"
    using l assms(1) u by (simp add: unat_add_cases)
  have d: "s = ucast (ucast x + ucast y + ucast carry :: u64)" "out = ucast (drop_bit 32 (ucast x + ucast y + ucast carry :: u64))"
    using assms(2) unfolding Add32_def Let_def by blast+
  have "unat s = ?n mod 2 ^ 32" "unat out = ?n div 2 ^ 32 mod 2 ^ 32"
    unfolding d by (simp_all only: unat_ucast unat_drop_bit n) simp_all
  moreover have "?n div 2 ^ 32 \<le> 1" using l assms(1) by (simp add: less_Suc_eq_le [symmetric] div_less_iff_less_mult)
  ultimately show ?thesis by simp
qed

end
