(* ===== verification/MathDiv.thy ===== *)
theory MathDiv
  imports MathWide
begin

unbundle bit_operations_syntax

text \<open>
  Multiplication and division of double width (\<open>Mul32\<close> to \<open>Rem64\<close> of \<open>math/bits/bits.go\<close>) are exact, and the
  properties of \<open>math/bits\<close> as a whole.
\<close>

section \<open>Multiplication\<close>

lemma mul_halves:
  fixes b x0 x1 y0 y1 :: nat
  assumes "0 < b"
  defines "t \<equiv> x1 * y0 + x0 * y0 div b"
  defines "w \<equiv> t mod b + x0 * y1"
  shows "(x1 * b + x0) * (y1 * b + y0) = (x1 * y1 + t div b + w div b) * (b * b) + (w mod b * b + x0 * y0 mod b)"
proof -
  have t: "t = t div b * b + t mod b" and w: "w = w div b * b + w mod b"
    and z: "x0 * y0 = x0 * y0 div b * b + x0 * y0 mod b" by simp_all
  have "(x1 * b + x0) * (y1 * b + y0) = x1 * y1 * (b * b) + (x1 * y0 + x0 * y1) * b + x0 * y0"
    by (simp add: algebra_simps)
  also have "\<dots> = x1 * y1 * (b * b) + (t + x0 * y1) * b + x0 * y0 mod b"
    by (subst z) (simp add: t_def algebra_simps)
  also have "\<dots> = x1 * y1 * (b * b) + (t div b * b + w) * b + x0 * y0 mod b"
    by (subst t) (simp add: w_def algebra_simps)
  also have "\<dots> = (x1 * y1 + t div b + w div b) * (b * b) + (w mod b * b + x0 * y0 mod b)"
    by (subst w) (simp only: algebra_simps)
  finally show ?thesis .
qed

lemma half_less: "unat (drop_bit 32 x) < 2 ^ 32" "unat (x AND mask 32) < 2 ^ 32" for x :: u64
  using unat_less [of x] by (simp_all add: unat_drop_bit unat_and_mask)

lemma halves_eq: "unat x = unat (drop_bit 32 x) * 2 ^ 32 + unat (x AND mask 32)" for x :: u64
  by (simp add: unat_drop_bit unat_and_mask)

lemma mul_small: "unat a * unat b < 2 ^ 64 \<Longrightarrow> unat (a * b) = unat a * unat b" for a b :: u64
  by (simp add: unat_word_ariths)

lemma mul_bound: "(a :: nat) < 2 ^ 32 \<Longrightarrow> b < 2 ^ 32 \<Longrightarrow> a * b + 2 * (2 ^ 32 - 1) < 2 ^ 64"
proof -
  assume "a < 2 ^ 32" "b < 2 ^ 32"
  then have "a * b \<le> (2 ^ 32 - 1) * (2 ^ 32 - 1)" by (intro mult_le_mono) simp_all
  then show ?thesis by simp
qed

lemma Mul64_spec:
  assumes "Mul64 x y = (h, l)"
  shows "unat h * 2 ^ 64 + unat l = unat x * unat y"
proof -
  define x0 x1 y0 y1 where "x0 = x AND mask 32" and "x1 = drop_bit 32 x" and "y0 = y AND mask 32" and "y1 = drop_bit 32 y"
  let ?B = "2 ^ 32 :: nat"
  define t where "t = x1 * y0 + drop_bit 32 (x0 * y0)"
  define w where "w = (t AND mask 32) + x0 * y1"
  have h: "h = x1 * y1 + drop_bit 32 t + drop_bit 32 w" and l: "l = x * y"
    using assms unfolding Mul64_def Let_def x0_def x1_def y0_def y1_def t_def w_def by blast+
  have lt: "unat x0 < ?B" "unat x1 < ?B" "unat y0 < ?B" "unat y1 < ?B"
    unfolding x0_def x1_def y0_def y1_def by (rule half_less)+
  note mb = mul_bound [OF lt(1,3)] mul_bound [OF lt(2,3)] mul_bound [OF lt(1,4)] mul_bound [OF lt(2,4)]
  have m: "unat (x0 * y0) = unat x0 * unat y0" "unat (x1 * y0) = unat x1 * unat y0"
    "unat (x0 * y1) = unat x0 * unat y1" "unat (x1 * y1) = unat x1 * unat y1"
    using mb by (intro mul_small; linarith)+
  have d: "unat (x0 * y0) div ?B < ?B" using mb(1) m(1) by (simp add: div_less_iff_less_mult)
  have t: "unat t = unat x1 * unat y0 + unat x0 * unat y0 div ?B"
    unfolding t_def using mb(2) d m by (simp add: unat_add_cases unat_drop_bit)
  have w: "unat w = unat t mod ?B + unat x0 * unat y1"
  proof -
    have "unat t mod ?B < ?B" by simp
    then have "unat (t AND mask 32) + unat (x0 * y1) < 2 ^ 64" unfolding m unat_and_mask using mb(3) by linarith
    then show ?thesis unfolding w_def by (simp add: add_small m unat_and_mask)
  qed
  let ?h = "unat x1 * unat y1 + unat t div ?B + unat w div ?B"
  have eq: "unat x * unat y = ?h * (?B * ?B) + (unat w mod ?B * ?B + unat x0 * unat y0 mod ?B)"
    unfolding halves_eq [of x] halves_eq [of y] w t x0_def [symmetric] x1_def [symmetric] y0_def [symmetric] y1_def [symmetric]
    by (rule mul_halves) simp
  have "unat x * unat y < 2 ^ 64 * 2 ^ 64" using unat_less [of x] unat_less [of y] by (intro mult_strict_mono) simp_all
  then have "?h * (?B * ?B) < 2 ^ 64 * (?B * ?B)" using eq by simp
  then have hl: "?h < 2 ^ 64" by simp
  then have hi: "unat h = ?h" unfolding h using m by (simp add: unat_add_cases unat_drop_bit)
  have low: "unat w mod ?B * ?B + unat x0 * unat y0 mod ?B < 2 ^ 64"
  proof -
    have "unat w mod ?B \<le> ?B - 1" "unat x0 * unat y0 mod ?B < ?B" by simp_all
    then have "unat w mod ?B * ?B \<le> (?B - 1) * ?B" by (intro mult_le_mono) simp_all
    then show ?thesis using \<open>unat x0 * unat y0 mod ?B < ?B\<close> by simp
  qed
  have two: "(2 :: nat) ^ 64 = ?B * ?B" by simp
  have "unat l = unat x * unat y mod 2 ^ 64" unfolding l by (simp add: unat_word_ariths)
  also have "\<dots> = unat w mod ?B * ?B + unat x0 * unat y0 mod ?B"
    using low unfolding eq two by (simp only: mod_mult_self3 mod_less)
  finally show ?thesis using eq hi by simp
qed

lemma Mul32_spec:
  assumes "Mul32 x y = (h, l)"
  shows "unat h * 2 ^ 32 + unat l = unat x * unat y"
proof -
  have lt: "unat x < 2 ^ 32" "unat y < 2 ^ 32" using unat_less [of x] unat_less [of y] by simp_all
  have u: "unat (ucast x :: u64) = unat x" "unat (ucast y :: u64) = unat y" using lt by (simp_all add: unat_ucast)
  have "unat (ucast x * ucast y :: u64) = unat x * unat y"
    using mul_bound [OF lt] u mul_small [of "ucast x" "ucast y"] by simp
  moreover have "unat x * unat y div 2 ^ 32 < 2 ^ 32" using mul_bound [OF lt] by (simp add: div_less_iff_less_mult)
  ultimately have "unat h = unat x * unat y div 2 ^ 32" "unat l = unat x * unat y mod 2 ^ 32"
    using assms by (auto simp: Mul32_def Let_def unat_ucast unat_drop_bit)
  then show ?thesis by simp
qed

section \<open>Division\<close>

text \<open>
  One digit of the quotient: \<open>v = v1 * b + v0\<close> is the divisor, \<open>u < v\<close> what is left of the dividend and
  \<open>d\<close> its next digit. An estimate \<open>q\<close> with \<open>q * v1 + r = u\<close> is too big as long as the test of the loop holds.
\<close>

lemma digit_bound:
  fixes u v b d :: nat
  assumes "u < v" "d < b"
  shows "(u * b + d) div v < b"
proof -
  have "u * b + d < (u + 1) * b" using assms(2) by simp
  also have "\<dots> \<le> v * b" using assms(1) by (intro mult_le_mono) simp_all
  finally have "u * b + d < b * v" by (simp only: mult.commute)
  then show ?thesis by (rule less_mult_imp_div_less)
qed

lemma digit_exact:
  fixes q r u v0 v1 b d :: nat
  assumes "q * v1 + r = u" "q * v0 \<le> b * r + d"
  shows "q \<le> (u * b + d) div (v1 * b + v0) \<or> v1 * b + v0 = 0"
proof -
  have "q * (v1 * b + v0) = q * v1 * b + q * v0" by (simp add: algebra_simps)
  also have "\<dots> \<le> q * v1 * b + (b * r + d)" using assms(2) by simp
  also have "\<dots> = u * b + d" by (simp add: assms(1) [symmetric] algebra_simps)
  finally show ?thesis by (cases "v1 * b + v0 = 0") (simp_all add: less_eq_div_iff_mult_less_eq)
qed

lemma digit_too_big:
  fixes q r u v0 v1 b d :: nat
  assumes "q * v1 + r = u" "b * r + d < q * v0"
  shows "(u * b + d) div (v1 * b + v0) < q"
proof -
  have "u * b + d = q * v1 * b + (b * r + d)" by (simp add: assms(1) [symmetric] algebra_simps)
  also have "\<dots> < q * v1 * b + q * v0" using assms(2) by simp
  also have "\<dots> = q * (v1 * b + v0)" by (simp add: algebra_simps)
  finally show ?thesis
    using assms(2) by (subst div_less_iff_less_mult) (auto simp: mult.commute intro!: gr0I)
qed

lemma div_loop_spec:
  fixes b :: nat
  defines "b \<equiv> 2 ^ 32"
  assumes "unat yn1 < b" "unat yn0 < b" "unat un < b"
    and "0 < unat yn1" "u < unat yn1 * b + unat yn0"
    and "unat q * unat yn1 + unat rhat = u" "unat rhat < b" "unat q \<le> b + 1"
    and "(u * b + unat un) div (unat yn1 * b + unat yn0) \<le> unat q"
  shows "unat (fst (div_loop yn1 yn0 un q rhat)) = (u * b + unat un) div (unat yn1 * b + unat yn0)"
  using assms(2-)
proof (induction yn1 yn0 un q rhat rule: div_loop.induct)
  case (1 yn1 yn0 un q rhat)
  note p = 1(2-10)
  let ?T = "(u * b + unat un) div (unat yn1 * b + unat yn0)" and ?two = "push_bit 32 1 :: u64"
  have two: "unat ?two = b" by (simp add: b_def)
  have T: "?T < b" using digit_bound [OF p(5,3)] .
  have v: "unat yn1 * b + unat yn0 \<noteq> 0" using p(4) by (simp add: b_def)
  have "unat q * unat yn0 \<le> (b + 1) * (b - 1)" using p(2,8) by (intro mult_le_mono) simp_all
  then have mul: "unat (q * yn0) = unat q * unat yn0" by (intro mul_small) (simp add: b_def)
  have "b * unat rhat \<le> b * (b - 1)" using p(7) by (intro mult_le_mono) simp_all
  then have "unat (?two * rhat) = b * unat rhat" "b * unat rhat + unat un < 2 ^ 64"
    using two p(3) mul_small [of ?two rhat] by (simp_all add: b_def)
  then have add: "unat (?two * rhat + un) = b * unat rhat + unat un" by (simp add: add_small)
  have test: "(q \<ge> ?two \<or> q * yn0 > ?two * rhat + un) \<longleftrightarrow> b \<le> unat q \<or> b * unat rhat + unat un < unat q * unat yn0"
    by (simp only: word_le_nat_alt word_less_nat_alt two mul add)
  show ?case
  proof (cases "q \<ge> ?two \<or> q * yn0 > ?two * rhat + un")
    case False
    then have "unat q * unat yn0 \<le> b * unat rhat + unat un" unfolding test by simp
    then have "unat q \<le> ?T" using digit_exact [OF p(6), of "unat yn0" b "unat un"] v by blast
    moreover have "div_loop yn1 yn0 un q rhat = (q, rhat)"
      using False by (subst div_loop.simps) (simp only: Let_def if_False)
    ultimately show ?thesis using p(9) by simp
  next
    case True
    have gt: "?T < unat q"
      using True [unfolded test] T digit_too_big [OF p(6), of b "unat un" "unat yn0"] by linarith
    then have q1: "unat (q - 1) = unat q - 1" by (intro unat_minus_one) auto
    have r1: "unat (rhat + yn1) = unat rhat + unat yn1" using p(1,7) by (intro add_small) (simp add: b_def)
    have eq: "unat (q - 1) * unat yn1 + unat (rhat + yn1) = u"
      using gt p(6) unfolding q1 r1 by (cases "unat q") simp_all
    have ge: "(rhat + yn1 \<ge> ?two) \<longleftrightarrow> b \<le> unat (rhat + yn1)" by (simp only: word_le_nat_alt two)
    show ?thesis
    proof (cases "rhat + yn1 \<ge> ?two")
      case brk: True
      have "unat (q - 1) * unat yn0 \<le> b * b" using p(2,8) q1 by (intro mult_le_mono) simp_all
      also have "\<dots> \<le> b * unat (rhat + yn1)" using brk ge by (intro mult_le_mono) simp_all
      finally have "unat (q - 1) \<le> ?T" using digit_exact [OF eq, of "unat yn0" b "unat un"] v by force
      then have "unat (q - 1) = ?T" using gt q1 by simp
      moreover have "fst (div_loop yn1 yn0 un q rhat) = q - 1"
        using True brk by (subst div_loop.simps) (simp only: Let_def if_True fst_conv)
      ultimately show ?thesis by simp
    next
      case False
      have "div_loop yn1 yn0 un q rhat = div_loop yn1 yn0 un (q - 1) (rhat + yn1)"
        using True False by (subst div_loop.simps) (simp only: Let_def if_True if_False)
      moreover have "unat (fst (div_loop yn1 yn0 un (q - 1) (rhat + yn1))) = ?T"
        using False gt q1 ge p(8) by (intro 1(1) [OF refl True refl refl] p(1-5) eq) simp_all
      ultimately show ?thesis by simp
    qed
  qed
qed

text \<open>Scaling divisor and dividend by a power of two, and two digits one after the other.\<close>

lemma two_digits:
  fixes n d v b :: nat
  assumes "0 < v"
  shows "(n * b + d) div v = n div v * b + ((n mod v) * b + d) div v"
    and "(n * b + d) mod v = ((n mod v) * b + d) mod v"
proof -
  have eq: "n * b + d = (n div v * b) * v + ((n mod v) * b + d)"
    by (subst (1) div_mult_mod_eq [of n v, symmetric]) (simp only: algebra_simps)
  show "(n * b + d) div v = n div v * b + ((n mod v) * b + d) div v"
    by (subst eq) (simp add: assms div_mult_self3)
  show "(n * b + d) mod v = ((n mod v) * b + d) mod v"
    by (subst eq) (simp only: mod_mult_self3)
qed

lemma first_estimate:
  fixes u d v0 v1 b :: nat
  assumes "0 < v1" "d < b"
  shows "(u * b + d) div (v1 * b + v0) \<le> u div v1"
proof -
  let ?T = "(u * b + d) div (v1 * b + v0)"
  have "?T * (v1 * b) \<le> ?T * (v1 * b + v0)" by (intro mult_le_mono) simp_all
  also have "\<dots> \<le> u * b + d" by simp
  also have "\<dots> < (u + 1) * b" using assms(2) by simp
  finally have "?T * v1 * b < (u + 1) * b" by (simp add: mult.assoc)
  then have "?T * v1 < u + 1" using assms(2) by (simp only: mult_less_cancel2)
  then show ?thesis using assms(1) by (simp add: less_eq_div_iff_mult_less_eq)
qed

text \<open>With a normalised divisor the estimate is at most two too big.\<close>

lemma estimate_close:
  fixes u d v0 v1 b :: nat
  assumes "0 < v1" "b \<le> 2 * v1" "v0 < b" "u div v1 \<le> b + 1"
  shows "u div v1 \<le> (u * b + d) div (v1 * b + v0) + 2"
proof (rule ccontr)
  let ?q = "u div v1" and ?T = "(u * b + d) div (v1 * b + v0)"
  assume n: "\<not> ?q \<le> ?T + 2"
  define p where "p = ?q - 2"
  have p: "?q = p + 2" "?T + 1 \<le> p" using n unfolding p_def by linarith+
  have v: "0 < v1 * b + v0" using assms(1-3) by (cases b) simp_all
  have "?q * v1 * b \<le> u * b" by (intro mult_le_mono) simp_all
  also have "\<dots> \<le> u * b + d" by simp
  also have "\<dots> < (?T + 1) * (v1 * b + v0)" using dividend_less_div_times [OF v, of "u * b + d"] by (simp add: algebra_simps)
  also have "\<dots> \<le> p * (v1 * b + v0)" using p(2) by (intro mult_le_mono) simp_all
  finally have "2 * v1 * b < p * v0" unfolding p(1) by (simp add: algebra_simps)
  moreover have "b * b \<le> 2 * v1 * b" using assms(2) by (intro mult_le_mono) simp_all
  moreover have "p * v0 \<le> b * b" using p(1) assms(3,4) by (intro mult_le_mono) simp_all
  ultimately show False by simp
qed

text \<open>The estimate, then the loop: one exact digit.\<close>

lemma digit_step:
  fixes v u d :: u64
  assumes v: "2 ^ 63 \<le> unat v" and u: "unat u < unat v" and d: "unat d < 2 ^ 32"
  defines "v1 \<equiv> drop_bit 32 v" and "v0 \<equiv> v AND mask 32"
  shows "unat (div_digit v1 v0 u d) = (unat u * 2 ^ 32 + unat d) div unat v"
    and "(unat u * 2 ^ 32 + unat d) div unat v < 2 ^ 32"
    and "unat (u * push_bit 32 1 + d - div_digit v1 v0 u d * v)
      = (unat u * 2 ^ 32 + unat d) mod unat v"
    and "unat (div_digit v1 v0 u d) \<le> unat (u div v1) \<and> unat (u div v1) \<le> unat (div_digit v1 v0 u d) + 2"
proof -
  let ?b = "2 ^ 32 :: nat" and ?q = "u div v1"
  have vv: "unat v = unat v1 * ?b + unat v0" unfolding v1_def v0_def by (rule halves_eq)
  have lt: "unat v1 < ?b" "unat v0 < ?b" unfolding v1_def v0_def by (rule half_less)+
  have big: "?b \<le> 2 * unat v1" using v unfolding v1_def unat_drop_bit by (simp add: less_eq_div_iff_mult_less_eq)
  then have pos: "0 < unat v1" by simp
  have q: "unat ?q = unat u div unat v1" by (rule unat_div)
  have qv: "unat (?q * v1) = unat u div unat v1 * unat v1"
    using q unat_less [of u] by (subst mul_small) (simp_all add: le_less_trans [OF div_times_less_eq_dividend])
  then have r: "unat (u - ?q * v1) = unat u mod unat v1"
    by (subst unat_sub) (simp_all add: word_le_nat_alt minus_div_mult_eq_mod)
  have qle: "unat ?q \<le> ?b + 1"
  proof -
    have "unat u < (?b + 2) * unat v1"
    proof -
      have "unat u < unat v1 * ?b + ?b" using u vv lt(2) by linarith
      also have "\<dots> \<le> unat v1 * ?b + 2 * unat v1" using big by simp
      also have "\<dots> = (?b + 2) * unat v1" by (simp only: algebra_simps)
      finally show ?thesis .
    qed
    then have "unat u div unat v1 < ?b + 2" by (rule less_mult_imp_div_less)
    then show ?thesis unfolding q by simp
  qed
  have T: "(unat u * ?b + unat d) div unat v \<le> unat ?q"
    unfolding vv q by (rule first_estimate [OF pos d])
  show loop: "unat (div_digit v1 v0 u d) = (unat u * ?b + unat d) div unat v"
    unfolding vv div_digit_def Let_def
  proof (rule div_loop_spec)
    show "unat ?q * unat v1 + unat (u - ?q * v1) = unat u" unfolding q r by simp
    show "unat (u - ?q * v1) < ?b" unfolding r using lt(1) mod_less_divisor [OF pos, of "unat u"] by linarith
  qed (use lt d pos u vv qle T in simp_all)
  show "unat (div_digit v1 v0 u d) \<le> unat ?q \<and> unat ?q \<le> unat (div_digit v1 v0 u d) + 2"
    using T estimate_close [OF pos big lt(2), of "unat u" "unat d"] qle unfolding loop vv q by simp
  show small: "(unat u * ?b + unat d) div unat v < ?b" by (rule digit_bound [OF u d])
  let ?Q = "div_digit v1 v0 u d" and ?N = "unat u * ?b + unat d"
  have "u * push_bit 32 1 + d - ?Q * v = of_nat ?N - of_nat (?N div unat v * unat v)"
    unfolding loop [symmetric] by simp
  also have "\<dots> = of_nat (?N - ?N div unat v * unat v)" by (rule of_nat_diff [symmetric]) simp
  also have "?N - ?N div unat v * unat v = ?N mod unat v" by (rule minus_div_mult_eq_mod)
  finally have eq: "u * push_bit 32 1 + d - ?Q * v = of_nat (?N mod unat v)" .
  have "0 < unat v" using v by simp
  then have "?N mod unat v < 2 ^ LENGTH(64)" using unat_less [of v] mod_less_divisor [of "unat v" ?N] by linarith
  then show "unat (u * push_bit 32 1 + d - ?Q * v) = ?N mod unat v"
    unfolding eq unat_of_nat by (rule mod_less)
qed

lemma is_len_bounds: "is_len n l \<Longrightarrow> n < 2 ^ k \<Longrightarrow> l \<le> k"
proof (rule ccontr)
  assume "is_len n l" "n < 2 ^ k" "\<not> l \<le> k"
  then have "(2 :: nat) ^ (l - 1) \<le> n" "k \<le> l - 1" by (auto simp: is_len_def)
  then have "(2 :: nat) ^ k \<le> n" using power_increasing [of k "l - 1" "2 :: nat"] by linarith
  then show False using \<open>n < 2 ^ k\<close> by simp
qed

text \<open>Normalising the divisor.\<close>

lemma normalise:
  fixes y :: u64
  assumes "y \<noteq> 0"
  defines "s \<equiv> nat (LeadingZeros64 y)"
  shows "s < 64" "unat (push_bit s y) = 2 ^ s * unat y" "2 ^ 63 \<le> unat (push_bit s y)"
proof -
  have len: "is_len (unat y) (Len64 y)" by (rule Len64_spec)
  have "unat y < 2 ^ 64" using unat_less [of y] by simp
  then have le: "Len64 y \<le> 64" using is_len_bounds [OF len] by blast
  have pos: "0 < Len64 y"
  proof (rule ccontr)
    assume "\<not> 0 < Len64 y"
    then have "unat y < 1" using len by (simp add: is_len_def)
    then show False using assms(1) by (simp add: unat_gt_0 [symmetric])
  qed
  have s: "s = 64 - Len64 y" using le by (simp add: s_def LeadingZeros64_def nat_diff_distrib)
  show "s < 64" using pos le s by simp
  have lo: "2 ^ (Len64 y - 1) \<le> unat y" "unat y < 2 ^ Len64 y" using len pos by (simp_all add: is_len_def)
  have "2 ^ s * unat y < 2 ^ s * 2 ^ Len64 y" using lo(2) by simp
  also have "\<dots> = (2 :: nat) ^ 64" using le s by (simp flip: power_add)
  finally have lt: "2 ^ s * unat y < 2 ^ 64" .
  then show eq: "unat (push_bit s y) = 2 ^ s * unat y" by (intro unat_push_bit) simp
  have "(2 :: nat) ^ 63 = 2 ^ s * 2 ^ (Len64 y - 1)" using le pos s by (simp flip: power_add)
  also have "\<dots> \<le> 2 ^ s * unat y" using lo(1) by simp
  finally show "2 ^ 63 \<le> unat (push_bit s y)" unfolding eq .
qed

lemma shifted_dividend:
  fixes h l y :: u64
  assumes "s < 64" "unat h < unat y" "2 ^ s * unat y < 2 ^ 64"
  defines "u \<equiv> push_bit s h OR drop_bit (64 - s) l" and "z \<equiv> push_bit s l"
  shows "unat u * 2 ^ 64 + unat z = 2 ^ s * (unat h * 2 ^ 64 + unat l)" "unat u < 2 ^ s * unat y"
proof -
  have lt: "unat l < 2 ^ 64" using unat_less [of l] by simp
  have two: "(2 :: nat) ^ 64 = 2 ^ (64 - s) * 2 ^ s" using assms(1) by (simp flip: power_add)
  have d: "unat l div 2 ^ (64 - s) < 2 ^ s"
    using lt unfolding two by (intro less_mult_imp_div_less) (simp only: mult.commute)
  have hs: "2 ^ s * unat h < 2 ^ 64"
  proof -
    have "2 ^ s * unat h \<le> 2 ^ s * unat y" using assms(2) by (intro mult_le_mono) simp_all
    then show ?thesis using assms(3) by linarith
  qed
  then have "unat (push_bit s h) = 2 ^ s * unat h" by (intro unat_push_bit) simp
  moreover have "unat (drop_bit (64 - s) l) < 2 ^ s" using d by (simp add: unat_drop_bit)
  ultimately have u: "unat u = 2 ^ s * unat h + unat l div 2 ^ (64 - s)"
    unfolding u_def by (subst unat_or_add) (simp_all add: unat_drop_bit)
  have z: "unat z = 2 ^ s * (unat l mod 2 ^ (64 - s))"
  proof -
    have "unat z = take_bit LENGTH(64) (push_bit s (unat l))" unfolding z_def by (rule unsigned_push_bit_eq)
    also have "\<dots> = (unat l * 2 ^ s) mod (2 ^ (64 - s) * 2 ^ s)"
      unfolding two [symmetric] by (simp add: take_bit_eq_mod push_bit_eq_mult)
    also have "\<dots> = unat l mod 2 ^ (64 - s) * 2 ^ s" by (rule mod_mult_mult2)
    finally show ?thesis by (simp only: mult.commute)
  qed
  have "2 ^ s * unat l = unat l div 2 ^ (64 - s) * 2 ^ 64 + 2 ^ s * (unat l mod 2 ^ (64 - s))"
    unfolding two by (subst (1) div_mult_mod_eq [of "unat l" "2 ^ (64 - s)", symmetric]) (simp only: algebra_simps)
  then show "unat u * 2 ^ 64 + unat z = 2 ^ s * (unat h * 2 ^ 64 + unat l)"
    unfolding u z by (simp only: algebra_simps)
  have "unat u < 2 ^ s * unat h + 2 ^ s" unfolding u using d by simp
  also have "\<dots> = 2 ^ s * (unat h + 1)" by simp
  also have "\<dots> \<le> 2 ^ s * unat y" using assms(2) by (intro mult_le_mono) simp_all
  finally show "unat u < 2 ^ s * unat y" .
qed

lemma Div64_steps:
  assumes "y \<noteq> 0" "\<not> y \<le> h" "s = nat (LeadingZeros64 y)" "v = push_bit s y"
    "u = push_bit s h OR drop_bit (64 - s) l" "z = push_bit s l"
    "q1 = div_digit (drop_bit 32 v) (v AND mask 32) u (drop_bit 32 z)"
    "u' = u * push_bit 32 1 + drop_bit 32 z - q1 * v"
    "q0 = div_digit (drop_bit 32 v) (v AND mask 32) u' (z AND mask 32)"
  shows "Div64 h l y = Inr (q1 * push_bit 32 1 + q0, drop_bit s (u' * push_bit 32 1 + (z AND mask 32) - q0 * v))"
proof -
  have m: "push_bit 32 1 - 1 = (mask 32 :: u64)" by (simp add: mask_eq_exp_minus_1)
  show ?thesis
    unfolding Div64_def if_not_P [OF assms(1)] if_not_P [OF assms(2)]
    by (simp only: Let_def, simp only: m assms(3) [symmetric], simp only: assms(4-6) [symmetric],
        simp only: assms(7) [symmetric], simp only: assms(8) [symmetric], simp only: assms(9) [symmetric])
qed

lemma scaled_div:
  fixes A B Y V :: nat
  assumes "2 ^ s * A = B" "V = 2 ^ s * Y"
  shows "A div Y = B div V"
  by (simp add: assms(2) flip: assms(1))

lemma scaled_mod:
  fixes A B Y V :: nat
  assumes "2 ^ s * A = B" "V = 2 ^ s * Y"
  shows "2 ^ s * (A mod Y) = B mod V"
  unfolding assms(2) assms(1) [symmetric] by (rule mult_mod_right)

lemma Div64_exact:
  assumes "unat h < unat y"
  shows "\<exists>q r. Div64 h l y = Inr (q, r) \<and> unat q = (unat h * 2 ^ 64 + unat l) div unat y
    \<and> unat r = (unat h * 2 ^ 64 + unat l) mod unat y"
proof -
  let ?b = "2 ^ 32 :: nat"
  define s where "s = nat (LeadingZeros64 y)"
  define v where "v = push_bit s y"
  have y: "y \<noteq> 0" using assms by auto
  note nm = normalise [OF y, folded s_def, folded v_def]
  define u where "u = push_bit s h OR drop_bit (64 - s) l"
  define z where "z = push_bit s l"
  have vl: "2 ^ s * unat y < 2 ^ 64" using unat_less [of v] nm(2) by simp
  note sd = shifted_dividend [OF nm(1) assms vl, of l, folded u_def z_def]
  have uv: "unat u < unat v" using sd(2) nm(2) by simp
  define d1 d0 where "d1 = drop_bit 32 z" and "d0 = z AND mask 32"
  have d: "unat d1 < ?b" "unat d0 < ?b" "unat z = unat d1 * ?b + unat d0"
    unfolding d1_def d0_def by (rule half_less half_less halves_eq)+
  let ?loop = "div_digit (drop_bit 32 v) (v AND mask 32)"
  note st1 = digit_step [OF nm(3) uv d(1)]
  define u' where "u' = u * push_bit 32 1 + d1 - ?loop u d1 * v"
  have u': "unat u' = (unat u * ?b + unat d1) mod unat v" unfolding u'_def by (rule st1(3))
  have vpos: "0 < unat v" using nm(3) by simp
  have uv': "unat u' < unat v" unfolding u' using vpos by simp
  note st0 = digit_step [OF nm(3) uv' d(2)]
  have "\<not> y \<le> h" using assms by (simp add: word_le_nat_alt)
  have "Div64 h l y = Inr (?loop u d1 * push_bit 32 1 + ?loop u' d0,
      drop_bit s (u' * push_bit 32 1 + d0 - ?loop u' d0 * v))"
    unfolding d1_def d0_def
    by (rule Div64_steps [OF y \<open>\<not> y \<le> h\<close> s_def v_def u_def z_def refl u'_def [unfolded d1_def] refl])
  moreover let ?N = "unat u * ?b + unat d1"
  have W: "2 ^ s * (unat h * 2 ^ 64 + unat l) = ?N * ?b + unat d0"
    unfolding sd(1) [symmetric] d(3) by (simp add: algebra_simps)
  have quot: "(unat h * 2 ^ 64 + unat l) div unat y = ?N div unat v * ?b + (unat u' * ?b + unat d0) div unat v"
    by (rule trans [OF scaled_div [OF W nm(2)] two_digits(1) [OF vpos, of ?N ?b "unat d0", folded u']])
  have rem: "2 ^ s * ((unat h * 2 ^ 64 + unat l) mod unat y) = (unat u' * ?b + unat d0) mod unat v"
    by (rule trans [OF scaled_mod [OF W nm(2)] two_digits(2) [OF vpos, of ?N ?b "unat d0", folded u']])
  have "unat (?loop u d1 * push_bit 32 1 + ?loop u' d0) = ?N div unat v * ?b + (unat u' * ?b + unat d0) div unat v"
  proof -
    let ?q1 = "?N div unat v" and ?q0 = "(unat u' * ?b + unat d0) div unat v"
    have "?q1 * ?b \<le> (?b - 1) * ?b" using st1(2) by (intro mult_le_mono) simp_all
    then have b: "?q1 * ?b + ?q0 < 2 ^ 64" using st0(2) by simp
    have "unat (?loop u d1 * push_bit 32 1) = ?q1 * ?b"
      using b st1(1) mul_small [of "?loop u d1" "push_bit 32 1"] by simp
    then show ?thesis using b st0(1) by (subst add_small) simp_all
  qed
  moreover have "unat (drop_bit s (u' * push_bit 32 1 + d0 - ?loop u' d0 * v)) = (unat h * 2 ^ 64 + unat l) mod unat y"
    unfolding unat_drop_bit st0(3) rem [symmetric] by simp
  ultimately show ?thesis unfolding quot by blast
qed

section \<open>What the package promises\<close>

lemma Rem64_exact:
  assumes "y \<noteq> 0"
  shows "\<exists>r. Rem64 h l y = Inr r \<and> unat r = (unat h * 2 ^ 64 + unat l) mod unat y"
proof -
  have "unat (h mod y) < unat y" using assms by (simp add: unat_mod unat_gt_0)
  then obtain q r where d: "Div64 (h mod y) l y = Inr (q, r)"
    and r: "unat r = (unat (h mod y) * 2 ^ 64 + unat l) mod unat y" using Div64_exact by blast
  have "unat r = (unat h * 2 ^ 64 + unat l) mod unat y"
    unfolding r unat_mod by (metis mod_add_left_eq mod_mult_left_eq)
  then show ?thesis using d assms by (simp add: Rem64_def)
qed

lemma quotient_large:
  fixes h y :: "'w::len word"
  assumes "y \<noteq> 0" "\<not> unat h < unat y"
  shows "b \<le> (unat h * b + l) div unat y"
proof -
  have "b * unat y \<le> unat h * b + l" 
    using assms(2) mult_le_mono2 [of "unat y" "unat h" b] by (simp add: mult.commute trans_le_add1)
  then show ?thesis using assms(1) by (simp add: less_eq_div_iff_mult_less_eq unat_gt_0)
qed

lemma wide_word:
  "unat (push_bit 32 (ucast h) OR ucast l :: u64) = unat h * 2 ^ 32 + unat l" for h l :: u32
proof -
  have lt: "unat h < 2 ^ 32" "unat l < 2 ^ 32" using unat_less [of h] unat_less [of l] by simp_all
  have "unat (push_bit 32 (ucast h) :: u64) = 2 ^ 32 * unat h"
    using lt by (simp add: unat_push_bit unat_ucast)
  then show ?thesis using lt by (subst unat_or_add [of _ 32 _ "unat h"]) (simp_all add: unat_ucast)
qed

lemma Div32_exact:
  assumes "unat h < unat y"
  shows "\<exists>q r. Div32 h l y = Inr (q, r) \<and> unat q = (unat h * 2 ^ 32 + unat l) div unat y
    \<and> unat r = (unat h * 2 ^ 32 + unat l) mod unat y"
proof -
  let ?n = "unat h * 2 ^ 32 + unat l"
  have pos: "0 < unat y" and y: "unat y < 2 ^ 32" and l: "unat l < 2 ^ 32"
    using assms unat_less [of y] unat_less [of l] by simp_all
  have "?n < unat y * 2 ^ 32" using assms l by simp
  then have q: "?n div unat y < 2 ^ 32" using pos by (simp add: div_less_iff_less_mult mult.commute)
  have r: "?n mod unat y < 2 ^ 32" using y pos mod_less_divisor [of "unat y" ?n] by linarith
  have "\<not> y \<le> h" "y \<noteq> 0" using assms by (auto simp: word_le_nat_alt)
  moreover have "unat (ucast y :: u64) = unat y" using y by (simp add: unat_ucast)
  ultimately show ?thesis using q r
    by (simp add: Div32_def Let_def unat_ucast unat_div unat_mod wide_word)
qed

text \<open>Counting bits. At every width \<open>OnesCount\<close> is the number of the bits set, \<open>TrailingZeros\<close> the exponent of the
  largest power of two that divides a non-zero word (its width for zero), and \<open>Len\<close> the least number of bits that hold the
  word: the masks, de Bruijn multiplications and 256-entry tables of the code compute them.\<close>
theorem bits_count:
  "OnesCount8 a = card {i. bit a i} \<and> OnesCount16 b = card {i. bit b i}
    \<and> OnesCount32 c = card {i. bit c i} \<and> OnesCount64 d = card {i. bit d i}
    \<and> (if a = 0 then TrailingZeros8 a = 8 else is_ntz (unat a) (TrailingZeros8 a))
    \<and> (if b = 0 then TrailingZeros16 b = 16 else is_ntz (unat b) (TrailingZeros16 b))
    \<and> (if c = 0 then TrailingZeros32 c = 32 else is_ntz (unat c) (TrailingZeros32 c))
    \<and> (if d = 0 then TrailingZeros64 d = 64 else is_ntz (unat d) (TrailingZeros64 d))
    \<and> is_len (unat a) (Len8 a) \<and> is_len (unat b) (Len16 b) \<and> is_len (unat c) (Len32 c) \<and> is_len (unat d) (Len64 d)"
  by (intro conjI OnesCount8_spec OnesCount16_spec OnesCount32_spec OnesCount64_spec TrailingZeros8_spec
      TrailingZeros16_spec TrailingZeros32_spec TrailingZeros64_spec Len8_spec Len16_spec Len32_spec Len64_spec)

text \<open>Moving bits. \<open>Reverse\<close> sends bit \<open>i\<close> to the mirrored place, \<open>ReverseBytes\<close> mirrors the bytes and keeps the order inside
  each, and \<open>RotateLeft\<close> moves the bits by \<open>k\<close> modulo the width, for every \<open>int\<close> \<open>k\<close>, the negative ones (which rotate to
  the right) included.\<close>
theorem bits_move:
  assumes "i < 64" "j < 32"
  shows "bit (Reverse64 x) i = bit x (63 - i) \<and> bit (Reverse32 y) j = bit y (31 - j)
    \<and> bit (ReverseBytes64 x) i = bit x (8 * (7 - i div 8) + i mod 8)
    \<and> bit (ReverseBytes32 y) j = bit y (8 * (3 - j div 8) + j mod 8)
    \<and> bit (RotateLeft64 x k) i = bit x (nat ((int i - k) mod 64))
    \<and> bit (RotateLeft32 y k) j = bit y (nat ((int j - k) mod 32))"
  using assms by (intro conjI Reverse64_spec Reverse32_spec ReverseBytes64_spec ReverseBytes32_spec Rotate_spec)

theorem bits_move_witness:
  "(63 :: nat) < 64 \<and> (2 :: nat) < 32 \<and> bit (Reverse64 1) 63 \<and> bit (RotateLeft32 1 2) 2 \<and> bit (ReverseBytes32 0x04000000) 2"
  using bits_move [of 63 2 1 "0x04000000" 0] bits_move [of 63 2 1 1 2] by (simp add: bit_numeral_word_iff)

text \<open>Multi-word arithmetic. With a carry of 0 or 1, \<open>Add64\<close> and \<open>Sub64\<close> return the sum and the difference of the
  mathematical integers as a word and a carry (borrow) that is again 0 or 1, so that they chain; \<open>Mul64\<close> returns all
  128 bits of the product, which no intermediate sum of its 32-bit halves overflows.\<close>
theorem bits_wide_arith:
  assumes "unat carry \<le> 1" "Add64 x y carry = (s, co)" "Sub64 x y carry = (d, bo)" "Mul64 x y = (h, l)"
  shows "unat s + 2 ^ 64 * unat co = unat x + unat y + unat carry \<and> unat co \<le> 1
    \<and> int (unat d) - 2 ^ 64 * int (unat bo) = int (unat x) - int (unat y) - int (unat carry) \<and> unat bo \<le> 1
    \<and> unat h * 2 ^ 64 + unat l = unat x * unat y"
  using Add64_spec [OF assms(1,2)] Sub64_spec [OF assms(1,3)] Mul64_spec [OF assms(4)] by blast

theorem bits_wide_arith_witness:
  "unat (1 :: u64) \<le> 1 \<and> Add64 (- 1) 2 1 = (2, 1) \<and> Sub64 (- 1) 2 1 = (- 4, 0) \<and> Mul64 (- 1) 2 = (1, - 2)
    \<and> unat (1 :: u64) * 2 ^ 64 + unat (- 2 :: u64) = unat (- 1 :: u64) * unat (2 :: u64)"
proof -
  have e: "Add64 (- 1) 2 1 = (2, 1)" "Sub64 (- 1) 2 1 = (- 4, 0)" "Mul64 (- 1) 2 = (1, - 2)" by code_simp+
  then show ?thesis using bits_wide_arith [OF _ e] by simp
qed

text \<open>C37: long division. \<open>Div64\<close> divides the 128-bit number of its first two arguments. It panics with a division error
  just for a zero divisor, with an overflow error just when the quotient needs more than 64 bits; otherwise quotient and
  remainder are exact. \<open>Rem64\<close> gives the remainder of
  every division by a non-zero word; \<open>Div32\<close> is the same division at half the width. For a divisor with its highest bit set, as
  \<open>Div64\<close> makes it, the first estimate of a 32-bit digit is at most two above the digit, to which the loop takes it down
  one by one.\<close>
theorem bits_div:
  "(case Div64 h l y of
      Inl divideError \<Rightarrow> y = 0
    | Inl overflowError \<Rightarrow> y \<noteq> 0 \<and> 2 ^ 64 \<le> (unat h * 2 ^ 64 + unat l) div unat y
    | Inr (q, r) \<Rightarrow> y \<noteq> 0 \<and> unat q = (unat h * 2 ^ 64 + unat l) div unat y \<and> unat r = (unat h * 2 ^ 64 + unat l) mod unat y)
   \<and> (case Rem64 h l y of Inl e \<Rightarrow> e = divideError \<and> y = 0 | Inr r \<Rightarrow> y \<noteq> 0 \<and> unat r = (unat h * 2 ^ 64 + unat l) mod unat y)
   \<and> (case Div32 h' l' y' of
      Inl divideError \<Rightarrow> y' = 0
    | Inl overflowError \<Rightarrow> y' \<noteq> 0 \<and> 2 ^ 32 \<le> (unat h' * 2 ^ 32 + unat l') div unat y'
    | Inr (q, r) \<Rightarrow> y' \<noteq> 0 \<and> unat q = (unat h' * 2 ^ 32 + unat l') div unat y' \<and> unat r = (unat h' * 2 ^ 32 + unat l') mod unat y')
   \<and> (2 ^ 63 \<le> unat v \<and> unat u < unat v \<and> unat d < 2 ^ 32 \<longrightarrow>
      (let q = div_digit (drop_bit 32 v) (v AND mask 32) u d; estimate = u div drop_bit 32 v
       in unat q \<le> unat estimate \<and> unat estimate \<le> unat q + 2))"
proof (intro conjI)
  show "2 ^ 63 \<le> unat v \<and> unat u < unat v \<and> unat d < 2 ^ 32 \<longrightarrow>
      (let q = div_digit (drop_bit 32 v) (v AND mask 32) u d; estimate = u div drop_bit 32 v
       in unat q \<le> unat estimate \<and> unat estimate \<le> unat q + 2)"
    using digit_step(4) [of v u d] by (simp add: Let_def)
  show "case Rem64 h l y of Inl e \<Rightarrow> e = divideError \<and> y = 0
    | Inr r \<Rightarrow> y \<noteq> 0 \<and> unat r = (unat h * 2 ^ 64 + unat l) mod unat y"
    using Rem64_exact [of y h l] by (cases "y = 0") (auto simp: Rem64_def)
  show "case Div64 h l y of Inl divideError \<Rightarrow> y = 0
    | Inl overflowError \<Rightarrow> y \<noteq> 0 \<and> 2 ^ 64 \<le> (unat h * 2 ^ 64 + unat l) div unat y
    | Inr (q, r) \<Rightarrow> y \<noteq> 0 \<and> unat q = (unat h * 2 ^ 64 + unat l) div unat y \<and> unat r = (unat h * 2 ^ 64 + unat l) mod unat y"
  proof (cases "unat h < unat y")
    case True
    then show ?thesis using Div64_exact [OF True, of l] by auto
  next
    case False
    then have "y \<noteq> 0 \<Longrightarrow> Div64 h l y = Inl overflowError" by (simp add: Div64_def word_le_nat_alt)
    then show ?thesis using quotient_large [OF _ False] by (cases "y = 0") (auto simp: Div64_def)
  qed
  show "case Div32 h' l' y' of Inl divideError \<Rightarrow> y' = 0
    | Inl overflowError \<Rightarrow> y' \<noteq> 0 \<and> 2 ^ 32 \<le> (unat h' * 2 ^ 32 + unat l') div unat y'
    | Inr (q, r) \<Rightarrow> y' \<noteq> 0 \<and> unat q = (unat h' * 2 ^ 32 + unat l') div unat y' \<and> unat r = (unat h' * 2 ^ 32 + unat l') mod unat y'"
  proof (cases "unat h' < unat y'")
    case True
    then show ?thesis using Div32_exact [OF True, of l'] by auto
  next
    case False
    then have "y' \<noteq> 0 \<Longrightarrow> Div32 h' l' y' = Inl overflowError" by (simp add: Div32_def word_le_nat_alt)
    then show ?thesis using quotient_large [OF _ False] by (cases "y' = 0") (auto simp: Div32_def)
  qed
qed

theorem bits_div_witness:
  "Div64 1 0 3 = Inr (6148914691236517205, 1) \<and> unat (6148914691236517205 :: u64) = 2 ^ 64 div 3
    \<and> unat (5 div drop_bit 32 0xC000000000000000 :: u64)
        \<le> unat (div_digit (drop_bit 32 0xC000000000000000) (0xC000000000000000 AND mask 32) 5 7) + 2"
proof -
  have e: "Div64 1 0 3 = Inr (6148914691236517205, 1)" by code_simp
  show ?thesis
    using bits_div [of 1 0 3 1 0 3 "0xC000000000000000" 5 7] e by (simp add: Let_def)
qed

end
