(* ===== verification/StrconvFormat.thy ===== *)
theory StrconvFormat
  imports GoWords MathBits
begin

text \<open>
  Formatting integers: \<open>strconv/itoa.go\<close>. A string is the list of its bytes. \<open>formatBits\<close> fills an array of
  65 bytes from the right; the state of its loops is the array and the index \<open>i\<close> of the last byte written.
  Every access out of range is a panic, the value \<open>None\<close> of the loops, and each loop writes before it repeats, so
  that it ends. The width of \<open>uint\<close> is a parameter: \<open>h\<close> is the code's \<open>host32bit\<close>.

  The reference is \<open>numeral_of b n\<close>, the digits of \<open>n\<close> in base \<open>b\<close>; the two-digit table of the decimal case, the
  chunks of nine digits of 32-bit machines and the shifts of the powers of two all compute it.
\<close>

definition bytes :: "string \<Rightarrow> u8 list" where
  "bytes s = map of_char s"

definition digits :: "u8 list" where
  "digits = bytes ''0123456789abcdefghijklmnopqrstuvwxyz''"

definition smallsString :: "u8 list" where
  "smallsString = bytes (
     ''00010203040506070809'' @
     ''10111213141516171819'' @
     ''20212223242526272829'' @
     ''30313233343536373839'' @
     ''40414243444546474849'' @
     ''50515253545556575859'' @
     ''60616263646566676869'' @
     ''70717273747576777879'' @
     ''80818283848586878889'' @
     ''90919293949596979899'')"

definition fastSmalls :: bool where "fastSmalls = True"
definition nSmalls :: u64 where "nSmalls = 100"

datatype format_panic = illegalBase | indexOutOfRange

section \<open>The code\<close>

text \<open>A conversion to \<open>uint\<close>.\<close>

definition to_uint :: "bool \<Rightarrow> u64 \<Rightarrow> u64" where
  "to_uint h x = (if h then take_bit 32 x else x)"

text \<open>\<open>i--\<close> and \<open>a[i] = s[k]\<close>; and \<open>i -= 2\<close> with two bytes of the table written.\<close>

type_synonym digit_buf = "u8 list \<times> nat"

definition put :: "u8 list \<Rightarrow> nat \<Rightarrow> digit_buf \<Rightarrow> digit_buf option" where
  "put s k = (\<lambda>(a, i).
     if k < length s \<and> 0 < i \<and> i \<le> length a then Some (a[i - 1 := s ! k], i - 1) else None)"

definition put2 :: "nat \<Rightarrow> digit_buf \<Rightarrow> digit_buf option" where
  "put2 is = (\<lambda>(a, i).
     if is + 1 < length smallsString \<and> 2 \<le> i \<and> i \<le> length a
     then Some (a[i - 2 + 1 := smallsString ! (is + 1), i - 2 := smallsString ! is], i - 2) else None)"

definition isPowerOfTwo :: "int \<Rightarrow> bool" where
  "isPowerOfTwo x \<longleftrightarrow> x AND (x - 1) = 0"

definition small :: "nat \<Rightarrow> u8 list" where
  "small i = (if i < 10 then take 1 (drop i digits) else take 2 (drop (i * 2) smallsString))"

lemma put_less [termination_simp]: "put s k st = Some st' \<Longrightarrow> snd st' < snd st"
  by (auto simp: put_def split: prod.splits if_splits)

lemma put2_less [termination_simp]: "put2 k st = Some st' \<Longrightarrow> snd st' < snd st"
  by (auto simp: put2_def split: prod.splits if_splits)

text \<open>The loop over the four pairs of a chunk: \<open>for j := 4; j > 0; j--\<close>.\<close>

fun chunk_loop :: "nat \<Rightarrow> u64 \<Rightarrow> digit_buf \<Rightarrow> (u64 \<times> digit_buf) option" where
  "chunk_loop 0 us st = Some (us, st)"
| "chunk_loop (Suc j) us st =
     (let is = unat (us mod 100 * 2); us = us div 100 in
      case put2 is st of None \<Rightarrow> None | Some st \<Rightarrow> chunk_loop j us st)"

lemma chunk_less: "chunk_loop j us st = Some (us', st') \<Longrightarrow> snd st' \<le> snd st"
proof (induction j us st rule: chunk_loop.induct)
  case (2 j us st)
  then obtain st1 where "put2 (unat (us mod 100 * 2)) st = Some st1" "chunk_loop j (us div 100) st1 = Some (us', st')"
    by (auto simp: Let_def split: option.splits)
  then show ?case using 2(1) [OF refl refl] put2_less by fastforce
qed simp

text \<open>The chunks of nine digits on a 32-bit machine: \<open>for u >= 1e9\<close>.\<close>

function host32_loop :: "bool \<Rightarrow> u64 \<Rightarrow> digit_buf \<Rightarrow> (u64 \<times> digit_buf) option" where
  "host32_loop h u st =
     (if u \<ge> 1000000000 then
        let q = u div 1000000000; us = to_uint h (u - q * 1000000000) in
        case chunk_loop 4 us st of
          None \<Rightarrow> None
        | Some (us, st) \<Rightarrow>
            (case put smallsString (unat (us * 2 + 1)) st of
               None \<Rightarrow> None
             | Some st \<Rightarrow> host32_loop h q st)
      else Some (u, st))"
  by pat_completeness auto
termination
  by (relation "measure (\<lambda>(h, u, st). snd st)") (auto dest!: put_less chunk_less)

text \<open>\<open>for us >= 100\<close>, two digits at a time.\<close>

function pairs_loop :: "u64 \<Rightarrow> digit_buf \<Rightarrow> (u64 \<times> digit_buf) option" where
  "pairs_loop us st =
     (if us \<ge> 100 then
        let is = unat (us mod 100 * 2); us = us div 100 in
        case put2 is st of None \<Rightarrow> None | Some st \<Rightarrow> pairs_loop us st
      else Some (us, st))"
  by pat_completeness auto
termination
  by (relation "measure (\<lambda>(us, st). snd st)") (auto dest!: put2_less)

definition decimal :: "bool \<Rightarrow> u64 \<Rightarrow> digit_buf \<Rightarrow> digit_buf option" where
  "decimal h u st =
     (case (if h then host32_loop h u st else Some (u, st)) of
        None \<Rightarrow> None
      | Some (u, st) \<Rightarrow>
          (case pairs_loop (to_uint h u) st of
             None \<Rightarrow> None
           | Some (us, st) \<Rightarrow>
               let is = unat (us * 2) in
               (case put smallsString (is + 1) st of
                  None \<Rightarrow> None
                | Some st \<Rightarrow> if us \<ge> 10 then put smallsString is st else Some st)))"

text \<open>A base that is a power of two: shifts and masks.\<close>

function shift_loop :: "bool \<Rightarrow> u64 \<Rightarrow> nat \<Rightarrow> u64 \<Rightarrow> u64 \<Rightarrow> digit_buf \<Rightarrow> (u64 \<times> digit_buf) option" where
  "shift_loop h b shift m u st =
     (if u \<ge> b then
        case put digits (unat (to_uint h u AND m)) st of
          None \<Rightarrow> None
        | Some st \<Rightarrow> shift_loop h b shift m (drop_bit shift u) st
      else Some (u, st))"
  by pat_completeness auto
termination
  by (relation "measure (\<lambda>(h, b, shift, m, u, st). snd st)") (auto dest!: put_less)

text \<open>The general case.\<close>

function div_base_loop :: "bool \<Rightarrow> u64 \<Rightarrow> u64 \<Rightarrow> digit_buf \<Rightarrow> (u64 \<times> digit_buf) option" where
  "div_base_loop h b u st =
     (if u \<ge> b then
        let q = u div b in
        case put digits (unat (to_uint h (u - q * b))) st of
          None \<Rightarrow> None
        | Some st \<Rightarrow> div_base_loop h b q st
      else Some (u, st))"
  by pat_completeness auto
termination
  by (relation "measure (\<lambda>(h, b, u, st). snd st)") (auto dest!: put_less)

definition last_digit :: "bool \<Rightarrow> (u64 \<times> digit_buf) option \<Rightarrow> digit_buf option" where
  "last_digit h r = (case r of None \<Rightarrow> None | Some (u, st) \<Rightarrow> put digits (unat (to_uint h u)) st)"

definition convert :: "bool \<Rightarrow> u64 \<Rightarrow> int \<Rightarrow> digit_buf \<Rightarrow> digit_buf option" where
  "convert h u base st =
     (if base = 10 then decimal h u st
      else if isPowerOfTwo base then
        let shift = TrailingZeros h (of_int base) AND 7;
            b = of_int base;
            m = to_uint h (of_int base) - 1
        in last_digit h (shift_loop h b shift m u st)
      else last_digit h (div_base_loop h (of_int base) u st))"

definition formatBits ::
  "bool \<Rightarrow> u8 list \<Rightarrow> u64 \<Rightarrow> int \<Rightarrow> bool \<Rightarrow> bool \<Rightarrow> format_panic + u8 list \<times> u8 list" where
  "formatBits h dst u base neg app =
     (if base < 2 \<or> base > int (length digits) then Inl illegalBase
      else
        let a = replicate (64 + 1) 0; i = length a;
            u = (if neg then - u else u)
        in case convert h u base (a, i) of
             None \<Rightarrow> Inl indexOutOfRange
           | Some st \<Rightarrow>
               (case (if neg then put (bytes ''-'') 0 st else Some st) of
                  None \<Rightarrow> Inl indexOutOfRange
                | Some (a, i) \<Rightarrow>
                    if app then Inr (dst @ drop i a, []) else Inr ([], drop i a)))"

definition FormatUint :: "bool \<Rightarrow> u64 \<Rightarrow> int \<Rightarrow> format_panic + u8 list" where
  "FormatUint h i base =
     (if fastSmalls \<and> i < nSmalls \<and> base = 10 then Inr (small (unat i))
      else map_sum id snd (formatBits h [] i base False False))"

definition FormatInt :: "bool \<Rightarrow> u64 \<Rightarrow> int \<Rightarrow> format_panic + u8 list" where
  "FormatInt h i base =
     (if fastSmalls \<and> 0 \<le>s i \<and> i <s nSmalls \<and> base = 10 then Inr (small (unat i))
      else map_sum id snd (formatBits h [] i base (i <s 0) False))"

definition Itoa :: "bool \<Rightarrow> int \<Rightarrow> format_panic + u8 list" where
  "Itoa h i = FormatInt h (of_int i) 10"

definition AppendInt :: "bool \<Rightarrow> u8 list \<Rightarrow> u64 \<Rightarrow> int \<Rightarrow> format_panic + u8 list" where
  "AppendInt h dst i base =
     (if fastSmalls \<and> 0 \<le>s i \<and> i <s nSmalls \<and> base = 10 then Inr (dst @ small (unat i))
      else map_sum id fst (formatBits h dst i base (i <s 0) True))"

definition AppendUint :: "bool \<Rightarrow> u8 list \<Rightarrow> u64 \<Rightarrow> int \<Rightarrow> format_panic + u8 list" where
  "AppendUint h dst i base =
     (if fastSmalls \<and> i < nSmalls \<and> base = 10 then Inr (dst @ small (unat i))
      else map_sum id fst (formatBits h dst i base False True))"

lemmas format_loops [simp del] = host32_loop.simps pairs_loop.simps shift_loop.simps div_base_loop.simps

section \<open>The reference\<close>

definition digit_char :: "nat \<Rightarrow> u8" where
  "digit_char k = (if k < 10 then 48 + of_nat k else 87 + of_nat k)"

fun numeral_of :: "nat \<Rightarrow> nat \<Rightarrow> u8 list" where
  "numeral_of b n = (if n < b \<or> b < 2 then [digit_char n] else numeral_of b (n div b) @ [digit_char (n mod b)])"

declare numeral_of.simps [simp del]

text \<open>The last \<open>k\<close> decimal digits of \<open>n\<close>, with leading zeros.\<close>

fun pad :: "nat \<Rightarrow> nat \<Rightarrow> u8 list" where
  "pad 0 n = []"
| "pad (Suc k) n = pad k (n div 10) @ [digit_char (n mod 10)]"

lemma numeral_small: "n < b \<Longrightarrow> numeral_of b n = [digit_char n]"
  by (simp add: numeral_of.simps)

lemma numeral_step: "2 \<le> b \<Longrightarrow> b \<le> n \<Longrightarrow> numeral_of b n = numeral_of b (n div b) @ [digit_char (n mod b)]"
  by (subst numeral_of.simps) simp

lemma numeral_pad: "10 ^ k \<le> n \<Longrightarrow> numeral_of 10 n = numeral_of 10 (n div 10 ^ k) @ pad k n"
proof (induction k arbitrary: n)
  case (Suc k)
  have "(1 :: nat) \<le> 10 ^ k" by simp
  then have "10 \<le> n" using Suc.prems unfolding power_Suc by linarith
  moreover have "10 ^ k \<le> n div 10" using Suc.prems by (simp add: less_eq_div_iff_mult_less_eq mult.commute)
  ultimately show ?case using Suc.IH [of "n div 10"] by (simp add: numeral_step [of 10 n] div_mult2_eq)
qed simp

lemma pad_append: "pad (j + k) n = pad j (n div 10 ^ k) @ pad k n"
  by (induction k arbitrary: n) (simp_all add: div_mult2_eq)

lemma length_pad [simp]: "length (pad k n) = k"
  by (induction k arbitrary: n) simp_all

lemma length_numeral:
  assumes "2 \<le> b"
  shows "n < 2 ^ Suc k \<Longrightarrow> length (numeral_of b n) \<le> Suc k"
proof (induction k arbitrary: n)
  case 0
  then show ?case using assms by (simp add: numeral_small)
next
  case (Suc k)
  show ?case
  proof (cases "n < b")
    case False
    have "n div b \<le> n div 2" using assms by (intro div_le_mono2) simp_all
    also have "n div 2 < 2 ^ Suc k" using Suc.prems by (simp add: div_less_iff_less_mult mult.commute)
    finally show ?thesis using Suc.IH False assms by (simp add: numeral_step)
  qed (simp add: numeral_small)
qed

section \<open>The tables\<close>

lemma digits_map: "digits = map digit_char [0..<36]"
  by code_simp

lemma digits_nth: "k < 36 \<Longrightarrow> digits ! k = digit_char k" and length_digits [simp]: "length digits = 36"
  by (simp_all add: digits_map)

fun twos :: "nat list \<Rightarrow> u8 list" where
  "twos [] = []"
| "twos (n # ns) = digit_char (n div 10) # digit_char (n mod 10) # twos ns"

lemma twos_nth: "i < length ns \<Longrightarrow> twos ns ! (2 * i) = digit_char ((ns ! i) div 10)
    \<and> twos ns ! Suc (2 * i) = digit_char ((ns ! i) mod 10)"
proof (induction ns arbitrary: i)
  case (Cons n ns)
  then show ?case by (cases i) simp_all
qed simp

lemma smallsString_twos: "smallsString = twos [0..<100]"
  by code_simp

lemma length_twos: "length (twos ns) = 2 * length ns"
  by (induction ns) simp_all

lemma smalls_nth:
  "length smallsString = 200"
  "i < 100 \<Longrightarrow> smallsString ! (2 * i) = digit_char (i div 10)"
  "i < 100 \<Longrightarrow> smallsString ! Suc (2 * i) = digit_char (i mod 10)"
  using twos_nth [of i "[0..<100]"] by (simp_all add: smallsString_twos length_twos)

section \<open>Writing from the right\<close>

text \<open>\<open>ext st st' xs\<close>: from \<open>st\<close> to \<open>st'\<close> the bytes \<open>xs\<close> were put in front.\<close>

definition room :: "nat \<Rightarrow> digit_buf \<Rightarrow> bool" where
  "room n = (\<lambda>(a, i). n \<le> i \<and> i \<le> length a)"

definition ext :: "digit_buf \<Rightarrow> digit_buf \<Rightarrow> u8 list \<Rightarrow> bool" where
  "ext = (\<lambda>(a, i) (a', i') xs. i = i' + length xs \<and> length a' = length a \<and> drop i' a' = xs @ drop i a)"

lemma ext_refl [simp]: "ext st st []"
  by (simp add: ext_def split: prod.splits)

lemma ext_trans [trans]: "ext st st1 ys \<Longrightarrow> ext st1 st2 xs \<Longrightarrow> ext st st2 (xs @ ys)"
  by (auto simp: ext_def split: prod.splits)

lemma ext_room: "ext st st' xs \<Longrightarrow> room (n + length xs) st \<Longrightarrow> room n st'"
  by (auto simp: ext_def room_def split: prod.splits)

lemma put_ext:
  assumes "room (Suc n) st" "k < length s"
  obtains st' where "put s k st = Some st'" "ext st st' [s ! k]" "room n st'"
proof -
  obtain a i where st: "st = (a, i)" by (cases st)
  with assms have i: "0 < i" "i \<le> length a" "n \<le> i - 1" by (auto simp: room_def)
  then have "drop (i - 1) (a[i - 1 := s ! k]) = s ! k # drop i a"
    by (subst Cons_nth_drop_Suc [symmetric]) (simp_all add: drop_update_cancel)
  then show ?thesis using that [of "(a[i - 1 := s ! k], i - 1)"] i assms(2)
    by (simp add: st put_def ext_def room_def)
qed

lemma pad_2: "u < 100 \<Longrightarrow> pad 2 u = [digit_char (u div 10), digit_char (u mod 10)]"
  by (simp add: numeral_2_eq_2)

lemma put2_ext:
  assumes "room (Suc (Suc n)) st" "u < 100"
  obtains st' where "put2 (2 * u) st = Some st'" "ext st st' (pad 2 u)" "room n st'"
proof -
  obtain a i where st: "st = (a, i)" by (cases st)
  with assms have i: "2 \<le> i" "i \<le> length a" "n \<le> i - 2" by (auto simp: room_def)
  let ?a = "a[i - 2 + 1 := smallsString ! (2 * u + 1), i - 2 := smallsString ! (2 * u)]"
  have s: "Suc (i - 2) = i - 1" "Suc (i - 1) = i" using i by simp_all
  have "drop (i - 2) ?a = smallsString ! (2 * u) # smallsString ! (2 * u + 1) # drop i a"
    using i by (subst Cons_nth_drop_Suc [symmetric], simp, subst Cons_nth_drop_Suc [symmetric])
      (simp_all add: s drop_update_cancel)
  then have "drop (i - 2) ?a = pad 2 u @ drop i a"
    using assms(2) smalls_nth(2,3) [of u] by (simp add: pad_2)
  then show ?thesis using that [of "(?a, i - 2)"] i assms(2)
    by (simp add: st put2_def ext_def room_def smalls_nth)
qed

section \<open>The loops\<close>

lemma pad_mod: "pad k (n mod 10 ^ k) = pad k n"
proof (induction k arbitrary: n)
  case (Suc k)
  have "n mod (10 * 10 ^ k) = 10 * (n div 10 mod 10 ^ k) + n mod 10" by (rule mod_mult2_eq)
  then show ?case using Suc.IH [of "n div 10"] by simp
qed simp

lemma two_less [simp]: "unat (us mod 100 * 2) = 2 * (unat us mod 100)" for us :: u64
proof -
  have "unat us mod 100 < 100" by simp
  then have "unat us mod 100 * 2 < 18446744073709551616" by linarith
  then show ?thesis using unat_mult_lem [of "us mod 100" 2] by (simp add: unat_mod)
qed

lemma pairs_loop_spec:
  "room (length (numeral_of 10 (unat us)) + m) st \<Longrightarrow>
   \<exists>us' st' xs. pairs_loop us st = Some (us', st') \<and> unat us' < 100 \<and> ext st st' xs
     \<and> numeral_of 10 (unat us) = numeral_of 10 (unat us') @ xs"
proof (induction us st rule: pairs_loop.induct)
  case (1 us st)
  show ?case
  proof (cases "us \<ge> 100")
    case True
    then have le: "10 ^ 2 \<le> unat us" by (simp add: word_le_nat_alt)
    then have n: "numeral_of 10 (unat us) = numeral_of 10 (unat us div 100) @ pad 2 (unat us mod 100)"
      using numeral_pad [OF le] pad_mod [of 2 "unat us"] by simp
    then have r: "room (Suc (Suc (length (numeral_of 10 (unat us div 100)) + m))) st" using "1.prems" by simp
    obtain st1 where st1: "put2 (2 * (unat us mod 100)) st = Some st1" "ext st st1 (pad 2 (unat us mod 100))"
      "room (length (numeral_of 10 (unat us div 100)) + m) st1"
      by (rule put2_ext [OF r, of "unat us mod 100"]) simp_all
    obtain us' st' xs where IH: "pairs_loop (us div 100) st1 = Some (us', st')" "unat us' < 100" "ext st1 st' xs"
      "numeral_of 10 (unat (us div 100)) = numeral_of 10 (unat us') @ xs"
      using "1.IH" [OF True refl refl, of st1] st1 by (auto simp: unat_div)
    then show ?thesis using True st1 n ext_trans [OF st1(2) IH(3)]
      by (subst pairs_loop.simps) (simp add: unat_div)
  next
    case False
    then show ?thesis by (subst pairs_loop.simps) (simp add: word_le_nat_alt)
  qed
qed

lemma decimal_end:
  fixes us :: u64
  assumes "unat us < 100" "room (length (numeral_of 10 (unat us)) + m) st"
  shows "\<exists>st'. (let is = unat (us * 2) in
      case put smallsString (is + 1) st of None \<Rightarrow> None
      | Some st \<Rightarrow> if us \<ge> 10 then put smallsString is st else Some st) = Some st'
    \<and> ext st st' (numeral_of 10 (unat us))"
proof -
  let ?u = "unat us"
  have u2: "unat (us * 2) = 2 * ?u" using assms(1) unat_mult_lem [of us 2] by simp
  have r: "room (Suc (length (numeral_of 10 ?u) - 1 + m)) st"
    using assms(2) by (cases "numeral_of 10 ?u") (simp_all add: room_def numeral_of.simps split: if_splits prod.splits)
  obtain st1 where st1: "put smallsString (2 * ?u + 1) st = Some st1" "ext st st1 [digit_char (?u mod 10)]"
    "room (length (numeral_of 10 ?u) - 1 + m) st1"
    by (rule put_ext [OF r, of "2 * ?u + 1" smallsString]) (use assms(1) smalls_nth(1) smalls_nth(3) [of ?u] in simp_all)
  show ?thesis
  proof (cases "us \<ge> 10")
    case True
    then have n: "numeral_of 10 ?u = [digit_char (?u div 10), digit_char (?u mod 10)]"
      using assms(1) by (simp add: numeral_step numeral_small word_le_nat_alt)
    obtain st2 where st2: "put smallsString (2 * ?u) st1 = Some st2" "ext st1 st2 [digit_char (?u div 10)]"
      by (rule put_ext [of m st1 "2 * ?u" smallsString]) (use assms(1) st1(3) n smalls_nth(1) smalls_nth(2) [of ?u] in simp_all)
    show ?thesis using True st1(1) st2(1) ext_trans [OF st1(2) st2(2)] n u2 by simp
  next
    case False
    then have "?u < 10" by (simp add: word_le_nat_alt)
    then show ?thesis using False st1(1,2) u2 by (simp add: numeral_small)
  qed
qed

lemma chunk_loop_spec:
  "room (2 * j + m) st \<Longrightarrow>
   \<exists>us' st'. chunk_loop j us st = Some (us', st') \<and> unat us' = unat us div 100 ^ j
     \<and> ext st st' (pad (2 * j) (unat us)) \<and> room m st'"
proof (induction j us st rule: chunk_loop.induct)
  case (2 j us st)
  have r: "room (Suc (Suc (2 * j + m))) st" using "2.prems" by simp
  obtain st1 where st1: "put2 (2 * (unat us mod 100)) st = Some st1" "ext st st1 (pad 2 (unat us mod 100))"
    "room (2 * j + m) st1"
    by (rule put2_ext [OF r, of "unat us mod 100"]) simp_all
  obtain us' st' where IH: "chunk_loop j (us div 100) st1 = Some (us', st')" "unat us' = unat us div 100 div 100 ^ j"
    "ext st1 st' (pad (2 * j) (unat us div 100))" "room m st'"
    using "2.IH" [OF refl refl, of st1] st1 by (auto simp: unat_div)
  have "pad (2 * Suc j) (unat us) = pad (2 * j) (unat us div 100) @ pad 2 (unat us)"
    using pad_append [of "2 * j" 2 "unat us"] by (simp del: pad.simps)
  then have "ext st st' (pad (2 * Suc j) (unat us))"
    using ext_trans [OF st1(2) IH(3)] pad_mod [of 2 "unat us"] by (simp del: pad.simps)
  then show ?case using st1(1) IH by (simp add: div_mult2_eq)
qed simp

lemma to_uint_small: "unat u < 2 ^ 32 \<Longrightarrow> to_uint h u = u"
  by (simp add: to_uint_def word_unat_eq_iff unat_take_bit)

lemma unat_rest: "unat (u - u div b * b) = unat u mod unat b" for u b :: u64
  by (simp add: minus_div_mult_eq_mod unat_mod)

lemma host32_loop_spec:
  "room (length (numeral_of 10 (unat u)) + m) st \<Longrightarrow> h \<Longrightarrow>
   \<exists>u' st' xs. host32_loop h u st = Some (u', st') \<and> unat u' < 10 ^ 9 \<and> ext st st' xs
     \<and> numeral_of 10 (unat u) = numeral_of 10 (unat u') @ xs"
proof (induction h u st rule: host32_loop.induct)
  case (1 h u st)
  show ?case
  proof (cases "u \<ge> 1000000000")
    case True
    let ?q = "u div 1000000000"
    let ?r = "unat u mod 10 ^ 9"
    have le: "10 ^ 9 \<le> unat u" using True by (simp add: word_le_nat_alt)
    have q: "unat ?q = unat u div 10 ^ 9" by (simp add: unat_div)
    have n: "numeral_of 10 (unat u) = numeral_of 10 (unat ?q) @ pad (1 + 8) ?r"
      unfolding q using numeral_pad [OF le] pad_mod [of 9 "unat u"] by (simp del: pad.simps)
    have "?r < 10 ^ 9" by simp
    then have us: "unat (to_uint h (u - ?q * 1000000000)) = ?r"
      by (subst to_uint_small) (simp_all add: unat_rest)
    have "room (2 * 4 + (Suc (length (numeral_of 10 (unat ?q)) + m))) st"
      using "1.prems"(1) n by (auto simp: room_def)
    from chunk_loop_spec [OF this, of "to_uint h (u - ?q * 1000000000)"]
    obtain us1 st1 where c: "chunk_loop 4 (to_uint h (u - ?q * 1000000000)) st = Some (us1, st1)"
      "unat us1 = ?r div 10 ^ 8" "ext st st1 (pad 8 ?r)" "room (Suc (length (numeral_of 10 (unat ?q)) + m)) st1"
      unfolding us by auto
    have d: "unat us1 < 10" using \<open>?r < 10 ^ 9\<close> c(2) by (simp add: div_less_iff_less_mult)
    then have u2: "unat (us1 * 2 + 1) = 2 * unat us1 + 1"
      using unat_mult_lem [of us1 2] unat_add_lem [of "us1 * 2" 1] by simp
    obtain st2 where st2: "put smallsString (2 * unat us1 + 1) st1 = Some st2" "ext st1 st2 (pad 1 (?r div 10 ^ 8))"
      "room (length (numeral_of 10 (unat ?q)) + m) st2"
      by (rule put_ext [OF c(4), of "2 * unat us1 + 1" smallsString])
        (use d c(2) smalls_nth(1) smalls_nth(3) [of "unat us1"] in simp_all)
    obtain u' st' xs where IH: "host32_loop h ?q st2 = Some (u', st')" "unat u' < 10 ^ 9" "ext st2 st' xs"
      "numeral_of 10 (unat ?q) = numeral_of 10 (unat u') @ xs"
      using "1.IH" [OF True refl refl c(1) refl, of st2] st2 u2 \<open>h\<close> by auto
    have "ext st st' (xs @ pad (1 + 8) ?r)"
      unfolding pad_append using ext_trans [OF ext_trans [OF c(3) st2(2)] IH(3)] by simp
    moreover have "host32_loop h u st = Some (u', st')"
      using True c(1) st2(1) u2 IH(1) by (subst host32_loop.simps) simp
    ultimately show ?thesis using IH(2,4) n by simp
  next
    case False
    then show ?thesis by (subst host32_loop.simps) (simp add: word_le_nat_alt)
  qed
qed

lemma decimal_spec:
  assumes "room (length (numeral_of 10 (unat u)) + m) st"
  shows "\<exists>st'. decimal h u st = Some st' \<and> ext st st' (numeral_of 10 (unat u))"
proof -
  obtain u1 st1 xs where 1: "(if h then host32_loop h u st else Some (u, st)) = Some (u1, st1)"
    "to_uint h u1 = u1" "ext st st1 xs" "numeral_of 10 (unat u) = numeral_of 10 (unat u1) @ xs"
  proof (cases h)
    case True
    then show ?thesis using host32_loop_spec [OF assms] that to_uint_small by fastforce
  next
    case False
    then show ?thesis using that [of u st "[]"] by (simp add: to_uint_def)
  qed
  have "room (length (numeral_of 10 (unat u1)) + m) st1"
    using assms 1(3,4) by (auto simp: room_def ext_def)
  from pairs_loop_spec [OF this] obtain us st2 ys where 2: "pairs_loop u1 st1 = Some (us, st2)" "unat us < 100"
    "ext st1 st2 ys" "numeral_of 10 (unat u1) = numeral_of 10 (unat us) @ ys" by blast
  have "room (length (numeral_of 10 (unat us)) + m) st2"
    using assms 1(3,4) 2(3,4) by (auto simp: room_def ext_def)
  from decimal_end [OF 2(2) this] obtain st' where 3: "(let is = unat (us * 2) in
      case put smallsString (is + 1) st2 of None \<Rightarrow> None
      | Some st \<Rightarrow> if us \<ge> 10 then put smallsString is st else Some st) = Some st'"
    "ext st2 st' (numeral_of 10 (unat us))" by blast
  have "ext st st' (numeral_of 10 (unat u))"
    using ext_trans [OF ext_trans [OF 1(3) 2(3)] 3(2)] 1(4) 2(4) by simp
  moreover have "decimal h u st = Some st'"
    unfolding decimal_def 1(1) using 1(2) 2(1) 3(1) by simp
  ultimately show ?thesis by blast
qed

text \<open>The two loops of the other bases put one digit at a time.\<close>

lemma div_base_loop_spec:
  "room (length (numeral_of (unat b) (unat u)) + m) st \<Longrightarrow> 2 \<le> unat b \<Longrightarrow> unat b \<le> 36 \<Longrightarrow>
   \<exists>st'. last_digit h (div_base_loop h b u st) = Some st' \<and> ext st st' (numeral_of (unat b) (unat u))"
proof (induction h b u st rule: div_base_loop.induct)
  case (1 h b u st)
  let ?d = "unat u mod unat b"
  show ?case
  proof (cases "u \<ge> b")
    case True
    then have n: "numeral_of (unat b) (unat u) = numeral_of (unat b) (unat (u div b)) @ [digit_char ?d]"
      using "1.prems"(2) by (simp add: numeral_step word_le_nat_alt unat_div)
    have d: "?d < 36" using "1.prems"(2,3) mod_less_divisor [of "unat b" "unat u"] by linarith
    then have us: "unat (to_uint h (u - u div b * b)) = ?d" by (subst to_uint_small) (simp_all add: unat_rest)
    have r: "room (Suc (length (numeral_of (unat b) (unat (u div b))) + m)) st" using "1.prems"(1) n by simp
    obtain st1 where st1: "put digits ?d st = Some st1" "ext st st1 [digit_char ?d]"
      "room (length (numeral_of (unat b) (unat (u div b))) + m) st1"
      by (rule put_ext [OF r, of ?d digits]) (use d digits_nth [OF d] in simp_all)
    obtain st' where IH: "last_digit h (div_base_loop h b (u div b) st1) = Some st'"
      "ext st1 st' (numeral_of (unat b) (unat (u div b)))"
      using "1.IH" [OF True refl, of st1] st1 us "1.prems" by auto
    then show ?thesis using True st1(1) us ext_trans [OF st1(2) IH(2)] n
      by (subst div_base_loop.simps) simp
  next
    case False
    then have u: "unat u < unat b" by (simp add: word_le_nat_alt)
    then have d: "unat u < 36" using "1.prems"(3) by simp
    have r: "room (Suc m) st" using "1.prems"(1) u by (simp add: numeral_small)
    obtain st' where st': "put digits (unat u) st = Some st'" "ext st st' [digit_char (unat u)]"
      by (rule put_ext [OF r, of "unat u" digits]) (use d digits_nth [OF d] in simp_all)
    have "to_uint h u = u" using d by (simp add: to_uint_small)
    then show ?thesis using False st' u
      by (subst div_base_loop.simps) (simp add: last_digit_def numeral_small)
  qed
qed

text \<open>Shifting and masking is dividing.\<close>

lemma shift_loop_div:
  "k \<le> 5 \<Longrightarrow> b = 2 ^ k \<Longrightarrow> m = mask k \<Longrightarrow> shift_loop h b k m u st = div_base_loop h b u st"
proof (induction h b k m u st rule: shift_loop.induct)
  case (1 h b k m u st)
  note k5 = 1(2)
  have k: "k < LENGTH(64)" using k5 by simp
  have q: "drop_bit k u = u div b" using 1(3) by (simp add: drop_bit_eq_div)
  have p: "(2 :: nat) ^ k \<le> 2 ^ 5" using k5 by (intro power_increasing) simp_all
  then have b: "unat b = 2 ^ k" using 1(3) unat_push_bit [of k "1 :: u64"] by (simp add: push_bit_eq_mult)
  have "unat u mod 2 ^ k < 2 ^ k" by simp
  also have "\<dots> \<le> 2 ^ 32" using k5 by (intro power_increasing) simp_all
  finally have "unat u mod 2 ^ k < 2 ^ 32" .
  then have "to_uint h (u - u div b * b) = u - u div b * b" by (intro to_uint_small) (simp add: unat_rest b)
  moreover have "u - u div b * b = u AND m"
    by (simp add: word_unat_eq_iff unat_rest b 1(4) unat_and_mask)
  moreover have "to_uint h u AND m = u AND m"
    using k5 by (simp add: to_uint_def 1(4) flip: take_bit_eq_mask)
  ultimately have d: "to_uint h (u - u div b * b) = to_uint h u AND m" by simp
  show ?case
  proof (cases "u \<ge> b")
    case True
    show ?thesis
    proof (cases "put digits (unat (to_uint h u AND m)) st")
      case (Some st1)
      then show ?thesis using 1(1) [OF True Some 1(2-4)] True q d
        by (subst shift_loop.simps, subst div_base_loop.simps) simp
    qed (use True d in \<open>subst shift_loop.simps, subst div_base_loop.simps, simp\<close>)
  qed (subst shift_loop.simps, subst div_base_loop.simps, simp)
qed

definition base_ok :: "bool \<Rightarrow> int \<Rightarrow> bool" where
  "base_ok h base \<longleftrightarrow> isPowerOfTwo base \<longrightarrow>
     (let k = TrailingZeros h (of_int base) AND 7 in
      k \<le> 5 \<and> (of_int base :: u64) = 2 ^ k \<and> to_uint h (of_int base) - 1 = mask k)"

lemma bases_ok: "2 \<le> base \<Longrightarrow> base \<le> 36 \<Longrightarrow> base_ok h base"
proof -
  assume "2 \<le> base" "base \<le> 36"
  then have "base \<in> set [2..36]" unfolding set_upto by simp
  moreover have "list_all (base_ok True) [2..36]" "list_all (base_ok False) [2..36]" by code_simp+
  ultimately show ?thesis by (cases h) (auto simp: list_all_iff)
qed

lemma convert_spec:
  assumes "2 \<le> base" "base \<le> 36" "room (length (numeral_of (nat base) (unat u)) + m) st"
  shows "\<exists>st'. convert h u base st = Some st' \<and> ext st st' (numeral_of (nat base) (unat u))"
proof -
  have b: "unat (of_int base :: u64) = nat base"
    using assms(1,2) by (simp add: unsigned_of_int take_bit_int_eq_self)
  have r: "room (length (numeral_of (unat (of_int base :: u64)) (unat u)) + m) st" using assms(3) b by simp
  have "2 \<le> unat (of_int base :: u64)" "unat (of_int base :: u64) \<le> 36" using assms(1,2) b by linarith+
  from div_base_loop_spec [OF r this, of h]
  have div: "\<exists>st'. last_digit h (div_base_loop h (of_int base) u st) = Some st' \<and> ext st st' (numeral_of (nat base) (unat u))"
    unfolding b .
  show ?thesis
  proof (cases "base = 10")
    case True
    then show ?thesis using decimal_spec [of u m st h] assms(3) by (simp add: convert_def)
  next
    case False
    have "isPowerOfTwo base \<Longrightarrow> shift_loop h (of_int base) (TrailingZeros h (of_int base) AND 7) (to_uint h (of_int base) - 1) u st
        = div_base_loop h (of_int base) u st"
      using bases_ok [OF assms(1,2), of h] unfolding base_ok_def Let_def by (intro shift_loop_div) blast+
    then show ?thesis using False div by (simp add: convert_def Let_def)
  qed
qed

text \<open>What \<open>formatBits\<close> writes: the sign, then the digits.\<close>

definition text_of :: "bool \<Rightarrow> int \<Rightarrow> u64 \<Rightarrow> u8 list" where
  "text_of neg base u = (if neg then [45] else []) @ numeral_of (nat base) (unat (if neg then - u else u))"

lemma formatBits_spec:
  assumes "2 \<le> base" "base \<le> 36"
  shows "formatBits h dst u base neg app = Inr (if app then (dst @ text_of neg base u, []) else ([], text_of neg base u))"
proof -
  let ?u = "if neg then - u else u"
  let ?n = "numeral_of (nat base) (unat ?u)"
  define st where "st = (replicate 65 0 :: u8 list, 65 :: nat)"
  have "length ?n \<le> Suc 63" using assms unat_less [of ?u] by (intro length_numeral) simp_all
  then have r: "room (length ?n + 1) st" by (simp add: st_def room_def)
  from convert_spec [OF assms r, of h] obtain st1
    where st1: "convert h ?u base st = Some st1" "ext st st1 ?n" by blast
  have r1: "room (Suc 0) st1" using r ext_room [OF st1(2)] by (simp add: add.commute)
  obtain a i where 2: "(if neg then put (bytes ''-'') 0 st1 else Some st1) = Some (a, i)"
    "ext st (a, i) (text_of neg base u)"
  proof (cases neg)
    case True
    obtain st2 where "put (bytes ''-'') 0 st1 = Some st2" "ext st1 st2 [bytes ''-'' ! 0]"
      by (rule put_ext [OF r1, of 0 "bytes ''-''"]) (simp_all add: bytes_def)
    moreover have "bytes ''-'' ! 0 = 45" by code_simp
    ultimately show ?thesis using that [of "fst st2" "snd st2"] True ext_trans [OF st1(2), of st2 "[45]"]
      by (simp add: text_of_def)
  next
    case False
    then show ?thesis using that [of "fst st1" "snd st1"] st1(2) by (simp add: text_of_def)
  qed
  have "drop i a = text_of neg base u" using 2(2) by (simp add: ext_def st_def)
  then show ?thesis using assms st1(1) 2(1) by (simp add: formatBits_def Let_def st_def)
qed

section \<open>The exported functions\<close>

definition signed_numeral :: "nat \<Rightarrow> int \<Rightarrow> u8 list" where
  "signed_numeral b z = (if z < 0 then bytes ''-'' else []) @ numeral_of b (nat \<bar>z\<bar>)"

lemma unat_magnitude: "unat (if i <s 0 then - i else i) = nat \<bar>sint i\<bar>" for i :: u64
proof -
  have lt: "unat i < 2 ^ 64" using unat_less [of i] by simp
  have s: "sint i = (if unat i < 2 ^ 63 then int (unat i) else int (unat i) - 2 ^ 64)" using sint_unat [of i] by simp
  show ?thesis
  proof (cases "i <s 0")
    case True
    then have n: "sint i < 0" by (simp add: word_sless_alt)
    then have big: "\<not> unat i < 2 ^ 63" using s by (auto split: if_splits)
    then have "i \<noteq> 0" by auto
    then have "unat (- i) = 2 ^ 64 - unat i" using unat_sub_if' [of 0 i] big by (simp split: if_splits)
    then show ?thesis using True n s big lt by (simp del: of_nat_unat)
  next
    case False
    then have "\<not> sint i < 0" by (simp add: word_sless_alt)
    then show ?thesis using False s lt by (simp del: of_nat_unat split: if_splits)
  qed
qed

lemma text_of_signed: "2 \<le> base \<Longrightarrow> text_of (i <s 0) base i = signed_numeral (nat base) (sint i)"
  unfolding text_of_def signed_numeral_def unat_magnitude by (simp add: word_sless_alt bytes_def)

lemma small_numeral: "n < 100 \<Longrightarrow> small n = numeral_of 10 n"
proof (cases "n < 10")
  case True
  then show ?thesis by (simp add: small_def numeral_small take_Suc_conv_app_nth digits_nth)
next
  case False
  assume n: "n < 100"
  have "take 2 (drop (2 * n) smallsString) = [smallsString ! (2 * n), smallsString ! Suc (2 * n)]"
    using n smalls_nth(1) by (simp add: numeral_2_eq_2 take_Suc_conv_app_nth)
  then show ?thesis using False n smalls_nth(2,3) [of n]
    by (simp add: small_def mult.commute numeral_step numeral_small)
qed

lemma format_texts:
  "FormatInt h i base = (if 2 \<le> base \<and> base \<le> 36 then Inr (signed_numeral (nat base) (sint i)) else Inl illegalBase)
   \<and> FormatUint h u base = (if 2 \<le> base \<and> base \<le> 36 then Inr (numeral_of (nat base) (unat u)) else Inl illegalBase)
   \<and> AppendInt h dst i base
       = (if 2 \<le> base \<and> base \<le> 36 then Inr (dst @ signed_numeral (nat base) (sint i)) else Inl illegalBase)
   \<and> AppendUint h dst u base
       = (if 2 \<le> base \<and> base \<le> 36 then Inr (dst @ numeral_of (nat base) (unat u)) else Inl illegalBase)"
proof (cases "2 \<le> base \<and> base \<le> 36")
  case True
  have c: "sint (100 :: u64) = 100" by simp
  have pos: "small (unat i) = signed_numeral 10 (sint i)" if "0 \<le>s i" "i <s 100"
  proof -
    have s: "0 \<le> sint i" "sint i < 100" using that c by (simp_all add: word_sle_eq word_sless_alt)
    then have "int (unat i) = sint i" using sint_nonneg [of i] by simp
    then have u: "unat i = nat (sint i)" by linarith
    then show ?thesis using s by (simp add: small_numeral signed_numeral_def)
  qed
  have un: "small (unat u) = numeral_of 10 (unat u)" if "u < 100"
    using that by (intro small_numeral) (simp add: word_less_nat_alt)
  show ?thesis using True pos un text_of_signed [of base i]
    by (auto simp: FormatInt_def FormatUint_def AppendInt_def AppendUint_def formatBits_spec fastSmalls_def
        nSmalls_def) (simp_all add: text_of_def)
next
  case False
  then have f: "formatBits h d v base n app = Inl illegalBase" for d v n app
    by (auto simp: formatBits_def)
  have "base \<noteq> 10" using False by auto
  then show ?thesis using False by (auto simp: FormatInt_def FormatUint_def AppendInt_def AppendUint_def f)
qed

text \<open>C38: formatting. Whatever the width of \<open>uint\<close>, \<open>FormatInt\<close>, \<open>FormatUint\<close> and the \<open>Append\<close> forms write exactly the
  digits of the number in the base, after a minus sign for negative values (the least \<open>int64\<close> included), for every
  base from 2 to 36: the table of two-digit numbers, the chunks of nine digits of a 32-bit machine, and the shifts for
  powers of two all give that text, and no index leaves the array of 65 bytes. Any other base panics.\<close>
theorem format_exact:
  "FormatInt h i base = (if 2 \<le> base \<and> base \<le> 36 then Inr (signed_numeral (nat base) (sint i)) else Inl illegalBase)
   \<and> FormatUint h u base = (if 2 \<le> base \<and> base \<le> 36 then Inr (numeral_of (nat base) (unat u)) else Inl illegalBase)
   \<and> AppendInt h dst i base
       = (if 2 \<le> base \<and> base \<le> 36 then Inr (dst @ signed_numeral (nat base) (sint i)) else Inl illegalBase)
   \<and> AppendUint h dst u base
       = (if 2 \<le> base \<and> base \<le> 36 then Inr (dst @ numeral_of (nat base) (unat u)) else Inl illegalBase)"
  by (rule format_texts)

end
