(* ===== verification/StrconvParse.thy ===== *)
theory StrconvParse
  imports StrconvFormat
begin

text \<open>
  Parsing integers: \<open>strconv/atoi.go\<close>. \<open>ParseUint\<close>, \<open>ParseInt\<close> and \<open>Atoi\<close> return a value and an error, \<open>None\<close> for
  \<open>nil\<close>; an error is a \<open>NumError\<close> record. \<open>h\<close> stands for a machine whose \<open>int\<close> has 32 bits, as in
  \<open>StrconvFormat\<close>; a value of type \<open>int64\<close> is the 64-bit word that represents it.

  The reference reads the number of a digit sequence without any bound. The theorems say which strings each function
  accepts, which error the others get, and that parsing inverts formatting.
\<close>

section \<open>The code\<close>

definition lower :: "u8 \<Rightarrow> u8" where
  "lower c = c OR (of_char (CHR ''x'') - of_char (CHR ''X''))"

datatype num_err = ErrRange | ErrSyntax | ErrBase int | ErrBitSize int

record num_error =
  Func :: string
  Num :: "u8 list"
  Err :: num_err

definition syntaxError :: "string \<Rightarrow> u8 list \<Rightarrow> num_error" where
  "syntaxError fn str = \<lparr>Func = fn, Num = str, Err = ErrSyntax\<rparr>"

definition rangeError :: "string \<Rightarrow> u8 list \<Rightarrow> num_error" where
  "rangeError fn str = \<lparr>Func = fn, Num = str, Err = ErrRange\<rparr>"

definition baseError :: "string \<Rightarrow> u8 list \<Rightarrow> int \<Rightarrow> num_error" where
  "baseError fn str base = \<lparr>Func = fn, Num = str, Err = ErrBase base\<rparr>"

definition bitSizeError :: "string \<Rightarrow> u8 list \<Rightarrow> int \<Rightarrow> num_error" where
  "bitSizeError fn str bitSize = \<lparr>Func = fn, Num = str, Err = ErrBitSize bitSize\<rparr>"

definition IntSize :: "bool \<Rightarrow> int" where
  "IntSize h = (if h then 32 else 64)"

definition maxUint64 :: nat where "maxUint64 = 2 ^ 64 - 1"

text \<open>\<open>underscoreOK\<close>: \<open>saw\<close> is the class of the last character.\<close>

fun underscore_loop :: "bool \<Rightarrow> char \<Rightarrow> u8 list \<Rightarrow> bool" where
  "underscore_loop hex saw [] \<longleftrightarrow> saw \<noteq> CHR ''_''"
| "underscore_loop hex saw (c # cs) \<longleftrightarrow>
     (if of_char (CHR ''0'') \<le> c \<and> c \<le> of_char (CHR ''9'')
         \<or> hex \<and> of_char (CHR ''a'') \<le> lower c \<and> lower c \<le> of_char (CHR ''f'')
      then underscore_loop hex (CHR ''0'') cs
      else if c = of_char (CHR ''_'') then
        if saw \<noteq> CHR ''0'' then False else underscore_loop hex (CHR ''_'') cs
      else if saw = CHR ''_'' then False
      else underscore_loop hex (CHR ''!'') cs)"

definition has_prefix :: "u8 list \<Rightarrow> bool" where
  "has_prefix s \<longleftrightarrow> 2 \<le> length s \<and> s ! 0 = of_char (CHR ''0'') \<and>
     (lower (s ! 1) = of_char (CHR ''b'') \<or> lower (s ! 1) = of_char (CHR ''o'') \<or> lower (s ! 1) = of_char (CHR ''x''))"

definition underscoreOK :: "u8 list \<Rightarrow> bool" where
  "underscoreOK s =
     (let s = (if 1 \<le> length s \<and> (s ! 0 = of_char (CHR ''-'') \<or> s ! 0 = of_char (CHR ''+'')) then drop 1 s else s) in
      if has_prefix s
      then underscore_loop (lower (s ! 1) = of_char (CHR ''x'')) (CHR ''0'') (drop 2 s)
      else underscore_loop False (CHR ''^'') s)"

text \<open>The \<open>switch\<close> on a character: its digit value.\<close>

definition digit_of :: "u8 \<Rightarrow> u8 option" where
  "digit_of c =
     (if of_char (CHR ''0'') \<le> c \<and> c \<le> of_char (CHR ''9'') then Some (c - of_char (CHR ''0''))
      else if of_char (CHR ''a'') \<le> lower c \<and> lower c \<le> of_char (CHR ''z'')
           then Some (lower c - of_char (CHR ''a'') + 10)
      else None)"

text \<open>The loop over the bytes: the number and whether underscores were seen, or the error.\<close>

fun parse_loop :: "bool \<Rightarrow> int \<Rightarrow> u64 \<Rightarrow> u64 \<Rightarrow> bool \<Rightarrow> u64 \<Rightarrow> u8 list \<Rightarrow> num_err + u64 \<times> bool" where
  "parse_loop base0 base cutoff maxVal underscores n [] = Inr (n, underscores)"
| "parse_loop base0 base cutoff maxVal underscores n (c # cs) =
     (if c = of_char (CHR ''_'') \<and> base0 then parse_loop base0 base cutoff maxVal True n cs
      else case digit_of c of
        None \<Rightarrow> Inl ErrSyntax
      | Some d \<Rightarrow>
          if d \<ge> of_int base then Inl ErrSyntax
          else if n \<ge> cutoff then Inl ErrRange
          else let n = n * of_int base; n1 = n + ucast d in
            if n1 < n \<or> n1 > maxVal then Inl ErrRange
            else parse_loop base0 base cutoff maxVal underscores n1 cs)"

text \<open>The base that the prefix of the string selects, and what is left to read.\<close>

definition base_prefix :: "u8 list \<Rightarrow> int \<times> u8 list" where
  "base_prefix s =
     (if s ! 0 = of_char (CHR ''0'') then
        if 3 \<le> length s \<and> lower (s ! 1) = of_char (CHR ''b'') then (2, drop 2 s)
        else if 3 \<le> length s \<and> lower (s ! 1) = of_char (CHR ''o'') then (8, drop 2 s)
        else if 3 \<le> length s \<and> lower (s ! 1) = of_char (CHR ''x'') then (16, drop 2 s)
        else (8, drop 1 s)
      else (10, s))"

definition cutoff_of :: "int \<Rightarrow> u64" where
  "cutoff_of base =
     (if base = 10 then of_nat (maxUint64 div 10 + 1)
      else if base = 16 then of_nat (maxUint64 div 16 + 1)
      else of_nat maxUint64 div of_int base + 1)"

definition ParseUint :: "bool \<Rightarrow> u8 list \<Rightarrow> int \<Rightarrow> int \<Rightarrow> u64 \<times> num_error option" where
  "ParseUint h s base bitSize =
     (let fnParseUint = ''ParseUint'' in
      if s = [] then (0, Some (syntaxError fnParseUint s))
      else
        let base0 = (base = 0); s0 = s in
        if \<not> (2 \<le> base \<and> base \<le> 36) \<and> base \<noteq> 0 then (0, Some (baseError fnParseUint s0 base))
        else
          let (base, s) = (if 2 \<le> base \<and> base \<le> 36 then (base, s) else base_prefix s) in
          if bitSize \<noteq> 0 \<and> (bitSize < 0 \<or> bitSize > 64) then (0, Some (bitSizeError fnParseUint s0 bitSize))
          else
            let bitSize = (if bitSize = 0 then IntSize h else bitSize);
                cutoff = cutoff_of base;
                maxVal = push_bit (nat bitSize) 1 - 1
            in case parse_loop base0 base cutoff maxVal False 0 s of
                 Inl e \<Rightarrow> if e = ErrRange then (maxVal, Some (rangeError fnParseUint s0))
                          else (0, Some (syntaxError fnParseUint s0))
               | Inr (n, underscores) \<Rightarrow>
                   if underscores \<and> \<not> underscoreOK s0 then (0, Some (syntaxError fnParseUint s0)) else (n, None))"

definition ParseInt :: "bool \<Rightarrow> u8 list \<Rightarrow> int \<Rightarrow> int \<Rightarrow> u64 \<times> num_error option" where
  "ParseInt h s base bitSize =
     (let fnParseInt = ''ParseInt'' in
      if s = [] then (0, Some (syntaxError fnParseInt s))
      else
        let s0 = s;
            neg = (s ! 0 = of_char (CHR ''-''));
            s = (if s ! 0 = of_char (CHR ''+'') \<or> neg then drop 1 s else s);
            (un, err) = ParseUint h s base bitSize
        in if (case err of Some e \<Rightarrow> Err e \<noteq> ErrRange | None \<Rightarrow> False)
           then (0, map_option (\<lambda>e. e\<lparr>Func := fnParseInt, Num := s0\<rparr>) err)
           else
             let bitSize = (if bitSize = 0 then IntSize h else bitSize);
                 cutoff = push_bit (nat (bitSize - 1)) 1
             in if \<not> neg \<and> un \<ge> cutoff then (cutoff - 1, Some (rangeError fnParseInt s0))
                else if neg \<and> un > cutoff then (- cutoff, Some (rangeError fnParseInt s0))
                else let n = un; n = (if neg then - n else n) in (n, None))"

text \<open>\<open>Atoi\<close>, whose fast path computes with \<open>int\<close>, an integer that wraps around.\<close>

definition wrap_int :: "bool \<Rightarrow> int \<Rightarrow> int" where
  "wrap_int h x = signed_take_bit (if h then 31 else 63) x"

fun atoi_loop :: "bool \<Rightarrow> int \<Rightarrow> u8 list \<Rightarrow> int option" where
  "atoi_loop h n [] = Some n"
| "atoi_loop h n (ch # s) =
     (let ch = ch - of_char (CHR ''0'') in
      if ch > 9 then None else atoi_loop h (wrap_int h (n * 10 + uint ch)) s)"

definition Atoi :: "bool \<Rightarrow> u8 list \<Rightarrow> int \<times> num_error option" where
  "Atoi h s =
     (let fnAtoi = ''Atoi''; sLen = length s in
      if IntSize h = 32 \<and> 0 < sLen \<and> sLen < 10 \<or> IntSize h = 64 \<and> 0 < sLen \<and> sLen < 19 then
        let s0 = s;
            signed = (s ! 0 = of_char (CHR ''-'') \<or> s ! 0 = of_char (CHR ''+''));
            s = (if signed then drop 1 s else s)
        in if signed \<and> length s < 1 then (0, Some (syntaxError fnAtoi s0))
           else case atoi_loop h 0 s of
             None \<Rightarrow> (0, Some (syntaxError fnAtoi s0))
           | Some n \<Rightarrow> (if s0 ! 0 = of_char (CHR ''-'') then wrap_int h (- n) else n, None)
      else
        let (i64, err) = ParseInt h s 10 0 in
        (wrap_int h (sint i64), map_option (\<lambda>e. e\<lparr>Func := fnAtoi\<rparr>) err))"

section \<open>The reference\<close>

definition digit_value :: "u8 \<Rightarrow> nat option" where
  "digit_value c =
     (if 48 \<le> c \<and> c \<le> 57 then Some (unat c - 48)
      else if 97 \<le> c \<and> c \<le> 122 then Some (unat c - 87)
      else if 65 \<le> c \<and> c \<le> 90 then Some (unat c - 55)
      else None)"

definition valid_digit :: "nat \<Rightarrow> u8 \<Rightarrow> bool" where
  "valid_digit b c = (case digit_value c of None \<Rightarrow> False | Some d \<Rightarrow> d < b)"

definition number_value :: "nat \<Rightarrow> nat \<Rightarrow> u8 list \<Rightarrow> nat" where
  "number_value b n s = foldl (\<lambda>n c. n * b + the (digit_value c)) n s"

lemma chars [simp]:
  "of_char (CHR ''0'') = (48 :: u8)" "of_char (CHR ''9'') = (57 :: u8)" "of_char (CHR ''_'') = (95 :: u8)"
  "of_char (CHR ''-'') = (45 :: u8)" "of_char (CHR ''+'') = (43 :: u8)" "of_char (CHR ''a'') = (97 :: u8)"
  "of_char (CHR ''z'') = (122 :: u8)" "of_char (CHR ''x'') = (120 :: u8)" "of_char (CHR ''X'') = (88 :: u8)"
  "of_char (CHR ''f'') = (102 :: u8)" "of_char (CHR ''b'') = (98 :: u8)" "of_char (CHR ''o'') = (111 :: u8)"
  by code_simp+

lemma unat_lower: "unat (lower c) = (if odd (unat c div 32) then unat c else unat c + 32)"
proof -
  have "bit c 5 = bit (unat c) 5" by (simp add: bit_unsigned_iff)
  then have b: "bit c 5 = odd (unat c div 32)" using bit_iff_odd [of "unat c" 5] by simp
  have b32: "bit (32 :: u8) n \<longleftrightarrow> n = 5" for n
  proof -
    have "bit (32 :: u8) n = bit (2 ^ 5 :: u8) n" by simp
    also have "\<dots> = (n = 5)" unfolding bit_exp_iff by (auto simp: possible_bit_word)
    finally show ?thesis .
  qed
  have l: "lower c = c OR 32" by (simp add: lower_def)
  show ?thesis
  proof (cases "bit c 5")
    case True
    then have "c OR 32 = c" by (intro bit_word_eqI) (auto simp: bit_or_iff b32 simp del: bit_numeral_word_iff)
    then show ?thesis using True b l by simp
  next
    case False
    then have "c OR 32 = c + 32"
      by (intro disjunctive_add_eq_or [symmetric] bit_word_eqI) (auto simp: bit_and_iff b32 simp del: bit_numeral_word_iff)
    moreover have "unat c + 32 < 256"
    proof (rule ccontr)
      assume "\<not> unat c + 32 < 256"
      moreover have "unat c < 256" using unat_less [of c] by simp
      ultimately have "unat c div 32 = 7" by (intro div_nat_eqI) simp_all
      then show False using False b by simp
    qed
    ultimately show ?thesis using False b l by (simp add: add_small)
  qed
qed

lemma digit_of_value: "map_option unat (digit_of c) = digit_value c"
proof -
  let ?n = "unat c" and ?l = "unat (lower c)"
  have n: "?n < 256" using unat_less [of c] by simp
  have upper: "?l = ?n + 32" if "65 \<le> ?n" "?n \<le> 90"
  proof -
    have "?n div 32 = 2" using that by (intro div_nat_eqI) simp_all
    then show ?thesis by (simp add: unat_lower)
  qed
  have letter: "?l = ?n" if "97 \<le> ?n" "?n \<le> 122"
  proof -
    have "?n div 32 = 3" using that by (intro div_nat_eqI) simp_all
    then show ?thesis by (simp add: unat_lower)
  qed
  have only: "97 \<le> ?l \<and> ?l \<le> 122 \<longleftrightarrow> 97 \<le> ?n \<and> ?n \<le> 122 \<or> 65 \<le> ?n \<and> ?n \<le> 90"
    using upper letter by (auto simp: unat_lower split: if_splits)
  have sub: "unat (x - y) = unat x - unat y" if "unat y \<le> unat x" for x y :: u8
    using that by (simp add: unat_sub_if')
  have add: "unat (lower c - 97 + 10) = ?l - 87" if "97 \<le> ?l" "?l \<le> 122"
    using that by (subst add_small) (simp_all add: sub)
  show ?thesis
  proof (cases "97 \<le> ?l \<and> ?l \<le> 122")
    case True
    then show ?thesis using only upper letter add
      by (auto simp: digit_of_def digit_value_def word_le_nat_alt sub)
  next
    case False
    then show ?thesis using only by (auto simp: digit_of_def digit_value_def word_le_nat_alt sub)
  qed
qed

lemma digit_value_less: "digit_value c = Some d \<Longrightarrow> d < 36"
  by (auto simp: digit_value_def word_le_nat_alt split: if_splits)

section \<open>The loop of \<open>ParseUint\<close>\<close>

lemma unat_base: "2 \<le> base \<Longrightarrow> base \<le> 36 \<Longrightarrow> unat (of_int base :: u64) = nat base"
  and unat_byte_base: "2 \<le> base \<Longrightarrow> base \<le> 36 \<Longrightarrow> unat (of_int base :: u8) = nat base"
  by (simp_all add: unsigned_of_int take_bit_int_eq_self)

lemma cutoff_spec:
  assumes "2 \<le> base" "base \<le> 36"
  shows "cutoff_of base \<le> n \<longleftrightarrow> 2 ^ 64 \<le> unat n * nat base"
proof -
  let ?q = "maxUint64 div nat base"
  have "?q \<le> maxUint64 div 2" using assms(1) by (intro div_le_mono2) simp_all
  then have q: "?q + 1 < 2 ^ 64" by (simp add: maxUint64_def)
  have m: "unat (of_nat maxUint64 :: u64) = maxUint64" by (simp add: maxUint64_def unat_of_nat)
  have "unat (of_nat maxUint64 div of_int base :: u64) = ?q"
    unfolding unat_div m unat_base [OF assms] ..
  then have "unat (of_nat maxUint64 div of_int base + 1 :: u64) = ?q + 1"
    using q by (subst add_small) simp_all
  moreover have "unat (of_nat (maxUint64 div 10 + 1) :: u64) = maxUint64 div 10 + 1"
    "unat (of_nat (maxUint64 div 16 + 1) :: u64) = maxUint64 div 16 + 1"
    by (simp_all add: maxUint64_def unat_of_nat)
  ultimately have c: "unat (cutoff_of base) = ?q + 1" by (simp add: cutoff_of_def)
  have "cutoff_of base \<le> n \<longleftrightarrow> ?q < unat n" by (simp add: word_le_nat_alt c Suc_le_eq)
  also have "\<dots> \<longleftrightarrow> maxUint64 < unat n * nat base" using assms(1) by (simp add: div_less_iff_less_mult)
  finally show ?thesis by (simp add: maxUint64_def Suc_le_eq [symmetric])
qed

text \<open>A digit added without exceeding the maximum is what the two tests of the loop let through.\<close>

lemma digit_step_fits:
  fixes n maxVal :: u64 and d :: u8
  assumes "2 \<le> base" "base \<le> 36" "\<not> cutoff_of base \<le> n"
  defines "v \<equiv> unat n * nat base + unat d" and "n1 \<equiv> n * of_int base + ucast d"
  shows "(n1 < n * of_int base \<or> maxVal < n1) = (unat maxVal < v)" and "v \<le> unat maxVal \<Longrightarrow> unat n1 = v"
proof -
  have lt: "unat n * nat base < 2 ^ 64" using assms(3) cutoff_spec [OF assms(1,2)] by simp
  then have p: "unat (n * of_int base) = unat n * nat base"
    using unat_mult_lem [of n "of_int base"] unat_base [OF assms(1,2)] by simp
  have d: "unat (ucast d :: u64) = unat d" "unat d < 2 ^ 64" using unat_less [of d] by (simp_all add: unat_ucast)
  have m: "unat maxVal < 2 ^ 64" using unat_less [of maxVal] by simp
  have a: "unat n1 = (if v < 2 ^ 64 then v else v - 2 ^ 64)"
    unfolding n1_def v_def using unat_plus_if' [of "n * of_int base" "ucast d"] p d by simp
  show "v \<le> unat maxVal \<Longrightarrow> unat n1 = v" using a m by simp
  show "(n1 < n * of_int base \<or> maxVal < n1) = (unat maxVal < v)"
  proof (cases "v < 2 ^ 64")
    case True
    then show ?thesis using a p by (auto simp: word_less_nat_alt v_def)
  next
    case False
    then have "unat n1 < unat n * nat base" using a d(2) by (simp add: v_def)
    then show ?thesis using False p m by (auto simp: word_less_nat_alt)
  qed
qed

definition skipped :: "bool \<Rightarrow> u8 \<Rightarrow> bool" where
  "skipped base0 c \<longleftrightarrow> base0 \<and> c = 95"

definition readable :: "bool \<Rightarrow> nat \<Rightarrow> u8 \<Rightarrow> bool" where
  "readable base0 b c \<longleftrightarrow> skipped base0 c \<or> valid_digit b c"

definition read_value :: "bool \<Rightarrow> nat \<Rightarrow> nat \<Rightarrow> u8 list \<Rightarrow> nat" where
  "read_value base0 b n s = number_value b n (filter (\<lambda>c. \<not> skipped base0 c) s)"

lemma number_value_ge: "1 \<le> b \<Longrightarrow> n \<le> number_value b n s"
proof (induction s arbitrary: n)
  case (Cons c s)
  have "n \<le> n * b" using Cons.prems by (cases b) simp_all
  then have "n \<le> n * b + the (digit_value c)" by (rule trans_le_add1)
  also have "\<dots> \<le> number_value b n (c # s)" using Cons.IH [OF Cons.prems] by (simp add: number_value_def)
  finally show ?case .
qed (simp add: number_value_def)

lemma read_value_simps [simp]:
  "read_value base0 b n [] = n"
  "skipped base0 c \<Longrightarrow> read_value base0 b n (c # s) = read_value base0 b n s"
  "\<not> skipped base0 c \<Longrightarrow> read_value base0 b n (c # s) = read_value base0 b (n * b + the (digit_value c)) s"
  by (simp_all add: read_value_def number_value_def)

lemma digit_cases:
  obtains "digit_of c = None" "digit_value c = None"
  | d where "digit_of c = Some d" "digit_value c = Some (unat d)"
  using digit_of_value [of c] by (cases "digit_of c") auto

lemma parse_loop_spec:
  assumes base: "2 \<le> base" "base \<le> 36"
  shows "unat n \<le> unat maxVal \<Longrightarrow>
    parse_loop base0 base (cutoff_of base) maxVal us n s =
    (let p = takeWhile (readable base0 (nat base)) s; v = read_value base0 (nat base) (unat n) p in
     if unat maxVal < v then Inl ErrRange
     else if p \<noteq> s then Inl ErrSyntax
     else Inr (of_nat v, us \<or> base0 \<and> 95 \<in> set s))"
proof (induction s arbitrary: us n)
  case (Cons c s)
  let ?R = "readable base0 (nat base)"
  show ?case
  proof (cases "skipped base0 c")
    case True
    then show ?thesis using Cons.IH [OF Cons.prems, of True]
      by (auto simp: readable_def skipped_def Let_def)
  next
    case False
    then have ns: "\<not> (c = 95 \<and> base0)" by (auto simp: skipped_def)
    show ?thesis
    proof (cases c rule: digit_cases)
      case 1
      then have "\<not> ?R c" using False by (simp add: readable_def valid_digit_def)
      then show ?thesis using 1 ns Cons.prems by auto
    next
      case (2 d)
      show ?thesis
      proof (cases "of_int base \<le> d")
        case True
        then have "\<not> ?R c" using 2 False
          by (simp add: readable_def valid_digit_def word_le_nat_alt unat_byte_base [OF base])
        then show ?thesis using 2 ns True Cons.prems by auto
      next
        case small: False
        then have R: "?R c" using 2
          by (simp add: readable_def valid_digit_def word_le_nat_alt unat_byte_base [OF base])
        let ?v = "unat n * nat base + unat d"
        let ?p = "takeWhile ?R s"
        have ge: "?v \<le> read_value base0 (nat base) ?v ?p"
          unfolding read_value_def using base by (intro number_value_ge) simp
        show ?thesis
        proof (cases "cutoff_of base \<le> n")
          case True
          then have "unat maxVal < ?v" using cutoff_spec [OF base, of n] unat_less [of maxVal] by simp
          then show ?thesis using True 2 ns small R False ge by auto
        next
          case nc: False
          note fits = digit_step_fits [OF base nc, of d maxVal]
          show ?thesis
          proof (cases "unat maxVal < ?v")
            case True
            then show ?thesis using fits(1) nc 2 ns small R False ge by (auto simp: Let_def)
          next
            case le: False
            let ?n1 = "n * of_int base + ucast d"
            have "unat ?n1 = ?v" using fits(2) le by simp
            then have IH: "parse_loop base0 base (cutoff_of base) maxVal us ?n1 s =
                (let p = ?p; v = read_value base0 (nat base) ?v p in
                 if unat maxVal < v then Inl ErrRange else if p \<noteq> s then Inl ErrSyntax
                 else Inr (of_nat v, us \<or> base0 \<and> 95 \<in> set s))"
              using Cons.IH [of ?n1 us] le by simp
            have "parse_loop base0 base (cutoff_of base) maxVal us n (c # s) =
                parse_loop base0 base (cutoff_of base) maxVal us ?n1 s"
              using fits(1) nc 2 ns small le by (auto simp: Let_def)
            then show ?thesis unfolding IH using R False 2 ns by (auto simp: Let_def)
          qed
        qed
      qed
    qed
  qed
qed (simp add: Let_def)

section \<open>\<open>ParseUint\<close>\<close>

definition int_width :: "bool \<Rightarrow> int \<Rightarrow> nat" where
  "int_width h bitSize = nat (if bitSize = 0 then IntSize h else bitSize)"

lemma int_width_le: "0 \<le> bitSize \<Longrightarrow> bitSize \<le> 64 \<Longrightarrow> 1 \<le> int_width h bitSize \<and> int_width h bitSize \<le> 64"
  by (auto simp: int_width_def IntSize_def)

lemma unat_max: "W \<le> 64 \<Longrightarrow> unat (push_bit W 1 - 1 :: u64) = 2 ^ W - 1"
proof -
  assume W: "W \<le> 64"
  have "push_bit W 1 - 1 = take_bit W (- 1 :: u64)"
    by (simp add: push_bit_eq_mult mask_eq_exp_minus_1 take_bit_minus_one_eq_mask)
  then have "unat (push_bit W 1 - 1 :: u64) = take_bit W (unat (- 1 :: u64))"
    by (simp only: unsigned_take_bit_eq)
  also have "\<dots> = take_bit W (mask 64)" by (simp only: unsigned_minus_1_eq_mask) simp
  also have "\<dots> = mask W" using W by (simp only: take_bit_of_mask min.absorb1)
  finally show ?thesis by (simp add: mask_eq_exp_minus_1)
qed

lemma base_prefix_range: "base_prefix s = (b, r) \<Longrightarrow> 2 \<le> b \<and> b \<le> 36"
  by (auto simp: base_prefix_def split: if_splits)

definition num_error_at :: "string \<Rightarrow> u8 list \<Rightarrow> num_err \<Rightarrow> num_error option" where
  "num_error_at fn s e = Some \<lparr>Func = fn, Num = s, Err = e\<rparr>"

lemma errors [simp]:
  "Some (syntaxError fn s) = num_error_at fn s ErrSyntax" "Some (rangeError fn s) = num_error_at fn s ErrRange"
  "Some (baseError fn s b) = num_error_at fn s (ErrBase b)" "Some (bitSizeError fn s b) = num_error_at fn s (ErrBitSize b)"
  by (simp_all add: num_error_at_def syntaxError_def rangeError_def baseError_def bitSizeError_def)

definition uint_result :: "nat \<Rightarrow> bool \<Rightarrow> u8 list \<Rightarrow> int \<Rightarrow> u8 list \<Rightarrow> u64 \<times> num_error option" where
  "uint_result W base0 s b r =
     (let p = takeWhile (readable base0 (nat b)) r; v = read_value base0 (nat b) 0 p in
      if 2 ^ W \<le> v then (of_nat (2 ^ W - 1), num_error_at ''ParseUint'' s ErrRange)
      else if p \<noteq> r \<or> base0 \<and> 95 \<in> set r \<and> \<not> underscoreOK s then (0, num_error_at ''ParseUint'' s ErrSyntax)
      else (of_nat v, None))"

lemma parse_result:
  assumes "2 \<le> b" "b \<le> 36" "W \<le> 64"
  shows "(case parse_loop base0 b (cutoff_of b) (push_bit W 1 - 1) False 0 r of
      Inl e \<Rightarrow> if e = ErrRange then (push_bit W 1 - 1, num_error_at ''ParseUint'' s ErrRange)
               else (0, num_error_at ''ParseUint'' s ErrSyntax)
    | Inr (n, us) \<Rightarrow> if us \<and> \<not> underscoreOK s then (0, num_error_at ''ParseUint'' s ErrSyntax) else (n, None))
    = uint_result W base0 s b r"
proof -
  have m: "unat (push_bit W 1 - 1 :: u64) = 2 ^ W - 1" by (rule unat_max [OF assms(3)])
  then have w: "push_bit W 1 - 1 = (of_nat (2 ^ W - 1) :: u64)" by (rule word_of_unatI)
  have lt: "(2 :: nat) ^ W - 1 < v \<longleftrightarrow> 2 ^ W \<le> v" for v by (simp add: less_eq_Suc_le)
  show ?thesis
    unfolding parse_loop_spec [OF assms(1,2), of 0, simplified] m lt uint_result_def Let_def
    unfolding w by (auto simp: Let_def)
qed

lemma ParseUint_result:
  assumes "s \<noteq> []" "base = 0 \<or> 2 \<le> base \<and> base \<le> 36" "0 \<le> bitSize" "bitSize \<le> 64"
  shows "ParseUint h s base bitSize =
    (let (b, r) = (if base = 0 then base_prefix s else (base, s)) in uint_result (int_width h bitSize) (base = 0) s b r)"
proof -
  obtain b r where br: "(if base = 0 then base_prefix s else (base, s)) = (b, r)" by (rule prod.exhaust)
  then have b: "2 \<le> b" "b \<le> 36" using assms(2) base_prefix_range [of s b r] by (auto split: if_splits)
  have sel: "(if 2 \<le> base \<and> base \<le> 36 then (base, s) else base_prefix s) = (b, r)"
    using br assms(2) by (auto split: if_splits)
  have W: "int_width h bitSize \<le> 64" using int_width_le [OF assms(3,4)] by blast
  have bs: "(bitSize \<noteq> 0 \<and> (bitSize < 0 \<or> bitSize > 64)) = False"
    "(\<not> (2 \<le> base \<and> base \<le> 36) \<and> base \<noteq> 0) = False" "(s = []) = False" using assms by auto
  show ?thesis
    by (simp only: ParseUint_def Let_def sel errors br prod.case bs if_False int_width_def [symmetric] parse_result [OF b W])
qed

text \<open>C39: parsing an unsigned number. For every string, base and bit size, \<open>ParseUint\<close> returns what the reference without
  bounds says, errors and their order included: the longest prefix of readable digits (and underscores, for base 0) is
  read; if its value needs more than \<open>bitSize\<close> bits the result is the maximum and a range error, even when garbage
  follows; otherwise a string with anything else in it, or with a misplaced underscore, is a syntax error; otherwise the
  value is returned. The overflow tests on 64-bit words decide this exactly.\<close>
theorem parse_uint_exact:
  "ParseUint h s base bitSize =
    (let (b, r) = (if base = 0 then base_prefix s else (base, s));
         p = takeWhile (readable (base = 0) (nat b)) r;
         v = read_value (base = 0) (nat b) 0 p;
         W = int_width h bitSize;
         err = (\<lambda>e. num_error_at ''ParseUint'' s e)
     in if s = [] then (0, err ErrSyntax)
        else if base < 0 \<or> base = 1 \<or> 36 < base then (0, err (ErrBase base))
        else if bitSize < 0 \<or> 64 < bitSize then (0, err (ErrBitSize bitSize))
        else if 2 ^ W \<le> v then (of_nat (2 ^ W - 1), err ErrRange)
        else if p \<noteq> r \<or> base = 0 \<and> 95 \<in> set r \<and> \<not> underscoreOK s then (0, err ErrSyntax)
        else (of_nat v, None))"
proof (cases "s = [] \<or> base < 0 \<or> base = 1 \<or> 36 < base \<or> bitSize < 0 \<or> 64 < bitSize")
  case True
  have bad: "base < 0 \<or> base = 1 \<or> 36 < base \<longleftrightarrow> \<not> (2 \<le> base \<and> base \<le> 36) \<and> base \<noteq> 0" by auto
  consider "s = []" | "s \<noteq> []" "base < 0 \<or> base = 1 \<or> 36 < base"
    | "s \<noteq> []" "\<not> (base < 0 \<or> base = 1 \<or> 36 < base)" "bitSize < 0 \<or> 64 < bitSize" using True by blast
  then show ?thesis
  proof cases
    case 2
    then show ?thesis unfolding ParseUint_def Let_def bad by (simp split: prod.splits)
  next
    case 3
    then have "bitSize \<noteq> 0 \<and> (bitSize < 0 \<or> bitSize > 64)" by auto
    then show ?thesis using 3(1,2) unfolding ParseUint_def Let_def bad
      by (simp only: if_True if_False simp_thms errors split: prod.splits)
  qed (simp add: ParseUint_def split: prod.splits)
next
  case False
  then have "ParseUint h s base bitSize =
      (let (b, r) = (if base = 0 then base_prefix s else (base, s)) in uint_result (int_width h bitSize) (base = 0) s b r)"
    by (intro ParseUint_result) auto
  then show ?thesis using False by (auto simp: uint_result_def Let_def split: prod.splits)
qed

text \<open>An underscore between the digits of a literal.\<close>

theorem parse_uint_exact_witness: "ParseUint True (bytes ''1_000'') 0 0 = (1000, None)"
proof -
  have s: "bytes ''1_000'' = [49, 95, 48, 48, 48]" by code_simp
  show ?thesis unfolding s
    by (subst parse_uint_exact)
      (simp add: base_prefix_def readable_def read_value_def skipped_def valid_digit_def digit_value_def
        number_value_def int_width_def IntSize_def underscoreOK_def has_prefix_def)
qed

section \<open>\<open>ParseInt\<close>\<close>

lemma readable_False [simp]: "readable False b = valid_digit b"
  by (rule ext) (simp add: readable_def skipped_def)

lemma read_value_False [simp]: "read_value False b n s = number_value b n s"
  by (simp add: read_value_def skipped_def)

lemma takeWhile_all: "list_all P s \<Longrightarrow> takeWhile P s = s"
  by (simp add: takeWhile_eq_all_conv list_all_iff)

lemma sign_not_digit: "valid_digit b c \<Longrightarrow> c \<noteq> 45 \<and> c \<noteq> 43"
  by (auto simp: valid_digit_def digit_value_def)

text \<open>The sign and the rest of a string.\<close>

definition has_sign :: "u8 list \<Rightarrow> bool" where
  "has_sign s \<longleftrightarrow> s ! 0 = 43 \<or> s ! 0 = 45"

definition unsigned_part :: "u8 list \<Rightarrow> u8 list" where
  "unsigned_part s = (if has_sign s then drop 1 s else s)"

definition with_sign :: "u8 list \<Rightarrow> nat \<Rightarrow> int" where
  "with_sign s v = (if s ! 0 = 45 then - int v else int v)"

definition int_result :: "nat \<Rightarrow> u8 list \<Rightarrow> nat \<Rightarrow> u64 \<times> num_error option" where
  "int_result W s v =
     (let z = with_sign s v in
      if z < - (2 ^ (W - 1)) then (of_int (- (2 ^ (W - 1))), num_error_at ''ParseInt'' s ErrRange)
      else if 2 ^ (W - 1) \<le> z then (of_int (2 ^ (W - 1) - 1), num_error_at ''ParseInt'' s ErrRange)
      else (of_int z, None))"

lemma ParseInt_cases:
  assumes "s \<noteq> []" "ParseUint h (unsigned_part s) base bitSize = (un, err)"
  shows "err = None \<or> (\<exists>e. err = Some e \<and> Err e = ErrRange) \<Longrightarrow>
      ParseInt h s base bitSize =
        (let bitSize = (if bitSize = 0 then IntSize h else bitSize); cutoff = push_bit (nat (bitSize - 1)) 1 in
         if s ! 0 \<noteq> 45 \<and> un \<ge> cutoff then (cutoff - 1, num_error_at ''ParseInt'' s ErrRange)
         else if s ! 0 = 45 \<and> un > cutoff then (- cutoff, num_error_at ''ParseInt'' s ErrRange)
         else (if s ! 0 = 45 then - un else un, None))"
    and "err = Some e \<Longrightarrow> Err e \<noteq> ErrRange \<Longrightarrow>
      ParseInt h s base bitSize = (0, num_error_at ''ParseInt'' s (Err e))"
  using assms by (auto simp: ParseInt_def Let_def unsigned_part_def has_sign_def num_error_at_def)

lemma push_one: "push_bit n 1 = (2 ^ n :: u64)"
  by (simp add: push_bit_eq_mult)

lemma unat_exp: "n < 64 \<Longrightarrow> unat (2 ^ n :: u64) = 2 ^ n"
proof -
  assume "n < 64"
  then have "(2 :: nat) ^ n < 2 ^ 64" by (intro power_strict_increasing) simp_all
  then show ?thesis using unat_push_bit [of n "1 :: u64"] by (simp add: push_one)
qed

lemma ParseInt_digits:
  assumes base: "2 \<le> base" "base \<le> 36" and W: "2 \<le> int_width h bitSize" "0 \<le> bitSize" "bitSize \<le> 64"
    and s: "s \<noteq> []" "unsigned_part s \<noteq> []" "list_all (valid_digit (nat base)) (unsigned_part s)"
  shows "ParseInt h s base bitSize = int_result (int_width h bitSize) s (number_value (nat base) 0 (unsigned_part s))"
proof -
  define W v where "W = int_width h bitSize" and "v = number_value (nat base) 0 (unsigned_part s)"
  define un err where "un = fst (ParseUint h (unsigned_part s) base bitSize)" and "err = snd (ParseUint h (unsigned_part s) base bitSize)"
  have U: "ParseUint h (unsigned_part s) base bitSize = (un, err)" by (simp add: un_def err_def)
  have "ParseUint h (unsigned_part s) base bitSize = uint_result W False (unsigned_part s) base (unsigned_part s)"
    using ParseUint_result [OF s(2), of base bitSize h] base W(2,3) by (auto simp: W_def)
  then have res: "un = (if 2 ^ W \<le> v then of_nat (2 ^ W - 1) else of_nat v)"
    "err = (if 2 ^ W \<le> v then num_error_at ''ParseUint'' (unsigned_part s) ErrRange else None)"
    using U s(3) by (auto simp: uint_result_def v_def takeWhile_all split: if_splits)
  have w: "2 \<le> W" "W \<le> 64" using W int_width_le [OF W(2,3)] by (auto simp: W_def)
  have two: "(2 :: nat) ^ W = 2 * 2 ^ (W - 1)" using w(1) by (simp flip: power_Suc)
  have big: "(2 :: nat) \<le> 2 ^ (W - 1)" using w(1) power_increasing [of 1 "W - 1" "2 :: nat"] by simp
  have le: "(2 :: nat) ^ W \<le> 2 ^ 64" using w(2) by (intro power_increasing) simp_all
  have small: "unat (of_nat k :: u64) = k" if "k < 2 ^ W" for k
    using that le by (simp only: unat_of_nat) simp
  have u: "unat un = (if 2 ^ W \<le> v then 2 ^ W - 1 else v)"
    using res(1) small [of v] small [of "2 ^ W - 1"] by (auto simp del: of_nat_diff)
  have c: "unat (2 ^ (W - 1) :: u64) = 2 ^ (W - 1)" using w by (intro unat_exp) simp
  have n: "nat ((if bitSize = 0 then IntSize h else bitSize) - 1) = W - 1" by (simp add: W_def int_width_def)
  have ge: "2 ^ (W - 1) \<le> un \<longleftrightarrow> (2 :: int) ^ (W - 1) \<le> int v"
    unfolding word_le_nat_alt c u using two big by (auto simp flip: of_nat_power_le_of_nat_cancel_iff)
  have gt: "2 ^ (W - 1) < un \<longleftrightarrow> (2 :: int) ^ (W - 1) < int v"
    unfolding word_less_nat_alt c u using two big by (auto simp flip: of_nat_power_less_of_nat_cancel_iff)
  have in_range: "un = of_nat v" if "int v \<le> 2 ^ (W - 1)"
  proof -
    have "v \<le> 2 ^ (W - 1)" using that by (metis of_nat_le_iff of_nat_numeral of_nat_power)
    then have "\<not> 2 ^ W \<le> v" using two big by linarith
    then show ?thesis using res(1) by simp
  qed
  have "err = None \<or> (\<exists>e. err = Some e \<and> Err e = ErrRange)" unfolding res(2) by (simp add: num_error_at_def)
  have "(0 :: int) < 2 ^ (W - 1)" by simp
  then have pos: "\<not> (2 :: int) ^ (W - 1) \<le> - int v" "\<not> int v < - (2 ^ (W - 1))" by linarith+
  from ParseInt_cases(1) [OF s(1) U \<open>err = None \<or> _\<close>] show ?thesis
    unfolding int_result_def with_sign_def Let_def n push_one ge gt W_def [symmetric] v_def [symmetric]
    using in_range pos by auto
qed

text \<open>Parsing a signed number. For a sign (or none) and digits of the base, and every bit size but 1, \<open>ParseInt\<close>
  returns the number if the signed type of that size can hold it, and otherwise the nearest bound of the type with a
  range error. (For bit size 1 it accepts every negative number as -1, without an error.)\<close>
theorem parse_int_exact:
  assumes "2 \<le> base" "base \<le> 36" "0 \<le> bitSize" "bitSize \<le> 64" "bitSize \<noteq> 1"
    and "s \<noteq> []" "unsigned_part s \<noteq> []" "list_all (valid_digit (nat base)) (unsigned_part s)"
  shows "ParseInt h s base bitSize =
    (let W = int_width h bitSize; z = with_sign s (number_value (nat base) 0 (unsigned_part s)) in
     if z < - (2 ^ (W - 1)) then (of_int (- (2 ^ (W - 1))), num_error_at ''ParseInt'' s ErrRange)
     else if 2 ^ (W - 1) \<le> z then (of_int (2 ^ (W - 1) - 1), num_error_at ''ParseInt'' s ErrRange)
     else (of_int z, None))"
proof -
  have "2 \<le> int_width h bitSize" using assms(3,5) by (auto simp: int_width_def IntSize_def)
  then show ?thesis using ParseInt_digits [OF assms(1,2) _ assms(3,4,6,7,8)] by (simp add: int_result_def Let_def)
qed

theorem parse_int_exact_witness:
  "ParseInt False (bytes ''-129'') 10 8 = (- 128, num_error_at ''ParseInt'' (bytes ''-129'') ErrRange)"
proof -
  have s: "bytes ''-129'' = [45, 49, 50, 57]" by code_simp
  show ?thesis unfolding s
    by (subst parse_int_exact)
      (simp_all add: unsigned_part_def has_sign_def with_sign_def valid_digit_def digit_value_def number_value_def
        int_width_def)
qed

text \<open>The boundary case that the documentation of \<open>ParseInt\<close> excludes: -5 is out of the range of one bit.\<close>

lemma parse_int_one_bit: "ParseInt h (bytes ''-5'') 10 1 = (- 1, None)"
proof -
  have s: "bytes ''-5'' = [45, 53]" by code_simp
  have "ParseUint h [53] 10 1 = (1, num_error_at ''ParseUint'' [53] ErrRange)"
    using ParseUint_result [of "[53]" 10 1 h]
    by (simp add: uint_result_def valid_digit_def digit_value_def number_value_def int_width_def)
  then show ?thesis unfolding s
    by (subst ParseInt_cases(1)) (auto simp: unsigned_part_def has_sign_def num_error_at_def)
qed

section \<open>Parsing what was formatted\<close>

lemma digit_value_char: "k < 36 \<Longrightarrow> digit_value (digit_char k) = Some k"
proof -
  assume k: "k < 36"
  then have "unat (of_nat k :: u8) = k" by (simp add: unat_of_nat)
  then have "unat (digit_char k) = (if k < 10 then 48 + k else 87 + k)"
    using k by (simp add: digit_char_def add_small)
  then show ?thesis using k by (auto simp: digit_value_def word_le_nat_alt split: if_splits)
qed

lemma numeral_valid:
  assumes "2 \<le> b" "b \<le> 36"
  shows "list_all (valid_digit b) (numeral_of b n) \<and> number_value b 0 (numeral_of b n) = n \<and> numeral_of b n \<noteq> []"
proof (induction n rule: less_induct)
  case (less n)
  show ?case
  proof (cases "n < b")
    case True
    then show ?thesis using assms digit_value_char [of n]
      by (simp add: numeral_small valid_digit_def number_value_def)
  next
    case False
    have d: "n mod b < b" "n mod b < 36" using assms mod_less_divisor [of b n] by linarith+
    have "n div b < n" using False assms by (intro div_less_dividend) simp_all
    from less.IH [OF this] show ?thesis using False assms d digit_value_char [of "n mod b"]
      by (simp add: numeral_step valid_digit_def number_value_def)
  qed
qed

lemma signed_parts:
  assumes "2 \<le> b" "b \<le> 36"
  shows "unsigned_part (signed_numeral b z) = numeral_of b (nat \<bar>z\<bar>)"
    and "with_sign (signed_numeral b z) (nat \<bar>z\<bar>) = z"
proof -
  obtain c cs where c: "numeral_of b (nat \<bar>z\<bar>) = c # cs" "c \<noteq> 45 \<and> c \<noteq> 43"
    using numeral_valid [OF assms, of "nat \<bar>z\<bar>"] sign_not_digit by (cases "numeral_of b (nat \<bar>z\<bar>)") auto
  have m: "bytes ''-'' = [45]" by code_simp
  show "unsigned_part (signed_numeral b z) = numeral_of b (nat \<bar>z\<bar>)"
    "with_sign (signed_numeral b z) (nat \<bar>z\<bar>) = z"
    using c by (auto simp: signed_numeral_def unsigned_part_def has_sign_def with_sign_def m)
qed

text \<open>Parsing inverts formatting. In every base from 2 to 36, for every \<open>int64\<close> and \<open>uint64\<close> and on machines of
  either width, parsing the text that \<open>FormatInt\<close> or \<open>FormatUint\<close> returns gives the number back, without an error.\<close>
theorem parse_format_roundtrip:
  assumes "2 \<le> base" "base \<le> 36"
  shows "(\<exists>t. FormatInt h i base = Inr t \<and> ParseInt h' t base 64 = (i, None))
    \<and> (\<exists>t. FormatUint h u base = Inr t \<and> ParseUint h' t base 64 = (u, None))"
proof
  let ?b = "nat base"
  have b: "2 \<le> ?b" "?b \<le> 36" using assms by linarith+
  let ?t = "signed_numeral ?b (sint i)"
  note p = signed_parts [OF b, of "sint i"] and v = numeral_valid [OF b, of "nat \<bar>sint i\<bar>"]
  have "?t \<noteq> []" using v by (simp add: signed_numeral_def)
  then have "ParseInt h' ?t base 64 = int_result (int_width h' 64) ?t (nat \<bar>sint i\<bar>)"
    using ParseInt_digits [OF assms _ _ _ \<open>?t \<noteq> []\<close>, of h' 64] v p(1) by (simp add: int_width_def)
  moreover have "- (2 ^ 63) \<le> sint i" "sint i < 2 ^ 63" using sint_ge [of i] sint_lt [of i] by simp_all
  ultimately have "ParseInt h' ?t base 64 = (i, None)" by (simp add: int_result_def p(2) int_width_def)
  then show "\<exists>t. FormatInt h i base = Inr t \<and> ParseInt h' t base 64 = (i, None)"
    using format_texts [of h i base] assms by simp
next
  let ?b = "nat base"
  have b: "2 \<le> ?b" "?b \<le> 36" using assms by linarith+
  note v = numeral_valid [OF b, of "unat u"]
  have "unat u < 2 ^ 64" using unat_less [of u] by simp
  then have "ParseUint h' (numeral_of ?b (unat u)) base 64 = (u, None)"
    using ParseUint_result [of "numeral_of ?b (unat u)" base 64 h'] assms v
    by (simp add: uint_result_def takeWhile_all int_width_def)
  then show "\<exists>t. FormatUint h u base = Inr t \<and> ParseUint h' t base 64 = (u, None)"
    using format_texts [of h _ base u] assms by simp
qed

theorem parse_format_roundtrip_witness:
  "\<exists>t. FormatUint True 255 16 = Inr t \<and> ParseUint False t 16 64 = (255, None)"
  using parse_format_roundtrip [of 16 True 0 False 255] by simp

section \<open>\<open>Atoi\<close>\<close>

lemma number_value_bound:
  "list_all (valid_digit b) s \<Longrightarrow> number_value b n s < (n + 1) * b ^ length s"
proof (induction s arbitrary: n)
  case (Cons c s)
  obtain d where d: "digit_value c = Some d" "d < b"
    using Cons.prems by (auto simp: valid_digit_def split: option.splits)
  have "number_value b (n * b + d) s < (n * b + d + 1) * b ^ length s" using Cons by simp
  also have "\<dots> \<le> ((n + 1) * b) * b ^ length s" using d(2) by (intro mult_le_mono1) simp
  finally have "number_value b (n * b + d) s < (n + 1) * b ^ length (c # s)"
    by (simp only: length_Cons power_Suc mult.assoc)
  then show ?case using d(1) by (simp add: number_value_def)
qed (simp add: number_value_def)

lemma wrap_int_id: "- (2 ^ (if h then 31 else 63)) \<le> z \<Longrightarrow> z < 2 ^ (if h then 31 else 63) \<Longrightarrow> wrap_int h z = z"
  by (auto simp: wrap_int_def intro!: signed_take_bit_int_eq_self)

lemma wrap_int_nat:
  assumes "k < 2 ^ (if h then 31 else 63)"
  shows "wrap_int h (int k) = int k"
proof (rule wrap_int_id)
  show "int k < 2 ^ (if h then 31 else 63)" using assms by (metis of_nat_less_iff of_nat_numeral of_nat_power)
  show "- (2 ^ (if h then 31 else 63)) \<le> int k" by (rule order_trans [of _ 0]) simp_all
qed

lemma decimal_digit:
  "(9 < c - 48) = (\<not> valid_digit 10 c)" "valid_digit 10 c \<Longrightarrow> digit_value c = Some (unat (c - 48))" for c :: u8
proof -
  have c: "unat c < 256" using unat_less [of c] by simp
  have u: "unat (c - 48) = (if 48 \<le> unat c then unat c - 48 else unat c + 208)"
    using unat_sub_if' [of c 48] by simp
  have v: "valid_digit 10 c \<longleftrightarrow> 48 \<le> unat c \<and> unat c \<le> 57"
    by (auto simp: valid_digit_def digit_value_def word_le_nat_alt)
  show "(9 < c - 48) = (\<not> valid_digit 10 c)" using c by (auto simp: word_less_nat_alt u v)
  show "valid_digit 10 c \<Longrightarrow> digit_value c = Some (unat (c - 48))"
    unfolding v by (simp add: u digit_value_def word_le_nat_alt)
qed

lemma atoi_loop_spec:
  "(n + 1) * 10 ^ length s \<le> 2 ^ (if h then 31 else 63) \<Longrightarrow>
   atoi_loop h (int n) s = (if list_all (valid_digit 10) s then Some (int (number_value 10 n s)) else None)"
proof (induction s arbitrary: n)
  case (Cons c s)
  let ?d = "unat (c - 48)"
  show ?case
  proof (cases "valid_digit 10 c")
    case True
    then have dv: "digit_value c = Some ?d" and d: "?d < 10"
      using decimal_digit(2) [OF True] by (auto simp: valid_digit_def split: option.splits)
    have "n * 10 + ?d + 1 \<le> (n + 1) * 10" using d by simp
    from mult_le_mono1 [OF this, of "10 ^ length s"]
    have m: "(n * 10 + ?d + 1) * 10 ^ length s \<le> (n + 1) * 10 ^ length (c # s)"
      by (simp only: length_Cons power_Suc mult.assoc)
    then have le: "(n * 10 + ?d + 1) * 10 ^ length s \<le> 2 ^ (if h then 31 else 63)" using Cons.prems by linarith
    have "(n * 10 + ?d + 1) * 1 \<le> (n * 10 + ?d + 1) * 10 ^ length s" by (intro mult_le_mono2) simp
    from order_trans [OF this le] have "n * 10 + ?d < 2 ^ (if h then 31 else 63)" by simp
    then have "wrap_int h (int (n * 10 + ?d)) = int (n * 10 + ?d)" by (rule wrap_int_nat)
    then have w: "wrap_int h (int n * 10 + uint (c - 48)) = int (n * 10 + ?d)" by simp
    show ?thesis using Cons.IH [OF le] True dv decimal_digit(1) [of c] w
      by (simp add: number_value_def Let_def del: of_nat_add of_nat_mult)
  next
    case False
    then show ?thesis using decimal_digit(1) [of c] by simp
  qed
qed (simp add: number_value_def)

text \<open>Strings that are too short to overflow, with any bytes in them.\<close>

lemma ParseInt_short:
  assumes s: "s \<noteq> []" "(10 :: nat) ^ length (unsigned_part s) \<le> 2 ^ (if h then 31 else 63)"
  shows "ParseInt h s 10 0 =
    (if unsigned_part s \<noteq> [] \<and> list_all (valid_digit 10) (unsigned_part s)
     then (of_int (with_sign s (number_value 10 0 (unsigned_part s))), None)
     else (0, num_error_at ''ParseInt'' s ErrSyntax))"
proof -
  let ?u = "unsigned_part s" and ?v = "number_value 10 0 (unsigned_part s)"
  have W: "int_width h 0 = (if h then 32 else 64)" by (simp add: int_width_def IntSize_def)
  show ?thesis
  proof (cases "?u \<noteq> [] \<and> list_all (valid_digit 10) ?u")
    case True
    then have "ParseInt h s 10 0 = int_result (int_width h 0) s ?v"
      using ParseInt_digits [of 10 h 0 s] s(1) W by simp
    moreover have "?v < 10 ^ length ?u" using number_value_bound [of 10 ?u 0] True by simp
    then have v: "?v < 2 ^ (if h then 31 else 63)" using s(2) by linarith
    have "- (2 ^ (int_width h 0 - 1)) \<le> with_sign s ?v \<and> with_sign s ?v < 2 ^ (int_width h 0 - 1)"
      using v W by (auto simp: with_sign_def split: if_splits)
    ultimately show ?thesis using True by (auto simp: int_result_def Let_def not_less)
  next
    case False
    let ?p = "takeWhile (valid_digit 10) ?u"
    have e: "\<exists>e. snd (ParseUint h ?u 10 0) = Some e \<and> Err e = ErrSyntax"
    proof (cases "?u = []")
      case True
      then show ?thesis by (simp add: ParseUint_def num_error_at_def)
    next
      case nonempty: False
      have "list_all (valid_digit 10) ?p" by (simp add: list_all_iff) (metis set_takeWhileD)
      from number_value_bound [OF this, of 0] have "number_value 10 0 ?p < 10 ^ length ?p" by simp
      also have "\<dots> \<le> 10 ^ length ?u" by (intro power_increasing) (simp_all add: length_takeWhile_le)
      finally have "number_value 10 0 ?p < 2 ^ int_width h 0" using s(2) W by (auto split: if_splits)
      moreover have "?p \<noteq> ?u" using False nonempty by (auto simp: takeWhile_eq_all_conv list_all_iff)
      ultimately show ?thesis using ParseUint_result [OF nonempty, of 10 0 h]
        by (simp add: uint_result_def Let_def num_error_at_def)
    qed
    obtain un err where U: "ParseUint h ?u 10 0 = (un, err)" by (rule prod.exhaust)
    then obtain e where "err = Some e" "Err e = ErrSyntax" using e by auto
    then show ?thesis using ParseInt_cases(2) [OF s(1) U] False by auto
  qed
qed

text \<open>\<open>Atoi\<close> is \<open>ParseInt(s, 10, 0)\<close> converted to \<open>int\<close>, for every string and on machines of either width: the
  fast path for short strings, which computes with wrapping \<open>int\<close>s and no overflow test, returns the same values and the
  same errors, under its own name.\<close>
theorem atoi_parse_int:
  "Atoi h s = (let (i, err) = ParseInt h s 10 0 in (wrap_int h (sint i), map_option (\<lambda>e. e\<lparr>Func := ''Atoi''\<rparr>) err))"
proof (cases "IntSize h = 32 \<and> 0 < length s \<and> length s < 10 \<or> IntSize h = 64 \<and> 0 < length s \<and> length s < 19")
  case True
  let ?u = "unsigned_part s"
  define v where "v = number_value 10 0 ?u"
  have s: "s \<noteq> []" using True by auto
  have "length ?u \<le> length s" by (simp add: unsigned_part_def)
  then have "length ?u \<le> (if h then 9 else 18)" using True by (auto simp: IntSize_def split: if_splits)
  then have "(10 :: nat) ^ length ?u \<le> 10 ^ (if h then 9 else 18)" by (intro power_increasing) simp_all
  also have "\<dots> \<le> 2 ^ (if h then 31 else 63)" by simp
  finally have len: "(10 :: nat) ^ length ?u \<le> 2 ^ (if h then 31 else 63)" .
  note P = ParseInt_short [OF s len, folded v_def]
  have loop: "atoi_loop h 0 ?u = (if list_all (valid_digit 10) ?u then Some (int v) else None)"
    using atoi_loop_spec [of 0 ?u h] len by (simp add: v_def)
  have wrap: "wrap_int h (sint (of_int (with_sign s v) :: u64)) = with_sign s v"
    "wrap_int h (- int v) = - int v" if "list_all (valid_digit 10) ?u"
  proof -
    have "v < 10 ^ length ?u" unfolding v_def using number_value_bound [OF that, of 0] by simp
    then have v: "v < 2 ^ (if h then 31 else 63)" using len by linarith
    then have r: "- (2 ^ (if h then 31 else 63)) \<le> with_sign s v" "with_sign s v < 2 ^ (if h then 31 else 63)"
      "- (2 ^ (if h then 31 else 63)) \<le> - int v" "- int v < 2 ^ (if h then 31 else 63)"
      by (auto simp: with_sign_def split: if_splits)
    then have "sint (of_int (with_sign s v) :: u64) = with_sign s v"
      by (auto simp: sint_sbintrunc' intro!: signed_take_bit_int_eq_self split: if_splits)
    then show "wrap_int h (sint (of_int (with_sign s v) :: u64)) = with_sign s v" "wrap_int h (- int v) = - int v"
      using r by (simp_all add: wrap_int_id)
  qed
  have A: "Atoi h s =
      (if has_sign s \<and> length ?u < 1 then (0, num_error_at ''Atoi'' s ErrSyntax)
       else case atoi_loop h 0 ?u of None \<Rightarrow> (0, num_error_at ''Atoi'' s ErrSyntax)
         | Some n \<Rightarrow> (if s ! 0 = 45 then wrap_int h (- n) else n, None))"
    unfolding Atoi_def Let_def if_P [OF True] chars errors unsigned_part_def has_sign_def by (simp add: disj_commute)
  show ?thesis
    unfolding A P loop using wrap s
    by (auto simp: num_error_at_def with_sign_def wrap_int_def unsigned_part_def split: if_splits)
next
  case False
  show ?thesis unfolding Atoi_def Let_def if_not_P [OF False] by (rule refl)
qed

section \<open>Underscores\<close>

definition literal_digit :: "bool \<Rightarrow> u8 \<Rightarrow> bool" where
  "literal_digit hex c \<longleftrightarrow> 48 \<le> c \<and> c \<le> 57 \<or> hex \<and> (97 \<le> c \<and> c \<le> 102 \<or> 65 \<le> c \<and> c \<le> 70)"

text \<open>Between digits (or after a prefix): every underscore of \<open>s\<close> has a digit before and a digit after it.\<close>

definition between_digits :: "bool \<Rightarrow> bool \<Rightarrow> u8 list \<Rightarrow> bool" where
  "between_digits hex pre s \<longleftrightarrow> (\<forall>i < length s. s ! i = 95 \<longrightarrow>
     (if i = 0 then pre else literal_digit hex (s ! (i - 1))) \<and> i + 1 < length s \<and> literal_digit hex (s ! (i + 1)))"

lemma between_Cons:
  "between_digits hex pre (c # s) \<longleftrightarrow>
    (c = 95 \<longrightarrow> pre \<and> s \<noteq> [] \<and> literal_digit hex (hd s)) \<and> between_digits hex (literal_digit hex c) s"
proof -
  have all: "(\<forall>i < Suc n. P i) \<longleftrightarrow> P 0 \<and> (\<forall>i < n. P (Suc i))" for n and P :: "nat \<Rightarrow> bool"
    by (simp add: All_less_Suc2)
  have first: "0 + 1 < Suc (length s) \<and> literal_digit hex ((c # s) ! (0 + 1)) \<longleftrightarrow> s \<noteq> [] \<and> literal_digit hex (hd s)"
    by (cases s) simp_all
  have before: "(if Suc i = 0 then pre else literal_digit hex ((c # s) ! (Suc i - 1)))
      = (if i = 0 then literal_digit hex c else literal_digit hex (s ! (i - 1)))" for i
    by (cases i) simp_all
  have after: "Suc i + 1 < Suc (length s) \<and> literal_digit hex ((c # s) ! (Suc i + 1))
      \<longleftrightarrow> i + 1 < length s \<and> literal_digit hex (s ! (i + 1))" for i
    by simp
  show ?thesis
    unfolding between_digits_def length_Cons all first before after nth_Cons_0 nth_Cons_Suc by simp
qed

lemma hex_letter: "97 \<le> lower c \<and> lower c \<le> 102 \<longleftrightarrow> 97 \<le> c \<and> c \<le> 102 \<or> 65 \<le> c \<and> c \<le> 70"
proof -
  let ?n = "unat c" and ?l = "unat (lower c)"
  have upper: "?l = ?n + 32" if "65 \<le> ?n" "?n \<le> 70"
  proof -
    have "?n div 32 = 2" using that by (intro div_nat_eqI) simp_all
    then show ?thesis by (simp add: unat_lower)
  qed
  have letter: "?l = ?n" if "97 \<le> ?n" "?n \<le> 102"
  proof -
    have "?n div 32 = 3" using that by (intro div_nat_eqI) simp_all
    then show ?thesis by (simp add: unat_lower)
  qed
  show ?thesis using upper letter by (auto simp: word_le_nat_alt unat_lower split: if_splits)
qed

lemma underscore_loop_spec:
  "underscore_loop hex saw s \<longleftrightarrow>
    between_digits hex (saw = CHR ''0'') s \<and> (saw = CHR ''_'' \<longrightarrow> s \<noteq> [] \<and> literal_digit hex (hd s))"
proof (induction hex saw s rule: underscore_loop.induct)
  case (1 hex saw)
  then show ?case by (simp add: between_digits_def)
next
  case (2 hex saw c cs)
  have d: "(of_char (CHR ''0'') \<le> c \<and> c \<le> of_char (CHR ''9'') \<or> hex \<and> of_char (CHR ''a'') \<le> lower c \<and> lower c \<le> of_char (CHR ''f''))
      = literal_digit hex c"
    using hex_letter [of c] by (simp add: literal_digit_def)
  have u: "\<not> literal_digit hex 95" by (simp add: literal_digit_def)
  show ?case
  proof (cases "literal_digit hex c")
    case True
    then show ?thesis using 2(1) u unfolding underscore_loop.simps d between_Cons by auto
  next
    case nd: False
    show ?thesis
    proof (cases "c = 95")
      case True
      then show ?thesis using 2(2) nd u unfolding underscore_loop.simps d between_Cons by auto
    next
      case False
      then show ?thesis using 2(3) nd unfolding underscore_loop.simps d between_Cons by auto
    qed
  qed
qed

text \<open>Underscores. After an optional sign and an optional prefix \<open>0b\<close>, \<open>0o\<close> or \<open>0x\<close>, \<open>underscoreOK\<close> accepts exactly the
  strings in which every underscore has a digit directly before it (the prefix counts as one) and a digit directly
  after it, the letters \<open>a\<close> to \<open>f\<close> being digits after \<open>0x\<close> only.\<close>
theorem underscore_rule:
  "underscoreOK s =
    (let t = (if s \<noteq> [] \<and> has_sign s then drop 1 s else s) in
     if has_prefix t then between_digits (lower (t ! 1) = 120) True (drop 2 t) else between_digits False False t)"
proof -
  have "1 \<le> length s \<longleftrightarrow> s \<noteq> []" by (cases s) simp_all
  then show ?thesis
    by (simp add: underscoreOK_def underscore_loop_spec has_sign_def Let_def disj_commute)
qed

end
