(* ===== verification/LockSpec.thy ===== *)
theory LockSpec
  imports Mutex
begin

text \<open>
  What the users of a \<open>sync.Mutex\<close> rely on, as an interface: a lock that goroutines take and give
  back in many interleaved steps, and which at most one of them holds. A client is a list of
  phases, one per goroutine; it may move a goroutine's lock only in the phases that acquire or
  release it. \<open>sync.RWMutex\<close> and \<open>sync.Once\<close> are such clients, and the model of \<open>sync.Mutex\<close>
  provides the interface.
\<close>

datatype phase = POut | PAcquire | PIn | PRelease

text \<open>The phases of a list of program points.\<close>

definition phases :: "('p \<Rightarrow> phase) \<Rightarrow> 'p list \<Rightarrow> nat \<Rightarrow> phase" where
  "phases f xs i = (if i < length xs then f (xs ! i) else POut)"

lemma phases_nth: "i < length xs \<Longrightarrow> phases f xs i = f (xs ! i)"
  by (simp add: phases_def)

lemma phases_upd: "i < length xs \<Longrightarrow> phases f (xs[i := x]) = (phases f xs)(i := f x)"
  by (auto simp: phases_def fun_eq_iff)

lemma phases_same: "i < length xs \<Longrightarrow> f x = f (xs ! i) \<Longrightarrow> phases f (xs[i := x]) = phases f xs"
  by (auto simp: phases_def fun_eq_iff nth_list_update)

locale exclusive_lock =
  fixes linv :: "'s \<Rightarrow> bool"
    and lstep :: "nat \<Rightarrow> 'e \<Rightarrow> 's \<Rightarrow> 's option"
    and holds :: "nat \<Rightarrow> 's \<Rightarrow> bool"
    and outside :: "nat \<Rightarrow> 's \<Rightarrow> bool"
  assumes step_inv: "linv s \<Longrightarrow> lstep i e s = Some s' \<Longrightarrow> linv s'"
    and exclusive: "linv s \<Longrightarrow> holds i s \<Longrightarrow> holds j s \<Longrightarrow> i = j"
    and others: "linv s \<Longrightarrow> lstep i e s = Some s' \<Longrightarrow> j \<noteq> i \<Longrightarrow>
                   (holds j s' \<longleftrightarrow> holds j s) \<and> (outside j s' \<longleftrightarrow> outside j s)"
    and progress: "linv s \<Longrightarrow> (\<And>i. \<not> outside i s \<Longrightarrow> \<not> holds i s \<and> (\<forall>e. lstep i e s = None)) \<Longrightarrow> outside j s"
begin

text \<open>The lock agrees with the phases of its client.\<close>

definition fits :: "'s \<Rightarrow> (nat \<Rightarrow> phase) \<Rightarrow> bool" where
  "fits s ph \<longleftrightarrow> linv s \<and> (\<forall>i. (ph i = POut \<longrightarrow> outside i s) \<and> (ph i = PIn \<longrightarrow> holds i s))"

lemma fits_exclusive: "fits s ph \<Longrightarrow> ph i = PIn \<Longrightarrow> ph j = PIn \<Longrightarrow> i = j"
  unfolding fits_def using exclusive by blast

lemma fits_begin: "fits s ph \<Longrightarrow> fits s (ph(i := PAcquire))"
  by (simp add: fits_def)

lemma fits_step: "fits s ph \<Longrightarrow> ph i = PAcquire \<or> ph i = PRelease \<Longrightarrow> lstep i e s = Some s' \<Longrightarrow> fits s' ph"
  unfolding fits_def using step_inv others by (metis phase.distinct)

lemma fits_enter: "fits s ph \<Longrightarrow> holds i s \<Longrightarrow> fits s (ph(i := PIn))"
  by (simp add: fits_def)

lemma fits_leave: "fits s ph \<Longrightarrow> fits s (ph(i := PRelease))"
  by (simp add: fits_def)

text \<open>If nobody is in the lock and all that try to get in or out are stuck, nobody is trying.\<close>

lemma fits_progress:
  assumes "fits s ph" "\<And>i. ph i \<noteq> PIn"
    and "\<And>i. ph i = PAcquire \<Longrightarrow> \<not> holds i s \<and> (\<forall>e. lstep i e s = None)"
    and "\<And>i. ph i = PRelease \<Longrightarrow> \<not> outside i s \<and> \<not> holds i s \<and> (\<forall>e. lstep i e s = None)"
  shows "outside j s \<and> ph j \<noteq> PRelease"
proof -
  have "\<not> holds i s \<and> (\<forall>e. lstep i e s = None)" if "\<not> outside i s" for i
    using assms that unfolding fits_def by (cases "ph i") auto
  then have o: "outside i s" for i using progress assms(1) unfolding fits_def by blast
  then show ?thesis using assms(4) by blast
qed

lemma fits_end: "fits s ph \<Longrightarrow> outside i s \<Longrightarrow> fits s (ph(i := POut))"
  by (simp add: fits_def)

end

text \<open>A lock on which whoever is outside can start to acquire it, and whoever holds it to release it.\<close>

locale live_lock = exclusive_lock +
  fixes known :: "nat \<Rightarrow> 'a \<Rightarrow> bool"
  assumes outside_moves: "linv s \<Longrightarrow> known i s \<Longrightarrow> outside i s \<Longrightarrow> \<exists>e. lstep i e s \<noteq> None"
    and holds_moves: "linv s \<Longrightarrow> holds i s \<Longrightarrow> \<exists>e. lstep i e s \<noteq> None"
begin

text \<open>So when nobody is in the lock and nobody at it can move, everybody is out.\<close>

lemma fits_all_out:
  assumes "fits s ph" "\<And>i. ph i \<noteq> POut \<Longrightarrow> known i s \<and> ph i \<noteq> PIn \<and> (\<forall>e. lstep i e s = None)"
    and "\<And>i. ph i = PAcquire \<Longrightarrow> \<not> holds i s" "\<And>i. ph i = PRelease \<Longrightarrow> \<not> outside i s"
  shows "ph j = POut"
proof -
  have inv: "linv s" using assms(1) by (simp add: fits_def)
  have "outside j s \<and> ph j \<noteq> PRelease" for j
  proof (rule fits_progress [OF assms(1)])
    show "\<not> outside i s \<and> \<not> holds i s \<and> (\<forall>e. lstep i e s = None)" if "ph i = PRelease" for i
      using assms(2) [of i] assms(4) [of i] holds_moves [OF inv, of i] that by auto
  qed (use assms(2,3) in force)+
  then have "outside j s" by blast
  show ?thesis
  proof (rule ccontr)
    assume "ph j \<noteq> POut"
    then have "known j s" "\<forall>e. lstep j e s = None" using assms(2) by blast+
    then show False using outside_moves [OF inv _ \<open>outside j s\<close>] by simp
  qed
qed

end

section \<open>The mutex provides the interface\<close>

definition mutex_good :: "mutex \<Rightarrow> bool" where
  "mutex_good s \<longleftrightarrow> mutex_inv s \<and> length (gs s) < 2 ^ 28"

definition mutex_event :: "nat \<Rightarrow> bool \<times> bool \<times> bool \<Rightarrow> mutex \<Rightarrow> mutex option" where
  "mutex_event i e s = mutex_step i (fst e) (fst (snd e)) (snd (snd e)) s"

definition mutex_holds :: "nat \<Rightarrow> mutex \<Rightarrow> bool" where
  "mutex_holds i s \<longleftrightarrow> i < length (gs s) \<and> gs s ! i = Holding"

text \<open>A goroutine that the mutex does not know is outside.\<close>

definition mutex_outside :: "nat \<Rightarrow> mutex \<Rightarrow> bool" where
  "mutex_outside i s \<longleftrightarrow> (i < length (gs s) \<longrightarrow> gs s ! i = Outside)"

lemma mutex_step_others:
  assumes "mutex_step i spin late other s = Some s'" "j \<noteq> i"
  shows "(gs s' ! j = Holding \<longleftrightarrow> gs s ! j = Holding) \<and> (gs s' ! j = Outside \<longleftrightarrow> gs s ! j = Outside)"
proof -
  have upd: "((xs[k := Woken l t])[i := x]) ! j = (if j = k \<and> k < length xs then Woken l t else xs ! j)" for xs k l t x
    using assms(2) by (cases "k < length xs") (auto simp: nth_list_update list_update_beyond not_less)
  show ?thesis
  proof (cases "gs s ! i")
    case (Ready k h)
    have i: "i < length (gs s)" using assms(1) by (auto simp: mutex_step_def split: if_splits)
    show ?thesis
    proof (cases "gs s ! k")
      case (Asleep l)
      then show ?thesis
        using Ready i assms(1) by (auto simp: mutex_step_def semrelease1_ready_def upd split: prod.splits if_splits)
    qed (use Ready i assms in \<open>auto simp: mutex_step_def semrelease1_ready_def\<close>)
  qed (use assms in \<open>auto simp: mutex_step_def put_pc_def semacquire1_easy_def semacquire1_enter_def
      semacquire1_recheck_def semacquire1_leave_def semacquire1_woken_def semrelease1_add_def semrelease1_load_def
      semrelease1_search_def split: if_splits prod.splits bool.splits list.splits\<close>)
qed

lemma mutex_not_thrown: "mutex_inv s \<Longrightarrow> Thrown \<notin> set (gs s)"
proof -
  assume "mutex_inv s"
  then obtain L W S n where inv: "minv s L W S n" by (rule mutex_invE)
  have "\<forall>x \<in> set (gs s). local_ok n x" using inv unfolding minv_def by blast
  then show ?thesis by auto
qed

lemma mutex_exclusive: "mutex_inv s \<Longrightarrow> mutex_holds i s \<Longrightarrow> mutex_holds j s \<Longrightarrow> i = j"
proof (rule ccontr)
  assume inv: "mutex_inv s" and h: "mutex_holds i s" "mutex_holds j s" and ne: "i \<noteq> j"
  obtain L W S n where m: "minv s L W S n" using inv by (rule mutex_invE)
  let ?xs = "(gs s)[i := Outside]"
  have "tally hold_w ?xs + 1 = tally hold_w (gs s) + 0"
    using tally_upd [of i "gs s" hold_w Outside] h(1) by (simp add: mutex_holds_def)
  moreover have "hold_w (?xs ! j) \<le> tally hold_w ?xs"
    using h(2) by (intro tally_ge) (simp add: mutex_holds_def)
  moreover have "hold_w (?xs ! j) = 1" using h(2) ne by (simp add: mutex_holds_def)
  moreover have "tally hold_w (gs s) = of_bool L" using minv_hold_total [OF m] by (simp add: total_def)
  ultimately show False by (cases L) auto
qed

interpretation mutex_lock: exclusive_lock mutex_good mutex_event mutex_holds mutex_outside
proof
  show "mutex_good s'" if "mutex_good s" "mutex_event i e s = Some s'" for s i e s'
    using that mutex_step_inv [of s i "fst e" "fst (snd e)" "snd (snd e)" s'] length_gs_step [of i "fst e" "fst (snd e)" "snd (snd e)" s s']
    by (simp add: mutex_good_def mutex_event_def)
  show "i = j" if "mutex_good s" "mutex_holds i s" "mutex_holds j s" for s i j
    using that mutex_exclusive [of s i j] by (simp add: mutex_good_def)
  show "(mutex_holds j s' \<longleftrightarrow> mutex_holds j s) \<and> (mutex_outside j s' \<longleftrightarrow> mutex_outside j s)"
    if "mutex_event i e s = Some s'" "j \<noteq> i" for s i e s' j
    using that mutex_step_others [of i "fst e" "fst (snd e)" "snd (snd e)" s s' j] length_gs_step [of i "fst e" "fst (snd e)" "snd (snd e)" s s']
    by (simp add: mutex_event_def mutex_holds_def mutex_outside_def)
  show "mutex_outside j s"
    if good: "mutex_good s"
      and stuck: "\<And>i. \<not> mutex_outside i s \<Longrightarrow> \<not> mutex_holds i s \<and> (\<forall>e. mutex_event i e s = None)" for s j
  proof -
    have inv: "mutex_inv s" using good by (simp add: mutex_good_def)
    have "\<forall>spin late other. mutex_step i spin late other s = None" if "i < length (gs s)" "gs s ! i \<noteq> Outside" for i
    proof -
      have "\<not> mutex_outside i s" using that by (simp add: mutex_outside_def)
      then have "\<forall>e. mutex_event i e s = None" using stuck by blast
      then show ?thesis by (simp add: mutex_event_def)
    qed
    then have s: "s = mutex_init (length (gs s))" by (rule mutex_stuck [OF inv])
    show ?thesis by (subst s) (simp add: mutex_outside_def mutex_init_def)
  qed
qed

interpretation mutex_live: live_lock mutex_good mutex_event mutex_holds mutex_outside "\<lambda>i s. i < length (gs s)"
proof
  show "\<exists>e. mutex_event i e s \<noteq> None" if "i < length (gs s)" "mutex_outside i s" for s i
    using that by (simp add: mutex_outside_def mutex_event_def mutex_step_def)
  show "\<exists>e. mutex_event i e s \<noteq> None" if "mutex_holds i s" for s i
    using that by (simp add: mutex_holds_def mutex_event_def mutex_step_def)
qed

lemma mutex_init_fits: "k < 2 ^ 28 \<Longrightarrow> mutex_lock.fits (mutex_init k) (\<lambda>_. POut)"
  using mutex_init_inv [of k]
  by (simp add: mutex_lock.fits_def mutex_good_def mutex_outside_def mutex_init_def)

end
