(* ===== verification/RWMutex.thy ===== *)
theory RWMutex
  imports LockSpec GoWords
begin

text \<open>
  \<open>sync.RWMutex\<close> (\<open>sync/rwmutex.go\<close>) on top of \<open>sync.Mutex\<close>: goroutines that interleave at every
  access to the shared counters, to the two semaphores and, inside \<open>rw.w.Lock()\<close> and \<open>rw.w.Unlock()\<close>,
  at every step of the mutex. The counters are Go's \<open>int32\<close>; a semaphore is the number of its
  permits, and \<open>runtime_SemacquireMutex\<close> waits until there is one. The calls for the race detector
  are left out.
\<close>

section \<open>State\<close>

definition rwmutexMaxReaders :: u32 where "rwmutexMaxReaders = push_bit 30 1"

text \<open>
  Program points: idle; asleep on \<open>readerSem\<close>; reading; in \<open>rUnlockSlow\<close> with the count it was given;
  before the release of \<open>writerSem\<close>; in \<open>rw.w.Lock()\<close>; before the announcement; before the addition to
  \<open>readerWait\<close>; asleep on \<open>writerSem\<close>; writing; in the loop of \<open>Unlock\<close> with the releases still to do; in
  \<open>rw.w.Unlock()\<close>; after a \<open>throw\<close>.
\<close>

datatype rwpc =
    RIdle | RSleep | Reading | RUnlockSlow u32 | RWake
  | WLock | WAnnounce | WWait u32 | WSleep | Writing | WRelease nat | WUnlock | RWThrown

record rwmutex =
  w :: mutex
  readerCount :: u32
  readerWait :: u32
  readerSem :: nat
  writerSem :: nat
  rgs :: "rwpc list"

section \<open>The code\<close>

definition rw_RLock :: "u32 \<Rightarrow> rwpc \<times> u32" where
  "rw_RLock c = (let c = c + 1 in (if sint c < 0 then RSleep else Reading, c))"

definition rw_RUnlock :: "u32 \<Rightarrow> rwpc \<times> u32" where
  "rw_RUnlock c = (let r = c - 1 in (if sint r < 0 then RUnlockSlow r else RIdle, r))"

definition rUnlockSlow :: "u32 \<Rightarrow> u32 \<Rightarrow> rwpc \<times> u32" where
  "rUnlockSlow r wait =
     (if r + 1 = 0 \<or> r + 1 = - rwmutexMaxReaders then (RWThrown, wait)
      else let wait = wait - 1 in (if wait = 0 then RWake else RIdle, wait))"

text \<open>The locker that \<open>RLocker\<close> returns.\<close>

definition rlocker_Lock :: "u32 \<Rightarrow> rwpc \<times> u32" where "rlocker_Lock = rw_RLock"
definition rlocker_Unlock :: "u32 \<Rightarrow> rwpc \<times> u32" where "rlocker_Unlock = rw_RUnlock"

text \<open>\<open>Lock\<close> after \<open>rw.w.Lock()\<close>, in two steps.\<close>

definition rw_Lock_announce :: "u32 \<Rightarrow> rwpc \<times> u32" where
  "rw_Lock_announce c =
     (let c = c + (- rwmutexMaxReaders); r = c + rwmutexMaxReaders
      in (if r \<noteq> 0 then WWait r else Writing, c))"

definition rw_Lock_wait :: "u32 \<Rightarrow> u32 \<Rightarrow> rwpc \<times> u32" where
  "rw_Lock_wait r wait = (let wait = wait + r in (if wait \<noteq> 0 then WSleep else Writing, wait))"

definition rw_Unlock :: "u32 \<Rightarrow> rwpc \<times> u32" where
  "rw_Unlock c =
     (let r = c + rwmutexMaxReaders in
      (if sint r \<ge> sint rwmutexMaxReaders then RWThrown else WRelease (nat (sint r)), r))"

definition set_count :: "nat \<Rightarrow> rwpc \<times> u32 \<Rightarrow> rwmutex \<Rightarrow> rwmutex" where
  "set_count i r s = s\<lparr>readerCount := snd r, rgs := (rgs s)[i := fst r]\<rparr>"

definition set_wait :: "nat \<Rightarrow> rwpc \<times> u32 \<Rightarrow> rwmutex \<Rightarrow> rwmutex" where
  "set_wait i r s = s\<lparr>readerWait := snd r, rgs := (rgs s)[i := fst r]\<rparr>"

definition goto :: "nat \<Rightarrow> rwpc \<Rightarrow> rwmutex \<Rightarrow> rwmutex" where
  "goto i p s = s\<lparr>rgs := (rgs s)[i := p]\<rparr>"

text \<open>
  A step of goroutine \<open>i\<close>: an idle one locks for writing if \<open>wr\<close>, else for reading; the event \<open>e\<close> is for
  the mutex.
\<close>

definition rw_step :: "nat \<Rightarrow> bool \<Rightarrow> bool \<times> bool \<times> bool \<Rightarrow> rwmutex \<Rightarrow> rwmutex option" where
  "rw_step i wr e s =
     (if length (rgs s) \<le> i then None
      else case rgs s ! i of
        RIdle \<Rightarrow> Some (if wr then goto i WLock s else set_count i (rw_RLock (readerCount s)) s)
      | RSleep \<Rightarrow>
          if 0 < readerSem s then Some (goto i Reading (s\<lparr>readerSem := readerSem s - 1\<rparr>)) else None
      | Reading \<Rightarrow> Some (set_count i (rw_RUnlock (readerCount s)) s)
      | RUnlockSlow r \<Rightarrow> Some (set_wait i (rUnlockSlow r (readerWait s)) s)
      | RWake \<Rightarrow> Some (goto i RIdle (s\<lparr>writerSem := writerSem s + 1\<rparr>))
      | WLock \<Rightarrow>
          if mutex_holds i (w s) then Some (goto i WAnnounce s)
          else (case mutex_event i e (w s) of None \<Rightarrow> None | Some m \<Rightarrow> Some (s\<lparr>w := m\<rparr>))
      | WAnnounce \<Rightarrow> Some (set_count i (rw_Lock_announce (readerCount s)) s)
      | WWait r \<Rightarrow> Some (set_wait i (rw_Lock_wait r (readerWait s)) s)
      | WSleep \<Rightarrow>
          if 0 < writerSem s then Some (goto i Writing (s\<lparr>writerSem := writerSem s - 1\<rparr>)) else None
      | Writing \<Rightarrow> Some (set_count i (rw_Unlock (readerCount s)) s)
      | WRelease 0 \<Rightarrow> Some (goto i WUnlock s)
      | WRelease (Suc n) \<Rightarrow> Some (goto i (WRelease n) (s\<lparr>readerSem := readerSem s + 1\<rparr>))
      | WUnlock \<Rightarrow>
          if mutex_outside i (w s) then Some (goto i RIdle s)
          else (case mutex_event i e (w s) of None \<Rightarrow> None | Some m \<Rightarrow> Some (s\<lparr>w := m\<rparr>))
      | RWThrown \<Rightarrow> None)"

definition rw_init :: "nat \<Rightarrow> rwmutex" where
  "rw_init k = \<lparr>w = mutex_init k, readerCount = 0, readerWait = 0, readerSem = 0, writerSem = 0,
                rgs = replicate k RIdle\<rparr>"

inductive rw_reach :: "nat \<Rightarrow> rwmutex \<Rightarrow> bool" for k where
  init: "rw_reach k (rw_init k)"
| step: "rw_reach k s \<Longrightarrow> rw_step i wr e s = Some s' \<Longrightarrow> rw_reach k s'"

section \<open>The invariant\<close>

text \<open>What a program point weighs in each tally.\<close>

fun rwphase :: "rwpc \<Rightarrow> phase" where
  "rwphase WLock = PAcquire"
| "rwphase WUnlock = PRelease"
| "rwphase p = (if p \<in> {WAnnounce, WSleep, Writing} then PIn else
     case p of WWait _ \<Rightarrow> PIn | WRelease _ \<Rightarrow> PIn | _ \<Rightarrow> POut)"

fun rd_w :: "rwpc \<Rightarrow> nat" where "rd_w Reading = 1" | "rd_w _ = 0"
fun sl_w :: "rwpc \<Rightarrow> nat" where "sl_w RSleep = 1" | "sl_w _ = 0"
fun dp_w :: "rwpc \<Rightarrow> nat" where "dp_w (RUnlockSlow _) = 1" | "dp_w _ = 0"
fun wk_w :: "rwpc \<Rightarrow> nat" where "wk_w RWake = 1" | "wk_w _ = 0"

text \<open>Inside the write section: an announced writer, the count it has not added yet, its sleep, its
  writing, and the releases still to do after it.\<close>

fun an_w :: "rwpc \<Rightarrow> nat" where
  "an_w (WWait _) = 1" | "an_w WSleep = 1" | "an_w Writing = 1" | "an_w _ = 0"
fun ct_w :: "rwpc \<Rightarrow> nat" where "ct_w (WWait r) = unat r" | "ct_w _ = 0"
fun ws_w :: "rwpc \<Rightarrow> nat" where "ws_w WSleep = 1" | "ws_w _ = 0"
fun wt_w :: "rwpc \<Rightarrow> nat" where "wt_w Writing = 1" | "wt_w _ = 0"
fun rl_w :: "rwpc \<Rightarrow> nat" where "rl_w (WRelease n) = n" | "rl_w _ = 0"

fun rw_local :: "rwpc \<Rightarrow> bool" where
  "rw_local (RUnlockSlow r) = (- (2 ^ 30) \<le> sint r \<and> sint r < -1)"
| "rw_local (WWait r) = (r \<noteq> 0 \<and> unat r < 2 ^ 28)"
| "rw_local RWThrown = False"
| "rw_local _ = True"

definition rwsum :: "(rwpc \<Rightarrow> nat) \<Rightarrow> rwmutex \<Rightarrow> nat" where
  "rwsum f s = tally f (rgs s)"

text \<open>
  The relation between the tallies (readers reading, asleep, leaving, waking the writer; announced
  writers, their missing count, asleep, writing; releases to do), the permits of the two semaphores
  and the two counters.
\<close>

definition rwnum ::
  "nat \<Rightarrow> nat \<Rightarrow> nat \<Rightarrow> nat \<Rightarrow> nat \<Rightarrow> nat \<Rightarrow> nat \<Rightarrow> nat \<Rightarrow> nat \<Rightarrow> nat \<Rightarrow> nat \<Rightarrow> int \<Rightarrow> int \<Rightarrow> bool" where
  "rwnum rd sl dp wk an ct ws wt rl rs ms C W \<longleftrightarrow>
     C = int (rd + sl) - 2 ^ 30 * int an \<and>
     W = (if an = 0 then 0 else int (rd + rs + dp) - int ct) \<and>
     rs + rl \<le> sl \<and>
     (an = 0 \<longrightarrow> rs + rl = sl \<and> dp = 0) \<and>
     (0 < ct \<longrightarrow> rd + rs + dp \<le> ct) \<and>
     (0 < wt \<longrightarrow> rd + rs + dp = 0) \<and>
     wk + ms = (if 0 < ws \<and> rd + rs + dp = 0 then 1 else 0)"

definition rwinv :: "nat \<Rightarrow> rwmutex \<Rightarrow> bool" where
  "rwinv k s \<longleftrightarrow>
     mutex_lock.fits (w s) (phases rwphase (rgs s)) \<and> length (rgs s) = k \<and> list_all rw_local (rgs s) \<and>
     rwnum (rwsum rd_w s) (rwsum sl_w s) (rwsum dp_w s) (rwsum wk_w s) (rwsum an_w s) (rwsum ct_w s)
       (rwsum ws_w s) (rwsum wt_w s) (rwsum rl_w s) (readerSem s) (writerSem s)
       (sint (readerCount s)) (sint (readerWait s))"

lemma rwsum_goto:
  assumes "i < length (rgs s)" "rgs s' = (rgs s)[i := y]"
  shows "rwsum f s' + f (rgs s ! i) = rwsum f s + f y"
  using tally_upd [OF assms(1)] assms(2) by (simp add: rwsum_def)

lemma rwsum_move:
  assumes "i < length (rgs s)" "rgs s' = (rgs s)[i := y]"
  shows "rwsum f s' = rwsum f s - f (rgs s ! i) + f y"
  using rwsum_goto [OF assms, of f] tally_ge [OF assms(1), of f] by (simp add: rwsum_def)

lemma rwsum_ge: "i < length (rgs s) \<Longrightarrow> f (rgs s ! i) \<le> rwsum f s"
  using tally_ge by (simp add: rwsum_def)

text \<open>At most one goroutine is in the write section, so its weights are the tallies.\<close>

lemma section_w: "rwphase x \<noteq> PIn \<Longrightarrow> an_w x = 0 \<and> ct_w x = 0 \<and> ws_w x = 0 \<and> wt_w x = 0 \<and> rl_w x = 0"
  by (cases x) auto

lemma section_sums:
  assumes "mutex_lock.fits (w s) (phases rwphase (rgs s))" "i < length (rgs s)" "rwphase (rgs s ! i) = PIn"
  shows "rwsum an_w s = an_w (rgs s ! i)" "rwsum ct_w s = ct_w (rgs s ! i)" "rwsum ws_w s = ws_w (rgs s ! i)"
    "rwsum wt_w s = wt_w (rgs s ! i)" "rwsum rl_w s = rl_w (rgs s ! i)"
proof -
  have o: "rwphase (rgs s ! j) \<noteq> PIn" if "j < length (rgs s)" "j \<noteq> i" for j
    using mutex_lock.fits_exclusive [OF assms(1), of i j] assms(2,3) that by (auto simp: phases_nth)
  show "rwsum an_w s = an_w (rgs s ! i)" "rwsum ct_w s = ct_w (rgs s ! i)" "rwsum ws_w s = ws_w (rgs s ! i)"
    "rwsum wt_w s = wt_w (rgs s ! i)" "rwsum rl_w s = rl_w (rgs s ! i)"
    unfolding rwsum_def by (rule tally_single [OF assms(2)], drule (1) o, drule section_w, (elim conjE, assumption))+
qed

lemma no_section_sums:
  assumes "rwsum an_w s = 0"
  shows "rwsum ct_w s = 0" "rwsum ws_w s = 0" "rwsum wt_w s = 0"
proof -
  have "\<forall>x \<in> set (rgs s). an_w x = 0" using assms by (simp add: rwsum_def tally_zero)
  moreover have "an_w x = 0 \<Longrightarrow> ct_w x = 0 \<and> ws_w x = 0 \<and> wt_w x = 0" for x by (cases x) auto
  ultimately show "rwsum ct_w s = 0" "rwsum ws_w s = 0" "rwsum wt_w s = 0"
    by (simp_all add: rwsum_def tally_zero)
qed

lemma an_le_1:
  assumes "mutex_lock.fits (w s) (phases rwphase (rgs s))"
  shows "rwsum an_w s \<le> 1"
proof (rule ccontr)
  assume "\<not> rwsum an_w s \<le> 1"
  then have "rwsum an_w s \<noteq> 0" by simp
  then obtain x where "x \<in> set (rgs s)" "an_w x \<noteq> 0" by (auto simp: rwsum_def tally_zero)
  then obtain i where i: "i < length (rgs s)" "an_w (rgs s ! i) \<noteq> 0" by (auto simp: in_set_conv_nth)
  have "rwphase (rgs s ! i) = PIn"
    by (rule ccontr) (use section_w [of "rgs s ! i"] i(2) in simp)
  then have "rwsum an_w s = an_w (rgs s ! i)" by (rule section_sums(1) [OF assms i(1)])
  also have "\<dots> \<le> 1" by (cases "rgs s ! i") auto
  finally show False using \<open>\<not> rwsum an_w s \<le> 1\<close> by simp
qed

lemma readers_le: "rwsum rd_w s + rwsum sl_w s \<le> length (rgs s)"
proof -
  have "rwsum rd_w s + rwsum sl_w s = tally (\<lambda>x. rd_w x + sl_w x) (rgs s)"
    by (simp add: rwsum_def tally_add)
  also have "\<dots> \<le> length (rgs s)"
  proof (rule tally_le_length)
    show "rd_w x + sl_w x \<le> 1" for x by (cases x) auto
  qed
  finally show ?thesis .
qed

lemma local_upd: "list_all rw_local xs \<Longrightarrow> rw_local y \<Longrightarrow> list_all rw_local (xs[i := y])"
  by (simp add: list_all_iff) (metis insertE set_update_subset_insert subsetD)

lemma sint_max: "sint rwmutexMaxReaders = 2 ^ 30" "sint (- rwmutexMaxReaders) = - (2 ^ 30)"
  by (simp_all add: rwmutexMaxReaders_def)

lemma sint_one: "sint (1 :: u32) = 1" "sint (- 1 :: u32) = - 1"
  by simp_all

section \<open>Every step keeps the invariant\<close>

definition rwside :: "nat \<Rightarrow> nat \<Rightarrow> nat \<Rightarrow> nat \<Rightarrow> nat \<Rightarrow> nat \<Rightarrow> bool" where
  "rwside rd sl an ct ws wt \<longleftrightarrow> rd + sl < 2 ^ 28 \<and> an \<le> 1 \<and> (an = 0 \<longrightarrow> ct = 0 \<and> ws = 0 \<and> wt = 0)"

lemma rwinv_side:
  assumes "rwinv k s" "k < 2 ^ 28"
  shows "rwside (rwsum rd_w s) (rwsum sl_w s) (rwsum an_w s) (rwsum ct_w s) (rwsum ws_w s) (rwsum wt_w s)"
  using assms an_le_1 [of s] readers_le [of s] no_section_sums [of s]
  by (auto simp: rwside_def rwinv_def)

lemma rwinv_step:
  assumes "rwinv k s" "i < k" "rgs s ! i = x" "rgs s' = (rgs s)[i := y]"
    and "mutex_lock.fits (w s') (phases rwphase ((rgs s)[i := y]))" "rw_local y"
    and "rwnum (rwsum rd_w s - rd_w x + rd_w y) (rwsum sl_w s - sl_w x + sl_w y)
      (rwsum dp_w s - dp_w x + dp_w y) (rwsum wk_w s - wk_w x + wk_w y) (rwsum an_w s - an_w x + an_w y)
      (rwsum ct_w s - ct_w x + ct_w y) (rwsum ws_w s - ws_w x + ws_w y) (rwsum wt_w s - wt_w x + wt_w y)
      (rwsum rl_w s - rl_w x + rl_w y) (readerSem s') (writerSem s')
      (sint (readerCount s')) (sint (readerWait s'))"
  shows "rwinv k s'"
proof -
  have len: "i < length (rgs s)" using assms(1,2) by (simp add: rwinv_def)
  have "list_all rw_local (rgs s)" "length (rgs s) = k" using assms(1) by (simp_all add: rwinv_def)
  then show ?thesis
    using assms(4-7) unfolding rwinv_def
    by (simp add: local_upd rwsum_move [OF len assms(4)] assms(3))
qed

text \<open>The arithmetic of each step.\<close>

lemma num_RLock:
  assumes "rwnum rd sl dp wk an ct ws wt rl rs ms C W" "rwside rd sl an ct ws wt"
  shows "C + 1 < 0 \<Longrightarrow> rwnum rd (sl + 1) dp wk an ct ws wt rl rs ms (C + 1) W"
    and "\<not> C + 1 < 0 \<Longrightarrow> rwnum (rd + 1) sl dp wk an ct ws wt rl rs ms (C + 1) W"
  using assms unfolding rwnum_def rwside_def by (cases "an = 0"; auto)+

lemma num_wake_reader:
  assumes "rwnum rd sl dp wk an ct ws wt rl rs ms C W" "0 < rs" "0 < sl"
  shows "rwnum (rd + 1) (sl - 1) dp wk an ct ws wt rl (rs - 1) ms C W"
  using assms unfolding rwnum_def by (cases "an = 0"; auto)+

lemma num_RUnlock:
  assumes "rwnum rd sl dp wk an ct ws wt rl rs ms C W" "rwside rd sl an ct ws wt" "0 < rd"
  shows "C - 1 < 0 \<Longrightarrow> rwnum (rd - 1) sl (dp + 1) wk an ct ws wt rl rs ms (C - 1) W"
    and "\<not> C - 1 < 0 \<Longrightarrow> rwnum (rd - 1) sl dp wk an ct ws wt rl rs ms (C - 1) W"
  using assms unfolding rwnum_def rwside_def by (cases "an = 0"; auto)+

lemma num_RUnlock_range:
  assumes "rwnum rd sl dp wk an ct ws wt rl rs ms C W" "rwside rd sl an ct ws wt" "0 < rd" "C - 1 < 0"
  shows "- (2 ^ 30) \<le> C - 1 \<and> C - 1 < - 1"
proof -
  have C: "C = int (rd + sl) - 2 ^ 30 * int an" and an: "an \<le> 1" and le: "rd + sl < 2 ^ 28"
    using assms(1,2) unfolding rwnum_def rwside_def by blast+
  have "an = 1" using C an assms(3,4) by (cases an) auto
  then show ?thesis using C assms(3) le by auto
qed

lemma num_rUnlockSlow:
  assumes "rwnum rd sl dp wk an ct ws wt rl rs ms C W" "rwside rd sl an ct ws wt" "0 < dp"
    "wt + ws + (if ct = 0 then 0 else 1) = an"
  shows "W - 1 = 0 \<Longrightarrow> rwnum rd sl (dp - 1) (wk + 1) an ct ws wt rl rs ms C (W - 1)"
    and "W - 1 \<noteq> 0 \<Longrightarrow> rwnum rd sl (dp - 1) wk an ct ws wt rl rs ms C (W - 1)"
  using assms unfolding rwnum_def rwside_def by (cases "an = 0"; auto split: if_splits)+

text \<open>In the write section the tallies are the weights of the one goroutine there.\<close>

lemma num_announce:
  assumes "rwnum rd sl dp wk 0 0 0 0 0 rs ms C W" "rwside rd sl 0 0 0 0"
  shows "C \<noteq> 0 \<Longrightarrow> rwnum rd sl dp wk 1 (nat C) 0 0 0 rs ms (C - 2 ^ 30) W"
    and "C = 0 \<Longrightarrow> rwnum rd sl dp wk 1 0 0 1 0 rs ms (C - 2 ^ 30) W"
  using assms unfolding rwnum_def rwside_def by auto

lemma num_wait:
  assumes "rwnum rd sl dp wk 1 r 0 0 0 rs ms C W" "0 < r"
  shows "W + int r \<noteq> 0 \<Longrightarrow> rwnum rd sl dp wk 1 0 1 0 0 rs ms C (W + int r)"
    and "W + int r = 0 \<Longrightarrow> rwnum rd sl dp wk 1 0 0 1 0 rs ms C (W + int r)"
  using assms unfolding rwnum_def by auto

lemma num_wake_writer:
  assumes "rwnum rd sl dp wk 1 0 1 0 0 rs ms C W" "0 < ms"
  shows "rwnum rd sl dp wk 1 0 0 1 0 rs (ms - 1) C W"
  using assms unfolding rwnum_def by (auto split: if_splits)

lemma num_Unlock:
  assumes "rwnum rd sl dp wk 1 0 0 1 0 rs ms C W"
  shows "rwnum rd sl dp wk 0 0 0 0 (nat (C + 2 ^ 30)) rs ms (C + 2 ^ 30) W"
  using assms unfolding rwnum_def by auto

lemma num_release:
  assumes "rwnum rd sl dp wk 0 0 0 0 (Suc n) rs ms C W"
  shows "rwnum rd sl dp wk 0 0 0 0 n (rs + 1) ms C W"
  using assms unfolding rwnum_def by auto

lemma num_RWake:
  assumes "rwnum rd sl dp wk an ct ws wt rl rs ms C W" "0 < wk"
  shows "rwnum rd sl dp (wk - 1) an ct ws wt rl rs (ms + 1) C W"
proof -
  have e: "wk - 1 + (ms + 1) = wk + ms" using assms(2) by simp
  show ?thesis unfolding rwnum_def e by (rule assms(1) [unfolded rwnum_def])
qed

lemma rw_bounds:
  assumes "rwnum rd sl dp wk an ct ws wt rl rs ms C W" "rwside rd sl an ct ws wt" "rd + sl + dp \<le> k" "ct < 2 ^ 28" "k < 2 ^ 28"
  shows "- (2 ^ 30) \<le> C \<and> C < 2 ^ 28 \<and> - (2 ^ 28) \<le> W \<and> W \<le> 2 ^ 29"
  using assms unfolding rwnum_def rwside_def by (cases "an = 0") auto

text \<open>The parts of the invariant, for the goroutine that moves.\<close>

lemma rwinv_parts:
  assumes "rwinv k s" "k < 2 ^ 28" "i < k"
  shows "mutex_lock.fits (w s) (phases rwphase (rgs s))" "i < length (rgs s)" "rw_local (rgs s ! i)"
    "rwnum (rwsum rd_w s) (rwsum sl_w s) (rwsum dp_w s) (rwsum wk_w s) (rwsum an_w s) (rwsum ct_w s)
       (rwsum ws_w s) (rwsum wt_w s) (rwsum rl_w s) (readerSem s) (writerSem s)
       (sint (readerCount s)) (sint (readerWait s))"
  using assms by (auto simp: rwinv_def list_all_length)

lemma rdp_le: "rwsum rd_w s + rwsum sl_w s + rwsum dp_w s \<le> length (rgs s)"
proof -
  have "rwsum rd_w s + rwsum sl_w s + rwsum dp_w s = tally (\<lambda>x. rd_w x + sl_w x + dp_w x) (rgs s)"
    by (simp add: rwsum_def tally_add)
  also have "\<dots> \<le> length (rgs s)"
  proof (rule tally_le_length)
    show "rd_w x + sl_w x + dp_w x \<le> 1" for x by (cases x) auto
  qed
  finally show ?thesis .
qed

lemma count_range:
  assumes "rwinv k s" "k < 2 ^ 28"
  shows "- (2 ^ 30) \<le> sint (readerCount s)" "sint (readerCount s) < 2 ^ 28"
  using assms rwinv_side [OF assms] unfolding rwnum_def rwside_def rwinv_def by auto

lemma RLock_inv:
  assumes inv: "rwinv k s" and k: "k < 2 ^ 28" and i: "i < k" "rgs s ! i = RIdle"
  shows "rwinv k (set_count i (rw_RLock (readerCount s)) s)"
proof -
  note P = rwinv_parts [OF inv k i(1)] and R = count_range [OF inv k]
  have c: "sint (readerCount s + 1) = sint (readerCount s) + 1"
    using R by (subst sint_add_small) (auto simp: sint_one)
  note N = num_RLock [OF P(4) rwinv_side [OF inv k]]
  show ?thesis
    unfolding set_count_def rw_RLock_def Let_def c fst_conv snd_conv
    by (rule rwinv_step [OF inv i]) (use P(1,2) N i(2) c in \<open>auto simp: phases_same\<close>)
qed

lemma an_split:
  assumes "rwinv k s"
  shows "rwsum wt_w s + rwsum ws_w s + (if rwsum ct_w s = 0 then 0 else 1) = rwsum an_w s"
    and "rwsum ct_w s < 2 ^ 28"
proof -
  have f: "mutex_lock.fits (w s) (phases rwphase (rgs s))" "list_all rw_local (rgs s)"
    using assms by (simp_all add: rwinv_def)
  have "rwsum wt_w s + rwsum ws_w s + (if rwsum ct_w s = 0 then 0 else 1) = rwsum an_w s \<and> rwsum ct_w s < 2 ^ 28"
  proof (cases "rwsum an_w s = 0")
    case True
    then show ?thesis by (simp add: no_section_sums)
  next
    case False
    then obtain x where "x \<in> set (rgs s)" "an_w x \<noteq> 0" by (auto simp: rwsum_def tally_zero)
    then obtain i where i: "i < length (rgs s)" "an_w (rgs s ! i) \<noteq> 0" by (auto simp: in_set_conv_nth)
    have "rwphase (rgs s ! i) = PIn"
      by (rule ccontr) (use section_w [of "rgs s ! i"] i(2) in simp)
    note S = section_sums [OF f(1) i(1) this]
    have "rw_local (rgs s ! i)" using f(2) i(1) by (simp add: list_all_length)
    then show ?thesis using i(2) unfolding S by (cases "rgs s ! i") (auto simp: unat_gt_0)
  qed
  then show "rwsum wt_w s + rwsum ws_w s + (if rwsum ct_w s = 0 then 0 else 1) = rwsum an_w s"
    and "rwsum ct_w s < 2 ^ 28" by blast+
qed

lemma wait_range:
  assumes "rwinv k s" "k < 2 ^ 28"
  shows "- (2 ^ 28) \<le> sint (readerWait s)" "sint (readerWait s) < 2 ^ 28"
  using assms rwinv_side [OF assms] an_split(2) [OF assms(1)] rdp_le [of s]
  unfolding rwnum_def rwside_def rwinv_def by (auto split: if_splits)

lemma reader_wakes_inv:
  assumes inv: "rwinv k s" and k: "k < 2 ^ 28" and i: "i < k" "rgs s ! i = RSleep" and sem: "0 < readerSem s"
  shows "rwinv k (goto i Reading (s\<lparr>readerSem := readerSem s - 1\<rparr>))"
proof -
  note P = rwinv_parts [OF inv k i(1)]
  have "0 < rwsum sl_w s" using rwsum_ge [OF P(2), of sl_w] i(2) by simp
  note N = num_wake_reader [OF P(4) sem this]
  show ?thesis
    unfolding goto_def by (rule rwinv_step [OF inv i]) (use P(1,2) N i(2) in \<open>auto simp: phases_same\<close>)
qed

lemma RUnlock_inv:
  assumes inv: "rwinv k s" and k: "k < 2 ^ 28" and i: "i < k" "rgs s ! i = Reading"
  shows "rwinv k (set_count i (rw_RUnlock (readerCount s)) s)"
proof -
  note P = rwinv_parts [OF inv k i(1)] and R = count_range [OF inv k]
  have rd: "0 < rwsum rd_w s" using rwsum_ge [OF P(2), of rd_w] i(2) by simp
  have c: "sint (readerCount s - 1) = sint (readerCount s) - 1"
    using R sint_add_small [of "readerCount s" "- 1"] by (simp add: sint_one)
  have loc: "sint (readerCount s) - 1 < 0 \<Longrightarrow> - (2 ^ 30) \<le> sint (readerCount s) - 1 \<and> sint (readerCount s) - 1 < - 1"
    using num_RUnlock_range [OF P(4) rwinv_side [OF inv k] rd] by blast
  note N = num_RUnlock [OF P(4) rwinv_side [OF inv k] rd]
  show ?thesis
    unfolding set_count_def rw_RUnlock_def Let_def c fst_conv snd_conv
    by (rule rwinv_step [OF inv i]) (use P(1,2) N i(2) c loc in \<open>auto simp: phases_same\<close>)
qed

lemma rUnlockSlow_inv:
  assumes inv: "rwinv k s" and k: "k < 2 ^ 28" and i: "i < k" "rgs s ! i = RUnlockSlow r"
  shows "rwinv k (set_wait i (rUnlockSlow r (readerWait s)) s)"
proof -
  note P = rwinv_parts [OF inv k i(1)] and R = wait_range [OF inv k]
  have dp: "0 < rwsum dp_w s" using rwsum_ge [OF P(2), of dp_w] i(2) by simp
  have r: "- (2 ^ 30) \<le> sint r" "sint r < - 1" using P(3) i(2) by simp_all
  then have r1: "sint (r + 1) = sint r + 1" by (subst sint_add_small) (auto simp: sint_one)
  have ok: "r + 1 \<noteq> 0" "r + 1 \<noteq> - rwmutexMaxReaders"
  proof -
    show "r + 1 \<noteq> 0"
    proof
      assume "r + 1 = 0"
      then have "sint (r + 1) = 0" by simp
      then show False using r1 r(2) by linarith
    qed
    show "r + 1 \<noteq> - rwmutexMaxReaders"
    proof
      assume "r + 1 = - rwmutexMaxReaders"
      then have "sint (r + 1) = - (2 ^ 30)" using sint_max(2) by simp
      then show False using r1 r(1) by linarith
    qed
  qed
  have wt: "sint (readerWait s - 1) = sint (readerWait s) - 1"
    using R sint_add_small [of "readerWait s" "- 1"] by (simp add: sint_one)
  then have z: "readerWait s - 1 = 0 \<longleftrightarrow> sint (readerWait s) - 1 = 0" by (metis signed_eq_0_iff)
  note N = num_rUnlockSlow [OF P(4) rwinv_side [OF inv k] dp an_split(1) [OF inv]]
  show ?thesis
    unfolding set_wait_def rUnlockSlow_def Let_def z using ok
    by (intro rwinv_step [OF inv i]) (use P(1,2) N i(2) wt in \<open>auto simp: phases_same\<close>)
qed

text \<open>The writer.\<close>

lemma announce_inv:
  assumes inv: "rwinv k s" and k: "k < 2 ^ 28" and i: "i < k" "rgs s ! i = WAnnounce"
  shows "rwinv k (set_count i (rw_Lock_announce (readerCount s)) s)"
proof -
  note P = rwinv_parts [OF inv k i(1)] and R = count_range [OF inv k]
  have S: "rwsum an_w s = 0" "rwsum ct_w s = 0" "rwsum ws_w s = 0" "rwsum wt_w s = 0" "rwsum rl_w s = 0"
    using section_sums [OF P(1,2)] i(2) by simp_all
  note N = num_announce [OF P(4) [unfolded S] rwinv_side [OF inv k, unfolded S]]
  have C: "sint (readerCount s) = int (rwsum rd_w s + rwsum sl_w s)"
    using P(4) by (simp add: rwnum_def S)
  then have "0 \<le> sint (readerCount s)" by simp
  then have u: "unat (readerCount s) = nat (sint (readerCount s))" by (metis nat_int sint_nonneg)
  have z: "readerCount s \<noteq> 0 \<longleftrightarrow> sint (readerCount s) \<noteq> 0" by (metis signed_eq_0_iff)
  have c: "sint (readerCount s + - rwmutexMaxReaders) = sint (readerCount s) - 2 ^ 30"
    using R C by (subst sint_add_small) (auto simp: sint_max)
  have "unat (readerCount s) < 2 ^ 28" using u R(2) by simp
  then show ?thesis
    unfolding set_count_def rw_Lock_announce_def Let_def add.assoc
    by (intro rwinv_step [OF inv i]) (use P(1,2) N i(2) c S u z in \<open>auto simp: phases_same\<close>)
qed

lemma rw_wait_inv:
  assumes inv: "rwinv k s" and k: "k < 2 ^ 28" and i: "i < k" "rgs s ! i = WWait r"
  shows "rwinv k (set_wait i (rw_Lock_wait r (readerWait s)) s)"
proof -
  note P = rwinv_parts [OF inv k i(1)] and R = wait_range [OF inv k]
  have S: "rwsum an_w s = 1" "rwsum ct_w s = unat r" "rwsum ws_w s = 0" "rwsum wt_w s = 0" "rwsum rl_w s = 0"
    using section_sums [OF P(1,2)] i(2) by simp_all
  have r: "r \<noteq> 0" "unat r < 2 ^ 28" using P(3) i(2) by simp_all
  then have r0: "0 < unat r" by (simp add: unat_gt_0)
  note N = num_wait [OF P(4) [unfolded S] r0]
  have sr: "sint r = int (unat r)" using r(2) by (simp add: sint_unat)
  have c: "sint (readerWait s + r) = sint (readerWait s) + int (unat r)"
    using R r(2) sr by (subst sint_add_small) (auto simp del: of_nat_unat)
  then have z: "readerWait s + r \<noteq> 0 \<longleftrightarrow> sint (readerWait s) + int (unat r) \<noteq> 0" by (metis signed_eq_0_iff)
  show ?thesis
    unfolding set_wait_def rw_Lock_wait_def Let_def z
    by (intro rwinv_step [OF inv i]) (use P(1,2) N i(2) c S in \<open>auto simp: phases_same\<close>)
qed

lemma writer_wakes_inv:
  assumes inv: "rwinv k s" and k: "k < 2 ^ 28" and i: "i < k" "rgs s ! i = WSleep" and sem: "0 < writerSem s"
  shows "rwinv k (goto i Writing (s\<lparr>writerSem := writerSem s - 1\<rparr>))"
proof -
  note P = rwinv_parts [OF inv k i(1)]
  have S: "rwsum an_w s = 1" "rwsum ct_w s = 0" "rwsum ws_w s = 1" "rwsum wt_w s = 0" "rwsum rl_w s = 0"
    using section_sums [OF P(1,2)] i(2) by simp_all
  note N = num_wake_writer [OF P(4) [unfolded S] sem]
  show ?thesis
    unfolding goto_def by (rule rwinv_step [OF inv i]) (use P(1,2) N i(2) S in \<open>auto simp: phases_same\<close>)
qed

lemma Unlock_inv:
  assumes inv: "rwinv k s" and k: "k < 2 ^ 28" and i: "i < k" "rgs s ! i = Writing"
  shows "rwinv k (set_count i (rw_Unlock (readerCount s)) s)"
proof -
  note P = rwinv_parts [OF inv k i(1)] and R = count_range [OF inv k]
  have S: "rwsum an_w s = 1" "rwsum ct_w s = 0" "rwsum ws_w s = 0" "rwsum wt_w s = 1" "rwsum rl_w s = 0"
    using section_sums [OF P(1,2)] i(2) by simp_all
  note N = num_Unlock [OF P(4) [unfolded S]]
  have c: "sint (readerCount s + rwmutexMaxReaders) = sint (readerCount s) + 2 ^ 30"
    using R by (subst sint_add_small) (auto simp: sint_max)
  have "sint (readerCount s) = int (rwsum rd_w s + rwsum sl_w s) - 2 ^ 30" using P(4) by (simp add: rwnum_def S)
  then have le: "\<not> 2 ^ 30 \<le> sint (readerCount s) + 2 ^ 30"
    using rwinv_side [OF inv k] by (simp add: rwside_def)
  show ?thesis
    unfolding set_count_def rw_Unlock_def Let_def c sint_max using le
    by (intro rwinv_step [OF inv i]) (use P(1,2) N i(2) c S in \<open>auto simp: phases_same\<close>)
qed

lemma rw_release_inv:
  assumes inv: "rwinv k s" and k: "k < 2 ^ 28" and i: "i < k" "rgs s ! i = WRelease (Suc n)"
  shows "rwinv k (goto i (WRelease n) (s\<lparr>readerSem := readerSem s + 1\<rparr>))"
proof -
  note P = rwinv_parts [OF inv k i(1)]
  have S: "rwsum an_w s = 0" "rwsum ct_w s = 0" "rwsum ws_w s = 0" "rwsum wt_w s = 0" "rwsum rl_w s = Suc n"
    using section_sums [OF P(1,2)] i(2) by simp_all
  note N = num_release [OF P(4) [unfolded S]]
  show ?thesis
    unfolding goto_def by (rule rwinv_step [OF inv i]) (use P(1,2) N i(2) S in \<open>auto simp: phases_same\<close>)
qed

lemma RWake_inv:
  assumes inv: "rwinv k s" and k: "k < 2 ^ 28" and i: "i < k" "rgs s ! i = RWake"
  shows "rwinv k (goto i RIdle (s\<lparr>writerSem := writerSem s + 1\<rparr>))"
proof -
  note P = rwinv_parts [OF inv k i(1)]
  have "0 < rwsum wk_w s" using rwsum_ge [OF P(2), of wk_w] i(2) by simp
  note N = num_RWake [OF P(4) this]
  show ?thesis
    unfolding goto_def by (rule rwinv_step [OF inv i]) (use P(1,2) N i(2) in \<open>auto simp: phases_same\<close>)
qed

text \<open>The moves of the lock, and the moves that only change the program point.\<close>

lemma lock_event_inv:
  assumes inv: "rwinv k s" and i: "i < k" "rgs s ! i = WLock \<or> rgs s ! i = WUnlock"
    and m: "mutex_event i e (w s) = Some m"
  shows "rwinv k (s\<lparr>w := m\<rparr>)"
proof -
  have f: "mutex_lock.fits (w s) (phases rwphase (rgs s))" "i < length (rgs s)"
    using inv i(1) by (simp_all add: rwinv_def)
  have "phases rwphase (rgs s) i = PAcquire \<or> phases rwphase (rgs s) i = PRelease"
    using i(2) f(2) by (auto simp: phases_nth)
  from mutex_lock.fits_step [OF f(1) this m] show ?thesis
    using inv by (simp add: rwinv_def rwsum_def)
qed

lemma goto_inv:
  assumes inv: "rwinv k s" and i: "i < k"
    and xy: "(rgs s ! i, y) \<in> {(RIdle, WLock), (WLock, WAnnounce), (WRelease 0, WUnlock), (WUnlock, RIdle)}"
    and holds: "y = WAnnounce \<Longrightarrow> mutex_holds i (w s)" "y = RIdle \<Longrightarrow> mutex_outside i (w s)"
  shows "rwinv k (goto i y s)"
proof -
  have f: "mutex_lock.fits (w s) (phases rwphase (rgs s))" "i < length (rgs s)"
    and num: "rwnum (rwsum rd_w s) (rwsum sl_w s) (rwsum dp_w s) (rwsum wk_w s) (rwsum an_w s) (rwsum ct_w s)
       (rwsum ws_w s) (rwsum wt_w s) (rwsum rl_w s) (readerSem s) (writerSem s)
       (sint (readerCount s)) (sint (readerWait s))"
    using inv i by (simp_all add: rwinv_def)
  have fits: "mutex_lock.fits (w s) (phases rwphase ((rgs s)[i := y]))"
    using xy holds mutex_lock.fits_begin [OF f(1), of i] mutex_lock.fits_enter [OF f(1), of i]
      mutex_lock.fits_leave [OF f(1), of i] mutex_lock.fits_end [OF f(1), of i]
    by (auto simp: phases_upd [OF f(2)])
  show ?thesis
    unfolding goto_def
    by (rule rwinv_step [OF inv i refl, where y = y]) (use xy num fits in auto)
qed

lemma rw_step_inv:
  assumes inv: "rwinv k s" and k: "k < 2 ^ 28" and st: "rw_step i wr e s = Some s'"
  shows "rwinv k s'"
proof -
  have i: "i < k" using st inv by (auto simp: rw_step_def rwinv_def split: if_splits)
  have len: "\<not> length (rgs s) \<le> i" using i inv by (simp add: rwinv_def)
  note st' = st [unfolded rw_step_def if_not_P [OF len]]
  show ?thesis
  proof (cases "rgs s ! i")
    case RIdle
    then show ?thesis using st' RLock_inv [OF inv k i] goto_inv [OF inv i, of WLock] by (auto split: if_splits)
  next
    case RSleep
    then show ?thesis using st' reader_wakes_inv [OF inv k i] by (auto split: if_splits)
  next
    case Reading
    then show ?thesis using st' RUnlock_inv [OF inv k i] by auto
  next
    case (RUnlockSlow r)
    then show ?thesis using st' rUnlockSlow_inv [OF inv k i] by auto
  next
    case RWake
    then show ?thesis using st' RWake_inv [OF inv k i] by auto
  next
    case WLock
    then show ?thesis using st' goto_inv [OF inv i, of WAnnounce] lock_event_inv [OF inv i, where e = e]
      by (auto split: if_splits option.splits)
  next
    case WAnnounce
    then show ?thesis using st' announce_inv [OF inv k i] by auto
  next
    case (WWait r)
    then show ?thesis using st' rw_wait_inv [OF inv k i] by auto
  next
    case WSleep
    then show ?thesis using st' writer_wakes_inv [OF inv k i] by (auto split: if_splits)
  next
    case Writing
    then show ?thesis using st' Unlock_inv [OF inv k i] by auto
  next
    case (WRelease n)
    then show ?thesis using st' rw_release_inv [OF inv k i] goto_inv [OF inv i, of WUnlock] by (cases n) auto
  next
    case WUnlock
    then show ?thesis using st' goto_inv [OF inv i, of RIdle] lock_event_inv [OF inv i, where e = e]
      by (auto split: if_splits option.splits)
  next
    case RWThrown
    then show ?thesis using st' by simp
  qed
qed

lemma rw_reach_inv:
  assumes "rw_reach k s" "k < 2 ^ 28"
  shows "rwinv k s"
  using assms(1)
proof induction
  case init
  have "phases rwphase (replicate k RIdle) = (\<lambda>_. POut)" by (auto simp: phases_def)
  then show ?case
    using mutex_init_fits [OF assms(2)]
    by (simp add: rwinv_def rw_init_def rwnum_def rwsum_def tally_replicate list_all_iff)
next
  case (step s i wr e s')
  then show ?case using rw_step_inv assms(2) by blast
qed

section \<open>Properties\<close>

text \<open>A run: which goroutine steps, what an idle one does, and the event for the mutex.\<close>

fun rw_run :: "(nat \<times> bool) list \<Rightarrow> rwmutex \<Rightarrow> rwmutex option" where
  "rw_run [] s = Some s"
| "rw_run ((i, wr) # es) s =
     (case rw_step i wr (False, False, False) s of None \<Rightarrow> None | Some s' \<Rightarrow> rw_run es s')"

lemma rw_run_reach: "rw_reach k s \<Longrightarrow> rw_run es s = Some s' \<Longrightarrow> rw_reach k s'"
proof (induction es arbitrary: s)
  case (Cons a es)
  obtain i wr where a: "a = (i, wr)" by (cases a)
  obtain t where t: "rw_step i wr (False, False, False) s = Some t" "rw_run es t = Some s'"
    using Cons.prems(2) a by (auto split: option.splits)
  show ?case by (rule Cons.IH [OF rw_reach.step [OF Cons.prems(1) t(1)] t(2)])
qed simp

text \<open>A writer that writes while a reader sleeps.\<close>

definition rw_trace :: "(nat \<times> bool) list" where
  "rw_trace = [(0, True), (0, False), (0, False), (0, False), (1, False)]"

definition rw_example :: rwmutex where
  "rw_example = \<lparr>w = \<lparr>mstate = 1, msema = 0, rlock = False, nwait = 0, mqueue = [], gs = [Holding, Outside]\<rparr>,
     readerCount = 1 - rwmutexMaxReaders, readerWait = 0, readerSem = 0, writerSem = 0, rgs = [Writing, RSleep]\<rparr>"

lemma rw_example_reach: "rw_reach 2 rw_example"
proof (rule rw_run_reach [OF rw_reach.init])
  show "rw_run rw_trace (rw_init 2) = Some rw_example" by code_simp
qed

text \<open>
  C28: However goroutines interleave their steps, those of the inner mutex included, at most one writes, and while
  one writes none reads. Whoever calls \<open>RUnlock\<close> or \<open>Unlock\<close> after its \<open>RLock\<close> or \<open>Lock\<close> does not throw, in any
  reachable state: no goroutine has thrown, in \<open>RWMutex\<close> or in the inner mutex, and none does so in its next step.
\<close>

theorem rwmutex_exclusion:
  assumes "rw_reach k s" and "k < 2 ^ 28"
  shows "length (filter (\<lambda>p. p = Writing) (rgs s)) \<le> 1
       \<and> (Writing \<in> set (rgs s) \<longrightarrow> Reading \<notin> set (rgs s))
       \<and> RWThrown \<notin> set (rgs s) \<and> Thrown \<notin> set (gs (w s))
       \<and> (\<forall>i wr e s'. rw_step i wr e s = Some s' \<longrightarrow> RWThrown \<notin> set (rgs s') \<and> Thrown \<notin> set (gs (w s')))"
proof -
  have len: "length (filter (\<lambda>p. p = Writing) xs) = tally wt_w xs" for xs
  proof (induction xs)
    case (Cons x xs)
    then show ?case by (cases x) (auto simp: tally_def)
  qed (simp add: tally_def)
  have no: "RWThrown \<notin> set (rgs s') \<and> Thrown \<notin> set (gs (w s'))" if "rw_reach k s'" for s'
  proof -
    have inv: "rwinv k s'" using rw_reach_inv that assms(2) by blast
    then have "list_all rw_local (rgs s')" "mutex_lock.fits (w s') (phases rwphase (rgs s'))" by (simp_all add: rwinv_def)
    then show ?thesis
      using mutex_not_thrown by (auto simp: list_all_iff mutex_lock.fits_def mutex_good_def)
  qed
  have inv: "rwinv k s" using rw_reach_inv assms(1,2) by blast
  then have f: "mutex_lock.fits (w s) (phases rwphase (rgs s))" by (simp add: rwinv_def)
  have W: "rwsum wt_w s = 1 \<and> Reading \<notin> set (rgs s)" if wr: "Writing \<in> set (rgs s)"
  proof -
    obtain i where i: "i < length (rgs s)" "rgs s ! i = Writing" using wr by (auto simp: in_set_conv_nth)
    have S: "rwsum wt_w s = 1" using section_sums(4) [OF f i(1)] i(2) by simp
    then have "rwsum rd_w s = 0" using inv by (simp add: rwinv_def rwnum_def)
    then show ?thesis using S by (auto simp: rwsum_def tally_zero)
  qed
  have "filter (\<lambda>p. p = Writing) (rgs s) = []" if "Writing \<notin> set (rgs s)" using that by (auto simp: filter_empty_conv)
  then have "length (filter (\<lambda>p. p = Writing) (rgs s)) \<le> 1" using W len by (cases "Writing \<in> set (rgs s)") (simp_all add: rwsum_def)
  then show ?thesis using W no [OF assms(1)] no [OF rw_reach.step [OF assms(1)]] by blast
qed

text \<open>In the example a goroutine writes and its \<open>Unlock\<close> comes next, while a reader is asleep.\<close>

theorem rwmutex_exclusion_witness:
  "length (filter (\<lambda>p. p = Writing) (rgs rw_example)) = 1 \<and> Reading \<notin> set (rgs rw_example)
     \<and> RWThrown \<notin> set (rgs rw_example)
     \<and> (\<exists>s'. rw_step 0 False (False, False, False) rw_example = Some s' \<and> RWThrown \<notin> set (rgs s'))"
proof -
  have "rw_step 0 False (False, False, False) rw_example \<noteq> None" by code_simp
  moreover have "length (filter (\<lambda>p. p = Writing) (rgs rw_example)) = 1" by (simp add: rw_example_def)
  moreover have "Writing \<in> set (rgs rw_example)" by (simp add: rw_example_def)
  ultimately show ?thesis using rwmutex_exclusion [OF rw_example_reach] by auto
qed

lemma rw_step_lock:
  "rw_step i wr e s = Some s' \<Longrightarrow> w s' = w s \<or> mutex_event i e (w s) = Some (w s')"
  by (cases "rgs s ! i"; simp add: rw_step_def goto_def set_count_def set_wait_def split: if_splits option.splits nat.splits)
    auto

lemma rw_reach_length: "rw_reach k s \<Longrightarrow> length (gs (w s)) = k"
proof (induction rule: rw_reach.induct)
  case init
  then show ?case by (simp add: rw_init_def mutex_init_def)
next
  case (step s i wr e s')
  have "length (gs (w s')) = length (gs (w s))"
    using rw_step_lock [OF step(2)] length_gs_step by (auto simp: mutex_event_def)
  then show ?case using step(3) by simp
qed

text \<open>Where a goroutine can be when it cannot step.\<close>

definition stuck :: "nat \<Rightarrow> rwmutex \<Rightarrow> bool" where
  "stuck i s \<longleftrightarrow>
     (case rgs s ! i of
        RIdle \<Rightarrow> True
      | RSleep \<Rightarrow> readerSem s = 0
      | WSleep \<Rightarrow> writerSem s = 0
      | WLock \<Rightarrow> \<not> mutex_holds i (w s) \<and> (\<forall>e. mutex_event i e (w s) = None)
      | WUnlock \<Rightarrow> \<not> mutex_outside i (w s) \<and> (\<forall>e. mutex_event i e (w s) = None)
      | RWThrown \<Rightarrow> True
      | _ \<Rightarrow> False)"

lemma stuckI:
  assumes "i < length (rgs s)" "rgs s ! i = RIdle \<or> (\<forall>e. rw_step i False e s = None)"
  shows "stuck i s"
  using assms by (cases "rgs s ! i") (auto simp: rw_step_def stuck_def split: if_splits option.splits nat.splits)

lemma all_stuck_idle:
  assumes inv: "rwinv k s" and len: "length (gs (w s)) = k" and st: "\<And>i. i < k \<Longrightarrow> stuck i s"
  shows "\<forall>p \<in> set (rgs s). p = RIdle"
proof -
  have f: "mutex_lock.fits (w s) (phases rwphase (rgs s))" "list_all rw_local (rgs s)" "length (rgs s) = k"
    and num: "rwnum (rwsum rd_w s) (rwsum sl_w s) (rwsum dp_w s) (rwsum wk_w s) (rwsum an_w s) (rwsum ct_w s)
       (rwsum ws_w s) (rwsum wt_w s) (rwsum rl_w s) (readerSem s) (writerSem s)
       (sint (readerCount s)) (sint (readerWait s))"
    using inv by (simp_all add: rwinv_def)
  have pcs: "p \<in> {RIdle, RSleep, WSleep, WLock, WUnlock}
      \<and> (p = RSleep \<longrightarrow> readerSem s = 0) \<and> (p = WSleep \<longrightarrow> writerSem s = 0)" if p: "p \<in> set (rgs s)" for p
  proof -
    obtain i where i: "i < length (rgs s)" "rgs s ! i = p" using p by (auto simp: in_set_conv_nth)
    then have "i < k" using f(3) by simp
    from st [OF this, unfolded stuck_def i(2)]
    have st': "case p of RIdle \<Rightarrow> True | RSleep \<Rightarrow> readerSem s = 0 | WSleep \<Rightarrow> writerSem s = 0
      | WLock \<Rightarrow> True | WUnlock \<Rightarrow> True | RWThrown \<Rightarrow> True | _ \<Rightarrow> False" by (cases p) simp_all
    have "rw_local p" using p f(2) by (auto simp: list_all_iff)
    with st' show ?thesis by (cases p) simp_all
  qed
  have 0: "rwsum rd_w s = 0" "rwsum dp_w s = 0" "rwsum wk_w s = 0" "rwsum ct_w s = 0" "rwsum rl_w s = 0"
    using pcs by (fastforce simp: rwsum_def tally_zero)+
  have rs: "readerSem s = 0"
  proof (rule ccontr)
    assume n: "readerSem s \<noteq> 0"
    then have "rwsum sl_w s = 0" using pcs by (fastforce simp: rwsum_def tally_zero)
    then show False using num n by (simp add: rwnum_def)
  qed
  have noW: "WSleep \<notin> set (rgs s)"
  proof
    assume W: "WSleep \<in> set (rgs s)"
    then have "rwsum ws_w s \<noteq> 0" by (auto simp: rwsum_def tally_zero intro!: bexI [of _ WSleep])
    moreover have "writerSem s = 0" using pcs [OF W] by simp
    ultimately show False using num 0 rs by (simp add: rwnum_def)
  qed
  then have "rwsum an_w s = 0" using pcs by (fastforce simp: rwsum_def tally_zero)
  then have "rwsum sl_w s = 0" using num 0 rs by (simp add: rwnum_def)
  then have noR: "RSleep \<notin> set (rgs s)" by (auto simp: rwsum_def tally_zero)
  have p3: "rgs s ! i \<in> {RIdle, WLock, WUnlock}" if "i < k" for i
    using pcs [of "rgs s ! i"] that f(3) noW noR by (metis insertE insertI1 insertI2 nth_mem singletonD)
  have "phases rwphase (rgs s) i = POut" for i
  proof (rule mutex_live.fits_all_out [OF f(1)])
    show "i < length (gs (w s)) \<and> phases rwphase (rgs s) i \<noteq> PIn \<and> (\<forall>e. mutex_event i e (w s) = None)"
      if "phases rwphase (rgs s) i \<noteq> POut" for i
      using that p3 [of i] st [of i] f(3) len by (auto simp: phases_def stuck_def split: if_splits)
  qed (use p3 st f(3) in \<open>fastforce simp: phases_def stuck_def split: if_splits\<close>)+
  then have "rgs s ! i = RIdle" if i: "i < k" for i
    using p3 [OF i] i f(3) phases_nth [of i "rgs s" rwphase] by auto
  then show ?thesis using f(3) by (auto simp: in_set_conv_nth)
qed

text \<open>
  C29: No deadlock and no lost wake-up: whenever some goroutine is not idle, one that is not idle can
  take a step. So a reader or a writer never sleeps for ever while the others have gone, whichever way
  departing readers, the announcement of a writer and its count interleave.
\<close>

theorem rwmutex_no_deadlock:
  assumes "rw_reach k s" and "k < 2 ^ 28" and "\<exists>p \<in> set (rgs s). p \<noteq> RIdle"
  shows "\<exists>i e. i < length (rgs s) \<and> rgs s ! i \<noteq> RIdle \<and> rw_step i False e s \<noteq> None"
proof (rule ccontr)
  assume n: "\<not> ?thesis"
  have inv: "rwinv k s" using rw_reach_inv assms(1,2) by blast
  then have len: "length (rgs s) = k" by (simp add: rwinv_def)
  have "stuck i s" if "i < k" for i using n that len by (intro stuckI) auto
  then have "\<forall>p \<in> set (rgs s). p = RIdle"
    using all_stuck_idle [OF inv rw_reach_length [OF assms(1)]] by blast
  with assms(3) show False by blast
qed

theorem rwmutex_no_deadlock_witness:
  "\<exists>i e. i < length (rgs rw_example) \<and> rgs rw_example ! i \<noteq> RIdle \<and> rw_step i False e rw_example \<noteq> None"
  by (rule rwmutex_no_deadlock [OF rw_example_reach]) (simp_all add: rw_example_def)

text \<open>
  An \<open>RUnlock\<close> of an \<open>RWMutex\<close> that nobody has locked for reading, with a writer or without, and an
  \<open>Unlock\<close> of one that is not locked for writing, throw.
\<close>

theorem rw_unlock_throws:
  "rw_RUnlock 0 = (RUnlockSlow (- 1), - 1) \<and> fst (rUnlockSlow (- 1) wait) = RWThrown \<and>
   rw_RUnlock (- rwmutexMaxReaders) = (RUnlockSlow (- rwmutexMaxReaders - 1), - rwmutexMaxReaders - 1) \<and>
   fst (rUnlockSlow (- rwmutexMaxReaders - 1) wait) = RWThrown \<and>
   fst (rw_Unlock (of_nat n mod rwmutexMaxReaders)) = RWThrown"
proof -
  let ?c = "of_nat n mod rwmutexMaxReaders"
  have "unat ?c < 2 ^ 30" by (simp add: unat_mod_distrib rwmutexMaxReaders_def)
  then have s: "sint ?c = int (unat ?c)" "unat ?c < 2 ^ 30" by (simp_all add: sint_unat)
  have "sint (?c + rwmutexMaxReaders) = sint ?c + 2 ^ 30"
    using s by (subst sint_add_small) (simp_all add: sint_max del: of_nat_unat)
  then have "fst (rw_Unlock ?c) = RWThrown" using s(1) by (simp add: rw_Unlock_def sint_max Let_def)
  moreover have "sint (- rwmutexMaxReaders - 1) < 0" by (simp add: rwmutexMaxReaders_def)
  ultimately show ?thesis by (simp add: rw_RUnlock_def rUnlockSlow_def Let_def)
qed

end
