(* ===== verification/Once.thy ===== *)
theory Once
  imports LockSpec
begin

text \<open>
  \<open>sync.Once\<close> (\<open>sync/once.go\<close>): \<open>Do\<close> with its fast path, and \<open>doSlow\<close> with its two deferred calls, on
  top of \<open>sync.Mutex\<close>. Goroutines interleave at the accesses to \<open>done\<close>, at the call and the return of
  \<open>f\<close> and at every step of the mutex. \<open>f\<close> may return or panic, and does not touch the \<open>Once\<close> itself (the
  comment on \<open>Do\<close> says that it would deadlock).
\<close>

section \<open>The code\<close>

text \<open>
  Program points: not in \<open>Do\<close> yet; in \<open>o.m.Lock()\<close>; before the second test; before the call of \<open>f\<close>; in
  \<open>f\<close>; before the deferred store; in the deferred \<open>o.m.Unlock()\<close>; out of \<open>Do\<close>. From the return of \<open>f\<close> on,
  the point knows whether it panicked.
\<close>

datatype oncepc =
  DoStart | DoLock | DoTest | DoCall | DoInF | DoStore bool | DoUnlock bool | DoReturned bool

text \<open>\<open>calls\<close> and \<open>returns\<close> count the calls of \<open>f\<close> and the ends of such a call.\<close>

record once =
  odone :: u32
  om :: mutex
  calls :: nat
  returns :: nat
  ogs :: "oncepc list"

definition once_Do :: "u32 \<Rightarrow> oncepc" where
  "once_Do d = (if d = 0 then DoLock else DoReturned False)"

definition doSlow_test :: "u32 \<Rightarrow> oncepc" where
  "doSlow_test d = (if d = 0 then DoCall else DoUnlock False)"

definition once_goto :: "nat \<Rightarrow> oncepc \<Rightarrow> once \<Rightarrow> once" where
  "once_goto i p s = s\<lparr>ogs := (ogs s)[i := p]\<rparr>"

text \<open>A step of goroutine \<open>i\<close>; \<open>panics\<close> is the outcome of \<open>f\<close> where it ends, and \<open>e\<close> is for the mutex.\<close>

definition once_step :: "nat \<Rightarrow> bool \<Rightarrow> bool \<times> bool \<times> bool \<Rightarrow> once \<Rightarrow> once option" where
  "once_step i panics e s =
     (if length (ogs s) \<le> i then None
      else case ogs s ! i of
        DoStart \<Rightarrow> Some (once_goto i (once_Do (odone s)) s)
      | DoReturned _ \<Rightarrow> Some (once_goto i (once_Do (odone s)) s)
      | DoLock \<Rightarrow>
          if mutex_holds i (om s) then Some (once_goto i DoTest s)
          else (case mutex_event i e (om s) of None \<Rightarrow> None | Some m \<Rightarrow> Some (s\<lparr>om := m\<rparr>))
      | DoTest \<Rightarrow> Some (once_goto i (doSlow_test (odone s)) s)
      | DoCall \<Rightarrow> Some (once_goto i DoInF (s\<lparr>calls := calls s + 1\<rparr>))
      | DoInF \<Rightarrow> Some (once_goto i (DoStore panics) (s\<lparr>returns := returns s + 1\<rparr>))
      | DoStore p \<Rightarrow> Some (once_goto i (DoUnlock p) (s\<lparr>odone := 1\<rparr>))
      | DoUnlock p \<Rightarrow>
          if mutex_outside i (om s) then Some (once_goto i (DoReturned p) s)
          else (case mutex_event i e (om s) of None \<Rightarrow> None | Some m \<Rightarrow> Some (s\<lparr>om := m\<rparr>)))"

definition once_init :: "nat \<Rightarrow> once" where
  "once_init k = \<lparr>odone = 0, om = mutex_init k, calls = 0, returns = 0, ogs = replicate k DoStart\<rparr>"

inductive once_reach :: "nat \<Rightarrow> once \<Rightarrow> bool" for k where
  init: "once_reach k (once_init k)"
| step: "once_reach k s \<Longrightarrow> once_step i panics e s = Some s' \<Longrightarrow> once_reach k s'"

section \<open>The invariant\<close>

fun ophase :: "oncepc \<Rightarrow> phase" where
  "ophase DoStart = POut"
| "ophase (DoReturned _) = POut"
| "ophase DoLock = PAcquire"
| "ophase (DoUnlock _) = PRelease"
| "ophase _ = PIn"

text \<open>
  What a point says of \<open>done\<close> and the two counters: whoever is in the lock before the store, and only
  he, may have called \<open>f\<close> with \<open>done\<close> still 0; whoever is out or on his way out has seen it 1.
\<close>

fun once_at :: "oncepc \<Rightarrow> u32 \<Rightarrow> nat \<Rightarrow> nat \<Rightarrow> bool" where
  "once_at DoCall d c r = (d = 0 \<and> c = 0 \<and> r = 0)"
| "once_at DoInF d c r = (d = 0 \<and> c = 1 \<and> r = 0)"
| "once_at (DoStore _) d c r = (d = 0 \<and> c = 1 \<and> r = 1)"
| "once_at DoTest d c r = (c = (if d = 0 then 0 else 1) \<and> r = c)"
| "once_at (DoUnlock _) d c r = (d = 1)"
| "once_at (DoReturned _) d c r = (d = 1)"
| "once_at _ d c r = True"

definition once_good :: "once \<Rightarrow> bool" where
  "once_good s \<longleftrightarrow>
     (\<forall>p \<in> set (ogs s). once_at p (odone s) (calls s) (returns s)) \<and>
     (odone s = 0 \<or> odone s = 1 \<and> calls s = 1 \<and> returns s = 1) \<and>
     (odone s = 0 \<longrightarrow> (\<forall>p \<in> set (ogs s). ophase p \<noteq> PIn) \<longrightarrow> calls s = 0 \<and> returns s = 0)"

definition once_inv :: "nat \<Rightarrow> once \<Rightarrow> bool" where
  "once_inv k s \<longleftrightarrow>
     mutex_lock.fits (om s) (phases ophase (ogs s)) \<and> length (ogs s) = k \<and> length (gs (om s)) = k \<and> once_good s"

lemma in_set_upd: "p \<in> set (xs[i := y]) \<Longrightarrow> i < length xs \<Longrightarrow> p = y \<or> (\<exists>j < length xs. j \<noteq> i \<and> p = xs ! j)"
  by (auto simp: in_set_conv_nth nth_list_update split: if_splits)

text \<open>A point outside the lock speaks of \<open>done\<close> only.\<close>

lemma once_at_mono: "ophase p \<noteq> PIn \<Longrightarrow> once_at p d c r \<Longrightarrow> d = 0 \<or> d' = d \<Longrightarrow> once_at p d' c' r'"
  by (cases p) auto

text \<open>A step in the lock: the others are outside of it.\<close>

lemma once_section_inv:
  assumes inv: "once_inv k s" and i: "i < k" "ophase (ogs s ! i) = PIn"
    and s': "ogs s' = (ogs s)[i := y]" "om s' = om s" "odone s = 0 \<or> odone s' = odone s"
    and y: "ophase y = PIn \<or> ophase y = PRelease \<and> odone s' \<noteq> 0" "once_at y (odone s') (calls s') (returns s')"
    and d: "odone s' = 0 \<or> odone s' = 1 \<and> calls s' = 1 \<and> returns s' = 1"
  shows "once_inv k s'"
proof -
  have f: "mutex_lock.fits (om s) (phases ophase (ogs s))" "i < length (ogs s)" "once_good s"
    using inv i by (simp_all add: once_inv_def)
  have p: "phases ophase (ogs s) i = PIn" using f(2) i(2) by (simp add: phases_nth)
  have "mutex_lock.fits (om s) (phases ophase ((ogs s)[i := y]))"
  proof (cases "ophase y = PIn")
    case True
    then show ?thesis using f i(2) by (simp add: phases_same)
  next
    case False
    then show ?thesis using y(1) mutex_lock.fits_leave [OF f(1), of i] by (auto simp: phases_upd [OF f(2)])
  qed
  moreover have o: "ophase (ogs s ! j) \<noteq> PIn" if "j < length (ogs s)" "j \<noteq> i" for j
    using mutex_lock.fits_exclusive [OF f(1) p, of j] that by (auto simp: phases_nth)
  have "once_at q (odone s') (calls s') (returns s')" if "q \<in> set ((ogs s)[i := y])" for q
    using in_set_upd [OF that f(2)]
  proof
    assume "q = y"
    then show ?thesis using y(2) by simp
  next
    assume "\<exists>j < length (ogs s). j \<noteq> i \<and> q = ogs s ! j"
    then obtain j where j: "j < length (ogs s)" "j \<noteq> i" "q = ogs s ! j" by blast
    then have "once_at q (odone s) (calls s) (returns s)" using f(3) by (simp add: once_good_def)
    then show ?thesis using once_at_mono o [OF j(1,2)] j(3) s'(3) by blast
  qed
  moreover have "\<exists>q \<in> set ((ogs s)[i := y]). ophase q = PIn" if "odone s' = 0"
    using y(1) that set_update_memI [OF f(2)] by blast
  ultimately show ?thesis using inv s' d by (auto simp: once_inv_def once_good_def)
qed

text \<open>A step outside, or into or out of the lock.\<close>

lemma once_goto_inv:
  assumes inv: "once_inv k s" and i: "i < k" and x: "ophase (ogs s ! i) \<noteq> PIn"
    and y: "once_at y (odone s) (calls s) (returns s)"
    and fits: "mutex_lock.fits (om s) (phases ophase ((ogs s)[i := y]))"
  shows "once_inv k (once_goto i y s)"
proof -
  have len: "i < length (ogs s)" and g: "once_good s" using inv i by (simp_all add: once_inv_def)
  have "(\<forall>p \<in> set (ogs s). ophase p \<noteq> PIn)" if all: "\<forall>p \<in> set ((ogs s)[i := y]). ophase p \<noteq> PIn"
  proof
    fix p assume "p \<in> set (ogs s)"
    then obtain j where j: "j < length (ogs s)" "p = ogs s ! j" by (auto simp: in_set_conv_nth)
    show "ophase p \<noteq> PIn"
    proof (cases "j = i")
      case False
      then have "p = (ogs s)[i := y] ! j" "j < length ((ogs s)[i := y])" using j by simp_all
      then have "p \<in> set ((ogs s)[i := y])" using nth_mem by blast
      then show ?thesis using all by blast
    qed (use x j in simp)
  qed
  moreover have "once_at q (odone s) (calls s) (returns s)" if "q \<in> set ((ogs s)[i := y])" for q
    using in_set_upd [OF that len] g y by (auto simp: once_good_def)
  ultimately have "once_good (once_goto i y s)" using g by (simp add: once_good_def once_goto_def)
  then show ?thesis using inv fits by (simp add: once_inv_def once_goto_def)
qed

lemma once_lock_inv:
  assumes inv: "once_inv k s" and i: "i < k" "ophase (ogs s ! i) = PAcquire \<or> ophase (ogs s ! i) = PRelease"
    and m: "mutex_event i e (om s) = Some m"
  shows "once_inv k (s\<lparr>om := m\<rparr>)"
proof -
  have f: "mutex_lock.fits (om s) (phases ophase (ogs s))" "i < length (ogs s)"
    using inv i(1) by (simp_all add: once_inv_def)
  have "phases ophase (ogs s) i = PAcquire \<or> phases ophase (ogs s) i = PRelease"
    using i(2) f(2) by (auto simp: phases_nth)
  from mutex_lock.fits_step [OF f(1) this m] show ?thesis
    using inv m length_gs_step by (auto simp: once_inv_def once_good_def mutex_event_def)
qed

lemma once_step_inv:
  assumes inv: "once_inv k s" and st: "once_step i panics e s = Some s'"
  shows "once_inv k s'"
proof -
  have i: "i < k" using st inv by (auto simp: once_step_def once_inv_def split: if_splits)
  have f: "mutex_lock.fits (om s) (phases ophase (ogs s))" "i < length (ogs s)"
    and at: "once_at (ogs s ! i) (odone s) (calls s) (returns s)" and g: "once_good s"
    using inv i by (simp_all add: once_inv_def once_good_def)
  have "\<not> length (ogs s) \<le> i" using f(2) by simp
  note st' = st [unfolded once_step_def if_not_P [OF this]]
  have out: "once_inv k (once_goto i (once_Do (odone s)) s)" if "ophase (ogs s ! i) = POut"
  proof (rule once_goto_inv [OF inv i])
    show "once_at (once_Do (odone s)) (odone s) (calls s) (returns s)"
      using g by (auto simp: once_Do_def once_good_def)
    show "mutex_lock.fits (om s) (phases ophase ((ogs s)[i := once_Do (odone s)]))"
      using that f mutex_lock.fits_begin [OF f(1), of i] phases_same [OF f(2), of ophase "DoReturned False"]
      by (simp add: once_Do_def phases_upd)
  qed (use that in simp)
  show ?thesis
  proof (cases "ogs s ! i")
    case DoLock
    show ?thesis
    proof (cases "mutex_holds i (om s)")
      case True
      have new: "mutex_lock.fits (om s) (phases ophase ((ogs s)[i := DoTest]))"
        using mutex_lock.fits_enter [OF f(1) True] by (simp add: phases_upd [OF f(2)])
      have "ophase (ogs s ! j) \<noteq> PIn" if "j < length (ogs s)" for j
        using mutex_lock.fits_exclusive [OF new, of i j] that f(2) DoLock
        by (cases "j = i") (auto simp: phases_nth)
      then have "once_at DoTest (odone s) (calls s) (returns s)"
        using g by (fastforce simp: once_good_def in_set_conv_nth)
      then show ?thesis using st' DoLock True once_goto_inv [OF inv i _ _ new] by simp
    next
      case False
      then show ?thesis using st' DoLock once_lock_inv [OF inv i, where e = e] by (auto split: option.splits)
    qed
  next
    case (DoUnlock p)
    show ?thesis
    proof (cases "mutex_outside i (om s)")
      case True
      have "mutex_lock.fits (om s) (phases ophase ((ogs s)[i := DoReturned p]))"
        using mutex_lock.fits_end [OF f(1) True] by (simp add: phases_upd [OF f(2)])
      then show ?thesis using st' DoUnlock True at once_goto_inv [OF inv i] by auto
    next
      case False
      then show ?thesis using st' DoUnlock once_lock_inv [OF inv i, where e = e] by (auto split: option.splits)
    qed
  qed (use st' out at g in
    \<open>auto simp: once_goto_def doSlow_test_def once_good_def intro!: once_section_inv [OF inv i]\<close>)
qed

lemma once_reach_inv:
  assumes "once_reach k s" "k < 2 ^ 28"
  shows "once_inv k s"
  using assms(1)
proof induction
  case init
  have "phases ophase (replicate k DoStart) = (\<lambda>_. POut)" by (auto simp: phases_def)
  then show ?case
    using mutex_init_fits [OF assms(2)]
    by (simp add: once_inv_def once_init_def once_good_def mutex_init_def)
next
  case (step s i panics e s')
  then show ?case using once_step_inv by blast
qed

lemma lock_none: "(case x of None \<Rightarrow> None | Some m \<Rightarrow> Some (f m)) = None \<longleftrightarrow> x = None"
  by (cases x) auto

section \<open>Exactly once\<close>

fun once_run :: "(nat \<times> bool) list \<Rightarrow> once \<Rightarrow> once option" where
  "once_run [] s = Some s"
| "once_run ((i, panics) # es) s =
     (case once_step i panics (False, False, False) s of None \<Rightarrow> None | Some s' \<Rightarrow> once_run es s')"

lemma once_run_reach: "once_reach k s \<Longrightarrow> once_run es s = Some s' \<Longrightarrow> once_reach k s'"
proof (induction es arbitrary: s)
  case (Cons a es)
  obtain i p where a: "a = (i, p)" by (cases a)
  obtain t where t: "once_step i p (False, False, False) s = Some t" "once_run es t = Some s'"
    using Cons.prems(2) a by (auto split: option.splits)
  show ?case by (rule Cons.IH [OF once_reach.step [OF Cons.prems(1) t(1)] t(2)])
qed simp

text \<open>Two goroutines: the first calls \<open>f\<close>, which panics; both are back.\<close>

definition once_trace :: "(nat \<times> bool) list" where
  "once_trace = map (\<lambda>i. (i, True)) (replicate 9 0 @ [1])"

definition once_example :: once where
  "once_example = \<lparr>odone = 1, om = \<lparr>mstate = 0, msema = 0, rlock = False, nwait = 0, mqueue = [], gs = [Outside, Outside]\<rparr>,
     calls = 1, returns = 1, ogs = [DoReturned True, DoReturned False]\<rparr>"

lemma once_example_reach: "once_reach 2 once_example"
proof (rule once_run_reach [OF once_reach.init])
  show "once_run once_trace (once_init 2) = Some once_example" by code_simp
qed

text \<open>
  C30: \<open>f\<close> is called at most once, however many goroutines call \<open>Do\<close> and however they interleave, and no
  \<open>Do\<close> returns before that call of \<open>f\<close> has ended, by a return or by a panic.
\<close>

theorem once_exactly_once:
  assumes "once_reach k s" and "k < 2 ^ 28"
  shows "calls s \<le> 1 \<and> returns s \<le> calls s \<and>
    (DoReturned p \<in> set (ogs s) \<longrightarrow> calls s = 1 \<and> returns s = 1)"
proof -
  have g: "once_good s" using once_reach_inv [OF assms] by (simp add: once_inv_def)
  have "calls s \<le> 1 \<and> returns s \<le> calls s"
  proof (cases "odone s = 0 \<and> (\<exists>q \<in> set (ogs s). ophase q = PIn)")
    case True
    then obtain q where q: "q \<in> set (ogs s)" "ophase q = PIn" by blast
    then have "once_at q (odone s) (calls s) (returns s)" using g by (simp add: once_good_def)
    then show ?thesis using q(2) True by (cases q) auto
  next
    case False
    then show ?thesis using g by (auto simp: once_good_def)
  qed
  moreover have "calls s = 1 \<and> returns s = 1" if "DoReturned p \<in> set (ogs s)"
    using g that by (force simp: once_good_def)
  ultimately show ?thesis by blast
qed

theorem once_exactly_once_witness:
  "DoReturned True \<in> set (ogs once_example) \<and> calls once_example = 1 \<and> returns once_example = 1"
proof -
  have "DoReturned True \<in> set (ogs once_example)" by (simp add: once_example_def)
  then show ?thesis using once_exactly_once [OF once_example_reach, of True] by simp
qed

text \<open>
  While a call of \<open>Do\<close> has not returned, some goroutine in \<open>Do\<close> can take a step, whether or not \<open>f\<close>
  panicked: the deferred store and unlock run in both cases.
\<close>

theorem once_no_deadlock:
  assumes "once_reach k s" and "k < 2 ^ 28" and "\<exists>p \<in> set (ogs s). ophase p \<noteq> POut"
  shows "\<exists>i e. i < length (ogs s) \<and> ophase (ogs s ! i) \<noteq> POut \<and> (\<forall>panics. once_step i panics e s \<noteq> None)"
proof (rule ccontr)
  assume n: "\<not> ?thesis"
  have inv: "mutex_lock.fits (om s) (phases ophase (ogs s))" "length (ogs s) = k" "length (gs (om s)) = k"
    using once_reach_inv [OF assms(1,2)] by (simp_all add: once_inv_def)
  have st: "\<exists>panics. once_step i panics e s = None" if "i < k" "ophase (ogs s ! i) \<noteq> POut" for i e
    using n that inv(2) by (cases e) auto
  have at: "(ogs s ! i = DoLock \<and> \<not> mutex_holds i (om s) \<or> (\<exists>p. ogs s ! i = DoUnlock p) \<and> \<not> mutex_outside i (om s))
      \<and> (\<forall>e. mutex_event i e (om s) = None)" if i: "i < k" "ophase (ogs s ! i) \<noteq> POut" for i
    using st [OF i] i inv(2)
    by (cases "ogs s ! i"; cases "mutex_holds i (om s)"; cases "mutex_outside i (om s)")
      (auto simp: once_step_def lock_none)
  have "phases ophase (ogs s) i = POut" for i
  proof (rule mutex_live.fits_all_out [OF inv(1)])
    show "i < length (gs (om s)) \<and> phases ophase (ogs s) i \<noteq> PIn \<and> (\<forall>e. mutex_event i e (om s) = None)"
      if "phases ophase (ogs s) i \<noteq> POut" for i
      using that at [of i] inv(2,3) by (auto simp: phases_def split: if_splits)
  qed (use at inv(2) in \<open>fastforce simp: phases_def split: if_splits\<close>)+
  then have "\<forall>p \<in> set (ogs s). ophase p = POut" by (metis in_set_conv_nth phases_nth)
  then show False using assms(3) by blast
qed

text \<open>One goroutine in \<open>f\<close>, the other asleep on the mutex.\<close>

definition once_blocked :: once where
  "once_blocked = the (once_run (map (\<lambda>i. (i, True)) [0, 0, 0, 0, 0, 0, 1, 1, 1, 1]) (once_init 2))"

lemma once_blocked_reach: "once_reach 2 once_blocked" "\<exists>p \<in> set (ogs once_blocked). ophase p \<noteq> POut"
proof -
  let ?es = "map (\<lambda>i. (i, True)) [0, 0, 0, 0, 0, 0, 1, 1, 1, 1]"
  have "once_run ?es (once_init 2) \<noteq> None" by code_simp
  then have "once_run ?es (once_init 2) = Some once_blocked" by (auto simp: once_blocked_def)
  then show "once_reach 2 once_blocked" by (rule once_run_reach [OF once_reach.init])
  show "\<exists>p \<in> set (ogs once_blocked). ophase p \<noteq> POut" by code_simp
qed

theorem once_no_deadlock_witness:
  "\<exists>i e. i < length (ogs once_blocked) \<and> ophase (ogs once_blocked ! i) \<noteq> POut \<and>
    (\<forall>panics. once_step i panics e once_blocked \<noteq> None)"
  by (rule once_no_deadlock [OF once_blocked_reach(1) _ once_blocked_reach(2)]) simp

end
