(* ===== verification/WaitGroup.thy ===== *)
theory WaitGroup
  imports GoWords
begin

text \<open>
  \<open>sync.WaitGroup\<close> (\<open>sync/waitgroup.go\<close>): the 64-bit word with the counter in its high and the number
  of waiters in its low half, and a semaphore. \<open>Add\<close> and \<open>Wait\<close> are cut at every access to the shared
  word and to the semaphore. The system of the theorems is the use the comments prescribe: the
  counter is set to the number of workers, each worker calls \<open>Done\<close> once, and any number of goroutines
  call \<open>Wait\<close>, in any interleaving. The calls for the race detector are left out.
\<close>

section \<open>The code\<close>

text \<open>\<open>state\<close>: which of the three \<open>uint32\<close> hold the state (as one \<open>uint64\<close>) and which the semaphore.\<close>

definition wg_state :: "nat \<Rightarrow> nat \<times> nat" where
  "wg_state addr = (if addr mod 8 = 0 then (0, 2) else (1, 0))"

lemma wg_state_aligned:
  "addr mod 4 = 0 \<Longrightarrow> (addr + 4 * fst (wg_state addr)) mod 8 = 0"
  "snd (wg_state addr) \<notin> {fst (wg_state addr), fst (wg_state addr) + 1}" "snd (wg_state addr) < 3"
  unfolding wg_state_def by (simp_all add: mod_simps) presburger

definition wg_counter :: "u64 \<Rightarrow> u32" where "wg_counter state = ucast (drop_bit 32 state)"
definition wg_waiters :: "u64 \<Rightarrow> u32" where "wg_waiters state = ucast state"

datatype wg_panic = negative_counter | add_with_wait | reused

text \<open>
  Program points. In \<open>Add\<close>: before the addition; before the check that the word is still \<open>state\<close>;
  before the store of 0; in the loop of releases; returned. In \<open>Wait\<close>: before the load; before the
  compare-and-swap; asleep on the semaphore; before the check that the word is 0; returned.
\<close>

datatype wgpc =
    AddStart int | AddCheck u64 u32 | AddReset u32 | AddRelease u32 | AddDone
  | WaitLoad | WaitCas u64 | WaitSema | WaitCheck | WaitDone | WgPanic wg_panic

record waitgroup =
  state1 :: u64
  sema :: nat
  wgs :: "wgpc list"

definition wg_Add :: "int \<Rightarrow> u64 \<Rightarrow> wgpc \<times> u64" where
  "wg_Add delta s =
     (let state = s + push_bit 32 (of_int delta); v = wg_counter state; w = wg_waiters state in
      (if sint v < 0 then WgPanic negative_counter
       else if w \<noteq> 0 \<and> delta > 0 \<and> v = of_int delta then WgPanic add_with_wait
       else if sint v > 0 \<or> w = 0 then AddDone
       else AddCheck state w, state))"

definition wg_Add_check :: "u64 \<Rightarrow> u32 \<Rightarrow> u64 \<Rightarrow> wgpc" where
  "wg_Add_check state w s = (if s \<noteq> state then WgPanic add_with_wait else AddReset w)"

definition wg_Done :: wgpc where "wg_Done = AddStart (- 1)"

definition wg_Wait_load :: "u64 \<Rightarrow> wgpc" where
  "wg_Wait_load s = (if sint (wg_counter s) = 0 then WaitDone else WaitCas s)"

definition wg_Wait_cas :: "u64 \<Rightarrow> u64 \<Rightarrow> wgpc \<times> u64" where
  "wg_Wait_cas state s = (if s = state then (WaitSema, state + 1) else (WaitLoad, s))"

definition wg_Wait_check :: "u64 \<Rightarrow> wgpc" where
  "wg_Wait_check s = (if s \<noteq> 0 then WgPanic reused else WaitDone)"

definition wg_put :: "nat \<Rightarrow> wgpc \<Rightarrow> u64 \<Rightarrow> waitgroup \<Rightarrow> waitgroup" where
  "wg_put i p m s = s\<lparr>state1 := m, wgs := (wgs s)[i := p]\<rparr>"

definition wg_step :: "nat \<Rightarrow> waitgroup \<Rightarrow> waitgroup option" where
  "wg_step i s =
     (if length (wgs s) \<le> i then None
      else case wgs s ! i of
        AddStart delta \<Rightarrow> (let (p, m) = wg_Add delta (state1 s) in Some (wg_put i p m s))
      | AddCheck state w \<Rightarrow> Some (wg_put i (wg_Add_check state w (state1 s)) (state1 s) s)
      | AddReset w \<Rightarrow> Some (wg_put i (AddRelease w) 0 s)
      | AddRelease w \<Rightarrow>
          Some (if w \<noteq> 0 then wg_put i (AddRelease (w - 1)) (state1 s) (s\<lparr>sema := sema s + 1\<rparr>)
                else wg_put i AddDone (state1 s) s)
      | WaitLoad \<Rightarrow> Some (wg_put i (wg_Wait_load (state1 s)) (state1 s) s)
      | WaitCas state \<Rightarrow> (let (p, m) = wg_Wait_cas state (state1 s) in Some (wg_put i p m s))
      | WaitSema \<Rightarrow>
          if 0 < sema s then Some (wg_put i WaitCheck (state1 s) (s\<lparr>sema := sema s - 1\<rparr>)) else None
      | WaitCheck \<Rightarrow> Some (wg_put i (wg_Wait_check (state1 s)) (state1 s) s)
      | AddDone \<Rightarrow> None
      | WaitDone \<Rightarrow> None
      | WgPanic _ \<Rightarrow> None)"

definition wg_init :: "nat \<Rightarrow> nat \<Rightarrow> waitgroup" where
  "wg_init k m = \<lparr>state1 = push_bit 32 (of_nat k), sema = 0,
     wgs = replicate k wg_Done @ replicate m WaitLoad\<rparr>"

inductive wg_reach :: "nat \<Rightarrow> nat \<Rightarrow> waitgroup \<Rightarrow> bool" for k m where
  init: "wg_reach k m (wg_init k m)"
| step: "wg_reach k m s \<Longrightarrow> wg_step i s = Some s' \<Longrightarrow> wg_reach k m s'"

section \<open>The two halves of the word\<close>

definition wg_enc :: "nat \<Rightarrow> nat \<Rightarrow> u64" where
  "wg_enc v w = of_nat (v * 2 ^ 32 + w)"

lemma unat_wg_enc:
  assumes "v < 2 ^ 31" "w < 2 ^ 31"
  shows "unat (wg_enc v w) = v * 2 ^ 32 + w"
proof -
  have "v * 2 ^ 32 + w < 2 ^ 64" using assms by simp
  then show ?thesis unfolding wg_enc_def by (subst unat_of_nat) simp
qed

lemma wg_fields:
  assumes "v < 2 ^ 31" "w < 2 ^ 31"
  shows "sint (wg_counter (wg_enc v w)) = int v" "unat (wg_waiters (wg_enc v w)) = w"
proof -
  have "unat (wg_counter (wg_enc v w)) = v"
    using assms unat_wg_enc [OF assms] by (simp add: wg_counter_def unat_ucast unat_drop_bit)
  then show "sint (wg_counter (wg_enc v w)) = int v" using assms by (simp add: sint_unat)
  show "unat (wg_waiters (wg_enc v w)) = w"
    using assms unat_wg_enc [OF assms] by (simp add: wg_waiters_def unat_ucast)
qed

lemma wg_enc_inj:
  assumes "v < 2 ^ 31" "w < 2 ^ 31" "v' < 2 ^ 31" "w' < 2 ^ 31"
  shows "wg_enc v w = wg_enc v' w' \<longleftrightarrow> v = v' \<and> w = w'"
  using wg_fields [OF assms(1,2)] wg_fields [OF assms(3,4)] by auto

lemma wg_enc_0: "wg_enc 0 0 = 0"
  by (simp add: wg_enc_def)

lemma wg_enc_dec: "wg_enc (Suc v) w + push_bit 32 (- 1) = wg_enc v w"
proof -
  have "push_bit 32 (- 1) = (- (2 ^ 32) :: u64)" unfolding push_bit_eq_mult by simp
  then show ?thesis unfolding wg_enc_def by (simp add: algebra_simps)
qed

lemma wg_enc_inc: "wg_enc v w + 1 = wg_enc v (Suc w)"
  by (simp add: wg_enc_def)

lemma wg_enc_counter: "push_bit 32 (of_nat k) = wg_enc k 0"
  unfolding wg_enc_def push_bit_eq_mult by simp

section \<open>The invariant\<close>

text \<open>
  What a goroutine counts for: a worker that has not called \<open>Done\<close>, one that brought the counter to
  zero while others wait (and the number of them it read), its releases still to do, a sleeper, a
  waiter that was woken, and one that returned.
\<close>

fun run_w :: "wgpc \<Rightarrow> nat" where "run_w (AddStart _) = 1" | "run_w _ = 0"
fun chk_w :: "wgpc \<Rightarrow> nat" where "chk_w (AddCheck _ _) = 1" | "chk_w (AddReset _) = 1" | "chk_w _ = 0"
fun num_w :: "wgpc \<Rightarrow> nat" where
  "num_w (AddCheck _ w) = unat w" | "num_w (AddReset w) = unat w" | "num_w _ = 0"
fun rel_w :: "wgpc \<Rightarrow> nat" where "rel_w (AddRelease w) = unat w" | "rel_w _ = 0"
fun slp_w :: "wgpc \<Rightarrow> nat" where "slp_w WaitSema = 1" | "slp_w _ = 0"
fun wok_w :: "wgpc \<Rightarrow> nat" where "wok_w WaitCheck = 1" | "wok_w _ = 0"
fun don_w :: "wgpc \<Rightarrow> nat" where "don_w WaitDone = 1" | "don_w _ = 0"

fun wg_local :: "wgpc \<Rightarrow> bool" where
  "wg_local (AddStart delta) = (delta = - 1)"
| "wg_local (AddCheck state w) = (state = wg_enc 0 (unat w))"
| "wg_local (WaitCas state) = (sint (wg_counter state) \<noteq> 0)"
| "wg_local (WgPanic _) = False"
| "wg_local _ = True"

definition wgnum ::
  "nat \<Rightarrow> nat \<Rightarrow> nat \<Rightarrow> nat \<Rightarrow> nat \<Rightarrow> nat \<Rightarrow> nat \<Rightarrow> nat \<Rightarrow> nat \<Rightarrow> bool" where
  "wgnum run chk num rel slp wok don x sem \<longleftrightarrow>
     (if 0 < run then chk = 0 \<and> num = 0 \<and> rel = 0 \<and> sem = 0 \<and> wok = 0 \<and> don = 0 \<and> x = slp
      else if chk = 0 then x = 0 \<and> num = 0 \<and> rel + sem = slp
      else chk = 1 \<and> x = slp \<and> num = slp \<and> rel = 0 \<and> sem = 0 \<and> wok = 0)"

definition wgsum :: "(wgpc \<Rightarrow> nat) \<Rightarrow> waitgroup \<Rightarrow> nat" where
  "wgsum f s = tally f (wgs s)"

definition wginv :: "nat \<Rightarrow> waitgroup \<Rightarrow> bool" where
  "wginv n s \<longleftrightarrow> length (wgs s) = n \<and> list_all wg_local (wgs s) \<and>
     (\<exists>x. state1 s = wg_enc (wgsum run_w s) x \<and>
       wgnum (wgsum run_w s) (wgsum chk_w s) (wgsum num_w s) (wgsum rel_w s) (wgsum slp_w s)
         (wgsum wok_w s) (wgsum don_w s) x (sema s))"

text \<open>One goroutine moves: the tallies change by its weights.\<close>

lemma wgsum_move:
  assumes "i < length (wgs s)" "wgs s' = (wgs s)[i := y]"
  shows "wgsum f s' = wgsum f s - f (wgs s ! i) + f y"
  using tally_upd [OF assms(1), of f y] tally_ge [OF assms(1), of f] assms(2) by (simp add: wgsum_def)

lemma wgsum_ge: "i < length (wgs s) \<Longrightarrow> f (wgs s ! i) \<le> wgsum f s"
  using tally_ge by (simp add: wgsum_def)

lemma wginv_step:
  assumes "wginv n s" "i < n" "wgs s ! i = p" "wg_local q" "m = wg_enc v x"
    and "v = wgsum run_w s - run_w p + run_w q"
    and "wgnum v (wgsum chk_w s - chk_w p + chk_w q)
      (wgsum num_w s - num_w p + num_w q) (wgsum rel_w s - rel_w p + rel_w q)
      (wgsum slp_w s - slp_w p + slp_w q) (wgsum wok_w s - wok_w p + wok_w q)
      (wgsum don_w s - don_w p + don_w q) x sem"
  shows "wginv n (wg_put i q m (s\<lparr>sema := sem\<rparr>))"
proof -
  have len: "i < length (wgs s)" using assms(1,2) by (simp add: wginv_def)
  have "list_all wg_local ((wgs s)[i := q])"
    using assms(1,4) set_update_subset_insert [of "wgs s" i q] by (auto simp: wginv_def list_all_iff)
  then show ?thesis
    using assms unfolding wginv_def
    by (auto simp: wg_put_def wgsum_move [OF len, of _ q])
qed

lemma wginv_bounds:
  assumes "wginv n s" "n < 2 ^ 31"
  shows "wgsum run_w s < 2 ^ 31" "wgsum slp_w s < 2 ^ 31"
proof -
  have "wgsum run_w s \<le> length (wgs s)" "wgsum slp_w s \<le> length (wgs s)"
    unfolding wgsum_def by (rule tally_le_length, case_tac x; simp)+
  then show "wgsum run_w s < 2 ^ 31" "wgsum slp_w s < 2 ^ 31" using assms by (simp_all add: wginv_def)
qed

section \<open>Every step keeps the invariant\<close>

lemma wg_Add_Done:
  assumes "v < 2 ^ 31" "x < 2 ^ 31"
  shows "wg_Add (- 1) (wg_enc (Suc v) x) =
    (if 0 < v \<or> x = 0 then AddDone else AddCheck (wg_enc 0 x) (wg_waiters (wg_enc 0 x)), wg_enc v x)"
proof -
  have "wg_waiters (wg_enc v x) = 0 \<longleftrightarrow> x = 0"
    using wg_fields(2) [OF assms] by (metis unat_0 unat_eq_0)
  then show ?thesis
    using wg_fields(1) [OF assms] wg_enc_dec [of v x] by (auto simp: wg_Add_def Let_def)
qed

lemma wginv_parts:
  assumes "wginv n s" "i < n"
  obtains x where "i < length (wgs s)" "wg_local (wgs s ! i)" "state1 s = wg_enc (wgsum run_w s) x"
    "wgnum (wgsum run_w s) (wgsum chk_w s) (wgsum num_w s) (wgsum rel_w s) (wgsum slp_w s)
      (wgsum wok_w s) (wgsum don_w s) x (sema s)"
  using assms by (auto simp: wginv_def list_all_length)

lemma wgnum_waiters: "wgnum run chk num rel slp wok don x sem \<Longrightarrow> x \<le> slp"
  by (auto simp: wgnum_def split: if_splits)

lemma wg_Done_inv:
  assumes inv: "wginv n s" and n: "n < 2 ^ 31" and i: "i < n" "wgs s ! i = AddStart d"
    and step: "wg_Add d (state1 s) = (q, m)"
  shows "wginv n (wg_put i q m s)"
proof -
  obtain x where P: "i < length (wgs s)" "wg_local (wgs s ! i)" "state1 s = wg_enc (wgsum run_w s) x"
    "wgnum (wgsum run_w s) (wgsum chk_w s) (wgsum num_w s) (wgsum rel_w s) (wgsum slp_w s)
      (wgsum wok_w s) (wgsum don_w s) x (sema s)"
    using wginv_parts [OF inv i(1)] .
  have "0 < wgsum run_w s" using wgsum_ge [OF P(1), of run_w] i(2) by simp
  then obtain v where v: "wgsum run_w s = Suc v" using gr0_conv_Suc by blast
  have x: "x < 2 ^ 31" and "v < 2 ^ 31"
    using wgnum_waiters [OF P(4)] wginv_bounds [OF inv n] v by simp_all
  note A = wg_Add_Done [OF \<open>v < 2 ^ 31\<close> x] and W = wg_fields(2) [of 0 x]
  have d: "d = - 1" using P(2) i(2) by simp
  have qm: "q = (if 0 < v \<or> x = 0 then AddDone else AddCheck (wg_enc 0 x) (wg_waiters (wg_enc 0 x)))"
    "m = wg_enc v x"
    using step A by (simp_all add: d P(3) v)
  have "wginv n (wg_put i q m (s\<lparr>sema := sema s\<rparr>))"
    by (rule wginv_step [OF inv i _ qm(2)]) (use P(4) v qm(1) W x in \<open>auto simp: wgnum_def\<close>)
  then show ?thesis by simp
qed

lemma wg_keep_inv:
  assumes inv: "wginv n s" and i: "i < n" "wgs s ! i = p" and q: "wg_local q"
    and same: "run_w q = run_w p" "chk_w q = chk_w p" "num_w q = num_w p" "rel_w q = rel_w p" "slp_w q = slp_w p"
      "wok_w q = wok_w p"
    and don: "don_w q = don_w p \<or> wgsum run_w s = 0"
  shows "wginv n (wg_put i q (state1 s) s)"
proof -
  obtain x where P: "i < length (wgs s)" "wg_local (wgs s ! i)" "state1 s = wg_enc (wgsum run_w s) x"
    "wgnum (wgsum run_w s) (wgsum chk_w s) (wgsum num_w s) (wgsum rel_w s) (wgsum slp_w s)
      (wgsum wok_w s) (wgsum don_w s) x (sema s)"
    using wginv_parts [OF inv i(1)] .
  have le: "f p \<le> wgsum f s" for f using wgsum_ge [OF P(1), of f] i(2) by simp
  have "wginv n (wg_put i q (state1 s) (s\<lparr>sema := sema s\<rparr>))"
    by (rule wginv_step [OF inv i q P(3)])
      (use P(4) don le [of run_w] le [of chk_w] le [of num_w] le [of rel_w] le [of slp_w] le [of wok_w]
        le [of don_w] in \<open>auto simp: wgnum_def same\<close>)
  then show ?thesis by simp
qed

text \<open>The steps of the worker that brought the counter to zero.\<close>

lemma wg_checker:
  assumes inv: "wginv n s" and i: "i < n" "chk_w (wgs s ! i) = 1"
  shows "wgsum num_w s = num_w (wgs s ! i)"
proof -
  obtain x where P: "i < length (wgs s)"
    "wgnum (wgsum run_w s) (wgsum chk_w s) (wgsum num_w s) (wgsum rel_w s) (wgsum slp_w s)
      (wgsum wok_w s) (wgsum don_w s) x (sema s)"
    using wginv_parts [OF inv i(1)] .
  let ?rest = "(wgs s)[i := WaitLoad]"
  have "tally chk_w ?rest + 1 = wgsum chk_w s"
    using tally_upd [OF P(1), of chk_w WaitLoad] i(2) by (simp add: wgsum_def)
  moreover have "wgsum chk_w s \<le> 1" using P(2) by (simp add: wgnum_def split: if_splits)
  ultimately have "tally chk_w ?rest = 0" by simp
  then have z: "chk_w (wgs s ! j) = 0" if "j < length (wgs s)" "j \<noteq> i" for j
    using that tally_ge [of j ?rest chk_w] by simp
  have "chk_w p = 0 \<Longrightarrow> num_w p = 0" for p by (cases p) auto
  then show ?thesis unfolding wgsum_def using z by (intro tally_single [OF P(1)]) blast
qed

lemma wg_check_inv:
  assumes inv: "wginv n s" and n: "n < 2 ^ 31" and i: "i < n" "wgs s ! i = AddCheck state w"
  shows "wginv n (wg_put i (wg_Add_check state w (state1 s)) (state1 s) s)"
proof -
  obtain x where P: "i < length (wgs s)" "wg_local (wgs s ! i)" "state1 s = wg_enc (wgsum run_w s) x"
    "wgnum (wgsum run_w s) (wgsum chk_w s) (wgsum num_w s) (wgsum rel_w s) (wgsum slp_w s)
      (wgsum wok_w s) (wgsum don_w s) x (sema s)"
    using wginv_parts [OF inv i(1)] .
  have w: "unat w = wgsum num_w s" using wg_checker [OF inv i(1)] i(2) by simp
  have "chk_w (wgs s ! i) \<le> wgsum chk_w s" by (rule wgsum_ge [OF P(1)])
  then have "state1 s = state"
    using P(2-4) i(2) w by (auto simp: wgnum_def split: if_splits)
  then show ?thesis using i(2) by (auto simp: wg_Add_check_def intro!: wg_keep_inv [OF inv i])
qed

lemma wg_reset_inv:
  assumes inv: "wginv n s" and i: "i < n" "wgs s ! i = AddReset w"
  shows "wginv n (wg_put i (AddRelease w) 0 s)"
proof -
  obtain x where P: "i < length (wgs s)" "wg_local (wgs s ! i)" "state1 s = wg_enc (wgsum run_w s) x"
    "wgnum (wgsum run_w s) (wgsum chk_w s) (wgsum num_w s) (wgsum rel_w s) (wgsum slp_w s)
      (wgsum wok_w s) (wgsum don_w s) x (sema s)"
    using wginv_parts [OF inv i(1)] .
  have le: "f (AddReset w) \<le> wgsum f s" for f using wgsum_ge [OF P(1), of f] i(2) by simp
  have r: "0 < wgsum chk_w s" using le [of chk_w] by simp
  have "wgsum num_w s = unat w" using wg_checker [OF inv i(1)] i(2) by simp
  have "wginv n (wg_put i (AddRelease w) 0 (s\<lparr>sema := sema s\<rparr>))"
    by (rule wginv_step [OF inv i _ wg_enc_0 [symmetric]])
      (use P(4) r \<open>wgsum num_w s = unat w\<close> in \<open>auto simp: wgnum_def split: if_splits\<close>)
  then show ?thesis by simp
qed

lemma wg_release_inv:
  assumes inv: "wginv n s" and i: "i < n" "wgs s ! i = AddRelease w" and w: "w \<noteq> 0"
  shows "wginv n (wg_put i (AddRelease (w - 1)) (state1 s) (s\<lparr>sema := sema s + 1\<rparr>))"
proof -
  obtain x where P: "i < length (wgs s)" "wg_local (wgs s ! i)" "state1 s = wg_enc (wgsum run_w s) x"
    "wgnum (wgsum run_w s) (wgsum chk_w s) (wgsum num_w s) (wgsum rel_w s) (wgsum slp_w s)
      (wgsum wok_w s) (wgsum don_w s) x (sema s)"
    using wginv_parts [OF inv i(1)] .
  have "unat w \<le> wgsum rel_w s" using wgsum_ge [OF P(1), of rel_w] i(2) by simp
  moreover have "0 < unat w" "unat (w - 1) = unat w - 1" using w by (simp_all add: unat_gt_0 unat_minus_one)
  ultimately show ?thesis
    by (intro wginv_step [OF inv i _ P(3)]) (use P(4) in \<open>auto simp: wgnum_def split: if_splits\<close>)
qed

text \<open>The steps of a waiter.\<close>

lemma wg_cas_inv:
  assumes inv: "wginv n s" and n: "n < 2 ^ 31" and i: "i < n" "wgs s ! i = WaitCas state"
    and step: "wg_Wait_cas state (state1 s) = (q, m)"
  shows "wginv n (wg_put i q m s)"
proof (cases "state1 s = state")
  case False
  then show ?thesis using step i(2) by (auto simp: wg_Wait_cas_def intro!: wg_keep_inv [OF inv i])
next
  case True
  obtain x where P: "i < length (wgs s)" "wg_local (wgs s ! i)" "state1 s = wg_enc (wgsum run_w s) x"
    "wgnum (wgsum run_w s) (wgsum chk_w s) (wgsum num_w s) (wgsum rel_w s) (wgsum slp_w s)
      (wgsum wok_w s) (wgsum don_w s) x (sema s)"
    using wginv_parts [OF inv i(1)] .
  have x: "x < 2 ^ 31" using wgnum_waiters [OF P(4)] wginv_bounds [OF inv n] by simp
  have "0 < wgsum run_w s"
    using P(2,3) i(2) True wg_fields(1) [OF wginv_bounds(1) [OF inv n] x] by simp
  moreover have qm: "q = WaitSema" "m = wg_enc (wgsum run_w s) (Suc x)"
    using step True P(3) by (auto simp: wg_Wait_cas_def wg_enc_inc)
  ultimately have "wginv n (wg_put i q m (s\<lparr>sema := sema s\<rparr>))"
    by (intro wginv_step [OF inv i _ qm(2)]) (use P(4) in \<open>auto simp: wgnum_def\<close>)
  then show ?thesis by simp
qed

lemma wg_wake_inv:
  assumes inv: "wginv n s" and i: "i < n" "wgs s ! i = WaitSema" and sem: "0 < sema s"
  shows "wginv n (wg_put i WaitCheck (state1 s) (s\<lparr>sema := sema s - 1\<rparr>))"
proof -
  obtain x where P: "i < length (wgs s)" "wg_local (wgs s ! i)" "state1 s = wg_enc (wgsum run_w s) x"
    "wgnum (wgsum run_w s) (wgsum chk_w s) (wgsum num_w s) (wgsum rel_w s) (wgsum slp_w s)
      (wgsum wok_w s) (wgsum don_w s) x (sema s)"
    using wginv_parts [OF inv i(1)] .
  show ?thesis
    by (rule wginv_step [OF inv i _ P(3)])
      (use P(4) sem wgsum_ge [OF P(1), of slp_w] i(2) in \<open>auto simp: wgnum_def split: if_splits\<close>)
qed

text \<open>A step is one of these.\<close>

lemma wg_step_inv:
  assumes inv: "wginv n s" and n: "n < 2 ^ 31" and step: "wg_step i s = Some s'"
  shows "wginv n s'"
proof -
  have i: "i < n" using step inv by (auto simp: wg_step_def wginv_def split: if_splits)
  obtain x where P: "i < length (wgs s)" "wg_local (wgs s ! i)" "state1 s = wg_enc (wgsum run_w s) x"
    "wgnum (wgsum run_w s) (wgsum chk_w s) (wgsum num_w s) (wgsum rel_w s) (wgsum slp_w s)
      (wgsum wok_w s) (wgsum don_w s) x (sema s)"
    using wginv_parts [OF inv i] .
  have "\<not> length (wgs s) \<le> i" using P(1) by simp
  note step' = step [unfolded wg_step_def if_not_P [OF this]]
  have zero: "wgsum run_w s = 0" if "sint (wg_counter (state1 s)) = 0"
    using that wg_fields(1) [OF wginv_bounds(1) [OF inv n]] wgnum_waiters [OF P(4)]
      wginv_bounds(2) [OF inv n] P(3) by simp
  show ?thesis
  proof (cases "wgs s ! i")
    case (AddStart d)
    then show ?thesis using step' wg_Done_inv [OF inv n i AddStart] by (auto split: prod.splits)
  next
    case (AddCheck state w)
    then show ?thesis using step' wg_check_inv [OF inv n i AddCheck] by simp
  next
    case (AddReset w)
    then show ?thesis using step' wg_reset_inv [OF inv i AddReset] by simp
  next
    case (AddRelease w)
    then show ?thesis
      using step' wg_release_inv [OF inv i AddRelease] wg_keep_inv [OF inv i AddRelease, of AddDone]
      by (auto split: if_splits)
  next
    case WaitLoad
    then show ?thesis
      using step' zero by (auto simp: wg_Wait_load_def intro!: wg_keep_inv [OF inv i WaitLoad])
  next
    case (WaitCas state)
    then show ?thesis using step' wg_cas_inv [OF inv n i WaitCas] by (auto split: prod.splits)
  next
    case WaitSema
    then show ?thesis using step' wg_wake_inv [OF inv i WaitSema] by (auto split: if_splits)
  next
    case WaitCheck
    have "0 < wgsum wok_w s" using wgsum_ge [OF P(1), of wok_w] WaitCheck by simp
    then have "wgsum run_w s = 0" "state1 s = 0"
      using P(3,4) wg_enc_0 by (auto simp: wgnum_def split: if_splits)
    moreover have "wginv n (wg_put i WaitDone (state1 s) s)"
    proof -
      have "wginv n (wg_put i WaitDone (state1 s) (s\<lparr>sema := sema s\<rparr>))"
        by (rule wginv_step [OF inv i WaitCheck _ P(3)])
          (use P(4) \<open>wgsum run_w s = 0\<close> \<open>0 < wgsum wok_w s\<close> in \<open>auto simp: wgnum_def split: if_splits\<close>)
      then show ?thesis by simp
    qed
    ultimately show ?thesis using step' WaitCheck by (simp add: wg_Wait_check_def)
  qed (use step' in simp_all)
qed

lemma wginv_init: "wginv (k + m) (wg_init k m)"
proof -
  have "wgsum f (wg_init k m) = k * f wg_Done + m * f WaitLoad" for f
    by (simp add: wgsum_def wg_init_def tally_def sum_list_replicate)
  then show ?thesis
    by (auto simp: wginv_def wg_init_def wg_Done_def list_all_iff wg_enc_counter wgnum_def intro!: exI [of _ 0])
qed

lemma wg_reach_inv: "wg_reach k m s \<Longrightarrow> k + m < 2 ^ 31 \<Longrightarrow> wginv (k + m) s"
  by (induction rule: wg_reach.induct) (auto simp: wginv_init intro: wg_step_inv)

text \<open>The first \<open>k\<close> goroutines are workers and the others waiters.\<close>

fun wg_adds :: "wgpc \<Rightarrow> bool" where
  "wg_adds (AddStart _) = True" | "wg_adds (AddCheck _ _) = True" | "wg_adds (AddReset _) = True"
| "wg_adds (AddRelease _) = True" | "wg_adds AddDone = True" | "wg_adds _ = False"

lemma wg_reach_roles:
  "wg_reach k m s \<Longrightarrow> k + m < 2 ^ 31 \<Longrightarrow> j < k + m \<Longrightarrow> wg_adds (wgs s ! j) = (j < k)"
proof (induction arbitrary: j rule: wg_reach.induct)
  case init
  then show ?case by (simp add: wg_init_def wg_Done_def nth_append)
next
  case (step s i s')
  have inv: "wginv (k + m) s" "wginv (k + m) s'"
    using wg_reach_inv step.hyps step.prems(1) wg_reach.step by blast+
  then have loc: "wg_local (wgs s' ! j)" and len: "length (wgs s) = k + m"
    using step.prems by (auto simp: wginv_def list_all_length)
  show ?case
    using step.IH [OF step.prems] step.hyps(2) loc len step.prems(2) unfolding wg_step_def
    by (cases "wgs s ! i"; cases "j = i")
      (auto simp: wg_put_def wg_Add_def wg_Add_check_def wg_Wait_load_def wg_Wait_cas_def
        wg_Wait_check_def Let_def split: if_splits)
qed

section \<open>Waiting\<close>

text \<open>
  C31: \<open>Wait\<close> waits for everybody. However the calls interleave, when one \<open>Wait\<close> has returned every worker
  has called \<open>Done\<close>, and no call ever panics.
\<close>

theorem wg_wait_waits:
  assumes "wg_reach k m s" and "k + m < 2 ^ 31"
  shows "(WaitDone \<in> set (wgs s) \<longrightarrow> (\<forall>delta. AddStart delta \<notin> set (wgs s))) \<and>
    (\<forall>p. WgPanic p \<notin> set (wgs s))"
proof -
  have inv: "wginv (k + m) s" using wg_reach_inv assms by blast
  then have "WgPanic p \<notin> set (wgs s)" for p by (auto simp: wginv_def list_all_iff)
  moreover have "AddStart delta \<notin> set (wgs s)" if "WaitDone \<in> set (wgs s)" for delta
  proof
    assume "AddStart delta \<in> set (wgs s)"
    then have "wgsum run_w s \<noteq> 0" by (auto simp: wgsum_def tally_zero intro!: bexI [of _ "AddStart delta"])
    moreover have "wgsum don_w s \<noteq> 0" using that by (auto simp: wgsum_def tally_zero intro!: bexI [of _ WaitDone])
    ultimately show False using inv by (auto simp: wginv_def wgnum_def)
  qed
  ultimately show ?thesis by blast
qed

text \<open>One worker and one waiter that goes to sleep before \<open>Done\<close>, is released and returns.\<close>

definition wg_example :: waitgroup where
  "wg_example = \<lparr>state1 = 0, sema = 0, wgs = [AddDone, WaitDone]\<rparr>"

lemma wg_example_reach: "wg_reach 1 1 wg_example"
proof -
  define run where "run = foldl (\<lambda>r i. case r of None \<Rightarrow> None | Some s \<Rightarrow> wg_step i s) (Some (wg_init 1 1))"
  have "run is = Some s \<Longrightarrow> wg_reach 1 1 s" for "is" s
  proof (induction "is" arbitrary: s rule: rev_induct)
    case Nil
    then show ?case using wg_reach.init [of 1 1] by (simp add: run_def)
  next
    case (snoc i "is")
    then show ?case by (auto simp: run_def split: option.splits intro: wg_reach.step)
  qed
  moreover have "run [1, 1, 0, 0, 0, 0, 0, 1, 1] = Some wg_example"
    unfolding run_def wg_example_def by code_simp
  ultimately show ?thesis .
qed

theorem wg_wait_waits_witness:
  "WaitDone \<in> set (wgs wg_example) \<and> (\<forall>delta. AddStart delta \<notin> set (wgs wg_example)) \<and>
    (\<forall>p. WgPanic p \<notin> set (wgs wg_example))"
proof -
  have "WaitDone \<in> set (wgs wg_example)" by (simp add: wg_example_def)
  then show ?thesis using wg_wait_waits [OF wg_example_reach] by simp
qed

text \<open>
  C32: Nobody waits for ever. The only state in which no goroutine can take a step is the one in which all
  workers and all waiters have returned, and there the group is back at its zero value, with no permit
  left on its semaphore, so that it can be used again.
\<close>

theorem wg_everybody_returns:
  assumes "wg_reach k m s" and "k + m < 2 ^ 31" and "\<forall>i. wg_step i s = None"
  shows "s = \<lparr>state1 = 0, sema = 0, wgs = replicate k AddDone @ replicate m WaitDone\<rparr>"
proof -
  have inv: "wginv (k + m) s" using wg_reach_inv assms(1,2) by blast
  then have len: "length (wgs s) = k + m" by (simp add: wginv_def)
  have st: "wgs s ! i \<in> {AddDone, WaitDone} \<or> wgs s ! i = WaitSema \<and> sema s = 0" if "i < k + m" for i
  proof -
    have "wg_step i s = None" "wg_local (wgs s ! i)"
      using assms(3) inv that by (simp_all add: wginv_def list_all_length)
    then show ?thesis using that len
      by (cases "wgs s ! i") (auto simp: wg_step_def split: prod.splits if_splits)
  qed
  have z: "wgsum f s = 0" if "f AddDone = 0" "f WaitDone = 0" "f WaitSema = 0" for f
    using st len that by (fastforce simp: wgsum_def tally_zero in_set_conv_nth)
  have sums: "wgsum run_w s = 0" "wgsum chk_w s = 0" "wgsum rel_w s = 0" by (rule z; simp)+
  then have fin: "state1 s = 0" "sema s = wgsum slp_w s" using inv wg_enc_0 by (auto simp: wginv_def wgnum_def)
  have d: "wgs s ! i \<in> {AddDone, WaitDone}" if i: "i < k + m" for i
  proof (rule ccontr)
    assume "wgs s ! i \<notin> {AddDone, WaitDone}"
    then have "wgs s ! i = WaitSema" "sema s = 0" using st [OF i] by auto
    then show False using fin(2) wgsum_ge [of i s slp_w] i len by simp
  qed
  then have "wgs s = replicate k AddDone @ replicate m WaitDone"
    using len wg_reach_roles [OF assms(1,2)] by (intro nth_equalityI) (fastforce simp: nth_append)+
  moreover have "wgsum slp_w s = 0"
    using d len by (fastforce simp: wgsum_def tally_zero in_set_conv_nth)
  ultimately show ?thesis using fin by simp
qed

theorem wg_everybody_returns_witness:
  "wg_example = \<lparr>state1 = 0, sema = 0, wgs = replicate 1 AddDone @ replicate 1 WaitDone\<rparr>"
proof (rule wg_everybody_returns [OF wg_example_reach])
  show "\<forall>i. wg_step i wg_example = None"
    by (auto simp: wg_step_def wg_example_def nth_Cons' split: if_splits)
qed simp

end
