(* ===== verification/CondVar.thy ===== *)
theory CondVar
  imports GoWords
begin

text \<open>
  \<open>sync.Cond\<close> (\<open>sync/cond.go\<close>) and the notification list below it (\<open>notifyList\<close> in \<open>runtime/sema.go\<close>): a
  waiter takes a ticket from a counter, unlocks \<open>L\<close> and parks on a list unless its ticket has been notified in
  the meantime; \<open>Signal\<close> notifies the next ticket, \<open>Broadcast\<close> all tickets given out. Both counters are 32-bit
  words that wrap around.

  \<open>Wait\<close>, \<open>Signal\<close> and \<open>Broadcast\<close> are cut at every access to the counters outside of the list's lock; what they
  do while they hold the lock is one step. \<open>L\<close> is any \<open>Locker\<close>: its operations are steps that change nothing here.
  The \<open>Cond\<close> is not copied after its first use, so the check of \<open>copyChecker\<close>, which panics otherwise, is left out.
  Beside the words of the code the state has two ghost fields, the number of tickets given out and notified so
  far, and a program point that holds a ticket or a load of \<open>wait\<close> also holds the number it stands for; no step
  depends on them.
\<close>

section \<open>The code\<close>

definition ticket_less :: "u32 \<Rightarrow> u32 \<Rightarrow> bool" where
  "ticket_less a b \<longleftrightarrow> sint (a - b) < 0"

text \<open>
  Program points of \<open>Wait\<close>: before \<open>L.Unlock\<close>; before the list's lock; parked; before \<open>L.Lock\<close>. Of \<open>Signal\<close> and
  \<open>Broadcast\<close>: before the load of \<open>wait\<close>; before that of \<open>notify\<close>; before the lock; and with a list of goroutines
  that have left the list and are to be made ready.
\<close>

datatype cpc =
    CIdle | CUnlock u32 nat | CListWait u32 nat | CParked u32 nat | CRelock
  | SLoad | SCheck u32 nat | SLocked | BLoad | BCheck u32 nat | BLocked | Readying "nat list" | CThrow

record notify_list =
  nl_wait :: u32
  nl_notify :: u32
  nl_list :: "(nat \<times> u32) list"
  cgs :: "cpc list"
  added :: nat
  notified :: nat

definition notifyListAdd :: "notify_list \<Rightarrow> u32 \<times> notify_list" where
  "notifyListAdd l = (let w = nl_wait l + 1 in (w - 1, l\<lparr>nl_wait := w, added := added l + 1\<rparr>))"

text \<open>The critical section of \<open>notifyListWait\<close>: whether goroutine \<open>i\<close> parks.\<close>

definition notifyListWait :: "nat \<Rightarrow> u32 \<Rightarrow> notify_list \<Rightarrow> bool \<times> notify_list" where
  "notifyListWait i t l =
     (if ticket_less t (nl_notify l) then (False, l) else (True, l\<lparr>nl_list := nl_list l @ [(i, t)]\<rparr>))"

definition notifyListNotifyAll :: "notify_list \<Rightarrow> nat list \<times> notify_list" where
  "notifyListNotifyAll l =
     (map fst (nl_list l), l\<lparr>nl_list := [], nl_notify := nl_wait l, notified := added l\<rparr>)"

text \<open>The scan for the waiter with ticket \<open>t\<close>, which it unlinks.\<close>

fun unlink :: "u32 \<Rightarrow> (nat \<times> u32) list \<Rightarrow> (nat \<times> (nat \<times> u32) list) option" where
  "unlink t [] = None"
| "unlink t ((j, u) # s) =
     (if u = t then Some (j, s) else map_option (\<lambda>(k, s). (k, (j, u) # s)) (unlink t s))"

definition notifyListNotifyOne :: "notify_list \<Rightarrow> nat list \<times> notify_list" where
  "notifyListNotifyOne l =
     (let t = nl_notify l in
      if t = nl_wait l then ([], l)
      else
        let l = l\<lparr>nl_notify := t + 1, notified := notified l + 1\<rparr> in
        case unlink t (nl_list l) of
          None \<Rightarrow> ([], l)
        | Some (j, s) \<Rightarrow> ([j], l\<lparr>nl_list := s\<rparr>))"

definition cput :: "nat \<Rightarrow> cpc \<Rightarrow> notify_list \<Rightarrow> notify_list" where
  "cput i p l = l\<lparr>cgs := (cgs l)[i := p]\<rparr>"

text \<open>\<open>readyWithTime\<close>: a goroutine that is not parked makes the run time throw.\<close>

definition ready :: "nat \<Rightarrow> nat \<Rightarrow> nat list \<Rightarrow> notify_list \<Rightarrow> notify_list" where
  "ready i j js l =
     (case cgs l ! j of
        CParked t T \<Rightarrow> cput i (Readying js) (cput j CRelock l)
      | _ \<Rightarrow> cput i CThrow l)"

datatype cop = Wait | Signal | Broadcast

definition cond_step :: "cop \<Rightarrow> nat \<Rightarrow> notify_list \<Rightarrow> notify_list option" where
  "cond_step op i l =
     (if length (cgs l) \<le> i then None
      else case cgs l ! i of
        CIdle \<Rightarrow>
          Some (case op of
              Wait \<Rightarrow> let (t, l') = notifyListAdd l in cput i (CUnlock t (added l)) l'
            | Signal \<Rightarrow> cput i SLoad l
            | Broadcast \<Rightarrow> cput i BLoad l)
      | CUnlock t T \<Rightarrow> Some (cput i (CListWait t T) l)
      | CListWait t T \<Rightarrow>
          Some (let (parks, l) = notifyListWait i t l in cput i (if parks then CParked t T else CRelock) l)
      | CParked t T \<Rightarrow> None
      | CRelock \<Rightarrow> Some (cput i CIdle l)
      | SLoad \<Rightarrow> Some (cput i (SCheck (nl_wait l) (added l)) l)
      | SCheck w W \<Rightarrow> Some (cput i (if w = nl_notify l then CIdle else SLocked) l)
      | SLocked \<Rightarrow> Some (let (js, l) = notifyListNotifyOne l in cput i (Readying js) l)
      | BLoad \<Rightarrow> Some (cput i (BCheck (nl_wait l) (added l)) l)
      | BCheck w W \<Rightarrow> Some (cput i (if w = nl_notify l then CIdle else BLocked) l)
      | BLocked \<Rightarrow> Some (let (js, l) = notifyListNotifyAll l in cput i (Readying js) l)
      | Readying [] \<Rightarrow> Some (cput i CIdle l)
      | Readying (j # js) \<Rightarrow> Some (ready i j js l)
      | CThrow \<Rightarrow> None)"

definition cond_init :: "nat \<Rightarrow> notify_list" where
  "cond_init n = \<lparr>nl_wait = 0, nl_notify = 0, nl_list = [], cgs = replicate n CIdle, added = 0, notified = 0\<rparr>"

text \<open>The states that \<open>n\<close> goroutines can reach through states that satisfy \<open>P\<close>.\<close>

inductive cond_reach :: "(notify_list \<Rightarrow> bool) \<Rightarrow> nat \<Rightarrow> notify_list \<Rightarrow> bool" for P n where
  init: "P (cond_init n) \<Longrightarrow> cond_reach P n (cond_init n)"
| step: "cond_reach P n l \<Longrightarrow> cond_step op i l = Some l' \<Longrightarrow> P l' \<Longrightarrow> cond_reach P n l'"

section \<open>The invariant\<close>

text \<open>The ticket of a goroutine that waits, and the goroutines that one is making ready.\<close>

fun ticket :: "cpc \<Rightarrow> (u32 \<times> nat) option" where
  "ticket (CUnlock t T) = Some (t, T)" | "ticket (CListWait t T) = Some (t, T)" | "ticket (CParked t T) = Some (t, T)"
| "ticket _ = None"

fun parked :: "cpc \<Rightarrow> bool" where "parked (CParked _ _) = True" | "parked _ = False"

fun readying :: "cpc \<Rightarrow> nat list" where "readying (Readying js) = js" | "readying _ = []"

definition waiting :: "notify_list \<Rightarrow> nat \<Rightarrow> nat \<Rightarrow> bool" where
  "waiting l j T \<longleftrightarrow> j < length (cgs l) \<and> (\<exists>t. ticket (cgs l ! j) = Some (t, T))"

definition parked_at :: "notify_list \<Rightarrow> nat \<Rightarrow> nat \<Rightarrow> bool" where
  "parked_at l j T \<longleftrightarrow> waiting l j T \<and> parked (cgs l ! j)"

definition readied_by :: "notify_list \<Rightarrow> nat \<Rightarrow> nat \<Rightarrow> bool" where
  "readied_by l i j \<longleftrightarrow> i < length (cgs l) \<and> j \<in> set (readying (cgs l ! i))"

text \<open>
  Tickets: each number given out and not yet notified belongs to one waiting goroutine, and no two goroutines
  hold the same. The list holds those that are parked and not notified; a goroutine that is parked and notified
  is about to be made ready by exactly one other.
\<close>

definition tickets_ok :: "notify_list \<Rightarrow> bool" where
  "tickets_ok l \<longleftrightarrow> nl_wait l = of_nat (added l) \<and> nl_notify l = of_nat (notified l) \<and> notified l \<le> added l
     \<and> (\<forall>j t T. j < length (cgs l) \<longrightarrow> ticket (cgs l ! j) = Some (t, T) \<longrightarrow> t = of_nat T \<and> T < added l)
     \<and> (\<forall>i j T. waiting l i T \<longrightarrow> waiting l j T \<longrightarrow> i = j)
     \<and> (\<forall>T. notified l \<le> T \<and> T < added l \<longrightarrow> (\<exists>j. waiting l j T))"

definition list_ok :: "notify_list \<Rightarrow> bool" where
  "list_ok l \<longleftrightarrow> distinct (map fst (nl_list l))
     \<and> (\<forall>j t. (j, t) \<in> set (nl_list l) \<longleftrightarrow> (\<exists>T. parked_at l j T \<and> notified l \<le> T \<and> t = of_nat T))"

definition ready_ok :: "notify_list \<Rightarrow> bool" where
  "ready_ok l \<longleftrightarrow> (\<forall>i < length (cgs l). distinct (readying (cgs l ! i)))
     \<and> (\<forall>i i' j. readied_by l i j \<longrightarrow> readied_by l i' j \<longrightarrow> i = i')
     \<and> (\<forall>j. (\<exists>i. readied_by l i j) \<longleftrightarrow> (\<exists>T. parked_at l j T \<and> T < notified l))"

definition cond_inv :: "nat \<Rightarrow> notify_list \<Rightarrow> bool" where
  "cond_inv n l \<longleftrightarrow> length (cgs l) = n \<and> CThrow \<notin> set (cgs l) \<and> tickets_ok l \<and> list_ok l \<and> ready_ok l"

text \<open>
  The window in which comparing tickets modulo \<open>2 ^ 32\<close> is right: no waiter on its way to the list is more than
  \<open>2 ^ 31\<close> notifications late, and no load of \<open>wait\<close> by a notifier is \<open>2 ^ 32\<close> notifications old.
\<close>

fun in_window_pc :: "nat \<Rightarrow> cpc \<Rightarrow> bool" where
  "in_window_pc k (CUnlock t T) \<longleftrightarrow> k \<le> T + 2 ^ 31"
| "in_window_pc k (CListWait t T) \<longleftrightarrow> k \<le> T + 2 ^ 31"
| "in_window_pc k (SCheck w W) \<longleftrightarrow> k < W + 2 ^ 32"
| "in_window_pc k (BCheck w W) \<longleftrightarrow> k < W + 2 ^ 32"
| "in_window_pc k _ \<longleftrightarrow> True"

definition in_window :: "notify_list \<Rightarrow> bool" where
  "in_window l \<longleftrightarrow> list_all (in_window_pc (notified l)) (cgs l)"

section \<open>Comparing tickets\<close>

lemma sint_of_int_u32: "- (2 ^ 31) \<le> k \<Longrightarrow> k < 2 ^ 31 \<Longrightarrow> sint (of_int k :: u32) = k"
  by (simp add: sint_sbintrunc' signed_take_bit_int_eq_self)

lemma ticket_less_iff:
  assumes "T < N + 2 ^ 31" "N \<le> T + 2 ^ 31"
  shows "ticket_less (of_nat T) (of_nat N) \<longleftrightarrow> T < N"
proof -
  have "sint (of_nat T - of_nat N :: u32) = int T - int N"
  proof -
    have "(of_nat T - of_nat N :: u32) = of_int (int T - int N)" by simp
    moreover have "- (2 ^ 31) \<le> int T - int N" "int T - int N < 2 ^ 31" using assms by simp_all
    ultimately show ?thesis by (simp only: sint_of_int_u32)
  qed
  then show ?thesis by (simp add: ticket_less_def)
qed

lemma of_nat_u32_inj: "(of_nat a :: u32) = of_nat b \<Longrightarrow> a \<le> b \<Longrightarrow> b < a + 2 ^ 32 \<Longrightarrow> a = b"
proof -
  assume a: "(of_nat a :: u32) = of_nat b" "a \<le> b" "b < a + 2 ^ 32"
  then have "(of_nat (b - a) :: u32) = 0" by (simp add: of_nat_diff)
  moreover have "b - a < 2 ^ 32" using a by linarith
  moreover have "b - a = unat (of_nat (b - a) :: u32)" using calculation(2) by (simp add: unat_of_nat)
  ultimately have "b - a = 0" by simp
  then show ?thesis using a(2) by simp
qed

lemma pending_bound:
  assumes "cond_inv n l"
  shows "added l - notified l \<le> n"
proof -
  let ?g = "\<lambda>j. case ticket (cgs l ! j) of Some (t, T) \<Rightarrow> T | None \<Rightarrow> 0"
  have "T \<in> ?g ` {..<n}" if T: "notified l \<le> T" "T < added l" for T
  proof -
    obtain j t where "j < n" "ticket (cgs l ! j) = Some (t, T)"
      using assms T unfolding cond_inv_def tickets_ok_def waiting_def by metis
    then show ?thesis by (intro image_eqI [of _ _ j]) simp_all
  qed
  then have "{notified l..<added l} \<subseteq> ?g ` {..<n}" by auto
  then have "card {notified l..<added l} \<le> card (?g ` {..<n})" by (intro card_mono) simp_all
  also have "\<dots> \<le> n" using card_image_le [of "{..<n}" ?g] by simp
  finally show ?thesis by simp
qed

section \<open>Every step keeps the invariant\<close>

lemma waiting_cput: "i < length (cgs l) \<Longrightarrow>
    waiting (cput i q l) j T = (if j = i then \<exists>t. ticket q = Some (t, T) else waiting l j T)"
  and parked_cput: "i < length (cgs l) \<Longrightarrow>
    parked_at (cput i q l) j T = (if j = i then parked q \<and> (\<exists>t. ticket q = Some (t, T)) else parked_at l j T)"
  and readied_cput: "i < length (cgs l) \<Longrightarrow>
    readied_by (cput i q l) k j = (if k = i then j \<in> set (readying q) else readied_by l k j)"
  by (auto simp: waiting_def parked_at_def readied_by_def cput_def nth_list_update)

lemma nth_cput: "i < length (cgs l) \<Longrightarrow> cgs (cput i q l) ! j = (if j = i then q else cgs l ! j)"
  by (simp add: cput_def nth_list_update)

lemma cput_fields [simp]:
  "nl_wait (cput i q l) = nl_wait l" "nl_notify (cput i q l) = nl_notify l" "nl_list (cput i q l) = nl_list l"
  "added (cput i q l) = added l" "notified (cput i q l) = notified l" "length (cgs (cput i q l)) = length (cgs l)"
  by (simp_all add: cput_def)

text \<open>A step that changes neither ticket nor list.\<close>

lemma cond_silent:
  assumes inv: "cond_inv n l" and i: "i < n"
    and q: "ticket q = ticket (cgs l ! i)" "parked q = parked (cgs l ! i)" "readying q = readying (cgs l ! i)" "q \<noteq> CThrow"
  shows "cond_inv n (cput i q l)"
proof -
  have len: "i < length (cgs l)" using inv i by (simp add: cond_inv_def)
  have same: "waiting (cput i q l) = waiting l" "parked_at (cput i q l) = parked_at l" "readied_by (cput i q l) = readied_by l"
    using q len by (auto simp: fun_eq_iff waiting_cput parked_cput readied_cput)
      (auto simp: waiting_def parked_at_def readied_by_def)
  have nth: "ticket (cgs (cput i q l) ! j) = ticket (cgs l ! j)" "readying (cgs (cput i q l) ! j) = readying (cgs l ! j)" for j
    using q len by (auto simp: cput_def nth_list_update)
  have "CThrow \<notin> set (cgs (cput i q l))"
    using inv q(4) set_update_subset_insert [of "cgs l" i q] by (auto simp: cond_inv_def cput_def)
  then show ?thesis using inv unfolding cond_inv_def tickets_ok_def list_ok_def ready_ok_def same nth by simp
qed


text \<open>The invariant as rules: what a state that satisfies it gives, and what suffices for it.\<close>

lemma cond_inv_facts:
  assumes "cond_inv n l"
  shows cond_len: "length (cgs l) = n"
    and cond_words: "nl_wait l = of_nat (added l)" "nl_notify l = of_nat (notified l)" "notified l \<le> added l"
    and cond_ticket: "j < n \<Longrightarrow> ticket (cgs l ! j) = Some (t, T) \<Longrightarrow> t = of_nat T"
    and cond_below: "waiting l j T \<Longrightarrow> T < added l"
    and cond_owner: "waiting l i T \<Longrightarrow> waiting l j T \<Longrightarrow> i = j"
    and cond_owned: "notified l \<le> T \<Longrightarrow> T < added l \<Longrightarrow> \<exists>j. waiting l j T"
    and cond_listed: "(j, t) \<in> set (nl_list l) \<longleftrightarrow> (\<exists>T. parked_at l j T \<and> notified l \<le> T \<and> t = of_nat T)"
    and cond_list_distinct: "distinct (map fst (nl_list l))"
    and cond_readied: "(\<exists>i. readied_by l i j) \<longleftrightarrow> (\<exists>T. parked_at l j T \<and> T < notified l)"
    and cond_readier: "readied_by l i j \<Longrightarrow> readied_by l i' j \<Longrightarrow> i = i'"
    and cond_ready_distinct: "i < n \<Longrightarrow> distinct (readying (cgs l ! i))"
  using assms unfolding cond_inv_def tickets_ok_def list_ok_def ready_ok_def waiting_def by blast+

lemma waiting_unique: "waiting l j T \<Longrightarrow> waiting l j T' \<Longrightarrow> T = T'"
  by (auto simp: waiting_def)

lemma parked_waiting: "parked_at l j T \<Longrightarrow> waiting l j T"
  by (simp add: parked_at_def)

lemma one_number: "parked_at l j T \<Longrightarrow> parked_at l j T' \<Longrightarrow> T = T'"
  using parked_waiting waiting_unique by blast

lemma no_throw_cput: "CThrow \<notin> set (cgs l) \<Longrightarrow> q \<noteq> CThrow \<Longrightarrow> CThrow \<notin> set (cgs (cput i q l))"
  using set_update_subset_insert [of "cgs l" i q] by (auto simp: cput_def)

lemma cond_inv_add:
  assumes inv: "cond_inv n l" and i: "i < n" "cgs l ! i = CIdle"
  shows "cond_inv n (cput i (CUnlock (nl_wait l) (added l)) (l\<lparr>nl_wait := nl_wait l + 1, added := Suc (added l)\<rparr>))"
    (is "cond_inv n (cput i ?q ?l)")
proof -
  note f = cond_inv_facts [OF inv]
  have len: "i < length (cgs ?l)" using f(1) i by simp
  have w: "waiting ?l = waiting l" "parked_at ?l = parked_at l" "readied_by ?l = readied_by l"
    by (simp_all add: fun_eq_iff waiting_def parked_at_def readied_by_def)
  have no: "\<not> waiting l i T" "\<not> parked_at l i T" "\<not> readied_by l i j" for T j
    using i by (simp_all add: waiting_def parked_at_def readied_by_def)
  have wt: "waiting (cput i ?q ?l) j T \<longleftrightarrow> waiting l j T \<or> (j = i \<and> T = added l)" for j T
    using no by (auto simp: waiting_cput [OF len] w)
  have pk: "parked_at (cput i ?q ?l) = parked_at l" "readied_by (cput i ?q ?l) = readied_by l"
    using no by (auto simp: fun_eq_iff parked_cput [OF len] readied_cput [OF len] w)
  have "tickets_ok (cput i ?q ?l)"
    unfolding tickets_ok_def wt
  proof (intro conjI allI impI)
    show "notified (cput i ?q ?l) \<le> added (cput i ?q ?l)" using f(4) by simp
    fix j t T assume "j < length (cgs (cput i ?q ?l))" "ticket (cgs (cput i ?q ?l) ! j) = Some (t, T)"
    then have "if j = i then t = nl_wait l \<and> T = added l else j < n \<and> ticket (cgs l ! j) = Some (t, T)"
      using f(1) by (simp add: nth_cput [OF len] split: if_splits)
    then show "t = of_nat T" "T < added (cput i ?q ?l)"
      using f(2) f(5) [of j t T] f(6) [of j T] f(1) by (auto simp: waiting_def split: if_splits)
  next
    fix j k T assume "waiting l j T \<or> j = i \<and> T = added l" "waiting l k T \<or> k = i \<and> T = added l"
    then show "j = k" using f(6) f(7) by blast
  next
    fix T assume "notified (cput i ?q ?l) \<le> T \<and> T < added (cput i ?q ?l)"
    then show "\<exists>j. waiting l j T \<or> j = i \<and> T = added l" using f(8) [of T] by (cases "T = added l") auto
  qed (use f in simp_all)
  moreover have "list_ok (cput i ?q ?l)" using inv by (simp add: list_ok_def cond_inv_def pk)
  moreover have "ready_ok (cput i ?q ?l)"
    using inv i by (auto simp: ready_ok_def cond_inv_def pk) (auto simp: cput_def nth_list_update)
  ultimately show ?thesis using inv by (simp add: cond_inv_def no_throw_cput)
qed


text \<open>\<open>notifyListWait\<close>: a waiter whose ticket is notified returns, any other parks.\<close>

lemma cond_inv_return:
  assumes inv: "cond_inv n l" and i: "i < n" "cgs l ! i = CListWait t T" and late: "T < notified l"
  shows "cond_inv n (cput i CRelock l)" (is "cond_inv n ?l")
proof -
  note f = cond_inv_facts [OF inv]
  have len: "i < length (cgs l)" using f(1) i by simp
  have iT: "waiting l i T" and no: "\<not> parked_at l i T'" "\<not> readied_by l i j" for T' j
    using i f(1) by (simp_all add: waiting_def parked_at_def readied_by_def)
  have wt: "waiting ?l j T' \<longleftrightarrow> waiting l j T' \<and> j \<noteq> i" for j T' by (simp add: waiting_cput [OF len])
  have pk: "parked_at ?l = parked_at l" "readied_by ?l = readied_by l"
    using no by (auto simp: fun_eq_iff parked_cput [OF len] readied_cput [OF len])
  have "tickets_ok ?l"
    unfolding tickets_ok_def wt
  proof (intro conjI allI impI)
    fix j t T' assume "j < length (cgs ?l)" "ticket (cgs ?l ! j) = Some (t, T')"
    then have "j < n" "ticket (cgs l ! j) = Some (t, T')"
      using f(1) by (simp_all add: nth_cput [OF len] split: if_splits)
    then show "t = of_nat T'" "T' < added ?l" using f(1) f(5) [of j t T'] f(6) [of j T'] by (auto simp: waiting_def)
  next
    fix T' assume "notified ?l \<le> T' \<and> T' < added ?l"
    then obtain j where "waiting l j T'" "T' \<noteq> T" using f(8) [of T'] late by auto
    then show "\<exists>j. waiting l j T' \<and> j \<noteq> i" using waiting_unique [OF iT, of T'] by blast
  next
    fix j k T' assume "waiting l j T' \<and> j \<noteq> i" "waiting l k T' \<and> k \<noteq> i"
    then show "j = k" using f(7) by blast
  qed (use f(2-4) in simp_all)
  moreover have "list_ok ?l" using inv by (simp add: list_ok_def cond_inv_def pk)
  moreover have "ready_ok ?l"
    using inv i by (auto simp: ready_ok_def cond_inv_def pk) (auto simp: cput_def nth_list_update)
  ultimately show ?thesis using inv by (simp add: cond_inv_def no_throw_cput)
qed

lemma cond_inv_park:
  assumes inv: "cond_inv n l" and i: "i < n" "cgs l ! i = CListWait t T" and early: "notified l \<le> T"
  shows "cond_inv n (cput i (CParked t T) (l\<lparr>nl_list := nl_list l @ [(i, t)]\<rparr>))" (is "cond_inv n (cput i ?q ?l)")
proof -
  note f = cond_inv_facts [OF inv]
  have len: "i < length (cgs ?l)" and t: "t = of_nat T" using f(1) f(5) i by simp_all
  have w: "waiting ?l = waiting l" "parked_at ?l = parked_at l" "readied_by ?l = readied_by l"
    by (simp_all add: fun_eq_iff waiting_def parked_at_def readied_by_def)
  have no: "\<not> parked_at l i T'" "\<not> readied_by l i j" for T' j
    using i f(1) by (simp_all add: parked_at_def readied_by_def)
  have wt: "waiting (cput i ?q ?l) = waiting l" "readied_by (cput i ?q ?l) = readied_by l"
    using no i f(1) by (auto simp: fun_eq_iff waiting_cput [OF len] readied_cput [OF len] w) (auto simp: waiting_def)
  have pk: "parked_at (cput i ?q ?l) j T' \<longleftrightarrow> parked_at l j T' \<or> (j = i \<and> T' = T)" for j T'
    using no by (auto simp: parked_cput [OF len] w)
  have nth: "ticket (cgs (cput i ?q ?l) ! j) = ticket (cgs l ! j)"
    "readying (cgs (cput i ?q ?l) ! j) = readying (cgs l ! j)" for j
    using i by (auto simp: nth_cput [OF len])
  have "tickets_ok (cput i ?q ?l)" using inv unfolding tickets_ok_def cond_inv_def wt nth by simp
  moreover have "list_ok (cput i ?q ?l)"
  proof -
    have "i \<notin> fst ` set (nl_list l)" using f(9) no by auto
    then show ?thesis unfolding list_ok_def pk using f(9) f(10) early t by auto
  qed
  moreover have "ready_ok (cput i ?q ?l)"
    using inv early unfolding ready_ok_def cond_inv_def wt nth pk by fastforce
  ultimately show ?thesis using inv by (simp add: cond_inv_def no_throw_cput)
qed


text \<open>\<open>notifyListNotifyOne\<close>: the scan finds the waiter with the ticket exactly when it is on the list.\<close>

lemma unlink_None: "unlink t s = None \<longleftrightarrow> t \<notin> snd ` set s"
  by (induction t s rule: unlink.induct) (auto split: option.splits)

lemma unlink_Some: "unlink t s = Some (j, s') \<Longrightarrow> \<exists>a b. s = a @ (j, t) # b \<and> s' = a @ b"
proof (induction t s arbitrary: s' rule: unlink.induct)
  case (2 t k u s)
  show ?case
  proof (cases "u = t")
    case True
    then show ?thesis using 2(2) by (intro exI [of _ "[]"] exI [of _ s]) auto
  next
    case False
    then obtain r where "unlink t s = Some (j, r)" "s' = (k, u) # r" using 2(2) by (auto split: option.splits)
    then obtain a b where "s = a @ (j, t) # b" "s' = (k, u) # a @ b" using 2(1) [OF False] by blast
    then show ?thesis by (intro exI [of _ "(k, u) # a"] exI [of _ b]) auto
  qed
qed simp

lemma words_equal:
  assumes "cond_inv n l" "n < 2 ^ 31"
  shows "nl_wait l = nl_notify l \<longleftrightarrow> added l = notified l"
proof -
  have "added l < notified l + 2 ^ 32" using pending_bound [OF assms(1)] assms(2) by simp
  then show ?thesis using of_nat_u32_inj [of "notified l" "added l"] cond_words [OF assms(1)] by metis
qed

text \<open>Two numbers that were given out and not notified are equal when their tickets are.\<close>

lemma pending_ticket:
  assumes "cond_inv n l" "n < 2 ^ 31" "notified l \<le> T" "T < added l" "notified l \<le> T'" "T' < added l"
  shows "(of_nat T :: u32) = of_nat T' \<longleftrightarrow> T = T'"
proof -
  have "T < T' + 2 ^ 32" "T' < T + 2 ^ 32" using pending_bound [OF assms(1)] assms(2-6) by simp_all
  then show ?thesis using of_nat_u32_inj [of T T'] of_nat_u32_inj [of T' T] by (metis linear)
qed

text \<open>The waiter whose number is the next to be notified, if it is parked, is the one the scan finds.\<close>

lemma unlink_next:
  assumes inv: "cond_inv n l" and n: "n < 2 ^ 31" and pend: "notified l < added l"
  shows "case unlink (nl_notify l) (nl_list l) of
      None \<Rightarrow> \<forall>j. \<not> parked_at l j (notified l)
    | Some (j, s) \<Rightarrow> parked_at l j (notified l) \<and> distinct (map fst s)
        \<and> (\<forall>k t. (k, t) \<in> set s \<longleftrightarrow> (k, t) \<in> set (nl_list l) \<and> k \<noteq> j)"
proof (cases "unlink (nl_notify l) (nl_list l)")
  case None
  then have "nl_notify l \<notin> snd ` set (nl_list l)" by (simp add: unlink_None)
  then have "\<not> parked_at l j (notified l)" for j
    using cond_listed [OF inv, of j "nl_notify l"] cond_words(2) [OF inv] by force
  then show ?thesis using None by simp
next
  case (Some p)
  obtain j s where p: "p = (j, s)" by fastforce
  obtain a b where s: "nl_list l = a @ (j, nl_notify l) # b" "s = a @ b" using unlink_Some Some p by blast
  then obtain T where T: "parked_at l j T" "notified l \<le> T" "nl_notify l = of_nat T"
    using cond_listed [OF inv, of j "nl_notify l"] by auto
  then have "T = notified l"
    using pending_ticket [OF inv n T(2) _ order.refl pend] cond_below [OF inv parked_waiting] cond_words(2) [OF inv] by metis
  then show ?thesis using Some p s T(1) cond_list_distinct [OF inv] by (auto simp: rev_image_eqI)
qed


lemma cond_inv_one:
  assumes inv: "cond_inv n l" and n: "n < 2 ^ 31" and i: "i < n" "cgs l ! i = SLocked"
  shows "cond_inv n (let (js, l) = notifyListNotifyOne l in cput i (Readying js) l)"
proof (cases "notified l = added l")
  case True
  then have "notifyListNotifyOne l = ([], l)"
    using words_equal [OF inv n] by (simp add: notifyListNotifyOne_def)
  then show ?thesis using cond_silent [OF inv i(1), of "Readying []"] i by simp
next
  case False
  note f = cond_inv_facts [OF inv]
  have pend: "notified l < added l" using False f(4) by simp
  define js where "js = (case unlink (nl_notify l) (nl_list l) of None \<Rightarrow> [] | Some (j, s) \<Rightarrow> [j])"
  define s where "s = (case unlink (nl_notify l) (nl_list l) of None \<Rightarrow> nl_list l | Some (j, s) \<Rightarrow> s)"
  define l' where "l' = l\<lparr>nl_notify := nl_notify l + 1, notified := Suc (notified l), nl_list := s\<rparr>"
  have one: "notifyListNotifyOne l = (js, l')"
    using words_equal [OF inv n] False
    by (auto simp: notifyListNotifyOne_def js_def s_def l'_def Let_def split: option.splits)
  have one_parked: "parked_at l j T \<Longrightarrow> parked_at l k T \<Longrightarrow> j = k" for j k T
    using f(7) parked_waiting by blast
  have js: "\<forall>j. j \<in> set js \<longleftrightarrow> parked_at l j (notified l)" "distinct js"
    and s: "\<forall>k t. (k, t) \<in> set s \<longleftrightarrow> (k, t) \<in> set (nl_list l) \<and> k \<notin> set js" "distinct (map fst s)"
    using unlink_next [OF inv n pend] f(10) by (auto simp: js_def s_def dest: one_parked split: option.splits)
  have len: "i < length (cgs l')" using f(1) i by (simp add: l'_def)
  have w: "waiting l' = waiting l" "parked_at l' = parked_at l" "readied_by l' = readied_by l"
    by (simp_all add: l'_def fun_eq_iff waiting_def parked_at_def readied_by_def)
  have no: "\<not> waiting l i T" "\<not> parked_at l i T" "\<not> readied_by l i j" for T j
    using i by (simp_all add: waiting_def parked_at_def readied_by_def)
  let ?l = "cput i (Readying js) l'"
  have wt: "waiting ?l = waiting l" "parked_at ?l = parked_at l"
    using no by (auto simp: fun_eq_iff waiting_cput [OF len] parked_cput [OF len] w)
  have rd: "readied_by ?l k j \<longleftrightarrow> readied_by l k j \<or> (k = i \<and> parked_at l j (notified l))" for k j
    using no js(1) by (auto simp: readied_cput [OF len] w)
  have tk: "ticket (cgs ?l ! j) = ticket (cgs l ! j)" for j
    using i by (auto simp: nth_cput [OF len]) (simp add: l'_def)
  have "tickets_ok ?l"
    using inv pend unfolding cond_inv_def tickets_ok_def wt tk by (simp add: l'_def)
  moreover have "list_ok ?l"
    unfolding list_ok_def wt
  proof (intro conjI allI)
    fix j t
    have "(j, t) \<in> set s \<longleftrightarrow> (\<exists>T. parked_at l j T \<and> notified l \<le> T \<and> t = of_nat T) \<and> \<not> parked_at l j (notified l)"
      using s(1) js(1) f(9) by blast
    also have "\<dots> \<longleftrightarrow> (\<exists>T. parked_at l j T \<and> Suc (notified l) \<le> T \<and> t = of_nat T)"
      using one_number [of l j] by (metis Suc_le_eq le_neq_implies_less less_imp_le less_irrefl)
    finally show "(j, t) \<in> set (nl_list ?l) \<longleftrightarrow> (\<exists>T. parked_at l j T \<and> notified ?l \<le> T \<and> t = of_nat T)"
      by (simp add: l'_def)
  qed (use s(2) in \<open>simp add: l'_def\<close>)
  moreover have "ready_ok ?l"
    unfolding ready_ok_def wt rd
  proof (intro conjI allI impI)
    fix k assume "k < length (cgs ?l)"
    then show "distinct (readying (cgs ?l ! k))" using f(1) f(13) js(2) by (simp add: nth_cput [OF len]) (simp add: l'_def)
  next
    fix k k' j
    assume "readied_by l k j \<or> k = i \<and> parked_at l j (notified l)" "readied_by l k' j \<or> k' = i \<and> parked_at l j (notified l)"
    then show "k = k'" using f(12) f(11) one_number by (metis less_irrefl)
  next
    fix j
    show "(\<exists>k. readied_by l k j \<or> k = i \<and> parked_at l j (notified l)) \<longleftrightarrow> (\<exists>T. parked_at l j T \<and> T < notified ?l)"
      using f(11) [of j] by (auto simp: l'_def less_Suc_eq)
  qed
  ultimately have "cond_inv n ?l" using inv by (simp add: cond_inv_def l'_def no_throw_cput)
  then show ?thesis by (simp add: one)
qed


text \<open>\<open>notifyListNotifyAll\<close>: every parked goroutine that was not notified is taken off the list.\<close>

lemma cond_inv_all:
  assumes inv: "cond_inv n l" and i: "i < n" "cgs l ! i = BLocked"
  shows "cond_inv n (let (js, l) = notifyListNotifyAll l in cput i (Readying js) l)"
proof -
  note f = cond_inv_facts [OF inv]
  let ?js = "map fst (nl_list l)"
  define l' where "l' = l\<lparr>nl_list := [], nl_notify := nl_wait l, notified := added l\<rparr>"
  have len: "i < length (cgs l')" using f(1) i by (simp add: l'_def)
  have w: "waiting l' = waiting l" "parked_at l' = parked_at l" "readied_by l' = readied_by l"
    by (simp_all add: l'_def fun_eq_iff waiting_def parked_at_def readied_by_def)
  have no: "\<not> waiting l i T" "\<not> parked_at l i T" "\<not> readied_by l i j" for T j
    using i by (simp_all add: waiting_def parked_at_def readied_by_def)
  let ?l = "cput i (Readying ?js) l'"
  have wt: "waiting ?l = waiting l" "parked_at ?l = parked_at l"
    using no by (auto simp: fun_eq_iff waiting_cput [OF len] parked_cput [OF len] w)
  have js: "j \<in> set ?js \<longleftrightarrow> (\<exists>T. parked_at l j T \<and> notified l \<le> T)" for j
  proof -
    have "j \<in> set ?js \<longleftrightarrow> (\<exists>t. (j, t) \<in> set (nl_list l))" by force
    then show ?thesis using f(9) by blast
  qed
  have rd: "readied_by ?l k j \<longleftrightarrow> readied_by l k j \<or> (k = i \<and> (\<exists>T. parked_at l j T \<and> notified l \<le> T))" for k j
    using no by (auto simp: readied_cput [OF len] w js simp del: set_map)
  have tk: "ticket (cgs ?l ! j) = ticket (cgs l ! j)" for j
    using i by (auto simp: nth_cput [OF len]) (simp add: l'_def)
  have below: "parked_at l j T \<Longrightarrow> T < added l" for j T using f(6) parked_waiting by blast
  have "tickets_ok ?l"
    using inv unfolding cond_inv_def tickets_ok_def wt tk by (simp add: l'_def)
  moreover have "list_ok ?l"
    unfolding list_ok_def wt using below by (auto simp: l'_def dest: leD)
  moreover have "ready_ok ?l"
    unfolding ready_ok_def wt rd
  proof (intro conjI allI impI)
    fix k assume "k < length (cgs ?l)"
    then show "distinct (readying (cgs ?l ! k))" using f(1) f(13) f(10) by (simp add: nth_cput [OF len]) (simp add: l'_def)
  next
    fix k k' j
    assume "readied_by l k j \<or> k = i \<and> (\<exists>T. parked_at l j T \<and> notified l \<le> T)"
      "readied_by l k' j \<or> k' = i \<and> (\<exists>T. parked_at l j T \<and> notified l \<le> T)"
    then show "k = k'" using f(12) f(11) one_number by (metis leD)
  next
    fix j
    show "(\<exists>k. readied_by l k j \<or> k = i \<and> (\<exists>T. parked_at l j T \<and> notified l \<le> T))
        \<longleftrightarrow> (\<exists>T. parked_at l j T \<and> T < notified ?l)"
      using f(11) [of j] f(4) below by (auto simp: l'_def) (metis not_less)
  qed
  ultimately have "cond_inv n ?l" using inv by (simp add: cond_inv_def l'_def no_throw_cput)
  then show ?thesis by (simp add: notifyListNotifyAll_def l'_def)
qed

text \<open>\<open>readyWithTime\<close>: the goroutine made ready is parked.\<close>

lemma cond_inv_ready:
  assumes inv: "cond_inv n l" and i: "i < n" "cgs l ! i = Readying (j # js)"
  shows "cond_inv n (ready i j js l)"
proof -
  note f = cond_inv_facts [OF inv]
  have "readied_by l i j" using i f(1) by (simp add: readied_by_def)
  then obtain T where jT: "parked_at l j T" and T: "T < notified l" using f(11) by blast
  then obtain t where j: "j < n" "cgs l ! j = CParked t T"
    using f(1) by (cases "cgs l ! j") (auto simp: parked_at_def waiting_def)
  have ij: "i \<noteq> j" using i j by auto
  let ?l = "cput i (Readying js) (cput j CRelock l)"
  have lj: "j < length (cgs l)" and li: "i < length (cgs (cput j CRelock l))" using i j f(1) by simp_all
  have no: "\<not> waiting l i T'" "\<not> readied_by l j k" "\<not> parked_at l i T'" for T' k
    using i j by (simp_all add: waiting_def readied_by_def parked_at_def)
  have js: "readied_by l i k \<longleftrightarrow> k = j \<or> k \<in> set js" for k using i f(1) by (auto simp: readied_by_def)
  have "distinct (j # js)" using f(13) [OF i(1)] i(2) by simp
  then have dist: "j \<notin> set js" "distinct js" by simp_all
  have wt: "waiting ?l k T' \<longleftrightarrow> waiting l k T' \<and> k \<noteq> j" "parked_at ?l k T' \<longleftrightarrow> parked_at l k T' \<and> k \<noteq> j" for k T'
    using no ij
    by (auto simp: waiting_cput [OF li] waiting_cput [OF lj] parked_cput [OF li] parked_cput [OF lj])
  have rd: "readied_by ?l k m \<longleftrightarrow> readied_by l k m \<and> m \<noteq> j" for k m
  proof -
    have "readied_by l k m \<Longrightarrow> m = j \<Longrightarrow> k = i" using f(12) \<open>readied_by l i j\<close> by blast
    moreover have "readied_by ?l k m \<longleftrightarrow> (if k = i then m \<in> set js else k \<noteq> j \<and> readied_by l k m)"
      by (simp add: readied_cput [OF li] readied_cput [OF lj])
    ultimately show ?thesis using no(2) [of m] js [of m] dist(1) by auto
  qed
  have tk: "ticket (cgs ?l ! k) = (if k = j then None else ticket (cgs l ! k))" for k
    using i ij by (auto simp: nth_cput [OF li] nth_cput [OF lj])
  have "tickets_ok ?l"
    unfolding tickets_ok_def wt
  proof (intro conjI allI impI)
    fix k t T' assume "k < length (cgs ?l)" "ticket (cgs ?l ! k) = Some (t, T')"
    then have "k < n" "ticket (cgs l ! k) = Some (t, T')"
      using f(1) by (simp_all add: tk split: if_splits)
    then show "t = of_nat T'" "T' < added ?l" using f(1) f(5) [of k t T'] f(6) [of k T'] by (auto simp: waiting_def)
  next
    fix T' assume "notified ?l \<le> T' \<and> T' < added ?l"
    then obtain k where "waiting l k T'" "T' \<noteq> T" using f(8) [of T'] T by auto
    then show "\<exists>k. waiting l k T' \<and> k \<noteq> j" using waiting_unique [OF parked_waiting [OF jT], of T'] by blast
  next
    fix k m T' assume "waiting l k T' \<and> k \<noteq> j" "waiting l m T' \<and> m \<noteq> j"
    then show "k = m" using f(7) by blast
  qed (use f(2-4) in simp_all)
  moreover have "list_ok ?l"
    unfolding list_ok_def wt using f(9) f(10) one_number [OF jT] T by (auto dest: leD)
  moreover have "ready_ok ?l"
    unfolding ready_ok_def wt rd
  proof (intro conjI allI impI)
    fix k assume "k < length (cgs ?l)"
    then show "distinct (readying (cgs ?l ! k))" using f(1) f(13) dist(2) by (simp add: nth_cput [OF li] nth_cput [OF lj])
  next
    fix k k' m assume "readied_by l k m \<and> m \<noteq> j" "readied_by l k' m \<and> m \<noteq> j"
    then show "k = k'" using f(12) by blast
  next
    fix m
    show "(\<exists>k. readied_by l k m \<and> m \<noteq> j) \<longleftrightarrow> (\<exists>T. (parked_at l m T \<and> m \<noteq> j) \<and> T < notified ?l)"
      using f(11) [of m] by auto
  qed
  ultimately have "cond_inv n ?l" using inv by (simp add: cond_inv_def no_throw_cput)
  then show ?thesis using j(2) by (simp add: ready_def)
qed


theorem cond_step_inv:
  assumes inv: "cond_inv n l" and n: "n < 2 ^ 31" and win: "in_window l" and step: "cond_step op i l = Some l'"
  shows "cond_inv n l'"
proof -
  note f = cond_inv_facts [OF inv]
  have i: "i < n" using step f(1) by (auto simp: cond_step_def split: if_splits)
  note quiet = cond_silent [OF inv i]
  show ?thesis
  proof (cases "cgs l ! i")
    case CIdle
    then show ?thesis
      using step i f(1) quiet cond_inv_add [OF inv i CIdle]
      by (cases op) (auto simp: cond_step_def notifyListAdd_def Let_def)
  next
    case (CListWait t T)
    have "i < length (cgs l)" "T < added l" "t = of_nat T"
      using CListWait i f(1) f(5) f(6) [of i T] by (simp_all add: waiting_def)
    moreover have "T < notified l + 2 ^ 31" using pending_bound [OF inv] n calculation(2) by simp
    moreover have "notified l \<le> T + 2 ^ 31"
      using win CListWait calculation(1) by (auto simp: in_window_def list_all_length)
    ultimately have "ticket_less t (nl_notify l) \<longleftrightarrow> T < notified l" using ticket_less_iff f(3) by simp
    then show ?thesis
      using step CListWait i f(1) cond_inv_return [OF inv i CListWait] cond_inv_park [OF inv i CListWait]
      by (auto simp: cond_step_def notifyListWait_def Let_def split: if_splits)
  next
    case (Readying js)
    then show ?thesis
      using step i f(1) quiet cond_inv_ready [OF inv i] by (cases js) (auto simp: cond_step_def)
  qed (use step i f(1) quiet cond_inv_one [OF inv n i] cond_inv_all [OF inv i] in \<open>auto simp: cond_step_def split: if_splits\<close>)
qed

lemma cond_init_inv: "cond_inv n (cond_init n)"
  by (auto simp: cond_inv_def tickets_ok_def list_ok_def ready_ok_def cond_init_def waiting_def parked_at_def readied_by_def)

lemma cond_reach_inv: "cond_reach in_window n l \<Longrightarrow> n < 2 ^ 31 \<Longrightarrow> cond_inv n l \<and> in_window l"
  by (induction rule: cond_reach.induct) (auto intro: cond_init_inv cond_step_inv)


text \<open>What a notifier loaded was the number of tickets given out then.\<close>

fun loads_pc :: "nat \<Rightarrow> cpc \<Rightarrow> bool" where
  "loads_pc a (SCheck w W) \<longleftrightarrow> w = of_nat W \<and> W \<le> a"
| "loads_pc a (BCheck w W) \<longleftrightarrow> w = of_nat W \<and> W \<le> a"
| "loads_pc a _ \<longleftrightarrow> True"

definition loads_ok :: "notify_list \<Rightarrow> bool" where
  "loads_ok l \<longleftrightarrow> list_all (loads_pc (added l)) (cgs l)"

lemma loads_cput: "loads_ok l \<Longrightarrow> loads_pc (added l) q \<Longrightarrow> loads_ok (cput i q l)"
  using set_update_subset_insert [of "cgs l" i q] by (auto simp: loads_ok_def cput_def list_all_iff)

lemma loads_more: "loads_pc a q \<Longrightarrow> a \<le> b \<Longrightarrow> loads_pc b q"
  by (cases q) auto

lemma loads_same: "loads_ok l \<Longrightarrow> cgs l' = cgs l \<Longrightarrow> added l \<le> added l' \<Longrightarrow> loads_ok l'"
  using loads_more by (auto simp: loads_ok_def list_all_iff)

lemma loads_step:
  assumes "loads_ok l" "nl_wait l = of_nat (added l)" "cond_step op i l = Some l'"
  shows "loads_ok l'"
  using assms
  by (auto simp: cond_step_def notifyListAdd_def notifyListWait_def notifyListNotifyOne_def notifyListNotifyAll_def ready_def Let_def
      intro!: loads_cput intro: loads_same [OF assms(1)] split: if_splits cpc.splits cop.splits list.splits option.splits)

lemma cond_reach_loads: "cond_reach in_window n l \<Longrightarrow> n < 2 ^ 31 \<Longrightarrow> loads_ok l"
proof (induction rule: cond_reach.induct)
  case init
  then show ?case by (simp add: loads_ok_def cond_init_def list_all_iff)
next
  case (step l op i l')
  then show ?case using loads_step cond_words(1) cond_reach_inv by blast
qed

section \<open>What the condition variable promises\<close>

text \<open>
  C35: No wakeup is lost. As long as no goroutine is \<open>2 ^ 31\<close> notifications late, a goroutine that is parked in
  \<open>Wait\<close> is on the notification list if its ticket was not notified, and otherwise it is about to be made ready,
  by exactly one goroutine; a \<open>Signal\<close> or \<open>Broadcast\<close> that returns without taking the lock leaves no ticket
  behind that was given out before it read \<open>wait\<close>; and the run time never throws.
\<close>

theorem cond_no_lost_wakeup:
  assumes "cond_reach in_window n l" and "n < 2 ^ 31"
  shows "(\<forall>j T. parked_at l j T \<longrightarrow>
            (if T < notified l then (\<exists>!i. readied_by l i j) \<and> j \<notin> fst ` set (nl_list l)
             else (j, of_nat T) \<in> set (nl_list l) \<and> (\<nexists>i. readied_by l i j)))
         \<and> (\<forall>i < n. \<forall>w W. cgs l ! i = SCheck w W \<or> cgs l ! i = BCheck w W \<longrightarrow> w = nl_notify l \<longrightarrow> notified l = W)
         \<and> CThrow \<notin> set (cgs l)"
proof (intro conjI allI impI)
  have inv: "cond_inv n l" and win: "in_window l" using cond_reach_inv assms by auto
  note f = cond_inv_facts [OF inv]
  show "CThrow \<notin> set (cgs l)" using inv by (simp add: cond_inv_def)
  show "if T < notified l then (\<exists>!i. readied_by l i j) \<and> j \<notin> fst ` set (nl_list l)
      else (j, of_nat T) \<in> set (nl_list l) \<and> (\<nexists>i. readied_by l i j)" if p: "parked_at l j T" for j T
  proof -
    have "parked_at l j T' \<longleftrightarrow> T' = T" for T' using one_number [OF p] p by blast
    then have "(j, t) \<in> set (nl_list l) \<longleftrightarrow> notified l \<le> T \<and> t = of_nat T"
      and "(\<exists>i. readied_by l i j) \<longleftrightarrow> T < notified l" for t
      using f(9) [of j] f(11) [of j] by auto
    then show ?thesis using f(12) [of _ j] by (auto simp: not_less)
  qed
  show "notified l = W"
    if i: "i < n" and chk: "cgs l ! i = SCheck w W \<or> cgs l ! i = BCheck w W" and w: "w = nl_notify l" for i w W
  proof -
    have "loads_pc (added l) (cgs l ! i)" "in_window_pc (notified l) (cgs l ! i)"
      using cond_reach_loads assms win i f(1) by (auto simp: loads_ok_def in_window_def list_all_length)
    then have "w = of_nat W" "W \<le> added l" "notified l < W + 2 ^ 32" using chk by auto
    moreover have "W < notified l + 2 ^ 32" using pending_bound [OF inv] assms(2) calculation(2) by simp
    ultimately show ?thesis using of_nat_u32_inj [of W "notified l"] of_nat_u32_inj [of "notified l" W] f(3) w
      by (metis linear)
  qed
qed

text \<open>
  C36: \<open>Signal\<close> serves the goroutines in the order in which they called \<open>Wait\<close>. When \<open>notifyListNotifyOne\<close> holds
  the lock and a ticket is outstanding, some goroutine waits with the oldest one. The call notifies that ticket;
  it takes that goroutine off the list and readies it, or, when it has not parked yet, readies none; the order
  of all others on the list is kept. With no ticket outstanding the call changes nothing.
\<close>

theorem cond_signal_oldest:
  assumes "cond_reach in_window n l" and "n < 2 ^ 31" and "i < n" and "cgs l ! i = SLocked"
  shows "if notified l = added l then cond_step op i l = Some (cput i (Readying []) l)
    else \<exists>j. waiting l j (notified l)
      \<and> (\<forall>k T. waiting l k T \<and> notified l \<le> T \<and> k \<noteq> j \<longrightarrow> notified l < T)
      \<and> cond_step op i l = Some (cput i (Readying (if parked (cgs l ! j) then [j] else []))
          (l\<lparr>nl_notify := nl_notify l + 1, nl_list := filter (\<lambda>(k, t). k \<noteq> j) (nl_list l), notified := Suc (notified l)\<rparr>))"
proof -
  have inv: "cond_inv n l" using cond_reach_inv assms by auto
  note f = cond_inv_facts [OF inv]
  have st: "cond_step op i l = Some (let (js, l) = notifyListNotifyOne l in cput i (Readying js) l)"
    using assms f(1) by (simp add: cond_step_def)
  show ?thesis
  proof (cases "notified l = added l")
    case True
    then show ?thesis using st words_equal [OF inv assms(2)] by (simp add: notifyListNotifyOne_def)
  next
    case False
    then have pend: "notified l < added l" using f(4) by simp
    then obtain j where j: "waiting l j (notified l)" using f(8) by blast
    have other: "waiting l k T \<and> notified l \<le> T \<and> k \<noteq> j \<longrightarrow> notified l < T" for k T
      using f(7) [OF j] by (auto simp: le_less)
    have "notifyListNotifyOne l = (if parked (cgs l ! j) then [j] else [],
        l\<lparr>nl_notify := nl_notify l + 1, nl_list := filter (\<lambda>(k, t). k \<noteq> j) (nl_list l), notified := Suc (notified l)\<rparr>)"
    proof (cases "unlink (nl_notify l) (nl_list l)")
      case None
      then have np: "\<not> parked (cgs l ! j)"
        using unlink_next [OF inv assms(2) pend] j by (auto simp: parked_at_def)
      then have "\<forall>x \<in> set (nl_list l). fst x \<noteq> j" using f(9) [of j] by (auto simp: parked_at_def)
      then have "filter (\<lambda>(k, t). k \<noteq> j) (nl_list l) = nl_list l" by (auto simp: filter_id_conv)
      then show ?thesis using None np False words_equal [OF inv assms(2)] by (simp add: notifyListNotifyOne_def)
    next
      case (Some p)
      obtain k s where p: "p = (k, s)" by fastforce
      have "parked_at l k (notified l)" using unlink_next [OF inv assms(2) pend] Some p by simp
      then have kj: "k = j" "parked (cgs l ! j)" using f(7) [OF j] by (auto simp: parked_at_def)
      obtain a b where s: "nl_list l = a @ (j, nl_notify l) # b" "s = a @ b" using unlink_Some Some p kj by blast
      then have "j \<notin> fst ` set a" "j \<notin> fst ` set b" using f(10) by auto
      then have "filter (\<lambda>(k, t). k \<noteq> j) a = a" "filter (\<lambda>(k, t). k \<noteq> j) b = b"
        by (auto simp: filter_id_conv rev_image_eqI)
      then have "filter (\<lambda>(k, t). k \<noteq> j) (nl_list l) = s" by (simp add: s)
      then show ?thesis using Some p kj False words_equal [OF inv assms(2)]
        by (simp add: notifyListNotifyOne_def)
    qed
    then show ?thesis using st j other False by auto
  qed
qed


text \<open>The goroutines that wait for a notification are as many as the tickets outstanding.\<close>

definition ticket_number :: "cpc \<Rightarrow> nat" where
  "ticket_number p = (case ticket p of Some (t, T) \<Rightarrow> T | None \<Rightarrow> 0)"

lemma pending_count:
  assumes inv: "cond_inv n l"
  shows "card {j. \<exists>T. waiting l j T \<and> notified l \<le> T} = added l - notified l"
proof -
  note f = cond_inv_facts [OF inv]
  have num: "waiting l j T \<Longrightarrow> ticket_number (cgs l ! j) = T" for j T
    by (auto simp: waiting_def ticket_number_def)
  have "bij_betw (\<lambda>j. ticket_number (cgs l ! j)) {j. \<exists>T. waiting l j T \<and> notified l \<le> T} {notified l..<added l}"
    unfolding bij_betw_def
  proof
    show "inj_on (\<lambda>j. ticket_number (cgs l ! j)) {j. \<exists>T. waiting l j T \<and> notified l \<le> T}"
      using f(7) num by (auto intro!: inj_onI)
    show "(\<lambda>j. ticket_number (cgs l ! j)) ` {j. \<exists>T. waiting l j T \<and> notified l \<le> T} = {notified l..<added l}"
    proof (intro set_eqI iffI)
      fix T assume "T \<in> {notified l..<added l}"
      then obtain j where "waiting l j T" "notified l \<le> T" using f(8) by auto
      then show "T \<in> (\<lambda>j. ticket_number (cgs l ! j)) ` {j. \<exists>T. waiting l j T \<and> notified l \<le> T}"
        using num by (intro image_eqI [of _ _ j]) auto
    qed (use num f(6) in auto)
  qed
  then show ?thesis using bij_betw_same_card by fastforce
qed

text \<open>
  What is left at rest. When every goroutine is either outside of the three operations or parked, the parked
  ones are exactly those whose tickets were given out and not notified: as many goroutines wait as \<open>Wait\<close> was
  called more often than tickets were notified, and each of them is on the list.
\<close>

theorem cond_rest:
  assumes "cond_reach in_window n l" and "n < 2 ^ 31" and "\<forall>p \<in> set (cgs l). p = CIdle \<or> parked p"
  shows "length (nl_list l) + notified l = added l \<and> fst ` set (nl_list l) = {j. j < n \<and> parked (cgs l ! j)}"
proof -
  have inv: "cond_inv n l" using cond_reach_inv assms by auto
  note f = cond_inv_facts [OF inv]
  have rest: "cgs l ! j = CIdle \<or> parked (cgs l ! j)" if "j < n" for j using assms(3) that f(1) by simp
  have none: "\<not> readied_by l i j" for i j
    using rest [of i] f(1) by (cases "cgs l ! i") (auto simp: readied_by_def)
  have iff: "j < n \<and> parked (cgs l ! j) \<longleftrightarrow> (\<exists>T. waiting l j T \<and> notified l \<le> T)" for j
  proof -
    have "\<not> (parked_at l j T \<and> T < notified l)" for T using f(11) none by blast
    then show ?thesis
      using rest [of j] f(1) by (cases "cgs l ! j") (auto simp: parked_at_def waiting_def not_less)
  qed
  have listed: "j \<in> fst ` set (nl_list l) \<longleftrightarrow> (\<exists>T. parked_at l j T \<and> notified l \<le> T)" for j
  proof -
    have "j \<in> fst ` set (nl_list l) \<longleftrightarrow> (\<exists>t. (j, t) \<in> set (nl_list l))" by force
    then show ?thesis using f(9) by blast
  qed
  have "parked_at l j T \<longleftrightarrow> waiting l j T" for j T
    using rest [of j] f(1) by (auto simp: parked_at_def waiting_def)
  then have fst: "fst ` set (nl_list l) = {j. \<exists>T. waiting l j T \<and> notified l \<le> T}"
    using listed by (simp add: set_eq_iff)
  then have "length (nl_list l) + notified l = added l"
    using distinct_card [OF f(10)] pending_count [OF inv] f(4) by simp
  then show ?thesis using fst iff by simp
qed

section \<open>Concrete runs\<close>

fun cond_run :: "(notify_list \<Rightarrow> bool) \<Rightarrow> (cop \<times> nat) list \<Rightarrow> notify_list \<Rightarrow> notify_list option" where
  "cond_run P [] l = Some l"
| "cond_run P ((op, i) # as) l =
     (case cond_step op i l of None \<Rightarrow> None | Some l' \<Rightarrow> if P l' then cond_run P as l' else None)"

lemma cond_run_reach: "cond_run P as l = Some l' \<Longrightarrow> cond_reach P n l \<Longrightarrow> cond_reach P n l'"
proof (induction P as l rule: cond_run.induct)
  case (2 P op i as l)
  then obtain l'' where "cond_step op i l = Some l''" "P l''" "cond_run P as l'' = Some l'"
    by (auto split: option.splits if_splits)
  then show ?case using 2(1) [of l''] 2(3) cond_reach.step [of P n l op i l''] by blast
qed auto

lemmas cond_eval = cond_step_def cond_init_def cput_def ready_def notifyListAdd_def notifyListWait_def
  notifyListNotifyOne_def notifyListNotifyAll_def ticket_less_def in_window_def Let_def

text \<open>
  Three goroutines: 0 and 1 call \<open>Wait\<close> in this order and 1 parks; 2 calls \<open>Signal\<close>, which notifies 0 before it
  parks.
\<close>

definition signal_run :: "(cop \<times> nat) list" where
  "signal_run = [(Wait, 0), (Wait, 1), (Wait, 1), (Wait, 1), (Wait, 0), (Signal, 2), (Signal, 2), (Signal, 2)]"

definition signal_state :: notify_list where
  "signal_state = \<lparr>nl_wait = 2, nl_notify = 0, nl_list = [(1, 1)],
     cgs = [CListWait 0 0, CParked 1 1, SLocked], added = 2, notified = 0\<rparr>"

lemma signal_run: "cond_run in_window signal_run (cond_init 3) = Some signal_state"
  by (simp add: signal_run_def signal_state_def cond_eval numeral_3_eq_3)


theorem cond_no_lost_wakeup_witness:
  "parked_at signal_state 1 1 \<and> (1, 1) \<in> set (nl_list signal_state) \<and> (\<nexists>i. readied_by signal_state i 1)"
proof -
  have "cond_reach in_window 3 signal_state"
    using cond_run_reach [OF signal_run cond_reach.init] by (simp add: in_window_def cond_init_def list_all_iff)
  moreover have p: "parked_at signal_state 1 1" by (simp add: signal_state_def parked_at_def waiting_def)
  ultimately have "(1, of_nat 1) \<in> set (nl_list signal_state) \<and> (\<nexists>i. readied_by signal_state i 1)"
    using cond_no_lost_wakeup [of 3 signal_state] by (simp add: signal_state_def)
  then show ?thesis using p by simp
qed


theorem cond_signal_oldest_witness:
  "\<exists>j. waiting signal_state j 0 \<and> cond_step Signal 2 signal_state =
     Some (cput 2 (Readying (if parked (cgs signal_state ! j) then [j] else []))
       (signal_state\<lparr>nl_notify := 1, nl_list := filter (\<lambda>(k, t). k \<noteq> j) [(1, 1)], notified := 1\<rparr>))"
proof -
  have "cond_reach in_window 3 signal_state"
    using cond_run_reach [OF signal_run cond_reach.init] by (simp add: in_window_def cond_init_def list_all_iff)
  then show ?thesis
    using cond_signal_oldest [of 3 signal_state 2 Signal] by (auto simp: signal_state_def)
qed

definition rest_state :: notify_list where
  "rest_state = \<lparr>nl_wait = 2, nl_notify = 1, nl_list = [(1, 1)],
     cgs = [CIdle, CParked 1 1, CIdle], added = 2, notified = 1\<rparr>"

lemma rest_run:
  "cond_run in_window [(Signal, 2), (Signal, 2), (Wait, 0), (Wait, 0)] signal_state = Some rest_state"
  by (simp add: signal_state_def rest_state_def cond_eval)

theorem cond_rest_witness: "length (nl_list rest_state) + notified rest_state = added rest_state"
proof -
  have "cond_reach in_window 3 signal_state"
    using cond_run_reach [OF signal_run cond_reach.init] by (simp add: in_window_def cond_init_def list_all_iff)
  then have "cond_reach in_window 3 rest_state" by (rule cond_run_reach [OF rest_run])
  moreover have "\<forall>p \<in> set (cgs rest_state). p = CIdle \<or> parked p" by (simp add: rest_state_def)
  ultimately show ?thesis using cond_rest [of 3 rest_state] by simp
qed

section \<open>Beyond the window\<close>

text \<open>
  Goroutine 0 takes ticket 0 and stops before it locks the list. Goroutine 2 signals, which notifies ticket 0;
  from then on goroutine 1 waits and goroutine 2 signals in turn, \<open>m\<close> times.
\<close>

definition late_state :: "nat \<Rightarrow> notify_list" where
  "late_state m = \<lparr>nl_wait = of_nat m + 1, nl_notify = of_nat m + 1, nl_list = [],
     cgs = [CListWait 0 0, CIdle, CIdle], added = Suc m, notified = Suc m\<rparr>"

lemma late_start:
  "cond_run (\<lambda>_. True) ([(Wait, 0), (Wait, 0)] @ replicate 5 (Signal, 2)) (cond_init 3) = Some (late_state 0)"
  by (simp add: late_state_def cond_eval numeral_3_eq_3 eval_nat_numeral)

lemma late_turn:
  "cond_run (\<lambda>_. True) ([(Wait, 1), (Wait, 1)] @ replicate 5 (Signal, 2) @ [(Wait, 1), (Wait, 1)]) (late_state m)
    = Some (late_state (Suc m))"
  by (simp add: late_state_def cond_eval eval_nat_numeral)

lemma late_reach: "cond_reach (\<lambda>_. True) 3 (late_state m)"
proof (induction m)
  case 0
  then show ?case by (rule cond_run_reach [OF late_start cond_reach.init]) simp
next
  case (Suc m)
  then show ?case by (rule cond_run_reach [OF late_turn])
qed

text \<open>
  The window is needed, and it does not take \<open>2 ^ 31\<close> goroutines to leave it. Three goroutines reach a state in
  which every ticket was notified, two of them are idle and \<open>Signal\<close> and \<open>Broadcast\<close> return at once, as \<open>wait\<close> and
  \<open>notify\<close> agree, while the third stays parked: it was \<open>2 ^ 31 + 1\<close> notifications late for the list's lock.
\<close>

theorem cond_ticket_wrap:
  "\<exists>l. cond_reach (\<lambda>_. True) 3 l \<and> notified l = added l \<and> nl_notify l = nl_wait l
     \<and> (\<exists>t T. cgs l = [CParked t T, CIdle, CIdle] \<and> T < notified l)"
proof -
  let ?l = "(late_state (2 ^ 31))\<lparr>nl_list := [(0, 0)], cgs := [CParked 0 0, CIdle, CIdle]\<rparr>"
  have "\<not> ticket_less 0 (of_nat (2 ^ 31) + 1)" by (simp add: ticket_less_def)
  then have "cond_step Wait 0 (late_state (2 ^ 31)) = Some ?l"
    by (simp add: cond_step_def late_state_def notifyListWait_def cput_def Let_def)
  then have "cond_reach (\<lambda>_. True) 3 ?l" using cond_reach.step [OF late_reach] by blast
  then show ?thesis by (intro exI [of _ ?l]) (simp add: late_state_def)
qed

end
