(* ===== verification/PoolQueue.thy ===== *)
theory PoolQueue
  imports GoWords
begin

text \<open>
  The lock-free queue of \<open>sync.Pool\<close>, \<open>sync/poolqueue.go\<close>: one producer pushes and pops at the head while any
  number of consumers pop at the tail. A step runs a goroutine to its next access to shared memory, so that the
  accesses interleave in any order; the word with the two indices wraps around. The plain accesses to the two words
  of a slot that the goroutine owns are one step; \<open>pool_slot_owners\<close> shows that no other goroutine is at that slot.
\<close>

section \<open>The code\<close>

text \<open>An \<open>interface{}\<close> value in memory; its type word is 0 in an empty slot.\<close>

record eface =
  ef_typ :: nat
  ef_val :: nat

definition nil_eface :: eface where
  "nil_eface = \<lparr>ef_typ = 0, ef_val = 0\<rparr>"

record poolDequeue =
  headTail :: u64
  vals :: "eface list"

definition dequeueBits :: nat where
  "dequeueBits = 32"

definition dequeueLimit :: nat where
  "dequeueLimit = 2 ^ dequeueBits div 4"

text \<open>\<open>nil\<close> is stored as \<open>dequeueNil\<close>, whose type word is \<open>dn\<close>.\<close>

definition dequeueNil :: "nat \<Rightarrow> eface" where
  "dequeueNil dn = \<lparr>ef_typ = dn, ef_val = 0\<rparr>"

definition unpack :: "u64 \<Rightarrow> u32 \<times> u32" where
  "unpack ptrs = (let m = push_bit dequeueBits 1 - 1 in (ucast (drop_bit dequeueBits ptrs AND m), ucast (ptrs AND m)))"

definition pack :: "u32 \<Rightarrow> u32 \<Rightarrow> u64" where
  "pack head tail = push_bit dequeueBits (ucast head) OR ucast (tail AND (push_bit dequeueBits 1 - 1))"

definition slot_index :: "poolDequeue \<Rightarrow> u32 \<Rightarrow> nat" where
  "slot_index d w = unat (w AND of_nat (length (vals d) - 1))"

definition to_slot :: "nat \<Rightarrow> eface \<Rightarrow> eface" where
  "to_slot dn v = (if v = nil_eface then dequeueNil dn else v)"

definition of_slot :: "nat \<Rightarrow> eface \<Rightarrow> eface" where
  "of_slot dn v = (if v = dequeueNil dn then nil_eface else v)"

text \<open>Where the producer and a consumer are, with their local variables.\<close>

datatype prod_pc =
    PIdle
  | PushLoad eface | PushTyp u32 eface | PushWrite u32 eface | PushAdd eface
  | PopLoad | PopCas u64 u32 u32 | PopRead u32 | PopZero u32 eface

datatype cons_pc =
    CIdle
  | TailLoad | TailCas u64 u32 u32 | TailRead u32 | TailVal u32 eface | TailTyp u32 eface

text \<open>
  What a step means to the callers: a call has its effect (\<open>Pushed\<close>, \<open>HeadTaken\<close>, \<open>TailTaken\<close>), returns false or
  returns a value.
\<close>

datatype pd_event =
    Tau
  | Pushed eface | PushFull | PushBusy nat
  | HeadTaken | HeadEmpty | HeadRet eface
  | TailTaken | TailEmpty | TailRet eface

definition pushHead_step :: "nat \<Rightarrow> prod_pc \<Rightarrow> poolDequeue \<Rightarrow> poolDequeue \<times> prod_pc \<times> pd_event" where
  "pushHead_step dn pc d = (case pc of
      PushLoad v \<Rightarrow>
        let (head, tail) = unpack (headTail d) in
        if (tail + of_nat (length (vals d))) AND (push_bit dequeueBits 1 - 1) = head then (d, PIdle, PushFull)
        else (d, PushTyp head v, Tau)
    | PushTyp head v \<Rightarrow>
        if ef_typ (vals d ! slot_index d head) \<noteq> 0 then (d, PIdle, PushBusy (slot_index d head))
        else (d, PushWrite head v, Tau)
    | PushWrite head v \<Rightarrow> (d\<lparr>vals := (vals d)[slot_index d head := to_slot dn v]\<rparr>, PushAdd v, Tau)
    | PushAdd v \<Rightarrow> (d\<lparr>headTail := headTail d + push_bit dequeueBits 1\<rparr>, PIdle, Pushed v)
    | _ \<Rightarrow> (d, pc, Tau))"

definition popHead_step :: "nat \<Rightarrow> prod_pc \<Rightarrow> poolDequeue \<Rightarrow> poolDequeue \<times> prod_pc \<times> pd_event" where
  "popHead_step dn pc d = (case pc of
      PopLoad \<Rightarrow>
        let ptrs = headTail d; (head, tail) = unpack ptrs in
        if tail = head then (d, PIdle, HeadEmpty) else (d, PopCas ptrs (head - 1) tail, Tau)
    | PopCas ptrs head tail \<Rightarrow>
        if headTail d = ptrs then (d\<lparr>headTail := pack head tail\<rparr>, PopRead head, HeadTaken) else (d, PopLoad, Tau)
    | PopRead head \<Rightarrow> (d, PopZero head (of_slot dn (vals d ! slot_index d head)), Tau)
    | PopZero head v \<Rightarrow> (d\<lparr>vals := (vals d)[slot_index d head := nil_eface]\<rparr>, PIdle, HeadRet v)
    | _ \<Rightarrow> (d, pc, Tau))"

definition popTail_step :: "nat \<Rightarrow> cons_pc \<Rightarrow> poolDequeue \<Rightarrow> poolDequeue \<times> cons_pc \<times> pd_event" where
  "popTail_step dn pc d = (case pc of
      TailLoad \<Rightarrow>
        let ptrs = headTail d; (head, tail) = unpack ptrs in
        if tail = head then (d, CIdle, TailEmpty) else (d, TailCas ptrs head tail, Tau)
    | TailCas ptrs head tail \<Rightarrow>
        if headTail d = ptrs then (d\<lparr>headTail := pack head (tail + 1)\<rparr>, TailRead tail, TailTaken) else (d, TailLoad, Tau)
    | TailRead tail \<Rightarrow> (d, TailVal tail (of_slot dn (vals d ! slot_index d tail)), Tau)
    | TailVal tail v \<Rightarrow>
        let x = slot_index d tail in (d\<lparr>vals := (vals d)[x := (vals d ! x)\<lparr>ef_val := 0\<rparr>]\<rparr>, TailTyp tail v, Tau)
    | TailTyp tail v \<Rightarrow>
        let x = slot_index d tail in (d\<lparr>vals := (vals d)[x := (vals d ! x)\<lparr>ef_typ := 0\<rparr>]\<rparr>, CIdle, TailRet v)
    | CIdle \<Rightarrow> (d, CIdle, Tau))"

section \<open>The system\<close>

record pool_sys =
  dq :: poolDequeue
  ppc :: prod_pc
  cpc :: "nat \<Rightarrow> cons_pc"

text \<open>
  The queue as its callers see it, oldest value first, and the values that the producer and the consumers have
  taken out and not yet returned.
\<close>

record deque =
  queue :: "eface list"
  at_head :: eface
  at_tail :: "nat \<Rightarrow> eface"

fun effect :: "nat \<Rightarrow> pd_event \<Rightarrow> deque \<Rightarrow> deque" where
  "effect i (Pushed v) q = q\<lparr>queue := queue q @ [v]\<rparr>"
| "effect i HeadTaken q = q\<lparr>queue := butlast (queue q), at_head := last (queue q)\<rparr>"
| "effect i TailTaken q = q\<lparr>queue := tl (queue q), at_tail := (at_tail q)(i := hd (queue q))\<rparr>"
| "effect i e q = q"

text \<open>An interface value: only nil has no type, and the type of \<open>dequeueNil\<close> is private.\<close>

definition proper :: "nat \<Rightarrow> eface \<Rightarrow> bool" where
  "proper dn v \<longleftrightarrow> (ef_typ v = 0 \<longrightarrow> v = nil_eface) \<and> ef_typ v \<noteq> dn"

inductive pool_reach :: "nat \<Rightarrow> nat \<Rightarrow> pool_sys \<Rightarrow> deque \<Rightarrow> bool" for dn k where
  init: "vals d = replicate (2 ^ k) nil_eface \<Longrightarrow> headTail d = 0 \<Longrightarrow> queue q = []
      \<Longrightarrow> pool_reach dn k \<lparr>dq = d, ppc = PIdle, cpc = \<lambda>_. CIdle\<rparr> q"
| pushHead: "pool_reach dn k s q \<Longrightarrow> ppc s = PIdle \<Longrightarrow> proper dn v \<Longrightarrow> pool_reach dn k (s\<lparr>ppc := PushLoad v\<rparr>) q"
| popHead: "pool_reach dn k s q \<Longrightarrow> ppc s = PIdle \<Longrightarrow> pool_reach dn k (s\<lparr>ppc := PopLoad\<rparr>) q"
| popTail: "pool_reach dn k s q \<Longrightarrow> cpc s i = CIdle \<Longrightarrow> pool_reach dn k (s\<lparr>cpc := (cpc s)(i := TailLoad)\<rparr>) q"
| push_step: "pool_reach dn k s q \<Longrightarrow> pushHead_step dn (ppc s) (dq s) = (d, pc, e)
      \<Longrightarrow> pool_reach dn k (s\<lparr>dq := d, ppc := pc\<rparr>) (effect 0 e q)"
| pop_step: "pool_reach dn k s q \<Longrightarrow> popHead_step dn (ppc s) (dq s) = (d, pc, e)
      \<Longrightarrow> pool_reach dn k (s\<lparr>dq := d, ppc := pc\<rparr>) (effect 0 e q)"
| tail_step: "pool_reach dn k s q \<Longrightarrow> popTail_step dn (cpc s i) (dq s) = (d, pc, e)
      \<Longrightarrow> pool_reach dn k (s\<lparr>dq := d, cpc := (cpc s)(i := pc)\<rparr>) (effect i e q)"

section \<open>Words\<close>

lemma dequeue_mask: "push_bit dequeueBits 1 - 1 = (mask 32 :: u64)" "push_bit dequeueBits 1 - 1 = (mask 32 :: u32)"
  by (simp_all add: dequeueBits_def mask_eq_exp_minus_1 push_bit_eq_mult)

lemma and_mask32 [simp]: "w AND mask 32 = (w :: u32)"
  by (simp add: take_bit_word_eq_self flip: take_bit_eq_mask)

lemma unat_pack: "unat (pack head tail) = unat head * 2 ^ 32 + unat tail"
proof -
  have bounds: "unat head < 2 ^ 32" "unat tail < 2 ^ 32" using unat_less [of head] unat_less [of tail] by simp_all
  then have h: "unat (ucast head :: u64) = unat head" "unat (ucast tail :: u64) = unat tail" by (simp_all add: unat_ucast)
  have "2 ^ 32 * unat head < (2 :: nat) ^ 64" using bounds by simp
  then have "unat (push_bit 32 (ucast head) :: u64) = 2 ^ 32 * unat head"
    by (subst unat_push_bit) (simp_all add: h)
  then show ?thesis
    using bounds unat_or_add [of "ucast tail :: u64" 32 "push_bit 32 (ucast head)" "unat head"]
    unfolding pack_def dequeue_mask and_mask32 by (simp add: h dequeueBits_def)
qed

lemma unpack_pack: "unpack (pack head tail) = (head, tail)"
proof -
  have bounds: "unat head < 2 ^ 32" "unat tail < 2 ^ 32" using unat_less [of head] unat_less [of tail] by simp_all
  have "unat (drop_bit 32 (pack head tail) AND mask 32) = unat head" "unat (pack head tail AND mask 32) = unat tail"
    using bounds by (simp_all add: word_arith unat_pack)
  then have "unat (ucast (drop_bit 32 (pack head tail) AND mask 32) :: u32) = unat head"
      "unat (ucast (pack head tail AND mask 32) :: u32) = unat tail"
    using bounds by (simp_all only: unat_ucast) simp_all
  then show ?thesis unfolding unpack_def dequeue_mask Let_def unfolding dequeueBits_def
    by (simp only: prod.inject word_unat_eq_iff)
qed

lemma pack_eq: "pack h t = pack h' t' \<longleftrightarrow> h = h' \<and> t = t'"
  by (metis unpack_pack prod.inject)

lemma mod_field: "t < b \<Longrightarrow> (a * b + t) mod (b * c) = (a mod c) * b + t" for a b c t :: nat
  by (simp add: mod_mult2_eq)

text \<open>The addition to the head index overflows out of the word.\<close>

lemma pack_add: "pack h t + push_bit dequeueBits 1 = pack (h + 1) t"
proof -
  have one: "unat (push_bit 32 1 :: u64) = 2 ^ 32" by (simp add: push_bit_eq_mult)
  have t: "unat t < 2 ^ 32" using unat_less [of t] by simp
  have "unat (pack h t + push_bit 32 1) = (unat h * 2 ^ 32 + unat t + 2 ^ 32) mod 2 ^ 64"
    by (simp add: unat_word_ariths unat_pack one)
  also have "\<dots> = ((unat h + 1) * 2 ^ 32 + unat t) mod (2 ^ 32 * 2 ^ 32)" by (simp add: algebra_simps)
  also have "\<dots> = ((unat h + 1) mod 2 ^ 32) * 2 ^ 32 + unat t" by (rule mod_field [OF t])
  also have "\<dots> = unat (pack (h + 1) t)" by (simp add: unat_pack unat_word_ariths)
  finally show ?thesis by (simp add: word_unat_eq_iff dequeueBits_def)
qed

lemma pack_zero: "pack 0 0 = 0"
  by (simp add: word_unat_eq_iff unat_pack)

text \<open>Positions are numbers without bound, of which the code has the last 32 bits.\<close>

lemma slot_of_position:
  assumes "length (vals d) = 2 ^ k" "k \<le> 30"
  shows "slot_index d (of_nat m) = m mod 2 ^ k"
proof -
  have "(of_nat (2 ^ k - 1) :: u32) = mask k" by (simp add: mask_eq_exp_minus_1 of_nat_diff)
  then have "slot_index d (of_nat m) = m mod 2 ^ 32 mod 2 ^ k"
    by (simp add: slot_index_def assms(1) word_arith unat_of_nat)
  moreover have "(2 :: nat) ^ k dvd 2 ^ 32" using assms(2) le_imp_power_dvd [of k 32 "2 :: nat"] by simp
  ultimately show ?thesis by (simp add: mod_mod_cancel)
qed

lemma word_of_nat_eq: "a < 2 ^ 32 \<Longrightarrow> b < 2 ^ 32 \<Longrightarrow> (of_nat a :: u32) = of_nat b \<longleftrightarrow> a = b"
  by (simp add: word_of_nat_eq_iff take_bit_nat_eq_self)

lemma dequeue_full:
  assumes "n \<le> 2 ^ k" "k \<le> 30"
  shows "(of_nat t + of_nat (2 ^ k) :: u32) AND (push_bit dequeueBits 1 - 1) = of_nat (t + n) \<longleftrightarrow> n = 2 ^ k"
proof -
  have "(2 :: nat) ^ k \<le> 2 ^ 30" using power_increasing [OF assms(2), of "2 :: nat"] by simp
  then have "(2 :: nat) ^ k < 2 ^ 32" "n < 2 ^ 32" using assms(1) by auto
  then show ?thesis unfolding dequeue_mask and_mask32 using word_of_nat_eq [of "2 ^ k" n] by auto
qed

lemma dequeue_empty:
  assumes "n \<le> 2 ^ k" "k \<le> 30"
  shows "(of_nat t :: u32) = of_nat (t + n) \<longleftrightarrow> n = 0"
proof -
  have "(2 :: nat) ^ k \<le> 2 ^ 30" using power_increasing [OF assms(2), of "2 :: nat"] by simp
  then have "n < 2 ^ 32" using assms(1) by auto
  then show ?thesis using word_of_nat_eq [of n 0] by auto
qed

lemma of_to_slot: "proper dn v \<Longrightarrow> of_slot dn (to_slot dn v) = v"
  by (auto simp: proper_def of_slot_def to_slot_def dequeueNil_def)

lemma to_slot_typ: "proper dn v \<Longrightarrow> dn \<noteq> 0 \<Longrightarrow> ef_typ (to_slot dn v) \<noteq> 0"
  by (auto simp: proper_def to_slot_def dequeueNil_def)

section \<open>The invariant\<close>

text \<open>
  The slot that a consumer holds between its compare-and-swap and the store that empties it; the producer holds
  the slot at the head while it fills it or empties it.
\<close>

fun held :: "cons_pc \<Rightarrow> u32 option" where
  "held (TailRead t) = Some t"
| "held (TailVal t v) = Some t"
| "held (TailTyp t v) = Some t"
| "held pc = None"

fun owns_head :: "prod_pc \<Rightarrow> bool" where
  "owns_head (PushWrite h v) = True"
| "owns_head (PushAdd v) = True"
| "owns_head (PopRead h) = True"
| "owns_head (PopZero h v) = True"
| "owns_head pc = False"

definition slot_holder :: "pool_sys \<Rightarrow> nat \<Rightarrow> nat \<Rightarrow> bool" where
  "slot_holder s i x \<longleftrightarrow> (\<exists>t. held (cpc s i) = Some t \<and> slot_index (dq s) t = x)"

definition window :: "nat \<Rightarrow> nat \<Rightarrow> nat \<Rightarrow> nat set" where
  "window k T n = (\<lambda>j. (T + j) mod 2 ^ k) ` {..<n}"

text \<open>\<open>T\<close> values have been taken at the tail, and \<open>n\<close> are in the queue.\<close>

definition queue_inv :: "nat \<Rightarrow> nat \<Rightarrow> poolDequeue \<Rightarrow> eface list \<Rightarrow> nat \<Rightarrow> nat \<Rightarrow> bool" where
  "queue_inv dn k d vs T n \<longleftrightarrow> length (vals d) = 2 ^ k \<and> headTail d = pack (of_nat (T + n)) (of_nat T) \<and> n \<le> 2 ^ k
     \<and> ring (vals d) T n = map (to_slot dn) vs \<and> (\<forall>v \<in> set vs. proper dn v)"

fun prod_inv :: "nat \<Rightarrow> nat \<Rightarrow> poolDequeue \<Rightarrow> deque \<Rightarrow> nat \<Rightarrow> nat \<Rightarrow> prod_pc \<Rightarrow> bool" where
  "prod_inv dn k d q T n PIdle = True"
| "prod_inv dn k d q T n (PushLoad v) \<longleftrightarrow> proper dn v"
| "prod_inv dn k d q T n (PushTyp h v) \<longleftrightarrow> h = of_nat (T + n) \<and> n < 2 ^ k \<and> proper dn v"
| "prod_inv dn k d q T n (PushWrite h v) \<longleftrightarrow> h = of_nat (T + n) \<and> n < 2 ^ k \<and> proper dn v"
| "prod_inv dn k d q T n (PushAdd v) \<longleftrightarrow> n < 2 ^ k \<and> proper dn v \<and> vals d ! ((T + n) mod 2 ^ k) = to_slot dn v"
| "prod_inv dn k d q T n PopLoad = True"
| "prod_inv dn k d q T n (PopCas ptrs h t) \<longleftrightarrow> ptrs = pack (h + 1) t \<and> h + 1 \<noteq> t"
| "prod_inv dn k d q T n (PopRead h) \<longleftrightarrow> h = of_nat (T + n) \<and> n < 2 ^ k \<and> proper dn (at_head q)
     \<and> vals d ! ((T + n) mod 2 ^ k) = to_slot dn (at_head q)"
| "prod_inv dn k d q T n (PopZero h v) \<longleftrightarrow> h = of_nat (T + n) \<and> n < 2 ^ k \<and> v = at_head q"

fun cons_inv :: "nat \<Rightarrow> poolDequeue \<Rightarrow> eface \<Rightarrow> cons_pc \<Rightarrow> bool" where
  "cons_inv dn d v (TailCas ptrs h t) \<longleftrightarrow> ptrs = pack h t \<and> h \<noteq> t"
| "cons_inv dn d v (TailRead t) \<longleftrightarrow> proper dn v \<and> vals d ! slot_index d t = to_slot dn v"
| "cons_inv dn d v (TailVal t w) \<longleftrightarrow> w = v \<and> ef_typ (vals d ! slot_index d t) \<noteq> 0"
| "cons_inv dn d v (TailTyp t w) \<longleftrightarrow> w = v \<and> ef_typ (vals d ! slot_index d t) \<noteq> 0 \<and> ef_val (vals d ! slot_index d t) = 0"
| "cons_inv dn d v pc = True"

text \<open>Every slot has at most one owner, and a slot without an owner is empty.\<close>

definition owner_inv :: "nat \<Rightarrow> pool_sys \<Rightarrow> nat \<Rightarrow> nat \<Rightarrow> bool" where
  "owner_inv k s T n \<longleftrightarrow>
     (\<forall>i x. slot_holder s i x \<longrightarrow> x < 2 ^ k \<and> x \<notin> window k T n \<and> (owns_head (ppc s) \<longrightarrow> x \<noteq> (T + n) mod 2 ^ k))
   \<and> (\<forall>i j x. slot_holder s i x \<longrightarrow> slot_holder s j x \<longrightarrow> i = j)
   \<and> (\<forall>x < 2 ^ k. x \<notin> window k T n \<longrightarrow> (\<forall>i. \<not> slot_holder s i x) \<longrightarrow> \<not> (owns_head (ppc s) \<and> x = (T + n) mod 2 ^ k)
        \<longrightarrow> vals (dq s) ! x = nil_eface)"

definition pool_inv :: "nat \<Rightarrow> nat \<Rightarrow> pool_sys \<Rightarrow> deque \<Rightarrow> nat \<Rightarrow> nat \<Rightarrow> bool" where
  "pool_inv dn k s q T n \<longleftrightarrow> queue_inv dn k (dq s) (queue q) T n \<and> prod_inv dn k (dq s) q T n (ppc s)
     \<and> (\<forall>i. cons_inv dn (dq s) (at_tail q i) (cpc s i)) \<and> owner_inv k s T n"

lemma window_Suc: "window k T (Suc n) = insert ((T + n) mod 2 ^ k) (window k T n)"
  by (auto simp: window_def lessThan_Suc)

lemma window_head: "n < 2 ^ k \<Longrightarrow> (T + n) mod 2 ^ k \<notin> window k T n"
proof
  assume "n < 2 ^ k" "(T + n) mod 2 ^ k \<in> window k T n"
  then obtain j where "j < n" "(T + n) mod 2 ^ k = (T + j) mod 2 ^ k" by (auto simp: window_def)
  then show False using add_mod_neq [of j "2 ^ k" n T] \<open>n < 2 ^ k\<close> by simp
qed

lemma window_tl:
  assumes "0 < n"
  shows "window k T n = insert (T mod 2 ^ k) (window k (Suc T) (n - 1))"
proof -
  have "{..<n} = insert 0 (Suc ` {..<n - 1})"
    using assms lessThan_Suc_eq_insert_0 [of "n - 1"] by simp
  then show ?thesis unfolding window_def by (simp add: image_image)
qed

lemma window_tail: "0 < n \<Longrightarrow> n \<le> 2 ^ k \<Longrightarrow> T mod 2 ^ k \<notin> window k (Suc T) (n - 1)"
proof
  assume n: "0 < n" "n \<le> 2 ^ k" and "T mod 2 ^ k \<in> window k (Suc T) (n - 1)"
  then obtain j where "j < n - 1" "T mod 2 ^ k = (Suc T + j) mod 2 ^ k" by (auto simp: window_def)
  then show False using add_mod_neq [of 0 "2 ^ k" "Suc j" T] n by (auto simp: less_diff_conv)
qed

lemma window_less: "x \<in> window k T n \<Longrightarrow> x < 2 ^ k"
  by (auto simp: window_def)

lemma ring_other:
  assumes "x \<notin> window k T n" "length xs = 2 ^ k"
  shows "ring (xs[x := v]) T n = ring xs T n"
proof (rule nth_equalityI)
  fix j assume "j < length (ring (xs[x := v]) T n)"
  then have "j < n" by simp
  then have "(T + j) mod 2 ^ k \<noteq> x" using assms(1) by (auto simp: window_def)
  then show "ring (xs[x := v]) T n ! j = ring xs T n ! j" using \<open>j < n\<close> assms(2) by (simp add: nth_ring)
qed simp

lemma queue_inv_vals:
  "queue_inv dn k d vs T n \<Longrightarrow> x \<notin> window k T n \<Longrightarrow> queue_inv dn k (d\<lparr>vals := (vals d)[x := v]\<rparr>) vs T n"
  by (simp add: queue_inv_def ring_other)

lemma queue_inv_length: "queue_inv dn k d vs T n \<Longrightarrow> n = length vs"
  unfolding queue_inv_def using length_ring [of "vals d" T n] by (metis length_map)

lemma slot_index_vals [simp]: "slot_index (d\<lparr>vals := (vals d)[x := v]\<rparr>) t = slot_index d t"
    "slot_index (d\<lparr>headTail := w\<rparr>) t = slot_index d t"
  by (simp_all add: slot_index_def)

lemma cons_inv_vals:
  "cons_inv dn d w pc \<Longrightarrow> (\<And>t. held pc = Some t \<Longrightarrow> slot_index d t \<noteq> x) \<Longrightarrow> cons_inv dn (d\<lparr>vals := (vals d)[x := v]\<rparr>) w pc"
  by (cases pc) simp_all

lemma cons_inv_headTail [simp]: "cons_inv dn (d\<lparr>headTail := w\<rparr>) v pc = cons_inv dn d v pc"
  by (cases pc) simp_all

text \<open>A step that only moves the producer.\<close>

lemma prod_moves:
  assumes "pool_inv dn k s q T n" "prod_inv dn k (dq s) q T n pc" "owns_head pc = owns_head (ppc s)"
  shows "pool_inv dn k (s\<lparr>ppc := pc\<rparr>) q T n"
  using assms by (simp add: pool_inv_def owner_inv_def slot_holder_def)

lemma cons_moves:
  assumes "pool_inv dn k s q T n" "cons_inv dn (dq s) (at_tail q i) pc" "held pc = held (cpc s i)"
  shows "pool_inv dn k (s\<lparr>cpc := (cpc s)(i := pc)\<rparr>) q T n"
proof -
  have "slot_holder (s\<lparr>cpc := (cpc s)(i := pc)\<rparr>) j x = slot_holder s j x" for j x using assms(3) by (simp add: slot_holder_def)
  then show ?thesis using assms(1,2) by (simp add: pool_inv_def owner_inv_def)
qed

lemma pool_inv_unpack: "pool_inv dn k s q T n \<Longrightarrow> unpack (headTail (dq s)) = (of_nat (T + n), of_nat T)"
  unfolding pool_inv_def queue_inv_def by (metis unpack_pack)

lemma holder_typ:
  assumes "\<And>i. cons_inv dn (dq s) (at_tail q i) (cpc s i)" "dn \<noteq> 0" "slot_holder s i x"
  shows "ef_typ (vals (dq s) ! x) \<noteq> 0"
  using assms(1) [of i] assms(2,3) to_slot_typ [of dn "at_tail q i"] by (cases "cpc s i") (auto simp: slot_holder_def)

lemma owner_empty:
  "owner_inv k s T n \<Longrightarrow> x < 2 ^ k \<Longrightarrow> x \<notin> window k T n \<Longrightarrow> \<forall>i. \<not> slot_holder s i x \<Longrightarrow> \<not> (owns_head (ppc s) \<and> x = (T + n) mod 2 ^ k)
   \<Longrightarrow> vals (dq s) ! x = nil_eface"
  by (simp add: owner_inv_def)

lemma owner_holder:
  assumes "owner_inv k s T n" "slot_holder s i x"
  shows "x < 2 ^ k" "x \<notin> window k T n" "owns_head (ppc s) \<Longrightarrow> x \<noteq> (T + n) mod 2 ^ k" "slot_holder s j x \<Longrightarrow> i = j"
  using assms unfolding owner_inv_def by blast+

text \<open>What the events say of the queue.\<close>

fun sound :: "nat \<Rightarrow> pool_sys \<Rightarrow> deque \<Rightarrow> eface \<Rightarrow> pd_event \<Rightarrow> bool" where
  "sound k s q v (Pushed w) \<longleftrightarrow> length (queue q) < 2 ^ k"
| "sound k s q v PushFull \<longleftrightarrow> length (queue q) = 2 ^ k"
| "sound k s q v (PushBusy x) \<longleftrightarrow> (\<exists>i. slot_holder s i x)"
| "sound k s q v HeadTaken \<longleftrightarrow> queue q \<noteq> []"
| "sound k s q v HeadEmpty \<longleftrightarrow> queue q = []"
| "sound k s q v (HeadRet w) \<longleftrightarrow> w = v"
| "sound k s q v TailTaken \<longleftrightarrow> queue q \<noteq> []"
| "sound k s q v TailEmpty \<longleftrightarrow> queue q = []"
| "sound k s q v (TailRet w) \<longleftrightarrow> w = v"
| "sound k s q v Tau = True"

lemma pushHead_inv:
  assumes inv: "pool_inv dn k s q T n" and "dn \<noteq> 0" "k \<le> 30"
    and "pushHead_step dn (ppc s) (dq s) = (d, pc, e)"
  shows "(\<exists>n'. pool_inv dn k (s\<lparr>dq := d, ppc := pc\<rparr>) (effect 0 e q) T n') \<and> sound k s q v e"
proof -
  let ?S = "(T + n) mod 2 ^ k"
  have que: "queue_inv dn k (dq s) (queue q) T n" and prod: "prod_inv dn k (dq s) q T n (ppc s)"
    and cons: "\<And>i. cons_inv dn (dq s) (at_tail q i) (cpc s i)" and own: "owner_inv k s T n"
    using inv by (auto simp: pool_inv_def)
  note len = que [unfolded queue_inv_def, THEN conjunct1] que [unfolded queue_inv_def, THEN conjunct2, THEN conjunct2, THEN conjunct1]
    queue_inv_length [OF que]
  have S: "?S < 2 ^ k" "slot_index (dq s) (of_nat (T + n)) = ?S"
    using slot_of_position [OF len(1) assms(3)] by (simp_all del: of_nat_add)
  show ?thesis
  proof (cases "ppc s")
    case (PushLoad w)
    have run: "(d, pc, e) = (if n = 2 ^ k then (dq s, PIdle, PushFull) else (dq s, PushTyp (of_nat (T + n)) w, Tau))"
      unfolding assms(4) [symmetric] pushHead_step_def PushLoad prod_pc.case pool_inv_unpack [OF inv] Let_def prod.case len(1)
        dequeue_full [OF len(2) assms(3)] ..
    show ?thesis
    proof (cases "n = 2 ^ k")
      case True
      then show ?thesis using run len(3) prod_moves [OF inv, of PIdle] by (auto simp: PushLoad)
    next
      case False
      then show ?thesis
        using run len(2) prod prod_moves [OF inv, of "PushTyp (of_nat (T + n)) w"] by (auto simp: PushLoad simp del: of_nat_add)
    qed
  next
    case (PushTyp h w)
    then have h: "h = of_nat (T + n)" "n < 2 ^ k" "proper dn w" using prod by auto
    have run: "(d, pc, e) = (if ef_typ (vals (dq s) ! ?S) \<noteq> 0 then (dq s, PIdle, PushBusy ?S) else (dq s, PushWrite h w, Tau))"
      unfolding assms(4) [symmetric] pushHead_step_def PushTyp prod_pc.case h(1) S(2) ..
    show ?thesis
    proof (cases "ef_typ (vals (dq s) ! ?S) = 0")
      case True
      then have free: "\<not> slot_holder s i ?S" for i using holder_typ [OF cons assms(2)] by blast
      have "owner_inv k (s\<lparr>ppc := PushWrite h w\<rparr>) T n"
        using own free unfolding owner_inv_def slot_holder_def by (auto simp: PushTyp)
      then have "pool_inv dn k (s\<lparr>ppc := PushWrite h w\<rparr>) q T n"
        using inv h by (simp add: pool_inv_def)
      then show ?thesis using run True by auto
    next
      case False
      have "\<exists>i. slot_holder s i ?S"
      proof (rule ccontr)
        assume "\<not> ?thesis"
        then have "vals (dq s) ! ?S = nil_eface" using owner_empty [OF own S(1) window_head [OF h(2)]] by (simp add: PushTyp)
        then show False using False by (simp add: nil_eface_def)
      qed
      then show ?thesis using run False prod_moves [OF inv, of PIdle] by (auto simp: PushTyp)
    qed
  next
    case (PushWrite h w)
    then have h: "h = of_nat (T + n)" "n < 2 ^ k" "proper dn w" using prod by auto
    let ?d = "(dq s)\<lparr>vals := (vals (dq s))[?S := to_slot dn w]\<rparr>"
    have run: "(d, pc, e) = (?d, PushAdd w, Tau)"
      unfolding assms(4) [symmetric] pushHead_step_def PushWrite prod_pc.case h(1) S(2) ..
    have free: "slot_holder s i x \<Longrightarrow> x \<noteq> ?S" for i x using owner_holder(3) [OF own] PushWrite by auto
    have "queue_inv dn k ?d (queue q) T n" by (rule queue_inv_vals [OF que window_head [OF h(2)]])
    moreover have "cons_inv dn ?d (at_tail q i) (cpc s i)" for i
      by (rule cons_inv_vals [OF cons]) (use free in \<open>auto simp: slot_holder_def\<close>)
    moreover have "owner_inv k (s\<lparr>dq := ?d, ppc := PushAdd w\<rparr>) T n"
      using own unfolding owner_inv_def slot_holder_def by (auto simp: PushWrite)
    ultimately have "pool_inv dn k (s\<lparr>dq := ?d, ppc := PushAdd w\<rparr>) q T n"
      using h len(1) S(1) by (simp add: pool_inv_def)
    then show ?thesis using run by auto
  next
    case (PushAdd w)
    then have h: "n < 2 ^ k" "proper dn w" "vals (dq s) ! ?S = to_slot dn w" using prod by auto
    let ?d = "(dq s)\<lparr>headTail := pack (of_nat (T + Suc n)) (of_nat T)\<rparr>"
    have "headTail (dq s) = pack (of_nat (T + n)) (of_nat T)" using que by (simp add: queue_inv_def)
    then have "headTail (dq s) + push_bit dequeueBits 1 = pack (of_nat (T + n) + 1) (of_nat T)"
      using pack_add by metis
    moreover have "of_nat (T + n) + 1 = (of_nat (T + Suc n) :: u32)" by simp
    ultimately have "headTail (dq s) + push_bit dequeueBits 1 = pack (of_nat (T + Suc n)) (of_nat T)" by metis
    then have run: "(d, pc, e) = (?d, PIdle, Pushed w)"
      unfolding assms(4) [symmetric] pushHead_step_def PushAdd prod_pc.case by (simp only:)
    have free: "slot_holder s i x \<Longrightarrow> x \<noteq> ?S" for i x using owner_holder(3) [OF own] PushAdd by auto
    have "queue_inv dn k ?d (queue q @ [w]) T (Suc n)"
      using que h len(1) by (auto simp: queue_inv_def ring_Suc)
    moreover have "owner_inv k (s\<lparr>dq := ?d, ppc := PIdle\<rparr>) T (Suc n)"
      using own free unfolding owner_inv_def window_Suc by (auto simp: slot_holder_def PushAdd)
    ultimately have "pool_inv dn k (s\<lparr>dq := ?d, ppc := PIdle\<rparr>) (q\<lparr>queue := queue q @ [w]\<rparr>) T (Suc n)"
      using cons by (simp add: pool_inv_def)
    then show ?thesis using run h(1) len(3) by auto
  qed (use assms(4) prod_moves [OF inv prod refl] in \<open>auto simp: pushHead_step_def intro!: exI [of _ n]\<close>)
qed

lemma popHead_inv:
  assumes inv: "pool_inv dn k s q T n" and "dn \<noteq> 0" "k \<le> 30"
    and "popHead_step dn (ppc s) (dq s) = (d, pc, e)"
  shows "(\<exists>n'. pool_inv dn k (s\<lparr>dq := d, ppc := pc\<rparr>) (effect 0 e q) T n') \<and> sound k s q (at_head q) e"
proof -
  let ?S = "(T + n) mod 2 ^ k"
  have que: "queue_inv dn k (dq s) (queue q) T n" and prod: "prod_inv dn k (dq s) q T n (ppc s)"
    and cons: "\<And>i. cons_inv dn (dq s) (at_tail q i) (cpc s i)" and own: "owner_inv k s T n"
    using inv by (auto simp: pool_inv_def)
  note len = que [unfolded queue_inv_def, THEN conjunct1] que [unfolded queue_inv_def, THEN conjunct2, THEN conjunct2, THEN conjunct1]
    queue_inv_length [OF que] que [unfolded queue_inv_def, THEN conjunct2, THEN conjunct1]
  have S: "?S < 2 ^ k" "slot_index (dq s) (of_nat (T + n)) = ?S"
    using slot_of_position [OF len(1) assms(3)] by (simp_all del: of_nat_add)
  show ?thesis
  proof (cases "ppc s")
    case PopLoad
    have run: "(d, pc, e) = (if n = 0 then (dq s, PIdle, HeadEmpty)
        else (dq s, PopCas (headTail (dq s)) (of_nat (T + n) - 1) (of_nat T), Tau))"
      unfolding assms(4) [symmetric] popHead_step_def PopLoad prod_pc.case pool_inv_unpack [OF inv] Let_def prod.case
        dequeue_empty [OF len(2) assms(3)] ..
    show ?thesis
    proof (cases "n = 0")
      case True
      then show ?thesis using run len(3) prod_moves [OF inv, of PIdle] by (auto simp: PopLoad)
    next
      case False
      have "prod_inv dn k (dq s) q T n (PopCas (headTail (dq s)) (of_nat (T + n) - 1) (of_nat T))"
        using dequeue_empty [OF len(2) assms(3), of T] False unfolding len(4) prod_inv.simps diff_add_cancel by simp
      then have "pool_inv dn k (s\<lparr>ppc := PopCas (headTail (dq s)) (of_nat (T + n) - 1) (of_nat T)\<rparr>) q T n"
        by (rule prod_moves [OF inv]) (simp add: PopLoad)
      then show ?thesis using run False by (auto simp del: of_nat_add)
    qed
  next
    case (PopCas ptrs h t)
    show ?thesis
    proof (cases "headTail (dq s) = ptrs")
      case False
      then have "(d, pc, e) = (dq s, PopLoad, Tau)" using assms(4) by (simp add: popHead_step_def PopCas)
      then show ?thesis using prod_moves [OF inv, of PopLoad] by (auto simp: PopCas)
    next
      case True
      then have "pack (of_nat (T + n)) (of_nat T) = pack (h + 1) t" "h + 1 \<noteq> t" using prod len(4) by (simp_all add: PopCas)
      then have ht: "h + 1 = of_nat (T + n)" "t = of_nat T" "n \<noteq> 0"
        unfolding pack_eq using dequeue_empty [OF len(2) assms(3), of T] by auto
      then obtain m where m: "n = Suc m" by (cases n) auto
      have h: "h = of_nat (T + m)"
      proof -
        have "h + 1 = of_nat (T + m) + 1" using ht(1) by (simp add: m)
        then show ?thesis by simp
      qed
      let ?d = "(dq s)\<lparr>headTail := pack h t\<rparr>"
      have run: "(d, pc, e) = (?d, PopRead h, HeadTaken)" using assms(4) True by (simp add: popHead_step_def PopCas)
      obtain vs v where q: "queue q = vs @ [v]" using len(3) m by (cases "queue q" rule: rev_cases) auto
      have ring: "ring (vals (dq s)) T m = map (to_slot dn) vs" "vals (dq s) ! ((T + m) mod 2 ^ k) = to_slot dn v"
        using que len(1) by (simp_all add: queue_inv_def m q ring_Suc)
      have "queue_inv dn k ?d vs T m" using que ring(1) ht(2) h by (simp add: queue_inv_def m q)
      moreover have "owner_inv k (s\<lparr>dq := ?d, ppc := PopRead h\<rparr>) T m"
        using own unfolding owner_inv_def m window_Suc by (auto simp: slot_holder_def PopCas)
      ultimately have "pool_inv dn k (s\<lparr>dq := ?d, ppc := PopRead h\<rparr>) (q\<lparr>queue := vs, at_head := v\<rparr>) T m"
        using cons len(2) h ring(2) que by (simp add: pool_inv_def m queue_inv_def q)
      then show ?thesis using run by (auto simp: q)
    qed
  next
    case (PopRead h)
    then have h: "h = of_nat (T + n)" "n < 2 ^ k" "proper dn (at_head q)" "vals (dq s) ! ?S = to_slot dn (at_head q)"
      using prod by auto
    have run: "(d, pc, e) = (dq s, PopZero h (at_head q), Tau)"
      unfolding assms(4) [symmetric] popHead_step_def PopRead prod_pc.case h(1) S(2) h(4) of_to_slot [OF h(3)] ..
    then show ?thesis using h(1,2) prod_moves [OF inv, of "PopZero h (at_head q)"] by (auto simp: PopRead simp del: of_nat_add)
  next
    case (PopZero h w)
    then have h: "h = of_nat (T + n)" "n < 2 ^ k" "w = at_head q" using prod by auto
    let ?d = "(dq s)\<lparr>vals := (vals (dq s))[?S := nil_eface]\<rparr>"
    have run: "(d, pc, e) = (?d, PIdle, HeadRet (at_head q))"
      unfolding assms(4) [symmetric] popHead_step_def PopZero prod_pc.case h(1,3) S(2) ..
    have free: "slot_holder s i x \<Longrightarrow> x \<noteq> ?S" for i x using owner_holder(3) [OF own] PopZero by auto
    have "queue_inv dn k ?d (queue q) T n" by (rule queue_inv_vals [OF que window_head [OF h(2)]])
    moreover have "cons_inv dn ?d (at_tail q i) (cpc s i)" for i
      by (rule cons_inv_vals [OF cons]) (use free in \<open>auto simp: slot_holder_def\<close>)
    moreover have "owner_inv k (s\<lparr>dq := ?d, ppc := PIdle\<rparr>) T n"
      using own S(1) len(1) unfolding owner_inv_def slot_holder_def by (auto simp: PopZero nth_list_update)
    ultimately have "pool_inv dn k (s\<lparr>dq := ?d, ppc := PIdle\<rparr>) q T n" by (simp add: pool_inv_def)
    then show ?thesis using run by auto
  qed (use assms(4) prod_moves [OF inv prod refl] in \<open>auto simp: popHead_step_def intro!: exI [of _ n]\<close>)
qed

lemma popTail_inv:
  assumes inv: "pool_inv dn k s q T n" and "dn \<noteq> 0" "k \<le> 30"
    and "popTail_step dn (cpc s i) (dq s) = (d, pc, e)"
  shows "(\<exists>T' n'. pool_inv dn k (s\<lparr>dq := d, cpc := (cpc s)(i := pc)\<rparr>) (effect i e q) T' n') \<and> sound k s q (at_tail q i) e"
proof -
  let ?S = "(T + n) mod 2 ^ k"
  have que: "queue_inv dn k (dq s) (queue q) T n" and prod: "prod_inv dn k (dq s) q T n (ppc s)"
    and cons: "\<And>i. cons_inv dn (dq s) (at_tail q i) (cpc s i)" and own: "owner_inv k s T n"
    using inv by (auto simp: pool_inv_def)
  note len = que [unfolded queue_inv_def, THEN conjunct1] que [unfolded queue_inv_def, THEN conjunct2, THEN conjunct2, THEN conjunct1]
    queue_inv_length [OF que] que [unfolded queue_inv_def, THEN conjunct2, THEN conjunct1]
  have ci: "cons_inv dn (dq s) (at_tail q i) (cpc s i)" by (rule cons)
  have upd: "pool_inv dn k (s\<lparr>dq := (dq s)\<lparr>vals := (vals (dq s))[x := v]\<rparr>, cpc := (cpc s)(i := pc')\<rparr>) q T n"
    if x: "slot_holder s i x" and pc': "held pc' = None \<and> v = nil_eface \<or> held pc' = held (cpc s i)"
      "cons_inv dn ((dq s)\<lparr>vals := (vals (dq s))[x := v]\<rparr>) (at_tail q i) pc'" for x v pc'
  proof -
    let ?d = "(dq s)\<lparr>vals := (vals (dq s))[x := v]\<rparr>" and ?s = "s\<lparr>dq := (dq s)\<lparr>vals := (vals (dq s))[x := v]\<rparr>, cpc := (cpc s)(i := pc')\<rparr>"
    note ox = owner_holder [OF own x]
    have hold: "slot_holder ?s j y \<longleftrightarrow> (if j = i then held pc' \<noteq> None \<and> y = x else slot_holder s j y)" for j y
      using x pc'(1) by (auto simp: slot_holder_def)
    have "queue_inv dn k ?d (queue q) T n" by (rule queue_inv_vals [OF que ox(2)])
    moreover have "cons_inv dn ?d (at_tail q j) (cpc s j)" if "j \<noteq> i" for j
      by (rule cons_inv_vals [OF cons]) (use ox(4) [of j] that in \<open>auto simp: slot_holder_def\<close>)
    moreover have "prod_inv dn k ?d q T n (ppc s)"
      using prod ox(3) by (cases "ppc s") auto
    moreover have "owner_inv k ?s T n"
      unfolding owner_inv_def hold
    proof (intro conjI allI impI)
      fix j y assume h: "if j = i then held pc' \<noteq> None \<and> y = x else slot_holder s j y"
      then have "\<exists>j. slot_holder s j y" using x by (metis (full_types))
      then obtain j' where "slot_holder s j' y" by blast
      note o = owner_holder [OF own this]
      show "y < 2 ^ k" "y \<notin> window k T n" "owns_head (ppc ?s) \<Longrightarrow> y \<noteq> ?S" using o by simp_all
    next
      fix j j' y
      assume "if j = i then held pc' \<noteq> None \<and> y = x else slot_holder s j y" "if j' = i then held pc' \<noteq> None \<and> y = x else slot_holder s j' y"
      then show "j = j'" using ox(4) owner_holder(4) [OF own] by (metis (full_types))
    next
      fix y
      assume y: "y < 2 ^ k" "y \<notin> window k T n" "\<forall>j. \<not> (if j = i then held pc' \<noteq> None \<and> y = x else slot_holder s j y)"
        "\<not> (owns_head (ppc ?s) \<and> y = ?S)"
      show "vals (dq ?s) ! y = nil_eface"
      proof (cases "y = x")
        case True
        then have "held pc' = None" using y(3) by (metis (full_types))
        moreover have "held (cpc s i) \<noteq> None" using x by (auto simp: slot_holder_def)
        ultimately show ?thesis using pc'(1) True ox(1) len(1) by auto
      next
        case False
        have "\<not> slot_holder s i y" using x False by (auto simp: slot_holder_def)
        then have "\<forall>j. \<not> slot_holder s j y" using y(3) by (metis (full_types))
        then show ?thesis using owner_empty [OF own y(1,2)] y(4) False by simp
      qed
    qed
    ultimately show ?thesis using pc'(2) by (simp add: pool_inv_def)
  qed
  show ?thesis
  proof (cases "cpc s i")
    case CIdle
    then show ?thesis using assms(4) cons_moves [OF inv ci refl] by (auto simp: popTail_step_def intro!: exI)
  next
    case TailLoad
    have run: "(d, pc, e) = (if n = 0 then (dq s, CIdle, TailEmpty)
        else (dq s, TailCas (headTail (dq s)) (of_nat (T + n)) (of_nat T), Tau))"
      unfolding assms(4) [symmetric] popTail_step_def TailLoad cons_pc.case pool_inv_unpack [OF inv] Let_def prod.case
        dequeue_empty [OF len(2) assms(3)] ..
    show ?thesis
    proof (cases "n = 0")
      case True
      then show ?thesis using run len(3) cons_moves [OF inv, of i CIdle] by (auto simp: TailLoad)
    next
      case False
      have "cons_inv dn (dq s) (at_tail q i) (TailCas (headTail (dq s)) (of_nat (T + n)) (of_nat T))"
        using dequeue_empty [OF len(2) assms(3), of T] False len(4) by (auto simp del: of_nat_add)
      then have "pool_inv dn k (s\<lparr>cpc := (cpc s)(i := TailCas (headTail (dq s)) (of_nat (T + n)) (of_nat T))\<rparr>) q T n"
        by (rule cons_moves [OF inv]) (simp add: TailLoad)
      then show ?thesis using run False by (auto simp del: of_nat_add)
    qed
  next
    case (TailCas ptrs h t)
    show ?thesis
    proof (cases "headTail (dq s) = ptrs")
      case False
      then have "(d, pc, e) = (dq s, TailLoad, Tau)" using assms(4) by (simp add: popTail_step_def TailCas)
      then show ?thesis using cons_moves [OF inv, of i TailLoad] by (auto simp: TailCas)
    next
      case True
      then have "pack (of_nat (T + n)) (of_nat T) = pack h t" "h \<noteq> t" using ci len(4) by (simp_all add: TailCas)
      then have ht: "h = of_nat (T + n)" "t = of_nat T" "n \<noteq> 0"
        unfolding pack_eq using dequeue_empty [OF len(2) assms(3), of T] by auto
      then obtain m where m: "n = Suc m" by (cases n) auto
      let ?d = "(dq s)\<lparr>headTail := pack h (t + 1)\<rparr>" and ?x = "T mod 2 ^ k"
      let ?s = "s\<lparr>dq := ?d, cpc := (cpc s)(i := TailRead t)\<rparr>"
      have run: "(d, pc, e) = (?d, TailRead t, TailTaken)" using assms(4) True by (simp add: popTail_step_def TailCas)
      obtain v vs where q: "queue q = v # vs" using len(3) m by (cases "queue q") auto
      have ring: "ring (vals (dq s)) (Suc T) m = map (to_slot dn) vs" "vals (dq s) ! ?x = to_slot dn v"
        using que len(1) by (simp_all add: queue_inv_def m q ring_Cons)
      have x: "slot_index (dq s) t = ?x" unfolding ht(2) by (rule slot_of_position [OF len(1) assms(3)])
      have win: "window k T n = insert ?x (window k (Suc T) m)" "?x \<notin> window k (Suc T) m"
        using window_tl [of n k T] window_tail [of n k T] len(2) by (simp_all add: m)
      have hold: "slot_holder ?s j y \<longleftrightarrow> (if j = i then y = ?x else slot_holder s j y)" for j y
        by (auto simp: slot_holder_def x)
      have no: "\<not> slot_holder s i y" for y by (simp add: slot_holder_def TailCas)
      have S: "owns_head (ppc s) \<Longrightarrow> ?x \<noteq> ?S"
      proof -
        assume "owns_head (ppc s)"
        then have "n < 2 ^ k" using prod by (cases "ppc s") auto
        then show "?x \<noteq> ?S" using window_head [of n k T] win(1) by auto
      qed
      have "h = of_nat (Suc T + m)" "t + 1 = of_nat (Suc T)" using ht by (simp_all add: m)
      then have "queue_inv dn k ?d vs (Suc T) m" using que ring(1) by (simp add: queue_inv_def m q add.commute)
      moreover have "owner_inv k ?s (Suc T) m"
        unfolding owner_inv_def hold
      proof (intro conjI allI impI)
        fix j y assume h: "if j = i then y = ?x else slot_holder s j y"
        have "y < 2 ^ k \<and> y \<notin> window k (Suc T) m \<and> (owns_head (ppc s) \<longrightarrow> y \<noteq> ?S)"
        proof (cases "j = i")
          case True
          then have "y = ?x" using h by simp
          then show ?thesis using win(2) S by simp
        next
          case False
          then have "slot_holder s j y" using h by simp
          note o = owner_holder [OF own this]
          show ?thesis using o(1,2,3) unfolding win(1) by blast
        qed
        then show "y < 2 ^ k" "y \<notin> window k (Suc T) m" "owns_head (ppc ?s) \<Longrightarrow> y \<noteq> (Suc T + m) mod 2 ^ k"
          by (simp_all add: m)
      next
        fix j j' y assume "if j = i then y = ?x else slot_holder s j y" "if j' = i then y = ?x else slot_holder s j' y"
        then show "j = j'"
          using owner_holder(2) [OF own, of j y] owner_holder(2) [OF own, of j' y] owner_holder(4) [OF own, of j y j'] win(1)
          by (metis insertI1)
      next
        fix y
        assume y: "y < 2 ^ k" "y \<notin> window k (Suc T) m" "\<forall>j. \<not> (if j = i then y = ?x else slot_holder s j y)"
          "\<not> (owns_head (ppc ?s) \<and> y = (Suc T + m) mod 2 ^ k)"
        have "y \<noteq> ?x" using y(3) by (metis (full_types))
        moreover have "\<forall>j. \<not> slot_holder s j y" using y(3) no by (metis (full_types))
        ultimately show "vals (dq ?s) ! y = nil_eface"
          using owner_empty [OF own y(1)] y(2,4) win(1) by (simp add: m)
      qed
      moreover have "prod_inv dn k ?d (q\<lparr>queue := vs, at_tail := (at_tail q)(i := v)\<rparr>) (Suc T) m (ppc s)"
        using prod by (cases "ppc s") (auto simp: m)
      moreover have "cons_inv dn ?d v (TailRead t)" using ring(2) x que by (simp add: queue_inv_def q)
      ultimately have "pool_inv dn k ?s (q\<lparr>queue := vs, at_tail := (at_tail q)(i := v)\<rparr>) (Suc T) m"
        using cons by (simp add: pool_inv_def)
      then show ?thesis using run by (auto simp: q)
    qed
  next
    case (TailRead t)
    then have v: "proper dn (at_tail q i)" "vals (dq s) ! slot_index (dq s) t = to_slot dn (at_tail q i)" using ci by auto
    have run: "(d, pc, e) = (dq s, TailVal t (at_tail q i), Tau)"
      unfolding assms(4) [symmetric] popTail_step_def TailRead cons_pc.case v(2) of_to_slot [OF v(1)] ..
    then show ?thesis
      using v to_slot_typ [OF v(1) assms(2)] cons_moves [OF inv, of i "TailVal t (at_tail q i)"] by (auto simp: TailRead)
  next
    case (TailVal t w)
    let ?x = "slot_index (dq s) t"
    have h: "slot_holder s i ?x" by (simp add: slot_holder_def TailVal)
    have run: "(d, pc, e) = ((dq s)\<lparr>vals := (vals (dq s))[?x := (vals (dq s) ! ?x)\<lparr>ef_val := 0\<rparr>]\<rparr>, TailTyp t w, Tau)"
      using assms(4) by (simp add: popTail_step_def TailVal Let_def)
    have "pool_inv dn k (s\<lparr>dq := (dq s)\<lparr>vals := (vals (dq s))[?x := (vals (dq s) ! ?x)\<lparr>ef_val := 0\<rparr>]\<rparr>,
        cpc := (cpc s)(i := TailTyp t w)\<rparr>) q T n"
      using ci owner_holder(1) [OF own h] len(1) by (intro upd [OF h]) (auto simp: TailVal)
    then show ?thesis using run by auto
  next
    case (TailTyp t w)
    let ?x = "slot_index (dq s) t"
    have h: "slot_holder s i ?x" by (simp add: slot_holder_def TailTyp)
    have run: "(d, pc, e) = ((dq s)\<lparr>vals := (vals (dq s))[?x := (vals (dq s) ! ?x)\<lparr>ef_typ := 0\<rparr>]\<rparr>, CIdle, TailRet w)"
      using assms(4) by (simp add: popTail_step_def TailTyp Let_def)
    have "(vals (dq s) ! ?x)\<lparr>ef_typ := 0\<rparr> = nil_eface"
      using ci by (cases "vals (dq s) ! ?x") (simp add: TailTyp nil_eface_def)
    then have "pool_inv dn k (s\<lparr>dq := (dq s)\<lparr>vals := (vals (dq s))[?x := (vals (dq s) ! ?x)\<lparr>ef_typ := 0\<rparr>]\<rparr>,
        cpc := (cpc s)(i := CIdle)\<rparr>) q T n"
      by (intro upd [OF h]) (auto simp: TailTyp)
    then show ?thesis using run ci by (auto simp: TailTyp)
  qed
qed

lemma dequeueLimit_iff: "2 ^ k \<le> dequeueLimit \<longleftrightarrow> k \<le> 30"
proof -
  have "dequeueLimit = 2 ^ 30" by (simp add: dequeueLimit_def dequeueBits_def)
  then show ?thesis using power_increasing_iff [of "2 :: nat" k 30] by simp
qed

lemma pool_inv_init:
  assumes "vals d = replicate (2 ^ k) nil_eface" "headTail d = 0" "queue q = []"
  shows "pool_inv dn k \<lparr>dq = d, ppc = PIdle, cpc = \<lambda>_. CIdle\<rparr> q 0 0"
  using assms by (auto simp: pool_inv_def queue_inv_def owner_inv_def slot_holder_def pack_zero length_0_conv [symmetric]
      simp del: length_0_conv)

lemma pool_reach_inv:
  assumes "pool_reach dn k s q" "dn \<noteq> 0" "2 ^ k \<le> dequeueLimit"
  shows "\<exists>T n. pool_inv dn k s q T n"
  using assms(1)
proof (induction rule: pool_reach.induct)
  case (init d q)
  then show ?case using pool_inv_init by blast
next
  case (pushHead s q v)
  then obtain T n where "pool_inv dn k s q T n" by blast
  then show ?case using prod_moves [of dn k s q T n "PushLoad v"] pushHead.hyps by auto
next
  case (popHead s q)
  then obtain T n where "pool_inv dn k s q T n" by blast
  then show ?case using prod_moves [of dn k s q T n PopLoad] popHead.hyps by auto
next
  case (popTail s q i)
  then obtain T n where "pool_inv dn k s q T n" by blast
  then show ?case using cons_moves [of dn k s q T n i TailLoad] popTail.hyps by auto
next
  case (push_step s q d pc e)
  then show ?case using pushHead_inv assms(2,3) dequeueLimit_iff by metis
next
  case (pop_step s q d pc e)
  then show ?case using popHead_inv assms(2,3) dequeueLimit_iff by metis
next
  case (tail_step s q i d pc e)
  then show ?case using popTail_inv assms(2,3) dequeueLimit_iff by metis
qed

text \<open>The slots of the values in the queue, from the two indices.\<close>

definition live_slots :: "poolDequeue \<Rightarrow> nat set" where
  "live_slots d = (let (head, tail) = unpack (headTail d) in (\<lambda>j. slot_index d (tail + of_nat j)) ` {..<unat (head - tail)})"

lemma live_slots_window:
  assumes "pool_inv dn k s q T n" "k \<le> 30"
  shows "live_slots (dq s) = window k T n" "n = length (queue q)"
proof -
  have que: "queue_inv dn k (dq s) (queue q) T n" using assms(1) by (simp add: pool_inv_def)
  then have len: "length (vals (dq s)) = 2 ^ k" "n \<le> 2 ^ k" by (simp_all add: queue_inv_def)
  have "(2 :: nat) ^ k \<le> 2 ^ 30" using power_increasing [OF assms(2), of "2 :: nat"] by simp
  then have "unat (of_nat n :: u32) = n" using len(2) by (simp add: unat_of_nat)
  moreover have "slot_index (dq s) (of_nat T + of_nat j) = (T + j) mod 2 ^ k" for j
    using slot_of_position [OF len(1) assms(2), of "T + j"] by simp
  ultimately show "live_slots (dq s) = window k T n"
    unfolding live_slots_def pool_inv_unpack [OF assms(1)] window_def by simp
  show "n = length (queue q)" by (rule queue_inv_length [OF que])
qed

lemma card_window: "n \<le> 2 ^ k \<Longrightarrow> card (window k T n) = n"
proof (induction n)
  case (Suc n)
  then show ?case using window_head [of n k T] by (simp add: window_Suc) (simp add: window_def)
qed (simp add: window_def)

lemma owns_head_room: "pool_inv dn k s q T n \<Longrightarrow> owns_head (ppc s) \<Longrightarrow> n < 2 ^ k"
  by (cases "ppc s") (simp_all add: pool_inv_def)

section \<open>Runs\<close>

text \<open>A schedule, as a list of moves; a move that is not enabled does nothing.\<close>

datatype pool_move = BeginPush eface | BeginPopHead | BeginPopTail nat | PushStep | PopStep | TailStep nat

fun move :: "nat \<Rightarrow> pool_move \<Rightarrow> pool_sys \<times> deque \<Rightarrow> pool_sys \<times> deque" where
  "move dn (BeginPush v) (s, q) = (if ppc s = PIdle \<and> proper dn v then (s\<lparr>ppc := PushLoad v\<rparr>, q) else (s, q))"
| "move dn BeginPopHead (s, q) = (if ppc s = PIdle then (s\<lparr>ppc := PopLoad\<rparr>, q) else (s, q))"
| "move dn (BeginPopTail i) (s, q) = (if cpc s i = CIdle then (s\<lparr>cpc := (cpc s)(i := TailLoad)\<rparr>, q) else (s, q))"
| "move dn PushStep (s, q) = (let (d, pc, e) = pushHead_step dn (ppc s) (dq s) in (s\<lparr>dq := d, ppc := pc\<rparr>, effect 0 e q))"
| "move dn PopStep (s, q) = (let (d, pc, e) = popHead_step dn (ppc s) (dq s) in (s\<lparr>dq := d, ppc := pc\<rparr>, effect 0 e q))"
| "move dn (TailStep i) (s, q) = (let (d, pc, e) = popTail_step dn (cpc s i) (dq s) in
     (s\<lparr>dq := d, cpc := (cpc s)(i := pc)\<rparr>, effect i e q))"

lemma move_reach: "pool_reach dn k s q \<Longrightarrow> move dn m (s, q) = (s', q') \<Longrightarrow> pool_reach dn k s' q'"
  by (cases m) (auto simp: Let_def split: prod.splits if_splits intro: pool_reach.intros)

lemma fold_move_reach:
  "pool_reach dn k (fst p) (snd p) \<Longrightarrow> pool_reach dn k (fst (fold (move dn) ms p)) (snd (fold (move dn) ms p))"
proof (induction ms arbitrary: p)
  case (Cons m ms)
  then show ?case using move_reach [of dn k "fst p" "snd p" m] by simp
qed simp

definition pool_start :: "nat \<Rightarrow> pool_sys \<times> deque" where
  "pool_start k = (\<lparr>dq = \<lparr>headTail = 0, vals = replicate (2 ^ k) nil_eface\<rparr>, ppc = PIdle, cpc = \<lambda>_. CIdle\<rparr>,
     \<lparr>queue = [], at_head = nil_eface, at_tail = \<lambda>_. nil_eface\<rparr>)"

lemma pool_start_reach: "pool_reach dn k (fst (pool_start k)) (snd (pool_start k))"
  by (simp add: pool_start_def pool_reach.init)

text \<open>
  In a queue of two slots the producer pushes \<open>nil\<close> and another value, a consumer takes the first one and has not
  emptied its slot; the producer has read the type word of that slot and found it in use.
\<close>

definition pool_example :: "pool_sys \<times> deque" where
  "pool_example = fold (move 1)
     ([BeginPush nil_eface, PushStep, PushStep, PushStep, PushStep,
       BeginPush \<lparr>ef_typ = 2, ef_val = 7\<rparr>, PushStep, PushStep, PushStep, PushStep,
       BeginPopTail 0, TailStep 0, TailStep 0, TailStep 0, TailStep 0,
       BeginPush \<lparr>ef_typ = 3, ef_val = 8\<rparr>, PushStep]) (pool_start 1)"

lemma pool_example_reach: "pool_reach 1 1 (fst pool_example) (snd pool_example)"
  unfolding pool_example_def by (rule fold_move_reach [OF pool_start_reach])

section \<open>Properties\<close>

text \<open>
  C33: \<open>poolDequeue\<close> is linearizable, for any interleaving of one producer and any number of consumers and also when
  the indices wrap around: each call takes effect at one step, on a queue where \<open>pushHead\<close> adds at one end,
  \<open>popHead\<close> takes from that end and \<open>popTail\<close> takes from the other (\<open>effect\<close>). A call returns exactly the value that
  it took, with a \<open>nil\<close> among the values given back as \<open>nil\<close>; nothing is taken from an empty queue and nothing is
  pushed beyond the capacity; and a pop fails only when the queue is empty, a push only when the queue is full or a
  consumer has still to empty the slot at the head.
\<close>
theorem pool_linearizable:
  assumes "pool_reach dn k s q" "dn \<noteq> 0" "2 ^ k \<le> dequeueLimit"
  shows "sound k s q (at_head q) (snd (snd (pushHead_step dn (ppc s) (dq s))))
       \<and> sound k s q (at_head q) (snd (snd (popHead_step dn (ppc s) (dq s))))
       \<and> sound k s q (at_tail q i) (snd (snd (popTail_step dn (cpc s i) (dq s))))"
proof -
  obtain T n where inv: "pool_inv dn k s q T n" using pool_reach_inv [OF assms] by blast
  have k: "k \<le> 30" using assms(3) dequeueLimit_iff by simp
  show ?thesis
  proof (intro conjI)
    show "sound k s q (at_head q) (snd (snd (pushHead_step dn (ppc s) (dq s))))"
      by (cases "pushHead_step dn (ppc s) (dq s)") (use pushHead_inv [OF inv assms(2) k] in simp)
    show "sound k s q (at_head q) (snd (snd (popHead_step dn (ppc s) (dq s))))"
      by (cases "popHead_step dn (ppc s) (dq s)") (use popHead_inv [OF inv assms(2) k] in simp)
    show "sound k s q (at_tail q i) (snd (snd (popTail_step dn (cpc s i) (dq s))))"
      by (cases "popTail_step dn (cpc s i) (dq s)") (use popTail_inv [OF inv assms(2) k] in simp)
  qed
qed

theorem pool_linearizable_witness:
  "pool_reach 1 1 (fst pool_example) (snd pool_example)
   \<and> sound 1 (fst pool_example) (snd pool_example) (at_head (snd pool_example)) (PushBusy 0)
   \<and> sound 1 (fst pool_example) (snd pool_example) (at_tail (snd pool_example) 0) (TailRet nil_eface)"
proof -
  have "snd (snd (pushHead_step 1 (ppc (fst pool_example)) (dq (fst pool_example)))) = PushBusy 0" by code_simp
  moreover have "snd (snd (popTail_step 1 (cpc (fst pool_example) 0) (dq (fst pool_example)))) = TailRet nil_eface" by code_simp
  moreover have "(2 :: nat) ^ 1 \<le> dequeueLimit" by (simp add: dequeueLimit_def dequeueBits_def)
  ultimately show ?thesis
    using pool_linearizable [OF pool_example_reach, of 0] pool_example_reach by (metis one_neq_zero)
qed

text \<open>
  C34: the slots of \<open>poolDequeue\<close> have one owner at a time: a slot that a consumer is emptying is not a slot of the
  queue, not the slot that the producer fills or empties, and no other consumer is at it; and every slot that holds
  no value of the queue and that no goroutine owns is zero, so that the queue keeps no object alive after it has
  been returned.
\<close>
theorem pool_slot_owners:
  assumes "pool_reach dn k s q" "dn \<noteq> 0" "2 ^ k \<le> dequeueLimit"
  shows "card (live_slots (dq s)) = length (queue q)
       \<and> (\<forall>i x. slot_holder s i x \<longrightarrow> x \<notin> live_slots (dq s) \<and> (\<forall>j. slot_holder s j x \<longrightarrow> j = i))
       \<and> (owns_head (ppc s) \<longrightarrow> slot_index (dq s) (fst (unpack (headTail (dq s)))) \<notin> live_slots (dq s)
            \<and> (\<forall>i. \<not> slot_holder s i (slot_index (dq s) (fst (unpack (headTail (dq s)))))))
       \<and> (\<forall>x < 2 ^ k. x \<in> live_slots (dq s) \<or> (\<exists>i. slot_holder s i x)
            \<or> (owns_head (ppc s) \<and> x = slot_index (dq s) (fst (unpack (headTail (dq s))))) \<or> vals (dq s) ! x = nil_eface)"
proof -
  obtain T n where inv: "pool_inv dn k s q T n" using pool_reach_inv [OF assms] by blast
  have k: "k \<le> 30" using assms(3) dequeueLimit_iff by simp
  note live = live_slots_window [OF inv k]
  have own: "owner_inv k s T n" and len: "length (vals (dq s)) = 2 ^ k" "n \<le> 2 ^ k"
    using inv by (simp_all add: pool_inv_def queue_inv_def)
  have head: "slot_index (dq s) (fst (unpack (headTail (dq s)))) = (T + n) mod 2 ^ k"
    unfolding pool_inv_unpack [OF inv] fst_conv by (rule slot_of_position [OF len(1) k])
  have "(T + n) mod 2 ^ k \<notin> window k T n" if "owns_head (ppc s)"
    by (rule window_head, rule owns_head_room [OF inv that])
  then show ?thesis
    unfolding live(1) head
  proof (intro conjI allI impI)
    show "card (window k T n) = length (queue q)" using live(2) card_window [OF len(2)] by simp
  next
    fix i x assume h: "slot_holder s i x"
    show "x \<notin> window k T n" by (rule owner_holder(2) [OF own h])
    fix j assume "slot_holder s j x"
    then show "j = i" using owner_holder(4) [OF own h] by simp
  next
    fix i assume "owns_head (ppc s)"
    then show "\<not> slot_holder s i ((T + n) mod 2 ^ k)" using owner_holder(3) [OF own] by blast
  next
    fix x :: nat assume "x < 2 ^ k"
    then show "x \<in> window k T n \<or> (\<exists>i. slot_holder s i x) \<or> owns_head (ppc s) \<and> x = (T + n) mod 2 ^ k
        \<or> vals (dq s) ! x = nil_eface"
      using owner_empty [OF own] by blast
  qed blast
qed

theorem pool_slot_owners_witness:
  "slot_holder (fst pool_example) 0 0 \<and> live_slots (dq (fst pool_example)) = {1}
   \<and> 0 \<notin> live_slots (dq (fst pool_example)) \<and> length (queue (snd pool_example)) = card (live_slots (dq (fst pool_example)))"
proof -
  have h: "held (cpc (fst pool_example) 0) = Some 0 \<and> slot_index (dq (fst pool_example)) 0 = 0" by code_simp
  then have "slot_holder (fst pool_example) 0 0" by (simp add: slot_holder_def)
  moreover have "live_slots (dq (fst pool_example)) = {1}"
  proof -
    have u: "unpack (headTail (dq (fst pool_example))) = (2, 1) \<and> slot_index (dq (fst pool_example)) 1 = 1" by code_simp
    have "{..<Suc 0} = {0}" by auto
    then show ?thesis using u by (simp add: live_slots_def)
  qed
  moreover have limit: "(2 :: nat) ^ 1 \<le> dequeueLimit" by (simp add: dequeueLimit_def dequeueBits_def)
  ultimately show ?thesis
    using pool_slot_owners [OF pool_example_reach one_neq_zero limit] by (metis (no_types, lifting))
qed

end
