(* ===== verification/Spec2Isabelle.thy ===== *)
theory Spec2Isabelle
  imports GoPrelude Chan SelectOrder Select Rselect SelectSys SemaRoot RunQueue StealOrder Mutex FdMutex
    SortBase HeapSort Sort StableSort
    GoWords Utf8 Buffer Varint MathBits MathWide MathDiv StrconvFormat StrconvParse
    LockSpec RWMutex Once WaitGroup CondVar PoolQueue
begin

text \<open>
  A verification of core parts of the Go runtime and standard library annotated in this
  repository; paths below are under \<open>src/go/src\<close>.

  \<^bold>\<open>The program.\<close> Goroutines run on Ps, which keep them in local and global run queues
  (\<open>runtime/proc.go\<close>). They communicate over channels (\<open>runtime/chan.go\<close>) and synchronise with the
  primitives of package \<open>sync\<close>, which sleep on the semaphores of \<open>runtime/sema.go\<close>: \<open>RWMutex\<close> and \<open>Once\<close>
  are built on \<open>Mutex\<close>, and \<open>internal/poll\<close> protects each file descriptor with an \<open>fdMutex\<close>. Above them
  are the packages every program uses: \<open>sort\<close> and \<open>container/heap\<close>, \<open>unicode/utf8\<close>, \<open>bytes\<close> (whose \<open>Buffer\<close>
  reads and writes runes with \<open>unicode/utf8\<close>), \<open>encoding/binary\<close>.

  \<^bold>\<open>Theories.\<close>
  \<^item> \<open>GoPrelude\<close>: word types, the ring-buffer view shared by channels and run queues, tallies of
    goroutines, and the locale \<open>fifo_queue\<close>, which the wait queues of channels (\<open>Chan\<close>), the linked
    queues of goroutines (\<open>GQueue\<close>) and the ring of a P (\<open>RunQueue\<close>) provide. \<open>GoWords\<close>: bit operations
    on machine words read as arithmetic.
  \<^item> \<open>Chan\<close>: \<open>runtime/chan.go\<close>. A record \<open>hchan\<close> with the fields of the struct and one function per critical
    section; histories of operations show the channel to be a FIFO queue, that nobody sleeps
    without need, and what \<open>close\<close> and \<open>make\<close> do.
  \<^item> \<open>SelectOrder\<close>, \<open>Select\<close>, \<open>Rselect\<close>, \<open>SelectSys\<close>: \<open>runtime/select.go\<close>. The random order of polling and the heap
    sort that gives the order of locks; the passes of \<open>selectgo\<close>, which takes the first case that can proceed as a
    single operation on its channel would; \<open>reflect_rselect\<close>; and goroutines that send, receive, close and select on
    any number of channels, of whose entries in the wait queues an invariant says that a \<open>select\<close> fires once and
    that nobody waits without need.
  \<^item> \<open>GQueue\<close>, \<open>RunQueue\<close>, \<open>StealOrder\<close>: the scheduler's queues of \<open>runtime/proc.go\<close>. Intrusive lists are a store
    of links that represents a list; putting, getting, draining, refilling and stealing neither lose
    nor duplicate a goroutine, with counters that wrap around at 32 bits; the pseudo-random order of
    stealing visits every P once.
  \<^item> \<open>Mutex\<close>, \<open>FdMutex\<close>, \<open>RWMutex\<close>, \<open>Once\<close>, \<open>WaitGroup\<close>: \<open>sync/*.go\<close>, \<open>internal/poll/fd_mutex.go\<close>. Each is a state
    with the machine words of the code and the program point of every goroutine; a step function
    runs one goroutine to its next access to shared state, an inductive predicate collects the
    reachable states of any number of goroutines, and an invariant that relates the words to tallies
    of the program points gives exclusion, the absence of deadlock and of lost wake-ups, and
    hand-off. \<open>LockSpec\<close> states what the users of a \<open>Mutex\<close> rely on as the locales \<open>exclusive_lock\<close> and
    \<open>live_lock\<close>, provided by \<open>Mutex\<close> and used by \<open>RWMutex\<close> and \<open>Once\<close>, whose steps interleave with those of
    the mutex inside them.
    \<open>Mutex\<close> steps through \<open>semacquire1\<close> and \<open>semrelease1\<close> of \<open>runtime/sema.go\<close> too, with the lock of the root, the
    count of waiters \<open>nwait\<close> and the checks made without that lock; for the others a semaphore is a count.
  \<^item> \<open>SemaRoot\<close>: the treap in which \<open>runtime/sema.go\<close> finds the goroutines that sleep on an address, with its sudogs,
    links, rotations and wait lists in a store. It refines one first-in first-out queue for each address, the
    queue that \<open>Mutex\<close> relies on.
  \<^item> \<open>CondVar\<close>: \<open>sync/cond.go\<close> on the notification list of \<open>runtime/sema.go\<close>, stepped in the same way. Ghost counters
    number the tickets; while no goroutine is \<open>2 ^ 31\<close> notifications late no wakeup is lost and \<open>Signal\<close> serves
    the oldest waiter, and a run of three goroutines shows what happens beyond.
  \<^item> \<open>PoolQueue\<close>: \<open>poolDequeue\<close> of \<open>sync/poolqueue.go\<close>, the lock-free ring of \<open>sync.Pool\<close>, stepped in the same way for
    one producer and any number of consumers. Ghost positions without bound stand behind the two 32-bit indices;
    the invariant gives every slot one owner, and each call takes effect at one step on a double-ended queue.
  \<^item> \<open>SortBase\<close>, \<open>HeapSort\<close>, \<open>Sort\<close>, \<open>StableSort\<close>: \<open>sort/sort.go\<close>, \<open>sort/search.go\<close>, \<open>container/heap/heap.go\<close>, over any \<open>Less\<close> that is a
    strict weak order (locale \<open>less_order\<close>, provided by \<open>IntSlice\<close> and its reverse). All of quicksort,
    heapsort and insertion sort with the thresholds of the code; the result is sorted and a
    permutation, and equals the library's \<open>sort\<close> for integers; the stable sort, whose in-place merges are those
    of the code, keeps equal elements in order and equals \<open>sort_key\<close>.
  \<^item> \<open>Utf8\<close>, \<open>Buffer\<close>, \<open>Varint\<close>: \<open>unicode/utf8/utf8.go\<close>, \<open>bytes/buffer.go\<close>, \<open>encoding/binary/varint.go\<close>. Encodings
    round-trip and are exactly those of RFC 3629 and of protocol buffers; \<open>Buffer\<close> refines a byte
    queue, for every sequence of its operations.
  \<^item> \<open>MathBits\<close>, \<open>MathWide\<close>, \<open>MathDiv\<close>: \<open>math/bits/bits.go\<close> with its tables. Counting, mirroring and rotating bits,
    and the arithmetic on two words, are what the mathematical definitions say; the long division of
    \<open>Div64\<close> is exact. The functions on \<open>uint\<close> take its width as a parameter.
  \<^item> \<open>StrconvFormat\<close>, \<open>StrconvParse\<close>: \<open>strconv/itoa.go\<close>, \<open>strconv/atoi.go\<close>. Every way in which \<open>formatBits\<close> makes digits gives
    the same text; parsing is exact against numbers without bounds, errors included, inverts
    formatting, and \<open>Atoi\<close>'s fast path agrees with \<open>ParseInt\<close>.

  \<^bold>\<open>Conventions and bounds.\<close> A panic, a \<open>throw\<close> and an error are values. Machine integers have their width
  where they can wrap; the number of goroutines is below \<open>2 ^ 28\<close> (the room of the waiter count of a
  \<open>Mutex\<close>, which \<open>RWMutex\<close> and \<open>Once\<close> inherit) or \<open>2 ^ 31\<close> (\<open>WaitGroup\<close>, \<open>CondVar\<close>). No fuel is used: every loop is a
  recursive function with a termination proof, but for loops that end only for sensible arguments (in the stable
  sort, in the treap of \<open>SemaRoot\<close>), which are partial functions with a theorem that they return. Compare-and-swap loops are steps that fail and retry.
  Memory is sequentially consistent, as Go specifies for its atomic operations.

  \<^bold>\<open>Not modelled.\<close> Interference between Ps inside one
  run-queue operation; the race detector,
  profiling and tracing hooks (off in a normal build); the memory allocator, the garbage collector,
  stacks and assembly, whose behaviour is that of hardware and operating system; the compiler and
  the tools (\<open>cmd\<close>); packages of I/O (\<open>net\<close>, \<open>os\<close>, \<open>syscall\<close>), whose meaning is outside of the repository;
  vendored and generated code. Maps, timers, \<open>context\<close>, \<open>sync.Map\<close>, and of \<open>sync.Pool\<close> what is above \<open>poolDequeue\<close>, are not modelled.
\<close>

end
